(* ===== verification/Prelude.thy ===== *)
theory Prelude
  imports Main "HOL-Library.Char_ord" "HOL-Library.List_Lexorder"
begin

text \<open>
  Shared vocabulary of the development.

  \<^item> \<open>error\<close> and \<open>'a result\<close>: the \<open>anyhow::Result\<close> of the Rust sources. \<open>Bail\<close> carries the
    message of a \<open>bail!\<close>, \<open>ensure!\<close> or \<open>.context(..)\<close> on an absent value; \<open>Context\<close> is a
    context added to another error; \<open>Panic\<close> is an arithmetic panic; \<open>Io\<close> is a failed request
    of the operating system or a remote service.
  \<^item> \<open>bindR\<close>, \<open>require\<close>, \<open>some_or\<close>: the question mark operator, \<open>ensure!\<close> and \<open>.context\<close>.
  \<^item> \<open>u64_max\<close> and the checked and saturating operations of 64-bit counters, kept as naturals
    with their bound written out.
  \<^item> strings: byte lists; \<open>split_on\<close> is \<open>str::split\<close>, \<open>strip_prefix\<close> is \<open>str::strip_prefix\<close>,
    \<open>dec\<close> prints a number in decimal.
\<close>

section \<open>Results\<close>

datatype error = Bail string | Context string error | Panic string | Io string

type_synonym 'a result = "error + 'a"

named_theorems result_simps \<open>rewriting of the result combinators\<close>

definition bail :: "string \<Rightarrow> 'a result" where
  "bail msg = Inl (Bail msg)"

definition bindR :: "'a result \<Rightarrow> ('a \<Rightarrow> 'b result) \<Rightarrow> 'b result" where
  "bindR m f = (case m of Inl e \<Rightarrow> Inl e | Inr x \<Rightarrow> f x)"

definition require :: "bool \<Rightarrow> string \<Rightarrow> unit result" where
  "require c msg = (if c then Inr () else bail msg)"

definition some_or :: "'a option \<Rightarrow> string \<Rightarrow> 'a result" where
  "some_or v msg = (case v of None \<Rightarrow> bail msg | Some x \<Rightarrow> Inr x)"

definition with_context :: "string \<Rightarrow> 'a result \<Rightarrow> 'a result" where
  "with_context msg m = (case m of Inl e \<Rightarrow> Inl (Context msg e) | Inr x \<Rightarrow> Inr x)"

definition is_ok :: "'a result \<Rightarrow> bool" where
  "is_ok m = (case m of Inl _ \<Rightarrow> False | Inr _ \<Rightarrow> True)"

text \<open>A loop that validates every element in order and stops at the first error.\<close>

primrec for_each :: "('a \<Rightarrow> unit result) \<Rightarrow> 'a list \<Rightarrow> unit result" where
  "for_each f [] = Inr ()"
| "for_each f (x # xs) = bindR (f x) (\<lambda>_. for_each f xs)"

text \<open>\<open>iter().map(f).collect::<Result<Vec<_>>>()\<close>.\<close>

primrec mapR :: "('a \<Rightarrow> 'b result) \<Rightarrow> 'a list \<Rightarrow> 'b list result" where
  "mapR f [] = Inr []"
| "mapR f (x # xs) = bindR (f x) (\<lambda>y. bindR (mapR f xs) (\<lambda>ys. Inr (y # ys)))"

text \<open>\<open>try_fold\<close>.\<close>

primrec foldR :: "('s \<Rightarrow> 'a \<Rightarrow> 's result) \<Rightarrow> 's \<Rightarrow> 'a list \<Rightarrow> 's result" where
  "foldR f s [] = Inr s"
| "foldR f s (x # xs) = bindR (f s x) (\<lambda>s'. foldR f s' xs)"

lemma bindR_Inl [simp, result_simps]: "bindR (Inl e) f = Inl e"
  by (simp add: bindR_def)

lemma bindR_Inr [simp, result_simps]: "bindR (Inr x) f = f x"
  by (simp add: bindR_def)

lemma bindR_eq_Inr [result_simps]:
  "bindR m f = Inr y \<longleftrightarrow> (\<exists>x. m = Inr x \<and> f x = Inr y)"
  by (cases m) auto

lemma Inr_eq_bindR [result_simps]:
  "Inr y = bindR m f \<longleftrightarrow> (\<exists>x. m = Inr x \<and> f x = Inr y)"
  by (cases m) auto

lemma bindR_cong [fundef_cong]:
  "m = m' \<Longrightarrow> (\<And>x. m' = Inr x \<Longrightarrow> f x = f' x) \<Longrightarrow> bindR m f = bindR m' f'"
  by (cases m') auto

text \<open>The continuation is simplified only once the result it waits for is known.\<close>

lemma bindR_weak_cong [cong]: "m = m' \<Longrightarrow> bindR m f = bindR m' f"
  by simp

lemma bail_not_Inr [simp]: "bail msg \<noteq> Inr x" and Inr_not_bail [simp]: "Inr x \<noteq> bail msg"
  by (simp_all add: bail_def)

lemma bail_eq [simp]: "(bail a = bail b) \<longleftrightarrow> a = b"
  by (simp add: bail_def)

lemma bindR_bail [simp, result_simps]: "bindR (bail msg) f = bail msg"
  by (simp add: bail_def)

lemma require_eq_Inr [simp, result_simps]: "require c msg = Inr u \<longleftrightarrow> c"
  by (simp add: require_def)

lemma Inr_eq_require [simp, result_simps]: "Inr u = require c msg \<longleftrightarrow> c"
  by (simp add: require_def)

lemma require_True [simp]: "require True msg = Inr ()"
  by (simp add: require_def)

lemma require_False [simp]: "require False msg = bail msg"
  by (simp add: require_def)

lemma some_or_eq_Inr [simp, result_simps]: "some_or v msg = Inr x \<longleftrightarrow> v = Some x"
  by (cases v) (auto simp: some_or_def)

lemma some_or_Some [simp]: "some_or (Some x) msg = Inr x"
  by (simp add: some_or_def)

lemma some_or_None [simp]: "some_or None msg = bail msg"
  by (simp add: some_or_def)

lemma with_context_eq_Inr [simp, result_simps]: "with_context msg m = Inr x \<longleftrightarrow> m = Inr x"
  by (cases m) (auto simp: with_context_def)

lemma with_context_Inr [simp]: "with_context msg (Inr x) = Inr x"
  by (simp add: with_context_def)

lemma is_ok_simps [simp]: "is_ok (Inr x)" "\<not> is_ok (Inl e)" "\<not> is_ok (bail msg)"
  by (simp_all add: is_ok_def bail_def)

lemma is_ok_iff: "is_ok m \<longleftrightarrow> (\<exists>x. m = Inr x)"
  by (cases m) auto

lemma is_ok_bindR [simp]: "is_ok (bindR m f) \<longleftrightarrow> (\<exists>x. m = Inr x \<and> is_ok (f x))"
  by (cases m) auto

lemma is_ok_require [simp]: "is_ok (require c msg) = c"
  by (simp add: require_def)

lemma unit_result_ok: "is_ok (m :: unit result) \<longleftrightarrow> m = Inr ()"
  by (cases m) auto

lemma for_each_ok [simp, result_simps]:
  "for_each f xs = Inr u \<longleftrightarrow> (\<forall>x \<in> set xs. f x = Inr ())"
  by (induction xs) (auto simp: result_simps)

lemma list_all2_in_left: "list_all2 P xs ys \<Longrightarrow> x \<in> set xs \<Longrightarrow> \<exists>y\<in>set ys. P x y"
  by (induction rule: list_all2_induct) auto

lemma list_all2_in_right: "list_all2 P xs ys \<Longrightarrow> y \<in> set ys \<Longrightarrow> \<exists>x\<in>set xs. P x y"
  by (induction rule: list_all2_induct) auto

lemma mapR_length: "mapR f xs = Inr ys \<Longrightarrow> length ys = length xs"
  by (induction xs arbitrary: ys) (auto simp: result_simps)

lemma mapR_ok: "mapR f xs = Inr ys \<longleftrightarrow> list_all2 (\<lambda>x y. f x = Inr y) xs ys"
  by (induction xs arbitrary: ys) (auto simp: result_simps list_all2_Cons1)

lemma mapR_total: "(\<And>x. x \<in> set xs \<Longrightarrow> f x = Inr (g x)) \<Longrightarrow> mapR f xs = Inr (map g xs)"
  by (induction xs) auto

section \<open>64-bit counters\<close>

definition u64_max :: nat where
  "u64_max = 18446744073709551615"

definition i64_max :: nat where
  "i64_max = 9223372036854775807"

definition checked_add :: "nat \<Rightarrow> nat \<Rightarrow> nat option" where
  "checked_add a b = (if a + b \<le> u64_max then Some (a + b) else None)"

definition saturating_add :: "nat \<Rightarrow> nat \<Rightarrow> nat" where
  "saturating_add a b = min u64_max (a + b)"

lemma checked_add_eq_Some [simp]:
  "checked_add a b = Some c \<longleftrightarrow> c = a + b \<and> a + b \<le> u64_max"
  by (auto simp: checked_add_def)

lemma checked_add_eq_None [simp]: "checked_add a b = None \<longleftrightarrow> u64_max < a + b"
  by (auto simp: checked_add_def)

lemma saturating_add_le: "saturating_add a b \<le> a + b"
  by (simp add: saturating_add_def)

lemma saturating_add_exact: "a + b \<le> u64_max \<Longrightarrow> saturating_add a b = a + b"
  by (simp add: saturating_add_def)

section \<open>Strings\<close>

text \<open>\<open>value.split(c)\<close>: always at least one component.\<close>

fun split_on :: "char \<Rightarrow> string \<Rightarrow> string list" where
  "split_on c [] = [[]]"
| "split_on c (x # xs) =
     (if x = c then [] # split_on c xs
      else (case split_on c xs of [] \<Rightarrow> [[x]] | p # ps \<Rightarrow> (x # p) # ps))"

lemma split_on_nonempty [simp]: "split_on c s \<noteq> []"
  by (cases s) (auto split: list.splits)

lemma split_on_no_sep: "c \<notin> set s \<Longrightarrow> split_on c s = [s]"
  by (induction s) auto

lemma split_on_append: "c \<notin> set s \<Longrightarrow> split_on c (s @ c # t) = s # split_on c t"
  by (induction s) auto

lemma split_on_parts: "p \<in> set (split_on c s) \<Longrightarrow> set p \<subseteq> set s \<and> c \<notin> set p"
  by (induction s arbitrary: p) (auto split: list.splits if_splits, force+)

fun strip_prefix :: "string \<Rightarrow> string \<Rightarrow> string option" where
  "strip_prefix [] s = Some s"
| "strip_prefix (p # ps) [] = None"
| "strip_prefix (p # ps) (x # xs) = (if p = x then strip_prefix ps xs else None)"

lemma strip_prefix_eq_Some [simp]: "strip_prefix p s = Some t \<longleftrightarrow> s = p @ t"
  by (induction p s rule: strip_prefix.induct) auto

lemma strip_prefix_append [simp]: "strip_prefix p (p @ t) = Some t"
  by simp

text \<open>Reading a string back at its first or its last separator.\<close>

lemma sep_first_inj:
  "c \<notin> set a \<Longrightarrow> c \<notin> set b \<Longrightarrow> a @ c # s = b @ c # t \<longleftrightarrow> a = b \<and> s = t"
proof (induction a arbitrary: b)
  case Nil
  then show ?case by (cases b) auto
next
  case (Cons y ys)
  then show ?case by (cases b) auto
qed

lemma sep_last_inj:
  assumes "c \<notin> set s" "c \<notin> set t"
  shows "a @ c # s = b @ c # t \<longleftrightarrow> a = b \<and> s = t"
proof -
  have "a @ c # s = b @ c # t \<longleftrightarrow> rev s @ c # rev a = rev t @ c # rev b"
    by (metis append.assoc append_Cons append_Nil rev.simps(2) rev_append rev_rev_ident)
  also have "\<dots> \<longleftrightarrow> rev s = rev t \<and> rev a = rev b" using assms by (subst sep_first_inj) auto
  finally show ?thesis by auto
qed

text \<open>Byte classes of \<open>u8\<close>.\<close>

definition byte :: "char \<Rightarrow> nat" where
  "byte c = of_char c"

definition is_ascii_digit :: "char \<Rightarrow> bool" where
  "is_ascii_digit c \<longleftrightarrow> 48 \<le> byte c \<and> byte c \<le> 57"

definition is_ascii_lowercase :: "char \<Rightarrow> bool" where
  "is_ascii_lowercase c \<longleftrightarrow> 97 \<le> byte c \<and> byte c \<le> 122"

definition is_ascii_uppercase :: "char \<Rightarrow> bool" where
  "is_ascii_uppercase c \<longleftrightarrow> 65 \<le> byte c \<and> byte c \<le> 90"

definition is_ascii_alphanumeric :: "char \<Rightarrow> bool" where
  "is_ascii_alphanumeric c \<longleftrightarrow>
     is_ascii_digit c \<or> is_ascii_lowercase c \<or> is_ascii_uppercase c"

definition is_lower_hex :: "char \<Rightarrow> bool" where
  "is_lower_hex c \<longleftrightarrow> is_ascii_digit c \<or> (97 \<le> byte c \<and> byte c \<le> 102)"

lemmas byte_class_defs =
  is_ascii_digit_def is_ascii_lowercase_def is_ascii_uppercase_def
  is_ascii_alphanumeric_def is_lower_hex_def byte_def

text \<open>Decimal printing of an unsigned integer.\<close>

definition digit :: "nat \<Rightarrow> char" where
  "digit d = char_of (48 + d)"

fun dec :: "nat \<Rightarrow> string" where
  "dec n = (if n < 10 then [digit n] else dec (n div 10) @ [digit (n mod 10)])"

declare dec.simps [simp del]

text \<open>The number a list of decimal digits denotes, most significant first.\<close>

definition digit_value :: "char \<Rightarrow> nat" where
  "digit_value c = byte c - 48"

definition dec_value :: "string \<Rightarrow> nat" where
  "dec_value s = foldl (\<lambda>acc c. acc * 10 + digit_value c) 0 s"

lemma byte_digit: "d < 10 \<Longrightarrow> byte (digit d) = 48 + d"
  by (simp add: byte_def digit_def of_char_mod_256 take_bit_eq_mod)

lemma is_ascii_digit_digit: "d < 10 \<Longrightarrow> is_ascii_digit (digit d)"
  by (simp add: is_ascii_digit_def byte_digit)

lemma digit_value_digit [simp]: "d < 10 \<Longrightarrow> digit_value (digit d) = d"
  by (simp add: digit_value_def byte_digit)

lemma digit_digit_value: "is_ascii_digit c \<Longrightarrow> digit (digit_value c) = c"
  by (auto simp: is_ascii_digit_def digit_def digit_value_def byte_def)

lemma digit_value_less: "is_ascii_digit c \<Longrightarrow> digit_value c < 10"
  by (auto simp: is_ascii_digit_def digit_value_def)

lemma dec_nonempty [simp]: "dec n \<noteq> []"
  by (subst dec.simps) simp

lemma dec_digits: "c \<in> set (dec n) \<Longrightarrow> is_ascii_digit c"
proof (induction n rule: dec.induct)
  case (1 n)
  then show ?case
    by (cases "n < 10") (auto simp: dec.simps [of n] is_ascii_digit_digit)
qed

lemma dec_value_append [simp]:
  "dec_value (s @ [c]) = dec_value s * 10 + digit_value c"
  by (simp add: dec_value_def)

lemma dec_value_dec [simp]: "dec_value (dec n) = n"
proof (induction n rule: dec.induct)
  case (1 n)
  show ?case
  proof (cases "n < 10")
    case True
    then show ?thesis by (simp add: dec.simps [of n] dec_value_def)
  next
    case False
    with 1 show ?thesis by (simp add: dec.simps [of n])
  qed
qed

lemma dec_inj: "dec m = dec n \<longleftrightarrow> m = n"
  by (metis dec_value_dec)

lemma length_dec: "n < 10 ^ k \<Longrightarrow> 0 < k \<Longrightarrow> length (dec n) \<le> k"
proof (induction n arbitrary: k rule: dec.induct)
  case (1 n)
  show ?case
  proof (cases "n < 10")
    case True
    with 1 show ?thesis by (simp add: dec.simps [of n])
  next
    case False
    with "1.prems" obtain j where j: "k = Suc j" "0 < j"
      by (cases k; cases "k - 1") auto
    with "1.prems" have "n div 10 < 10 ^ j" by (simp add: less_mult_imp_div_less mult.commute)
    with 1 False j have "length (dec (n div 10)) \<le> j" by simp
    with False j show ?thesis by (simp add: dec.simps [of n])
  qed
qed

lemma length_dec_u64: "n \<le> u64_max \<Longrightarrow> length (dec n) \<le> 20"
  by (rule length_dec) (auto simp: u64_max_def)

end
