(* ===== verification/Date_Partition.thy ===== *)
theory Date_Partition
  imports Prelude
begin

text \<open>
  The \<open>date=YYYY-MM-DD\<close> partition key (\<open>firehose-parquet/src/date_partition.rs\<close>) and the checked
  block time it is computed from (\<open>traits.rs\<close>).

  The calendar itself is the \<open>time\<close> crate, which is not part of the repository: it is the record
  \<open>calendar\<close> of the functions the code calls, and the locale \<open>time_crate\<close> states the documented
  behaviour the partition key relies on. The locale is interpreted on the proleptic Gregorian
  calendar, computed by counting days of years and months.
\<close>

section \<open>The calendar interface\<close>

record calendar =
  cal_unix_date :: "int \<Rightarrow> (int \<times> nat \<times> nat) option"
    \<comment> \<open>\<open>OffsetDateTime::from_unix_timestamp(s)\<close> and its \<open>date()\<close>: year, month, day\<close>
  cal_valid :: "int \<Rightarrow> nat \<Rightarrow> nat \<Rightarrow> bool"
    \<comment> \<open>\<open>Date::from_calendar_date\<close> accepts year, month and day\<close>
  cal_julian :: "int \<Rightarrow> nat \<Rightarrow> nat \<Rightarrow> int"
    \<comment> \<open>\<open>Date::to_julian_day\<close>\<close>

section \<open>The partition key\<close>

datatype date_partition = DatePartition nat nat nat

definition DATE_KEY :: string where
  "DATE_KEY = ''date''"

definition UNIX_EPOCH_JULIAN_DAY :: int where
  "UNIX_EPOCH_JULIAN_DAY = 2440588"

definition checked_timestamp :: "calendar \<Rightarrow> int \<Rightarrow> (int \<times> nat \<times> nat) result" where
  "checked_timestamp cal seconds =
     some_or (cal_unix_date cal seconds) ''invalid unix timestamp''"

definition date32_from_timestamp_seconds :: "calendar \<Rightarrow> int \<Rightarrow> int result" where
  "date32_from_timestamp_seconds cal seconds =
     bindR (checked_timestamp cal seconds) (\<lambda>_.
       let days = seconds div 86400 in
       if - 2147483648 \<le> days \<and> days \<le> 2147483647 then Inr days
       else bail ''timestamp exceeds Arrow Date32 range'')"

definition from_timestamp :: "calendar \<Rightarrow> int \<Rightarrow> date_partition result" where
  "from_timestamp cal seconds =
     bindR (checked_timestamp cal seconds) (\<lambda>(year, month, day).
       if year < 0 then bail ''unix timestamp is before year 0 and has no date partition''
       else Inr (DatePartition (nat year) month day))"

fun date32 :: "calendar \<Rightarrow> date_partition \<Rightarrow> int" where
  "date32 cal (DatePartition y m d) = cal_julian cal (int y) m d - UNIX_EPOCH_JULIAN_DAY"

text \<open>\<open>{:0w}\<close>: decimal, padded on the left with zeros to width \<open>w\<close>.\<close>

definition pad_dec :: "nat \<Rightarrow> nat \<Rightarrow> string" where
  "pad_dec w n = replicate (w - length (dec n)) (CHR ''0'') @ dec n"

fun date_path :: "date_partition \<Rightarrow> string" where
  "date_path (DatePartition y m d) =
     DATE_KEY @ ''='' @ pad_dec 4 y @ ''-'' @ pad_dec 2 m @ ''-'' @ pad_dec 2 d"

text \<open>The strict shape: ten bytes, hyphens at 4 and 7, digits elsewhere.\<close>

definition date_shaped :: "string \<Rightarrow> bool" where
  "date_shaped v \<longleftrightarrow>
     length v = 10 \<and>
     list_all (\<lambda>(i, b). if i = 4 \<or> i = 7 then b = CHR ''-'' else is_ascii_digit b)
       (zip [0..<10] v)"

definition parse_date_value :: "calendar \<Rightarrow> string \<Rightarrow> date_partition option" where
  "parse_date_value cal v =
     (if \<not> date_shaped v then None
      else let year = dec_value (take 4 v);
               month = dec_value (take 2 (drop 5 v));
               day = dec_value (drop 8 v)
           in if 1 \<le> month \<and> month \<le> 12 \<and> cal_valid cal (int year) month day
              then Some (DatePartition year month day) else None)"

definition date_parse :: "calendar \<Rightarrow> string \<Rightarrow> date_partition result" where
  "date_parse cal directory =
     some_or (Option.bind (strip_prefix DATE_KEY directory) (\<lambda>rest.
                Option.bind (strip_prefix ''='' rest) (parse_date_value cal)))
       ''not a `date=YYYY-MM-DD` partition directory''"

section \<open>Padding\<close>

lemma digit_0: "digit 0 = CHR ''0''"
  by code_simp

lemma dec_snoc: "0 < n \<Longrightarrow> d < 10 \<Longrightarrow> dec (n * 10 + d) = dec n @ [digit d]"
  by (subst dec.simps) simp

lemma pad_dec_snoc:
  assumes "0 < w" "d < 10"
  shows "pad_dec (Suc w) (n * 10 + d) = pad_dec w n @ [digit d]"
proof (cases "n = 0")
  case True
  have "dec d = [digit d]" "dec 0 = [digit 0]" using assms by (simp_all add: dec.simps)
  moreover have "replicate w (CHR ''0'') = replicate (w - Suc 0) (CHR ''0'') @ [digit 0]"
    using assms by (cases w) (simp_all add: digit_0 replicate_append_same)
  ultimately show ?thesis using True assms by (simp add: pad_dec_def)
next
  case False
  with assms show ?thesis by (simp add: pad_dec_def dec_snoc)
qed

lemma pad_dec_dec_value:
  "ds \<noteq> [] \<Longrightarrow> list_all is_ascii_digit ds \<Longrightarrow> pad_dec (length ds) (dec_value ds) = ds"
proof (induction ds rule: rev_induct)
  case Nil
  then show ?case by simp
next
  case (snoc c ds)
  have c: "is_ascii_digit c" using snoc.prems by simp
  show ?case
  proof (cases "ds = []")
    case True
    with c show ?thesis
      by (simp add: pad_dec_def dec_value_def dec.simps digit_value_less digit_digit_value)
  next
    case False
    with snoc c show ?thesis
      by (simp add: pad_dec_snoc digit_value_less digit_digit_value)
  qed
qed

lemma dec_value_zeros: "dec_value (replicate k (CHR ''0'') @ s) = dec_value s"
proof -
  have "foldl (\<lambda>acc c. acc * 10 + digit_value c) 0 (replicate k (CHR ''0'')) = 0"
    by (induction k) (simp_all add: digit_value_def byte_def)
  then show ?thesis by (simp add: dec_value_def)
qed

lemma dec_value_pad [simp]: "dec_value (pad_dec w n) = n"
  by (simp add: pad_dec_def dec_value_zeros)

lemma pad_dec_length: "n < 10 ^ w \<Longrightarrow> 0 < w \<Longrightarrow> length (pad_dec w n) = w"
  using length_dec [of n w] by (simp add: pad_dec_def)

lemma pad_dec_digits: "c \<in> set (pad_dec w n) \<Longrightarrow> is_ascii_digit c"
proof -
  assume "c \<in> set (pad_dec w n)"
  then have "c = CHR ''0'' \<or> c \<in> set (dec n)" by (auto simp: pad_dec_def)
  moreover have "is_ascii_digit (CHR ''0'')" by (simp add: is_ascii_digit_def byte_def)
  ultimately show ?thesis using dec_digits by blast
qed

section \<open>Shape of a partition directory\<close>

lemma date_shaped_iff:
  "date_shaped v \<longleftrightarrow>
     (\<exists>a b c. v = a @ ''-'' @ b @ ''-'' @ c \<and> length a = 4 \<and> length b = 2 \<and> length c = 2 \<and>
        list_all is_ascii_digit (a @ b @ c))"
proof
  assume "date_shaped v"
  then obtain v0 v1 v2 v3 v4 v5 v6 v7 v8 v9 where
    v: "v = [v0, v1, v2, v3, v4, v5, v6, v7, v8, v9]"
    by (auto simp: date_shaped_def numeral_eq_Suc length_Suc_conv)
  with \<open>date_shaped v\<close> show "\<exists>a b c. v = a @ ''-'' @ b @ ''-'' @ c \<and> length a = 4 \<and>
      length b = 2 \<and> length c = 2 \<and> list_all is_ascii_digit (a @ b @ c)"
    by (intro exI [of _ "[v0, v1, v2, v3]"] exI [of _ "[v5, v6]"] exI [of _ "[v8, v9]"])
      (simp add: date_shaped_def upt_rec)
next
  assume "\<exists>a b c. v = a @ ''-'' @ b @ ''-'' @ c \<and> length a = 4 \<and> length b = 2 \<and>
      length c = 2 \<and> list_all is_ascii_digit (a @ b @ c)"
  then show "date_shaped v"
    by (auto simp: date_shaped_def numeral_eq_Suc length_Suc_conv upt_rec)
qed

lemma parse_date_value_split:
  assumes "length a = 4" "length b = 2" "length c = 2" "list_all is_ascii_digit (a @ b @ c)"
  shows "parse_date_value cal (a @ ''-'' @ b @ ''-'' @ c) =
    (if 1 \<le> dec_value b \<and> dec_value b \<le> 12 \<and>
        cal_valid cal (int (dec_value a)) (dec_value b) (dec_value c)
     then Some (DatePartition (dec_value a) (dec_value b) (dec_value c)) else None)"
proof -
  have "date_shaped (a @ ''-'' @ b @ ''-'' @ c)" using assms date_shaped_iff by blast
  with assms show ?thesis by (simp add: parse_date_value_def Let_def)
qed

lemma date_parse_printed:
  assumes "y \<le> 9999" "1 \<le> m" "m \<le> 12" "d \<le> 31" "cal_valid cal (int y) m d"
  shows "date_parse cal (date_path (DatePartition y m d)) = Inr (DatePartition y m d)"
proof -
  have "length (pad_dec 4 y) = 4" "length (pad_dec 2 m) = 2" "length (pad_dec 2 d) = 2"
    using assms by (simp_all add: pad_dec_length)
  moreover have "list_all is_ascii_digit (pad_dec 4 y @ pad_dec 2 m @ pad_dec 2 d)"
    by (auto simp: list_all_iff pad_dec_digits)
  ultimately have "parse_date_value cal (pad_dec 4 y @ ''-'' @ pad_dec 2 m @ ''-'' @ pad_dec 2 d)
      = Some (DatePartition y m d)"
    using assms by (subst parse_date_value_split) auto
  then show ?thesis by (simp add: date_parse_def DATE_KEY_def)
qed

lemma date_parse_printed_only:
  assumes "date_parse cal s = Inr p"
  shows "date_path p = s"
proof -
  from assms obtain v where s: "s = ''date='' @ v" and p: "parse_date_value cal v = Some p"
    by (auto simp: date_parse_def DATE_KEY_def bind_eq_Some_conv)
  from p obtain a b c where v: "v = a @ ''-'' @ b @ ''-'' @ c"
    and len: "length a = 4" "length b = 2" "length c = 2"
    and dig: "list_all is_ascii_digit (a @ b @ c)"
    by (auto simp: parse_date_value_def date_shaped_iff split: if_splits)
  from p len dig have "p = DatePartition (dec_value a) (dec_value b) (dec_value c)"
    by (simp add: v parse_date_value_split [simplified] split: if_splits)
  moreover have "pad_dec 4 (dec_value a) = a" "pad_dec 2 (dec_value b) = b"
      "pad_dec 2 (dec_value c) = c"
    using pad_dec_dec_value [of a] pad_dec_dec_value [of b] pad_dec_dec_value [of c] len dig
    by (force simp: length_0_conv [symmetric] simp del: length_0_conv)+
  ultimately show ?thesis by (simp add: s v DATE_KEY_def)
qed

lemma date_parse_valid:
  assumes "date_parse cal s = Inr (DatePartition y m d)"
  shows "cal_valid cal (int y) m d \<and> 1 \<le> m \<and> m \<le> 12"
  using assms
  by (auto simp: date_parse_def bind_eq_Some_conv parse_date_value_def Let_def split: if_splits)

text \<open>The bytes of a partition directory: the fixed prefix, digits and hyphens.\<close>

lemma date_parse_bytes:
  assumes "date_parse cal s = Inr p"
  shows "length s = 15" "\<exists>v. s = ''date='' @ v \<and> (\<forall>c \<in> set v. is_ascii_digit c \<or> c = CHR ''-'')"
proof -
  from assms obtain v where s: "s = ''date='' @ v" and p: "parse_date_value cal v = Some p"
    by (auto simp: date_parse_def DATE_KEY_def bind_eq_Some_conv)
  from p have sh: "date_shaped v" by (auto simp: parse_date_value_def split: if_splits)
  then show "length s = 15" by (simp add: s date_shaped_def)
  from sh obtain a b c where "v = a @ ''-'' @ b @ ''-'' @ c"
    "list_all is_ascii_digit (a @ b @ c)" by (auto simp: date_shaped_iff)
  then have "\<forall>c \<in> set v. is_ascii_digit c \<or> c = CHR ''-''" by (auto simp: list_all_iff)
  with s show "\<exists>v. s = ''date='' @ v \<and> (\<forall>c \<in> set v. is_ascii_digit c \<or> c = CHR ''-'')" by blast
qed

section \<open>What the code relies on in the calendar\<close>

locale time_crate =
  fixes cal :: calendar
  assumes unix_valid: "cal_unix_date cal s = Some (y, m, d) \<Longrightarrow> cal_valid cal y m d"
    and unix_year: "cal_unix_date cal s = Some (y, m, d) \<Longrightarrow> - 9999 \<le> y \<and> y \<le> 9999"
    and valid_range: "cal_valid cal y m d \<Longrightarrow> 1 \<le> m \<and> m \<le> 12 \<and> 1 \<le> d \<and> d \<le> 31"
    and julian_unix: "cal_unix_date cal s = Some (y, m, d) \<Longrightarrow>
      cal_julian cal y m d = UNIX_EPOCH_JULIAN_DAY + s div 86400"
begin

lemma from_timestamp_fields:
  assumes "from_timestamp cal s = Inr p"
  obtains y m d where "p = DatePartition y m d" "cal_unix_date cal s = Some (int y, m, d)"
    "y \<le> 9999" "1 \<le> m" "m \<le> 12" "d \<le> 31" "cal_valid cal (int y) m d"
proof -
  from assms obtain yi m d where c: "cal_unix_date cal s = Some (yi, m, d)"
    and p: "0 \<le> yi" "p = DatePartition (nat yi) m d"
    by (auto simp: from_timestamp_def checked_timestamp_def result_simps not_less split: if_splits)
  from c have "cal_valid cal yi m d" "yi \<le> 9999" using unix_valid unix_year by blast+
  moreover from this(1) have "1 \<le> m" "m \<le> 12" "d \<le> 31" using valid_range by blast+
  ultimately show ?thesis using that [of "nat yi" m d] c p by auto
qed

lemma path_parses:
  assumes "from_timestamp cal s = Inr p"
  shows "date_parse cal (date_path p) = Inr p"
  using assms by (rule from_timestamp_fields) (simp add: date_parse_printed del: date_path.simps)

lemma date32_is_day:
  assumes "from_timestamp cal s = Inr p"
  shows "date32_from_timestamp_seconds cal s = Inr (date32 cal p) \<or>
    date32_from_timestamp_seconds cal s = bail ''timestamp exceeds Arrow Date32 range''"
  using assms
  by (rule from_timestamp_fields)
    (auto simp: date32_from_timestamp_seconds_def checked_timestamp_def Let_def julian_unix)

lemma same_day_same_partition:
  assumes "from_timestamp cal s = Inr p" "from_timestamp cal t = Inr p"
  shows "s div 86400 = t div 86400"
  using assms by (auto elim!: from_timestamp_fields dest!: julian_unix)

end

section \<open>The Gregorian calendar\<close>

definition leap :: "int \<Rightarrow> bool" where
  "leap y \<longleftrightarrow> y mod 4 = 0 \<and> (y mod 100 \<noteq> 0 \<or> y mod 400 = 0)"

definition year_days :: "int \<Rightarrow> int" where
  "year_days y = (if leap y then 366 else 365)"

definition month_days :: "int \<Rightarrow> nat \<Rightarrow> int" where
  "month_days y m =
     (if m = 2 then (if leap y then 29 else 28) else if m \<in> {4, 6, 9, 11} then 30 else 31)"

text \<open>Days from 0001-01-01 to January 1 of a year, and from January 1 to the first of a month.\<close>

definition year_start :: "int \<Rightarrow> int" where
  "year_start y = 365 * (y - 1) + (y - 1) div 4 - (y - 1) div 100 + (y - 1) div 400"

definition month_start :: "int \<Rightarrow> nat \<Rightarrow> int" where
  "month_start y m = sum_list (map (month_days y) [1..<m])"

lemma int_div_succ:
  fixes z k :: int
  assumes "0 < k"
  shows "(z + 1) div k = z div k + (if (z + 1) mod k = 0 then 1 else 0)"
proof -
  have z: "z = k * (z div k) + z mod k" "0 \<le> z mod k" "z mod k < k" using assms by simp_all
  show ?thesis
  proof (cases "z mod k + 1 = k")
    case True
    then have "z + 1 = k * (z div k) + k" using z(1) by linarith
    then have "z + 1 = k * (z div k + 1)" by (simp add: distrib_left)
    with assms show ?thesis by simp
  next
    case False
    with z have "z + 1 = k * (z div k) + (z mod k + 1)" "0 < z mod k + 1" "z mod k + 1 < k"
      by linarith+
    then have "(z + 1) div k = z div k" "(z + 1) mod k = z mod k + 1"
      by (metis int_div_pos_eq less_imp_le, metis int_mod_pos_eq less_imp_le)
    with \<open>0 < z mod k + 1\<close> show ?thesis by simp
  qed
qed

lemma int_div_pred:
  fixes y k :: int
  assumes "0 < k"
  shows "y div k = (y - 1) div k + (if y mod k = 0 then 1 else 0)"
  using int_div_succ [OF assms, of "y - 1"] by (simp only: diff_add_cancel)

lemma mod_zero_chain:
  fixes y :: int
  shows "y mod 100 = 0 \<Longrightarrow> y mod 4 = 0" "y mod 400 = 0 \<Longrightarrow> y mod 100 = 0"
  by presburger+

lemma leap_count:
  fixes y a b c :: int
  assumes "p \<Longrightarrow> q" "r \<Longrightarrow> p"
  shows "365 * y + (a + (if q then 1 else 0)) - (b + (if p then 1 else 0)) +
      (c + (if r then 1 else 0)) =
    365 * (y - 1) + a - b + c + (if q \<and> (\<not> p \<or> r) then 366 else 365)"
  using assms by auto

lemma year_start_Suc: "year_start (y + 1) = year_start y + year_days y"
proof -
  define a b c where "a = (y - 1) div 4" and "b = (y - 1) div 100" and "c = (y - 1) div 400"
  have s: "y div 4 = a + (if y mod 4 = 0 then 1 else 0)"
    "y div 100 = b + (if y mod 100 = 0 then 1 else 0)"
    "y div 400 = c + (if y mod 400 = 0 then 1 else 0)"
    unfolding a_def b_def c_def by (rule int_div_pred, simp)+
  have l: "year_start y = 365 * (y - 1) + a - b + c"
    by (simp only: year_start_def a_def b_def c_def)
  have "year_start (y + 1) = 365 * y + y div 4 - y div 100 + y div 400"
    by (simp only: year_start_def add_diff_cancel_right')
  also have "\<dots> = 365 * (y - 1) + a - b + c + year_days y"
    unfolding s year_days_def leap_def by (rule leap_count [OF mod_zero_chain])
  finally show ?thesis by (simp only: l)
qed

lemma year_days_bounds: "365 \<le> year_days y" "year_days y \<le> 366"
  by (simp_all add: year_days_def)

lemma year_start_mono: "a \<le> b \<Longrightarrow> year_start a \<le> year_start b"
proof (induction b rule: int_ge_induct)
  case base
  show ?case by simp
next
  case (step i)
  then show ?case using year_start_Suc [of i] year_days_bounds(1) [of i] by linarith
qed

text \<open>Find the year and the day in it, from a year and a day count relative to its start.\<close>

function year_of :: "int \<Rightarrow> int \<Rightarrow> int \<times> int" where
  "year_of y n =
     (if n < 0 then year_of (y - 1) (n + year_days (y - 1))
      else if year_days y \<le> n then year_of (y + 1) (n - year_days y)
      else (y, n))"
  by pat_completeness auto
termination
  by (relation "measure (\<lambda>(y, n). if n < 0 then nat (1000 - n) else nat n)")
    (auto simp: year_days_def split: if_splits)

declare year_of.simps [simp del]

lemma year_of_correct:
  "year_of y n = (y', n') \<Longrightarrow>
     year_start y' + n' = year_start y + n \<and> 0 \<le> n' \<and> n' < year_days y'"
proof (induction y n rule: year_of.induct)
  case (1 y n)
  consider "n < 0" | "0 \<le> n" "year_days y \<le> n" | "0 \<le> n" "n < year_days y" by linarith
  then show ?case
  proof cases
    case 1
    with "1.IH"(1) "1.prems" year_start_Suc [of "y - 1"] show ?thesis
      by (simp add: year_of.simps [of y n])
  next
    case 2
    with "1.IH"(2) "1.prems" year_start_Suc [of y] show ?thesis
      by (simp add: year_of.simps [of y n])
  next
    case 3
    with "1.prems" show ?thesis by (simp add: year_of.simps [of y n])
  qed
qed

function month_of :: "int \<Rightarrow> nat \<Rightarrow> int \<Rightarrow> nat \<times> int" where
  "month_of y m n =
     (if 12 \<le> m \<or> n < month_days y m then (m, n) else month_of y (Suc m) (n - month_days y m))"
  by pat_completeness auto
termination
  by (relation "measure (\<lambda>(y, m, n). 12 - m)") auto

declare month_of.simps [simp del]

lemma month_start_Suc: "1 \<le> m \<Longrightarrow> month_start y (Suc m) = month_start y m + month_days y m"
  by (simp add: month_start_def)

lemma month_start_year: "month_start y 12 + month_days y 12 = year_days y"
  by (simp add: month_start_def month_days_def year_days_def upt_rec)

lemma month_of_correct:
  "month_of y m n = (m', n') \<Longrightarrow> 1 \<le> m \<Longrightarrow> m \<le> 12 \<Longrightarrow> 0 \<le> n \<Longrightarrow>
     month_start y m + n < year_days y \<Longrightarrow>
     month_start y m' + n' = month_start y m + n \<and> 1 \<le> m' \<and> m' \<le> 12 \<and> 0 \<le> n' \<and>
     n' < month_days y m'"
proof (induction y m n rule: month_of.induct)
  case (1 y m n)
  show ?case
  proof (cases "12 \<le> m \<or> n < month_days y m")
    case True
    then have "month_of y m n = (m, n)" by (simp add: month_of.simps [of y m n])
    with True "1.prems" month_start_year [of y] show ?thesis
      by (cases "m = 12") auto
  next
    case False
    with 1 show ?thesis by (simp add: month_of.simps [of y m n] month_start_Suc)
  qed
qed

definition gregorian_day :: "int \<Rightarrow> int \<times> nat \<times> nat" where
  "gregorian_day n =
     (case year_of 1970 n of (y, k) \<Rightarrow> case month_of y 1 k of (m, d) \<Rightarrow> (y, m, nat d + 1))"

definition gregorian :: calendar where
  "gregorian = \<lparr>
     cal_unix_date = (\<lambda>s. let n = s div 86400 in
        if year_start (- 9999) - year_start 1970 \<le> n \<and> n < year_start 10000 - year_start 1970
        then Some (gregorian_day n) else None),
     cal_valid = (\<lambda>y m d. - 9999 \<le> y \<and> y \<le> 9999 \<and> 1 \<le> m \<and> m \<le> 12 \<and> 1 \<le> d \<and>
        int d \<le> month_days y m),
     cal_julian = (\<lambda>y m d. UNIX_EPOCH_JULIAN_DAY + (year_start y - year_start 1970) +
        month_start y m + int d - 1) \<rparr>"

lemma month_days_le: "month_days y m \<le> 31"
  by (simp add: month_days_def)

lemma gregorian_day_correct:
  assumes "gregorian_day n = (y, m, d)"
  shows "year_start y + month_start y m + int d - 1 = year_start 1970 + n \<and>
    1 \<le> m \<and> m \<le> 12 \<and> 1 \<le> d \<and> int d \<le> month_days y m \<and>
    year_start y \<le> year_start 1970 + n \<and> year_start 1970 + n < year_start (y + 1)"
proof -
  obtain k k' where k: "year_of 1970 n = (y, k)" and k': "month_of y 1 k = (m, k')"
    and d: "d = nat k' + 1"
    using assms by (auto simp: gregorian_day_def split: prod.splits)
  from year_of_correct [OF k] have y: "year_start y + k = year_start 1970 + n" "0 \<le> k"
    "k < year_days y" by auto
  moreover have "month_start y 1 = 0" by (simp add: month_start_def)
  ultimately have "month_start y m + k' = k" "1 \<le> m" "m \<le> 12" "0 \<le> k'" "k' < month_days y m"
    using month_of_correct [OF k'] by auto
  with y d year_start_Suc [of y] show ?thesis by auto
qed

interpretation greg: time_crate gregorian
proof
  fix s y m d
  assume a: "cal_unix_date gregorian s = Some (y, m, d)"
  then have n: "gregorian_day (s div 86400) = (y, m, d)"
    "year_start (- 9999) \<le> year_start 1970 + s div 86400"
    "year_start 1970 + s div 86400 < year_start 10000"
    by (auto simp: gregorian_def Let_def split: if_splits)
  note c = gregorian_day_correct [OF n(1)]
  have "\<not> y + 1 \<le> - 9999" using year_start_mono [of "y + 1" "- 9999"] c n(2) by linarith
  moreover have "\<not> 10000 \<le> y" using year_start_mono [of 10000 y] c n(3) by linarith
  ultimately show yr: "- 9999 \<le> y \<and> y \<le> 9999" by linarith
  with c show "cal_valid gregorian y m d" by (auto simp: gregorian_def)
  from c show "cal_julian gregorian y m d = UNIX_EPOCH_JULIAN_DAY + s div 86400"
    by (simp add: gregorian_def)
next
  fix y m d
  assume "cal_valid gregorian y m d"
  then show "1 \<le> m \<and> m \<le> 12 \<and> 1 \<le> d \<and> d \<le> 31"
    using month_days_le [of y m] by (auto simp: gregorian_def)
qed

section \<open>Properties\<close>

text \<open>
  C34. The directory, the \<open>date\<close> column and the UTC day of a block time agree: the
  directory computed from it parses back to the same partition and is the only directory that does; the
  Arrow \<open>Date32\<close> of the row is the day number of the partition, or the row is refused because that number
  does not fit; and two block times share a partition only on the same UTC day. This holds for every
  calendar that behaves as the \<open>time\<close> crate documents.
\<close>

theorem partition_round_trip:
  assumes "time_crate cal" "from_timestamp cal s = Inr p"
  shows "(\<forall>dir. date_parse cal dir = Inr p \<longleftrightarrow> dir = date_path p) \<and>
    (date32_from_timestamp_seconds cal s = Inr (date32 cal p) \<or>
      date32_from_timestamp_seconds cal s = bail ''timestamp exceeds Arrow Date32 range'') \<and>
    (\<forall>t. from_timestamp cal t = Inr p \<longrightarrow> t div 86400 = s div 86400)"
proof (intro conjI allI)
  show "date_parse cal dir = Inr p \<longleftrightarrow> dir = date_path p" for dir
    using time_crate.path_parses [OF assms] date_parse_printed_only by metis
  show "date32_from_timestamp_seconds cal s = Inr (date32 cal p) \<or>
      date32_from_timestamp_seconds cal s = bail ''timestamp exceeds Arrow Date32 range''"
    by (rule time_crate.date32_is_day [OF assms])
  show "from_timestamp cal t = Inr p \<longrightarrow> t div 86400 = s div 86400" for t
    using time_crate.same_day_same_partition [OF assms(1)] assms(2) by blast
qed

theorem partition_round_trip_witness:
  "date_parse gregorian ''date=1969-12-31'' = Inr (DatePartition 1969 12 31) \<and>
   date32_from_timestamp_seconds gregorian (- 1) = Inr (- 1) \<and>
   date_parse gregorian ''date=2023-02-29'' = bail ''not a `date=YYYY-MM-DD` partition directory''"
proof -
  have f: "from_timestamp gregorian (- 1) = Inr (DatePartition 1969 12 31)" by code_simp
  have "date_path (DatePartition 1969 12 31) = ''date=1969-12-31''" "date32 gregorian (DatePartition 1969 12 31) = - 1"
    "date32_from_timestamp_seconds gregorian (- 1) \<noteq> bail ''timestamp exceeds Arrow Date32 range''"
    "date_parse gregorian ''date=2023-02-29'' = bail ''not a `date=YYYY-MM-DD` partition directory''" by code_simp+
  with partition_round_trip [OF greg.time_crate_axioms f] show ?thesis by simp
qed

end
