(* ===== verification/Canonical_Json.thy ===== *)
theory Canonical_Json
  imports Date_Partition "HOL-Library.Multiset"
begin

text \<open>
  The code outside the repository that the transaction records rest on, as one record \<open>ext\<close> of
  parameters, and the canonical JSON serialization and the domain-separated digest computed from it
  (\<open>canonical_json\<close>, \<open>Digest::hash\<close> of \<open>ingest/state.rs\<close>) together with the statistics check of
  \<open>delta/stats.rs\<close>, which reads a JSON object back.
\<close>

section \<open>Parameters of the model\<close>

datatype json =
    JNull
  | JBool bool
  | JNum int
  | JFloat string
  | JStr string
  | JArr "json list"
  | JObj "(string \<times> json) list"

record ext =
  x_sha256 :: "string \<Rightarrow> string"
    \<comment> \<open>\<open>hex::encode(Sha256::digest(bytes))\<close>\<close>
  x_json_string :: "string \<Rightarrow> string"
    \<comment> \<open>\<open>serde_json::to_vec\<close> of a string\<close>
  x_json_parse :: "string \<Rightarrow> json option"
    \<comment> \<open>\<open>serde_json::from_str::<Value>\<close>\<close>
  x_calendar :: calendar
    \<comment> \<open>the \<open>time\<close> crate\<close>
  x_zstd_level :: "int \<Rightarrow> bool"
    \<comment> \<open>\<open>parquet::basic::ZstdLevel::try_new(level).is_ok()\<close>\<close>

text \<open>A SHA-256 digest in lower-case hexadecimal has 64 bytes.\<close>

definition sha256_hex :: "ext \<Rightarrow> bool" where
  "sha256_hex x \<longleftrightarrow> (\<forall>b. length (x_sha256 x b) = 64 \<and> list_all is_lower_hex (x_sha256 x b))"

section \<open>Canonical JSON\<close>

fun intersperse_comma :: "string list \<Rightarrow> string" where
  "intersperse_comma [] = []"
| "intersperse_comma [s] = s"
| "intersperse_comma (s # t # ts) = s @ '','' @ intersperse_comma (t # ts)"

fun int_text :: "int \<Rightarrow> string" where
  "int_text i = (if i < 0 then CHR ''-'' # dec (nat (- i)) else dec (nat i))"

fun canonical_json :: "ext \<Rightarrow> json \<Rightarrow> string" where
  "canonical_json x (JObj m) =
     ''{'' @ intersperse_comma (map (\<lambda>(k, v). x_json_string x k @ '':'' @ canonical_json x v)
       (sort_key fst m)) @ ''}''"
| "canonical_json x (JArr vs) = ''['' @ intersperse_comma (map (canonical_json x) vs) @ '']''"
| "canonical_json x JNull = ''null''"
| "canonical_json x (JBool b) = (if b then ''true'' else ''false'')"
| "canonical_json x (JNum i) = int_text i"
| "canonical_json x (JFloat t) = t"
| "canonical_json x (JStr s) = x_json_string x s"

section \<open>Digests\<close>

datatype digest = Digest string

fun digest_str :: "digest \<Rightarrow> string" where
  "digest_str (Digest s) = s"

definition digest_parse :: "string \<Rightarrow> digest result" where
  "digest_parse value =
     (if length value \<noteq> 64 \<or> \<not> list_all is_lower_hex value
      then bail ''transaction digest must be 64 lowercase hexadecimal bytes''
      else Inr (Digest value))"

definition be64_bytes :: "nat \<Rightarrow> string" where
  "be64_bytes n = map (\<lambda>i. char_of (n div 256 ^ i)) [7, 6, 5, 4, 3, 2, 1, 0]"

definition digest_hash :: "ext \<Rightarrow> string \<Rightarrow> json \<Rightarrow> digest" where
  "digest_hash x domain value =
     Digest (x_sha256 x (''fireparq-transaction-v1'' @ [CHR 0x00] @ be64_bytes (length domain) @
       domain @ canonical_json x value))"

definition digest_wf :: "digest \<Rightarrow> bool" where
  "digest_wf d \<longleftrightarrow> length (digest_str d) = 64 \<and> list_all is_lower_hex (digest_str d)"

section \<open>Journaled statistics\<close>

definition as_object :: "json \<Rightarrow> (string \<times> json) list option" where
  "as_object v = (case v of JObj m \<Rightarrow> Some m | _ \<Rightarrow> None)"

definition as_u64 :: "json \<Rightarrow> nat option" where
  "as_u64 v = (case v of JNum i \<Rightarrow> if 0 \<le> i \<and> i \<le> int u64_max then Some (nat i) else None | _ \<Rightarrow> None)"

definition check_stats :: "ext \<Rightarrow> string \<Rightarrow> nat \<Rightarrow> unit result" where
  "check_stats x stats rows =
     bindR (some_or (x_json_parse x stats) ''part statistics are not JSON'') (\<lambda>value.
     bindR (some_or (as_object value) ''part statistics are not a JSON object'') (\<lambda>object.
     bindR (require (Option.bind (map_of object ''numRecords'') as_u64 = Some rows)
       ''part statistics do not record the part's row count'') (\<lambda>_.
     for_each (\<lambda>key. case map_of object key of None \<Rightarrow> Inr ()
         | Some entry \<Rightarrow> require (as_object entry \<noteq> None)
             (''part statistics `'' @ key @ ''` is not an object''))
       [''minValues'', ''maxValues'', ''nullCount''])))"

section \<open>Lemmas\<close>

lemma digest_hash_wf [simp]: "sha256_hex x \<Longrightarrow> digest_wf (digest_hash x domain v)"
  by (simp add: sha256_hex_def digest_wf_def digest_hash_def)

lemma digest_parse_iff: "digest_parse s = Inr d \<longleftrightarrow> d = Digest s \<and> digest_wf d"
  by (auto simp: digest_parse_def digest_wf_def)

lemma digest_parse_str: "digest_wf d \<Longrightarrow> digest_parse (digest_str d) = Inr d"
  by (cases d) (simp add: digest_parse_iff)

lemma lower_hex_not_sep:
  assumes "is_lower_hex c"
  shows "c \<noteq> CHR ''-''" "c \<noteq> CHR ''/''"
  using assms by (auto simp: byte_class_defs)

lemma digest_wf_no_sep:
  assumes "digest_wf d"
  shows "CHR ''-'' \<notin> set (digest_str d)" "CHR ''/'' \<notin> set (digest_str d)"
  using assms lower_hex_not_sep by (auto simp: digest_wf_def list_all_iff)

text \<open>A canonical object does not depend on the order its entries were inserted in.\<close>

lemma sort_key_perm:
  fixes xs ys :: "('a::linorder \<times> 'b) list"
  assumes "distinct (map fst xs)" "mset xs = mset ys"
  shows "sort_key fst xs = sort_key fst ys"
proof (rule map_sorted_distinct_set_unique)
  have dist: "distinct (map fst zs)" if "mset zs = mset xs" for zs
    using that assms(1) mset_eq_imp_distinct_iff [of "map fst zs" "map fst xs"] by simp
  show "inj_on fst (set (sort_key fst xs) \<union> set (sort_key fst ys))"
    using assms by (simp add: distinct_map mset_eq_setD [OF assms(2)])
  show "set (sort_key fst xs) = set (sort_key fst ys)" using mset_eq_setD [OF assms(2)] by simp
  show "distinct (map fst (sort_key fst xs))" "distinct (map fst (sort_key fst ys))"
    using assms(2) by (auto intro!: dist)
qed simp_all

lemma canonical_object_perm:
  "distinct (map fst m) \<Longrightarrow> mset m = mset m' \<Longrightarrow>
     canonical_json x (JObj m) = canonical_json x (JObj m')"
  using sort_key_perm [of m m'] by simp

end
