(* ===== verification/Txn_State.thy ===== *)
theory Txn_State
  imports Canonical_Json
begin

text \<open>
  The durable records of the ingestion protocol (\<open>ingest/state.rs\<close>, \<open>artifacts.rs\<close>): the stream
  descriptor, accepted events, routing checkpoints, the authority checkpoint, the accepted prefix and
  the pending transaction with its planned parts. Every \<open>validate\<close> is a function into \<open>unit result\<close>
  that performs the checks in the order of the source; \<open>advance\<close>, \<open>complete_request\<close>, \<open>prepare\<close>,
  \<open>with_receipt\<close>, \<open>committed_after_verification\<close> and \<open>install\<close> are the transitions between
  records. The JSON images are what \<open>serde\<close> derives for the types, as input of the digests.
\<close>

section \<open>Constants\<close>

definition FORMAT_VERSION :: nat where
  "FORMAT_VERSION = 1"

definition MAPPER_EPOCH :: string where
  "MAPPER_EPOCH = ''fireparq-mapping-v3''"

definition SOLANA_GENESIS_ROUTING_SECONDS :: int where
  "SOLANA_GENESIS_ROUTING_SECONDS = 1584368940"

definition MAX_CURSOR_BYTES :: nat where
  "MAX_CURSOR_BYTES = 64 * 1024"

definition MAX_TABLES :: nat where
  "MAX_TABLES = 256"

section \<open>Reserved paths\<close>

definition OWNERSHIP_FILENAME :: string where
  "OWNERSHIP_FILENAME = ''.fireparq-owner-v1.json''"

definition OWNERSHIP_PROBES_DIRECTORY :: string where
  "OWNERSHIP_PROBES_DIRECTORY = ''.fireparq-owner-probes-v1''"

definition CONTROL_DIRECTORY :: string where
  "CONTROL_DIRECTORY = ''.fireparq-ingest''"

definition is_control_path :: "string \<Rightarrow> bool" where
  "is_control_path path \<longleftrightarrow>
     list_ex (\<lambda>component. component = OWNERSHIP_FILENAME \<or> component = OWNERSHIP_PROBES_DIRECTORY \<or>
       component = CONTROL_DIRECTORY) (split_on (CHR ''/'') path)"

section \<open>Identifiers and paths\<close>

definition validate_identifier :: "string \<Rightarrow> unit result" where
  "validate_identifier value =
     (if value = [] \<or> length value > 255 \<or>
         \<not> list_all (\<lambda>b. is_ascii_alphanumeric b \<or> b \<in> {CHR ''-'', CHR ''_'', CHR ''.''}) value \<or>
         value = ''.'' \<or> value = ''..''
      then bail ''invalid bounded storage or chain identifier'' else Inr ())"

definition validate_table :: "string \<Rightarrow> unit result" where
  "validate_table value =
     (if value = [] \<or> length value > 64 \<or>
         \<not> list_all (\<lambda>b. is_ascii_lowercase b \<or> is_ascii_digit b \<or> b = CHR ''_'') value
      then bail ''invalid table identifier'' else Inr ())"

text \<open>
  \<open>Path::components\<close> yields \<open>CurDir\<close> only at the start of a relative path, so an absolute path is
  refused for its \<open>..\<close> components only.
\<close>

definition validate_absolute_path :: "string \<Rightarrow> unit result" where
  "validate_absolute_path value =
     (if length value > 4096 \<or> strip_prefix ''/'' value = None \<or>
         list_ex (\<lambda>c. c = ''..'') (split_on (CHR ''/'') value) \<or> is_control_path value
      then bail ''invalid absolute storage identity'' else Inr ())"

definition validate_relative_path :: "string \<Rightarrow> bool \<Rightarrow> unit result" where
  "validate_relative_path value empty_allowed =
     (if value = [] \<and> empty_allowed then Inr ()
      else if value = [] \<or> length value > 4096 \<or>
         list_ex (\<lambda>c. c \<in> {CHR 0x5C, CHR ''?'', CHR ''#'', CHR 0x00}) value \<or>
         list_ex (\<lambda>part. part = [] \<or> part = ''.'' \<or> part = ''..'' \<or> length part > 255)
           (split_on (CHR ''/'') value) \<or>
         is_control_path value
      then bail ''invalid relative transaction path'' else Inr ())"

section \<open>Stream descriptor\<close>

definition opaque_cursor_new :: "string \<Rightarrow> string result" where
  "opaque_cursor_new value =
     (if value = [] \<or> length value > MAX_CURSOR_BYTES
      then bail ''accepted event requires a nonempty bounded cursor'' else Inr value)"

datatype block_family =
  Evm | Bitcoin | Solana | Near | Antelope | Cosmos | Tron | Beacon | Sec | Hypercore

datatype partition_policy = DatePolicy

datatype routing_policy = GenesisLookaheadV1 | SolanaLastKnownV1

datatype storage_identity = SLocal string | SS3 digest string string

fun storage_validate :: "storage_identity \<Rightarrow> unit result" where
  "storage_validate (SLocal canonical_root) = validate_absolute_path canonical_root"
| "storage_validate (SS3 service bucket prefix) =
     bindR (validate_identifier bucket) (\<lambda>_. validate_relative_path prefix True)"

datatype mirror_binding = MDisabled | MLocal string | MS3 digest string string

fun mirror_binding_validate :: "mirror_binding \<Rightarrow> unit result" where
  "mirror_binding_validate MDisabled = Inr ()"
| "mirror_binding_validate (MLocal absolute_path) = validate_absolute_path absolute_path"
| "mirror_binding_validate (MS3 service bucket key) =
     bindR (validate_identifier bucket) (\<lambda>_. validate_relative_path key False)"

record stream_descriptor =
  sd_format_version :: nat
  sd_chain :: string
  sd_family :: block_family
  sd_bytes_encoding :: string
  sd_mapper_epoch :: string
  sd_partition :: partition_policy
  sd_origin_start :: nat
  sd_final_blocks_only :: bool
  sd_extended :: bool
  sd_with_votes :: bool
  sd_include_failed_transactions :: bool
  sd_routing_policy :: routing_policy
  sd_output :: storage_identity
  sd_mirror :: mirror_binding
  sd_tables :: "(string \<times> digest) list"

definition descriptor_validate :: "stream_descriptor \<Rightarrow> unit result" where
  "descriptor_validate d =
     (if sd_format_version d \<noteq> FORMAT_VERSION
      then bail ''unsupported ingestion format or semantic mapper epoch''
      else if sd_mapper_epoch d \<noteq> MAPPER_EPOCH
      then bail ''this protected dataset was created with another semantic mapper epoch''
      else bindR (validate_identifier (sd_chain d)) (\<lambda>_.
        if sd_bytes_encoding d \<notin> {''binary'', ''hex'', ''hex_no_prefix'', ''base58'', ''tron_base58''}
        then bail ''unsupported semantic byte encoding''
        else bindR (storage_validate (sd_output d)) (\<lambda>_.
        bindR (mirror_binding_validate (sd_mirror d)) (\<lambda>_.
        if sd_tables d = [] \<or> length (sd_tables d) > MAX_TABLES
        then bail ''invalid declared table inventory size''
        else for_each validate_table (map fst (sd_tables d))))))"

fun family_json :: "block_family \<Rightarrow> json" where
  "family_json Evm = JStr ''evm''"
| "family_json Bitcoin = JStr ''bitcoin''"
| "family_json Solana = JStr ''solana''"
| "family_json Near = JStr ''near''"
| "family_json Antelope = JStr ''antelope''"
| "family_json Cosmos = JStr ''cosmos''"
| "family_json Tron = JStr ''tron''"
| "family_json Beacon = JStr ''beacon''"
| "family_json Sec = JStr ''sec''"
| "family_json Hypercore = JStr ''hypercore''"

fun policy_json :: "routing_policy \<Rightarrow> json" where
  "policy_json GenesisLookaheadV1 = JStr ''genesis_lookahead_v1''"
| "policy_json SolanaLastKnownV1 = JStr ''solana_last_known_v1''"

fun storage_json :: "storage_identity \<Rightarrow> json" where
  "storage_json (SLocal r) = JObj [(''kind'', JStr ''local''), (''canonical_root'', JStr r)]"
| "storage_json (SS3 s b p) =
     JObj [(''kind'', JStr ''s3''), (''service'', JStr (digest_str s)), (''bucket'', JStr b),
       (''prefix'', JStr p)]"

fun mirror_json :: "mirror_binding \<Rightarrow> json" where
  "mirror_json MDisabled = JObj [(''kind'', JStr ''disabled'')]"
| "mirror_json (MLocal p) = JObj [(''kind'', JStr ''local''), (''absolute_path'', JStr p)]"
| "mirror_json (MS3 s b k) =
     JObj [(''kind'', JStr ''s3''), (''service'', JStr (digest_str s)), (''bucket'', JStr b),
       (''key'', JStr k)]"

definition descriptor_json :: "stream_descriptor \<Rightarrow> json" where
  "descriptor_json d = JObj
     [(''format_version'', JNum (int (sd_format_version d))),
      (''chain'', JStr (sd_chain d)),
      (''family'', family_json (sd_family d)),
      (''bytes_encoding'', JStr (sd_bytes_encoding d)),
      (''mapper_epoch'', JStr (sd_mapper_epoch d)),
      (''partition'', JObj [(''kind'', JStr ''date'')]),
      (''origin_start'', JNum (int (sd_origin_start d))),
      (''final_blocks_only'', JBool (sd_final_blocks_only d)),
      (''extended'', JBool (sd_extended d)),
      (''with_votes'', JBool (sd_with_votes d)),
      (''include_failed_transactions'', JBool (sd_include_failed_transactions d)),
      (''routing_policy'', policy_json (sd_routing_policy d)),
      (''output'', storage_json (sd_output d)),
      (''mirror'', mirror_json (sd_mirror d)),
      (''tables'', JObj (map (\<lambda>(t, s). (t, JStr (digest_str s))) (sd_tables d)))]"

definition descriptor_id :: "ext \<Rightarrow> stream_descriptor \<Rightarrow> digest result" where
  "descriptor_id x d =
     bindR (descriptor_validate d) (\<lambda>_. Inr (digest_hash x ''stream'' (descriptor_json d)))"

section \<open>Events and routing\<close>

record event_identity =
  ev_cursor :: string
  ev_block_num :: nat
  ev_block_id :: string
  ev_fork_step :: int
  ev_source_timestamp :: "int option"

definition event_validate :: "ext \<Rightarrow> event_identity \<Rightarrow> unit result" where
  "event_validate x e =
     (if ev_block_id e = [] \<or> length (ev_block_id e) > 4096 \<or>
         \<not> (0 \<le> ev_fork_step e \<and> ev_fork_step e \<le> 3)
      then bail ''accepted event has an invalid block identity or fork step''
      else case ev_source_timestamp e of
          None \<Rightarrow> Inr ()
        | Some seconds \<Rightarrow> bindR (checked_timestamp (x_calendar x) seconds) (\<lambda>_. Inr ()))"

datatype anchor_provenance = PAcceptedPrefix | PLookahead | PSolanaGenesisFallback

record timestamp_anchor =
  an_source_ordinal :: nat
  an_source_block_num :: nat
  an_source_block_id :: string
  an_seconds :: int
  an_provenance :: anchor_provenance

record routing_checkpoint =
  rc_policy :: routing_policy
  rc_anchor :: "timestamp_anchor option"

definition routing_validate :: "ext \<Rightarrow> routing_checkpoint \<Rightarrow> nat \<Rightarrow> unit result" where
  "routing_validate x r ordinal =
     (case rc_anchor r of
        None \<Rightarrow> Inr ()
      | Some a \<Rightarrow>
          bindR (checked_timestamp (x_calendar x) (an_seconds a)) (\<lambda>_.
          if an_provenance a = PSolanaGenesisFallback
          then (if rc_policy r \<noteq> SolanaLastKnownV1 \<or> an_source_ordinal a \<noteq> 0 \<or>
                   an_source_block_num a \<noteq> 0 \<or> an_source_block_id a \<noteq> [] \<or>
                   an_seconds a \<noteq> SOLANA_GENESIS_ROUTING_SECONDS
                then bail ''invalid versioned Solana routing fallback provenance''
                else Inr ())
          else if an_source_ordinal a = 0 \<or> an_source_block_id a = [] \<or>
                  length (an_source_block_id a) > 4096
          then bail ''invalid routing anchor provenance''
          else if an_provenance a = PAcceptedPrefix \<and> an_source_ordinal a > ordinal
          then bail ''routing anchor claims an event beyond the accepted prefix''
          else Inr ()))"

definition opt_json :: "('a \<Rightarrow> json) \<Rightarrow> 'a option \<Rightarrow> json" where
  "opt_json f v = (case v of None \<Rightarrow> JNull | Some a \<Rightarrow> f a)"

definition event_json :: "event_identity \<Rightarrow> json" where
  "event_json e = JObj
     [(''cursor'', JStr (ev_cursor e)),
      (''block_num'', JNum (int (ev_block_num e))),
      (''block_id'', JStr (ev_block_id e)),
      (''fork_step'', JNum (ev_fork_step e)),
      (''source_timestamp'', opt_json JNum (ev_source_timestamp e))]"

fun provenance_json :: "anchor_provenance \<Rightarrow> json" where
  "provenance_json PAcceptedPrefix = JStr ''accepted_prefix''"
| "provenance_json PLookahead = JStr ''lookahead''"
| "provenance_json PSolanaGenesisFallback = JStr ''solana_genesis_fallback''"

definition anchor_json :: "timestamp_anchor \<Rightarrow> json" where
  "anchor_json a = JObj
     [(''source_ordinal'', JNum (int (an_source_ordinal a))),
      (''source_block_num'', JNum (int (an_source_block_num a))),
      (''source_block_id'', JStr (an_source_block_id a)),
      (''seconds'', JNum (an_seconds a)),
      (''provenance'', provenance_json (an_provenance a))]"

definition routing_json :: "routing_checkpoint \<Rightarrow> json" where
  "routing_json r = JObj
     [(''policy'', policy_json (rc_policy r)), (''anchor'', opt_json anchor_json (rc_anchor r))]"

section \<open>Accepted prefix and checkpoint\<close>

record accepted_prefix =
  ap_first_ordinal :: nat
  ap_last_ordinal :: nat
  ap_events_sha256 :: digest
  ap_last_event :: event_identity
  ap_routing :: routing_checkpoint

definition prefix_validate :: "ext \<Rightarrow> accepted_prefix \<Rightarrow> unit result" where
  "prefix_validate x p =
     (if ap_first_ordinal p = 0 \<or> ap_last_ordinal p < ap_first_ordinal p
      then bail ''invalid contiguous accepted prefix''
      else bindR (event_validate x (ap_last_event p)) (\<lambda>_.
        routing_validate x (ap_routing p) (ap_last_ordinal p)))"

definition prefix_json :: "accepted_prefix \<Rightarrow> json" where
  "prefix_json p = JObj
     [(''first_ordinal'', JNum (int (ap_first_ordinal p))),
      (''last_ordinal'', JNum (int (ap_last_ordinal p))),
      (''events_sha256'', JStr (digest_str (ap_events_sha256 p))),
      (''last_event'', event_json (ap_last_event p)),
      (''routing'', routing_json (ap_routing p))]"

record checkpoint =
  cp_id :: digest
  cp_previous :: "digest option"
  cp_ordinal :: nat
  cp_event :: "event_identity option"
  cp_routing :: routing_checkpoint
  cp_completed_stop :: "nat option"

definition digest_json :: "digest \<Rightarrow> json" where
  "digest_json d = JStr (digest_str d)"

definition checkpoint_identity :: "ext \<Rightarrow> checkpoint \<Rightarrow> digest \<Rightarrow> digest" where
  "checkpoint_identity x c stream = digest_hash x ''checkpoint'' (JArr
     [digest_json stream,
      opt_json digest_json (cp_previous c),
      JNum (int (cp_ordinal c)),
      opt_json event_json (cp_event c),
      routing_json (cp_routing c),
      opt_json (\<lambda>n. JNum (int n)) (cp_completed_stop c)])"

definition checkpoint_validate :: "ext \<Rightarrow> checkpoint \<Rightarrow> stream_descriptor \<Rightarrow> unit result" where
  "checkpoint_validate x c d =
     (if (cp_ordinal c = 0) \<noteq> (cp_event c = None)
      then bail ''checkpoint ordinal and accepted event disagree''
      else if (cp_ordinal c > 0 \<and> cp_previous c = None) \<or>
              (cp_ordinal c = 0 \<and> (rc_anchor (cp_routing c) \<noteq> None \<or> cp_previous c \<noteq> None \<or>
                 cp_completed_stop c \<noteq> None))
      then bail ''checkpoint lacks a predecessor or gives an empty prefix a routing anchor''
      else if rc_policy (cp_routing c) \<noteq> sd_routing_policy d
      then bail ''checkpoint routing policy differs from its stream''
      else bindR (routing_validate x (cp_routing c) (cp_ordinal c)) (\<lambda>_.
        bindR (case cp_event c of None \<Rightarrow> Inr () | Some e \<Rightarrow> event_validate x e) (\<lambda>_.
        if (case cp_completed_stop c of None \<Rightarrow> False | Some stop \<Rightarrow> stop \<le> sd_origin_start d)
        then bail ''invalid completed request bound''
        else bindR (descriptor_id x d) (\<lambda>stream.
          if cp_id c \<noteq> checkpoint_identity x c stream then bail ''checkpoint identity mismatch''
          else Inr ()))))"

definition checkpoint_initial :: "ext \<Rightarrow> stream_descriptor \<Rightarrow> checkpoint result" where
  "checkpoint_initial x d =
     bindR (descriptor_id x d) (\<lambda>stream.
       let c = \<lparr> cp_id = stream, cp_previous = None, cp_ordinal = 0, cp_event = None,
                 cp_routing = \<lparr> rc_policy = sd_routing_policy d, rc_anchor = None \<rparr>,
                 cp_completed_stop = None \<rparr>
       in Inr (c\<lparr> cp_id := checkpoint_identity x c stream \<rparr>))"

definition checkpoint_advance ::
  "ext \<Rightarrow> checkpoint \<Rightarrow> stream_descriptor \<Rightarrow> accepted_prefix \<Rightarrow> checkpoint result" where
  "checkpoint_advance x c d p =
     bindR (checkpoint_validate x c d) (\<lambda>_.
     bindR (prefix_validate x p) (\<lambda>_.
     bindR (some_or (checked_add (cp_ordinal c) 1) ''accepted ordinal exhausted'') (\<lambda>first.
     if ap_first_ordinal p \<noteq> first
     then bail ''transaction does not begin immediately after authority''
     else
       let nxt = \<lparr> cp_id = cp_id c, cp_previous = Some (cp_id c), cp_ordinal = ap_last_ordinal p,
                   cp_event = Some (ap_last_event p), cp_routing = ap_routing p,
                   cp_completed_stop = cp_completed_stop c \<rparr>
       in bindR (descriptor_id x d) (\<lambda>stream.
          let nxt' = nxt\<lparr> cp_id := checkpoint_identity x nxt stream \<rparr>
          in bindR (checkpoint_validate x nxt' d) (\<lambda>_. Inr nxt')))))"

definition complete_request ::
  "ext \<Rightarrow> checkpoint \<Rightarrow> stream_descriptor \<Rightarrow> nat \<Rightarrow> checkpoint result" where
  "complete_request x c d stop =
     bindR (checkpoint_validate x c d) (\<lambda>_.
     if stop \<le> sd_origin_start d
     then bail ''completed stop must follow the stream's original start''
     else if (case cp_completed_stop c of None \<Rightarrow> False | Some previous \<Rightarrow> stop \<le> previous)
     then bail ''completion must extend the previous completed bound; repeat detection is a separate no-op check''
     else bindR (some_or (cp_event c) ''no accepted boundary event proves completion; choose a range with an observed final requested block'') (\<lambda>event.
       if ev_block_num event < stop - 1
       then bail ''accepted block does not prove requested stop; the durable prefix is retained, but sparse/empty EOF cannot establish completion; use a bound ending at an observed block''
       else
         let nxt = c\<lparr> cp_previous := Some (cp_id c), cp_completed_stop := Some stop \<rparr>
         in bindR (descriptor_id x d) (\<lambda>stream.
            let nxt' = nxt\<lparr> cp_id := checkpoint_identity x nxt stream \<rparr>
            in bindR (checkpoint_validate x nxt' d) (\<lambda>_. Inr nxt'))))"

section \<open>Pending transaction\<close>

datatype transaction_phase = Writing | Committed

record table_plan =
  tp_table :: string
  tp_rows :: nat
  tp_schema_sha256 :: digest
  tp_partition :: string

record part_receipt =
  pr_byte_size :: nat
  pr_sha256 :: digest
  pr_stats :: string
  pr_modification_time :: int

record planned_part =
  pp_table :: string
  pp_final :: string
  pp_temporary :: string
  pp_schema_sha256 :: digest
  pp_entry_index :: nat
  pp_row_count :: nat
  pp_receipt :: "part_receipt option"

datatype part_compression = CNone | Snappy | Gzip | Zstd | ZstdWithLevel int

record pending_transaction =
  pt_format_version :: nat
  pt_id :: digest
  pt_stream_id :: digest
  pt_predecessor :: digest
  pt_phase :: transaction_phase
  pt_prefix :: accepted_prefix
  pt_target :: checkpoint
  pt_tables :: "table_plan list"
  pt_compression :: part_compression
  pt_parts :: "planned_part list"

fun compression_json :: "part_compression \<Rightarrow> json" where
  "compression_json CNone = JStr ''none''"
| "compression_json Snappy = JStr ''snappy''"
| "compression_json Gzip = JStr ''gzip''"
| "compression_json Zstd = JStr ''zstd''"
| "compression_json (ZstdWithLevel l) = JObj [(''zstd_with_level'', JNum l)]"

definition table_plan_json :: "table_plan \<Rightarrow> json" where
  "table_plan_json t = JObj
     [(''table'', JStr (tp_table t)), (''rows'', JNum (int (tp_rows t))),
      (''schema_sha256'', digest_json (tp_schema_sha256 t)),
      (''partition'', JStr (tp_partition t))]"

definition pending_identity ::
  "ext \<Rightarrow> digest \<Rightarrow> digest \<Rightarrow> accepted_prefix \<Rightarrow> checkpoint \<Rightarrow> table_plan list \<Rightarrow>
   part_compression \<Rightarrow> digest" where
  "pending_identity x stream predecessor prefix target tables compression =
     digest_hash x ''pending'' (JArr
       [digest_json stream, digest_json predecessor, prefix_json prefix,
        digest_json (cp_id target), JArr (map table_plan_json tables),
        compression_json compression])"

definition u32_max :: nat where
  "u32_max = 4294967295"

definition part_directory :: "table_plan \<Rightarrow> string" where
  "part_directory t =
     (if tp_partition t = [] then tp_table t else tp_table t @ ''/'' @ tp_partition t)"

definition final_name :: "digest \<Rightarrow> digest \<Rightarrow> accepted_prefix \<Rightarrow> nat \<Rightarrow> string" where
  "final_name tid stream prefix index =
     ''part-v1-'' @ digest_str stream @ ''-'' @ dec (ap_first_ordinal prefix) @ ''-'' @
     dec (ap_last_ordinal prefix) @ ''-'' @ digest_str tid @ ''-'' @ dec index @ ''.parquet''"

definition temporary_name :: "digest \<Rightarrow> nat \<Rightarrow> string" where
  "temporary_name tid index = ''.fireparq-txn-'' @ digest_str tid @ ''-'' @ dec index @ ''.tmp''"

text \<open>The loop of \<open>derive_parts\<close> from table number \<open>index\<close> on.\<close>

primrec derive_parts_from ::
  "nat \<Rightarrow> digest \<Rightarrow> digest \<Rightarrow> accepted_prefix \<Rightarrow> table_plan list \<Rightarrow> planned_part list result" where
  "derive_parts_from index tid stream prefix [] = Inr []"
| "derive_parts_from index tid stream prefix (t # ts) =
     (if tp_rows t = 0 then derive_parts_from (Suc index) tid stream prefix ts
      else if length (final_name tid stream prefix index) > 255
      then bail ''deterministic part filename exceeds filesystem component limit''
      else if index > u32_max then bail ''out of range integral type conversion attempted''
      else bindR (derive_parts_from (Suc index) tid stream prefix ts) (\<lambda>parts.
        Inr (\<lparr> pp_table = tp_table t,
               pp_final = part_directory t @ ''/'' @ final_name tid stream prefix index,
               pp_temporary = part_directory t @ ''/'' @ temporary_name tid index,
               pp_schema_sha256 = tp_schema_sha256 t,
               pp_entry_index = index,
               pp_row_count = tp_rows t,
               pp_receipt = None \<rparr> # parts)))"

definition derive_parts ::
  "digest \<Rightarrow> digest \<Rightarrow> accepted_prefix \<Rightarrow> table_plan list \<Rightarrow> planned_part list result" where
  "derive_parts = derive_parts_from 0"

text \<open>The inventory loop of \<open>validate\<close>, with the previous table name and the names seen.\<close>

definition validate_table_plan ::
  "ext \<Rightarrow> stream_descriptor \<Rightarrow> string option \<Rightarrow> string list \<Rightarrow> table_plan \<Rightarrow> unit result" where
  "validate_table_plan x d prev seen t =
     bindR (validate_table (tp_table t)) (\<lambda>_.
     bindR (validate_relative_path (tp_partition t) True) (\<lambda>_.
     bindR (if tp_rows t = 0
            then (if tp_partition t = [] then Inr ()
                  else bail ''pending table without rows records a partition'')
            else bindR (with_context ''pending table partition is not a date=YYYY-MM-DD directory''
                   (date_parse (x_calendar x) (tp_partition t))) (\<lambda>_. Inr ())) (\<lambda>_.
     if (case prev of None \<Rightarrow> False | Some q \<Rightarrow> tp_table t \<le> q)
     then bail ''pending table inventory is not uniquely sorted''
     else if map_of (sd_tables d) (tp_table t) \<noteq> Some (tp_schema_sha256 t) \<or>
             tp_table t \<in> set seen
     then bail ''pending table schema differs from stream inventory''
     else Inr ())))"

primrec validate_table_plans ::
  "ext \<Rightarrow> stream_descriptor \<Rightarrow> string option \<Rightarrow> string list \<Rightarrow> table_plan list \<Rightarrow> unit result" where
  "validate_table_plans x d prev seen [] = Inr ()"
| "validate_table_plans x d prev seen (t # ts) =
     bindR (validate_table_plan x d prev seen t) (\<lambda>_.
     validate_table_plans x d (Some (tp_table t)) (tp_table t # seen) ts)"

definition validate_receipt :: "ext \<Rightarrow> nat \<Rightarrow> part_receipt \<Rightarrow> unit result" where
  "validate_receipt x rows r =
     (if pr_byte_size r = 0 then bail ''pending part receipt has an invalid byte size''
      else if pr_modification_time r \<le> 0
      then bail ''pending part receipt has an invalid modification time''
      else with_context ''pending part receipt has invalid Delta statistics''
        (check_stats x (pr_stats r) rows))"

definition validate_part ::
  "ext \<Rightarrow> transaction_phase \<Rightarrow> planned_part \<times> planned_part \<Rightarrow> unit result" where
  "validate_part x phase ea =
     (case ea of (expected, actual) \<Rightarrow>
        if actual\<lparr> pp_receipt := None \<rparr> \<noteq> expected
        then bail ''pending final or temporary path differs from its deterministic plan''
        else bindR (case pp_receipt actual of None \<Rightarrow> Inr ()
               | Some r \<Rightarrow> validate_receipt x (pp_row_count actual) r) (\<lambda>_.
          if phase = Committed \<and> pp_receipt actual = None
          then bail ''committed transaction lacks a complete part receipt'' else Inr ()))"

definition validate_compression :: "ext \<Rightarrow> part_compression \<Rightarrow> unit result" where
  "validate_compression x c =
     (case c of ZstdWithLevel level \<Rightarrow>
        bindR (require (level \<noteq> 0 \<and> level \<noteq> 3) ''noncanonical explicit zstd level'') (\<lambda>_.
          require (x_zstd_level x level) ''invalid pending zstd level'')
      | _ \<Rightarrow> Inr ())"

definition pending_validate ::
  "ext \<Rightarrow> pending_transaction \<Rightarrow> stream_descriptor \<Rightarrow> unit result" where
  "pending_validate x p d =
     bindR (descriptor_validate d) (\<lambda>_.
     bindR (validate_compression x (pt_compression p)) (\<lambda>_.
     bindR (prefix_validate x (pt_prefix p)) (\<lambda>_.
     bindR (checkpoint_validate x (pt_target p) d) (\<lambda>_.
     bindR (descriptor_id x d) (\<lambda>stream.
     if pt_format_version p \<noteq> FORMAT_VERSION \<or> pt_stream_id p \<noteq> stream \<or>
        cp_previous (pt_target p) \<noteq> Some (pt_predecessor p) \<or>
        cp_ordinal (pt_target p) \<noteq> ap_last_ordinal (pt_prefix p) \<or>
        cp_event (pt_target p) \<noteq> Some (ap_last_event (pt_prefix p)) \<or>
        cp_routing (pt_target p) \<noteq> ap_routing (pt_prefix p)
     then bail ''pending transaction identity or target frontier is inconsistent''
     else if length (pt_tables p) \<noteq> length (sd_tables d) \<or> length (pt_tables p) > MAX_TABLES
     then bail ''pending table inventory is incomplete''
     else bindR (validate_table_plans x d None [] (pt_tables p)) (\<lambda>_.
     if pt_id p \<noteq> pending_identity x (pt_stream_id p) (pt_predecessor p) (pt_prefix p)
          (pt_target p) (pt_tables p) (pt_compression p)
     then bail ''pending transaction digest mismatch''
     else bindR (derive_parts (pt_id p) (pt_stream_id p) (pt_prefix p) (pt_tables p)) (\<lambda>expected.
     if length expected \<noteq> length (pt_parts p) then bail ''pending part inventory is incomplete''
     else for_each (validate_part x (pt_phase p)) (zip expected (pt_parts p)))))))))"

text \<open>\<open>iter_mut().find(|part| part.entry_index == i)\<close> followed by the assignment of the receipt.\<close>

primrec set_receipt ::
  "nat \<Rightarrow> part_receipt \<Rightarrow> planned_part list \<Rightarrow> planned_part list result" where
  "set_receipt entry_index r [] = bail ''unknown planned part entry''"
| "set_receipt entry_index r (q # qs) =
     (if pp_entry_index q = entry_index
      then (if (case pp_receipt q of None \<Rightarrow> False | Some previous \<Rightarrow> previous \<noteq> r)
            then bail ''cannot replace a frozen receipt with different bytes''
            else Inr (q\<lparr> pp_receipt := Some r \<rparr> # qs))
      else bindR (set_receipt entry_index r qs) (\<lambda>qs'. Inr (q # qs')))"

definition with_receipt ::
  "ext \<Rightarrow> pending_transaction \<Rightarrow> nat \<Rightarrow> part_receipt \<Rightarrow> stream_descriptor \<Rightarrow>
   pending_transaction result" where
  "with_receipt x p entry_index r d =
     bindR (pending_validate x p d) (\<lambda>_.
     if pt_phase p \<noteq> Writing then bail ''cannot change a committed transaction receipt''
     else bindR (set_receipt entry_index r (pt_parts p)) (\<lambda>parts.
       let nxt = p\<lparr> pt_parts := parts \<rparr>
       in bindR (pending_validate x nxt d) (\<lambda>_. Inr nxt)))"

definition committed_after_verification ::
  "ext \<Rightarrow> pending_transaction \<Rightarrow> stream_descriptor \<Rightarrow> pending_transaction result" where
  "committed_after_verification x p d =
     bindR (pending_validate x p d) (\<lambda>_.
       let nxt = p\<lparr> pt_phase := Committed \<rparr>
       in bindR (pending_validate x nxt d) (\<lambda>_. Inr nxt))"

section \<open>Authority\<close>

record authority_state =
  au_descriptor :: stream_descriptor
  au_checkpoint :: checkpoint

definition authority_initial :: "ext \<Rightarrow> stream_descriptor \<Rightarrow> authority_state result" where
  "authority_initial x d =
     bindR (checkpoint_initial x d) (\<lambda>c. Inr \<lparr> au_descriptor = d, au_checkpoint = c \<rparr>)"

definition authority_validate :: "ext \<Rightarrow> authority_state \<Rightarrow> unit result" where
  "authority_validate x a =
     bindR (descriptor_validate (au_descriptor a)) (\<lambda>_.
     checkpoint_validate x (au_checkpoint a) (au_descriptor a))"

definition validate_predecessor ::
  "ext \<Rightarrow> authority_state \<Rightarrow> pending_transaction \<Rightarrow> unit result" where
  "validate_predecessor x a p =
     bindR (authority_validate x a) (\<lambda>_.
     bindR (pending_validate x p (au_descriptor a)) (\<lambda>_.
     if pt_predecessor p \<noteq> cp_id (au_checkpoint a)
     then bail ''authority differs from the pending predecessor''
     else bindR (some_or (checked_add (cp_ordinal (au_checkpoint a)) 1)
                  ''accepted ordinal exhausted'') (\<lambda>first.
       if ap_first_ordinal (pt_prefix p) \<noteq> first \<or>
          cp_completed_stop (pt_target p) \<noteq> cp_completed_stop (au_checkpoint a)
       then bail ''pending transaction skips accepted ordinals or changes request completion''
       else Inr ())))"

definition install ::
  "ext \<Rightarrow> authority_state \<Rightarrow> pending_transaction \<Rightarrow> authority_state result" where
  "install x a p =
     bindR (validate_predecessor x a p) (\<lambda>_.
     if pt_phase p \<noteq> Committed then bail ''authority cannot advance before all-table commit''
     else Inr \<lparr> au_descriptor = au_descriptor a, au_checkpoint = pt_target p \<rparr>)"

definition prepare ::
  "ext \<Rightarrow> authority_state \<Rightarrow> accepted_prefix \<Rightarrow> table_plan list \<Rightarrow> part_compression \<Rightarrow>
   pending_transaction result" where
  "prepare x a prefix tables0 compression =
     bindR (authority_validate x a) (\<lambda>_.
     bindR (prefix_validate x prefix) (\<lambda>_.
     let tables = sort_key tp_table tables0 in
     bindR (descriptor_id x (au_descriptor a)) (\<lambda>stream_id.
     let predecessor = cp_id (au_checkpoint a) in
     bindR (checkpoint_advance x (au_checkpoint a) (au_descriptor a) prefix) (\<lambda>target.
     let tid = pending_identity x stream_id predecessor prefix target tables compression in
     bindR (derive_parts tid stream_id prefix tables) (\<lambda>parts.
     let pending = \<lparr> pt_format_version = FORMAT_VERSION, pt_id = tid, pt_stream_id = stream_id,
           pt_predecessor = predecessor, pt_phase = Writing, pt_prefix = prefix,
           pt_target = target, pt_tables = tables, pt_compression = compression,
           pt_parts = parts \<rparr>
     in bindR (pending_validate x pending (au_descriptor a)) (\<lambda>_. Inr pending))))))"

section \<open>Part names\<close>

lemma dec_no_sep [simp]: "CHR ''-'' \<notin> set (dec n)" "CHR ''/'' \<notin> set (dec n)"
  "CHR ''.'' \<notin> set (dec n)"
  using dec_digits by (auto dest!: dec_digits simp: is_ascii_digit_def byte_def)

lemma final_name_length:
  assumes "digest_wf tid" "digest_wf stream" "ap_first_ordinal p \<le> u64_max"
    "ap_last_ordinal p \<le> u64_max" "index < MAX_TABLES"
  shows "length (final_name tid stream p index) \<le> 191"
proof -
  have "length (dec index) \<le> 3" using assms(5) by (intro length_dec) (auto simp: MAX_TABLES_def)
  moreover have "length (dec (ap_first_ordinal p)) \<le> 20" "length (dec (ap_last_ordinal p)) \<le> 20"
    using assms length_dec_u64 by blast+
  ultimately show ?thesis using assms(1,2) by (simp add: final_name_def digest_wf_def)
qed

lemma final_name_no_slash:
  assumes "digest_wf tid" "digest_wf stream"
  shows "CHR ''/'' \<notin> set (final_name tid stream p index)"
  using digest_wf_no_sep [OF assms(1)] digest_wf_no_sep [OF assms(2)]
  by (auto simp: final_name_def)

lemma temporary_name_no_slash: "digest_wf tid \<Longrightarrow> CHR ''/'' \<notin> set (temporary_name tid index)"
  using digest_wf_no_sep [of tid] by (auto simp: temporary_name_def)

lemma digest_str_inj: "digest_str a = digest_str b \<longleftrightarrow> a = b"
  by (cases a; cases b) auto

lemma final_name_inj:
  assumes "digest_wf t" "digest_wf s" "digest_wf t'" "digest_wf s'"
    and "final_name t s p i = final_name t' s' p' i'"
  shows "t = t' \<and> s = s' \<and> i = i' \<and> ap_first_ordinal p = ap_first_ordinal p' \<and>
    ap_last_ordinal p = ap_last_ordinal p'"
  using assms(5) digest_wf_no_sep(1) assms(1-4)
  by (simp add: final_name_def sep_first_inj digest_str_inj dec_inj)

lemma temporary_name_inj:
  assumes "digest_wf t" "digest_wf t'" "temporary_name t i = temporary_name t' i'"
  shows "t = t' \<and> i = i'"
  using assms(3) digest_wf_no_sep(1) assms(1,2)
  by (simp add: temporary_name_def sep_first_inj digest_str_inj dec_inj)

lemma final_not_temporary: "final_name t s p i \<noteq> temporary_name t' i'"
  by (simp add: final_name_def temporary_name_def)

section \<open>The planned parts of a transaction\<close>

definition plan_part :: "digest \<Rightarrow> digest \<Rightarrow> accepted_prefix \<Rightarrow> nat \<Rightarrow> table_plan \<Rightarrow> planned_part" where
  "plan_part tid stream prefix index t =
     \<lparr> pp_table = tp_table t,
       pp_final = part_directory t @ ''/'' @ final_name tid stream prefix index,
       pp_temporary = part_directory t @ ''/'' @ temporary_name tid index,
       pp_schema_sha256 = tp_schema_sha256 t, pp_entry_index = index, pp_row_count = tp_rows t,
       pp_receipt = None \<rparr>"

definition live_entries :: "nat \<Rightarrow> table_plan list \<Rightarrow> (nat \<times> table_plan) list" where
  "live_entries index ts = filter (\<lambda>(i, t). 0 < tp_rows t) (zip [index..<index + length ts] ts)"

lemma live_entries_Nil [simp]: "live_entries i [] = []"
  by (simp add: live_entries_def)

lemma live_entries_Cons [simp]:
  "live_entries i (t # ts) = (if 0 < tp_rows t then [(i, t)] else []) @ live_entries (Suc i) ts"
  by (simp add: live_entries_def upt_conv_Cons del: upt_Suc)

lemma derive_parts_from_eq:
  "derive_parts_from i tid s p ts = Inr parts \<Longrightarrow>
     parts = map (\<lambda>(j, t). plan_part tid s p j t) (live_entries i ts)"
  by (induction ts arbitrary: i parts)
    (auto simp: plan_part_def result_simps split: if_splits)

lemma derive_parts_eq:
  "derive_parts tid s p ts = Inr parts \<Longrightarrow>
     parts = map (\<lambda>(j, t). plan_part tid s p j t) (live_entries 0 ts)"
  by (simp add: derive_parts_def derive_parts_from_eq)

lemma derive_parts_from_total:
  assumes "digest_wf tid" "digest_wf s" "ap_first_ordinal p \<le> u64_max" "ap_last_ordinal p \<le> u64_max"
  shows "i + length ts \<le> MAX_TABLES \<Longrightarrow>
    derive_parts_from i tid s p ts = Inr (map (\<lambda>(j, t). plan_part tid s p j t) (live_entries i ts))"
proof (induction ts arbitrary: i)
  case Nil
  then show ?case by simp
next
  case (Cons t ts)
  then have "i < MAX_TABLES" by simp
  then have "length (final_name tid s p i) \<le> 191" "i \<le> u32_max"
    using final_name_length [OF assms] by (auto simp: MAX_TABLES_def u32_max_def)
  with Cons show ?case by (simp add: plan_part_def)
qed

lemma live_entries_less: "(j, t) \<in> set (live_entries i ts) \<Longrightarrow> i \<le> j \<and> j < i + length ts"
  by (auto simp: live_entries_def dest: set_zip_leftD)

lemma live_entries_mem: "(j, t) \<in> set (live_entries i ts) \<Longrightarrow> t \<in> set ts \<and> 0 < tp_rows t"
  by (auto simp: live_entries_def dest: set_zip_rightD)

lemma distinct_live_indices: "distinct (map fst (live_entries i ts))"
proof (induction ts arbitrary: i)
  case (Cons t ts)
  then show ?case using live_entries_less by fastforce
qed simp

section \<open>What validation establishes\<close>

lemma descriptor_id_ok:
  "descriptor_id x d = Inr s \<longleftrightarrow>
     descriptor_validate d = Inr () \<and> s = digest_hash x ''stream'' (descriptor_json d)"
  by (auto simp: descriptor_id_def result_simps)

lemma checkpoint_identity_id [simp]:
  "checkpoint_identity x (c\<lparr> cp_id := i \<rparr>) s = checkpoint_identity x c s"
  by (simp add: checkpoint_identity_def)

definition checkpoint_shape :: "ext \<Rightarrow> checkpoint \<Rightarrow> stream_descriptor \<Rightarrow> bool" where
  "checkpoint_shape x c d \<longleftrightarrow>
     (cp_ordinal c = 0 \<longleftrightarrow> cp_event c = None) \<and>
     (cp_ordinal c > 0 \<longrightarrow> cp_previous c \<noteq> None) \<and>
     (cp_ordinal c = 0 \<longrightarrow> rc_anchor (cp_routing c) = None \<and> cp_previous c = None \<and>
        cp_completed_stop c = None) \<and>
     rc_policy (cp_routing c) = sd_routing_policy d \<and>
     routing_validate x (cp_routing c) (cp_ordinal c) = Inr () \<and>
     (\<forall>e. cp_event c = Some e \<longrightarrow> event_validate x e = Inr ()) \<and>
     (\<forall>stop. cp_completed_stop c = Some stop \<longrightarrow> sd_origin_start d < stop)"

lemma checkpoint_validate_ok:
  "checkpoint_validate x c d = Inr () \<longleftrightarrow>
     checkpoint_shape x c d \<and>
     (\<exists>s. descriptor_id x d = Inr s \<and> cp_id c = checkpoint_identity x c s)"
  by (auto simp: checkpoint_validate_def checkpoint_shape_def result_simps not_le
      split: if_splits option.splits)

lemma checkpoint_shape_id [simp]: "checkpoint_shape x (c\<lparr> cp_id := i \<rparr>) d = checkpoint_shape x c d"
  by (simp add: checkpoint_shape_def)

lemma initial_valid:
  "authority_initial x d = Inr a \<Longrightarrow> authority_validate x a = Inr ()"
  by (auto simp: authority_initial_def authority_validate_def checkpoint_initial_def Let_def
      result_simps checkpoint_validate_ok checkpoint_shape_def descriptor_id_ok
      routing_validate_def checkpoint_identity_def)

lemma initial_total:
  "descriptor_validate d = Inr () \<Longrightarrow> \<exists>a. authority_initial x d = Inr a"
  by (auto simp: authority_initial_def checkpoint_initial_def descriptor_id_def Let_def)

lemma advance_ok:
  assumes "checkpoint_advance x c d p = Inr n"
  shows "checkpoint_validate x c d = Inr ()" "prefix_validate x p = Inr ()"
    "checkpoint_validate x n d = Inr ()" "ap_first_ordinal p = cp_ordinal c + 1"
    "cp_previous n = Some (cp_id c)" "cp_ordinal n = ap_last_ordinal p"
    "cp_event n = Some (ap_last_event p)" "cp_routing n = ap_routing p"
    "cp_completed_stop n = cp_completed_stop c" "cp_ordinal c < u64_max"
  using assms by (auto simp: checkpoint_advance_def Let_def result_simps split: if_splits)

lemma prefix_validate_ok:
  "prefix_validate x p = Inr () \<longleftrightarrow> 0 < ap_first_ordinal p \<and> ap_first_ordinal p \<le> ap_last_ordinal p \<and>
     event_validate x (ap_last_event p) = Inr () \<and>
     routing_validate x (ap_routing p) (ap_last_ordinal p) = Inr ()"
  by (auto simp: prefix_validate_def result_simps not_less)

lemma advance_total:
  assumes c: "checkpoint_validate x c d = Inr ()" and p: "prefix_validate x p = Inr ()"
    and f: "ap_first_ordinal p = cp_ordinal c + 1" "ap_first_ordinal p \<le> u64_max"
    and pol: "rc_policy (ap_routing p) = sd_routing_policy d"
  shows "\<exists>n. checkpoint_advance x c d p = Inr n"
proof -
  obtain s where s: "descriptor_id x d = Inr s" using c by (auto simp: checkpoint_validate_ok)
  define n where "n = \<lparr> cp_id = cp_id c, cp_previous = Some (cp_id c),
     cp_ordinal = ap_last_ordinal p, cp_event = Some (ap_last_event p), cp_routing = ap_routing p,
     cp_completed_stop = cp_completed_stop c \<rparr>"
  have "checkpoint_shape x n d"
    using c p pol by (auto simp: n_def checkpoint_shape_def checkpoint_validate_ok prefix_validate_ok)
  then have "checkpoint_validate x (n\<lparr> cp_id := checkpoint_identity x n s \<rparr>) d = Inr ()"
    using s by (simp add: checkpoint_validate_ok)
  moreover have "some_or (checked_add (cp_ordinal c) 1) msg = Inr (ap_first_ordinal p)" for msg
    using f by simp
  ultimately show ?thesis
    unfolding checkpoint_advance_def Let_def n_def [symmetric] c p s
    by (simp only: bindR_Inr if_False simp_thms) blast
qed

lemma complete_request_ok:
  assumes "complete_request x c d stop = Inr n"
  shows "checkpoint_validate x n d = Inr ()" "cp_previous n = Some (cp_id c)"
    "cp_ordinal n = cp_ordinal c" "cp_event n = cp_event c" "cp_routing n = cp_routing c"
    "cp_completed_stop n = Some stop" "sd_origin_start d < stop"
    "\<forall>s. cp_completed_stop c = Some s \<longrightarrow> s < stop"
    "\<exists>e. cp_event c = Some e \<and> stop \<le> ev_block_num e + 1"
  using assms
  by (auto simp: complete_request_def Let_def result_simps split: if_splits option.splits)

text \<open>The table inventory: strictly sorted names, each with the stream's schema and its day.\<close>

definition table_plan_fits :: "ext \<Rightarrow> stream_descriptor \<Rightarrow> table_plan \<Rightarrow> bool" where
  "table_plan_fits x d t \<longleftrightarrow>
     validate_table (tp_table t) = Inr () \<and>
     validate_relative_path (tp_partition t) True = Inr () \<and>
     (if tp_rows t = 0 then tp_partition t = []
      else \<exists>q. date_parse (x_calendar x) (tp_partition t) = Inr q) \<and>
     map_of (sd_tables d) (tp_table t) = Some (tp_schema_sha256 t)"

lemma validate_table_plan_ok:
  "validate_table_plan x d prev seen t = Inr () \<longleftrightarrow>
     table_plan_fits x d t \<and> (\<forall>q. prev = Some q \<longrightarrow> q < tp_table t) \<and> tp_table t \<notin> set seen"
  by (auto simp: validate_table_plan_def table_plan_fits_def result_simps not_le
      split: if_splits option.splits)

lemma validate_table_plans_ok:
  "(\<forall>s \<in> set seen. \<exists>q. prev = Some q \<and> s \<le> q) \<Longrightarrow>
   validate_table_plans x d prev seen ts = Inr () \<longleftrightarrow>
     (\<forall>t \<in> set ts. table_plan_fits x d t) \<and> sorted_wrt (<) (map tp_table ts) \<and>
     (\<forall>q. prev = Some q \<longrightarrow> (\<forall>t \<in> set ts. q < tp_table t))"
proof (induction ts arbitrary: prev seen)
  case Nil
  then show ?case by simp
next
  case (Cons t ts)
  show ?case
  proof (cases "\<forall>q. prev = Some q \<longrightarrow> q < tp_table t")
    case True
    with Cons.prems have seen: "\<forall>s \<in> set seen. s < tp_table t" by fastforce
    then have "\<forall>s \<in> set (tp_table t # seen). \<exists>q. Some (tp_table t) = Some q \<and> s \<le> q" by auto
    note ih = Cons.IH [OF this]
    have "validate_table_plan x d prev seen t = Inr () \<longleftrightarrow> table_plan_fits x d t"
      using True seen by (auto simp: validate_table_plan_ok)
    then show ?thesis using True
      by (auto simp: result_simps ih intro: order.strict_trans)
  next
    case False
    then have "validate_table_plan x d prev seen t \<noteq> Inr ()" by (simp add: validate_table_plan_ok)
    with False show ?thesis by (auto simp: result_simps)
  qed
qed

text \<open>
  A valid pending transaction: the frame that fixes its identity, and parts that are the planned
  ones, each with a valid receipt or, while writing, none.
\<close>

definition pending_frame :: "ext \<Rightarrow> pending_transaction \<Rightarrow> stream_descriptor \<Rightarrow> bool" where
  "pending_frame x p d \<longleftrightarrow>
     validate_compression x (pt_compression p) = Inr () \<and>
     prefix_validate x (pt_prefix p) = Inr () \<and>
     checkpoint_validate x (pt_target p) d = Inr () \<and>
     pt_format_version p = FORMAT_VERSION \<and>
     descriptor_id x d = Inr (pt_stream_id p) \<and>
     cp_previous (pt_target p) = Some (pt_predecessor p) \<and>
     cp_ordinal (pt_target p) = ap_last_ordinal (pt_prefix p) \<and>
     cp_event (pt_target p) = Some (ap_last_event (pt_prefix p)) \<and>
     cp_routing (pt_target p) = ap_routing (pt_prefix p) \<and>
     length (pt_tables p) = length (sd_tables d) \<and> length (pt_tables p) \<le> MAX_TABLES \<and>
     (\<forall>t \<in> set (pt_tables p). table_plan_fits x d t) \<and>
     sorted_wrt (<) (map tp_table (pt_tables p)) \<and>
     pt_id p = pending_identity x (pt_stream_id p) (pt_predecessor p) (pt_prefix p)
       (pt_target p) (pt_tables p) (pt_compression p)"

definition receipt_fits :: "ext \<Rightarrow> transaction_phase \<Rightarrow> planned_part \<Rightarrow> bool" where
  "receipt_fits x phase a \<longleftrightarrow>
     (case pp_receipt a of None \<Rightarrow> phase = Writing
      | Some r \<Rightarrow> validate_receipt x (pp_row_count a) r = Inr ())"

definition expected_parts :: "pending_transaction \<Rightarrow> planned_part list result" where
  "expected_parts p = derive_parts (pt_id p) (pt_stream_id p) (pt_prefix p) (pt_tables p)"

lemma list_all2_map_eq:
  "list_all2 (\<lambda>e a. f a = e \<and> P a) es as \<longleftrightarrow> es = map f as \<and> (\<forall>a \<in> set as. P a)"
  by (induction es arbitrary: as) (auto simp: list_all2_Cons1 Cons_eq_map_conv)

lemma validate_part_ok:
  "validate_part x phase (e, a) = Inr () \<longleftrightarrow>
     a\<lparr> pp_receipt := None \<rparr> = e \<and> receipt_fits x phase a"
  by (cases phase)
    (auto simp: validate_part_def receipt_fits_def result_simps split: option.splits if_splits)

lemma pending_validate_ok:
  "pending_validate x p d = Inr () \<longleftrightarrow>
     pending_frame x p d \<and>
     expected_parts p = Inr (map (\<lambda>a. a\<lparr> pp_receipt := None \<rparr>) (pt_parts p)) \<and>
     (\<forall>a \<in> set (pt_parts p). receipt_fits x (pt_phase p) a)"
proof -
  have zip: "length e = length as \<and> (\<forall>(u, v) \<in> set (zip e as). validate_part x ph (u, v) = Inr ())
      \<longleftrightarrow> e = map (\<lambda>a. a\<lparr> pp_receipt := None \<rparr>) as \<and> (\<forall>a \<in> set as. receipt_fits x ph a)"
    for e as ph
    using list_all2_map_eq [of "\<lambda>a. a\<lparr> pp_receipt := None \<rparr>" "receipt_fits x ph" e as]
    by (simp only: list_all2_iff validate_part_ok)
  have frame: "pending_frame x p d \<longleftrightarrow> descriptor_validate d = Inr () \<and> pending_frame x p d"
    by (auto simp: pending_frame_def descriptor_id_ok)
  have plans: "validate_table_plans x d None [] ts = Inr () \<longleftrightarrow>
      (\<forall>t \<in> set ts. table_plan_fits x d t) \<and> sorted_wrt (<) (map tp_table ts)" for ts
    by (simp add: validate_table_plans_ok)
  have "pending_validate x p d = Inr () \<longleftrightarrow> descriptor_validate d = Inr () \<and> pending_frame x p d \<and>
      (\<exists>e. expected_parts p = Inr e \<and> length e = length (pt_parts p) \<and>
        (\<forall>(u, v) \<in> set (zip e (pt_parts p)). validate_part x (pt_phase p) (u, v) = Inr ()))"
    by (auto simp: pending_validate_def pending_frame_def expected_parts_def result_simps plans
        not_less split: if_splits)
  also have "\<dots> \<longleftrightarrow> pending_frame x p d \<and>
     expected_parts p = Inr (map (\<lambda>a. a\<lparr> pp_receipt := None \<rparr>) (pt_parts p)) \<and>
     (\<forall>a \<in> set (pt_parts p). receipt_fits x (pt_phase p) a)"
    using frame by (simp only: zip) blast
  finally show ?thesis .
qed

lemma pending_frame_parts [simp]: "pending_frame x (p\<lparr> pt_parts := ps \<rparr>) d = pending_frame x p d"
  "pending_frame x (p\<lparr> pt_phase := ph \<rparr>) d = pending_frame x p d"
  by (simp_all add: pending_frame_def)

lemma expected_parts_parts [simp]: "expected_parts (p\<lparr> pt_parts := ps \<rparr>) = expected_parts p"
  "expected_parts (p\<lparr> pt_phase := ph \<rparr>) = expected_parts p"
  by (simp_all add: expected_parts_def)

lemma pending_ids_wf:
  assumes "sha256_hex x" "pending_frame x p d"
  shows "digest_wf (pt_id p)" "digest_wf (pt_stream_id p)"
proof -
  have "pt_id p = pending_identity x (pt_stream_id p) (pt_predecessor p) (pt_prefix p)
       (pt_target p) (pt_tables p) (pt_compression p)" using assms(2) by (simp only: pending_frame_def)
  then show "digest_wf (pt_id p)" using assms(1) by (metis pending_identity_def digest_hash_wf)
  show "digest_wf (pt_stream_id p)" using assms by (auto simp: pending_frame_def descriptor_id_ok)
qed

lemma part_plan:
  assumes "pending_validate x p d = Inr ()" "a \<in> set (pt_parts p)"
  obtains t where "t \<in> set (pt_tables p)" "0 < tp_rows t" "pp_entry_index a < length (pt_tables p)"
    "a\<lparr> pp_receipt := None \<rparr> = plan_part (pt_id p) (pt_stream_id p) (pt_prefix p)
      (pp_entry_index a) t"
proof -
  have "map (\<lambda>a. a\<lparr> pp_receipt := None \<rparr>) (pt_parts p) =
      map (\<lambda>(j, t). plan_part (pt_id p) (pt_stream_id p) (pt_prefix p) j t)
        (live_entries 0 (pt_tables p))"
    using assms(1) by (auto simp: pending_validate_ok expected_parts_def dest!: derive_parts_eq)
  then have "a\<lparr> pp_receipt := None \<rparr> \<in>
      set (map (\<lambda>(j, t). plan_part (pt_id p) (pt_stream_id p) (pt_prefix p) j t)
        (live_entries 0 (pt_tables p)))"
    using assms(2) by (simp only: list.set_map flip: \<open>map _ _ = map _ _\<close>) (rule imageI)
  then obtain j t where jt: "(j, t) \<in> set (live_entries 0 (pt_tables p))"
    and a: "a\<lparr> pp_receipt := None \<rparr> = plan_part (pt_id p) (pt_stream_id p) (pt_prefix p) j t"
    by auto
  have "pp_entry_index (a\<lparr> pp_receipt := None \<rparr>) = j" unfolding a by (simp add: plan_part_def)
  then have "j = pp_entry_index a" by simp
  with jt a that [of t] live_entries_mem [OF jt] live_entries_less [OF jt] show ?thesis by simp
qed

section \<open>Transitions of a pending transaction\<close>

lemma part_index_eq:
  assumes "map (\<lambda>a. a\<lparr> pp_receipt := None \<rparr>) as = map (\<lambda>(j, t). plan_part tid s p j t) es"
  shows "map pp_entry_index as = map fst es"
proof -
  have "map pp_entry_index as = map pp_entry_index (map (\<lambda>a. a\<lparr> pp_receipt := None \<rparr>) as)"
    by simp
  also have "\<dots> = map fst es" unfolding assms by (simp add: plan_part_def case_prod_beta comp_def)
  finally show ?thesis .
qed

lemma distinct_entries:
  assumes "pending_validate x p d = Inr ()"
  shows "distinct (map pp_entry_index (pt_parts p))"
proof -
  have "expected_parts p = Inr (map (\<lambda>a. a\<lparr> pp_receipt := None \<rparr>) (pt_parts p))"
    using assms by (simp add: pending_validate_ok)
  from derive_parts_eq [OF this [unfolded expected_parts_def]]
  have "map pp_entry_index (pt_parts p) = map fst (live_entries 0 (pt_tables p))"
    by (rule part_index_eq)
  then show ?thesis by (simp add: distinct_live_indices)
qed

lemma set_receipt_ok:
  assumes "set_receipt i r as = Inr bs"
  obtains us a vs where "as = us @ a # vs" "bs = us @ a\<lparr> pp_receipt := Some r \<rparr> # vs"
    "pp_entry_index a = i" "\<forall>u \<in> set us. pp_entry_index u \<noteq> i"
    "pp_receipt a = None \<or> pp_receipt a = Some r"
  using assms
proof (induction as arbitrary: bs thesis)
  case Nil
  then show ?case by simp
next
  case (Cons q qs)
  show ?case
  proof (cases "pp_entry_index q = i")
    case True
    with Cons.prems(2) show ?thesis
      by (intro Cons.prems(1) [of "[]" q qs]) (auto split: if_splits option.splits)
  next
    case False
    with Cons.prems(2) obtain qs' where bs: "bs = q # qs'" and ih: "set_receipt i r qs = Inr qs'"
      by (auto simp: result_simps)
    from ih obtain us a vs where "qs = us @ a # vs" "qs' = us @ a\<lparr> pp_receipt := Some r \<rparr> # vs"
      "pp_entry_index a = i" "\<forall>u \<in> set us. pp_entry_index u \<noteq> i"
      "pp_receipt a = None \<or> pp_receipt a = Some r" by (rule Cons.IH [rotated])
    with bs False show ?thesis by (intro Cons.prems(1) [of "q # us" a vs]) auto
  qed
qed

text \<open>What recording a receipt leaves of the other parts.\<close>

definition receipt_only :: "planned_part \<Rightarrow> planned_part \<Rightarrow> bool" where
  "receipt_only a b \<longleftrightarrow> b\<lparr> pp_receipt := pp_receipt a \<rparr> = a \<and>
     (pp_receipt a = None \<or> pp_receipt b = pp_receipt a)"

abbreviation receipts_only :: "planned_part list \<Rightarrow> planned_part list \<Rightarrow> bool" where
  "receipts_only \<equiv> list_all2 receipt_only"

lemma receipt_only_refl [simp]: "receipt_only a a"
  by (simp add: receipt_only_def)

lemma receipt_only_trans: "receipt_only a b \<Longrightarrow> receipt_only b c \<Longrightarrow> receipt_only a c"
  by (cases a; cases b; cases c) (auto simp: receipt_only_def)

lemma receipts_only_refl [simp]: "receipts_only as as"
  by (simp add: list_all2_same)

lemma receipts_only_trans:
  "receipts_only as bs \<Longrightarrow> receipts_only bs cs \<Longrightarrow> receipts_only as cs"
  by (rule list_all2_trans [of receipt_only receipt_only]) (blast intro: receipt_only_trans)

lemma with_receipt_ok:
  assumes "with_receipt x p i r d = Inr q"
  obtains us a vs where "pt_parts p = us @ a # vs" "pp_entry_index a = i"
    "q = p\<lparr> pt_parts := us @ a\<lparr> pp_receipt := Some r \<rparr> # vs \<rparr>"
    "pp_receipt a = None \<or> pp_receipt a = Some r" "pending_validate x p d = Inr ()"
    "pending_validate x q d = Inr ()" "pt_phase p = Writing"
  using assms
  by (auto simp: with_receipt_def Let_def result_simps split: if_splits elim!: set_receipt_ok)

lemma with_receipt_receipts_only:
  assumes "with_receipt x p i r d = Inr q"
  shows "receipts_only (pt_parts p) (pt_parts q)"
  using assms
  by (rule with_receipt_ok)
    (auto simp: receipt_only_def list_all2_same intro!: list_all2_appendI)

lemma committed_ok:
  "committed_after_verification x p d = Inr q \<longleftrightarrow>
     q = p\<lparr> pt_phase := Committed \<rparr> \<and> pending_validate x p d = Inr () \<and>
     pending_validate x q d = Inr ()"
  by (auto simp: committed_after_verification_def Let_def result_simps)

lemma committed_total:
  assumes "pending_validate x p d = Inr ()" "\<forall>a \<in> set (pt_parts p). pp_receipt a \<noteq> None"
  shows "committed_after_verification x p d = Inr (p\<lparr> pt_phase := Committed \<rparr>)"
  using assms by (auto simp: committed_ok pending_validate_ok receipt_fits_def split: option.splits)

lemma with_receipt_total:
  assumes v: "pending_validate x p d = Inr ()" and w: "pt_phase p = Writing"
    and parts: "pt_parts p = us @ a # vs" and r: "validate_receipt x (pp_row_count a) r = Inr ()"
    and fresh: "pp_receipt a = None \<or> pp_receipt a = Some r"
  shows "with_receipt x p (pp_entry_index a) r d =
    Inr (p\<lparr> pt_parts := us @ a\<lparr> pp_receipt := Some r \<rparr> # vs \<rparr>)"
proof -
  have "pp_entry_index a \<notin> set (map pp_entry_index us)"
    using distinct_entries [OF v] unfolding parts by simp
  then have "\<forall>u \<in> set us. pp_entry_index u \<noteq> pp_entry_index a" by (simp add: image_iff) metis
  then have s: "set_receipt (pp_entry_index a) r (us @ a # vs) =
      Inr (us @ a\<lparr> pp_receipt := Some r \<rparr> # vs)"
    using fresh by (induction us) auto
  have "pending_validate x (p\<lparr> pt_parts := us @ a\<lparr> pp_receipt := Some r \<rparr> # vs \<rparr>) d = Inr ()"
    using v r w parts by (auto simp: pending_validate_ok receipt_fits_def)
  with v w s show ?thesis by (simp add: with_receipt_def parts)
qed

lemma validate_predecessor_ok:
  "validate_predecessor x a p = Inr () \<longleftrightarrow>
     authority_validate x a = Inr () \<and> pending_validate x p (au_descriptor a) = Inr () \<and>
     pt_predecessor p = cp_id (au_checkpoint a) \<and>
     ap_first_ordinal (pt_prefix p) = cp_ordinal (au_checkpoint a) + 1 \<and>
     cp_ordinal (au_checkpoint a) < u64_max \<and>
     cp_completed_stop (pt_target p) = cp_completed_stop (au_checkpoint a)"
  by (auto simp: validate_predecessor_def result_simps split: if_splits)

lemma install_ok:
  "install x a p = Inr b \<longleftrightarrow>
     validate_predecessor x a p = Inr () \<and> pt_phase p = Committed \<and>
     b = \<lparr> au_descriptor = au_descriptor a, au_checkpoint = pt_target p \<rparr>"
  by (auto simp: install_def result_simps)

lemma pending_target:
  assumes "pending_validate x p d = Inr ()"
  shows "checkpoint_validate x (pt_target p) d = Inr ()"
    "cp_ordinal (pt_target p) = ap_last_ordinal (pt_prefix p)"
    "ap_first_ordinal (pt_prefix p) \<le> ap_last_ordinal (pt_prefix p)"
    "cp_previous (pt_target p) = Some (pt_predecessor p)" "descriptor_validate d = Inr ()"
    "cp_event (pt_target p) = Some (ap_last_event (pt_prefix p))"
    "cp_routing (pt_target p) = ap_routing (pt_prefix p)"
proof -
  have f: "pending_frame x p d" using assms by (simp only: pending_validate_ok)
  then show "checkpoint_validate x (pt_target p) d = Inr ()"
    "cp_ordinal (pt_target p) = ap_last_ordinal (pt_prefix p)"
    "cp_previous (pt_target p) = Some (pt_predecessor p)"
    "cp_event (pt_target p) = Some (ap_last_event (pt_prefix p))"
    "cp_routing (pt_target p) = ap_routing (pt_prefix p)" by (simp_all only: pending_frame_def)
  from f show "ap_first_ordinal (pt_prefix p) \<le> ap_last_ordinal (pt_prefix p)"
    by (simp only: pending_frame_def prefix_validate_ok)
  from f have "descriptor_id x d = Inr (pt_stream_id p)" by (simp only: pending_frame_def)
  then show "descriptor_validate d = Inr ()" by (simp only: descriptor_id_ok)
qed

lemma install_valid:
  assumes "install x a p = Inr b"
  shows "authority_validate x b = Inr ()" "cp_ordinal (au_checkpoint a) < cp_ordinal (au_checkpoint b)"
proof -
  have p: "validate_predecessor x a p = Inr ()"
    and b: "b = \<lparr> au_descriptor = au_descriptor a, au_checkpoint = pt_target p \<rparr>"
    using assms by (simp_all only: install_ok)
  then have v: "pending_validate x p (au_descriptor a) = Inr ()"
    and f: "ap_first_ordinal (pt_prefix p) = cp_ordinal (au_checkpoint a) + 1"
    by (simp_all only: validate_predecessor_ok)
  note t = pending_target [OF v]
  show "authority_validate x b = Inr ()" by (simp add: b authority_validate_def t)
  have "cp_ordinal (au_checkpoint b) = ap_last_ordinal (pt_prefix p)" using t(2) by (simp only: b authority_state.select_convs)
  with t(3) f show "cp_ordinal (au_checkpoint a) < cp_ordinal (au_checkpoint b)" by linarith
qed

section \<open>Preparing a transaction\<close>

lemma prepare_ok:
  assumes "prepare x a prefix tables compression = Inr p"
  shows "validate_predecessor x a p = Inr ()" "pt_phase p = Writing" "pt_prefix p = prefix"
    "pt_tables p = sort_key tp_table tables" "pt_compression p = compression"
    "\<forall>q \<in> set (pt_parts p). pp_receipt q = None"
proof -
  from assms obtain target parts where auth: "authority_validate x a = Inr ()"
    and adv: "checkpoint_advance x (au_checkpoint a) (au_descriptor a) prefix = Inr target"
    and v: "pending_validate x p (au_descriptor a) = Inr ()"
    and pred: "pt_predecessor p = cp_id (au_checkpoint a)" and tgt: "pt_target p = target"
    and pre: "pt_prefix p = prefix" and ph: "pt_phase p = Writing"
    and tb: "pt_tables p = sort_key tp_table tables" and c: "pt_compression p = compression"
    and parts: "derive_parts (pt_id p) (pt_stream_id p) prefix (sort_key tp_table tables) =
      Inr (pt_parts p)"
    by (auto simp: prepare_def Let_def result_simps)
  show "validate_predecessor x a p = Inr ()"
    using auth v pred advance_ok [OF adv] by (simp add: validate_predecessor_ok pre tgt)
  show "pt_phase p = Writing" "pt_prefix p = prefix" "pt_tables p = sort_key tp_table tables"
    "pt_compression p = compression" by (fact ph pre tb c)+
  show "\<forall>q \<in> set (pt_parts p). pp_receipt q = None"
    using derive_parts_eq [OF parts] by (auto simp: plan_part_def)
qed

lemma plan_part_receipt [simp]: "(plan_part tid s p j t)\<lparr> pp_receipt := None \<rparr> = plan_part tid s p j t"
  "pp_receipt (plan_part tid s p j t) = None"
  by (simp_all add: plan_part_def)

lemma sorted_distinct_strict:
  fixes xs :: "string list"
  shows "sorted xs \<Longrightarrow> distinct xs \<Longrightarrow> sorted_wrt (<) xs"
  by (simp add: strict_sorted_iff)

lemma prepare_total:
  assumes sha: "sha256_hex x" and auth: "authority_validate x a = Inr ()"
    and pre: "prefix_validate x prefix = Inr ()"
    and first: "ap_first_ordinal prefix = cp_ordinal (au_checkpoint a) + 1"
    and last: "ap_last_ordinal prefix \<le> u64_max"
    and pol: "rc_policy (ap_routing prefix) = sd_routing_policy (au_descriptor a)"
    and comp: "validate_compression x compression = Inr ()"
    and len: "length tables = length (sd_tables (au_descriptor a))"
    and fits: "\<forall>t \<in> set tables. table_plan_fits x (au_descriptor a) t"
    and dist: "distinct (map tp_table tables)"
  shows "\<exists>p. prepare x a prefix tables compression = Inr p"
proof -
  let ?d = "au_descriptor a" and ?ts = "sort_key tp_table tables"
  have desc: "descriptor_validate ?d = Inr ()"
    and cp: "checkpoint_validate x (au_checkpoint a) ?d = Inr ()"
    using auth by (auto simp: authority_validate_def result_simps)
  define stream where "stream = digest_hash x ''stream'' (descriptor_json ?d)"
  have stream: "descriptor_id x ?d = Inr stream" using desc by (simp add: descriptor_id_ok stream_def)
  have firstb: "ap_first_ordinal prefix \<le> u64_max"
    using pre last by (simp add: prefix_validate_ok)
  obtain target where adv: "checkpoint_advance x (au_checkpoint a) ?d prefix = Inr target"
    using advance_total [OF cp pre first firstb pol] by blast
  note t = advance_ok [OF adv]
  define tid where
    "tid = pending_identity x stream (cp_id (au_checkpoint a)) prefix target ?ts compression"
  define parts where "parts = map (\<lambda>(j, t). plan_part tid stream prefix j t) (live_entries 0 ?ts)"
  have "length (sd_tables ?d) \<le> MAX_TABLES"
    using desc by (auto simp: descriptor_validate_def result_simps split: if_splits)
  with len have lents: "length ?ts \<le> MAX_TABLES" by simp
  have wf: "digest_wf tid" "digest_wf stream"
    using sha by (simp_all add: tid_def pending_identity_def stream_def)
  have dp: "derive_parts tid stream prefix ?ts = Inr parts"
    using derive_parts_from_total [OF wf firstb last, of 0 ?ts] lents
    by (simp add: derive_parts_def parts_def)
  define p where "p = \<lparr> pt_format_version = FORMAT_VERSION, pt_id = tid, pt_stream_id = stream,
    pt_predecessor = cp_id (au_checkpoint a), pt_phase = Writing, pt_prefix = prefix,
    pt_target = target, pt_tables = ?ts, pt_compression = compression, pt_parts = parts \<rparr>"
  have dists: "distinct (map tp_table ?ts)"
    using dist mset_eq_imp_distinct_iff [of "map tp_table ?ts" "map tp_table tables"] by simp
  have "pending_frame x p ?d"
    using comp pre t stream len lents fits dists
    by (auto simp: pending_frame_def p_def tid_def intro!: sorted_distinct_strict)
  moreover have "map (\<lambda>a. a\<lparr> pp_receipt := None \<rparr>) parts = parts"
    by (simp add: parts_def case_prod_beta comp_def)
  moreover have "\<forall>a \<in> set parts. receipt_fits x Writing a"
    by (auto simp: parts_def receipt_fits_def)
  ultimately have "pending_validate x p ?d = Inr ()"
    by (simp add: pending_validate_ok expected_parts_def p_def dp)
  then show ?thesis
    unfolding prepare_def Let_def auth pre stream adv bindR_Inr tid_def [symmetric] dp
      p_def [symmetric] by simp
qed

section \<open>Separation of part paths\<close>

lemma part_paths:
  assumes "a\<lparr> pp_receipt := None \<rparr> = plan_part tid s p j t"
  shows "pp_final a = part_directory t @ ''/'' @ final_name tid s p j"
    "pp_temporary a = part_directory t @ ''/'' @ temporary_name tid j"
proof -
  have "pp_final (a\<lparr> pp_receipt := None \<rparr>) = pp_final a"
    "pp_temporary (a\<lparr> pp_receipt := None \<rparr>) = pp_temporary a" by simp_all
  then show "pp_final a = part_directory t @ ''/'' @ final_name tid s p j"
    "pp_temporary a = part_directory t @ ''/'' @ temporary_name tid j"
    unfolding assms by (simp_all add: plan_part_def)
qed

lemma part_paths_separate:
  assumes sha: "sha256_hex x"
    and p: "pending_validate x p d = Inr ()" "a \<in> set (pt_parts p)"
    and q: "pending_validate x q d' = Inr ()" "b \<in> set (pt_parts q)"
  shows "pp_final a \<noteq> pp_temporary b"
    "pp_final a = pp_final b \<Longrightarrow> pt_id p = pt_id q \<and> pp_entry_index a = pp_entry_index b"
    "pp_temporary a = pp_temporary b \<Longrightarrow> pt_id p = pt_id q \<and> pp_entry_index a = pp_entry_index b"
proof -
  obtain t where a: "a\<lparr> pp_receipt := None \<rparr> =
      plan_part (pt_id p) (pt_stream_id p) (pt_prefix p) (pp_entry_index a) t"
    by (rule part_plan [OF p])
  obtain u where b: "b\<lparr> pp_receipt := None \<rparr> =
      plan_part (pt_id q) (pt_stream_id q) (pt_prefix q) (pp_entry_index b) u"
    by (rule part_plan [OF q])
  have fr: "pending_frame x p d" "pending_frame x q d'" using p q by (simp_all only: pending_validate_ok)
  note wf = pending_ids_wf [OF sha fr(1)] pending_ids_wf [OF sha fr(2)]
  note ns = final_name_no_slash [OF wf(1,2)] final_name_no_slash [OF wf(3,4)]
    temporary_name_no_slash [OF wf(1)] temporary_name_no_slash [OF wf(3)]
  note pa = part_paths [OF a] and pb = part_paths [OF b]
  show "pp_final a \<noteq> pp_temporary b"
    by (simp add: pa pb sep_last_inj ns final_not_temporary)
  show "pt_id p = pt_id q \<and> pp_entry_index a = pp_entry_index b" if "pp_final a = pp_final b"
    using that final_name_inj [OF wf(1,2,3,4)] by (auto simp: pa pb sep_last_inj ns)
  show "pt_id p = pt_id q \<and> pp_entry_index a = pp_entry_index b" if "pp_temporary a = pp_temporary b"
    using that temporary_name_inj [OF wf(1,3)] by (auto simp: pa pb sep_last_inj ns)
qed

section \<open>A concrete stream\<close>

text \<open>
  A small instance of the parameters for evaluation: a checksum with 64 digits in the place of
  SHA-256, quotes around a string, one JSON object and the Gregorian calendar.
\<close>

definition sample_hash :: "string \<Rightarrow> nat" where
  "sample_hash s = foldl (\<lambda>h c. (h * 257 + of_char c) mod 1000000007) 7 s"

definition sample_ext :: ext where
  "sample_ext = \<lparr> x_sha256 = (\<lambda>b. pad_dec 64 (sample_hash b)),
     x_json_string = (\<lambda>s. [CHR 0x22] @ s @ [CHR 0x22]),
     x_json_parse = (\<lambda>s. if s = ''{numRecords:3}'' then Some (JObj [(''numRecords'', JNum 3)]) else None),
     x_calendar = gregorian,
     x_zstd_level = (\<lambda>l. 1 \<le> l \<and> l \<le> 22) \<rparr>"

lemma sample_sha256_hex: "sha256_hex sample_ext"
proof -
  have "sample_hash b < 1000000007" for b
    by (cases b rule: rev_cases) (simp_all add: sample_hash_def)
  then have "sample_hash b < 10 ^ 64" for b
    by (rule order.strict_trans) simp
  then show ?thesis
    by (simp add: sha256_hex_def sample_ext_def pad_dec_length list_all_iff)
      (metis is_lower_hex_def pad_dec_digits)
qed

definition sample_digest :: "char \<Rightarrow> digest" where
  "sample_digest c = Digest (replicate 64 c)"

lemma sample_digest_wf: "is_lower_hex c \<Longrightarrow> digest_wf (sample_digest c)"
  by (simp add: sample_digest_def digest_wf_def list_all_iff)

definition sample_descriptor :: stream_descriptor where
  "sample_descriptor = \<lparr> sd_format_version = 1, sd_chain = ''eth'', sd_family = Evm,
     sd_bytes_encoding = ''hex'', sd_mapper_epoch = MAPPER_EPOCH, sd_partition = DatePolicy,
     sd_origin_start = 10, sd_final_blocks_only = True, sd_extended = False,
     sd_with_votes = False, sd_include_failed_transactions = False,
     sd_routing_policy = GenesisLookaheadV1, sd_output = SLocal ''/d'', sd_mirror = MDisabled,
     sd_tables = [(''blocks'', sample_digest (CHR ''1'')), (''logs'', sample_digest (CHR ''2''))] \<rparr>"

definition sample_event :: event_identity where
  "sample_event = \<lparr> ev_cursor = ''c2'', ev_block_num = 11, ev_block_id = ''b11'', ev_fork_step = 3,
     ev_source_timestamp = Some 1700000000 \<rparr>"

definition sample_prefix :: accepted_prefix where
  "sample_prefix = \<lparr> ap_first_ordinal = 1, ap_last_ordinal = 2, ap_events_sha256 = sample_digest (CHR ''a''),
     ap_last_event = sample_event,
     ap_routing = \<lparr> rc_policy = GenesisLookaheadV1, rc_anchor = None \<rparr> \<rparr>"

definition sample_tables :: "table_plan list" where
  "sample_tables =
     [\<lparr> tp_table = ''logs'', tp_rows = 0, tp_schema_sha256 = sample_digest (CHR ''2''), tp_partition = [] \<rparr>,
      \<lparr> tp_table = ''blocks'', tp_rows = 3, tp_schema_sha256 = sample_digest (CHR ''1''),
        tp_partition = ''date=2023-11-14'' \<rparr>]"

definition sample_authority :: authority_state where
  "sample_authority = projr (authority_initial sample_ext sample_descriptor)"

definition sample_pending :: pending_transaction where
  "sample_pending = projr (prepare sample_ext sample_authority sample_prefix sample_tables Snappy)"

definition sample_receipt :: part_receipt where
  "sample_receipt = \<lparr> pr_byte_size = 5, pr_sha256 = sample_digest (CHR ''b''), pr_stats = ''{numRecords:3}'',
     pr_modification_time = 1 \<rparr>"

lemma sample_descriptor_valid: "descriptor_validate sample_descriptor = Inr ()"
  by code_simp

lemma sample_authority_eq:
  "authority_initial sample_ext sample_descriptor = Inr sample_authority"
  using initial_total [OF sample_descriptor_valid, of sample_ext] by (auto simp: sample_authority_def)

lemma sample_authority_valid: "authority_validate sample_ext sample_authority = Inr ()"
  using initial_valid [OF sample_authority_eq] .

lemma initial_fields:
  assumes "authority_initial x d = Inr a"
  shows "au_descriptor a = d" "cp_ordinal (au_checkpoint a) = 0"
    "cp_completed_stop (au_checkpoint a) = None"
  using assms by (auto simp: authority_initial_def checkpoint_initial_def Let_def result_simps)

lemma sample_authority_fields:
  "au_descriptor sample_authority = sample_descriptor"
  "cp_ordinal (au_checkpoint sample_authority) = 0"
  "cp_completed_stop (au_checkpoint sample_authority) = None"
  by (rule initial_fields [OF sample_authority_eq])+

lemma sample_prefix_valid: "prefix_validate sample_ext sample_prefix = Inr ()"
proof -
  have "cal_unix_date gregorian 1700000000 = Some (2023, 11, 14)" by code_simp
  then show ?thesis
    by (simp add: prefix_validate_ok sample_prefix_def sample_event_def event_validate_def
        routing_validate_def checked_timestamp_def sample_ext_def)
qed

lemma sample_fits: "\<forall>t \<in> set sample_tables. table_plan_fits sample_ext sample_descriptor t"
proof -
  have "validate_table ''logs'' = Inr ()" "validate_table ''blocks'' = Inr ()"
    "validate_relative_path [] True = Inr ()"
    "validate_relative_path ''date=2023-11-14'' True = Inr ()"
    "date_parse gregorian ''date=2023-11-14'' = Inr (DatePartition 2023 11 14)"
    by code_simp+
  then show ?thesis
    by (simp add: sample_tables_def table_plan_fits_def sample_descriptor_def sample_ext_def)
qed

lemma sample_prepared:
  "prepare sample_ext sample_authority sample_prefix sample_tables Snappy = Inr sample_pending"
proof -
  have "distinct (map tp_table sample_tables)" by code_simp
  then have "\<exists>p. prepare sample_ext sample_authority sample_prefix sample_tables Snappy = Inr p"
    using sample_fits
    by (intro prepare_total [OF sample_sha256_hex sample_authority_valid sample_prefix_valid])
      (simp_all add: sample_authority_fields sample_prefix_def u64_max_def validate_compression_def
        sample_tables_def sample_descriptor_def)
  then show ?thesis by (auto simp: sample_pending_def)
qed

lemma sample_pending_valid:
  "validate_predecessor sample_ext sample_authority sample_pending = Inr ()"
  "pending_validate sample_ext sample_pending sample_descriptor = Inr ()"
  using prepare_ok(1) [OF sample_prepared]
  by (simp_all add: validate_predecessor_ok sample_authority_fields)

section \<open>Properties\<close>

lemma live_entries_tables: "map snd (live_entries i ts) = filter (\<lambda>t. 0 < tp_rows t) ts"
  by (induction ts arbitrary: i) auto

lemma parts_of_tables:
  assumes "pending_validate x p d = Inr ()"
  shows "map (\<lambda>a. (pp_table a, pp_row_count a, pp_schema_sha256 a)) (pt_parts p) =
    map (\<lambda>t. (tp_table t, tp_rows t, tp_schema_sha256 t))
      (filter (\<lambda>t. 0 < tp_rows t) (pt_tables p))"
proof -
  have e: "expected_parts p = Inr (map (\<lambda>a. a\<lparr> pp_receipt := None \<rparr>) (pt_parts p))"
    using assms by (simp only: pending_validate_ok)
  let ?f = "\<lambda>a. (pp_table a, pp_row_count a, pp_schema_sha256 a)"
  have "map ?f (pt_parts p) = map ?f (map (\<lambda>a. a\<lparr> pp_receipt := None \<rparr>) (pt_parts p))" by simp
  also have "\<dots> = map (\<lambda>t. (tp_table t, tp_rows t, tp_schema_sha256 t))
      (map snd (live_entries 0 (pt_tables p)))"
    unfolding derive_parts_eq [OF e [unfolded expected_parts_def]]
    by (simp add: plan_part_def case_prod_beta)
  finally show ?thesis unfolding live_entries_tables .
qed

text \<open>With 64-byte digests, 64-bit ordinals and at most 256 tables the refusal in \<open>derive_parts\<close> cannot happen.\<close>

lemma part_name_bounded:
  assumes sha: "sha256_hex x" and p: "pending_validate x p d = Inr ()" "a \<in> set (pt_parts p)" and n: "ap_last_ordinal (pt_prefix p) \<le> u64_max"
  shows "\<exists>dir name. pp_final a = dir @ ''/'' @ name \<and> CHR ''/'' \<notin> set name \<and> length name \<le> 191"
proof -
  obtain t where t: "pp_entry_index a < length (pt_tables p)"
    "a\<lparr> pp_receipt := None \<rparr> = plan_part (pt_id p) (pt_stream_id p) (pt_prefix p) (pp_entry_index a) t"
    by (rule part_plan [OF p])
  have fr: "pending_frame x p d" using p(1) by (simp only: pending_validate_ok)
  note wf = pending_ids_wf [OF sha fr]
  have "pp_entry_index a < MAX_TABLES" "ap_first_ordinal (pt_prefix p) \<le> u64_max"
    using t(1) fr n pending_target(3) [OF p(1)] by (auto simp: pending_frame_def)
  with final_name_length [OF wf _ n] final_name_no_slash [OF wf] part_paths(1) [OF t(2)] show ?thesis by blast
qed

text \<open>
  C27. Preparing a transaction from a valid authority, a valid prefix that starts right
  after it and a plan for every declared table succeeds, and yields a valid pending record that
  names the authority as its predecessor, targets the end of the prefix, is still being written and
  plans exactly one part, without a receipt, per table that has rows, in table order. The file names
  always fit the 255-byte limit of a path component: none has more than 191 bytes.
\<close>

theorem prepare_exact:
  assumes "sha256_hex x" "authority_validate x a = Inr ()" "prefix_validate x prefix = Inr ()"
    "ap_first_ordinal prefix = cp_ordinal (au_checkpoint a) + 1"
    "ap_last_ordinal prefix \<le> u64_max"
    "rc_policy (ap_routing prefix) = sd_routing_policy (au_descriptor a)"
    "validate_compression x compression = Inr ()"
    "length tables = length (sd_tables (au_descriptor a))"
    "\<forall>t \<in> set tables. table_plan_fits x (au_descriptor a) t" "distinct (map tp_table tables)"
  shows "\<exists>p. prepare x a prefix tables compression = Inr p \<and>
    validate_predecessor x a p = Inr () \<and> pt_phase p = Writing \<and>
    cp_ordinal (pt_target p) = ap_last_ordinal prefix \<and>
    cp_event (pt_target p) = Some (ap_last_event prefix) \<and>
    cp_routing (pt_target p) = ap_routing prefix \<and>
    (\<forall>q \<in> set (pt_parts p). pp_receipt q = None \<and>
      (\<exists>dir name. pp_final q = dir @ ''/'' @ name \<and> CHR ''/'' \<notin> set name \<and> length name \<le> 191)) \<and>
    map (\<lambda>q. (pp_table q, pp_row_count q, pp_schema_sha256 q)) (pt_parts p) =
      map (\<lambda>t. (tp_table t, tp_rows t, tp_schema_sha256 t))
        (filter (\<lambda>t. 0 < tp_rows t) (sort_key tp_table tables))"
proof -
  obtain p where p: "prepare x a prefix tables compression = Inr p"
    using prepare_total [OF assms] by blast
  note ok = prepare_ok [OF p]
  then have v: "pending_validate x p (au_descriptor a) = Inr ()" by (simp only: validate_predecessor_ok)
  show ?thesis
    using p ok pending_target [OF v] parts_of_tables [OF v] part_name_bounded [OF assms(1) v] assms(5) by auto
qed

theorem prepare_exact_witness:
  "\<exists>p. prepare sample_ext sample_authority sample_prefix sample_tables Snappy = Inr p \<and>
     map pp_table (pt_parts p) = [''blocks''] \<and> map pp_row_count (pt_parts p) = [3]"
proof -
  have "distinct (map tp_table sample_tables)" by code_simp
  then obtain p where p: "prepare sample_ext sample_authority sample_prefix sample_tables Snappy = Inr p"
    and m: "map (\<lambda>q. (pp_table q, pp_row_count q, pp_schema_sha256 q)) (pt_parts p) =
      map (\<lambda>t. (tp_table t, tp_rows t, tp_schema_sha256 t))
        (filter (\<lambda>t. 0 < tp_rows t) (sort_key tp_table sample_tables))"
    using sample_fits
      prepare_exact [OF sample_sha256_hex sample_authority_valid sample_prefix_valid,
        of Snappy sample_tables]
    by (auto simp: sample_authority_fields sample_prefix_def u64_max_def validate_compression_def
        sample_tables_def sample_descriptor_def)
  have "map (\<lambda>t. (tp_table t, tp_rows t, tp_schema_sha256 t))
      (filter (\<lambda>t. 0 < tp_rows t) (sort_key tp_table sample_tables)) = [(''blocks'', 3, sample_digest (CHR ''1''))]"
    by code_simp
  with p m show ?thesis by auto
qed



text \<open>
  C29. Recording the receipt of a part keeps the record valid and changes nothing but
  that part: the identity, the plan and every other part stay, a receipt that was already there is
  never replaced by a different one, and a committed record accepts no receipt at all.
\<close>

theorem receipt_frozen:
  assumes "with_receipt x p i r d = Inr q"
  shows "pending_validate x q d = Inr () \<and> pt_phase p = Writing \<and> q\<lparr> pt_parts := pt_parts p \<rparr> = p \<and>
    list_all2 (\<lambda>a b. if pp_entry_index a = i
        then pp_receipt a \<in> {None, Some r} \<and> b = a\<lparr> pp_receipt := Some r \<rparr> else b = a)
      (pt_parts p) (pt_parts q) \<and>
    i \<in> pp_entry_index ` set (pt_parts p)"
proof -
  obtain us a vs where p: "pt_parts p = us @ a # vs" "pp_entry_index a = i"
    "q = p\<lparr> pt_parts := us @ a\<lparr> pp_receipt := Some r \<rparr> # vs \<rparr>"
    "pp_receipt a = None \<or> pp_receipt a = Some r" "pending_validate x p d = Inr ()"
    "pending_validate x q d = Inr ()" "pt_phase p = Writing"
    using assms by (rule with_receipt_ok)
  have d: "distinct (map pp_entry_index (us @ a # vs))" using distinct_entries [OF p(5)] p(1) by simp
  have "\<forall>u \<in> set us \<union> set vs. pp_entry_index u \<noteq> i"
    using d p(2) by (auto simp: image_iff)
  then have "list_all2 (\<lambda>a b. if pp_entry_index a = i
        then pp_receipt a \<in> {None, Some r} \<and> b = a\<lparr> pp_receipt := Some r \<rparr> else b = a)
      (us @ a # vs) (us @ a\<lparr> pp_receipt := Some r \<rparr> # vs)"
    using p(2,4) by (intro list_all2_appendI) (auto simp: list_all2_same)
  moreover have "q\<lparr> pt_parts := pt_parts p \<rparr> = p" by (simp add: p(3))
  moreover have "i \<in> pp_entry_index ` set (pt_parts p)" using p(1,2) by auto
  ultimately show ?thesis using p(1,3,6,7) by auto
qed

lemma sample_receipt_valid: "validate_receipt sample_ext 3 sample_receipt = Inr ()"
  by (simp add: validate_receipt_def sample_receipt_def check_stats_def sample_ext_def as_object_def
      as_u64_def u64_max_def)

lemma sample_parts:
  obtains a where "pt_parts sample_pending = [a]" "pp_row_count a = 3" "pp_receipt a = None"
proof -
  have "filter (\<lambda>t. 0 < tp_rows t) (sort_key tp_table sample_tables) = [sample_tables ! 1]" by code_simp
  then have m: "map (\<lambda>a. (pp_table a, pp_row_count a, pp_schema_sha256 a)) (pt_parts sample_pending) =
      [(''blocks'', 3, sample_digest (CHR ''1''))]"
    using parts_of_tables [OF sample_pending_valid(2)] prepare_ok(4) [OF sample_prepared]
    by (simp add: sample_tables_def)
  then obtain a where "pt_parts sample_pending = [a]" "pp_row_count a = 3" by auto
  with prepare_ok(6) [OF sample_prepared] that show ?thesis by auto
qed

theorem receipt_frozen_witness:
  "\<exists>i q. with_receipt sample_ext sample_pending i sample_receipt sample_descriptor = Inr q \<and>
     map pp_receipt (pt_parts q) = [Some sample_receipt]"
proof -
  obtain a where a: "pt_parts sample_pending = [] @ a # []" "pp_row_count a = 3" "pp_receipt a = None"
    by (metis append_Nil sample_parts)
  have w: "with_receipt sample_ext sample_pending (pp_entry_index a) sample_receipt sample_descriptor =
      Inr (sample_pending\<lparr> pt_parts := [] @ a\<lparr> pp_receipt := Some sample_receipt \<rparr> # [] \<rparr>)"
    using with_receipt_total [OF sample_pending_valid(2) prepare_ok(2) [OF sample_prepared] a(1)] a
      sample_receipt_valid by simp
  from receipt_frozen [OF w] w a(1) show ?thesis
    by (intro exI [of _ "pp_entry_index a"] exI conjI) (assumption, simp)
qed

lemma receipt_fits_committed: "receipt_fits x Committed q \<Longrightarrow> pp_receipt q \<noteq> None"
  by (auto simp: receipt_fits_def split: option.splits)

lemma installed_transaction:
  assumes "install x a p = Inr b"
  shows "pt_phase p = Committed \<and> pt_predecessor p = cp_id (au_checkpoint a) \<and>
    (\<forall>q \<in> set (pt_parts p). pp_receipt q \<noteq> None) \<and>
    au_descriptor b = au_descriptor a \<and> au_checkpoint b = pt_target p \<and>
    ap_first_ordinal (pt_prefix p) = cp_ordinal (au_checkpoint a) + 1 \<and>
    cp_ordinal (au_checkpoint a) < cp_ordinal (au_checkpoint b) \<and>
    cp_completed_stop (au_checkpoint b) = cp_completed_stop (au_checkpoint a) \<and>
    authority_validate x b = Inr ()"
proof -
  note i = assms [unfolded install_ok validate_predecessor_ok]
  then have "\<forall>q \<in> set (pt_parts p). receipt_fits x Committed q" by (auto simp: pending_validate_ok)
  then have "\<forall>q \<in> set (pt_parts p). pp_receipt q \<noteq> None"
    using receipt_fits_committed by blast
  with i install_valid [OF assms] show ?thesis by auto
qed

lemma sample_completion:
  "\<exists>n. complete_request sample_ext (pt_target sample_pending) sample_descriptor 12 = Inr n"
proof -
  note t = pending_target [OF sample_pending_valid(2)]
  have pre: "pt_prefix sample_pending = sample_prefix" by (rule prepare_ok(3) [OF sample_prepared])
  have cs: "cp_completed_stop (pt_target sample_pending) = None"
    using sample_pending_valid(1) by (simp add: validate_predecessor_ok sample_authority_fields)
  define c where "c = pt_target sample_pending"
  define m where "m = c\<lparr> cp_previous := Some (cp_id c), cp_completed_stop := Some 12 \<rparr>"
  obtain s where s: "descriptor_id sample_ext sample_descriptor = Inr s"
    using t(1) by (auto simp: checkpoint_validate_ok)
  have "checkpoint_shape sample_ext c sample_descriptor"
    using t(1) by (simp add: c_def checkpoint_validate_ok)
  then have "checkpoint_shape sample_ext m sample_descriptor"
    using t(2) pre by (auto simp: m_def checkpoint_shape_def c_def sample_descriptor_def sample_prefix_def)
  then have "checkpoint_validate sample_ext (m\<lparr> cp_id := checkpoint_identity sample_ext m s \<rparr>)
      sample_descriptor = Inr ()"
    using s by (simp add: checkpoint_validate_ok)
  moreover have "sd_origin_start sample_descriptor = 10" by (simp add: sample_descriptor_def)
  ultimately have n: "complete_request sample_ext c sample_descriptor 12 =
      Inr (m\<lparr> cp_id := checkpoint_identity sample_ext m s \<rparr>)"
    using t(1,6) pre s cs unfolding complete_request_def Let_def c_def [symmetric] m_def [symmetric]
    by (simp add: sample_prefix_def sample_event_def)
  then show ?thesis by (auto simp: c_def)
qed



end
