(* ===== verification/Control_Store.thy ===== *)
theory Control_Store
  imports Txn_State
begin

text \<open>
  Versioned control records (\<open>durable_state.rs\<close>): the checksummed envelope of a record, and the JSON
  images of the two payloads kept in it. The text and the parser of an envelope are \<open>serde_json\<close>, a
  parameter; the checksum covers the exact text of the payload.
\<close>

section \<open>Envelopes\<close>

definition CONTROL_FORMAT_VERSION :: nat where
  "CONTROL_FORMAT_VERSION = 1"

definition MAX_CONTROL_BYTES :: nat where
  "MAX_CONTROL_BYTES = 4 * 1024 * 1024"

record control_version =
  cv_incarnation :: string
  cv_revision :: nat
  cv_digest :: string

record envelope =
  en_format_version :: nat
  en_incarnation :: string
  en_revision :: nat
  en_deleted :: bool
  en_payload :: string
  en_sha256 :: string

record codec =
  k_value_text :: "json \<Rightarrow> string"
    \<comment> \<open>\<open>serde_json::to_vec\<close> of a value\<close>
  k_tuple_text :: "nat \<Rightarrow> string \<Rightarrow> nat \<Rightarrow> bool \<Rightarrow> string \<Rightarrow> string"
    \<comment> \<open>\<open>serde_json::to_vec\<close> of the checksummed tuple, given the payload text\<close>
  k_envelope_text :: "envelope \<Rightarrow> string"
  k_envelope_parse :: "string \<Rightarrow> envelope option"
    \<comment> \<open>\<open>serde_json::from_slice::<StoredEnvelope>\<close>, the payload as raw text\<close>
  k_is_uuid :: "string \<Rightarrow> bool"
    \<comment> \<open>\<open>uuid::Uuid::parse_str(s).is_ok()\<close>\<close>

definition payload_digest :: "ext \<Rightarrow> codec \<Rightarrow> nat \<Rightarrow> string \<Rightarrow> nat \<Rightarrow> bool \<Rightarrow> json \<Rightarrow> string" where
  "payload_digest x k version incarnation revision deleted payload =
     x_sha256 x (k_tuple_text k version incarnation revision deleted (k_value_text k payload))"

definition stored_payload_digest :: "ext \<Rightarrow> codec \<Rightarrow> envelope \<Rightarrow> string" where
  "stored_payload_digest x k r =
     x_sha256 x (k_tuple_text k (en_format_version r) (en_incarnation r) (en_revision r)
       (en_deleted r) (en_payload r))"

definition encode_record ::
  "ext \<Rightarrow> codec \<Rightarrow> json \<Rightarrow> string \<Rightarrow> nat \<Rightarrow> bool \<Rightarrow> (string \<times> control_version) result" where
  "encode_record x k payload incarnation revision deleted =
     (let dg = payload_digest x k CONTROL_FORMAT_VERSION incarnation revision deleted payload;
          bytes = k_envelope_text k \<lparr> en_format_version = CONTROL_FORMAT_VERSION,
            en_incarnation = incarnation, en_revision = revision, en_deleted = deleted,
            en_payload = k_value_text k payload, en_sha256 = dg \<rparr>
      in if length bytes > MAX_CONTROL_BYTES
         then bail ''control record exceeds the 4194304-byte limit''
         else Inr (bytes, \<lparr> cv_incarnation = incarnation, cv_revision = revision, cv_digest = dg \<rparr>))"

definition encode ::
  "ext \<Rightarrow> codec \<Rightarrow> json \<Rightarrow> string \<Rightarrow> nat \<Rightarrow> (string \<times> control_version) result" where
  "encode x k payload incarnation revision = encode_record x k payload incarnation revision False"

definition encode_tombstone ::
  "ext \<Rightarrow> codec \<Rightarrow> control_version \<Rightarrow> (string \<times> control_version) result" where
  "encode_tombstone x k expected =
     bindR (some_or (checked_add (cv_revision expected) 1) ''control revision exhausted'') (\<lambda>revision.
     encode_record x k JNull (cv_incarnation expected) revision True)"

definition decode_slot :: "ext \<Rightarrow> codec \<Rightarrow> string \<Rightarrow> (control_version \<times> json option) result" where
  "decode_slot x k bytes =
     (if length bytes > MAX_CONTROL_BYTES then bail ''control record exceeds the 4194304-byte limit''
      else bindR (some_or (k_envelope_parse k bytes) ''invalid control record JSON'') (\<lambda>r.
        if en_format_version r \<noteq> CONTROL_FORMAT_VERSION then bail ''unsupported control record version''
        else if \<not> k_is_uuid k (en_incarnation r) then bail ''invalid control record incarnation''
        else if en_sha256 r \<noteq> stored_payload_digest x k r then bail ''control record checksum mismatch''
        else bindR (some_or (x_json_parse x (en_payload r)) ''invalid control record payload'') (\<lambda>payload.
          if en_deleted r \<and> payload \<noteq> JNull then bail ''invalid control tombstone payload''
          else Inr (\<lparr> cv_incarnation = en_incarnation r, cv_revision = en_revision r,
                 cv_digest = en_sha256 r \<rparr>,
               if en_deleted r then None else Some payload))))"

definition decode :: "ext \<Rightarrow> codec \<Rightarrow> (json \<Rightarrow> 'a option) \<Rightarrow> string \<Rightarrow> (control_version \<times> 'a) result" where
  "decode x k de bytes =
     bindR (decode_slot x k bytes) (\<lambda>(version, payload).
     bindR (some_or payload ''control record is a tombstone'') (\<lambda>value.
     bindR (some_or (de value) ''invalid control record payload'') (\<lambda>p. Inr (version, p))))"

section \<open>Payload images\<close>

definition checkpoint_json :: "checkpoint \<Rightarrow> json" where
  "checkpoint_json c = JObj
     [(''id'', digest_json (cp_id c)), (''previous'', opt_json digest_json (cp_previous c)),
      (''ordinal'', JNum (int (cp_ordinal c))), (''event'', opt_json event_json (cp_event c)),
      (''routing'', routing_json (cp_routing c)),
      (''completed_stop'', opt_json (\<lambda>n. JNum (int n)) (cp_completed_stop c))]"

definition authority_json :: "authority_state \<Rightarrow> json" where
  "authority_json a = JObj
     [(''descriptor'', descriptor_json (au_descriptor a)),
      (''checkpoint'', checkpoint_json (au_checkpoint a))]"

definition receipt_json :: "part_receipt \<Rightarrow> json" where
  "receipt_json r = JObj
     [(''byte_size'', JNum (int (pr_byte_size r))), (''sha256'', digest_json (pr_sha256 r)),
      (''stats'', JStr (pr_stats r)), (''modification_time'', JNum (pr_modification_time r))]"

definition planned_part_json :: "planned_part \<Rightarrow> json" where
  "planned_part_json q = JObj
     [(''table'', JStr (pp_table q)), (''final_relative_path'', JStr (pp_final q)),
      (''temporary_relative_path'', JStr (pp_temporary q)),
      (''schema_sha256'', digest_json (pp_schema_sha256 q)),
      (''entry_index'', JNum (int (pp_entry_index q))), (''row_count'', JNum (int (pp_row_count q))),
      (''receipt'', opt_json receipt_json (pp_receipt q))]"

fun phase_json :: "transaction_phase \<Rightarrow> json" where
  "phase_json Writing = JStr ''writing''"
| "phase_json Committed = JStr ''committed''"

definition pending_json :: "pending_transaction \<Rightarrow> json" where
  "pending_json p = JObj
     [(''format_version'', JNum (int (pt_format_version p))), (''id'', digest_json (pt_id p)),
      (''stream_id'', digest_json (pt_stream_id p)), (''predecessor'', digest_json (pt_predecessor p)),
      (''phase'', phase_json (pt_phase p)), (''prefix'', prefix_json (pt_prefix p)),
      (''target'', checkpoint_json (pt_target p)),
      (''tables'', JArr (map table_plan_json (pt_tables p))),
      (''compression'', compression_json (pt_compression p)),
      (''parts'', JArr (map planned_part_json (pt_parts p)))]"

section \<open>Properties\<close>

text \<open>What the record format relies on in \<open>serde_json\<close>: parsing inverts printing.\<close>

definition codec_laws :: "ext \<Rightarrow> codec \<Rightarrow> json \<Rightarrow> bool" where
  "codec_laws x k payload \<longleftrightarrow>
     (\<forall>e. k_envelope_parse k (k_envelope_text k e) = Some e) \<and>
     x_json_parse x (k_value_text k payload) = Some payload"

lemma encode_record_ok:
  assumes "encode_record x k payload inc revn del = Inr (bytes, v)"
  shows "v = \<lparr> cv_incarnation = inc, cv_revision = revn,
      cv_digest = payload_digest x k CONTROL_FORMAT_VERSION inc revn del payload \<rparr>"
    "length bytes \<le> MAX_CONTROL_BYTES"
    "bytes = k_envelope_text k \<lparr> en_format_version = CONTROL_FORMAT_VERSION,
       en_incarnation = inc, en_revision = revn, en_deleted = del,
       en_payload = k_value_text k payload,
       en_sha256 = payload_digest x k CONTROL_FORMAT_VERSION inc revn del payload \<rparr>"
  using assms by (auto simp: encode_record_def Let_def split: if_splits)

lemma decode_encoded:
  assumes "codec_laws x k payload" "k_is_uuid k inc" "del \<longrightarrow> payload = JNull"
    "encode_record x k payload inc revn del = Inr (bytes, v)"
  shows "decode_slot x k bytes = Inr (v, if del then None else Some payload)"
proof -
  note e = encode_record_ok [OF assms(4)]
  have "k_envelope_parse k bytes = Some \<lparr> en_format_version = CONTROL_FORMAT_VERSION,
       en_incarnation = inc, en_revision = revn, en_deleted = del,
       en_payload = k_value_text k payload,
       en_sha256 = payload_digest x k CONTROL_FORMAT_VERSION inc revn del payload \<rparr>"
    using assms(1) unfolding e(3) codec_laws_def by blast
  moreover have "x_json_parse x (k_value_text k payload) = Some payload"
    using assms(1) by (simp add: codec_laws_def)
  ultimately show ?thesis
    using e(2) assms(2,3)
    by (simp add: decode_slot_def e(1) stored_payload_digest_def payload_digest_def)
qed

text \<open>
  C33. A control record reads back as it was written: the version the writer
  returned and the payload, and a tombstone reads back as a cleared slot of the next revision of the
  same incarnation.
\<close>

theorem control_record_round_trip:
  assumes "codec_laws x k payload" "codec_laws x k JNull" "k_is_uuid k inc" "encode x k payload inc revn = Inr (bytes, v)"
    and "encode_tombstone x k v = Inr (gone, v')"
  shows "decode_slot x k bytes = Inr (v, Some payload) \<and> cv_incarnation v = inc \<and> cv_revision v = revn \<and>
    decode_slot x k gone = Inr (v', None) \<and> cv_incarnation v' = inc \<and> cv_revision v' = revn + 1 \<and>
    decode x k de gone = bail ''control record is a tombstone''"
proof -
  have v: "cv_incarnation v = inc" "cv_revision v = revn"
    using encode_record_ok(1) [OF assms(4) [unfolded encode_def]] by simp_all
  have t: "encode_record x k JNull inc (revn + 1) True = Inr (gone, v')"
    using assms(5) v by (auto simp: encode_tombstone_def result_simps)
  have "decode_slot x k bytes = Inr (v, Some payload)"
    using decode_encoded [OF assms(1,3) _ assms(4) [unfolded encode_def]] by simp
  moreover have g: "decode_slot x k gone = Inr (v', None)"
    using decode_encoded [OF assms(2,3) _ t] by simp
  moreover have "cv_incarnation v' = inc" "cv_revision v' = revn + 1"
    using encode_record_ok(1) [OF t] by simp_all
  ultimately show ?thesis using v by (simp add: decode_def)
qed

text \<open>A small codec for evaluation: fields with their length in unary.\<close>

fun ones :: "string \<Rightarrow> nat \<times> string" where
  "ones [] = (0, [])"
| "ones (c # s) = (if c = CHR ''1'' then (case ones s of (n, r) \<Rightarrow> (Suc n, r)) else (0, s))"

definition number_text :: "nat \<Rightarrow> string" where
  "number_text n = replicate n (CHR ''1'') @ ''0''"

definition field_text :: "string \<Rightarrow> string" where
  "field_text s = number_text (length s) @ s"

definition sample_envelope_text :: "envelope \<Rightarrow> string" where
  "sample_envelope_text e =
     number_text (en_format_version e) @ field_text (en_incarnation e) @ number_text (en_revision e) @
     number_text (if en_deleted e then 1 else 0) @ field_text (en_payload e) @ field_text (en_sha256 e)"

definition sample_envelope_parse :: "string \<Rightarrow> envelope option" where
  "sample_envelope_parse s =
     (case ones s of (version, s) \<Rightarrow>
      case ones s of (n, s) \<Rightarrow>
      case ones (drop n s) of (revision, t) \<Rightarrow>
      case ones t of (deleted, t) \<Rightarrow>
      case ones t of (m, t) \<Rightarrow>
      case ones (drop m t) of (l, u) \<Rightarrow>
        Some \<lparr> en_format_version = version, en_incarnation = take n s, en_revision = revision,
          en_deleted = (deleted = 1), en_payload = take m t, en_sha256 = u \<rparr>)"

lemma ones_number [simp]: "ones (number_text n @ s) = (n, s)"
  by (induction n) (auto simp: number_text_def)

lemma sample_envelope_round_trip: "sample_envelope_parse (sample_envelope_text e) = Some e"
  by (cases e) (simp add: sample_envelope_parse_def sample_envelope_text_def field_text_def)

definition sample_codec :: codec where
  "sample_codec = \<lparr> k_value_text = (\<lambda>v. if v = JNull then ''null'' else ''{numRecords:3}''),
     k_tuple_text = (\<lambda>v i r d p. i @ p), k_envelope_text = sample_envelope_text,
     k_envelope_parse = sample_envelope_parse, k_is_uuid = (\<lambda>s. s \<noteq> []) \<rparr>"

definition sample_control_ext :: ext where
  "sample_control_ext = sample_ext\<lparr> x_json_parse := (\<lambda>s. if s = ''null'' then Some JNull
     else Some (JObj [(''numRecords'', JNum 3)])) \<rparr>"

theorem control_record_round_trip_witness:
  "\<exists>bytes v gone v'. encode sample_control_ext sample_codec (JObj [(''numRecords'', JNum 3)]) ''i'' 7 =
       Inr (bytes, v) \<and>
     encode_tombstone sample_control_ext sample_codec v = Inr (gone, v') \<and>
     decode_slot sample_control_ext sample_codec bytes =
       Inr (v, Some (JObj [(''numRecords'', JNum 3)])) \<and>
     decode_slot sample_control_ext sample_codec gone = Inr (v', None) \<and> cv_revision v' = 8"
proof -
  let ?p = "JObj [(''numRecords'', JNum 3)]"
  have laws: "codec_laws sample_control_ext sample_codec ?p" "codec_laws sample_control_ext sample_codec JNull"
    by (simp_all add: codec_laws_def sample_control_ext_def sample_codec_def sample_envelope_round_trip)
  have len: "length (x_sha256 sample_control_ext s) = 64" for s
    using sample_sha256_hex by (simp add: sha256_hex_def sample_control_ext_def)
  have u: "k_is_uuid sample_codec ''i''" by (simp add: sample_codec_def)
  obtain bytes v where e: "encode sample_control_ext sample_codec ?p ''i'' 7 = Inr (bytes, v)"
    by (auto simp: encode_def encode_record_def Let_def payload_digest_def len sample_codec_def
        sample_envelope_text_def field_text_def number_text_def MAX_CONTROL_BYTES_def
        CONTROL_FORMAT_VERSION_def)
  have v: "cv_incarnation v = ''i''" "cv_revision v = 7"
    using encode_record_ok(1) [OF e [unfolded encode_def]] by simp_all
  obtain gone v' where t: "encode_tombstone sample_control_ext sample_codec v = Inr (gone, v')"
    by (auto simp: encode_tombstone_def v encode_record_def Let_def payload_digest_def len
        sample_codec_def sample_envelope_text_def field_text_def number_text_def MAX_CONTROL_BYTES_def
        CONTROL_FORMAT_VERSION_def checked_add_def u64_max_def)
  from control_record_round_trip [OF laws u e t] e t show ?thesis by auto
qed

end
