(* ===== verification/Radix.thy ===== *)
theory Radix
  imports Prelude "HOL-Library.Word"
begin

text \<open>
  Numbers in positional notation: lists of limbs, most significant first, long division of such a list
  by a small number, and fixed-width digits. The encoders of byte strings divide limb by limb on machine
  words; their passes refine the division on naturals here.
\<close>

section \<open>Values\<close>

text \<open>The value of a list of digits in base \<open>B\<close>.\<close>

fun limbs_value :: "nat \<Rightarrow> nat list \<Rightarrow> nat" where
  "limbs_value B [] = 0"
| "limbs_value B (d # ds) = d * B ^ length ds + limbs_value B ds"

lemma limbs_value_append: "limbs_value B (xs @ ys) = limbs_value B xs * B ^ length ys + limbs_value B ys"
  by (induction xs) (simp_all add: algebra_simps power_add)

lemma limbs_value_bound: "list_all (\<lambda>d. d < B) ds \<Longrightarrow> limbs_value B ds < B ^ length ds"
proof (induction ds)
  case (Cons d ds)
  then have "d * B ^ length ds + limbs_value B ds < (d + 1) * B ^ length ds" by simp
  also have "\<dots> \<le> B * B ^ length ds" using Cons.prems by (intro mult_right_mono) auto
  finally show ?case by simp
qed simp

lemma limbs_value_zeros [simp]: "limbs_value B (replicate n 0 @ ds) = limbs_value B ds"
  by (induction n) simp_all

lemma limbs_value_dropWhile: "limbs_value B (dropWhile (\<lambda>d. d = 0) ds) = limbs_value B ds"
  by (induction ds) simp_all

lemma limbs_value_zero: "0 < B \<Longrightarrow> limbs_value B ds = 0 \<longleftrightarrow> list_all (\<lambda>d. d = 0) ds"
  by (induction ds) auto

lemma foldl_limbs: "foldl (\<lambda>acc d. acc * B + d) n ds = n * B ^ length ds + limbs_value B ds"
  by (induction ds arbitrary: n) (simp_all add: algebra_simps)

text \<open>Grouping the digits of a number does not change it.\<close>

lemma limbs_value_concat:
  assumes "list_all (\<lambda>g. length g = k) gs"
  shows "limbs_value B (concat gs) = limbs_value (B ^ k) (map (limbs_value B) gs)"
  using assms
proof (induction gs)
  case (Cons g gs)
  have "length (concat gs) = k * length gs" using Cons.prems by (induction gs) auto
  then show ?case using Cons by (simp add: limbs_value_append power_mult)
qed simp

section \<open>Long division\<close>

text \<open>One pass of long division by \<open>R\<close>: the quotient limb by limb, and the remainder.\<close>

fun divide_pass :: "nat \<Rightarrow> nat \<Rightarrow> nat \<Rightarrow> nat list \<Rightarrow> nat list \<times> nat" where
  "divide_pass B R r [] = ([], r)"
| "divide_pass B R r (d # ds) =
     (let cur = r * B + d; rest = divide_pass B R (cur mod R) ds in (cur div R # fst rest, snd rest))"

lemma length_divide_pass [simp]: "length (fst (divide_pass B R r ds)) = length ds"
  by (induction ds arbitrary: r) (simp_all add: Let_def)

lemma divide_pass_remainder: "0 < R \<Longrightarrow> r < R \<Longrightarrow> snd (divide_pass B R r ds) < R"
  by (induction ds arbitrary: r) (simp_all add: Let_def)

lemma divide_pass_value:
  "limbs_value B (fst (divide_pass B R r ds)) * R + snd (divide_pass B R r ds) = r * B ^ length ds + limbs_value B ds"
proof (induction ds arbitrary: r)
  case (Cons d ds)
  let ?cur = "r * B + d" and ?rest = "divide_pass B R ((r * B + d) mod R) ds"
  have "limbs_value B (fst (divide_pass B R r (d # ds))) * R + snd (divide_pass B R r (d # ds)) =
      (?cur div R * R) * B ^ length ds + (limbs_value B (fst ?rest) * R + snd ?rest)"
    by (simp add: Let_def algebra_simps)
  also have "\<dots> = (?cur div R * R + ?cur mod R) * B ^ length ds + limbs_value B ds"
    by (simp only: Cons.IH add_mult_distrib add.assoc)
  also have "\<dots> = ?cur * B ^ length ds + limbs_value B ds" by (simp only: div_mult_mod_eq)
  finally show ?case by (simp add: algebra_simps)
qed simp

lemma divide_pass_div_mod:
  assumes "0 < R"
  shows "limbs_value B (fst (divide_pass B R 0 ds)) = limbs_value B ds div R" "snd (divide_pass B R 0 ds) = limbs_value B ds mod R"
proof -
  let ?q = "limbs_value B (fst (divide_pass B R 0 ds))" and ?r = "snd (divide_pass B R 0 ds)"
  have "limbs_value B ds = ?r + ?q * R" using divide_pass_value [of B R 0 ds] by simp
  moreover have "?r < R" using divide_pass_remainder [OF assms assms] .
  ultimately show "?q = limbs_value B ds div R" "?r = limbs_value B ds mod R" by simp_all
qed

text \<open>The limbs of the quotient stay in range.\<close>

lemma divide_pass_range:
  assumes "0 < R" "r < R" "list_all (\<lambda>d. d < B) ds"
  shows "list_all (\<lambda>d. d < B) (fst (divide_pass B R r ds))"
  using assms
proof (induction ds arbitrary: r)
  case (Cons d ds)
  have "r * B + d < (r + 1) * B" using Cons.prems by simp
  also have "\<dots> \<le> R * B" using Cons.prems by (intro mult_right_mono) auto
  finally have "(r * B + d) div R < B" using Cons.prems by (simp add: less_mult_imp_div_less mult.commute)
  then show ?case using Cons by (simp add: Let_def)
qed simp

section \<open>Fixed-width digits\<close>

text \<open>The \<open>k\<close> low digits of a number in base \<open>b\<close>, most significant first.\<close>

fun low_digits :: "nat \<Rightarrow> nat \<Rightarrow> nat \<Rightarrow> nat list" where
  "low_digits b 0 n = []"
| "low_digits b (Suc k) n = low_digits b k (n div b) @ [n mod b]"

lemma length_low_digits [simp]: "length (low_digits b k n) = k"
  by (induction k arbitrary: n) simp_all

lemma low_digits_add: "low_digits b (j + k) n = low_digits b j (n div b ^ k) @ low_digits b k n"
  by (induction k arbitrary: n) (simp_all add: div_mult2_eq mult.commute)

lemma low_digits_mod: "0 < b \<Longrightarrow> low_digits b k (n mod b ^ k) = low_digits b k n"
proof (induction k arbitrary: n)
  case (Suc k)
  have "n mod b ^ Suc k div b = (n div b) mod b ^ k"
    using mod_mult2_eq [of n b "b ^ k"] Suc.prems by simp
  moreover have "n mod b ^ Suc k mod b = n mod b" by (simp add: mod_mod_cancel)
  ultimately show ?case using Suc by simp
qed simp

lemma low_digits_less: "0 < b \<Longrightarrow> list_all (\<lambda>d. d < b) (low_digits b k n)"
  by (induction k arbitrary: n) simp_all

section \<open>Words\<close>

lemma unat_narrow: "unat w < 2 ^ LENGTH('b) \<Longrightarrow> unat (ucast w :: 'b::len word) = unat w"
  by (simp add: unsigned_ucast_eq take_bit_eq_mod)

text \<open>A low word joined to a word that has room for it.\<close>

lemma unat_shift_in:
  fixes r :: "'c::len word" and l :: "'b::len word"
  assumes bound: "unat r * 2 ^ LENGTH('b) + unat l < 2 ^ LENGTH('c)"
  shows "unat (or (push_bit LENGTH('b) r) (ucast l)) = unat r * 2 ^ LENGTH('b) + unat l"
proof -
  have eq: "or (push_bit LENGTH('b) r) (ucast l) = push_bit LENGTH('b) r + ucast l"
    by (rule disjunctive_add [symmetric]) (auto simp: bit_simps dest: bit_imp_le_length)
  have sum: "push_bit LENGTH('b) r + ucast l = of_nat (unat r * 2 ^ LENGTH('b) + unat l)" by (simp add: push_bit_eq_mult)
  show ?thesis unfolding eq sum unat_of_nat by (rule mod_less [OF bound])
qed

lemma shift_in_bound: "r < R \<Longrightarrow> l < (B :: nat) \<Longrightarrow> r * B + l < R * B"
proof -
  assume "r < R" "l < B"
  then have "r * B + l < (r + 1) * B" by simp
  also have "\<dots> \<le> R * B" using \<open>r < R\<close> by (intro mult_right_mono) simp_all
  finally show ?thesis .
qed

text \<open>A word read from bytes, most significant first.\<close>

definition be_word :: "8 word list \<Rightarrow> 'a::len word" where
  "be_word bytes = foldl (\<lambda>acc b. or (push_bit 8 acc) (ucast b)) 0 bytes"

definition be_value :: "8 word list \<Rightarrow> nat" where
  "be_value bytes = limbs_value 256 (map unat bytes)"

lemma be_value_bound: "be_value bytes < 256 ^ length bytes"
proof -
  have "unat (b :: 8 word) < 256" for b using unsigned_less [of b] by simp
  then have "list_all (\<lambda>d. d < 256) (map unat bytes)" by (simp add: list_all_iff)
  from limbs_value_bound [OF this] show ?thesis by (simp add: be_value_def)
qed

lemma be_value_snoc: "be_value (bytes @ [b]) = be_value bytes * 256 + unat b"
  by (simp add: be_value_def limbs_value_append)

lemma be_word_value: "8 * length bytes \<le> LENGTH('a::len) \<Longrightarrow> unat (be_word bytes :: 'a word) = be_value bytes"
proof (induction bytes rule: rev_induct)
  case Nil
  then show ?case by (simp add: be_word_def be_value_def)
next
  case (snoc b bytes)
  let ?w = "be_word bytes :: 'a word"
  have w: "unat ?w = be_value bytes" using snoc by simp
  have "unat b < 256" using unsigned_less [of b] by simp
  then have "unat ?w * 256 + unat b < 256 ^ length bytes * 256" using be_value_bound [of bytes] w by (intro shift_in_bound) simp_all
  also have "\<dots> = (2 :: nat) ^ (8 * length (bytes @ [b]))" by (simp add: power_mult power_add)
  also have "\<dots> \<le> 2 ^ LENGTH('a)" using snoc.prems by (intro power_increasing) simp_all
  finally have "unat (or (push_bit 8 ?w) (ucast b) :: 'a word) = unat ?w * 256 + unat b" using unat_shift_in [of ?w b] by simp
  moreover have "be_word (bytes @ [b]) = (or (push_bit 8 ?w) (ucast b) :: 'a word)" by (simp add: be_word_def)
  ultimately show ?case using w by (simp add: be_value_snoc)
qed

section \<open>Buffers filled from the end\<close>

text \<open>\<open>buf[i..i + n].copy_from_slice(src)\<close>, which panics when the range is outside the buffer.\<close>

definition put_at :: "string \<Rightarrow> nat \<Rightarrow> string \<Rightarrow> string option" where
  "put_at buf i src = (if i + length src \<le> length buf then Some (take i buf @ src @ drop (i + length src) buf) else None)"

definition usize_sub :: "nat \<Rightarrow> nat \<Rightarrow> nat option" where
  "usize_sub a b = (if b \<le> a then Some (a - b) else None)"

text \<open>The text \<open>s\<close> written to the buffer so that it ends at \<open>j\<close>.\<close>

definition ending :: "string \<Rightarrow> nat \<Rightarrow> string \<Rightarrow> nat \<times> string" where
  "ending buf j s = (j - length s, take (j - length s) buf @ s @ drop j buf)"

lemma ending_step:
  assumes "length p + length s \<le> j" "j \<le> length buf" "put_at buf (j - length s) s = Some buf'"
  shows "ending buf' (j - length s) p = ending buf j (p @ s)" "length buf' = length buf" "j - length s \<le> length buf"
proof -
  have b: "buf' = take (j - length s) buf @ s @ drop j buf" using assms by (auto simp: put_at_def split: if_splits)
  then show "length buf' = length buf" "j - length s \<le> length buf" using assms(1,2) by simp_all
  have "drop (j - length s) buf' = s @ drop j buf" "take (j - length s - length p) buf' = take (j - length s - length p) buf"
    using assms(1,2) by (simp_all add: b min_def)
  then show "ending buf' (j - length s) p = ending buf j (p @ s)"
    using assms(1) by (simp add: ending_def) (metis add.commute diff_diff_left)
qed

lemma put_fits: "length s \<le> j \<Longrightarrow> j \<le> length buf \<Longrightarrow> \<exists>buf'. put_at buf (j - length s) s = Some buf'"
  by (auto simp: put_at_def)

lemma put_ending: "length s \<le> j \<Longrightarrow> j \<le> length buf \<Longrightarrow> map_option (Pair (j - length s)) (put_at buf (j - length s) s) = Some (ending buf j s)"
  by (auto simp: put_at_def ending_def)

section \<open>Chunks\<close>

fun chunks_exact :: "nat \<Rightarrow> 'a list \<Rightarrow> 'a list list" where
  "chunks_exact n xs = (if n = 0 \<or> length xs < n then [] else take n xs # chunks_exact n (drop n xs))"

declare chunks_exact.simps [simp del]

lemma chunks_exact_concat: "length xs = n * k \<Longrightarrow> 0 < k \<Longrightarrow> concat (chunks_exact k xs) = xs \<and> list_all (\<lambda>c. length c = k) (chunks_exact k xs) \<and>
    length (chunks_exact k xs) = n"
proof (induction n arbitrary: xs)
  case (Suc n)
  then show ?case using Suc.IH [of "drop k xs"] chunks_exact.simps [of k xs] by simp
qed (simp add: chunks_exact.simps)

end
