(* ===== verification/Byte_Text.thy ===== *)
theory Byte_Text
  imports Radix
begin

text \<open>
  Text encodings of byte fields (\<open>encode.rs\<close>, \<open>encode/fixed_base58.rs\<close>). Hashes and keys of 32 and 64 bytes
  are written in base 58 by long division of \<open>u32\<close> limbs by \<open>58 ^ 5\<close>, everything else by the crates \<open>hex\<close> and
  \<open>bs58\<close>, which are parameters with their documented behaviour.
\<close>

section \<open>Strategies\<close>

datatype encode_bytes = EBinary | EHex | EHexNoPrefix | EBase58 | ETronBase58

definition ascii_lower :: "char \<Rightarrow> char" where
  "ascii_lower c = (if is_ascii_uppercase c then char_of (byte c + 32) else c)"

definition to_lowercase :: "string \<Rightarrow> string" where
  "to_lowercase s = map ascii_lower s"

definition parse_encode_bytes :: "string \<Rightarrow> encode_bytes option" where
  "parse_encode_bytes s =
     (let l = to_lowercase s in
      if l = ''binary'' then Some EBinary
      else if l = ''hex'' then Some EHex
      else if l = ''hex_no_prefix'' then Some EHexNoPrefix
      else if l = ''base58'' then Some EBase58
      else if l = ''tron_base58'' then Some ETronBase58
      else None)"

section \<open>Fixed-width base 58\<close>

type_synonym bytes = "8 word list"

definition ALPHABET :: string where
  "ALPHABET = ''123456789ABCDEFGHJKLMNPQRSTUVWXYZabcdefghijkmnopqrstuvwxyz''"

definition RADIX :: nat where
  "RADIX = 58 ^ 5"

abbreviation radix64 :: "64 word" where
  "radix64 \<equiv> of_nat RADIX"

fun base58_pass :: "64 word \<Rightarrow> 32 word list \<Rightarrow> 32 word list \<times> 64 word" where
  "base58_pass r [] = ([], r)"
| "base58_pass r (limb # limbs) =
     (let wide = or (push_bit 32 r) (ucast limb) :: 64 word;
          quotient = ucast (wide div radix64) :: 32 word;
          rest = base58_pass (wide mod radix64) limbs
      in (quotient # fst rest, snd rest))"

text \<open>\<open>n\<close> digits of a chunk, the last one first.\<close>

fun emit_digits :: "nat \<Rightarrow> 32 word \<Rightarrow> string \<Rightarrow> nat \<Rightarrow> (nat \<times> string) option" where
  "emit_digits 0 chunk buf pos = Some (pos, buf)"
| "emit_digits (Suc n) chunk buf pos =
     Option.bind (usize_sub pos 1) (\<lambda>pos'.
     Option.bind (put_at buf pos' [ALPHABET ! unat (chunk mod 58)]) (\<lambda>buf'.
     emit_digits n (chunk div 58) buf' pos'))"

definition narrow_value :: "32 word list \<Rightarrow> nat" where
  "narrow_value limbs = limbs_value (2 ^ 32) (map unat limbs)"

lemma unat_radix64 [simp]: "unat radix64 = RADIX"
  by (simp add: RADIX_def unat_of_nat)

lemma base58_pass_refines:
  assumes "unat r < RADIX"
  shows "divide_pass (2 ^ 32) RADIX (unat r) (map unat limbs) = (map unat (fst (base58_pass r limbs)), unat (snd (base58_pass r limbs)))"
  using assms
proof (induction limbs arbitrary: r)
  case (Cons limb limbs)
  define wide :: "64 word" where "wide = or (push_bit 32 r) (ucast limb)"
  define quotient :: "32 word" where "quotient = ucast (wide div radix64)"
  have limb: "unat limb < 2 ^ 32" using unsigned_less [of limb] by simp
  have less: "unat r * 2 ^ 32 + unat limb < RADIX * 2 ^ 32" by (rule shift_in_bound [OF Cons.prems limb])
  moreover have "RADIX * 2 ^ 32 \<le> 2 ^ 64" by (simp add: RADIX_def)
  ultimately have "unat r * 2 ^ 32 + unat limb < 2 ^ 64" by (rule less_le_trans)
  then have wide: "unat wide = unat r * 2 ^ 32 + unat limb" using unat_shift_in [of r limb] by (simp add: wide_def)
  have "unat wide div RADIX < 2 ^ 32" using less wide by (simp add: less_mult_imp_div_less mult.commute)
  then have q: "unat quotient = unat wide div RADIX" unfolding quotient_def by (subst unat_narrow) (simp_all add: unat_div)
  have r': "unat (wide mod radix64) = unat wide mod RADIX" by (simp add: unat_mod)
  moreover have "unat wide mod RADIX < RADIX" by (simp add: RADIX_def)
  ultimately show ?case using Cons.IH [of "wide mod radix64"] q wide
    by (simp add: Let_def wide_def [symmetric] quotient_def [symmetric])
qed simp

declare base58_pass.simps [simp del]

lemma base58_pass_div_mod:
  "narrow_value (fst (base58_pass 0 limbs)) = narrow_value limbs div RADIX"
  "unat (snd (base58_pass 0 limbs)) = narrow_value limbs mod RADIX"
proof -
  have c: "0 < RADIX" by (simp add: RADIX_def)
  show "narrow_value (fst (base58_pass 0 limbs)) = narrow_value limbs div RADIX"
    "unat (snd (base58_pass 0 limbs)) = narrow_value limbs mod RADIX"
    using divide_pass_div_mod [OF c, of "2 ^ 32" "map unat limbs"] base58_pass_refines [of 0 limbs] c by (simp_all add: narrow_value_def)
qed

lemma narrow_value_positive: "narrow_value (limb # limbs) = 0 \<longleftrightarrow> limb = 0 \<and> narrow_value limbs = 0"
  by (auto simp: narrow_value_def unat_eq_0)

text \<open>The loop over the limbs from the first one on: skip a zero limb, or divide and emit five digits.\<close>

function base58_loop :: "32 word list \<Rightarrow> string \<Rightarrow> nat \<Rightarrow> (nat \<times> string) option" where
  "base58_loop [] buf pos = Some (pos, buf)"
| "base58_loop (limb # limbs) buf pos =
     (if limb = 0 then base58_loop limbs buf pos
      else let pass = base58_pass 0 (limb # limbs) in
        Option.bind (emit_digits 5 (ucast (snd pass)) buf pos) (\<lambda>(pos', buf'). base58_loop (fst pass) buf' pos'))"
  by pat_completeness auto

termination base58_loop
proof (relation "measures [\<lambda>(limbs, _). narrow_value limbs, \<lambda>(limbs, _). length limbs]")
  show "((limbs, buf, pos), (limb # limbs, buf, pos)) \<in> measures [\<lambda>(limbs, _). narrow_value limbs, \<lambda>(limbs, _). length limbs]"
    if "limb = 0" for limb limbs buf pos
    using that by (simp add: narrow_value_def)
  show "((fst pass, b, p), (limb # limbs, buf, pos)) \<in> measures [\<lambda>(limbs, _). narrow_value limbs, \<lambda>(limbs, _). length limbs]"
    if "limb \<noteq> 0" "pass = base58_pass 0 (limb # limbs)" for limb limbs pass b p buf and pos :: nat
  proof -
    have "0 < narrow_value (limb # limbs)" using that(1) narrow_value_positive [of limb limbs] by simp
    then have "narrow_value (limb # limbs) div RADIX < narrow_value (limb # limbs)" by (intro div_less_dividend) (simp_all add: RADIX_def)
    then show ?thesis using that(2) base58_pass_div_mod(1) [of "limb # limbs"] by simp
  qed
qed simp

definition push_fixed :: "nat \<Rightarrow> bytes \<Rightarrow> string option" where
  "push_fixed n bytes =
     (if length bytes \<noteq> n * 4 then None
      else Option.bind (base58_loop (map be_word (chunks_exact 4 bytes)) (replicate 90 (CHR 0x00)) 90) (\<lambda>(pos, buf).
        Some (replicate (length (takeWhile (\<lambda>b. b = 0) bytes)) (CHR ''1'') @ dropWhile (\<lambda>c. c = CHR ''1'') (drop pos buf))))"

section \<open>Base 58 as it is defined\<close>

text \<open>The digits of a number without leading zero digits, and one \<open>1\<close> per leading zero byte.\<close>

fun base58_digits :: "nat \<Rightarrow> string" where
  "base58_digits n = (if n = 0 then [] else base58_digits (n div 58) @ [ALPHABET ! (n mod 58)])"

declare base58_digits.simps [simp del]

definition base58_text :: "bytes \<Rightarrow> string" where
  "base58_text bytes = replicate (length (takeWhile (\<lambda>b. b = 0) bytes)) (CHR ''1'') @ base58_digits (be_value bytes)"

definition base58_pad :: "nat \<Rightarrow> nat \<Rightarrow> string" where
  "base58_pad k n = map ((!) ALPHABET) (low_digits 58 k n)"

lemma base58_pad_length [simp]: "length (base58_pad k n) = k"
  by (simp add: base58_pad_def)

lemma alphabet_facts: "distinct ALPHABET" "length ALPHABET = 58" "ALPHABET ! 0 = CHR ''1''"
  by (simp_all add: ALPHABET_def)

lemma alphabet_inj: "d < 58 \<Longrightarrow> e < 58 \<Longrightarrow> ALPHABET ! d = ALPHABET ! e \<longleftrightarrow> d = e"
  using nth_eq_iff_index_eq [OF alphabet_facts(1)] by (simp add: alphabet_facts)

lemma alphabet_one: "d < 58 \<Longrightarrow> ALPHABET ! d = CHR ''1'' \<longleftrightarrow> d = 0"
  using alphabet_inj [of d 0] by (simp add: alphabet_facts)

lemma base58_digits_pad: "n < 58 ^ k \<Longrightarrow> dropWhile (\<lambda>c. c = CHR ''1'') (base58_pad k n) = base58_digits n"
proof (induction k arbitrary: n)
  case 0
  then show ?case by (simp add: base58_pad_def base58_digits.simps)
next
  case (Suc k)
  let ?d = "ALPHABET ! (n mod 58)" and ?p = "base58_pad k (n div 58)"
  have q: "n div 58 < 58 ^ k" using Suc.prems by (simp add: less_mult_imp_div_less mult.commute)
  have split: "base58_pad (Suc k) n = ?p @ [?d]" by (simp add: base58_pad_def)
  have ih: "dropWhile (\<lambda>c. c = CHR ''1'') ?p = base58_digits (n div 58)" by (rule Suc.IH [OF q])
  show ?case
  proof (cases "n div 58 = 0")
    case True
    then have "dropWhile (\<lambda>c. c = CHR ''1'') ?p = []" using ih by (simp add: base58_digits.simps)
    then have "dropWhile (\<lambda>c. c = CHR ''1'') (?p @ [?d]) = dropWhile (\<lambda>c. c = CHR ''1'') [?d]" by (simp add: dropWhile_append)
    then show ?thesis using True split alphabet_one [of "n mod 58"] base58_digits.simps [of n] base58_digits.simps [of 0]
      by (auto simp: mod_eq_self_iff_div_eq_0 [THEN iffD2])
  next
    case False
    then have "dropWhile (\<lambda>c. c = CHR ''1'') ?p \<noteq> []" using ih base58_digits.simps [of "n div 58"] by simp
    then have "dropWhile (\<lambda>c. c = CHR ''1'') (?p @ [?d]) = dropWhile (\<lambda>c. c = CHR ''1'') ?p @ [?d]"
      by (simp add: dropWhile_append)
    then show ?thesis using False split ih base58_digits.simps [of n] by auto
  qed
qed

lemma emit_digits_text:
  assumes "n \<le> pos" "pos \<le> length buf"
  shows "emit_digits n chunk buf pos = Some (ending buf pos (base58_pad n (unat chunk)))"
  using assms
proof (induction n arbitrary: chunk buf pos)
  case 0
  then show ?case by (simp add: ending_def base58_pad_def)
next
  case (Suc n)
  let ?s = "[ALPHABET ! unat (chunk mod 58)]" and ?p = "base58_pad n (unat chunk div 58)"
  have u: "unat (chunk mod 58) = unat chunk mod 58" "unat (chunk div 58) = unat chunk div 58" by (simp_all add: unat_mod unat_div)
  have j: "length ?p + length ?s \<le> pos" using Suc.prems by simp
  obtain buf' where b: "put_at buf (pos - length ?s) ?s = Some buf'" using put_fits [of ?s pos buf] Suc.prems by auto
  note e = ending_step [OF j Suc.prems(2) b]
  have "emit_digits n (chunk div 58) buf' (pos - 1) = Some (ending buf' (pos - 1) (base58_pad n (unat (chunk div 58))))"
    by (rule Suc.IH) (use Suc.prems e in simp_all)
  moreover have "base58_pad (Suc n) (unat chunk) = ?p @ ?s" using u by (simp add: base58_pad_def)
  ultimately show ?case using Suc.prems b e(1) u by (simp add: usize_sub_def)
qed

lemma base58_loop_text:
  assumes "narrow_value limbs < RADIX ^ k" "5 * k \<le> pos" "pos \<le> length buf"
  shows "\<exists>m. narrow_value limbs < RADIX ^ m \<and> 5 * m \<le> pos \<and> base58_loop limbs buf pos = Some (ending buf pos (base58_pad (5 * m) (narrow_value limbs)))"
  using assms
proof (induction limbs buf pos arbitrary: k rule: base58_loop.induct)
  case (1 buf pos)
  have "narrow_value [] < RADIX ^ 0" by (simp add: narrow_value_def)
  then show ?case by (intro exI [of _ 0]) (simp add: ending_def base58_pad_def)
next
  case (2 limb limbs buf pos)
  let ?n = "narrow_value (limb # limbs)" and ?pass = "base58_pass 0 (limb # limbs)"
  show ?case
  proof (cases "limb = 0")
    case True
    then have "?n = narrow_value limbs" by (simp add: narrow_value_def)
    then show ?thesis using True 2(1) [OF True] 2(3-5) by simp
  next
    case False
    then have "0 < ?n" using narrow_value_positive [of limb limbs] by simp
    then obtain k' where k: "k = Suc k'" using 2(3) by (cases k) simp_all
    have rad: "RADIX = 58 ^ 5" by (simp add: RADIX_def)
    note pass = base58_pass_div_mod [of "limb # limbs"]
    let ?r = "ucast (snd ?pass) :: 32 word"
    have "?n mod RADIX < 2 ^ 32" by (rule less_trans [of _ RADIX]) (simp_all add: RADIX_def)
    then have r: "unat ?r = ?n mod RADIX" using pass(2) by (subst unat_narrow) simp_all
    let ?s = "base58_pad 5 ?n"
    have s: "base58_pad 5 (unat ?r) = ?s" unfolding r rad base58_pad_def by (subst low_digits_mod) simp_all
    have p5: "5 \<le> pos" using 2(4) k by simp
    define buf' where "buf' = snd (ending buf pos ?s)"
    have em: "emit_digits 5 ?r buf pos = Some (pos - 5, buf')"
      using emit_digits_text [OF p5 2(5), of ?r] s by (simp add: ending_def buf'_def)
    have b: "put_at buf (pos - length ?s) ?s = Some buf'" using p5 2(5) by (simp add: put_at_def buf'_def ending_def)
    have len: "length buf' = length buf" using p5 2(5) by (simp add: buf'_def ending_def)
    have q: "narrow_value (fst ?pass) < RADIX ^ k'"
      using 2(3) pass(1) k by (simp add: less_mult_imp_div_less mult.commute)
    have c: "5 * k' \<le> pos - 5" "pos - 5 \<le> length buf'" using 2(4,5) k len by simp_all
    obtain m where m: "narrow_value (fst ?pass) < RADIX ^ m" "5 * m \<le> pos - 5"
      "base58_loop (fst ?pass) buf' (pos - 5) = Some (ending buf' (pos - 5) (base58_pad (5 * m) (narrow_value (fst ?pass))))"
      using 2(2) [OF False refl em refl q c] by blast
    have "base58_pad (5 * Suc m) ?n = base58_pad (5 * m) (?n div RADIX) @ ?s"
      using low_digits_add [of 58 "5 * m" 5 ?n] by (simp add: base58_pad_def rad add.commute)
    moreover have "ending buf' (pos - 5) (base58_pad (5 * m) (?n div RADIX)) = ending buf pos (base58_pad (5 * m) (?n div RADIX) @ ?s)"
      using ending_step(1) [OF _ 2(5) b, of "base58_pad (5 * m) (?n div RADIX)"] m(2) p5 by simp
    ultimately have "base58_loop (limb # limbs) buf pos = Some (ending buf pos (base58_pad (5 * Suc m) ?n))"
      using False em m(3) pass(1) by simp
    moreover have "?n < RADIX ^ Suc m" using m(1) pass(1) by (simp add: RADIX_def div_less_iff_less_mult mult.commute)
    ultimately show ?thesis using m(2) p5 by (intro exI [of _ "Suc m"]) simp
  qed
qed

lemma push_fixed_text:
  assumes "length bytes = n * 4" "n \<le> 16"
  shows "push_fixed n bytes = Some (base58_text bytes)"
proof -
  let ?limbs = "map be_word (chunks_exact 4 bytes) :: 32 word list" and ?buf = "replicate 90 (CHR 0x00)"
  have ch: "concat (chunks_exact 4 bytes) = bytes" "list_all (\<lambda>c. length c = 4) (chunks_exact 4 bytes)"
    using chunks_exact_concat [OF assms(1)] by simp_all
  have m: "map unat ?limbs = map (limbs_value 256) (map (map unat) (chunks_exact 4 bytes))"
    using ch(2) be_word_value [where 'a = 32] by (auto simp: list_all_iff be_value_def)
  have "narrow_value ?limbs = limbs_value (256 ^ 4) (map (limbs_value 256) (map (map unat) (chunks_exact 4 bytes)))"
    unfolding narrow_value_def m by simp
  also have "\<dots> = be_value bytes"
    using limbs_value_concat [of 4 "map (map unat) (chunks_exact 4 bytes)" 256] ch by (simp add: be_value_def list_all_iff flip: map_concat)
  finally have v: "narrow_value ?limbs = be_value bytes" .
  have "be_value bytes < 256 ^ (n * 4)" using be_value_bound [of bytes] assms(1) by simp
  also have "\<dots> \<le> 256 ^ 64" using assms(2) by (intro power_increasing) simp_all
  also have "\<dots> < RADIX ^ 18" by (simp add: RADIX_def)
  finally have bound: "narrow_value ?limbs < RADIX ^ 18" using v by simp
  obtain k where k: "be_value bytes < RADIX ^ k" "5 * k \<le> 90" "base58_loop ?limbs ?buf 90 = Some (ending ?buf 90 (base58_pad (5 * k) (be_value bytes)))"
    using base58_loop_text [OF bound, of 90 ?buf] v by auto
  have "be_value bytes < 58 ^ (5 * k)" using k(1) by (simp add: RADIX_def power_mult)
  from base58_digits_pad [OF this] k show ?thesis using assms(1) by (simp add: push_fixed_def ending_def base58_text_def)
qed

section \<open>Encoding\<close>

text \<open>The crates \<open>hex\<close>, \<open>bs58\<close> and \<open>sha2\<close>.\<close>

record byte_codec =
  bc_hex :: "bytes \<Rightarrow> string"
  bc_hex_decode :: "string \<Rightarrow> bytes option"
  bc_bs58 :: "bytes \<Rightarrow> string"
  bc_sha256 :: "bytes \<Rightarrow> bytes"

definition TRON_VERSION_BYTE :: "8 word" where
  "TRON_VERSION_BYTE = 0x41"

definition checksum4 :: "byte_codec \<Rightarrow> bytes \<Rightarrow> bytes" where
  "checksum4 c data = take 4 (bc_sha256 c (bc_sha256 c data))"

definition push_base58 :: "byte_codec \<Rightarrow> bytes \<Rightarrow> string option" where
  "push_base58 c bytes =
     (if length bytes = 32 then push_fixed 8 bytes
      else if length bytes = 64 then push_fixed 16 bytes
      else Some (bc_bs58 c bytes))"

definition push_tron_base58 :: "byte_codec \<Rightarrow> bytes \<Rightarrow> string option" where
  "push_tron_base58 c bytes =
     (if length bytes = 20 then let data = TRON_VERSION_BYTE # bytes in push_base58 c (data @ checksum4 c data)
      else if length bytes = 21 then push_base58 c (bytes @ checksum4 c bytes)
      else Some (bc_hex c bytes))"

text \<open>No text form of \<open>Binary\<close>: asking for one panics.\<close>

fun encode_text :: "byte_codec \<Rightarrow> bytes \<Rightarrow> encode_bytes \<Rightarrow> string option" where
  "encode_text c bytes EBinary = None"
| "encode_text c bytes EHex = Some (''0x'' @ bc_hex c bytes)"
| "encode_text c bytes EHexNoPrefix = Some (bc_hex c bytes)"
| "encode_text c bytes EBase58 = push_base58 c bytes"
| "encode_text c bytes ETronBase58 = push_tron_base58 c bytes"

definition strip_0x :: "string \<Rightarrow> string" where
  "strip_0x s = (case strip_prefix ''0x'' s of Some rest \<Rightarrow> rest | None \<Rightarrow> s)"

definition encode_id :: "byte_codec \<Rightarrow> string \<Rightarrow> encode_bytes \<Rightarrow> string option" where
  "encode_id c i encoding =
     (if encoding = EBinary then Some i
      else case bc_hex_decode c (strip_0x i) of
        Some bytes \<Rightarrow> encode_text c bytes encoding
      | None \<Rightarrow> Some i)"

definition decode_id_bytes :: "byte_codec \<Rightarrow> string \<Rightarrow> bytes" where
  "decode_id_bytes c i =
     (case bc_hex_decode c (strip_0x i) of Some bytes \<Rightarrow> bytes | None \<Rightarrow> map (\<lambda>ch. of_nat (byte ch)) i)"

section \<open>Columns\<close>

datatype encoded_bytes = EncodedBinary bytes | EncodedString string encode_bytes

definition encoded_new :: "byte_codec \<Rightarrow> bytes \<Rightarrow> encode_bytes \<Rightarrow> encoded_bytes option" where
  "encoded_new c bytes encoding =
     (if encoding = EBinary then Some (EncodedBinary bytes)
      else map_option (\<lambda>s. EncodedString s encoding) (encode_text c bytes encoding))"

datatype bytes_column = BinaryColumn "bytes option list" | StringColumn "string option list" encode_bytes

definition column_new :: "encode_bytes \<Rightarrow> bytes_column" where
  "column_new encoding = (if encoding = EBinary then BinaryColumn [] else StringColumn [] encoding)"

fun column_append_value :: "byte_codec \<Rightarrow> bytes_column \<Rightarrow> bytes \<Rightarrow> bytes_column option" where
  "column_append_value c (BinaryColumn vs) bytes = Some (BinaryColumn (vs @ [Some bytes]))"
| "column_append_value c (StringColumn vs encoding) bytes =
     map_option (\<lambda>s. StringColumn (vs @ [Some s]) encoding) (encode_text c bytes encoding)"

fun column_encode :: "byte_codec \<Rightarrow> bytes_column \<Rightarrow> bytes \<Rightarrow> encoded_bytes option" where
  "column_encode c (BinaryColumn _) bytes = Some (EncodedBinary bytes)"
| "column_encode c (StringColumn _ encoding) bytes = encoded_new c bytes encoding"

fun column_append_encoded :: "bytes_column \<Rightarrow> encoded_bytes \<Rightarrow> bytes_column option" where
  "column_append_encoded (BinaryColumn vs) (EncodedBinary bytes) = Some (BinaryColumn (vs @ [Some bytes]))"
| "column_append_encoded (StringColumn vs encoding) (EncodedString s e) =
     (if encoding = e then Some (StringColumn (vs @ [Some s]) encoding) else None)"
| "column_append_encoded _ _ = None"

fun column_encoding :: "bytes_column \<Rightarrow> encode_bytes" where
  "column_encoding (BinaryColumn _) = EBinary"
| "column_encoding (StringColumn _ encoding) = encoding"

fun column_append_null :: "bytes_column \<Rightarrow> bytes_column" where
  "column_append_null (BinaryColumn vs) = BinaryColumn (vs @ [None])"
| "column_append_null (StringColumn vs encoding) = StringColumn (vs @ [None]) encoding"

section \<open>Laws of the crates\<close>

text \<open>
  \<open>bs58\<close> encodes as base 58 is defined, \<open>hex\<close> in two lower-case digits per byte, and \<open>sha2\<close> to 32 bytes.
\<close>

locale byte_codec_laws =
  fixes c :: byte_codec
  assumes bs58: "bc_bs58 c bytes = base58_text bytes"
    and hex_decodes: "bc_hex_decode c (bc_hex c bytes) = Some bytes"
    and hex_digits: "list_all is_lower_hex (bc_hex c bytes)"
    and sha_length: "length (bc_sha256 c bytes) = 32"
begin

lemma push_base58_exact: "push_base58 c bytes = Some (base58_text bytes)"
  using push_fixed_text [of bytes 8] push_fixed_text [of bytes 16] by (simp add: push_base58_def bs58)

lemma text_total: "encoding \<noteq> EBinary \<Longrightarrow> \<exists>s. encode_text c bytes encoding = Some s"
  by (cases encoding) (simp_all add: push_base58_exact push_tron_base58_def Let_def)

lemma id_hex_round_trip: "encode_id c (bc_hex c bytes) EHexNoPrefix = Some (bc_hex c bytes)"
proof -
  have "CHR ''x'' \<notin> set (bc_hex c bytes)" using hex_digits [of bytes] by (auto simp: list_all_iff is_lower_hex_def is_ascii_digit_def byte_def)
  then have "strip_0x (bc_hex c bytes) = bc_hex c bytes"
    by (auto simp: strip_0x_def split: option.splits)
  then show ?thesis by (simp add: encode_id_def hex_decodes)
qed

lemma decode_id_hex: "decode_id_bytes c (''0x'' @ bc_hex c bytes) = bytes"
  by (simp add: decode_id_bytes_def strip_0x_def hex_decodes)

end

section \<open>The text identifies the bytes\<close>

lemma base58_digits_inj: "base58_digits m = base58_digits n \<Longrightarrow> m = n"
proof (induction m arbitrary: n rule: less_induct)
  case (less m)
  show ?case
  proof (cases "m = 0 \<or> n = 0")
    case True
    then show ?thesis using less.prems base58_digits.simps [of m] base58_digits.simps [of n] by (auto split: if_splits)
  next
    case False
    then have "base58_digits (m div 58) = base58_digits (n div 58)" "m mod 58 = n mod 58"
      using less.prems base58_digits.simps [of m] base58_digits.simps [of n] alphabet_inj by auto
    moreover have "m div 58 < m" using False by simp
    ultimately have "m div 58 = n div 58" "m mod 58 = n mod 58" using less.IH by blast+
    then show ?thesis by (metis div_mult_mod_eq)
  qed
qed

lemma base58_digits_head: "base58_digits n \<noteq> [] \<Longrightarrow> hd (base58_digits n) \<noteq> CHR ''1''"
proof (induction n rule: base58_digits.induct)
  case (1 n)
  have n0: "n \<noteq> 0" using 1(2) base58_digits.simps [of 0] by (cases "n = 0") simp_all
  have n: "n \<noteq> 0" "base58_digits n = base58_digits (n div 58) @ [ALPHABET ! (n mod 58)]"
    using n0 base58_digits.simps [of n] unfolding if_not_P [OF n0] by blast+
  show ?case
  proof (cases "n div 58 = 0")
    case True
    then have "base58_digits n = [ALPHABET ! (n mod 58)]" "n mod 58 = n" "n < 58" using n base58_digits.simps [of 0] by (auto simp: div_eq_0_iff)
    then show ?thesis using n(1) alphabet_one [of n] by simp
  next
    case False
    then have "base58_digits (n div 58) \<noteq> []" using base58_digits.simps [of "n div 58"] by simp
    then show ?thesis using 1(1) [OF n(1)] n(2) by simp
  qed
qed

lemma be_value_zero: "be_value bytes = 0 \<longleftrightarrow> list_all (\<lambda>b. b = 0) bytes"
  by (simp add: be_value_def limbs_value_zero list_all_iff unat_eq_0)

lemma be_value_inj:
  assumes "be_value a = be_value b" "a \<noteq> [] \<Longrightarrow> hd a \<noteq> 0" "b \<noteq> [] \<Longrightarrow> hd b \<noteq> 0"
  shows "a = b"
  using assms
proof (induction a arbitrary: b rule: rev_induct)
  case Nil
  then have "be_value b = 0" by (simp add: be_value_def)
  then have "\<forall>x \<in> set b. x = 0" by (simp add: be_value_zero list_all_iff)
  then show ?case using Nil(3) hd_in_set [of b] by (cases "b = []") auto
next
  case (snoc x a)
  have z: "be_value (a @ [x]) \<noteq> 0" using snoc.prems(2) hd_in_set [of "a @ [x]"] by (auto simp: be_value_zero list_all_iff)
  then have "b \<noteq> []" using snoc.prems(1) by (auto simp: be_value_def)
  then obtain b' y where b: "b = b' @ [y]" by (metis rev_exhaust)
  have "unat x < 256" "unat y < 256" using unsigned_less [of x] unsigned_less [of y] by simp_all
  moreover have "be_value a * 256 + unat x = be_value b' * 256 + unat y" using snoc.prems(1) b by (simp add: be_value_snoc)
  moreover have "(u * 256 + v) div 256 = u \<and> (u * 256 + v) mod 256 = v" if "v < 256" for u v :: nat using that by simp
  ultimately have "be_value a = be_value b'" "unat x = unat y" by metis+
  moreover have "hd a \<noteq> 0" if "a \<noteq> []" using that snoc.prems(2) by simp
  moreover have "hd b' \<noteq> 0" if "b' \<noteq> []" using that snoc.prems(3) b by simp
  ultimately show ?case using snoc.IH [of b'] b by (simp add: unsigned_word_eqI)
qed

lemma while_replicate:
  "P x \<Longrightarrow> takeWhile P (replicate k x @ ys) = replicate k x @ takeWhile P ys" "P x \<Longrightarrow> dropWhile P (replicate k x @ ys) = dropWhile P ys"
  by (induction k) simp_all

lemma base58_text_inj: "base58_text a = base58_text b \<Longrightarrow> a = b"
proof -
  assume eq: "base58_text a = base58_text b"
  let ?z = "\<lambda>x. length (takeWhile (\<lambda>b. b = (0 :: 8 word)) x)"
  have ones: "takeWhile (\<lambda>c. c = CHR ''1'') (base58_text x) = replicate (?z x) (CHR ''1'')"
    "dropWhile (\<lambda>c. c = CHR ''1'') (base58_text x) = base58_digits (be_value x)" for x
  proof -
    have "takeWhile (\<lambda>c. c = CHR ''1'') (base58_digits n) = [] \<and> dropWhile (\<lambda>c. c = CHR ''1'') (base58_digits n) = base58_digits n" for n
      using base58_digits_head [of n] by (cases "base58_digits n") auto
    then show "takeWhile (\<lambda>c. c = CHR ''1'') (base58_text x) = replicate (?z x) (CHR ''1'')"
      "dropWhile (\<lambda>c. c = CHR ''1'') (base58_text x) = base58_digits (be_value x)"
      by (simp_all add: base58_text_def while_replicate)
  qed
  have split: "x = replicate (?z x) 0 @ dropWhile (\<lambda>b. b = 0) x" for x :: bytes
    by (induction x) auto
  have val: "be_value (dropWhile (\<lambda>b. b = 0) x) = be_value x" for x unfolding be_value_def by (induction x) simp_all
  have z: "?z a = ?z b" using ones(1) [of a] ones(1) [of b] eq by (metis length_replicate)
  have "be_value a = be_value b" using ones(2) [of a] ones(2) [of b] eq base58_digits_inj by metis
  then have "dropWhile (\<lambda>b. b = 0) a = dropWhile (\<lambda>b. b = 0) b" using hd_dropWhile [of "\<lambda>b. b = 0"]
    by (intro be_value_inj) (simp_all only: val, blast+)
  then show "a = b" using split [of a] split [of b] z by metis
qed

text \<open>Encoding a value once and appending it equals appending the value.\<close>

lemma append_encoded_agrees:
  "Option.bind (column_encode c col bytes) (column_append_encoded col) = column_append_value c col bytes"
  by (cases col) (auto simp: encoded_new_def map_option_case split: option.splits)

section \<open>A codec\<close>

definition hex_digit :: "nat \<Rightarrow> char" where
  "hex_digit d = char_of (if d < 10 then 48 + d else 87 + d)"

definition hex_text :: "bytes \<Rightarrow> string" where
  "hex_text bytes = concat (map (\<lambda>b. [hex_digit (unat b div 16), hex_digit (unat b mod 16)]) bytes)"

definition hex_value :: "char \<Rightarrow> nat option" where
  "hex_value ch =
     (if is_ascii_digit ch then Some (byte ch - 48)
      else if 97 \<le> byte ch \<and> byte ch \<le> 102 then Some (byte ch - 87)
      else if 65 \<le> byte ch \<and> byte ch \<le> 70 then Some (byte ch - 55) else None)"

fun hex_parse :: "string \<Rightarrow> bytes option" where
  "hex_parse [] = Some []"
| "hex_parse [_] = None"
| "hex_parse (h # l # rest) =
     (case (hex_value h, hex_value l, hex_parse rest) of
        (Some a, Some b, Some bytes) \<Rightarrow> Some (of_nat (a * 16 + b) # bytes) | _ \<Rightarrow> None)"

lemma byte_hex_digit: "d < 16 \<Longrightarrow> byte (hex_digit d) = (if d < 10 then 48 + d else 87 + d)"
  by (simp add: byte_def hex_digit_def of_char_mod_256 take_bit_eq_mod)

lemma hex_digit_value: "d < 16 \<Longrightarrow> hex_value (hex_digit d) = Some d \<and> is_lower_hex (hex_digit d)"
  by (auto simp: hex_value_def is_lower_hex_def is_ascii_digit_def byte_hex_digit)

lemma hex_parse_text: "hex_parse (hex_text bytes) = Some bytes \<and> list_all is_lower_hex (hex_text bytes)"
proof (induction bytes)
  case (Cons b bytes)
  have "unat b < 256" using unsigned_less [of b] by simp
  then have "unat b div 16 < 16" by (simp add: less_mult_imp_div_less)
  then show ?case using Cons hex_digit_value [of "unat b div 16"] hex_digit_value [of "unat b mod 16"]
    by (simp add: hex_text_def div_mult_mod_eq)
qed (simp add: hex_text_def)

definition plain_codec :: byte_codec where
  "plain_codec = \<lparr> bc_hex = hex_text, bc_hex_decode = hex_parse, bc_bs58 = base58_text, bc_sha256 = (\<lambda>_. replicate 32 0) \<rparr>"

interpretation plain: byte_codec_laws plain_codec
  by unfold_locales (use hex_parse_text in \<open>simp_all add: plain_codec_def\<close>)

section \<open>Properties\<close>

text \<open>
  C37. The fixed-width encoder is base 58: for keys and hashes of 32 bytes and signatures of
  64 bytes it returns one \<open>1\<close> per leading zero byte and the base 58 digits of the number, as the reference
  encoding is defined, with no overflow, no panic and no write outside its buffer of 90 digits; and the
  text determines the bytes, so that two different values never get the same text.
\<close>

theorem base58_exact:
  assumes "length bytes = 32 \<or> length bytes = 64"
  shows "encode_text c bytes EBase58 = Some (base58_text bytes) \<and>
    (encode_text c other EBase58 = encode_text c bytes EBase58 \<longleftrightarrow> other = bytes \<or> length other \<notin> {32, 64} \<and> bc_bs58 c other = base58_text bytes)"
proof -
  have fixed: "encode_text c x EBase58 = (if length x \<in> {32, 64} then Some (base58_text x) else Some (bc_bs58 c x))" for x
    using push_fixed_text [of x 8] push_fixed_text [of x 16] by (simp add: push_base58_def)
  then show ?thesis using assms base58_text_inj by auto
qed

theorem base58_exact_witness: "encode_text plain_codec (replicate 31 0 @ [58]) EBase58 = Some (replicate 31 (CHR ''1'') @ ''21'')"
proof -
  have "be_value (replicate 31 0 @ [58]) = 58" by (simp add: be_value_def)
  moreover have "base58_digits 58 = ''21''" using base58_digits.simps [of 58] base58_digits.simps [of 1] base58_digits.simps [of 0]
    by (simp add: ALPHABET_def)
  ultimately have "base58_text (replicate 31 0 @ [58]) = replicate 31 (CHR ''1'') @ ''21''"
    by (simp only: base58_text_def while_replicate) simp
  then show ?thesis using base58_exact [of "replicate 31 0 @ [58]" plain_codec] by simp
qed

end
