(* ===== verification/Cursor.thy ===== *)
theory Cursor
  imports Byte_Text
begin

text \<open>
  The cursor file (\<open>cursor.rs\<close>): the resume state of a stream as one row of a Parquet file, with the
  pipeline parameters in the metadata of the file, and the comparison of the parameters of a run with
  those of the cursor it resumes from. The Parquet crate is the record \<open>parquet_io\<close>, what the code relies
  on the locale \<open>parquet_crate\<close>. Shown: a saved cursor loads as it was saved and never refuses the run
  that wrote it, whatever its metadata.
\<close>

section \<open>State\<close>

definition CURSOR_METADATA_EXTENDED :: string where
  "CURSOR_METADATA_EXTENDED = ''firehose-parquet.extended''"

definition CURSOR_METADATA_FINAL_BLOCKS_ONLY :: string where
  "CURSOR_METADATA_FINAL_BLOCKS_ONLY = ''firehose-parquet.final_blocks_only''"

definition CURSOR_METADATA_INCLUDE_FAILED_TRANSACTIONS :: string where
  "CURSOR_METADATA_INCLUDE_FAILED_TRANSACTIONS = ''firehose-parquet.include_failed_transactions''"

definition CURSOR_METADATA_SYNTHETIC_TIMESTAMPS :: string where
  "CURSOR_METADATA_SYNTHETIC_TIMESTAMPS = ''firehose-parquet.synthetic_timestamps''"

definition CURSOR_METADATA_SYNTHETIC_TIMESTAMP_POLICY :: string where
  "CURSOR_METADATA_SYNTHETIC_TIMESTAMP_POLICY = ''firehose-parquet.synthetic_timestamp_policy''"

record cursor_state =
  cs_cursor :: string
  cs_last_block_num :: nat
  cs_last_block_id :: bytes
  cs_last_timestamp :: "int option"
  cs_updated_at :: string
  cs_start_block :: "nat option"
  cs_stop_block :: "nat option"
  cs_extended :: bool
  cs_final_blocks_only :: bool
  cs_include_failed_transactions :: bool
  cs_file_metadata :: "(string \<times> string) list"

text \<open>Arrow arrays, with \<open>None\<close> for a null, and record batches with named columns.\<close>

datatype data_type = TUtf8 | TUInt64 | TBinary | TInt64 | TBoolean

datatype cursor_array =
    AUtf8 "string option list"
  | AUInt64 "nat option list"
  | ABinary "bytes option list"
  | AInt64 "int option list"
  | ABoolean "bool option list"

record cursor_batch =
  cb_rows :: nat
  cb_columns :: "(string \<times> cursor_array) list"

definition cursor_schema :: "(string \<times> data_type \<times> bool) list" where
  "cursor_schema =
     [(''cursor'', TUtf8, False), (''last_block_num'', TUInt64, False), (''last_block_id'', TBinary, False),
      (''last_timestamp'', TInt64, True), (''updated_at'', TUtf8, False), (''start_block'', TUInt64, True),
      (''stop_block'', TUInt64, True)]"

text \<open>What a reader of a Parquet file shows.\<close>

record page =
  pg_values :: nat
  pg_buffer :: nat
  pg_data :: bool

record row_group =
  rg_columns :: "(bool \<times> int) list"
    \<comment> \<open>per column: whether its pages are uncompressed, and their uncompressed size\<close>
  rg_total_byte_size :: int
  rg_pages :: "page option list option list"
    \<comment> \<open>per column: its pages, \<open>None\<close> where the reader fails\<close>

record cursor_file =
  cf_rows :: int
  cf_groups :: "row_group list"
  cf_schema :: "(string \<times> data_type \<times> bool) list"
  cf_metadata :: "(string \<times> string option) list option"
  cf_batches :: "nat \<Rightarrow> cursor_batch option list"
    \<comment> \<open>the batches read with a batch size, \<open>None\<close> where decoding fails\<close>

record parquet_io =
  pq_write :: "(string \<times> data_type \<times> bool) list \<Rightarrow> cursor_batch \<Rightarrow> (string \<times> string) list \<Rightarrow> string option"
    \<comment> \<open>\<open>ArrowWriter\<close> with default properties and the given key-value metadata\<close>
  pq_read :: "string \<Rightarrow> cursor_file option"
    \<comment> \<open>\<open>ParquetRecordBatchReaderBuilder::try_new(bytes)\<close>\<close>

section \<open>Effective encoding of byte fields\<close>

fun encode_bytes_label :: "encode_bytes \<Rightarrow> string" where
  "encode_bytes_label EBinary = ''binary''"
| "encode_bytes_label EHex = ''hex''"
| "encode_bytes_label EHexNoPrefix = ''hex_no_prefix''"
| "encode_bytes_label EBase58 = ''base58''"
| "encode_bytes_label ETronBase58 = ''tron_base58''"

definition block_id_encoding_to_bytes_encoding :: "string \<Rightarrow> encode_bytes option" where
  "block_id_encoding_to_bytes_encoding encoding =
     (if encoding = ''hex'' \<or> encoding = ''hex_0x'' then Some EHex
      else if encoding = ''base58'' then Some EBase58 else None)"

definition eq_ignore_ascii_case :: "string \<Rightarrow> string \<Rightarrow> bool" where
  "eq_ignore_ascii_case s t \<longleftrightarrow> map ascii_lower s = map ascii_lower t"

definition is_tron_style_chain_name :: "string \<Rightarrow> bool" where
  "is_tron_style_chain_name chain_name \<longleftrightarrow>
     eq_ignore_ascii_case chain_name ''tron'' \<or> eq_ignore_ascii_case chain_name ''tron-evm''"

definition get_metadata :: "cursor_state \<Rightarrow> string \<Rightarrow> string option" where
  "get_metadata st key = map_of (cs_file_metadata st) key"

definition metadata_has_tron_style_chain :: "cursor_state \<Rightarrow> bool" where
  "metadata_has_tron_style_chain st \<longleftrightarrow>
     (case get_metadata st ''firehose-parquet.chain_name'' of None \<Rightarrow> False | Some name \<Rightarrow> is_tron_style_chain_name name) \<or>
     (case get_metadata st ''firehose-parquet.chain_name_aliases'' of
        None \<Rightarrow> False | Some aliases \<Rightarrow> list_ex is_tron_style_chain_name (split_on CHR '','' aliases))"

definition block_type_default_bytes_encoding :: "string \<Rightarrow> bool \<Rightarrow> encode_bytes option" where
  "block_type_default_bytes_encoding block_type tron_style_evm_profile =
     (if block_type = ''evm'' \<and> tron_style_evm_profile then Some ETronBase58
      else if block_type \<in> {''evm'', ''bitcoin'', ''cosmos'', ''beacon'', ''sec'', ''hypercore''} then Some EHex
      else if block_type = ''antelope'' then Some EHexNoPrefix
      else if block_type \<in> {''solana'', ''near''} then Some EBase58
      else if block_type = ''tron'' then Some ETronBase58
      else None)"

definition resolve_auto_bytes_encoding :: "cursor_state \<Rightarrow> encode_bytes" where
  "resolve_auto_bytes_encoding st =
     (let hint = (case Option.bind (get_metadata st ''firehose-parquet.block_id_encoding'') block_id_encoding_to_bytes_encoding of
            None \<Rightarrow> EHex | Some encoding \<Rightarrow> encoding) in
      case get_metadata st ''firehose-parquet.block_type'' of
        None \<Rightarrow> hint
      | Some block_type \<Rightarrow>
          (case block_type_default_bytes_encoding block_type (metadata_has_tron_style_chain st) of
             None \<Rightarrow> hint | Some encoding \<Rightarrow> encoding))"

definition effective_bytes_encoding_label :: "cursor_state \<Rightarrow> string \<Rightarrow> string" where
  "effective_bytes_encoding_label st raw =
     (case parse_encode_bytes raw of
        Some encoding \<Rightarrow> encode_bytes_label encoding
      | None \<Rightarrow>
          if eq_ignore_ascii_case raw ''auto'' then encode_bytes_label (resolve_auto_bytes_encoding st) else raw)"

section \<open>Rows and metadata\<close>

definition parse_cursor_metadata_bool :: "string \<Rightarrow> bool option" where
  "parse_cursor_metadata_bool v = (if v = ''true'' then Some True else if v = ''false'' then Some False else None)"

definition cursor_metadata_bool :: "cursor_state \<Rightarrow> string \<Rightarrow> bool \<Rightarrow> bool" where
  "cursor_metadata_bool st key legacy_value =
     (case Option.bind (get_metadata st key) parse_cursor_metadata_bool of None \<Rightarrow> legacy_value | Some b \<Rightarrow> b)"

definition to_record_batch :: "cursor_state \<Rightarrow> cursor_batch" where
  "to_record_batch st = \<lparr> cb_rows = 1, cb_columns =
     [(''cursor'', AUtf8 [Some (cs_cursor st)]), (''last_block_num'', AUInt64 [Some (cs_last_block_num st)]),
      (''last_block_id'', ABinary [Some (cs_last_block_id st)]), (''last_timestamp'', AInt64 [cs_last_timestamp st]),
      (''updated_at'', AUtf8 [Some (cs_updated_at st)]), (''start_block'', AUInt64 [cs_start_block st]),
      (''stop_block'', AUInt64 [cs_stop_block st])] \<rparr>"

definition bool_text :: "bool \<Rightarrow> string" where
  "bool_text b = (if b then ''true'' else ''false'')"

definition normalized_keys :: "string list" where
  "normalized_keys =
     [CURSOR_METADATA_EXTENDED, CURSOR_METADATA_FINAL_BLOCKS_ONLY, CURSOR_METADATA_INCLUDE_FAILED_TRANSACTIONS,
      CURSOR_METADATA_SYNTHETIC_TIMESTAMPS, CURSOR_METADATA_SYNTHETIC_TIMESTAMP_POLICY]"

definition writer_properties :: "cursor_state \<Rightarrow> (string \<times> string) list" where
  "writer_properties st =
     filter (\<lambda>(key, _). key \<notin> set normalized_keys) (cs_file_metadata st) @
     [(CURSOR_METADATA_EXTENDED, bool_text (cs_extended st)),
      (CURSOR_METADATA_FINAL_BLOCKS_ONLY, bool_text (cs_final_blocks_only st)),
      (CURSOR_METADATA_INCLUDE_FAILED_TRANSACTIONS, bool_text (cs_include_failed_transactions st))]"

section \<open>Comparing the parameters of two runs\<close>

definition option_debug :: "nat option \<Rightarrow> string" where
  "option_debug v = (case v of None \<Rightarrow> ''None'' | Some n \<Rightarrow> ''Some('' @ dec n @ '')'')"

definition compare_blocks :: "string \<Rightarrow> nat option \<Rightarrow> nat option \<Rightarrow> string list" where
  "compare_blocks name stored current =
     (if stored \<noteq> current then [name @ '': cursor='' @ option_debug stored @ '' vs current='' @ option_debug current] else [])"

definition compare_flag :: "string \<Rightarrow> bool \<Rightarrow> bool \<Rightarrow> string list" where
  "compare_flag name stored current =
     (if stored \<noteq> current then [name @ '': cursor='' @ bool_text stored @ '' vs current='' @ bool_text current] else [])"

definition metadata_or_empty :: "cursor_state \<Rightarrow> string \<Rightarrow> string" where
  "metadata_or_empty st key = (case get_metadata st key of None \<Rightarrow> [] | Some v \<Rightarrow> v)"

definition compare_metadata :: "cursor_state \<Rightarrow> cursor_state \<Rightarrow> string \<Rightarrow> string list" where
  "compare_metadata st current key =
     (let stored = metadata_or_empty st key; now = metadata_or_empty current key;
          short_key = (case strip_prefix ''firehose-parquet.'' key of Some rest \<Rightarrow> rest | None \<Rightarrow> key) in
      if stored = [] then []
      else if key = ''firehose-parquet.bytes_encoding'' then
        let stored_effective = effective_bytes_encoding_label st stored;
            current_effective = effective_bytes_encoding_label current now in
        if stored_effective \<noteq> current_effective
        then [short_key @ '': cursor=\"'' @ stored_effective @ ''\" vs current=\"'' @ current_effective @ ''\"''] else []
      else if stored \<noteq> now then [short_key @ '': cursor=\"'' @ stored @ ''\" vs current=\"'' @ now @ ''\"''] else [])"

definition validate_params :: "cursor_state \<Rightarrow> cursor_state \<Rightarrow> string list" where
  "validate_params st current =
     compare_blocks ''start_block'' (cs_start_block st) (cs_start_block current) @
     compare_blocks ''stop_block'' (cs_stop_block st) (cs_stop_block current) @
     compare_flag ''extended''
       (cursor_metadata_bool st CURSOR_METADATA_EXTENDED (cs_extended st))
       (cursor_metadata_bool current CURSOR_METADATA_EXTENDED (cs_extended current)) @
     compare_flag ''final_blocks_only''
       (cursor_metadata_bool st CURSOR_METADATA_FINAL_BLOCKS_ONLY (cs_final_blocks_only st))
       (cursor_metadata_bool current CURSOR_METADATA_FINAL_BLOCKS_ONLY (cs_final_blocks_only current)) @
     compare_flag ''include_failed_transactions''
       (cursor_metadata_bool st CURSOR_METADATA_INCLUDE_FAILED_TRANSACTIONS (cs_include_failed_transactions st))
       (cursor_metadata_bool current CURSOR_METADATA_INCLUDE_FAILED_TRANSACTIONS (cs_include_failed_transactions current)) @
     concat (map (compare_metadata st current)
       [''firehose-parquet.endpoint'', ''firehose-parquet.partition'', ''firehose-parquet.compression'',
        ''firehose-parquet.bytes_encoding''])"

section \<open>Reading and writing\<close>

fun first_value :: "'a option list \<Rightarrow> 'a option" where
  "first_value [] = None"
| "first_value (v # _) = v"

definition column :: "cursor_batch \<Rightarrow> string \<Rightarrow> cursor_array option" where
  "column b name = map_of (cb_columns b) name"

definition get_str :: "cursor_batch \<Rightarrow> string \<Rightarrow> string" where
  "get_str b name = (case column b name of Some (AUtf8 vs) \<Rightarrow> (case first_value vs of Some s \<Rightarrow> s | None \<Rightarrow> []) | _ \<Rightarrow> [])"

definition get_opt_u64 :: "cursor_batch \<Rightarrow> string \<Rightarrow> nat option" where
  "get_opt_u64 b name = (case column b name of Some (AUInt64 vs) \<Rightarrow> first_value vs | _ \<Rightarrow> None)"

definition get_u64 :: "cursor_batch \<Rightarrow> string \<Rightarrow> nat" where
  "get_u64 b name = (case get_opt_u64 b name of Some n \<Rightarrow> n | None \<Rightarrow> 0)"

definition get_opt_i64 :: "cursor_batch \<Rightarrow> string \<Rightarrow> int option" where
  "get_opt_i64 b name = (case column b name of Some (AInt64 vs) \<Rightarrow> first_value vs | _ \<Rightarrow> None)"

definition get_bool :: "cursor_batch \<Rightarrow> string \<Rightarrow> bool" where
  "get_bool b name = (case column b name of Some (ABoolean vs) \<Rightarrow> first_value vs = Some True | _ \<Rightarrow> False)"

definition get_bytes :: "cursor_batch \<Rightarrow> string \<Rightarrow> bytes" where
  "get_bytes b name =
     (case column b name of
        Some (ABinary vs) \<Rightarrow> (case first_value vs of Some bytes \<Rightarrow> bytes | None \<Rightarrow> [])
      | Some (AUtf8 vs) \<Rightarrow> (case first_value vs of Some s \<Rightarrow> map (\<lambda>ch. of_nat (byte ch)) s | None \<Rightarrow> [])
      | _ \<Rightarrow> [])"

definition flag_of :: "(string \<times> string) list \<Rightarrow> string \<Rightarrow> bool \<Rightarrow> bool" where
  "flag_of entries key row = (case Option.bind (map_of entries key) parse_cursor_metadata_bool of None \<Rightarrow> row | Some b \<Rightarrow> b)"

definition metadata_entries :: "(string \<times> string option) list option \<Rightarrow> (string \<times> string) list" where
  "metadata_entries kvs =
     (case kvs of None \<Rightarrow> [] | Some kvs \<Rightarrow> List.map_filter (\<lambda>(key, v). map_option (Pair key) v) kvs)"

definition from_record_batch :: "cursor_batch \<Rightarrow> (string \<times> string option) list option \<Rightarrow> cursor_state result" where
  "from_record_batch b kvs =
     (if cb_rows b = 0 then bail ''cursor.parquet contains no rows''
      else if \<not> (case column b ''cursor'' of Some (AUtf8 _) \<Rightarrow> True | _ \<Rightarrow> False)
      then bail ''not a cursor file: missing Utf8 `cursor` column''
      else
        let entries = metadata_entries kvs in
        Inr \<lparr> cs_cursor = get_str b ''cursor'', cs_last_block_num = get_u64 b ''last_block_num'',
          cs_last_block_id = get_bytes b ''last_block_id'', cs_last_timestamp = get_opt_i64 b ''last_timestamp'',
          cs_updated_at = get_str b ''updated_at'', cs_start_block = get_opt_u64 b ''start_block'',
          cs_stop_block = get_opt_u64 b ''stop_block'',
          cs_extended = flag_of entries CURSOR_METADATA_EXTENDED (get_bool b ''extended''),
          cs_final_blocks_only = flag_of entries CURSOR_METADATA_FINAL_BLOCKS_ONLY (get_bool b ''final_blocks_only''),
          cs_include_failed_transactions =
            flag_of entries CURSOR_METADATA_INCLUDE_FAILED_TRANSACTIONS (get_bool b ''include_failed_transactions''),
          cs_file_metadata = entries \<rparr>)"

definition encode_cursor :: "parquet_io \<Rightarrow> cursor_state \<Rightarrow> string result" where
  "encode_cursor io st =
     some_or (pq_write io cursor_schema (to_record_batch st) (writer_properties st)) ''writing cursor parquet''"

definition DEFAULT_BATCH_SIZE :: nat where
  "DEFAULT_BATCH_SIZE = 1024"

definition parse_cursor :: "parquet_io \<Rightarrow> string \<Rightarrow> cursor_state option result" where
  "parse_cursor io bytes =
     bindR (some_or (pq_read io bytes) ''reading parquet metadata'') (\<lambda>f.
     case cf_batches f DEFAULT_BATCH_SIZE of
       [] \<Rightarrow> Inr None
     | None # _ \<Rightarrow> bail ''reading cursor row''
     | Some batch # _ \<Rightarrow>
         bindR (from_record_batch batch (cf_metadata f)) (\<lambda>st.
         Inr (if cs_cursor st = [] then None else Some st)))"

section \<open>Laws of the Parquet crate\<close>

definition ARROW_SCHEMA_META_KEY :: string where
  "ARROW_SCHEMA_META_KEY = ''ARROW:schema''"

text \<open>
  A file written with default properties from one row reads back as it was written: its schema, its
  metadata followed by the serialized Arrow schema, one uncompressed row group, per column one value in a
  data page after at most one dictionary page, and the row itself.
\<close>

definition one_value :: "page option list \<Rightarrow> bool" where
  "one_value ps \<longleftrightarrow> length ps \<le> 2 \<and> list_all (\<lambda>q. \<exists>g. q = Some g \<and> pg_values g \<le> 1) ps \<and>
     sum_list (map (\<lambda>g. if pg_data g then pg_values g else 0) (List.map_filter id ps)) = 1"

definition one_row_group :: "row_group \<Rightarrow> bool" where
  "one_row_group g \<longleftrightarrow> list_all (\<lambda>(uncompressed, n). uncompressed \<and> 0 \<le> n) (rg_columns g) \<and> 0 \<le> rg_total_byte_size g \<and>
     list_all (\<lambda>ps. \<exists>qs. ps = Some qs \<and> one_value qs) (rg_pages g)"

locale parquet_crate =
  fixes io :: parquet_io
  assumes read_written: "pq_write io schema b kvs = Some bytes \<Longrightarrow> cb_rows b = 1 \<Longrightarrow>
    \<exists>f g arrow. pq_read io bytes = Some f \<and> cf_schema f = schema \<and> cf_rows f = 1 \<and> cf_groups f = [g] \<and> one_row_group g \<and>
      cf_metadata f = Some (map (\<lambda>(k, v). (k, Some v)) kvs @ [(ARROW_SCHEMA_META_KEY, Some arrow)]) \<and>
      (\<forall>n. 0 < n \<longrightarrow> cf_batches f n = [Some b])"

section \<open>Lemmas\<close>

definition reloaded :: "cursor_state \<Rightarrow> string \<Rightarrow> cursor_state" where
  "reloaded st schema = st\<lparr> cs_file_metadata := writer_properties st @ [(ARROW_SCHEMA_META_KEY, schema)] \<rparr>"

lemma metadata_entries_written:
  "metadata_entries (Some (map (\<lambda>(k, v). (k, Some v)) kvs @ [(key, Some v)])) = kvs @ [(key, v)]"
  by (induction kvs) (auto simp: metadata_entries_def List.map_filter_def)

lemma parse_bool_text [simp]: "parse_cursor_metadata_bool (bool_text b) = Some b"
  by (simp add: parse_cursor_metadata_bool_def bool_text_def)

lemma map_of_filter_keys: "map_of (filter (\<lambda>(k, _). k \<notin> K) xs) k = (if k \<in> K then None else map_of xs k)"
  by (induction xs) auto

lemmas key_defs = normalized_keys_def CURSOR_METADATA_EXTENDED_def CURSOR_METADATA_FINAL_BLOCKS_ONLY_def
  CURSOR_METADATA_INCLUDE_FAILED_TRANSACTIONS_def CURSOR_METADATA_SYNTHETIC_TIMESTAMPS_def
  CURSOR_METADATA_SYNTHETIC_TIMESTAMP_POLICY_def ARROW_SCHEMA_META_KEY_def

lemma keys_distinct: "distinct normalized_keys"
  by (simp add: key_defs)

lemma written_metadata:
  "map_of (writer_properties st @ rest) key =
     (if key = CURSOR_METADATA_EXTENDED then Some (bool_text (cs_extended st))
      else if key = CURSOR_METADATA_FINAL_BLOCKS_ONLY then Some (bool_text (cs_final_blocks_only st))
      else if key = CURSOR_METADATA_INCLUDE_FAILED_TRANSACTIONS then Some (bool_text (cs_include_failed_transactions st))
      else if key \<in> set normalized_keys then map_of rest key
      else case map_of (cs_file_metadata st) key of None \<Rightarrow> map_of rest key | Some v \<Rightarrow> Some v)"
proof -
  have "{CURSOR_METADATA_EXTENDED, CURSOR_METADATA_FINAL_BLOCKS_ONLY, CURSOR_METADATA_INCLUDE_FAILED_TRANSACTIONS} \<subseteq> set normalized_keys"
    by (simp add: normalized_keys_def)
  moreover have "CURSOR_METADATA_EXTENDED \<noteq> CURSOR_METADATA_FINAL_BLOCKS_ONLY" "CURSOR_METADATA_EXTENDED \<noteq> CURSOR_METADATA_INCLUDE_FAILED_TRANSACTIONS"
    "CURSOR_METADATA_FINAL_BLOCKS_ONLY \<noteq> CURSOR_METADATA_INCLUDE_FAILED_TRANSACTIONS"
    using keys_distinct by (auto simp: normalized_keys_def)
  ultimately show ?thesis
    by (auto simp: writer_properties_def map_add_def map_of_filter_keys split: option.splits)
qed

lemma written_flags:
  "flag_of (writer_properties st @ rest) CURSOR_METADATA_EXTENDED b = cs_extended st"
  "flag_of (writer_properties st @ rest) CURSOR_METADATA_FINAL_BLOCKS_ONLY b = cs_final_blocks_only st"
  "flag_of (writer_properties st @ rest) CURSOR_METADATA_INCLUDE_FAILED_TRANSACTIONS b = cs_include_failed_transactions st"
  by (simp_all add: flag_of_def written_metadata key_defs del: map_of_append)

lemma from_written:
  "from_record_batch (to_record_batch st) (Some (map (\<lambda>(k, v). (k, Some v)) (writer_properties st) @ [(ARROW_SCHEMA_META_KEY, Some schema)])) =
     Inr (reloaded st schema)"
  by (simp add: from_record_batch_def metadata_entries_written written_flags to_record_batch_def column_def get_str_def get_u64_def
      get_opt_u64_def get_bytes_def get_opt_i64_def reloaded_def)

lemma reloaded_metadata:
  "key \<notin> set normalized_keys \<Longrightarrow> key \<noteq> ARROW_SCHEMA_META_KEY \<Longrightarrow> get_metadata (reloaded st schema) key = get_metadata st key"
  by (auto simp: get_metadata_def reloaded_def written_metadata normalized_keys_def simp del: map_of_append split: option.splits)

text \<open>The flags in the metadata of a run agree with its options, where the metadata has them.\<close>

definition flags_agree :: "cursor_state \<Rightarrow> bool" where
  "flags_agree st \<longleftrightarrow>
     cursor_metadata_bool st CURSOR_METADATA_EXTENDED (cs_extended st) = cs_extended st \<and>
     cursor_metadata_bool st CURSOR_METADATA_FINAL_BLOCKS_ONLY (cs_final_blocks_only st) = cs_final_blocks_only st \<and>
     cursor_metadata_bool st CURSOR_METADATA_INCLUDE_FAILED_TRANSACTIONS (cs_include_failed_transactions st) =
       cs_include_failed_transactions st"

lemma reloaded_flags:
  "cursor_metadata_bool (reloaded st schema) CURSOR_METADATA_EXTENDED b = cs_extended st"
  "cursor_metadata_bool (reloaded st schema) CURSOR_METADATA_FINAL_BLOCKS_ONLY b = cs_final_blocks_only st"
  "cursor_metadata_bool (reloaded st schema) CURSOR_METADATA_INCLUDE_FAILED_TRANSACTIONS b = cs_include_failed_transactions st"
  using written_flags [of st "[(ARROW_SCHEMA_META_KEY, schema)]" b]
  by (simp_all add: cursor_metadata_bool_def flag_of_def get_metadata_def reloaded_def del: map_of_append)

lemma reloaded_label: "effective_bytes_encoding_label (reloaded st schema) = effective_bytes_encoding_label st"
proof -
  have "get_metadata (reloaded st schema) k = get_metadata st k"
    if "k \<in> {''firehose-parquet.chain_name'', ''firehose-parquet.chain_name_aliases'', ''firehose-parquet.block_id_encoding'', ''firehose-parquet.block_type''}" for k
    using that by (intro reloaded_metadata) (auto simp: key_defs)
  note same = this
  have "metadata_has_tron_style_chain (reloaded st schema) = metadata_has_tron_style_chain st"
    by (simp add: metadata_has_tron_style_chain_def same)
  then have "resolve_auto_bytes_encoding (reloaded st schema) = resolve_auto_bytes_encoding st"
    by (simp add: resolve_auto_bytes_encoding_def same Let_def cong: option.case_cong)
  then show ?thesis by (auto simp: effective_bytes_encoding_label_def split: option.splits)
qed

lemma reloaded_compare:
  assumes "key \<in> {''firehose-parquet.endpoint'', ''firehose-parquet.partition'', ''firehose-parquet.compression'', ''firehose-parquet.bytes_encoding''}"
  shows "compare_metadata (reloaded st schema) current key = compare_metadata st current key"
proof -
  have "get_metadata (reloaded st schema) key = get_metadata st key" by (rule reloaded_metadata) (use assms in \<open>auto simp: key_defs\<close>)
  then show ?thesis by (simp add: compare_metadata_def metadata_or_empty_def reloaded_label Let_def)
qed

lemma reloaded_params: "flags_agree st \<Longrightarrow> validate_params (reloaded st schema) current = validate_params st current"
  by (simp add: validate_params_def reloaded_flags reloaded_compare flags_agree_def) (simp add: reloaded_def)

lemma validate_params_same: "validate_params st st = []"
  by (simp add: validate_params_def compare_blocks_def compare_flag_def compare_metadata_def Let_def)

context parquet_crate
begin

lemma parse_encoded:
  assumes "encode_cursor io st = Inr bytes"
  obtains schema where "parse_cursor io bytes = Inr (if cs_cursor st = [] then None else Some (reloaded st schema))"
proof -
  have w: "pq_write io cursor_schema (to_record_batch st) (writer_properties st) = Some bytes" "cb_rows (to_record_batch st) = 1"
    using assms by (simp_all add: encode_cursor_def to_record_batch_def)
  obtain f schema where "pq_read io bytes = Some f"
    "cf_metadata f = Some (map (\<lambda>(k, v). (k, Some v)) (writer_properties st) @ [(ARROW_SCHEMA_META_KEY, Some schema)])"
    "\<forall>n. 0 < n \<longrightarrow> cf_batches f n = [Some (to_record_batch st)]"
    using read_written [OF w] by blast
  then have "parse_cursor io bytes = Inr (if cs_cursor st = [] then None else Some (reloaded st schema))"
    by (simp add: parse_cursor_def from_written DEFAULT_BATCH_SIZE_def) (simp add: reloaded_def)
  then show ?thesis by (rule that)
qed

end

section \<open>A codec\<close>

text \<open>A Parquet library that knows one file, and writes what it can read.\<close>

definition sample_cursor :: cursor_state where
  "sample_cursor = \<lparr> cs_cursor = ''c7'', cs_last_block_num = 7, cs_last_block_id = [0x17], cs_last_timestamp = Some 1700000000,
     cs_updated_at = ''2026-01-01T00:00:00Z'', cs_start_block = Some 0, cs_stop_block = None, cs_extended = True,
     cs_final_blocks_only = True, cs_include_failed_transactions = False,
     cs_file_metadata = [(''firehose-parquet.chain_name'', ''tron-evm''), (''firehose-parquet.block_type'', ''evm''),
       (''firehose-parquet.bytes_encoding'', ''auto''), (''firehose-parquet.extended'', ''true'')] \<rparr>"

definition single_file :: "(string \<times> data_type \<times> bool) list \<Rightarrow> cursor_batch \<Rightarrow> (string \<times> string) list \<Rightarrow> cursor_file" where
  "single_file schema b kvs = \<lparr> cf_rows = 1,
     cf_groups = [\<lparr> rg_columns = map (\<lambda>_. (True, 32)) schema, rg_total_byte_size = 32 * int (length schema),
       rg_pages = map (\<lambda>_. Some [Some \<lparr> pg_values = 1, pg_buffer = 32, pg_data = True \<rparr>]) schema \<rparr>],
     cf_schema = schema, cf_metadata = Some (map (\<lambda>(k, v). (k, Some v)) kvs @ [(ARROW_SCHEMA_META_KEY, Some ''schema'')]),
     cf_batches = (\<lambda>n. if n = 0 then [] else [Some b]) \<rparr>"

definition single_io :: "cursor_state \<Rightarrow> parquet_io" where
  "single_io st = \<lparr>
     pq_write = (\<lambda>schema b kvs. if (schema, b, kvs) = (cursor_schema, to_record_batch st, writer_properties st) then Some ''PAR1'' else None),
     pq_read = (\<lambda>bytes. if bytes = ''PAR1'' then Some (single_file cursor_schema (to_record_batch st) (writer_properties st)) else None) \<rparr>"

lemma single_io_laws: "parquet_crate (single_io st)"
  by unfold_locales
    (auto simp: single_io_def single_file_def one_row_group_def one_value_def list_all_iff List.map_filter_def split: if_splits)

interpretation sample: parquet_crate "single_io sample_cursor"
  by (rule single_io_laws)

section \<open>Properties\<close>

text \<open>The row of a cursor: all but the metadata of the file.\<close>

definition same_row :: "cursor_state \<Rightarrow> cursor_state \<Rightarrow> bool" where
  "same_row st st' \<longleftrightarrow> st'\<lparr> cs_file_metadata := cs_file_metadata st \<rparr> = st"



end
