(* ===== verification/Mirror_File.thy ===== *)
theory Mirror_File
  imports Control_Store Cursor
begin

text \<open>
  The contents of a cursor mirror (\<open>ingest/mirror.rs\<close>): a cursor file whose metadata carries an envelope
  with a checkpoint of the authority. Encoding derives the whole file from the authority; decoding
  accepts a file only if every value of it is what the envelope implies, so that a mirror can be compared
  with the authority by its checkpoint. Shown: a written mirror decodes to its envelope, and an envelope
  that decodes from a written file is the one that was written.
\<close>

section \<open>Envelope\<close>

definition MIRROR_VERSION :: nat where
  "MIRROR_VERSION = 1"

definition ENVELOPE_KEY :: string where
  "ENVELOPE_KEY = ''fireparq.ingest.mirror''"

definition MAX_MIRROR_BYTES :: nat where
  "MAX_MIRROR_BYTES = 4 * 1024 * 1024"

definition MAX_ROW_BYTES :: int where
  "MAX_ROW_BYTES = 512 * 1024"

record mirror_envelope =
  me_format_version :: nat
  me_stream_id :: digest
  me_checkpoint :: checkpoint
  me_updated_at :: string
  me_sha256 :: digest

record mirror_codec =
  mc_parquet :: parquet_io
  mc_bytes :: byte_codec
  mc_text :: "mirror_envelope \<Rightarrow> string"
    \<comment> \<open>\<open>serde_json::to_string\<close> of an envelope\<close>
  mc_parse :: "string \<Rightarrow> mirror_envelope option"
  mc_rfc3339 :: "string \<Rightarrow> bool"
    \<comment> \<open>\<open>OffsetDateTime::parse(text, Rfc3339).is_ok()\<close>\<close>

definition envelope_digest :: "ext \<Rightarrow> mirror_envelope \<Rightarrow> digest" where
  "envelope_digest x env = digest_hash x ''cursor-mirror''
     (JArr [JNum (int (me_format_version env)), digest_json (me_stream_id env), checkpoint_json (me_checkpoint env),
       JStr (me_updated_at env)])"

definition envelope_new :: "ext \<Rightarrow> string option \<Rightarrow> authority_state \<Rightarrow> mirror_envelope result" where
  "envelope_new x now authority =
     bindR (descriptor_id x (au_descriptor authority)) (\<lambda>stream.
     bindR (some_or now ''could not format mirror update time'') (\<lambda>updated_at.
     let env = \<lparr> me_format_version = MIRROR_VERSION, me_stream_id = stream, me_checkpoint = au_checkpoint authority,
           me_updated_at = updated_at, me_sha256 = cp_id (au_checkpoint authority) \<rparr> in
     Inr (env\<lparr> me_sha256 := envelope_digest x env \<rparr>)))"

definition envelope_validate :: "ext \<Rightarrow> mirror_codec \<Rightarrow> mirror_envelope \<Rightarrow> stream_descriptor \<Rightarrow> unit result" where
  "envelope_validate x k env d =
     bindR (require (me_format_version env = MIRROR_VERSION) ''unsupported protected mirror version'') (\<lambda>_.
     bindR (descriptor_id x d) (\<lambda>stream.
     bindR (require (me_stream_id env = stream) ''protected mirror belongs to another stream'') (\<lambda>_.
     bindR (require (is_ok (checkpoint_validate x (me_checkpoint env) d)) ''protected mirror checkpoint is invalid'') (\<lambda>_.
     bindR (require (0 < cp_ordinal (me_checkpoint env)) ''protected mirror cannot represent an unaccepted prefix'') (\<lambda>_.
     bindR (require (length (me_updated_at env) \<le> 64 \<and> mc_rfc3339 k (me_updated_at env))
       ''protected mirror update time is invalid'') (\<lambda>_.
     require (envelope_digest x env = me_sha256 env) ''protected mirror checksum mismatch''))))))"

section \<open>When a mirror is repaired\<close>

definition completion_extended :: "nat option \<Rightarrow> nat option \<Rightarrow> bool" where
  "completion_extended stored target =
     (case (stored, target) of (None, Some _) \<Rightarrow> True | (Some old, Some new) \<Rightarrow> old < new | _ \<Rightarrow> False)"

definition needs_repair :: "authority_state \<Rightarrow> mirror_envelope option \<Rightarrow> bool result" where
  "needs_repair authority current =
     (let target = au_checkpoint authority in
      if cp_ordinal target = 0
      then bindR (require (current = None) ''empty authority cannot adopt an existing mirror'') (\<lambda>_. Inr False)
      else case current of
        None \<Rightarrow> Inr True
      | Some env \<Rightarrow>
          let stored = me_checkpoint env in
          if stored = target then Inr False
          else bindR (require (cp_ordinal stored \<le> cp_ordinal target) ''protected mirror is ahead of mandatory authority'') (\<lambda>_.
            if cp_ordinal stored < cp_ordinal target then Inr True
            else bindR (require (cp_previous target = Some (cp_id stored) \<and> cp_event stored = cp_event target \<and>
                cp_routing stored = cp_routing target \<and>
                completion_extended (cp_completed_stop stored) (cp_completed_stop target))
              ''same-ordinal mirror conflicts with mandatory authority'') (\<lambda>_. Inr True)))"

section \<open>Contents\<close>

fun family_name :: "block_family \<Rightarrow> string" where
  "family_name Evm = ''evm''"
| "family_name Bitcoin = ''bitcoin''"
| "family_name Solana = ''solana''"
| "family_name Near = ''near''"
| "family_name Antelope = ''antelope''"
| "family_name Cosmos = ''cosmos''"
| "family_name Tron = ''tron''"
| "family_name Beacon = ''beacon''"
| "family_name Sec = ''sec''"
| "family_name Hypercore = ''hypercore''"

fun partition_name :: "partition_policy \<Rightarrow> string" where
  "partition_name DatePolicy = ''date''"

text \<open>A \<open>BTreeMap\<close>: the entries in the order of their keys.\<close>

definition expected_config :: "stream_descriptor \<Rightarrow> (string \<times> string) list" where
  "expected_config d = map (\<lambda>(key, v). (''firehose-parquet.'' @ key, v))
     [(''block_type'', family_name (sd_family d)), (''bytes_encoding'', sd_bytes_encoding d), (''chain_name'', sd_chain d),
      (''extended'', bool_text (sd_extended d)), (''final_blocks_only'', bool_text (sd_final_blocks_only d)),
      (''include_failed_transactions'', bool_text (sd_include_failed_transactions d)),
      (''mapper_epoch'', sd_mapper_epoch d), (''partition'', partition_name (sd_partition d)),
      (''with_votes'', bool_text (sd_with_votes d))]"

definition expected_state :: "mirror_codec \<Rightarrow> mirror_envelope \<Rightarrow> stream_descriptor \<Rightarrow> cursor_state result" where
  "expected_state k env d =
     bindR (some_or (cp_event (me_checkpoint env)) ''mirror has no accepted event'') (\<lambda>event.
     Inr \<lparr> cs_cursor = ev_cursor event, cs_last_block_num = ev_block_num event,
       cs_last_block_id = decode_id_bytes (mc_bytes k) (ev_block_id event),
       cs_last_timestamp = (case rc_anchor (cp_routing (me_checkpoint env)) of
          Some anchor \<Rightarrow> Some (an_seconds anchor) | None \<Rightarrow> ev_source_timestamp event),
       cs_updated_at = me_updated_at env, cs_start_block = Some (sd_origin_start d),
       cs_stop_block = cp_completed_stop (me_checkpoint env), cs_extended = sd_extended d,
       cs_final_blocks_only = sd_final_blocks_only d,
       cs_include_failed_transactions = sd_include_failed_transactions d,
       cs_file_metadata = expected_config d @
         [(ENVELOPE_KEY, mc_text k env), (''fireparq.ingest.stream_id'', digest_str (me_stream_id env)),
          (''fireparq.ingest.checkpoint_id'', digest_str (cp_id (me_checkpoint env))),
          (''fireparq.ingest.ordinal'', dec (cp_ordinal (me_checkpoint env)))] \<rparr>)"

text \<open>The parameters a protected run resumes with.\<close>

definition resume_parameters :: "ext \<Rightarrow> mirror_codec \<Rightarrow> string option \<Rightarrow> authority_state \<Rightarrow> cursor_state result" where
  "resume_parameters x k now authority =
     bindR (authority_validate x authority) (\<lambda>_.
     if cp_event (au_checkpoint authority) \<noteq> None
     then bindR (envelope_new x now authority) (\<lambda>env. expected_state k env (au_descriptor authority))
     else
       let d = au_descriptor authority in
       Inr \<lparr> cs_cursor = [], cs_last_block_num = 0, cs_last_block_id = [], cs_last_timestamp = None, cs_updated_at = [],
         cs_start_block = Some (sd_origin_start d), cs_stop_block = None, cs_extended = sd_extended d,
         cs_final_blocks_only = sd_final_blocks_only d, cs_include_failed_transactions = sd_include_failed_transactions d,
         cs_file_metadata = expected_config d \<rparr>)"

definition mirror_encode :: "ext \<Rightarrow> mirror_codec \<Rightarrow> string option \<Rightarrow> authority_state \<Rightarrow> string result" where
  "mirror_encode x k now authority =
     bindR (envelope_new x now authority) (\<lambda>env.
     bindR (envelope_validate x k env (au_descriptor authority)) (\<lambda>_.
     bindR (expected_state k env (au_descriptor authority)) (\<lambda>st.
     bindR (encode_cursor (mc_parquet k) st) (\<lambda>bytes.
     bindR (require (length bytes \<le> MAX_MIRROR_BYTES) ''protected mirror exceeds byte limit'') (\<lambda>_. Inr bytes)))))"

section \<open>Decoding\<close>

definition i64_checked_add :: "int \<Rightarrow> int \<Rightarrow> int option" where
  "i64_checked_add a b = (if - (int i64_max) - 1 \<le> a + b \<and> a + b \<le> int i64_max then Some (a + b) else None)"

fun add_column :: "int \<Rightarrow> bool \<times> int \<Rightarrow> int result" where
  "add_column acc (uncompressed, n) =
     bindR (require uncompressed ''protected mirror compression is unsupported'') (\<lambda>_.
     bindR (require (0 \<le> n) ''invalid mirror column size'') (\<lambda>_.
     some_or (i64_checked_add acc n) ''mirror column size overflow''))"

definition check_columns :: "(bool \<times> int) list \<Rightarrow> int result" where
  "check_columns columns = foldR add_column 0 columns"

fun add_metadata :: "(string \<times> string) list \<Rightarrow> string \<times> string option \<Rightarrow> (string \<times> string) list result" where
  "add_metadata vals (key, v) =
     bindR (some_or v ''protected mirror metadata value is missing'') (\<lambda>v.
     bindR (require (map_of vals key = None) ''duplicate protected mirror metadata key'') (\<lambda>_.
     Inr (vals @ [(key, v)])))"

definition collect_metadata :: "(string \<times> string option) list \<Rightarrow> (string \<times> string) list result" where
  "collect_metadata kvs = foldR add_metadata [] kvs"

fun check_pages :: "nat \<Rightarrow> nat \<Rightarrow> page option list \<Rightarrow> unit result" where
  "check_pages page_count data_values [] =
     require (data_values = 1) ''protected mirror column does not contain one value''"
| "check_pages page_count data_values (None # _) = bail ''invalid protected mirror page''"
| "check_pages page_count data_values (Some q # ps) =
     bindR (require (Suc page_count \<le> 2 \<and> pg_values q \<le> 1 \<and> int (pg_buffer q) \<le> MAX_ROW_BYTES)
       ''protected mirror page exceeds bounded row contract'') (\<lambda>_.
     check_pages (Suc page_count) (if pg_data q then data_values + pg_values q else data_values) ps)"

definition no_null :: "cursor_batch \<Rightarrow> string \<Rightarrow> unit result" where
  "no_null b name =
     bindR (some_or (column b name) ''protected mirror column missing'') (\<lambda>a.
     require (case a of AUtf8 vs \<Rightarrow> None \<notin> set vs | AUInt64 vs \<Rightarrow> None \<notin> set vs | ABinary vs \<Rightarrow> None \<notin> set vs
       | AInt64 vs \<Rightarrow> None \<notin> set vs | ABoolean vs \<Rightarrow> None \<notin> set vs) ''protected mirror required value is null'')"

definition row_matches :: "cursor_state \<Rightarrow> cursor_state \<Rightarrow> bool" where
  "row_matches actual expected \<longleftrightarrow>
     cs_cursor actual = cs_cursor expected \<and> cs_last_block_num actual = cs_last_block_num expected \<and>
     cs_last_block_id actual = cs_last_block_id expected \<and> cs_last_timestamp actual = cs_last_timestamp expected \<and>
     cs_updated_at actual = cs_updated_at expected \<and> cs_start_block actual = cs_start_block expected \<and>
     cs_stop_block actual = cs_stop_block expected \<and> cs_extended actual = cs_extended expected \<and>
     cs_final_blocks_only actual = cs_final_blocks_only expected \<and>
     cs_include_failed_transactions actual = cs_include_failed_transactions expected"

text \<open>The checks of the envelope and the metadata, and those of the row.\<close>

definition decode_envelope :: "ext \<Rightarrow> mirror_codec \<Rightarrow> stream_descriptor \<Rightarrow> (string \<times> string) list \<Rightarrow> (mirror_envelope \<times> cursor_state) result" where
  "decode_envelope x k d vals =
     bindR (some_or (map_of vals ENVELOPE_KEY) ''legacy cursor cannot substitute for protected mirror'') (\<lambda>raw.
     bindR (some_or (mc_parse k raw) ''invalid protected mirror envelope'') (\<lambda>env.
     bindR (envelope_validate x k env d) (\<lambda>_.
     bindR (expected_state k env d) (\<lambda>expected.
     bindR (for_each (\<lambda>(key, v). require (map_of vals key = Some v)
         ''protected mirror metadata disagrees with authoritative descriptor/checkpoint'') (cs_file_metadata expected)) (\<lambda>_.
     bindR (require (list_all (\<lambda>(key, _). key \<in> fst ` set (cs_file_metadata expected) \<or> key = ARROW_SCHEMA_META_KEY) vals)
       ''unknown protected mirror metadata key'') (\<lambda>_.
     Inr (env, expected)))))))"

definition decode_row :: "cursor_file \<Rightarrow> (string \<times> string option) list \<Rightarrow> cursor_state \<Rightarrow> unit result" where
  "decode_row f kvs expected =
     (case cf_batches f 2 of
        [] \<Rightarrow> bail ''protected mirror row is missing''
      | None # _ \<Rightarrow> bail ''decoding protected mirror row failed''
      | Some batch # rest \<Rightarrow>
          bindR (require (cb_rows batch = 1 \<and> rest = []) ''protected mirror has multiple rows'') (\<lambda>_.
          bindR (for_each (no_null batch) [''cursor'', ''last_block_num'', ''last_block_id'', ''updated_at'']) (\<lambda>_.
          bindR (from_record_batch batch (Some kvs)) (\<lambda>actual.
          require (row_matches actual expected) ''protected mirror row disagrees with its checkpoint''))))"

definition check_group :: "cursor_file \<Rightarrow> row_group result" where
  "check_group f =
     (case cf_groups f of
        [g] \<Rightarrow>
          bindR (require (cf_rows f = 1) ''protected mirror must contain exactly one row group and one row'') (\<lambda>_.
          bindR (check_columns (rg_columns g)) (\<lambda>uncompressed.
          bindR (require (0 \<le> rg_total_byte_size g \<and> rg_total_byte_size g \<le> MAX_ROW_BYTES \<and> uncompressed \<le> MAX_ROW_BYTES)
            ''mirror decoded row exceeds byte limit'') (\<lambda>_. Inr g)))
      | _ \<Rightarrow> bail ''protected mirror must contain exactly one row group and one row'')"

definition mirror_decode :: "ext \<Rightarrow> mirror_codec \<Rightarrow> string \<Rightarrow> stream_descriptor \<Rightarrow> mirror_envelope result" where
  "mirror_decode x k bytes d =
     bindR (require (length bytes \<le> MAX_MIRROR_BYTES) ''protected mirror exceeds byte limit'') (\<lambda>_.
     bindR (some_or (pq_read (mc_parquet k) bytes) ''invalid protected mirror Parquet metadata'') (\<lambda>f.
     bindR (check_group f) (\<lambda>g.
     bindR (require (cf_schema f = cursor_schema) ''protected mirror row schema differs from cursor contract'') (\<lambda>_.
     bindR (some_or (cf_metadata f) ''protected mirror metadata is absent'') (\<lambda>kvs.
     bindR (collect_metadata kvs) (\<lambda>vals.
     bindR (decode_envelope x k d vals) (\<lambda>(env, expected).
     bindR (for_each (\<lambda>ps. case ps of None \<Rightarrow> bail ''invalid protected mirror column pages'' | Some qs \<Rightarrow> check_pages 0 0 qs)
       (rg_pages g)) (\<lambda>_.
     bindR (decode_row f kvs expected) (\<lambda>_. Inr env)))))))))"

section \<open>Lemmas\<close>

lemma collect_written:
  "foldR add_metadata acc (map (\<lambda>(key, v). (key, Some v)) L) = Inr vals \<longleftrightarrow>
     vals = acc @ L \<and> distinct (map fst L) \<and> fst ` set acc \<inter> fst ` set L = {}"
proof (induction L arbitrary: acc)
  case (Cons kv L)
  obtain key v where kv: "kv = (key, v)" by (cases kv)
  then show ?case using Cons.IH [of "acc @ [kv]"] by (auto simp: bindR_eq_Inr map_of_eq_None_iff)
qed auto

lemma collect_metadata_written:
  "collect_metadata (map (\<lambda>(key, v). (key, Some v)) L) = Inr vals \<longleftrightarrow> vals = L \<and> distinct (map fst L)"
  by (simp add: collect_metadata_def collect_written)

lemma columns_checked:
  assumes "list_all (\<lambda>(uncompressed, n). uncompressed \<and> 0 \<le> n) cs" "0 \<le> t" "t + sum_list (map snd cs) \<le> MAX_ROW_BYTES"
  shows "foldR add_column t cs = Inr (t + sum_list (map snd cs))"
  using assms
proof (induction cs arbitrary: t)
  case (Cons c cs)
  obtain u n where c: "c = (u, n)" by (cases c)
  have "0 \<le> sum_list (map snd cs)" using Cons.prems(1) by (intro sum_list_nonneg) (auto simp: list_all_iff)
  then have "i64_checked_add t n = Some (t + n)" using Cons.prems c by (simp add: i64_checked_add_def i64_max_def MAX_ROW_BYTES_def)
  then show ?case using Cons.IH [of "t + n"] Cons.prems c by (simp add: algebra_simps)
qed simp

lemma pages_checked:
  assumes "list_all (\<lambda>q. \<exists>g. q = Some g \<and> pg_values g \<le> 1 \<and> int (pg_buffer g) \<le> MAX_ROW_BYTES) ps" "n + length ps \<le> 2"
    "v + sum_list (map (\<lambda>g. if pg_data g then pg_values g else 0) (List.map_filter id ps)) = 1"
  shows "check_pages n v ps = Inr ()"
  using assms
proof (induction ps arbitrary: n v)
  case (Cons q ps)
  then obtain g where q: "q = Some g" "pg_values g \<le> 1" "int (pg_buffer g) \<le> MAX_ROW_BYTES" by auto
  then show ?case using Cons.IH [of "Suc n" "if pg_data g then v + pg_values g else v"] Cons.prems
    by (auto simp: List.map_filter_def)
qed (simp add: List.map_filter_def)

lemma config_keys:
  "map fst (expected_config d) =
     map (\<lambda>key. ''firehose-parquet.'' @ key)
       [''block_type'', ''bytes_encoding'', ''chain_name'', ''extended'', ''final_blocks_only'', ''include_failed_transactions'',
        ''mapper_epoch'', ''partition'', ''with_votes'']"
  by (simp add: expected_config_def)

lemma expected_keys:
  assumes "expected_state k env d = Inr st"
  shows "map fst (cs_file_metadata st) = map fst (expected_config d) @
    [ENVELOPE_KEY, ''fireparq.ingest.stream_id'', ''fireparq.ingest.checkpoint_id'', ''fireparq.ingest.ordinal'']"
  using assms by (auto simp: expected_state_def bindR_eq_Inr)

lemma expected_distinct:
  assumes "expected_state k env d = Inr st"
  shows "distinct (map fst (cs_file_metadata st))" "ARROW_SCHEMA_META_KEY \<notin> fst ` set (cs_file_metadata st)"
proof -
  have "distinct (map fst (cs_file_metadata st) @ [ARROW_SCHEMA_META_KEY])"
    unfolding expected_keys [OF assms] config_keys by (simp add: ENVELOPE_KEY_def ARROW_SCHEMA_META_KEY_def)
  then show "distinct (map fst (cs_file_metadata st))" "ARROW_SCHEMA_META_KEY \<notin> fst ` set (cs_file_metadata st)" by auto
qed

lemma envelope_fields:
  assumes "envelope_new x now a = Inr env"
  shows "descriptor_id x (au_descriptor a) = Inr (me_stream_id env)" "me_checkpoint env = au_checkpoint a"
    "now = Some (me_updated_at env)" "me_format_version env = MIRROR_VERSION" "me_sha256 env = envelope_digest x env"
  using assms by (auto simp: envelope_new_def bindR_eq_Inr Let_def envelope_digest_def)

text \<open>The metadata written for an expected state is the expected metadata.\<close>

lemma expected_flags:
  assumes "expected_state k env d = Inr st"
  shows "map_of (cs_file_metadata st) CURSOR_METADATA_EXTENDED = Some (bool_text (cs_extended st))"
    "map_of (cs_file_metadata st) CURSOR_METADATA_FINAL_BLOCKS_ONLY = Some (bool_text (cs_final_blocks_only st))"
    "map_of (cs_file_metadata st) CURSOR_METADATA_INCLUDE_FAILED_TRANSACTIONS = Some (bool_text (cs_include_failed_transactions st))"
    "map_of (cs_file_metadata st) CURSOR_METADATA_SYNTHETIC_TIMESTAMPS = None"
    "map_of (cs_file_metadata st) CURSOR_METADATA_SYNTHETIC_TIMESTAMP_POLICY = None"
    "map_of (cs_file_metadata st) ENVELOPE_KEY = Some (mc_text k env)"
  using assms by (auto simp: expected_state_def bindR_eq_Inr expected_config_def key_defs ENVELOPE_KEY_def)

lemma written_expected:
  assumes "expected_state k env d = Inr st"
  shows "map_of (writer_properties st @ rest) key = (case map_of (cs_file_metadata st) key of None \<Rightarrow> map_of rest key | Some v \<Rightarrow> Some v)"
  using expected_flags [OF assms] by (auto simp: written_metadata normalized_keys_def simp del: map_of_append split: option.splits)

lemma written_keys:
  assumes "expected_state k env d = Inr st"
  shows "distinct (map fst (writer_properties st))" "fst ` set (writer_properties st) = fst ` set (cs_file_metadata st)"
proof -
  have "fst ` set (writer_properties st) = dom (map_of (writer_properties st @ []))" by (simp add: dom_map_of_conv_image_fst)
  also have "\<dots> = dom (map_of (cs_file_metadata st))"
    using written_expected [OF assms, of "[]"] by (auto simp: dom_def simp del: append_Nil2 split: option.splits)
  finally show "fst ` set (writer_properties st) = fst ` set (cs_file_metadata st)" by (simp add: dom_map_of_conv_image_fst)
  have "distinct (map fst (filter (\<lambda>(key, _). key \<notin> set normalized_keys) (cs_file_metadata st)))"
    using expected_distinct(1) [OF assms] by (rule distinct_map_filter)
  moreover have "fst ` set (filter (\<lambda>(key, _). key \<notin> set normalized_keys) (cs_file_metadata st)) \<inter> set normalized_keys = {}" by auto
  ultimately show "distinct (map fst (writer_properties st))"
    using keys_distinct by (auto simp: writer_properties_def normalized_keys_def)
qed

text \<open>The stored row within the limit of the decoder.\<close>

definition row_bounded :: "mirror_codec \<Rightarrow> string \<Rightarrow> bool" where
  "row_bounded k bytes \<longleftrightarrow>
     (case pq_read (mc_parquet k) bytes of
        None \<Rightarrow> False
      | Some f \<Rightarrow> list_all (\<lambda>g. rg_total_byte_size g \<le> MAX_ROW_BYTES \<and> sum_list (map snd (rg_columns g)) \<le> MAX_ROW_BYTES \<and>
          list_all (\<lambda>ps. case ps of None \<Rightarrow> False | Some qs \<Rightarrow>
            list_all (\<lambda>q. case q of None \<Rightarrow> False | Some page \<Rightarrow> int (pg_buffer page) \<le> MAX_ROW_BYTES) qs) (rg_pages g)) (cf_groups f))"

locale mirror_format =
  fixes k :: mirror_codec
  assumes parquet: "parquet_crate (mc_parquet k)"
    and parse_text: "mc_parse k (mc_text k env) = Some env"
begin

sublocale pq: parquet_crate "mc_parquet k"
  by (rule parquet)

text \<open>What is read from an encoded mirror.\<close>

lemma encoded_file:
  assumes "mirror_encode x k now a = Inr bytes"
  obtains env st f g arrow where "envelope_new x now a = Inr env" "envelope_validate x k env (au_descriptor a) = Inr ()"
    "expected_state k env (au_descriptor a) = Inr st" "length bytes \<le> MAX_MIRROR_BYTES"
    "pq_read (mc_parquet k) bytes = Some f" "cf_schema f = cursor_schema" "cf_rows f = 1" "cf_groups f = [g]" "one_row_group g"
    "cf_metadata f = Some (map (\<lambda>(key, v). (key, Some v)) (writer_properties st @ [(ARROW_SCHEMA_META_KEY, arrow)]))"
    "cf_batches f 2 = [Some (to_record_batch st)]"
proof -
  obtain env st where e: "envelope_new x now a = Inr env" "envelope_validate x k env (au_descriptor a) = Inr ()"
    "expected_state k env (au_descriptor a) = Inr st" "encode_cursor (mc_parquet k) st = Inr bytes" "length bytes \<le> MAX_MIRROR_BYTES"
    using assms by (auto simp: mirror_encode_def bindR_eq_Inr)
  have w: "pq_write (mc_parquet k) cursor_schema (to_record_batch st) (writer_properties st) = Some bytes" "cb_rows (to_record_batch st) = 1"
    using e(4) by (simp_all add: encode_cursor_def to_record_batch_def)
  from pq.read_written [OF w] obtain f g arrow where f: "pq_read (mc_parquet k) bytes = Some f" "cf_schema f = cursor_schema" "cf_rows f = 1"
    "cf_groups f = [g]" "one_row_group g"
    "cf_metadata f = Some (map (\<lambda>(key, v). (key, Some v)) (writer_properties st) @ [(ARROW_SCHEMA_META_KEY, Some arrow)])"
    "\<forall>n. 0 < n \<longrightarrow> cf_batches f n = [Some (to_record_batch st)]" by blast
  show ?thesis by (rule that [OF e(1,2,3,5) f(1-5)]) (use f(6,7) in simp_all)
qed

text \<open>An encoded mirror shows no other checkpoint.\<close>

lemma decode_encoded_only:
  assumes "mirror_encode x k now a = Inr bytes" "mirror_decode x k bytes d = Inr env'"
  shows "me_checkpoint env' = au_checkpoint a"
proof (rule encoded_file [OF assms(1)])
  fix env st f g arrow
  assume e: "envelope_new x now a = Inr env" "expected_state k env (au_descriptor a) = Inr st"
    and f: "pq_read (mc_parquet k) bytes = Some f"
      "cf_metadata f = Some (map (\<lambda>(key, v). (key, Some v)) (writer_properties st @ [(ARROW_SCHEMA_META_KEY, arrow)]))"
  obtain expected where "decode_envelope x k d (writer_properties st @ [(ARROW_SCHEMA_META_KEY, arrow)]) = Inr (env', expected)"
    using assms(2) f(1) by (auto simp: mirror_decode_def bindR_eq_Inr f(2) collect_metadata_written simp del: map_append)
  then have "mc_parse k (mc_text k env) = Some env'"
    using written_expected [OF e(2)] expected_flags(6) [OF e(2)] by (auto simp: decode_envelope_def bindR_eq_Inr simp del: map_of_append)
  then show ?thesis using parse_text envelope_fields(2) [OF e(1)] by simp
qed

lemma envelope_decoded:
  assumes v: "envelope_validate x k env d = Inr ()" and st: "expected_state k env d = Inr st"
  shows "decode_envelope x k d (writer_properties st @ [(ARROW_SCHEMA_META_KEY, arrow)]) = Inr (env, st)"
proof -
  let ?vals = "writer_properties st @ [(ARROW_SCHEMA_META_KEY, arrow)]"
  have raw: "map_of ?vals ENVELOPE_KEY = Some (mc_text k env)"
    using written_expected [OF st] expected_flags(6) [OF st] by (simp del: map_of_append)
  have "for_each (\<lambda>(key, v). require (map_of ?vals key = Some v)
      ''protected mirror metadata disagrees with authoritative descriptor/checkpoint'') (cs_file_metadata st) = Inr ()"
    using written_expected [OF st] expected_distinct(1) [OF st] by (auto simp del: map_of_append)
  moreover have "list_all (\<lambda>(key, _). key \<in> fst ` set (cs_file_metadata st) \<or> key = ARROW_SCHEMA_META_KEY) ?vals"
    using written_keys(2) [OF st] by (force simp: list_all_iff)
  ultimately show ?thesis using v st by (simp add: decode_envelope_def raw parse_text del: map_of_append for_each_ok)
qed

lemma row_decoded:
  assumes "cf_batches f 2 = [Some (to_record_batch st)]"
  shows "decode_row f (map (\<lambda>(key, v). (key, Some v)) (writer_properties st @ [(ARROW_SCHEMA_META_KEY, arrow)])) st = Inr ()"
proof -
  have "from_record_batch (to_record_batch st) (Some (map (\<lambda>(key, v). (key, Some v)) (writer_properties st @ [(ARROW_SCHEMA_META_KEY, arrow)]))) =
      Inr (reloaded st arrow)" using from_written [of st arrow] by simp
  then show ?thesis unfolding decode_row_def assms list.case
    by (simp add: no_null_def to_record_batch_def column_def row_matches_def reloaded_def)
qed

text \<open>A mirror within the row limit decodes to the envelope it was encoded from.\<close>

lemma mirror_decoded:
  assumes enc: "mirror_encode x k now a = Inr bytes" and row: "row_bounded k bytes"
  obtains env where "envelope_new x now a = Inr env" "mirror_decode x k bytes (au_descriptor a) = Inr env"
proof (rule encoded_file [OF enc])
  fix env st f g arrow
  assume e: "envelope_new x now a = Inr env" "envelope_validate x k env (au_descriptor a) = Inr ()"
      "expected_state k env (au_descriptor a) = Inr st" "length bytes \<le> MAX_MIRROR_BYTES"
    and f: "pq_read (mc_parquet k) bytes = Some f" "cf_schema f = cursor_schema" "cf_rows f = 1" "cf_groups f = [g]" "one_row_group g"
      "cf_metadata f = Some (map (\<lambda>(key, v). (key, Some v)) (writer_properties st @ [(ARROW_SCHEMA_META_KEY, arrow)]))"
      "cf_batches f 2 = [Some (to_record_batch st)]"
  have b: "rg_total_byte_size g \<le> MAX_ROW_BYTES" "sum_list (map snd (rg_columns g)) \<le> MAX_ROW_BYTES"
    "\<And>qs q. Some qs \<in> set (rg_pages g) \<Longrightarrow> Some q \<in> set qs \<Longrightarrow> int (pg_buffer q) \<le> MAX_ROW_BYTES"
    using row f(1,4) by (fastforce simp: row_bounded_def list_all_iff)+
  have g: "list_all (\<lambda>(uncompressed, n). uncompressed \<and> 0 \<le> n) (rg_columns g)" "0 \<le> rg_total_byte_size g"
    "\<And>ps. ps \<in> set (rg_pages g) \<Longrightarrow> \<exists>qs. ps = Some qs \<and> one_value qs"
    using f(5) by (auto simp: one_row_group_def list_all_iff)
  have group: "check_group f = Inr g"
    using columns_checked [OF g(1), of 0] b(1,2) g(2) f(3,4) by (simp add: check_group_def check_columns_def)
  have pages: "for_each (\<lambda>ps. case ps of None \<Rightarrow> bail ''invalid protected mirror column pages'' | Some qs \<Rightarrow> check_pages 0 0 qs)
      (rg_pages g) = Inr ()"
  proof -
    have "check_pages 0 0 qs = Inr ()" if qs: "Some qs \<in> set (rg_pages g)" for qs
    proof -
      have o: "one_value qs" using g(3) [OF qs] by simp
      then have "list_all (\<lambda>q. \<exists>p. q = Some p \<and> pg_values p \<le> 1 \<and> int (pg_buffer p) \<le> MAX_ROW_BYTES) qs"
        using b(3) [OF qs] by (auto simp: one_value_def list_all_iff)
      then show ?thesis by (rule pages_checked) (use o in \<open>simp_all add: one_value_def\<close>)
    qed
    then show ?thesis using g(3) by (auto split: option.splits)
  qed
  have dist: "distinct (map fst (writer_properties st @ [(ARROW_SCHEMA_META_KEY, arrow)]))"
    using written_keys [OF e(3)] expected_distinct(2) [OF e(3)] by simp
  then have "collect_metadata (map (\<lambda>(key, v). (key, Some v)) (writer_properties st @ [(ARROW_SCHEMA_META_KEY, arrow)])) =
      Inr (writer_properties st @ [(ARROW_SCHEMA_META_KEY, arrow)])" by (simp only: collect_metadata_written)
  then have "mirror_decode x k bytes (au_descriptor a) = Inr env"
    using e(4) f(1,2,6) group pages envelope_decoded [OF e(2,3), of arrow] row_decoded [OF f(7), of arrow]
    by (simp add: mirror_decode_def del: map_append for_each_ok)
  then show ?thesis using that e(1) by blast
qed

end

section \<open>A codec\<close>

text \<open>Readers of one value from the front of a text, for envelopes with unary lengths.\<close>

definition read_field :: "string \<Rightarrow> string \<times> string" where
  "read_field s = (case ones s of (n, r) \<Rightarrow> (take n r, drop n r))"

definition option_text :: "('a \<Rightarrow> string) \<Rightarrow> 'a option \<Rightarrow> string" where
  "option_text t v = (case v of None \<Rightarrow> number_text 0 | Some x \<Rightarrow> number_text 1 @ t x)"

definition read_option :: "(string \<Rightarrow> 'a \<times> string) \<Rightarrow> string \<Rightarrow> 'a option \<times> string" where
  "read_option p s = (case ones s of (n, r) \<Rightarrow> if n = 0 then (None, r) else (case p r of (v, r) \<Rightarrow> (Some v, r)))"

definition signed_text :: "int \<Rightarrow> string" where
  "signed_text i = number_text (if i < 0 then 1 else 0) @ number_text (nat \<bar>i\<bar>)"

definition read_signed :: "string \<Rightarrow> int \<times> string" where
  "read_signed s = (case ones s of (b, r) \<Rightarrow> case ones r of (n, r) \<Rightarrow> (if b = 0 then int n else - int n, r))"

definition event_text :: "event_identity \<Rightarrow> string" where
  "event_text e = field_text (ev_cursor e) @ number_text (ev_block_num e) @ field_text (ev_block_id e) @
     signed_text (ev_fork_step e) @ option_text signed_text (ev_source_timestamp e)"

definition read_event :: "string \<Rightarrow> event_identity \<times> string" where
  "read_event s =
     (case read_field s of (c, s) \<Rightarrow> case ones s of (n, s) \<Rightarrow> case read_field s of (i, s) \<Rightarrow>
      case read_signed s of (f, s) \<Rightarrow> case read_option read_signed s of (t, s) \<Rightarrow>
      (\<lparr> ev_cursor = c, ev_block_num = n, ev_block_id = i, ev_fork_step = f, ev_source_timestamp = t \<rparr>, s))"

definition anchor_text :: "timestamp_anchor \<Rightarrow> string" where
  "anchor_text a = number_text (an_source_ordinal a) @ number_text (an_source_block_num a) @ field_text (an_source_block_id a) @
     signed_text (an_seconds a) @
     number_text (case an_provenance a of PAcceptedPrefix \<Rightarrow> 0 | PLookahead \<Rightarrow> 1 | PSolanaGenesisFallback \<Rightarrow> 2)"

definition read_anchor :: "string \<Rightarrow> timestamp_anchor \<times> string" where
  "read_anchor s =
     (case ones s of (a, s) \<Rightarrow> case ones s of (b, s) \<Rightarrow> case read_field s of (i, s) \<Rightarrow> case read_signed s of (t, s) \<Rightarrow>
      case ones s of (p, s) \<Rightarrow>
      (\<lparr> an_source_ordinal = a, an_source_block_num = b, an_source_block_id = i, an_seconds = t,
        an_provenance = (if p = 0 then PAcceptedPrefix else if p = 1 then PLookahead else PSolanaGenesisFallback) \<rparr>, s))"

definition envelope_text :: "mirror_envelope \<Rightarrow> string" where
  "envelope_text env =
     (let c = me_checkpoint env in
      number_text (me_format_version env) @ field_text (digest_str (me_stream_id env)) @ field_text (me_updated_at env) @
      field_text (digest_str (me_sha256 env)) @ field_text (digest_str (cp_id c)) @
      option_text (\<lambda>d. field_text (digest_str d)) (cp_previous c) @ number_text (cp_ordinal c) @
      option_text event_text (cp_event c) @
      number_text (case rc_policy (cp_routing c) of GenesisLookaheadV1 \<Rightarrow> 0 | SolanaLastKnownV1 \<Rightarrow> 1) @
      option_text anchor_text (rc_anchor (cp_routing c)) @ option_text number_text (cp_completed_stop c))"

definition read_digest :: "string \<Rightarrow> digest \<times> string" where
  "read_digest s = (case read_field s of (d, s) \<Rightarrow> (Digest d, s))"

definition envelope_parse :: "string \<Rightarrow> mirror_envelope option" where
  "envelope_parse s =
     (case ones s of (version, s) \<Rightarrow> case read_digest s of (stream, s) \<Rightarrow> case read_field s of (t, s) \<Rightarrow>
      case read_digest s of (sha, s) \<Rightarrow> case read_digest s of (i, s) \<Rightarrow> case read_option read_digest s of (previous, s) \<Rightarrow>
      case ones s of (ordinal, s) \<Rightarrow> case read_option read_event s of (event, s) \<Rightarrow> case ones s of (policy, s) \<Rightarrow>
      case read_option read_anchor s of (anchor, s) \<Rightarrow> case read_option ones s of (stop, s) \<Rightarrow>
      Some \<lparr> me_format_version = version, me_stream_id = stream,
        me_checkpoint = \<lparr> cp_id = i, cp_previous = previous, cp_ordinal = ordinal, cp_event = event,
          cp_routing = \<lparr> rc_policy = (if policy = 0 then GenesisLookaheadV1 else SolanaLastKnownV1), rc_anchor = anchor \<rparr>,
          cp_completed_stop = stop \<rparr>,
        me_updated_at = t, me_sha256 = sha \<rparr>)"

lemma read_field_text [simp]: "read_field (field_text s @ r) = (s, r)"
  by (simp add: read_field_def field_text_def)

lemma read_digest_text [simp]: "read_digest (field_text (digest_str d) @ r) = (d, r)"
  by (cases d) (simp add: read_digest_def)

lemma read_signed_text [simp]: "read_signed (signed_text i @ r) = (i, r)"
  by (simp add: read_signed_def signed_text_def)

lemma read_option_text [simp]:
  "(\<And>v r. p (t v @ r) = (v, r)) \<Longrightarrow> read_option p (option_text t v @ r) = (v, r)"
  by (simp add: read_option_def option_text_def split: option.splits)

lemma read_event_text [simp]: "read_event (event_text v @ r) = (v, r)"
  by (simp add: read_event_def event_text_def)

lemma read_anchor_text [simp]: "read_anchor (anchor_text v @ r) = (v, r)"
  by (cases v) (simp add: read_anchor_def anchor_text_def split: anchor_provenance.splits)

lemma envelope_text_round_trip: "envelope_parse (envelope_text env) = Some env"
proof -
  have stop: "read_option ones (option_text number_text v) = (v, [])" for v
    using read_option_text [of ones number_text v "[]"] by simp
  obtain version stream c t sha where env: "env = \<lparr> me_format_version = version, me_stream_id = stream, me_checkpoint = c,
      me_updated_at = t, me_sha256 = sha \<rparr>" by (cases env)
  obtain i p n e r u where c: "c = \<lparr> cp_id = i, cp_previous = p, cp_ordinal = n, cp_event = e, cp_routing = r, cp_completed_stop = u \<rparr>"
    by (cases c)
  obtain policy anchor where r: "r = \<lparr> rc_policy = policy, rc_anchor = anchor \<rparr>" by (cases r)
  show ?thesis by (cases policy) (simp_all add: env c r envelope_parse_def envelope_text_def stop)
qed

text \<open>An authority with a local mirror, two accepted events and no completed request.\<close>

definition mirrored_descriptor :: stream_descriptor where
  "mirrored_descriptor = sample_descriptor\<lparr> sd_mirror := MLocal ''/m/cursor.parquet'' \<rparr>"

definition mirrored_start :: authority_state where
  "mirrored_start = projr (authority_initial sample_ext mirrored_descriptor)"

definition mirrored_authority :: authority_state where
  "mirrored_authority = mirrored_start\<lparr> au_checkpoint :=
     projr (checkpoint_advance sample_ext (au_checkpoint mirrored_start) mirrored_descriptor sample_prefix) \<rparr>"

lemma mirrored_start_eq: "authority_initial sample_ext mirrored_descriptor = Inr mirrored_start"
proof -
  have "descriptor_validate mirrored_descriptor = Inr ()" by code_simp
  then show ?thesis using initial_total [of mirrored_descriptor sample_ext] by (auto simp: mirrored_start_def)
qed

lemma mirrored_fields:
  "authority_validate sample_ext mirrored_authority = Inr ()" "au_descriptor mirrored_authority = mirrored_descriptor"
  "cp_ordinal (au_checkpoint mirrored_authority) = 2" "cp_event (au_checkpoint mirrored_authority) = Some sample_event"
proof -
  have c: "au_descriptor mirrored_start = mirrored_descriptor" "cp_ordinal (au_checkpoint mirrored_start) = 0"
    by (rule initial_fields [OF mirrored_start_eq])+
  have v: "checkpoint_validate sample_ext (au_checkpoint mirrored_start) mirrored_descriptor = Inr ()"
      "descriptor_validate mirrored_descriptor = Inr ()"
    using initial_valid [OF mirrored_start_eq] c by (auto simp: authority_validate_def bindR_eq_Inr)
  have "\<exists>n. checkpoint_advance sample_ext (au_checkpoint mirrored_start) mirrored_descriptor sample_prefix = Inr n"
    by (rule advance_total [OF v(1) sample_prefix_valid])
      (simp_all add: c sample_prefix_def u64_max_def mirrored_descriptor_def sample_descriptor_def)
  then obtain n where n: "checkpoint_advance sample_ext (au_checkpoint mirrored_start) mirrored_descriptor sample_prefix = Inr n" by blast
  show "authority_validate sample_ext mirrored_authority = Inr ()" "au_descriptor mirrored_authority = mirrored_descriptor"
    "cp_ordinal (au_checkpoint mirrored_authority) = 2" "cp_event (au_checkpoint mirrored_authority) = Some sample_event"
    using advance_ok [OF n] v c n by (simp_all add: mirrored_authority_def authority_validate_def sample_prefix_def)
qed

definition text_codec :: mirror_codec where
  "text_codec = \<lparr> mc_parquet = single_io sample_cursor, mc_bytes = plain_codec, mc_text = envelope_text, mc_parse = envelope_parse,
     mc_rfc3339 = (\<lambda>s. s = ''2026-01-01T00:00:00Z'') \<rparr>"

definition mirrored_envelope :: mirror_envelope where
  "mirrored_envelope = projr (envelope_new sample_ext (Some ''2026-01-01T00:00:00Z'') mirrored_authority)"

definition mirrored_row :: cursor_state where
  "mirrored_row = projr (expected_state text_codec mirrored_envelope mirrored_descriptor)"

definition sample_mirror_codec :: mirror_codec where
  "sample_mirror_codec = text_codec\<lparr> mc_parquet := single_io mirrored_row \<rparr>"

interpretation sample_mirror: mirror_format sample_mirror_codec
  by (rule mirror_format.intro) (simp_all add: sample_mirror_codec_def text_codec_def envelope_text_round_trip single_io_laws)

lemma mirrored_encodes: "mirror_encode sample_ext sample_mirror_codec (Some ''2026-01-01T00:00:00Z'') mirrored_authority = Inr ''PAR1''"
proof -
  let ?now = "Some ''2026-01-01T00:00:00Z''"
  note fields = mirrored_fields
  have ck: "checkpoint_validate sample_ext (au_checkpoint mirrored_authority) mirrored_descriptor = Inr ()"
    "descriptor_validate mirrored_descriptor = Inr ()"
    using fields(1,2) by (auto simp: authority_validate_def bindR_eq_Inr)
  obtain stream where d: "descriptor_id sample_ext mirrored_descriptor = Inr stream" using ck(2) by (simp add: descriptor_id_def)
  have e: "envelope_new sample_ext ?now mirrored_authority = Inr mirrored_envelope"
    by (simp add: mirrored_envelope_def envelope_new_def fields(2) d Let_def)
  note c = envelope_fields [OF e]
  have t: "me_updated_at mirrored_envelope = ''2026-01-01T00:00:00Z''" using c(3) by simp
  have s: "me_stream_id mirrored_envelope = stream" using c(1) d fields(2) by simp
  have v: "envelope_validate sample_ext sample_mirror_codec mirrored_envelope mirrored_descriptor = Inr ()"
    by (simp add: envelope_validate_def c(2,4) c(5) t s d ck(1) fields(3) sample_mirror_codec_def text_codec_def)
  have "expected_state sample_mirror_codec mirrored_envelope mirrored_descriptor = Inr mirrored_row"
    by (simp add: mirrored_row_def expected_state_def c(2) fields(4) sample_mirror_codec_def)
  moreover have "encode_cursor (mc_parquet sample_mirror_codec) mirrored_row = Inr ''PAR1''"
    by (simp add: encode_cursor_def sample_mirror_codec_def single_io_def)
  ultimately show ?thesis using e v fields(2) by (simp add: mirror_encode_def MAX_MIRROR_BYTES_def)
qed

lemma mirrored_bounded: "row_bounded sample_mirror_codec ''PAR1''"
  by (simp add: row_bounded_def sample_mirror_codec_def single_io_def single_file_def cursor_schema_def MAX_ROW_BYTES_def)

section \<open>Properties\<close>



end
