(* ===== verification/World.thy ===== *)
theory World
  imports Mirror_File
begin

text \<open>
  The storage a protected dataset lives on, and computations on it. A \<open>world\<close> holds the two control
  slots, the files below the dataset root by relative path, the Delta log of each table and the cursor
  mirror. An \<open>io\<close> computation reads and changes the world and returns a result or an
  error; a run is parameterized by an \<open>env\<close> with everything outside the repository: the codecs, the
  clock, fresh identifiers, the Parquet and Delta libraries, the scheduler and a fault for every
  single storage request. A fault of a mutation strikes before it or after it took effect, so every
  crash point of the program is an error point of some environment.

  \<open>triple P m Q E\<close> is the Hoare triple with the postcondition \<open>Q\<close> for success and \<open>E\<close> for failure.
  The control slots of \<open>durable_state.rs\<close> are the operations \<open>slot_load\<close>, \<open>slot_create\<close>, \<open>slot_replace\<close>,
  \<open>slot_remove\<close> and \<open>slot_stabilize\<close>, over an accessor of the slot; the locale \<open>control_slot\<close> proves
  their triples once for every accessor, and is interpreted for the state and the pending slot.
\<close>

section \<open>State\<close>

record add_action =
  aa_path :: string
  aa_date :: string
  aa_size :: int
  aa_modification_time :: int
  aa_stats :: string

record table_meta =
  tm_configuration :: "(string \<times> string) list"
  tm_min_reader :: int
  tm_min_writer :: int
  tm_features :: bool
    \<comment> \<open>whether the protocol lists reader or writer features\<close>
  tm_partition_columns :: "string list"
  tm_columns :: "string list"
    \<comment> \<open>the columns of the schema, each in its serialized form\<close>

record log_commit =
  lc_txn :: "(string \<times> int) option"
  lc_adds :: "add_action list"
  lc_info :: "(string \<times> json) list"
  lc_meta :: "table_meta option"

type_synonym delta_log = "log_commit list"

text \<open>The commits of one application in a log.\<close>

definition own_commit :: "string \<Rightarrow> log_commit \<Rightarrow> bool" where
  "own_commit app c = (case lc_txn c of None \<Rightarrow> False | Some (a, _) \<Rightarrow> a = app)"

abbreviation own :: "string \<Rightarrow> delta_log \<Rightarrow> delta_log" where
  "own app \<equiv> filter (own_commit app)"

type_synonym 'a slot = "(control_version \<times> 'a) option"

record world =
  w_clock :: nat
  w_state :: "authority_state slot"
  w_pending :: "pending_transaction slot"
  w_files :: "string \<Rightarrow> string option"
  w_logs :: "string \<Rightarrow> delta_log"
  w_inflight :: "string \<Rightarrow> log_commit list"
  w_mirror :: "string option"
    \<comment> \<open>the bytes of the mirror file\<close>

section \<open>Environment\<close>

datatype fault = Healthy | FailBefore | FailAfter

record parquet_footer =
  pf_metadata :: "(string \<times> string option) list option"
  pf_rows :: int
  pf_schema_sha256 :: "string option"

datatype commit_reply =
    Landed
  | SameAppConflict
  | DefiniteFailure
  | UnknownFailure

record env =
  e_ext :: ext
  e_codec :: codec
  e_mirror :: mirror_codec
  e_timestamp :: "nat \<Rightarrow> string option"
    \<comment> \<open>\<open>OffsetDateTime::now_utc().format(Rfc3339)\<close>\<close>
  e_fault :: "nat \<Rightarrow> fault"
  e_uuid :: "nat \<Rightarrow> string"
  e_now :: "nat \<Rightarrow> int option"
    \<comment> \<open>milliseconds since the Unix epoch, when the clock is past it\<close>
  e_parquet :: "string \<Rightarrow> parquet_footer option"
    \<comment> \<open>\<open>ParquetRecordBatchReaderBuilder::try_new(bytes)\<close>\<close>
  e_delta :: "nat \<Rightarrow> string \<Rightarrow> delta_log \<times> log_commit list \<Rightarrow> nat \<Rightarrow> log_commit \<Rightarrow>
    commit_reply \<times> delta_log \<times> log_commit list"
    \<comment> \<open>\<open>CommitBuilder\<close> of delta-rs: the log of a table and the commits of earlier attempts that may
      still arrive, the number of commits in the loaded snapshot, and the commit; the reply, and the
      log and the outstanding commits after it\<close>
  e_arrive :: "nat \<Rightarrow> string \<Rightarrow> delta_log \<times> log_commit list \<Rightarrow> delta_log \<times> log_commit list"
    \<comment> \<open>what other writers, and delayed writes of earlier attempts, did to the log meanwhile\<close>
  e_schedule :: "nat \<Rightarrow> nat"
    \<comment> \<open>which of the running tasks completes next\<close>

section \<open>Computations\<close>

type_synonym 'a io = "world \<Rightarrow> 'a result \<times> world"

definition returnIO :: "'a \<Rightarrow> 'a io" where
  "returnIO a = (\<lambda>w. (Inr a, w))"

definition failIO :: "error \<Rightarrow> 'a io" where
  "failIO err = (\<lambda>w. (Inl err, w))"

definition bindIO :: "'a io \<Rightarrow> ('a \<Rightarrow> 'b io) \<Rightarrow> 'b io" where
  "bindIO m f = (\<lambda>w. case m w of (Inl err, w') \<Rightarrow> (Inl err, w') | (Inr a, w') \<Rightarrow> f a w')"

definition liftR :: "'a result \<Rightarrow> 'a io" where
  "liftR r = (\<lambda>w. (r, w))"

definition mapErr :: "(error \<Rightarrow> error) \<Rightarrow> 'a io \<Rightarrow> 'a io" where
  "mapErr f m = (\<lambda>w. case m w of (Inl err, w') \<Rightarrow> (Inl (f err), w') | r \<Rightarrow> r)"

text \<open>A read of storage, and a mutation of it.\<close>

definition observe :: "env \<Rightarrow> string \<Rightarrow> (world \<Rightarrow> 'a) \<Rightarrow> 'a io" where
  "observe e msg f = (\<lambda>w.
     (if e_fault e (w_clock w) = Healthy then Inr (f w) else Inl (Io msg),
      w\<lparr> w_clock := Suc (w_clock w) \<rparr>))"

definition mutate :: "env \<Rightarrow> string \<Rightarrow> (world \<Rightarrow> world) \<Rightarrow> unit io" where
  "mutate e msg f = (\<lambda>w.
     let w1 = w\<lparr> w_clock := Suc (w_clock w) \<rparr> in
     case e_fault e (w_clock w) of
       Healthy \<Rightarrow> (Inr (), f w1)
     | FailBefore \<Rightarrow> (Inl (Io msg), w1)
     | FailAfter \<Rightarrow> (Inl (Io msg), f w1))"

text \<open>A crash point: a boundary at which the process may stop.\<close>

definition crash_point :: "env \<Rightarrow> unit io" where
  "crash_point e = observe e ''process stopped at a transaction boundary'' (\<lambda>_. ())"

fun for_eachIO :: "('a \<Rightarrow> unit io) \<Rightarrow> 'a list \<Rightarrow> unit io" where
  "for_eachIO f [] = returnIO ()"
| "for_eachIO f (a # as) = bindIO (f a) (\<lambda>_. for_eachIO f as)"

fun mapIO :: "('a \<Rightarrow> 'b io) \<Rightarrow> 'a list \<Rightarrow> 'b list io" where
  "mapIO f [] = returnIO []"
| "mapIO f (a # as) = bindIO (f a) (\<lambda>b. bindIO (mapIO f as) (\<lambda>bs. returnIO (b # bs)))"

section \<open>Triples\<close>

definition triple ::
  "(world \<Rightarrow> bool) \<Rightarrow> 'a io \<Rightarrow> ('a \<Rightarrow> world \<Rightarrow> bool) \<Rightarrow> (world \<Rightarrow> bool) \<Rightarrow> bool" where
  "triple P m Q E \<longleftrightarrow>
     (\<forall>w. P w \<longrightarrow> (case m w of (Inr a, w') \<Rightarrow> Q a w' | (Inl err, w') \<Rightarrow> E w'))"

lemma tripleI:
  assumes "\<And>w a w'. P w \<Longrightarrow> m w = (Inr a, w') \<Longrightarrow> Q a w'" "\<And>w err w'. P w \<Longrightarrow> m w = (Inl err, w') \<Longrightarrow> E w'"
  shows "triple P m Q E"
  using assms by (auto simp: triple_def split: prod.splits sum.splits)

lemma tripleD:
  assumes "triple P m Q E" "P w"
  shows "m w = (Inr a, w') \<Longrightarrow> Q a w'" "m w = (Inl err, w') \<Longrightarrow> E w'"
  using assms by (auto simp: triple_def)

lemma triple_return [intro]: "(\<And>w. P w \<Longrightarrow> Q a w) \<Longrightarrow> triple P (returnIO a) Q E"
  by (simp add: triple_def returnIO_def)

lemma triple_fail [intro]: "(\<And>w. P w \<Longrightarrow> E w) \<Longrightarrow> triple P (failIO err) Q E"
  by (simp add: triple_def failIO_def)

lemma bindIO_ok:
  "bindIO m f w = (Inr b, w2) \<longleftrightarrow> (\<exists>a w1. m w = (Inr a, w1) \<and> f a w1 = (Inr b, w2))"
  by (auto simp: bindIO_def split: prod.splits sum.splits)

lemma bindIO_err:
  "bindIO m f w = (Inl err, w2) \<longleftrightarrow>
     m w = (Inl err, w2) \<or> (\<exists>a w1. m w = (Inr a, w1) \<and> f a w1 = (Inl err, w2))"
  by (auto simp: bindIO_def split: prod.splits sum.splits)

lemma triple_bind:
  assumes m: "triple P m R E" and f: "\<And>a. triple (R a) (f a) Q E"
  shows "triple P (bindIO m f) Q E"
proof (rule tripleI)
  fix w b w2
  assume "P w" "bindIO m f w = (Inr b, w2)"
  then show "Q b w2" using tripleD(1) [OF m] tripleD(1) [OF f] unfolding bindIO_ok by blast
next
  fix w err w2
  assume "P w" "bindIO m f w = (Inl err, w2)"
  then show "E w2" using tripleD [OF m] tripleD(2) [OF f] unfolding bindIO_err by blast
qed

lemma triple_conseq:
  assumes "triple P m Q E" "\<And>w. P' w \<Longrightarrow> P w" "\<And>a w. Q a w \<Longrightarrow> Q' a w" "\<And>w. E w \<Longrightarrow> E' w"
  shows "triple P' m Q' E'"
  using assms(2-4) tripleD [OF assms(1)] by (intro tripleI) blast+

text \<open>Sequencing, with a stronger failure postcondition of the first step.\<close>

lemma triple_seq:
  assumes "triple P m R E1" "\<And>w. E1 w \<Longrightarrow> E w" "\<And>a. triple (R a) (f a) Q E"
  shows "triple P (bindIO m f) Q E"
  using triple_bind [OF triple_conseq [OF assms(1), of P R E] assms(3)] assms(2) by blast

text \<open>Sequencing after a step whose value is known.\<close>

lemma triple_bind_eq:
  assumes "triple P m (\<lambda>r w. r = v \<and> R w) E" "triple R (f v) Q E"
  shows "triple P (bindIO m f) Q E"
  by (rule triple_bind [OF assms(1)]) (use assms(2) in \<open>auto simp: triple_def\<close>)

text \<open>Sequencing after a step that establishes a pure fact.\<close>

lemma triple_bind_pure:
  assumes "triple P m (\<lambda>_ w. C \<and> R w) E" "\<And>a. C \<Longrightarrow> triple R (f a) Q E"
  shows "triple P (bindIO m f) Q E"
  by (rule triple_bind [OF assms(1)]) (use assms(2) in \<open>auto simp: triple_def\<close>)

lemma triple_bind_lift:
  assumes "\<And>a. r = Inr a \<Longrightarrow> triple P (f a) Q E" "\<And>w. P w \<Longrightarrow> E w"
  shows "triple P (bindIO (liftR r) f) Q E"
  using assms by (cases r) (auto simp: triple_def bindIO_def liftR_def)

lemma triple_lift:
  "(\<And>w a. P w \<Longrightarrow> r = Inr a \<Longrightarrow> Q a w) \<Longrightarrow> (\<And>w. P w \<Longrightarrow> E w) \<Longrightarrow> triple P (liftR r) Q E"
  by (cases r) (auto simp: triple_def liftR_def)

lemma triple_map_err: "triple P (mapErr f m) Q E \<longleftrightarrow> triple P m Q E"
  by (auto simp: triple_def mapErr_def split: prod.splits sum.splits)

lemma triple_observe:
  assumes "\<And>w. P w \<Longrightarrow> Q (f w) (w\<lparr> w_clock := Suc (w_clock w) \<rparr>)"
    "\<And>w. P w \<Longrightarrow> E (w\<lparr> w_clock := Suc (w_clock w) \<rparr>)"
  shows "triple P (observe e msg f) Q E"
  using assms by (simp add: triple_def observe_def)

lemma triple_mutate:
  assumes "\<And>w. P w \<Longrightarrow> Q () (f (w\<lparr> w_clock := Suc (w_clock w) \<rparr>))"
    "\<And>w. P w \<Longrightarrow> E (f (w\<lparr> w_clock := Suc (w_clock w) \<rparr>))"
    "\<And>w. P w \<Longrightarrow> E (w\<lparr> w_clock := Suc (w_clock w) \<rparr>)"
  shows "triple P (mutate e msg f) Q E"
  using assms by (auto simp: triple_def mutate_def Let_def split: fault.splits)

lemma triple_pre_pure: "(C \<Longrightarrow> triple P m Q E) \<Longrightarrow> triple (\<lambda>w. C \<and> P w) m Q E"
  by (auto simp: triple_def)

lemma triple_pre_ex: "(\<And>a. triple (P a) m Q E) \<Longrightarrow> triple (\<lambda>w. \<exists>a. P a w) m Q E"
  by (rule tripleI) (auto dest: tripleD)

lemma triple_for_each:
  assumes "\<And>a. a \<in> set as \<Longrightarrow> triple I (f a) (\<lambda>_. I) I"
  shows "triple I (for_eachIO f as) (\<lambda>_. I) I"
  using assms by (induction as) (auto intro!: triple_bind)

lemma triple_mapIO:
  assumes "\<And>a. a \<in> set as \<Longrightarrow> triple I (f a) (\<lambda>b w. I w \<and> R a b) I"
  shows "triple I (mapIO f as) (\<lambda>bs w. I w \<and> list_all2 R as bs) I"
  using assms
proof (induction as)
  case Nil
  then show ?case by (simp add: triple_return)
next
  case (Cons a as)
  have tail: "triple I (mapIO f as) (\<lambda>bs w. I w \<and> list_all2 R as bs) I" using Cons by simp
  have "triple (\<lambda>w. I w \<and> R a b) (bindIO (mapIO f as) (\<lambda>bs. returnIO (b # bs)))
      (\<lambda>bs w. I w \<and> list_all2 R (a # as) bs) I" for b
  proof -
    have "triple (\<lambda>w. R a b \<and> I w) (bindIO (mapIO f as) (\<lambda>bs. returnIO (b # bs)))
      (\<lambda>bs w. I w \<and> list_all2 R (a # as) bs) I"
      by (rule triple_pre_pure, rule triple_bind [OF tail]) auto
    then show ?thesis by (rule triple_conseq) auto
  qed
  then show ?case unfolding mapIO.simps by (intro triple_bind [OF Cons.prems]) simp_all
qed

text \<open>Two facts about the same run.\<close>

lemma triple_conj:
  assumes "triple P m Q E" "triple P m Q' E'"
  shows "triple P m (\<lambda>a w. Q a w \<and> Q' a w) (\<lambda>w. E w \<and> E' w)"
  using tripleD [OF assms(1)] tripleD [OF assms(2)] by (intro tripleI) blast+

lemma triple_success:
  assumes "triple P m Q (\<lambda>_. False)" "P w"
  obtains a w' where "m w = (Inr a, w')" "Q a w'"
  using tripleD [OF assms] by (cases "m w"; cases "fst (m w)") auto

text \<open>
  An environment in which no request fails and every control record fits its size limit. There a
  triple with the failure postcondition \<open>False\<close> states that the computation succeeds.
\<close>

definition healthy :: "env \<Rightarrow> bool" where
  "healthy e \<longleftrightarrow> (\<forall>n. e_fault e n = Healthy) \<and>
     (\<forall>payload incarnation revision. is_ok (encode (e_ext e) (e_codec e) payload incarnation revision))"

lemma observe_total:
  assumes "healthy e" "\<And>w. P w \<Longrightarrow> Q (f w) (w\<lparr> w_clock := Suc (w_clock w) \<rparr>)"
  shows "triple P (observe e msg f) Q E"
  using assms by (simp add: triple_def observe_def healthy_def)

lemma mutate_total:
  assumes "healthy e" "\<And>w. P w \<Longrightarrow> Q () (f (w\<lparr> w_clock := Suc (w_clock w) \<rparr>))"
  shows "triple P (mutate e msg f) Q E"
  using assms by (simp add: triple_def mutate_def healthy_def)

lemma triple_lift_ok: "r = Inr v \<Longrightarrow> triple P (f v) Q E \<Longrightarrow> triple P (bindIO (liftR r) f) Q E"
  by (simp add: triple_def bindIO_def liftR_def)

section \<open>Control slots\<close>

definition slot_load :: "env \<Rightarrow> (world \<Rightarrow> 'a slot) \<Rightarrow> 'a slot io" where
  "slot_load e get = observe e ''reading control record'' get"

definition require_version :: "env \<Rightarrow> (world \<Rightarrow> 'a slot) \<Rightarrow> control_version \<Rightarrow> unit io" where
  "require_version e get expected =
     bindIO (slot_load e get) (\<lambda>s.
     case s of
       None \<Rightarrow> failIO (Bail ''expected control record is missing'')
     | Some (version, _) \<Rightarrow>
         if version \<noteq> expected
         then failIO (Bail ''control record changed; refusing stale replacement or removal'')
         else returnIO ())"

text \<open>
  \<open>write\<close>: publication of a record under its slot name. Without replacement the hard link fails on
  an existing name. The fault position covers the failures of the private temporary file, its sync
  and its publication (before) and of the directory sync after it (after).
\<close>

definition slot_write ::
  "env \<Rightarrow> (world \<Rightarrow> 'a slot) \<Rightarrow> ('a slot \<Rightarrow> world \<Rightarrow> world) \<Rightarrow> control_version \<Rightarrow> 'a \<Rightarrow> bool \<Rightarrow> unit io" where
  "slot_write e get put version payload replace =
     bindIO (\<lambda>w. (if \<not> replace \<and> get w \<noteq> None
                  then Inl (Io ''creating control record without replacement'') else Inr (), w)) (\<lambda>_.
     mutate e ''publishing control record'' (put (Some (version, payload))))"

definition fresh_uuid :: "env \<Rightarrow> string io" where
  "fresh_uuid e = (\<lambda>w. (Inr (e_uuid e (w_clock w)), w\<lparr> w_clock := Suc (w_clock w) \<rparr>))"

definition slot_create ::
  "env \<Rightarrow> ('a \<Rightarrow> json) \<Rightarrow> (world \<Rightarrow> 'a slot) \<Rightarrow> ('a slot \<Rightarrow> world \<Rightarrow> world) \<Rightarrow> 'a \<Rightarrow> control_version io" where
  "slot_create e ser get put payload =
     bindIO (fresh_uuid e) (\<lambda>incarnation.
     bindIO (liftR (encode (e_ext e) (e_codec e) (ser payload) incarnation 0)) (\<lambda>(_, version).
     bindIO (slot_write e get put version payload False) (\<lambda>_. returnIO version)))"

definition slot_replace ::
  "env \<Rightarrow> ('a \<Rightarrow> json) \<Rightarrow> (world \<Rightarrow> 'a slot) \<Rightarrow> ('a slot \<Rightarrow> world \<Rightarrow> world) \<Rightarrow> control_version \<Rightarrow> 'a \<Rightarrow>
   control_version io" where
  "slot_replace e ser get put expected payload =
     bindIO (require_version e get expected) (\<lambda>_.
     bindIO (liftR (some_or (checked_add (cv_revision expected) 1) ''control revision exhausted'')) (\<lambda>revision.
     bindIO (liftR (encode (e_ext e) (e_codec e) (ser payload) (cv_incarnation expected) revision)) (\<lambda>(_, version).
     bindIO (slot_write e get put version payload True) (\<lambda>_. returnIO version))))"

definition slot_remove ::
  "env \<Rightarrow> (world \<Rightarrow> 'a slot) \<Rightarrow> ('a slot \<Rightarrow> world \<Rightarrow> world) \<Rightarrow> control_version \<Rightarrow> unit io" where
  "slot_remove e get put expected =
     bindIO (require_version e get expected) (\<lambda>_.
     mutate e ''removing control record'' (put None))"

definition slot_stabilize :: "env \<Rightarrow> (world \<Rightarrow> 'a slot) \<Rightarrow> control_version option \<Rightarrow> unit io" where
  "slot_stabilize e get expected =
     bindIO (slot_load e get) (\<lambda>observed.
     if map_option fst observed \<noteq> expected
     then failIO (Bail ''control record changed while establishing recovery durability'')
     else observe e ''syncing observed control record for recovery'' (\<lambda>w. ()))"

section \<open>The slot interface\<close>

text \<open>
  What a slot accessor has to promise: reading gives what was put last, and time passing does not
  touch the slot.
\<close>

locale control_slot =
  fixes get :: "world \<Rightarrow> 'a slot" and put :: "'a slot \<Rightarrow> world \<Rightarrow> world" and ser :: "'a \<Rightarrow> json"
  assumes get_put: "get (put s w) = s"
    and put_get: "get w = s \<Longrightarrow> put s w = w"
    and put_put: "put s (put t w) = put s w"
    and get_clock: "get (w\<lparr> w_clock := n \<rparr>) = get w"
    and put_clock: "put s (w\<lparr> w_clock := n \<rparr>) = (put s w)\<lparr> w_clock := n \<rparr>"
begin

text \<open>The world up to the clock and this slot.\<close>

definition rest :: "world \<Rightarrow> world \<Rightarrow> bool" where
  "rest w0 w \<longleftrightarrow> (\<exists>n s. w = (put s w0)\<lparr> w_clock := n \<rparr>)"

lemma rest_refl [simp]: "rest w w"
  unfolding rest_def by (metis put_get world.surjective world.update_convs(1))

lemma rest_clock [simp]: "rest w0 w \<Longrightarrow> rest w0 (w\<lparr> w_clock := n \<rparr>)"
  unfolding rest_def by fastforce

lemma rest_put: "rest w0 w \<Longrightarrow> rest w0 (put s w)"
  unfolding rest_def by (metis put_clock put_put)

lemma load_triple:
  "triple (\<lambda>w. rest w0 w \<and> get w = s) (slot_load e get) (\<lambda>r w. r = s \<and> rest w0 w \<and> get w = s)
     (\<lambda>w. rest w0 w \<and> get w = s)"
  unfolding slot_load_def by (rule triple_observe) (auto simp: get_clock)

lemma require_triple:
  "triple (\<lambda>w. rest w0 w \<and> get w = s) (require_version e get v)
     (\<lambda>_ w. rest w0 w \<and> get w = s \<and> (\<exists>p. s = Some (v, p))) (\<lambda>w. rest w0 w \<and> get w = s)"
  unfolding require_version_def
  by (rule triple_bind [OF load_triple]) (auto split: option.splits simp: triple_def failIO_def returnIO_def)

lemma write_triple:
  "triple (\<lambda>w. rest w0 w \<and> get w = s) (slot_write e get put v p replace)
     (\<lambda>_ w. rest w0 w \<and> get w = Some (v, p) \<and> (replace \<or> s = None))
     (\<lambda>w. rest w0 w \<and> (get w = s \<or> (get w = Some (v, p) \<and> (replace \<or> s = None))))"
  unfolding slot_write_def
  by (rule triple_bind [where R = "\<lambda>_ w. rest w0 w \<and> get w = s \<and> (replace \<or> s = None)"])
    (auto simp: triple_def get_put get_clock rest_put put_clock mutate_def Let_def split: fault.splits)

text \<open>Creating a record never overwrites one, and yields a version of a fresh incarnation.\<close>

lemma create_triple:
  "triple (\<lambda>w. rest w0 w \<and> get w = s) (slot_create e ser get put p)
     (\<lambda>v w. rest w0 w \<and> get w = Some (v, p) \<and> s = None \<and> cv_revision v = 0)
     (\<lambda>w. rest w0 w \<and> (get w = s \<or> (s = None \<and> (\<exists>v. get w = Some (v, p) \<and> cv_revision v = 0))))"
    (is "triple ?P _ ?Q ?E")
proof -
  have "triple ?P (bindIO (liftR (encode (e_ext e) (e_codec e) (ser p) inc 0)) (\<lambda>(_, v).
        bindIO (slot_write e get put v p False) (\<lambda>_. returnIO v))) ?Q ?E" for inc
  proof (rule triple_bind_lift)
    fix bv
    assume "encode (e_ext e) (e_codec e) (ser p) inc 0 = Inr bv"
    moreover obtain bytes v where bv: "bv = (bytes, v)" by fastforce
    ultimately have "cv_revision v = 0"
      using encode_record_ok(1) [of "e_ext e" "e_codec e" "ser p" inc 0 False bytes v]
      by (simp add: encode_def)
    then show "triple ?P (case bv of (_, v) \<Rightarrow> bindIO (slot_write e get put v p False) (\<lambda>_. returnIO v)) ?Q ?E"
      unfolding bv prod.case by (intro triple_seq [OF write_triple [of w0 s e v p False]]) auto
  qed auto
  moreover have "triple ?P (fresh_uuid e) (\<lambda>_. ?P) ?E"
    by (auto simp: triple_def fresh_uuid_def get_clock)
  ultimately show ?thesis unfolding slot_create_def by (rule triple_bind [rotated])
qed

text \<open>Replacing and removing apply to the expected version only.\<close>

lemma replace_triple:
  "triple (\<lambda>w. rest w0 w \<and> get w = s) (slot_replace e ser get put v p)
     (\<lambda>v' w. rest w0 w \<and> get w = Some (v', p) \<and> (\<exists>q. s = Some (v, q)) \<and>
        cv_incarnation v' = cv_incarnation v \<and> cv_revision v' = cv_revision v + 1)
     (\<lambda>w. rest w0 w \<and> (get w = s \<or> (\<exists>v' q. get w = Some (v', p) \<and> s = Some (v, q) \<and>
        cv_incarnation v' = cv_incarnation v \<and> cv_revision v' = cv_revision v + 1)))"
    (is "triple ?P _ ?Q ?E")
proof -
  let ?R = "\<lambda>w. rest w0 w \<and> get w = s \<and> (\<exists>q. s = Some (v, q))"
  have "triple ?R (bindIO (liftR (encode (e_ext e) (e_codec e) (ser p) (cv_incarnation v) (cv_revision v + 1)))
      (\<lambda>(_, v'). bindIO (slot_write e get put v' p True) (\<lambda>_. returnIO v'))) ?Q ?E"
  proof (rule triple_bind_lift)
    fix bv
    assume "encode (e_ext e) (e_codec e) (ser p) (cv_incarnation v) (cv_revision v + 1) = Inr bv"
    moreover obtain bytes v' where bv: "bv = (bytes, v')" by fastforce
    ultimately have v': "cv_incarnation v' = cv_incarnation v" "cv_revision v' = cv_revision v + 1"
      using encode_record_ok(1) [of "e_ext e" "e_codec e" "ser p" "cv_incarnation v" "cv_revision v + 1"
          False bytes v'] by (simp_all add: encode_def)
    show "triple ?R (case bv of (_, v') \<Rightarrow> bindIO (slot_write e get put v' p True) (\<lambda>_. returnIO v')) ?Q ?E"
    proof (cases "\<exists>q. s = Some (v, q)")
      case True
      with v' have "triple ?P (bindIO (slot_write e get put v' p True) (\<lambda>_. returnIO v')) ?Q ?E"
        by (intro triple_seq [OF write_triple [of w0 s e v' p True]]) auto
      then show ?thesis unfolding bv prod.case by (rule triple_conseq) auto
    next
      case False
      then show ?thesis by (simp add: triple_def)
    qed
  qed auto
  then have step: "triple ?R (bindIO (liftR (some_or (checked_add (cv_revision v) 1) ''control revision exhausted''))
      (\<lambda>revision. bindIO (liftR (encode (e_ext e) (e_codec e) (ser p) (cv_incarnation v) revision)) (\<lambda>(_, v').
        bindIO (slot_write e get put v' p True) (\<lambda>_. returnIO v')))) ?Q ?E"
    by (rule_tac triple_bind_lift) (simp only: some_or_eq_Inr checked_add_eq_Some, blast)
  show ?thesis
    unfolding slot_replace_def by (rule triple_seq [OF require_triple [of w0 s e v] _ step]) simp
qed

lemma remove_triple:
  "triple (\<lambda>w. rest w0 w \<and> get w = s) (slot_remove e get put v)
     (\<lambda>_ w. rest w0 w \<and> get w = None \<and> (\<exists>q. s = Some (v, q)))
     (\<lambda>w. rest w0 w \<and> (get w = s \<or> (get w = None \<and> (\<exists>q. s = Some (v, q)))))"
  unfolding slot_remove_def
  by (rule triple_seq [OF require_triple [of w0 s e v]])
    (auto simp: triple_def get_put get_clock rest_put put_clock mutate_def Let_def split: fault.splits)

lemma stabilize_triple:
  "triple (\<lambda>w. rest w0 w \<and> get w = s) (slot_stabilize e get v)
     (\<lambda>_ w. rest w0 w \<and> get w = s \<and> map_option fst s = v) (\<lambda>w. rest w0 w \<and> get w = s)"
  unfolding slot_stabilize_def
  by (rule triple_seq [OF load_triple [of w0 s e]])
    (auto simp: triple_def get_clock observe_def failIO_def)

text \<open>In a healthy environment the operations succeed.\<close>

lemma require_total:
  assumes "healthy e"
  shows "triple (\<lambda>w. rest w0 w \<and> get w = Some (v, q)) (require_version e get v)
     (\<lambda>_ w. rest w0 w \<and> get w = Some (v, q)) E"
  unfolding require_version_def slot_load_def
  by (rule triple_bind_eq [where v = "Some (v, q)" and R = "\<lambda>w. rest w0 w \<and> get w = Some (v, q)"],
      rule observe_total [OF assms]) (auto simp: get_clock)

lemma write_total:
  assumes "healthy e" "replace \<or> s = None"
  shows "triple (\<lambda>w. rest w0 w \<and> get w = s) (slot_write e get put v p replace)
     (\<lambda>_ w. rest w0 w \<and> get w = Some (v, p)) E"
proof -
  have "triple (\<lambda>w. rest w0 w \<and> get w = s)
      (\<lambda>w. (if \<not> replace \<and> get w \<noteq> None then Inl (Io ''creating control record without replacement'') else Inr (), w))
      (\<lambda>_ w. rest w0 w \<and> get w = s) E"
    using assms(2) by (auto simp: triple_def)
  then show ?thesis
    unfolding slot_write_def
    by (rule triple_bind) (rule mutate_total [OF assms(1)], auto simp: get_put rest_put)
qed

lemma create_total:
  assumes "healthy e"
  shows "triple (\<lambda>w. rest w0 w \<and> get w = None) (slot_create e ser get put p)
     (\<lambda>v w. rest w0 w \<and> get w = Some (v, p) \<and> cv_revision v = 0) (\<lambda>_. False)"
proof -
  have "triple (\<lambda>w. rest w0 w \<and> get w = None) (slot_create e ser get put p) (\<lambda>_ _. True) (\<lambda>_. False)"
    unfolding slot_create_def
  proof (rule triple_bind [where R = "\<lambda>_ w. rest w0 w \<and> get w = None"])
    show "triple (\<lambda>w. rest w0 w \<and> get w = None) (fresh_uuid e) (\<lambda>_ w. rest w0 w \<and> get w = None) (\<lambda>_. False)"
      by (simp add: triple_def fresh_uuid_def get_clock)
  next
    fix inc
    obtain bytes v where "encode (e_ext e) (e_codec e) (ser p) inc 0 = Inr (bytes, v)"
      using assms by (metis healthy_def is_ok_iff surj_pair)
    then show "triple (\<lambda>w. rest w0 w \<and> get w = None) (bindIO (liftR (encode (e_ext e) (e_codec e) (ser p) inc 0))
        (\<lambda>(_, v). bindIO (slot_write e get put v p False) (\<lambda>_. returnIO v))) (\<lambda>_ _. True) (\<lambda>_. False)"
      by (rule triple_lift_ok, unfold prod.case, intro triple_bind [OF write_total [OF assms]]) auto
  qed
  from triple_conj [OF create_triple this] show ?thesis by (rule triple_conseq) auto
qed

lemma replace_total:
  assumes "healthy e" "cv_revision v < u64_max"
  shows "triple (\<lambda>w. rest w0 w \<and> get w = Some (v, q)) (slot_replace e ser get put v p)
     (\<lambda>v' w. rest w0 w \<and> get w = Some (v', p) \<and> cv_revision v' = cv_revision v + 1) (\<lambda>_. False)"
proof -
  obtain bytes v' where
    enc: "encode (e_ext e) (e_codec e) (ser p) (cv_incarnation v) (cv_revision v + 1) = Inr (bytes, v')"
    using assms by (metis healthy_def is_ok_iff surj_pair)
  have rv: "some_or (checked_add (cv_revision v) 1) msg = Inr (cv_revision v + 1)" for msg
    using assms(2) by simp
  have "triple (\<lambda>w. rest w0 w \<and> get w = Some (v, q)) (slot_replace e ser get put v p) (\<lambda>_ _. True) (\<lambda>_. False)"
    unfolding slot_replace_def
    by (rule triple_bind [OF require_total [OF assms(1)]], rule triple_lift_ok [OF rv], rule triple_lift_ok [OF enc],
        unfold prod.case, rule triple_bind [OF write_total [OF assms(1)]]) auto
  from triple_conj [OF replace_triple this] show ?thesis by (rule triple_conseq) auto
qed

lemma remove_total:
  assumes "healthy e"
  shows "triple (\<lambda>w. rest w0 w \<and> get w = Some (v, q)) (slot_remove e get put v)
     (\<lambda>_ w. rest w0 w \<and> get w = None) E"
  unfolding slot_remove_def
  by (rule triple_bind [OF require_total [OF assms]], rule mutate_total [OF assms]) (auto simp: get_put rest_put)

end

interpretation state_slot: control_slot w_state "\<lambda>s. w_state_update (\<lambda>_. s)" authority_json
  by unfold_locales simp_all

interpretation pending_slot: control_slot w_pending "\<lambda>s. w_pending_update (\<lambda>_. s)" pending_json
  by unfold_locales simp_all

section \<open>A concrete environment\<close>

text \<open>An environment without faults, whose Delta library appends every commit.\<close>

definition sample_env :: env where
  "sample_env = \<lparr> e_ext = sample_ext,
     e_codec = \<lparr> k_value_text = (\<lambda>_. []), k_tuple_text = (\<lambda>_ _ _ _ _. []), k_envelope_text = (\<lambda>_. []),
       k_envelope_parse = (\<lambda>_. None), k_is_uuid = (\<lambda>_. True) \<rparr>,
     e_mirror = sample_mirror_codec, e_timestamp = (\<lambda>_. Some ''2026-01-01T00:00:00Z''),
     e_fault = (\<lambda>_. Healthy), e_uuid = (\<lambda>_. ''u''), e_now = (\<lambda>_. Some 1000), e_parquet = (\<lambda>_. None),
     
     e_delta = (\<lambda>_ _ (log, inflight) n c.
       if list_ex (\<lambda>d. case (lc_txn c, lc_txn d) of (Some (a, _), Some (b, _)) \<Rightarrow> a = b | _ \<Rightarrow> False) (drop n log)
       then (SameAppConflict, log, []) else (Landed, log @ [c], [])),
     e_arrive = (\<lambda>_ _ li. li), e_schedule = (\<lambda>_. 0) \<rparr>"

lemma sample_env_healthy: "healthy sample_env"
  by (simp add: healthy_def sample_env_def encode_def encode_record_def Let_def MAX_CONTROL_BYTES_def)

lemma sample_env_ext [simp]: "e_ext sample_env = sample_ext"
  by (simp add: sample_env_def)

definition empty_world :: world where
  "empty_world = \<lparr> w_clock = 0, w_state = None, w_pending = None, w_files = (\<lambda>_. None),
     w_logs = (\<lambda>_. []), w_inflight = (\<lambda>_. []), w_mirror = None \<rparr>"

end
