(* ===== verification/Txn_Store.thy ===== *)
theory Txn_Store
  imports World
begin

text \<open>
  Typed access to the two control slots (\<open>ingest/store.rs\<close>, the local backend): every transition of
  the journal is a guarded, versioned change of one slot. The abstract journal is the pair of the
  slots with the step relation \<open>journal_step\<close>; \<open>journal_ok\<close> is what recovery needs of it. Every
  operation is shown to make at most one step, whatever request fails, and to change nothing but
  the journal.
\<close>

section \<open>Operations\<close>

type_synonym 'a versioned = "control_version \<times> 'a"

type_synonym journal = "authority_state slot \<times> pending_transaction slot"

abbreviation set_state :: "authority_state slot \<Rightarrow> world \<Rightarrow> world" where
  "set_state s \<equiv> w_state_update (\<lambda>_. s)"

abbreviation set_pending :: "pending_transaction slot \<Rightarrow> world \<Rightarrow> world" where
  "set_pending s \<equiv> w_pending_update (\<lambda>_. s)"

definition validate_pair :: "ext \<Rightarrow> authority_state \<Rightarrow> pending_transaction \<Rightarrow> unit result" where
  "validate_pair x a p =
     bindR (pending_validate x p (au_descriptor a)) (\<lambda>_.
     if cp_id (au_checkpoint a) = pt_predecessor p then validate_predecessor x a p
     else if pt_phase p \<noteq> Committed \<or> au_checkpoint a \<noteq> pt_target p
     then bail ''pending journal and authority do not form a recoverable transition''
     else Inr ())"

definition validate_journal :: "ext \<Rightarrow> journal \<Rightarrow> unit result" where
  "validate_journal x j =
     (case j of
        (Some (_, a), pending) \<Rightarrow>
          bindR (authority_validate x a) (\<lambda>_.
          case pending of None \<Rightarrow> Inr () | Some (_, p) \<Rightarrow> validate_pair x a p)
      | (None, Some _) \<Rightarrow> bail ''ingestion journal exists without an authoritative stream descriptor''
      | (None, None) \<Rightarrow> Inr ())"

definition store_load :: "env \<Rightarrow> journal io" where
  "store_load e =
     bindIO (slot_load e w_state) (\<lambda>authority.
     bindIO (slot_load e w_pending) (\<lambda>pending.
     bindIO (slot_stabilize e w_state (map_option fst authority)) (\<lambda>_.
     bindIO (slot_stabilize e w_pending (map_option fst pending)) (\<lambda>_.
     bindIO (liftR (validate_journal (e_ext e) (authority, pending))) (\<lambda>_.
     returnIO (authority, pending))))))"

definition store_require :: "env \<Rightarrow> (world \<Rightarrow> 'a slot) \<Rightarrow> control_version \<Rightarrow> unit io" where
  "store_require e get expected =
     bindIO (slot_load e get) (\<lambda>s.
     case s of
       None \<Rightarrow> failIO (Bail ''required ingestion control record is missing'')
     | Some (version, _) \<Rightarrow>
         if version \<noteq> expected
         then failIO (Bail ''ingestion control record changed; refusing a stale transaction transition'')
         else returnIO ())"

definition empty_checkpoint :: "checkpoint \<Rightarrow> bool" where
  "empty_checkpoint c \<longleftrightarrow> cp_ordinal c = 0 \<and> cp_previous c = None \<and> cp_completed_stop c = None"

definition store_initialize :: "env \<Rightarrow> authority_state \<Rightarrow> authority_state versioned io" where
  "store_initialize e a =
     bindIO (liftR (authority_validate (e_ext e) a)) (\<lambda>_.
     bindIO (liftR (require (empty_checkpoint (au_checkpoint a))
       ''initial authority must be an empty, uncompleted checkpoint'')) (\<lambda>_.
     bindIO (store_load e) (\<lambda>observed.
     bindIO (liftR (require (observed = (None, None))
       ''ingestion state already exists; initialization cannot replace it'')) (\<lambda>_.
     bindIO (slot_create e authority_json w_state set_state a) (\<lambda>version.
     returnIO (version, a))))))"

definition fresh_pending :: "pending_transaction \<Rightarrow> bool" where
  "fresh_pending p \<longleftrightarrow> pt_phase p = Writing \<and> (\<forall>q \<in> set (pt_parts p). pp_receipt q = None)"

definition store_begin ::
  "env \<Rightarrow> authority_state versioned \<Rightarrow> pending_transaction \<Rightarrow> pending_transaction versioned io" where
  "store_begin e a p =
     bindIO (store_require e w_state (fst a)) (\<lambda>_.
     bindIO (liftR (validate_predecessor (e_ext e) (snd a) p)) (\<lambda>_.
     bindIO (liftR (require (fresh_pending p)
       ''new pending transaction must start Writing without receipts'')) (\<lambda>_.
     bindIO (slot_create e pending_json w_pending set_pending p) (\<lambda>version.
     returnIO (version, p)))))"

definition with_receipts ::
  "ext \<Rightarrow> stream_descriptor \<Rightarrow> pending_transaction \<Rightarrow> (nat \<times> part_receipt) list \<Rightarrow>
   pending_transaction result" where
  "with_receipts x d p rs = foldR (\<lambda>q (entry_index, r). with_receipt x q entry_index r d) p rs"

definition store_record_receipts ::
  "env \<Rightarrow> authority_state versioned \<Rightarrow> pending_transaction versioned \<Rightarrow> (nat \<times> part_receipt) list \<Rightarrow>
   pending_transaction versioned io" where
  "store_record_receipts e a p receipts =
     bindIO (liftR (require (receipts \<noteq> []) ''a receipt transition must record at least one receipt'')) (\<lambda>_.
     bindIO (store_require e w_state (fst a)) (\<lambda>_.
     bindIO (liftR (validate_predecessor (e_ext e) (snd a) (snd p))) (\<lambda>_.
     bindIO (liftR (with_receipts (e_ext e) (au_descriptor (snd a)) (snd p) receipts)) (\<lambda>nxt.
     bindIO (slot_replace e pending_json w_pending set_pending (fst p) nxt) (\<lambda>version.
     returnIO (version, nxt))))))"

definition store_mark_committed ::
  "env \<Rightarrow> authority_state versioned \<Rightarrow> pending_transaction versioned \<Rightarrow>
   pending_transaction versioned io" where
  "store_mark_committed e a p =
     bindIO (store_require e w_state (fst a)) (\<lambda>_.
     bindIO (liftR (validate_predecessor (e_ext e) (snd a) (snd p))) (\<lambda>_.
     bindIO (liftR (require (pt_phase (snd p) = Writing)
       ''pending transaction was already marked committed'')) (\<lambda>_.
     bindIO (liftR (committed_after_verification (e_ext e) (snd p) (au_descriptor (snd a)))) (\<lambda>nxt.
     bindIO (slot_replace e pending_json w_pending set_pending (fst p) nxt) (\<lambda>version.
     returnIO (version, nxt))))))"

definition store_advance ::
  "env \<Rightarrow> authority_state versioned \<Rightarrow> pending_transaction versioned \<Rightarrow> authority_state versioned io" where
  "store_advance e a p =
     bindIO (store_require e w_pending (fst p)) (\<lambda>_.
     bindIO (liftR (install (e_ext e) (snd a) (snd p))) (\<lambda>nxt.
     bindIO (slot_replace e authority_json w_state set_state (fst a) nxt) (\<lambda>version.
     returnIO (version, nxt))))"

definition store_complete_request ::
  "env \<Rightarrow> authority_state versioned \<Rightarrow> nat \<Rightarrow> authority_state versioned io" where
  "store_complete_request e a stop =
     bindIO (store_load e) (\<lambda>(observed_authority, observed_pending).
     bindIO (liftR (require (observed_pending = None)
       ''cannot complete a request while an ingestion journal remains'')) (\<lambda>_.
     bindIO (liftR (require (map_option fst observed_authority = Some (fst a))
       ''authority changed before request completion'')) (\<lambda>_.
     bindIO (liftR (complete_request (e_ext e) (au_checkpoint (snd a)) (au_descriptor (snd a)) stop)) (\<lambda>c.
     let nxt = \<lparr> au_descriptor = au_descriptor (snd a), au_checkpoint = c \<rparr> in
     bindIO (slot_replace e authority_json w_state set_state (fst a) nxt) (\<lambda>version.
     returnIO (version, nxt))))))"

definition clearable :: "ext \<Rightarrow> authority_state \<Rightarrow> pending_transaction \<Rightarrow> unit result" where
  "clearable x a p =
     bindR (validate_pair x a p) (\<lambda>_.
     case pt_phase p of
       Writing \<Rightarrow> validate_predecessor x a p
     | Committed \<Rightarrow>
         if au_checkpoint a \<noteq> pt_target p
         then bail ''cannot clear a committed journal before authority roll-forward'' else Inr ())"

definition store_clear ::
  "env \<Rightarrow> authority_state versioned \<Rightarrow> pending_transaction versioned \<Rightarrow> unit io" where
  "store_clear e a p =
     bindIO (store_require e w_state (fst a)) (\<lambda>_.
     bindIO (liftR (clearable (e_ext e) (snd a) (snd p))) (\<lambda>_.
     slot_remove e w_pending set_pending (fst p)))"

section \<open>The abstract journal\<close>

inductive journal_step :: "ext \<Rightarrow> journal \<Rightarrow> journal \<Rightarrow> bool" for x where
  initialize: "authority_validate x a = Inr () \<Longrightarrow> empty_checkpoint (au_checkpoint a) \<Longrightarrow>
    journal_step x (None, None) (Some (v, a), None)"
| started: "validate_predecessor x a p = Inr () \<Longrightarrow> fresh_pending p \<Longrightarrow>
    journal_step x (Some (v, a), None) (Some (v, a), Some (u, p))"
| receipts: "validate_predecessor x a p = Inr () \<Longrightarrow> rs \<noteq> [] \<Longrightarrow>
    with_receipts x (au_descriptor a) p rs = Inr q \<Longrightarrow>
    journal_step x (Some (v, a), Some (u, p)) (Some (v, a), Some (u', q))"
| commit: "validate_predecessor x a p = Inr () \<Longrightarrow> pt_phase p = Writing \<Longrightarrow>
    committed_after_verification x p (au_descriptor a) = Inr q \<Longrightarrow>
    journal_step x (Some (v, a), Some (u, p)) (Some (v, a), Some (u', q))"
| advance: "install x a p = Inr b \<Longrightarrow>
    journal_step x (Some (v, a), Some (u, p)) (Some (v', b), Some (u, p))"
| complete: "complete_request x (au_checkpoint a) (au_descriptor a) stop = Inr c \<Longrightarrow>
    b = \<lparr> au_descriptor = au_descriptor a, au_checkpoint = c \<rparr> \<Longrightarrow>
    journal_step x (Some (v, a), None) (Some (v', b), None)"
| clear: "clearable x a p = Inr () \<Longrightarrow>
    journal_step x (Some (v, a), Some (u, p)) (Some (v, a), None)"

text \<open>
  What recovery relies on. The last clause excludes a digest that maps a checkpoint to its own
  predecessor.
\<close>

definition acyclic_pending :: "pending_transaction \<Rightarrow> bool" where
  "acyclic_pending p \<longleftrightarrow> cp_id (pt_target p) \<noteq> pt_predecessor p"

definition journal_ok :: "ext \<Rightarrow> journal \<Rightarrow> bool" where
  "journal_ok x j \<longleftrightarrow> validate_journal x j = Inr () \<and>
     (\<forall>u p. snd j = Some (u, p) \<longrightarrow> acyclic_pending p)"

inductive_simps journal_step_empty: "journal_step x (None, None) j"

lemma journal_ok_simps:
  "journal_ok x (None, None)"
  "\<not> journal_ok x (None, Some up)"
  "journal_ok x (Some (v, a), None) \<longleftrightarrow> authority_validate x a = Inr ()"
  "journal_ok x (Some (v, a), Some (u, p)) \<longleftrightarrow>
     authority_validate x a = Inr () \<and> validate_pair x a p = Inr () \<and> acyclic_pending p"
  by (auto simp: journal_ok_def validate_journal_def result_simps)

lemma validate_pair_ok:
  "validate_pair x a p = Inr () \<longleftrightarrow> pending_validate x p (au_descriptor a) = Inr () \<and>
     (if cp_id (au_checkpoint a) = pt_predecessor p then validate_predecessor x a p = Inr ()
      else pt_phase p = Committed \<and> au_checkpoint a = pt_target p)"
  by (auto simp: validate_pair_def result_simps)

lemma predecessor_pair: "validate_predecessor x a p = Inr () \<Longrightarrow> validate_pair x a p = Inr ()"
  by (simp add: validate_pair_ok validate_predecessor_ok)

lemma target_pair:
  assumes "pending_validate x p (au_descriptor a) = Inr ()" "pt_phase p = Committed"
    "au_checkpoint a = pt_target p" "acyclic_pending p"
  shows "validate_pair x a p = Inr ()"
  using assms by (simp add: validate_pair_ok acyclic_pending_def)

text \<open>Recording receipts freezes everything but the receipts.\<close>

lemma with_receipts_Nil [simp]: "with_receipts x d p [] = Inr p"
  by (simp add: with_receipts_def)

lemma with_receipts_Cons [simp]:
  "with_receipts x d p (ir # rs) =
     bindR (with_receipt x p (fst ir) (snd ir) d) (\<lambda>q. with_receipts x d q rs)"
  unfolding with_receipts_def by (simp add: case_prod_beta)

definition same_plan :: "pending_transaction \<Rightarrow> pending_transaction \<Rightarrow> bool" where
  "same_plan p q \<longleftrightarrow> q\<lparr> pt_parts := pt_parts p, pt_phase := pt_phase p \<rparr> = p"

lemma same_plan_fields:
  assumes "same_plan p q"
  shows "pt_id q = pt_id p" "pt_stream_id q = pt_stream_id p" "pt_predecessor q = pt_predecessor p"
    "pt_prefix q = pt_prefix p" "pt_target q = pt_target p" "pt_tables q = pt_tables p"
    "pt_compression q = pt_compression p" "pt_format_version q = pt_format_version p"
  using assms by (cases p, cases q, simp add: same_plan_def)+

lemma same_plan_refl [simp]: "same_plan p p"
  by (simp add: same_plan_def)

lemma same_plan_trans: "same_plan p q \<Longrightarrow> same_plan q r \<Longrightarrow> same_plan p r"
  by (cases p, cases q, cases r) (simp add: same_plan_def)

lemma same_plan_predecessor:
  assumes "validate_predecessor x a p = Inr ()" "same_plan p q"
    "pending_validate x q (au_descriptor a) = Inr ()"
  shows "validate_predecessor x a q = Inr ()"
  using assms by (simp add: validate_predecessor_ok same_plan_fields)

lemma same_plan_acyclic: "same_plan p q \<Longrightarrow> acyclic_pending q = acyclic_pending p"
  by (simp add: acyclic_pending_def same_plan_fields)

lemma with_receipt_same_plan:
  assumes "with_receipt x p i r d = Inr q"
  shows "same_plan p q" "pending_validate x q d = Inr ()" "pt_phase q = Writing" "pt_phase p = Writing"
  by (rule with_receipt_ok [OF assms]; simp add: same_plan_def)+

lemma with_receipts_same_plan:
  assumes "with_receipts x d p rs = Inr q" "rs \<noteq> []"
  shows "same_plan p q \<and> pending_validate x q d = Inr () \<and> pt_phase q = Writing \<and> pt_phase p = Writing \<and>
    receipts_only (pt_parts p) (pt_parts q)"
  using assms
proof (induction rs arbitrary: p)
  case (Cons ir rs)
  then obtain m where m: "with_receipt x p (fst ir) (snd ir) d = Inr m" "with_receipts x d m rs = Inr q"
    by (auto simp: result_simps)
  have pm: "same_plan p m" "pending_validate x m d = Inr ()" "pt_phase m = Writing" "pt_phase p = Writing"
      "receipts_only (pt_parts p) (pt_parts m)"
    using with_receipt_same_plan [OF m(1)] with_receipt_receipts_only [OF m(1)]
    by blast+
  show ?case
  proof (cases "rs = []")
    case True
    with m pm show ?thesis by simp
  next
    case False
    with Cons.IH [OF m(2)] pm show ?thesis
      by (blast intro: same_plan_trans receipts_only_trans)
  qed
qed simp

lemma committed_same_plan:
  assumes "committed_after_verification x p d = Inr q"
  shows "same_plan p q" "pending_validate x q d = Inr ()" "pt_phase q = Committed"
  using assms unfolding committed_ok by (auto simp: same_plan_def)


section \<open>The invariant\<close>

lemma journal_step_ok:
  assumes "journal_step x j k" "journal_ok x j" "\<forall>u p. snd k = Some (u, p) \<longrightarrow> snd j = None \<longrightarrow> acyclic_pending p"
  shows "journal_ok x k"
  using assms
proof (cases rule: journal_step.cases)
  case (initialize a v)
  then show ?thesis by (simp add: journal_ok_simps)
next
  case (started a p v u)
  then show ?thesis using assms(3) by (simp add: journal_ok_simps predecessor_pair validate_predecessor_ok)
next
  case (receipts a p rs q v u u')
  note sp = with_receipts_same_plan [OF receipts(5,4)]
  then have "validate_predecessor x a q = Inr ()" using receipts(3) same_plan_predecessor by blast
  moreover have "acyclic_pending q"
    using sp assms(2) receipts(1) same_plan_acyclic [of p q] by (simp add: journal_ok_simps)
  ultimately show ?thesis using receipts(2) by (simp add: journal_ok_simps predecessor_pair validate_predecessor_ok)
next
  case (commit a p q v u u')
  note sp = committed_same_plan [OF commit(5)]
  then have "validate_predecessor x a q = Inr ()" using commit(3) same_plan_predecessor by blast
  moreover have "acyclic_pending q"
    using sp assms(2) commit(1) same_plan_acyclic [of p q] by (simp add: journal_ok_simps)
  ultimately show ?thesis using commit(2) by (simp add: journal_ok_simps predecessor_pair validate_predecessor_ok)
next
  case (advance a p b v u v')
  have "pending_validate x p (au_descriptor b) = Inr ()" "pt_phase p = Committed" "au_checkpoint b = pt_target p"
    using advance(3) by (auto simp: install_ok validate_predecessor_ok)
  moreover have "acyclic_pending p" using assms(2) advance(1) by (simp add: journal_ok_simps)
  ultimately show ?thesis
    using advance(2) install_valid(1) [OF advance(3)] by (simp add: journal_ok_simps target_pair)
next
  case (complete a stop c b v v')
  have "authority_validate x a = Inr ()" using assms(2) complete(1) by (simp add: journal_ok_simps)
  then have "authority_validate x b = Inr ()"
    using complete_request_ok(1) [OF complete(3)] complete(4) by (simp add: authority_validate_def result_simps)
  then show ?thesis using complete(2) by (simp add: journal_ok_simps)
next
  case (clear a p v u)
  then show ?thesis using assms(2) by (simp add: journal_ok_simps)
qed


section \<open>Refinement\<close>

text \<open>The world \<open>w\<close> has the journal \<open>j\<close> and otherwise the data of \<open>w0\<close>.\<close>

definition has_journal :: "world \<Rightarrow> journal \<Rightarrow> world \<Rightarrow> bool" where
  "has_journal w0 j w \<longleftrightarrow> (w_state w, w_pending w) = j \<and> w_files w = w_files w0 \<and>
     w_logs w = w_logs w0 \<and> w_inflight w = w_inflight w0 \<and> w_mirror w = w_mirror w0"

lemma has_journal_clock [simp]: "has_journal w0 j (w\<lparr> w_clock := n \<rparr>) = has_journal w0 j w"
  by (simp add: has_journal_def)

lemma has_journal_slots: "has_journal w0 (s, p) w \<Longrightarrow> w_state w = s" "has_journal w0 (s, p) w \<Longrightarrow> w_pending w = p"
  by (auto simp: has_journal_def)

lemma state_rest:
  "state_slot.rest w1 w \<Longrightarrow> has_journal w0 (s, p) w1 \<Longrightarrow> has_journal w0 (w_state w, p) w"
  by (auto simp: state_slot.rest_def has_journal_def)

lemma pending_rest:
  "pending_slot.rest w1 w \<Longrightarrow> has_journal w0 (s, p) w1 \<Longrightarrow> has_journal w0 (s, w_pending w) w"
  by (auto simp: pending_slot.rest_def has_journal_def)

lemma triple_state:
  assumes "\<And>w1. triple (\<lambda>w. state_slot.rest w1 w \<and> w_state w = s) m
      (\<lambda>r w. state_slot.rest w1 w \<and> Q r (w_state w)) (\<lambda>w. state_slot.rest w1 w \<and> E (w_state w))"
  shows "triple (has_journal w0 (s, p)) m (\<lambda>r w. \<exists>s'. has_journal w0 (s', p) w \<and> Q r s')
      (\<lambda>w. \<exists>s'. has_journal w0 (s', p) w \<and> E s')"
proof (rule tripleI)
  fix w1 r w
  assume "has_journal w0 (s, p) w1" "m w1 = (Inr r, w)"
  then show "\<exists>s'. has_journal w0 (s', p) w \<and> Q r s'"
    using tripleD(1) [OF assms, of w1 w1 r w] state_rest [of w1 w w0 s p]
    unfolding has_journal_slots(1) [OF \<open>has_journal w0 (s, p) w1\<close>] by auto
next
  fix w1 err w
  assume "has_journal w0 (s, p) w1" "m w1 = (Inl err, w)"
  then show "\<exists>s'. has_journal w0 (s', p) w \<and> E s'"
    using tripleD(2) [OF assms, of w1 w1 err w] state_rest [of w1 w w0 s p]
    unfolding has_journal_slots(1) [OF \<open>has_journal w0 (s, p) w1\<close>] by auto
qed

lemma triple_pending:
  assumes "\<And>w1. triple (\<lambda>w. pending_slot.rest w1 w \<and> w_pending w = p) m
      (\<lambda>r w. pending_slot.rest w1 w \<and> Q r (w_pending w)) (\<lambda>w. pending_slot.rest w1 w \<and> E (w_pending w))"
  shows "triple (has_journal w0 (s, p)) m (\<lambda>r w. \<exists>p'. has_journal w0 (s, p') w \<and> Q r p')
      (\<lambda>w. \<exists>p'. has_journal w0 (s, p') w \<and> E p')"
proof (rule tripleI)
  fix w1 r w
  assume "has_journal w0 (s, p) w1" "m w1 = (Inr r, w)"
  then show "\<exists>p'. has_journal w0 (s, p') w \<and> Q r p'"
    using tripleD(1) [OF assms, of w1 w1 r w] pending_rest [of w1 w w0 s p]
    unfolding has_journal_slots(2) [OF \<open>has_journal w0 (s, p) w1\<close>] by auto
next
  fix w1 err w
  assume "has_journal w0 (s, p) w1" "m w1 = (Inl err, w)"
  then show "\<exists>p'. has_journal w0 (s, p') w \<and> E p'"
    using tripleD(2) [OF assms, of w1 w1 err w] pending_rest [of w1 w w0 s p]
    unfolding has_journal_slots(2) [OF \<open>has_journal w0 (s, p) w1\<close>] by auto
qed

text \<open>Reads leave the journal alone.\<close>

lemma load_reads:
  assumes "\<And>w. has_journal w0 j w \<Longrightarrow> get w = s" "\<And>w n. get (w\<lparr> w_clock := n \<rparr>) = get w"
  shows "triple (has_journal w0 j) (slot_load e get) (\<lambda>r w. r = s \<and> has_journal w0 j w) (has_journal w0 j)"
  unfolding slot_load_def using assms by (intro triple_observe) auto

lemma require_reads:
  assumes "\<And>w. has_journal w0 j w \<Longrightarrow> get w = s" "\<And>w n. get (w\<lparr> w_clock := n \<rparr>) = get w"
  shows "triple (has_journal w0 j) (store_require e get v)
    (\<lambda>_ w. (\<exists>q. s = Some (v, q)) \<and> has_journal w0 j w) (has_journal w0 j)"
  unfolding store_require_def
  by (rule triple_bind [OF load_reads [OF assms]]) (auto simp: triple_def failIO_def returnIO_def split: option.splits)

lemma stabilize_reads:
  assumes "\<And>w. has_journal w0 j w \<Longrightarrow> get w = s" "\<And>w n. get (w\<lparr> w_clock := n \<rparr>) = get w"
  shows "triple (has_journal w0 j) (slot_stabilize e get v) (\<lambda>_. has_journal w0 j) (has_journal w0 j)"
  unfolding slot_stabilize_def
  by (rule triple_bind [OF load_reads [OF assms]]) (auto simp: triple_def failIO_def observe_def)

lemmas state_require = require_reads [where get = w_state]
lemmas pending_require = require_reads [where get = w_pending]

lemma store_load_triple:
  "triple (has_journal w0 (s, p)) (store_load e)
     (\<lambda>r w. r = (s, p) \<and> validate_journal (e_ext e) (s, p) = Inr () \<and> has_journal w0 (s, p) w)
     (has_journal w0 (s, p))"
proof -
  note reads = load_reads stabilize_reads
  have "triple (has_journal w0 (s, p)) (bindIO (slot_stabilize e w_state (map_option fst s)) (\<lambda>_.
     bindIO (slot_stabilize e w_pending (map_option fst p)) (\<lambda>_.
     bindIO (liftR (validate_journal (e_ext e) (s, p))) (\<lambda>_. returnIO (s, p)))))
     (\<lambda>r w. r = (s, p) \<and> validate_journal (e_ext e) (s, p) = Inr () \<and> has_journal w0 (s, p) w)
     (has_journal w0 (s, p))"
    by (intro triple_bind [OF stabilize_reads [OF has_journal_slots(1)]]
        triple_bind [OF stabilize_reads [OF has_journal_slots(2)]] triple_bind_lift triple_return) auto
  then show ?thesis
    unfolding store_load_def
    by (intro triple_bind_eq [OF load_reads [OF has_journal_slots(1)]]
        triple_bind_eq [OF load_reads [OF has_journal_slots(2)]]) auto
qed


text \<open>
  An atomic operation on the journal: on success it took the effect \<open>J\<close>; on failure it took the
  effect or none.
\<close>

definition atomically :: "world \<Rightarrow> journal \<Rightarrow> 'a io \<Rightarrow> ('a \<Rightarrow> journal \<Rightarrow> bool) \<Rightarrow> bool" where
  "atomically w0 j m J \<longleftrightarrow>
     triple (has_journal w0 j) m (\<lambda>r w. \<exists>k. J r k \<and> has_journal w0 k w)
       (\<lambda>w. has_journal w0 j w \<or> (\<exists>r k. J r k \<and> has_journal w0 k w))"

lemma atomically_lift:
  "(\<And>v. r = Inr v \<Longrightarrow> atomically w0 j (f v) J) \<Longrightarrow> atomically w0 j (bindIO (liftR r) f) J"
  unfolding atomically_def by (rule triple_bind_lift) auto

lemma atomically_require_state:
  assumes "\<And>q. s = Some (v, q) \<Longrightarrow> atomically w0 (s, p) m J"
  shows "atomically w0 (s, p) (bindIO (store_require e w_state v) (\<lambda>_. m)) J"
proof -
  have "triple (has_journal w0 (s, p)) (store_require e w_state v)
     (\<lambda>_ w. (\<exists>q. s = Some (v, q)) \<and> has_journal w0 (s, p) w)
     (\<lambda>w. has_journal w0 (s, p) w \<or> (\<exists>r k. J r k \<and> has_journal w0 k w))"
    by (rule triple_conseq [OF require_reads [OF has_journal_slots(1)]]) auto
  then show ?thesis
    unfolding atomically_def by (rule triple_bind_pure) (use assms in \<open>auto simp: atomically_def\<close>)
qed

lemma atomically_require_pending:
  assumes "\<And>q. p = Some (v, q) \<Longrightarrow> atomically w0 (s, p) m J"
  shows "atomically w0 (s, p) (bindIO (store_require e w_pending v) (\<lambda>_. m)) J"
proof -
  have "triple (has_journal w0 (s, p)) (store_require e w_pending v)
     (\<lambda>_ w. (\<exists>q. p = Some (v, q)) \<and> has_journal w0 (s, p) w)
     (\<lambda>w. has_journal w0 (s, p) w \<or> (\<exists>r k. J r k \<and> has_journal w0 k w))"
    by (rule triple_conseq [OF require_reads [OF has_journal_slots(2)]]) auto
  then show ?thesis
    unfolding atomically_def by (rule triple_bind_pure) (use assms in \<open>auto simp: atomically_def\<close>)
qed

lemma atomically_load:
  assumes "validate_journal (e_ext e) (s, p) = Inr () \<Longrightarrow> atomically w0 (s, p) (f (s, p)) J"
  shows "atomically w0 (s, p) (bindIO (store_load e) f) J"
proof -
  have "triple (has_journal w0 (s, p)) (store_load e)
     (\<lambda>r w. r = (s, p) \<and> validate_journal (e_ext e) (s, p) = Inr () \<and> has_journal w0 (s, p) w)
     (\<lambda>w. has_journal w0 (s, p) w \<or> (\<exists>r k. J r k \<and> has_journal w0 k w))"
    by (rule triple_conseq [OF store_load_triple]) auto
  then show ?thesis
    unfolding atomically_def
    by (rule triple_bind_eq) (use assms in \<open>auto intro!: triple_pre_pure simp: atomically_def\<close>)
qed

lemma atomically_create_state:
  assumes "\<And>v. s = None \<Longrightarrow> J (v, a) (Some (v, a), p)"
  shows "atomically w0 (s, p) (bindIO (slot_create e authority_json w_state set_state a) (\<lambda>v. returnIO (v, a))) J"
proof -
  have "triple (has_journal w0 (s, p)) (slot_create e authority_json w_state set_state a)
     (\<lambda>v w. \<exists>s'. has_journal w0 (s', p) w \<and> s' = Some (v, a) \<and> s = None)
     (\<lambda>w. \<exists>s'. has_journal w0 (s', p) w \<and> (s' = s \<or> (s = None \<and> (\<exists>v. s' = Some (v, a)))))"
    by (rule triple_state, rule triple_conseq [OF state_slot.create_triple [where s = s and p = a]]) auto
  then show ?thesis
    unfolding atomically_def by (rule triple_seq) (use assms in blast)+
qed

lemma atomically_create_pending:
  assumes "\<And>v. p = None \<Longrightarrow> J (v, q) (s, Some (v, q))"
  shows "atomically w0 (s, p) (bindIO (slot_create e pending_json w_pending set_pending q) (\<lambda>v. returnIO (v, q))) J"
proof -
  have "triple (has_journal w0 (s, p)) (slot_create e pending_json w_pending set_pending q)
     (\<lambda>v w. \<exists>p'. has_journal w0 (s, p') w \<and> p' = Some (v, q) \<and> p = None)
     (\<lambda>w. \<exists>p'. has_journal w0 (s, p') w \<and> (p' = p \<or> (p = None \<and> (\<exists>v. p' = Some (v, q)))))"
    by (rule triple_pending, rule triple_conseq [OF pending_slot.create_triple [where s = p and p = q]]) auto
  then show ?thesis
    unfolding atomically_def by (rule triple_seq) (use assms in blast)+
qed

lemma atomically_replace_state:
  assumes "\<And>v' b. s = Some (v, b) \<Longrightarrow> J (v', a) (Some (v', a), p)"
  shows "atomically w0 (s, p) (bindIO (slot_replace e authority_json w_state set_state v a) (\<lambda>v. returnIO (v, a))) J"
proof -
  have "triple (has_journal w0 (s, p)) (slot_replace e authority_json w_state set_state v a)
     (\<lambda>v' w. \<exists>s'. has_journal w0 (s', p) w \<and> s' = Some (v', a) \<and> (\<exists>b. s = Some (v, b)))
     (\<lambda>w. \<exists>s'. has_journal w0 (s', p) w \<and> (s' = s \<or> (\<exists>v' b. s' = Some (v', a) \<and> s = Some (v, b))))"
    by (rule triple_state, rule triple_conseq [OF state_slot.replace_triple [where s = s and p = a and v = v]]) auto
  then show ?thesis
    unfolding atomically_def by (rule triple_seq) (use assms in blast)+
qed

lemma atomically_replace_pending:
  assumes "\<And>v' b. p = Some (v, b) \<Longrightarrow> J (v', q) (s, Some (v', q))"
  shows "atomically w0 (s, p) (bindIO (slot_replace e pending_json w_pending set_pending v q) (\<lambda>v. returnIO (v, q))) J"
proof -
  have "triple (has_journal w0 (s, p)) (slot_replace e pending_json w_pending set_pending v q)
     (\<lambda>v' w. \<exists>p'. has_journal w0 (s, p') w \<and> p' = Some (v', q) \<and> (\<exists>b. p = Some (v, b)))
     (\<lambda>w. \<exists>p'. has_journal w0 (s, p') w \<and> (p' = p \<or> (\<exists>v' b. p' = Some (v', q) \<and> p = Some (v, b))))"
    by (rule triple_pending, rule triple_conseq [OF pending_slot.replace_triple [where s = p and p = q and v = v]]) auto
  then show ?thesis
    unfolding atomically_def by (rule triple_seq) (use assms in blast)+
qed

lemma atomically_remove_pending:
  assumes "\<And>q. p = Some (v, q) \<Longrightarrow> J () (s, None)"
  shows "atomically w0 (s, p) (slot_remove e w_pending set_pending v) J"
proof -
  have "triple (has_journal w0 (s, p)) (slot_remove e w_pending set_pending v)
     (\<lambda>_ w. \<exists>p'. has_journal w0 (s, p') w \<and> p' = None \<and> (\<exists>q. p = Some (v, q)))
     (\<lambda>w. \<exists>p'. has_journal w0 (s, p') w \<and> (p' = p \<or> (p' = None \<and> (\<exists>q. p = Some (v, q)))))"
    by (rule triple_pending, rule triple_conseq [OF pending_slot.remove_triple [where s = p and v = v]]) auto
  then show ?thesis
    unfolding atomically_def by (rule triple_conseq) (use assms in \<open>fastforce+\<close>)
qed

section \<open>Operations as steps\<close>

text \<open>
  A handle held by a caller is coherent with a slot when the payload it carries is the one stored
  under its version, which the private version field of \<open>Versioned\<close> guarantees.
\<close>

definition coherent :: "'a slot \<Rightarrow> 'a versioned \<Rightarrow> bool" where
  "coherent s h \<longleftrightarrow> (\<forall>b. s = Some (fst h, b) \<longrightarrow> b = snd h)"

lemma coherentD: "coherent s h \<Longrightarrow> s = Some (fst h, b) \<Longrightarrow> s = Some h"
  by (cases h) (simp add: coherent_def)

lemma coherent_self [simp]: "coherent (Some h) h" "coherent None h"
  by (cases h; simp add: coherent_def)+

lemma initialize_atomic:
  "atomically w0 (s, p) (store_initialize e a) (\<lambda>r k. snd r = a \<and> authority_validate (e_ext e) a = Inr () \<and>
     empty_checkpoint (au_checkpoint a) \<and> (s, p) = (None, None) \<and> k = (Some r, None))"
  unfolding store_initialize_def
  by (intro atomically_lift atomically_load atomically_create_state) simp

lemma begin_atomic:
  assumes "coherent s a"
  shows "atomically w0 (s, p) (store_begin e a q) (\<lambda>r k. snd r = q \<and>
     validate_predecessor (e_ext e) (snd a) q = Inr () \<and> fresh_pending q \<and>
     (s, p) = (Some a, None) \<and> k = (Some a, Some r))"
  unfolding store_begin_def
  by (intro atomically_require_state atomically_lift atomically_create_pending)
    (use coherentD [OF assms] in auto)

lemma receipts_atomic:
  assumes "coherent s a" "coherent p h"
  shows "atomically w0 (s, p) (store_record_receipts e a h rs) (\<lambda>r k.
     with_receipts (e_ext e) (au_descriptor (snd a)) (snd h) rs = Inr (snd r) \<and>
     validate_predecessor (e_ext e) (snd a) (snd h) = Inr () \<and> rs \<noteq> [] \<and>
     (s, p) = (Some a, Some h) \<and> k = (Some a, Some r))"
  unfolding store_record_receipts_def
  by (intro atomically_require_state atomically_lift atomically_replace_pending)
    (use coherentD [OF assms(1)] coherentD [OF assms(2)] in auto)

lemma mark_committed_atomic:
  assumes "coherent s a" "coherent p h"
  shows "atomically w0 (s, p) (store_mark_committed e a h) (\<lambda>r k.
     committed_after_verification (e_ext e) (snd h) (au_descriptor (snd a)) = Inr (snd r) \<and>
     validate_predecessor (e_ext e) (snd a) (snd h) = Inr () \<and> pt_phase (snd h) = Writing \<and>
     (s, p) = (Some a, Some h) \<and> k = (Some a, Some r))"
  unfolding store_mark_committed_def
  by (intro atomically_require_state atomically_lift atomically_replace_pending)
    (use coherentD [OF assms(1)] coherentD [OF assms(2)] in auto)

lemma advance_atomic:
  assumes "coherent s a" "coherent p h"
  shows "atomically w0 (s, p) (store_advance e a h) (\<lambda>r k.
     install (e_ext e) (snd a) (snd h) = Inr (snd r) \<and>
     (s, p) = (Some a, Some h) \<and> k = (Some r, Some h))"
  unfolding store_advance_def
  by (intro atomically_require_pending atomically_lift atomically_replace_state)
    (use coherentD [OF assms(1)] coherentD [OF assms(2)] in auto)

lemma complete_atomic:
  assumes "coherent s a"
  shows "atomically w0 (s, p) (store_complete_request e a stop) (\<lambda>r k.
     complete_request (e_ext e) (au_checkpoint (snd a)) (au_descriptor (snd a)) stop =
       Inr (au_checkpoint (snd r)) \<and> au_descriptor (snd r) = au_descriptor (snd a) \<and>
     (s, p) = (Some a, None) \<and> k = (Some r, None))"
  unfolding store_complete_request_def
  by (rule atomically_load, unfold prod.case Let_def, intro atomically_lift atomically_replace_state)
    (use coherentD [OF assms] in auto)

lemma clear_atomic:
  assumes "coherent s a" "coherent p h"
  shows "atomically w0 (s, p) (store_clear e a h) (\<lambda>_ k.
     clearable (e_ext e) (snd a) (snd h) = Inr () \<and>
     (s, p) = (Some a, Some h) \<and> k = (Some a, None))"
  unfolding store_clear_def
  by (intro atomically_require_state atomically_lift atomically_remove_pending)
    (use coherentD [OF assms(1)] coherentD [OF assms(2)] in auto)

section \<open>Sequences of operations\<close>

datatype store_op =
    OpLoad
  | OpInitialize authority_state
  | OpBegin "authority_state versioned" pending_transaction
  | OpReceipts "authority_state versioned" "pending_transaction versioned" "(nat \<times> part_receipt) list"
  | OpCommit "authority_state versioned" "pending_transaction versioned"
  | OpAdvance "authority_state versioned" "pending_transaction versioned"
  | OpComplete "authority_state versioned" nat
  | OpClear "authority_state versioned" "pending_transaction versioned"

definition ignore :: "'a io \<Rightarrow> unit io" where
  "ignore m = bindIO m (\<lambda>_. returnIO ())"

fun run_op :: "env \<Rightarrow> store_op \<Rightarrow> unit io" where
  "run_op e OpLoad = ignore (store_load e)"
| "run_op e (OpInitialize a) = ignore (store_initialize e a)"
| "run_op e (OpBegin a p) = ignore (store_begin e a p)"
| "run_op e (OpReceipts a h rs) = ignore (store_record_receipts e a h rs)"
| "run_op e (OpCommit a h) = ignore (store_mark_committed e a h)"
| "run_op e (OpAdvance a h) = ignore (store_advance e a h)"
| "run_op e (OpComplete a stop) = ignore (store_complete_request e a stop)"
| "run_op e (OpClear a h) = store_clear e a h"

text \<open>The handles of an operation are coherent with the journal it meets.\<close>

fun op_coherent :: "journal \<Rightarrow> store_op \<Rightarrow> bool" where
  "op_coherent (s, p) (OpBegin a q) \<longleftrightarrow> coherent s a \<and> acyclic_pending q"
| "op_coherent (s, p) (OpReceipts a h rs) \<longleftrightarrow> coherent s a \<and> coherent p h"
| "op_coherent (s, p) (OpCommit a h) \<longleftrightarrow> coherent s a \<and> coherent p h"
| "op_coherent (s, p) (OpAdvance a h) \<longleftrightarrow> coherent s a \<and> coherent p h"
| "op_coherent (s, p) (OpComplete a stop) \<longleftrightarrow> coherent s a"
| "op_coherent (s, p) (OpClear a h) \<longleftrightarrow> coherent s a \<and> coherent p h"
| "op_coherent (s, p) _ \<longleftrightarrow> True"

lemma atomically_ignore:
  assumes "atomically w0 j m J" "\<And>r k. J r k \<Longrightarrow> K k"
  shows "atomically w0 j (ignore m) (\<lambda>_. K)"
  unfolding atomically_def ignore_def
  by (rule triple_seq [OF assms(1) [unfolded atomically_def]]) (use assms(2) in blast)+

lemma atomically_weaken: "atomically w0 j m J \<Longrightarrow> (\<And>r k. J r k \<Longrightarrow> K r k) \<Longrightarrow> atomically w0 j m K"
  unfolding atomically_def by (erule triple_conseq) blast+

lemma run_op_atomic:
  assumes "op_coherent (s, p) op"
  shows "atomically w0 (s, p) (run_op e op) (\<lambda>_ k. (k = (s, p) \<and> op = OpLoad) \<or>
    (journal_step (e_ext e) (s, p) k \<and> (\<forall>u q. snd k = Some (u, q) \<longrightarrow> p = None \<longrightarrow> acyclic_pending q)))"
proof (cases op)
  case OpLoad
  have "atomically w0 (s, p) (store_load e) (\<lambda>r k. k = (s, p))"
    unfolding atomically_def by (rule triple_conseq [OF store_load_triple]) auto
  then show ?thesis unfolding OpLoad run_op.simps by (rule atomically_ignore) simp
next
  case (OpInitialize a)
  show ?thesis unfolding OpInitialize run_op.simps
    by (rule atomically_ignore [OF initialize_atomic]) (auto intro: journal_step.initialize)
next
  case (OpBegin a q)
  then have "coherent s a" "acyclic_pending q" using assms by simp_all
  then show ?thesis unfolding OpBegin run_op.simps
    by (intro atomically_ignore [OF begin_atomic]) (auto intro: journal_step.started [where a = "snd a" and v = "fst a", simplified])
next
  case (OpReceipts a h rs)
  then have "coherent s a" "coherent p h" using assms by simp_all
  then show ?thesis unfolding OpReceipts run_op.simps
    by (rule atomically_ignore [OF receipts_atomic]) (cases a, cases h, auto intro: journal_step.receipts)
next
  case (OpCommit a h)
  then have "coherent s a" "coherent p h" using assms by simp_all
  then show ?thesis unfolding OpCommit run_op.simps
    by (rule atomically_ignore [OF mark_committed_atomic]) (cases a, cases h, auto intro: journal_step.commit)
next
  case (OpAdvance a h)
  then have "coherent s a" "coherent p h" using assms by simp_all
  then show ?thesis unfolding OpAdvance run_op.simps
    by (rule atomically_ignore [OF advance_atomic]) (cases a, cases h, auto intro: journal_step.advance)
next
  case (OpComplete a stop)
  then have "coherent s a" using assms by simp
  then show ?thesis unfolding OpComplete run_op.simps
    by (rule atomically_ignore [OF complete_atomic]) (cases a, fastforce intro: journal_step.complete)
next
  case (OpClear a h)
  then have "coherent s a" "coherent p h" using assms by simp_all
  then show ?thesis unfolding OpClear run_op.simps
    by (rule atomically_weaken [OF clear_atomic]) (cases a, cases h, auto intro: journal_step.clear)
qed


section \<open>Success in a healthy environment\<close>

definition performs :: "world \<Rightarrow> journal \<Rightarrow> 'a io \<Rightarrow> ('a \<Rightarrow> journal \<Rightarrow> bool) \<Rightarrow> bool" where
  "performs w0 j m J \<longleftrightarrow>
     triple (has_journal w0 j) m (\<lambda>r w. \<exists>k. J r k \<and> has_journal w0 k w) (\<lambda>_. False)"

lemma performs_lift: "r = Inr v \<Longrightarrow> performs w0 j (f v) J \<Longrightarrow> performs w0 j (bindIO (liftR r) f) J"
  unfolding performs_def by (rule triple_lift_ok)

lemma load_total:
  assumes "healthy e" "\<And>w. has_journal w0 j w \<Longrightarrow> get w = s"
  shows "triple (has_journal w0 j) (slot_load e get) (\<lambda>r w. r = s \<and> has_journal w0 j w) E"
  unfolding slot_load_def using assms(2) by (intro observe_total [OF assms(1)]) auto

lemma performs_require_state:
  assumes "healthy e" "performs w0 (Some (v, q), p) m J"
  shows "performs w0 (Some (v, q), p) (bindIO (store_require e w_state v) (\<lambda>_. m)) J"
  unfolding performs_def store_require_def
  by (rule triple_bind [where R = "\<lambda>_. has_journal w0 (Some (v, q), p)"],
      rule triple_bind_eq [OF load_total [OF assms(1) has_journal_slots(1)]])
    (use assms(2) in \<open>auto simp: performs_def\<close>)

lemma performs_require_pending:
  assumes "healthy e" "performs w0 (s, Some (v, q)) m J"
  shows "performs w0 (s, Some (v, q)) (bindIO (store_require e w_pending v) (\<lambda>_. m)) J"
  unfolding performs_def store_require_def
  by (rule triple_bind [where R = "\<lambda>_. has_journal w0 (s, Some (v, q))"],
      rule triple_bind_eq [OF load_total [OF assms(1) has_journal_slots(2)]])
    (use assms(2) in \<open>auto simp: performs_def\<close>)

lemma stabilize_total:
  assumes "healthy e" "\<And>w. has_journal w0 j w \<Longrightarrow> get w = s" "map_option fst s = v"
  shows "triple (has_journal w0 j) (slot_stabilize e get v) (\<lambda>_. has_journal w0 j) E"
  unfolding slot_stabilize_def
  by (rule triple_bind_eq [OF load_total [OF assms(1,2)]], assumption)
    (use assms(3) in \<open>auto intro!: observe_total [OF assms(1)]\<close>)

lemma store_load_total:
  assumes "healthy e" "validate_journal (e_ext e) (s, p) = Inr ()"
  shows "triple (has_journal w0 (s, p)) (store_load e) (\<lambda>r w. r = (s, p) \<and> has_journal w0 (s, p) w) (\<lambda>_. False)"
proof -
  have "triple (has_journal w0 (s, p)) (bindIO (slot_stabilize e w_state (map_option fst s)) (\<lambda>_.
     bindIO (slot_stabilize e w_pending (map_option fst p)) (\<lambda>_.
     bindIO (liftR (validate_journal (e_ext e) (s, p))) (\<lambda>_. returnIO (s, p)))))
     (\<lambda>r w. r = (s, p) \<and> has_journal w0 (s, p) w) (\<lambda>_. False)"
    by (intro triple_bind [OF stabilize_total [OF assms(1) has_journal_slots(1)]]
        triple_bind [OF stabilize_total [OF assms(1) has_journal_slots(2)]] triple_lift_ok [OF assms(2)]
        triple_return) auto
  then show ?thesis
    unfolding store_load_def
    by (intro triple_bind_eq [OF load_total [OF assms(1) has_journal_slots(1)]]
        triple_bind_eq [OF load_total [OF assms(1) has_journal_slots(2)]]) auto
qed

lemma performs_load:
  assumes "healthy e" "validate_journal (e_ext e) (s, p) = Inr ()" "performs w0 (s, p) (f (s, p)) J"
  shows "performs w0 (s, p) (bindIO (store_load e) f) J"
  unfolding performs_def
  by (rule triple_bind_eq [OF store_load_total [OF assms(1,2)]]) (use assms(3) in \<open>simp add: performs_def\<close>)

lemma performs_create_state:
  assumes "healthy e" "\<And>v. cv_revision v = 0 \<Longrightarrow> J (v, a) (Some (v, a), p)"
  shows "performs w0 (None, p) (bindIO (slot_create e authority_json w_state set_state a) (\<lambda>v. returnIO (v, a))) J"
proof -
  have "triple (has_journal w0 (None, p)) (slot_create e authority_json w_state set_state a)
     (\<lambda>v w. \<exists>s'. has_journal w0 (s', p) w \<and> s' = Some (v, a) \<and> cv_revision v = 0) (\<lambda>w. \<exists>s'. has_journal w0 (s', p) w \<and> False)"
    by (rule triple_state, rule triple_conseq [OF state_slot.create_total [OF assms(1), where p = a]]) auto
  then show ?thesis unfolding performs_def by (rule triple_seq) (use assms(2) in blast)+
qed

lemma performs_create_pending:
  assumes "healthy e" "\<And>v. cv_revision v = 0 \<Longrightarrow> J (v, q) (s, Some (v, q))"
  shows "performs w0 (s, None) (bindIO (slot_create e pending_json w_pending set_pending q) (\<lambda>v. returnIO (v, q))) J"
proof -
  have "triple (has_journal w0 (s, None)) (slot_create e pending_json w_pending set_pending q)
     (\<lambda>v w. \<exists>p'. has_journal w0 (s, p') w \<and> p' = Some (v, q) \<and> cv_revision v = 0) (\<lambda>w. \<exists>p'. has_journal w0 (s, p') w \<and> False)"
    by (rule triple_pending, rule triple_conseq [OF pending_slot.create_total [OF assms(1), where p = q]]) auto
  then show ?thesis unfolding performs_def by (rule triple_seq) (use assms(2) in blast)+
qed

lemma performs_replace_state:
  assumes "healthy e" "cv_revision v < u64_max"
    "\<And>v'. cv_revision v' = cv_revision v + 1 \<Longrightarrow> J (v', a) (Some (v', a), p)"
  shows "performs w0 (Some (v, b), p) (bindIO (slot_replace e authority_json w_state set_state v a) (\<lambda>v. returnIO (v, a))) J"
proof -
  have "triple (has_journal w0 (Some (v, b), p)) (slot_replace e authority_json w_state set_state v a)
     (\<lambda>v' w. \<exists>s'. has_journal w0 (s', p) w \<and> s' = Some (v', a) \<and> cv_revision v' = cv_revision v + 1)
     (\<lambda>w. \<exists>s'. has_journal w0 (s', p) w \<and> False)"
    by (rule triple_state, rule triple_conseq [OF state_slot.replace_total [OF assms(1,2), where p = a and q = b]]) auto
  then show ?thesis unfolding performs_def by (rule triple_seq) (use assms(3) in blast)+
qed

lemma performs_replace_pending:
  assumes "healthy e" "cv_revision v < u64_max"
    "\<And>v'. cv_revision v' = cv_revision v + 1 \<Longrightarrow> J (v', q) (s, Some (v', q))"
  shows "performs w0 (s, Some (v, b)) (bindIO (slot_replace e pending_json w_pending set_pending v q) (\<lambda>v. returnIO (v, q))) J"
proof -
  have "triple (has_journal w0 (s, Some (v, b))) (slot_replace e pending_json w_pending set_pending v q)
     (\<lambda>v' w. \<exists>p'. has_journal w0 (s, p') w \<and> p' = Some (v', q) \<and> cv_revision v' = cv_revision v + 1)
     (\<lambda>w. \<exists>p'. has_journal w0 (s, p') w \<and> False)"
    by (rule triple_pending, rule triple_conseq [OF pending_slot.replace_total [OF assms(1,2), where p = q and q = b]]) auto
  then show ?thesis unfolding performs_def by (rule triple_seq) (use assms(3) in blast)+
qed

lemma performs_remove_pending:
  assumes "healthy e" "J () (s, None)"
  shows "performs w0 (s, Some (v, q)) (slot_remove e w_pending set_pending v) J"
proof -
  have "triple (has_journal w0 (s, Some (v, q))) (slot_remove e w_pending set_pending v)
     (\<lambda>_ w. \<exists>p'. has_journal w0 (s, p') w \<and> p' = None) (\<lambda>w. \<exists>p'. has_journal w0 (s, p') w \<and> False)"
    by (rule triple_pending, rule triple_conseq [OF pending_slot.remove_total [OF assms(1), where v = v and q = q and E = "\<lambda>_. False"]]) auto
  then show ?thesis unfolding performs_def by (rule triple_conseq) (use assms(2) in auto)
qed

lemma initialize_performs:
  assumes "healthy e" "authority_validate (e_ext e) a = Inr ()" "empty_checkpoint (au_checkpoint a)"
  shows "performs w0 (None, None) (store_initialize e a) (\<lambda>r k. snd r = a \<and> cv_revision (fst r) = 0 \<and> k = (Some r, None))"
  unfolding store_initialize_def
  by (intro performs_lift [OF assms(2)] performs_lift [of "require _ _"] performs_load [OF assms(1)]
      performs_create_state [OF assms(1)]) (use assms(3) in \<open>simp_all add: validate_journal_def\<close>)

lemma begin_performs:
  assumes "healthy e" "validate_predecessor (e_ext e) (snd a) q = Inr ()" "fresh_pending q"
  shows "performs w0 (Some a, None) (store_begin e a q) (\<lambda>r k. snd r = q \<and> cv_revision (fst r) = 0 \<and> k = (Some a, Some r))"
proof (cases a)
  case (Pair v b)
  then show ?thesis
    unfolding store_begin_def Pair fst_conv
    by (intro performs_require_state [OF assms(1)] performs_lift [of "require _ _"] performs_create_pending [OF assms(1)]
      performs_lift [OF assms(2) [unfolded Pair]]) (use assms(3) in simp_all)
qed

lemma receipts_performs:
  assumes "healthy e" "validate_predecessor (e_ext e) (snd a) (snd h) = Inr ()" "rs \<noteq> []"
    "with_receipts (e_ext e) (au_descriptor (snd a)) (snd h) rs = Inr q" "cv_revision (fst h) < u64_max"
  shows "performs w0 (Some a, Some h) (store_record_receipts e a h rs) (\<lambda>r k. snd r = q \<and>
    cv_revision (fst r) = cv_revision (fst h) + 1 \<and> k = (Some a, Some r))"
proof (cases a; cases h)
  fix v b u p
  assume ah: "a = (v, b)" "h = (u, p)"
  show ?thesis
    unfolding store_record_receipts_def ah fst_conv
    by (intro performs_lift [of "require _ _"] performs_require_state [OF assms(1)] performs_lift [OF assms(2) [unfolded ah]]
      performs_lift [OF assms(4) [unfolded ah]] performs_replace_pending [OF assms(1)]) (use assms(3,5) ah in simp_all)
qed

lemma mark_committed_performs:
  assumes "healthy e" "validate_predecessor (e_ext e) (snd a) (snd h) = Inr ()" "pt_phase (snd h) = Writing"
    "committed_after_verification (e_ext e) (snd h) (au_descriptor (snd a)) = Inr q" "cv_revision (fst h) < u64_max"
  shows "performs w0 (Some a, Some h) (store_mark_committed e a h) (\<lambda>r k. snd r = q \<and>
    cv_revision (fst r) = cv_revision (fst h) + 1 \<and> k = (Some a, Some r))"
proof (cases a; cases h)
  fix v b u p
  assume ah: "a = (v, b)" "h = (u, p)"
  show ?thesis
    unfolding store_mark_committed_def ah fst_conv
    by (intro performs_lift [of "require _ _"] performs_require_state [OF assms(1)] performs_lift [OF assms(2) [unfolded ah]]
      performs_lift [OF assms(4) [unfolded ah]] performs_replace_pending [OF assms(1)]) (use assms(3,5) ah in simp_all)
qed

lemma advance_performs:
  assumes "healthy e" "install (e_ext e) (snd a) (snd h) = Inr b" "cv_revision (fst a) < u64_max"
  shows "performs w0 (Some a, Some h) (store_advance e a h) (\<lambda>r k. snd r = b \<and>
    cv_revision (fst r) = cv_revision (fst a) + 1 \<and> k = (Some r, Some h))"
proof (cases a; cases h)
  fix v c u p
  assume ah: "a = (v, c)" "h = (u, p)"
  show ?thesis
    unfolding store_advance_def ah fst_conv
    by (intro performs_require_pending [OF assms(1)] performs_lift [OF assms(2) [unfolded ah]]
      performs_replace_state [OF assms(1)]) (use assms(3) ah in simp_all)
qed

lemma clear_performs:
  assumes "healthy e" "clearable (e_ext e) (snd a) (snd h) = Inr ()"
  shows "performs w0 (Some a, Some h) (store_clear e a h) (\<lambda>_ k. k = (Some a, None))"
proof (cases a; cases h)
  fix v c u p
  assume ah: "a = (v, c)" "h = (u, p)"
  show ?thesis
    unfolding store_clear_def ah fst_conv
    by (intro performs_require_state [OF assms(1)] performs_lift [OF assms(2) [unfolded ah]]
      performs_remove_pending [OF assms(1)]) simp
qed

section \<open>Properties\<close>

abbreviation journal_of :: "world \<Rightarrow> journal" where
  "journal_of w \<equiv> (w_state w, w_pending w)"

lemma has_journal_of: "has_journal w (journal_of w) w"
  by (simp add: has_journal_def)

lemma has_journal_eq: "has_journal w0 k w \<Longrightarrow> journal_of w = k"
  by (simp add: has_journal_def)

lemma atomicallyD:
  assumes "atomically w0 j m J" "has_journal w0 j w" "m w = (r, w')"
  obtains "has_journal w0 j w'" "\<not> is_ok r" | a k where "J a k" "has_journal w0 k w'"
proof (cases r)
  case (Inl err)
  then show ?thesis
    using tripleD(2) [OF assms(1) [unfolded atomically_def] assms(2), of err w'] assms(3) that by auto
next
  case (Inr a)
  then show ?thesis
    using tripleD(1) [OF assms(1) [unfolded atomically_def] assms(2), of a w'] assms(3) that by blast
qed

lemma run_op_result:
  assumes "op_coherent (journal_of w) op" "run_op e op w = (r, w')"
  obtains "has_journal w (journal_of w) w'" "\<not> is_ok r \<or> op = OpLoad"
  | "has_journal w (journal_of w') w'" "journal_step (e_ext e) (journal_of w) (journal_of w')"
    "\<forall>u q. w_pending w' = Some (u, q) \<longrightarrow> w_pending w = None \<longrightarrow> acyclic_pending q"
proof (rule atomicallyD [OF run_op_atomic [OF assms(1), of w e] has_journal_of assms(2)])
  assume "has_journal w (journal_of w) w'" "\<not> is_ok r"
  then show ?thesis using that(1) by blast
next
  fix u k
  assume k: "(k = journal_of w \<and> op = OpLoad) \<or> (journal_step (e_ext e) (journal_of w) k \<and>
      (\<forall>u q. snd k = Some (u, q) \<longrightarrow> w_pending w = None \<longrightarrow> acyclic_pending q))" "has_journal w k w'"
  show ?thesis
  proof (cases "k = journal_of w \<and> op = OpLoad")
    case True
    with k(2) that(1) show ?thesis by blast
  next
    case False
    with k(1) have "journal_step (e_ext e) (journal_of w) k"
      "\<forall>u q. snd k = Some (u, q) \<longrightarrow> w_pending w = None \<longrightarrow> acyclic_pending q" by blast+
    with k(2) show ?thesis unfolding has_journal_eq [OF k(2), symmetric] by (intro that(2)) simp_all
  qed
qed

text \<open>
  C22. Every operation of the transaction store, whatever request of it fails, leaves
  the part files, the Delta logs and the mirror alone and either leaves the pair of control slots as
  it was or takes one step of the abstract journal; an operation other than a load that reports
  success took its step.
\<close>

theorem store_op_refines:
  assumes "op_coherent (journal_of w) op" "run_op e op w = (r, w')"
  shows "(w_files w', w_logs w', w_inflight w', w_mirror w') = (w_files w, w_logs w, w_inflight w, w_mirror w) \<and>
    (journal_of w' = journal_of w \<or> journal_step (e_ext e) (journal_of w) (journal_of w')) \<and>
    (r = Inr () \<and> op \<noteq> OpLoad \<longrightarrow> journal_step (e_ext e) (journal_of w) (journal_of w'))"
  by (rule run_op_result [OF assms]) (auto simp: has_journal_def)

lemma initial_empty: "authority_initial x d = Inr a \<Longrightarrow> empty_checkpoint (au_checkpoint a)"
  by (auto simp: empty_checkpoint_def authority_initial_def checkpoint_initial_def Let_def result_simps)

lemma sample_initialize:
  obtains v w where "run_op sample_env (OpInitialize sample_authority) empty_world = (Inr (), w)"
    "w_state w = Some (v, sample_authority)" "w_pending w = None"
proof -
  have t: "triple (has_journal empty_world (None, None)) (store_initialize sample_env sample_authority)
      (\<lambda>r w. \<exists>k. (snd r = sample_authority \<and> cv_revision (fst r) = 0 \<and> k = (Some r, None)) \<and>
        has_journal empty_world k w) (\<lambda>_. False)"
    using initialize_performs [OF sample_env_healthy _ initial_empty [OF sample_authority_eq], of empty_world]
      sample_authority_valid
    unfolding performs_def by simp
  have "has_journal empty_world (None, None) empty_world" by (simp add: has_journal_def empty_world_def)
  from tripleD [OF t this] obtain r w where
    "store_initialize sample_env sample_authority empty_world = (Inr r, w)" "snd r = sample_authority"
    "has_journal empty_world (Some r, None) w"
    by (cases "store_initialize sample_env sample_authority empty_world"; cases "fst (store_initialize sample_env sample_authority empty_world)") auto
  moreover then have "r = (fst r, sample_authority)" by (simp add: prod_eq_iff)
  ultimately show ?thesis
    by (intro that [of w "fst r"]) (auto simp: ignore_def bindIO_def returnIO_def has_journal_def)
qed

theorem store_op_refines_witness:
  "\<exists>w'. run_op sample_env (OpInitialize sample_authority) empty_world = (Inr (), w') \<and>
     journal_step sample_ext (None, None) (journal_of w') \<and> w_files w' = w_files empty_world"
proof -
  obtain v w where w: "run_op sample_env (OpInitialize sample_authority) empty_world = (Inr (), w)"
    by (rule sample_initialize)
  from store_op_refines [OF _ w] show ?thesis
    using w by (auto simp: empty_world_def)
qed

text \<open>
  Worlds reached from an empty journal by any sequence of store operations, each under its own
  faults, so that the sequence may contain crashes and restarts.
\<close>

inductive store_reach :: "ext \<Rightarrow> world \<Rightarrow> bool" for x where
  empty: "w_state w = None \<Longrightarrow> w_pending w = None \<Longrightarrow> store_reach x w"
| step: "store_reach x w \<Longrightarrow> e_ext e = x \<Longrightarrow> op_coherent (journal_of w) op \<Longrightarrow>
    run_op e op w = (r, w') \<Longrightarrow> store_reach x w'"

lemma store_reach_ok: "store_reach x w \<Longrightarrow> journal_ok x (journal_of w)"
proof (induction rule: store_reach.induct)
  case (empty w)
  then show ?case by (simp add: journal_ok_simps)
next
  case (step w e op r w')
  show ?case
  proof (rule run_op_result [OF step.hyps(3,4)])
    assume "has_journal w (journal_of w) w'"
    then show ?thesis using step.IH by (simp add: has_journal_def)
  next
    assume "journal_step (e_ext e) (journal_of w) (journal_of w')"
      "\<forall>u q. w_pending w' = Some (u, q) \<longrightarrow> w_pending w = None \<longrightarrow> acyclic_pending q"
    then show ?thesis using step.IH unfolding step.hyps(2)
      by (elim journal_step_ok) (simp_all only: snd_conv)
  qed
qed



end
