(* ===== verification/Txn_Parts.thy ===== *)
theory Txn_Parts
  imports Txn_Store
begin

text \<open>
  Part files of a transaction: the verification and local publication primitives of
  \<open>writer/protected.rs\<close> and the journal-driven checks and cleanup of \<open>ingest/parts.rs\<close> on a local
  dataset. A part is first staged under its temporary name, published under its final name by a hard
  link, and recognised later only by its exact bytes and the identity in its footer. The files below
  the root are a map from relative path to contents; a staging write may be torn at any length.
\<close>

section \<open>Plans, receipts and verification\<close>

record writer_part =
  wp_table :: string
  wp_final :: string
  wp_temporary :: string
  wp_schema_sha256 :: string
  wp_transaction_id :: string
  wp_stream_id :: string
  wp_first_ordinal :: nat
  wp_last_ordinal :: nat
  wp_entry_index :: nat
  wp_row_count :: nat

record protected_receipt =
  wr_byte_size :: nat
  wr_sha256 :: string
  wr_row_count :: nat
  wr_schema_sha256 :: string

datatype part_presence = Missing | Present

record encoded_part =
  ep_plan :: writer_part
  ep_receipt :: protected_receipt
  ep_stats :: string
  ep_bytes :: string

definition FOOTER_PREFIX :: string where
  "FOOTER_PREFIX = ''fireparq.ingest.''"

definition ARROW_SCHEMA_META_KEY :: string where
  "ARROW_SCHEMA_META_KEY = ''ARROW:schema''"

definition protected_validate_table :: "string \<Rightarrow> unit result" where
  "protected_validate_table table =
     require (table \<noteq> [] \<and> length table \<le> 128 \<and>
       list_all (\<lambda>b. is_ascii_lowercase b \<or> is_ascii_digit b \<or> b = CHR ''_'') table)
       ''invalid protected table name''"

definition validate_digest :: "string \<Rightarrow> unit result" where
  "validate_digest digest =
     require (length digest = 64 \<and> list_all is_lower_hex digest)
       ''protected digest must be 64 lowercase hexadecimal characters''"

definition protected_final_name :: "writer_part \<Rightarrow> string" where
  "protected_final_name plan =
     ''part-v1-'' @ wp_stream_id plan @ ''-'' @ dec (wp_first_ordinal plan) @ ''-'' @
     dec (wp_last_ordinal plan) @ ''-'' @ wp_transaction_id plan @ ''-'' @ dec (wp_entry_index plan) @
     ''.parquet''"

definition protected_temporary_name :: "writer_part \<Rightarrow> string" where
  "protected_temporary_name plan =
     ''.fireparq-txn-'' @ wp_transaction_id plan @ ''-'' @ dec (wp_entry_index plan) @ ''.tmp''"

text \<open>\<open>str::contains\<close>, and the parent, file name and first component of a relative path.\<close>

fun contains_str :: "string \<Rightarrow> string \<Rightarrow> bool" where
  "contains_str sub [] \<longleftrightarrow> sub = []"
| "contains_str sub (c # s) \<longleftrightarrow> strip_prefix sub (c # s) \<noteq> None \<or> contains_str sub s"

definition path_file_name :: "string \<Rightarrow> string" where
  "path_file_name path = last (split_on (CHR ''/'') path)"

definition path_parent :: "string \<Rightarrow> string list" where
  "path_parent path = butlast (split_on (CHR ''/'') path)"

definition protected_validate_relative_path :: "string \<Rightarrow> unit result" where
  "protected_validate_relative_path path =
     require (path \<noteq> [] \<and> length path \<le> 2048 \<and> strip_prefix ''/'' path = None \<and>
       list_all (\<lambda>c. c \<notin> {CHR 0x5C, CHR ''?'', CHR ''#'', CHR 0x00}) path \<and>
       \<not> contains_str ''://'' path \<and>
       list_all (\<lambda>c. c \<noteq> [] \<and> c \<noteq> ''.'' \<and> c \<noteq> ''..'') (split_on (CHR ''/'') path) \<and>
       \<not> is_control_path path) ''invalid protected relative path''"

definition validate_plan :: "writer_part \<Rightarrow> unit result" where
  "validate_plan plan =
     bindR (protected_validate_table (wp_table plan)) (\<lambda>_.
     bindR (for_each validate_digest [wp_schema_sha256 plan, wp_transaction_id plan, wp_stream_id plan]) (\<lambda>_.
     bindR (require (wp_row_count plan > 0 \<and> wp_first_ordinal plan > 0 \<and>
         wp_first_ordinal plan \<le> wp_last_ordinal plan)
       ''protected part has invalid rows or accepted ordinal interval'') (\<lambda>_.
     bindR (protected_validate_relative_path (wp_final plan)) (\<lambda>_.
     bindR (protected_validate_relative_path (wp_temporary plan)) (\<lambda>_.
     bindR (require (path_parent (wp_final plan) = path_parent (wp_temporary plan) \<and>
         path_file_name (wp_final plan) = protected_final_name plan \<and>
         path_file_name (wp_temporary plan) = protected_temporary_name plan)
       ''protected part paths do not match its identity'') (\<lambda>_.
     require (hd (split_on (CHR ''/'') (wp_final plan)) = wp_table plan)
       ''protected part path is outside its table''))))))"

definition protected_validate_receipt :: "writer_part \<Rightarrow> protected_receipt \<Rightarrow> unit result" where
  "protected_validate_receipt plan r =
     bindR (validate_plan plan) (\<lambda>_.
     bindR (validate_digest (wr_sha256 r)) (\<lambda>_.
     require (wr_byte_size r > 0 \<and> wr_byte_size r < u64_max \<and> wr_row_count r = wp_row_count plan \<and>
       wr_schema_sha256 r = wp_schema_sha256 plan) ''protected receipt differs from its plan''))"

definition footer_identity :: "writer_part \<Rightarrow> (string \<times> string) list" where
  "footer_identity plan =
     map (\<lambda>(key, value). (FOOTER_PREFIX @ key, value))
       [(''stream_id'', wp_stream_id plan), (''transaction_id'', wp_transaction_id plan),
        (''entry_index'', dec (wp_entry_index plan)), (''first_ordinal'', dec (wp_first_ordinal plan)),
        (''last_ordinal'', dec (wp_last_ordinal plan)), (''schema_sha256'', wp_schema_sha256 plan)]"

definition verify_footer :: "writer_part \<Rightarrow> parquet_footer \<Rightarrow> unit result" where
  "verify_footer plan m =
     bindR (some_or (pf_metadata m) ''protected Parquet identity is absent'') (\<lambda>footer.
     bindR (require (length (filter (\<lambda>(key, _). key = ARROW_SCHEMA_META_KEY) footer) = 1)
       ''protected Parquet Arrow schema hint is missing or duplicated'') (\<lambda>_.
     bindR (some_or (pf_schema_sha256 m) ''converting the Parquet schema'') (\<lambda>schema.
     bindR (require (pf_rows m \<ge> 0) ''out of range integral type conversion attempted'') (\<lambda>_.
     bindR (require (nat (pf_rows m) = wp_row_count plan \<and> schema = wp_schema_sha256 plan)
       ''protected Parquet schema or row count differs from plan'') (\<lambda>_.
     for_each (\<lambda>(key, value).
         require (map snd (filter (\<lambda>(k, _). k = key) footer) = [Some value])
           ''protected Parquet footer identity differs from plan'')
       (footer_identity plan))))))"

definition verify_bytes :: "env \<Rightarrow> writer_part \<Rightarrow> protected_receipt \<Rightarrow> string \<Rightarrow> unit result" where
  "verify_bytes e plan r bytes =
     bindR (protected_validate_receipt plan r) (\<lambda>_.
     bindR (require (wr_row_count r = wp_row_count plan \<and> wr_schema_sha256 r = wp_schema_sha256 plan \<and>
         wr_byte_size r = length bytes \<and> wr_sha256 r = x_sha256 (e_ext e) bytes)
       ''protected part bytes differ from journal receipt'') (\<lambda>_.
     bindR (some_or (e_parquet e bytes) ''validating protected Parquet footer'') (\<lambda>m.
     verify_footer plan m)))"

section \<open>The local part store\<close>

definition read_local_bounded :: "env \<Rightarrow> string \<Rightarrow> nat \<Rightarrow> string io" where
  "read_local_bounded e path expected_size =
     bindIO (observe e ''reading planned part metadata'' (\<lambda>w. w_files w path)) (\<lambda>contents.
     bindIO (liftR (some_or contents ''reading planned part metadata'')) (\<lambda>bytes.
     bindIO (liftR (require (length bytes = expected_size)
       ''planned part is not a regular file of the expected size'')) (\<lambda>_.
     bindIO (liftR (some_or (checked_add expected_size 1) ''part size overflow'')) (\<lambda>_.
     returnIO bytes))))"

definition put_file :: "string \<Rightarrow> string option \<Rightarrow> world \<Rightarrow> world" where
  "put_file path contents w = w\<lparr> w_files := (w_files w)(path := contents) \<rparr>"

definition sync :: "env \<Rightarrow> string \<Rightarrow> unit io" where
  "sync e msg = observe e msg (\<lambda>_. ())"

text \<open>\<open>create_new\<close> and \<open>hard_link\<close> fail on an existing name.\<close>

definition require_absent :: "string \<Rightarrow> string \<Rightarrow> unit io" where
  "require_absent path msg = (\<lambda>w. (if w_files w path = None then Inr () else Inl (Io msg), w))"

definition part_stage :: "env \<Rightarrow> encoded_part \<Rightarrow> unit io" where
  "part_stage e ep =
     (let path = wp_temporary (ep_plan ep) in
      bindIO (liftR (verify_bytes e (ep_plan ep) (ep_receipt ep) (ep_bytes ep))) (\<lambda>_.
      bindIO (liftR (protected_validate_relative_path path)) (\<lambda>_.
      bindIO (sync e ''creating output directory'') (\<lambda>_.
      bindIO (require_absent path ''creating planned staging file'') (\<lambda>_.
      bindIO (mutate e ''creating planned staging file'' (put_file path (Some []))) (\<lambda>_.
      bindIO (mutate e ''writing planned staging file''
        (\<lambda>w. put_file path (Some (take (e_schedule e (w_clock w)) (ep_bytes ep))) w)) (\<lambda>_.
      bindIO (mutate e ''writing planned staging file'' (put_file path (Some (ep_bytes ep)))) (\<lambda>_.
      bindIO (sync e ''syncing planned staging file'') (\<lambda>_.
      sync e ''syncing output directory'')))))))))"

definition part_publish :: "env \<Rightarrow> writer_part \<Rightarrow> protected_receipt \<Rightarrow> unit io" where
  "part_publish e plan r =
     (let temporary = wp_temporary plan; final_path = wp_final plan in
      bindIO (liftR (protected_validate_relative_path temporary)) (\<lambda>_.
      bindIO (liftR (protected_validate_relative_path final_path)) (\<lambda>_.
      bindIO (read_local_bounded e temporary (wr_byte_size r)) (\<lambda>bytes.
      bindIO (liftR (verify_bytes e plan r bytes)) (\<lambda>_.
      bindIO (sync e ''syncing verified staging file'') (\<lambda>_.
      bindIO (require_absent final_path ''publishing Parquet file without replacement'') (\<lambda>_.
      bindIO (mutate e ''publishing Parquet file without replacement''
        (\<lambda>w. put_file final_path (w_files w temporary) w)) (\<lambda>_.
      bindIO (mutate e ''removing published staging name'' (put_file temporary None)) (\<lambda>_.
      sync e ''syncing output directory'')))))))))"

definition part_verify :: "env \<Rightarrow> writer_part \<Rightarrow> protected_receipt \<Rightarrow> bool \<Rightarrow> part_presence io" where
  "part_verify e plan r staged =
     (let path = (if staged then wp_temporary plan else wp_final plan) in
      bindIO (liftR (protected_validate_receipt plan r)) (\<lambda>_.
      bindIO (liftR (protected_validate_relative_path path)) (\<lambda>_.
      bindIO (observe e ''inspecting protected part for recovery'' (\<lambda>w. w_files w path)) (\<lambda>seen.
      if seen = None then returnIO Missing
      else
        bindIO (read_local_bounded e path (wr_byte_size r)) (\<lambda>bytes.
        bindIO (liftR (verify_bytes e plan r bytes)) (\<lambda>_.
        bindIO (sync e ''syncing verified protected file'') (\<lambda>_.
        bindIO (sync e ''creating output directory'') (\<lambda>_.
        returnIO Present))))))))"

section \<open>Journal-driven checks and cleanup\<close>

definition writer_plan :: "pending_transaction \<Rightarrow> planned_part \<Rightarrow> writer_part" where
  "writer_plan p q =
     \<lparr> wp_table = pp_table q, wp_final = pp_final q, wp_temporary = pp_temporary q,
       wp_schema_sha256 = digest_str (pp_schema_sha256 q),
       wp_transaction_id = digest_str (pt_id p), wp_stream_id = digest_str (pt_stream_id p),
       wp_first_ordinal = ap_first_ordinal (pt_prefix p),
       wp_last_ordinal = ap_last_ordinal (pt_prefix p),
       wp_entry_index = pp_entry_index q, wp_row_count = pp_row_count q \<rparr>"

definition writer_receipt :: "planned_part \<Rightarrow> protected_receipt result" where
  "writer_receipt q =
     bindR (some_or (pp_receipt q)
       ''journal lacks the frozen receipt required for physical verification'') (\<lambda>r.
     Inr \<lparr> wr_byte_size = pr_byte_size r, wr_sha256 = digest_str (pr_sha256 r),
           wr_row_count = pp_row_count q, wr_schema_sha256 = digest_str (pp_schema_sha256 q) \<rparr>)"

definition verify_final :: "env \<Rightarrow> pending_transaction \<Rightarrow> planned_part \<Rightarrow> part_presence io" where
  "verify_final e p q =
     bindIO (liftR (writer_receipt q)) (\<lambda>r. part_verify e (writer_plan p q) r False)"

definition exists_regular :: "env \<Rightarrow> string \<Rightarrow> bool io" where
  "exists_regular e relative =
     bindIO (liftR (validate_relative_path relative False)) (\<lambda>_.
     observe e ''could not inspect an owned transaction file'' (\<lambda>w. w_files w relative \<noteq> None))"

definition final_exists :: "env \<Rightarrow> planned_part \<Rightarrow> bool io" where
  "final_exists e q = exists_regular e (pp_final q)"

definition remove_local :: "env \<Rightarrow> string \<Rightarrow> unit io" where
  "remove_local e relative =
     bindIO (exists_regular e relative) (\<lambda>present.
     bindIO (if present then mutate e ''removing an exact journal-owned file'' (put_file relative None)
             else returnIO ()) (\<lambda>_.
     sync e ''syncing journal cleanup ancestry''))"

definition require_unoccupied :: "env \<Rightarrow> pending_transaction \<Rightarrow> unit io" where
  "require_unoccupied e p =
     for_eachIO (\<lambda>q.
       bindIO (final_exists e q) (\<lambda>final_present.
       bindIO (liftR (require (\<not> final_present)
         ''planned final part already exists before Writing; refusing adoption or replacement'')) (\<lambda>_.
       bindIO (exists_regular e (pp_temporary q)) (\<lambda>temporary_present.
       liftR (require (\<not> temporary_present)
         ''planned temporary part already exists before Writing; refusing to claim it'')))))
     (pt_parts p)"

text \<open>The read-only checks of \<open>verify_all_finals\<close> run concurrently; the model runs them in plan order.\<close>

definition verify_all_finals :: "env \<Rightarrow> pending_transaction \<Rightarrow> unit io" where
  "verify_all_finals e p =
     for_eachIO (\<lambda>q.
       bindIO (verify_final e p q) (\<lambda>presence.
       liftR (require (presence = Present) ''committed transaction is missing a required final part'')))
     (pt_parts p)"

fun show_error :: "error \<Rightarrow> string" where
  "show_error (Bail m) = m"
| "show_error (Context c err) = c @ '': '' @ show_error err"
| "show_error (Panic m) = m"
| "show_error (Io m) = m"

fun join_str :: "string \<Rightarrow> string list \<Rightarrow> string" where
  "join_str sep [] = []"
| "join_str sep [s] = s"
| "join_str sep (s # ss) = s @ sep @ join_str sep ss"

definition verify_failure :: "planned_part \<Rightarrow> part_presence result \<Rightarrow> string option" where
  "verify_failure q outcome =
     (let named = (\<lambda>text. Some (''the part of table `'' @ pp_table q @ ''` ('' @ pp_final q @ '') '' @ text)) in
      case outcome of
        Inr Present \<Rightarrow> None
      | Inr Missing \<Rightarrow> named ''is missing''
      | Inl err \<Rightarrow> named (''could not be verified against its receipt ('' @ show_error err @ '')''))"

definition tryIO :: "'a io \<Rightarrow> 'a result io" where
  "tryIO m = (\<lambda>w. case m w of (r, w') \<Rightarrow> (Inr r, w'))"

definition verify_finals_of :: "env \<Rightarrow> pending_transaction \<Rightarrow> string list \<Rightarrow> unit io" where
  "verify_finals_of e p tables =
     bindIO (mapIO (\<lambda>q. bindIO (tryIO (verify_final e p q)) (\<lambda>outcome. returnIO (verify_failure q outcome)))
       (filter (\<lambda>q. pp_table q \<in> set tables) (pt_parts p))) (\<lambda>checks.
     let failures = List.map_filter (\<lambda>c. c) checks in
     liftR (require (failures = []) (join_str ''; '' failures)))"

definition cleanup_temporaries :: "env \<Rightarrow> pending_transaction \<Rightarrow> unit io" where
  "cleanup_temporaries e p = for_eachIO (\<lambda>q. remove_local e (pp_temporary q)) (pt_parts p)"

text \<open>The first loop of \<open>rollback_writing\<close>: the published parts, each verified.\<close>

fun published_parts :: "env \<Rightarrow> pending_transaction \<Rightarrow> planned_part list \<Rightarrow> planned_part list io" where
  "published_parts e p [] = returnIO []"
| "published_parts e p (q # qs) =
     (if pp_receipt q \<noteq> None then
        bindIO (verify_final e p q) (\<lambda>presence.
        bindIO (published_parts e p qs) (\<lambda>present.
        returnIO (if presence = Present then q # present else present)))
      else
        bindIO (final_exists e q) (\<lambda>seen.
        bindIO (liftR (require (\<not> seen)
          ''Writing journal has a published part without a frozen receipt; refusing cleanup'')) (\<lambda>_.
        published_parts e p qs)))"

definition rollback_writing :: "env \<Rightarrow> pending_transaction \<Rightarrow> unit io" where
  "rollback_writing e p =
     bindIO (liftR (require (pt_phase p = Writing) ''cannot roll back parts after all-table commit'')) (\<lambda>_.
     bindIO (published_parts e p (pt_parts p)) (\<lambda>present.
     bindIO (for_eachIO (\<lambda>q. remove_local e (pp_final q)) present) (\<lambda>_.
     cleanup_temporaries e p)))"

section \<open>Files\<close>

text \<open>The world \<open>w\<close> has the files \<open>F\<close> and otherwise the data of \<open>w0\<close>.\<close>

type_synonym files = "string \<Rightarrow> string option"

definition has_files :: "world \<Rightarrow> files \<Rightarrow> world \<Rightarrow> bool" where
  "has_files w0 F w \<longleftrightarrow> w_files w = F \<and> w_state w = w_state w0 \<and> w_pending w = w_pending w0 \<and>
     w_logs w = w_logs w0 \<and> w_inflight w = w_inflight w0 \<and> w_mirror w = w_mirror w0"

lemma has_files_clock [simp]: "has_files w0 F (w\<lparr> w_clock := n \<rparr>) = has_files w0 F w"
  by (simp add: has_files_def)

lemma has_files_put [simp]: "has_files w0 F w \<Longrightarrow> has_files w0 (F(path := c)) (put_file path c w)"
  by (simp add: has_files_def put_file_def)

lemma has_files_reput: "has_files w0 (F(path := b)) w \<Longrightarrow> has_files w0 (F(path := c)) (put_file path c w)"
  by (simp add: has_files_def put_file_def)

lemma has_files_self: "has_files w (w_files w) w"
  by (simp add: has_files_def)

text \<open>A step that only reads files.\<close>

definition reads :: "world \<Rightarrow> files \<Rightarrow> 'a io \<Rightarrow> ('a \<Rightarrow> bool) \<Rightarrow> bool" where
  "reads w0 F m Q \<longleftrightarrow> triple (has_files w0 F) m (\<lambda>r w. Q r \<and> has_files w0 F w) (has_files w0 F)"

lemma triple_try:
  assumes "triple P m Q E"
  shows "triple P (tryIO m) (\<lambda>r w. case r of Inl _ \<Rightarrow> E w | Inr a \<Rightarrow> Q a w) E'"
proof (rule tripleI)
  fix w r w'
  assume p: "P w" and run: "tryIO m w = (Inr r, w')"
  then have "m w = (r, w')" by (auto simp: tryIO_def split: prod.splits)
  then show "case r of Inl _ \<Rightarrow> E w' | Inr a \<Rightarrow> Q a w'" using tripleD [OF assms p] by (cases r) auto
qed (auto simp: tryIO_def split: prod.splits)

lemma reads_return [intro]: "Q a \<Longrightarrow> reads w0 F (returnIO a) Q"
  unfolding reads_def by (rule triple_return) simp

lemma reads_fail [intro]: "reads w0 F (failIO err) Q"
  unfolding reads_def by (rule triple_fail)

lemma reads_lift: "(\<And>a. r = Inr a \<Longrightarrow> Q a) \<Longrightarrow> reads w0 F (liftR r) Q"
  unfolding reads_def by (rule triple_lift) auto

lemma reads_lift_bind:
  "(\<And>a. r = Inr a \<Longrightarrow> reads w0 F (f a) Q) \<Longrightarrow> reads w0 F (bindIO (liftR r) f) Q"
  unfolding reads_def by (rule triple_bind_lift) auto

lemma reads_bind:
  assumes "reads w0 F m R" "\<And>a. R a \<Longrightarrow> reads w0 F (f a) Q"
  shows "reads w0 F (bindIO m f) Q"
  unfolding reads_def
  by (rule triple_bind [OF assms(1) [unfolded reads_def]])
    (rule triple_pre_pure, use assms(2) in \<open>simp add: reads_def\<close>)

lemma reads_observe: "(\<And>w. w_files w = F \<Longrightarrow> Q (f w)) \<Longrightarrow> reads w0 F (observe e msg f) Q"
  unfolding reads_def by (rule triple_observe) (auto simp: has_files_def)

lemma reads_weaken: "reads w0 F m Q \<Longrightarrow> (\<And>a. Q a \<Longrightarrow> Q' a) \<Longrightarrow> reads w0 F m Q'"
  unfolding reads_def by (erule triple_conseq) auto

lemma reads_sync: "reads w0 F (sync e msg) (\<lambda>_. True)"
  unfolding sync_def by (rule reads_observe) simp

lemma reads_for_each:
  assumes "\<And>a. a \<in> set as \<Longrightarrow> reads w0 F (f a) (\<lambda>_. Q a)"
  shows "reads w0 F (for_eachIO f as) (\<lambda>_. \<forall>a \<in> set as. Q a)"
  using assms
proof (induction as)
  case (Cons a as)
  show ?case
    unfolding for_eachIO.simps
  proof (rule reads_bind [OF Cons.prems [of a]])
    assume "Q a"
    then show "reads w0 F (for_eachIO f as) (\<lambda>_. \<forall>a' \<in> set (a # as). Q a')"
      using reads_weaken [OF Cons.IH] Cons.prems by auto
  qed simp
qed auto

lemma reads_read_local:
  "reads w0 F (read_local_bounded e path n) (\<lambda>bytes. F path = Some bytes \<and> length bytes = n)"
  unfolding read_local_bounded_def
  by (rule reads_bind [where R = "\<lambda>c. c = F path"])
    (auto intro!: reads_observe reads_lift_bind)

section \<open>Verification\<close>

definition part_intact :: "env \<Rightarrow> writer_part \<Rightarrow> protected_receipt \<Rightarrow> string \<Rightarrow> files \<Rightarrow> bool" where
  "part_intact e plan r path F \<longleftrightarrow> (\<exists>bytes. F path = Some bytes \<and> verify_bytes e plan r bytes = Inr ())"

lemma reads_part_verify:
  "reads w0 F (part_verify e plan r staged) (\<lambda>presence.
     let path = if staged then wp_temporary plan else wp_final plan in
     case presence of Missing \<Rightarrow> F path = None | Present \<Rightarrow> part_intact e plan r path F)"
proof -
  let ?path = "if staged then wp_temporary plan else wp_final plan"
  let ?Q = "\<lambda>presence. case presence of Missing \<Rightarrow> F ?path = None | Present \<Rightarrow> part_intact e plan r ?path F"
  have "reads w0 F (bindIO (read_local_bounded e ?path (wr_byte_size r)) (\<lambda>bytes.
      bindIO (liftR (verify_bytes e plan r bytes)) (\<lambda>_.
      bindIO (sync e ''syncing verified protected file'') (\<lambda>_.
      bindIO (sync e ''creating output directory'') (\<lambda>_. returnIO Present))))) ?Q"
    by (rule reads_bind [OF reads_read_local], rule reads_lift_bind, rule reads_bind [OF reads_sync],
        rule reads_bind [OF reads_sync], rule reads_return) (auto simp: part_intact_def)
  then show ?thesis
    unfolding part_verify_def Let_def
    by (intro reads_lift_bind, intro reads_bind [where R = "\<lambda>seen. seen = F ?path"] reads_observe) auto
qed

text \<open>A planned part whose receipt is recorded and whose file has exactly the recorded contents.\<close>

definition intact :: "env \<Rightarrow> pending_transaction \<Rightarrow> files \<Rightarrow> planned_part \<Rightarrow> bool" where
  "intact e p F q \<longleftrightarrow> (\<exists>r. writer_receipt q = Inr r \<and> part_intact e (writer_plan p q) r (pp_final q) F)"

lemma writer_plan_paths [simp]:
  "wp_final (writer_plan p q) = pp_final q" "wp_temporary (writer_plan p q) = pp_temporary q"
  by (simp_all add: writer_plan_def)

lemma reads_verify_final:
  "reads w0 F (verify_final e p q) (\<lambda>presence.
     case presence of Missing \<Rightarrow> F (pp_final q) = None | Present \<Rightarrow> intact e p F q)"
  unfolding verify_final_def
proof (rule reads_lift_bind)
  fix r
  assume "writer_receipt q = Inr r"
  then show "reads w0 F (part_verify e (writer_plan p q) r False) (\<lambda>presence.
      case presence of Missing \<Rightarrow> F (pp_final q) = None | Present \<Rightarrow> intact e p F q)"
    by (intro reads_weaken [OF reads_part_verify])
      (auto simp: intact_def Let_def split: part_presence.splits)
qed

lemma reads_exists_regular:
  "reads w0 F (exists_regular e path) (\<lambda>b. b \<longleftrightarrow> F path \<noteq> None)"
  unfolding exists_regular_def by (intro reads_lift_bind reads_observe) simp

lemma reads_verify_all:
  "reads w0 F (verify_all_finals e p) (\<lambda>_. \<forall>q \<in> set (pt_parts p). intact e p F q)"
  unfolding verify_all_finals_def
  by (rule reads_for_each, rule reads_bind [OF reads_verify_final], rule reads_lift)
    (auto split: part_presence.splits)

lemma reads_unoccupied:
  "reads w0 F (require_unoccupied e p)
     (\<lambda>_. \<forall>q \<in> set (pt_parts p). F (pp_final q) = None \<and> F (pp_temporary q) = None)"
  unfolding require_unoccupied_def final_exists_def
  by (rule reads_for_each, rule reads_bind [OF reads_exists_regular], rule reads_lift_bind,
      rule reads_bind [OF reads_exists_regular], rule reads_lift) auto

lemma reads_published:
  "reads w0 F (published_parts e p qs) (\<lambda>present.
     present = filter (\<lambda>q. F (pp_final q) \<noteq> None) qs \<and>
     (\<forall>q \<in> set qs. F (pp_final q) \<noteq> None \<longrightarrow> intact e p F q))"
proof (induction qs)
  case (Cons q qs)
  show ?case
  proof (cases "pp_receipt q = None")
    case True
    have "reads w0 F (published_parts e p qs) (\<lambda>present.
        present = filter (\<lambda>q. F (pp_final q) \<noteq> None) (q # qs) \<and>
        (\<forall>q \<in> set (q # qs). F (pp_final q) \<noteq> None \<longrightarrow> intact e p F q))" if "F (pp_final q) = None"
      by (rule reads_weaken [OF Cons]) (use that in auto)
    then show ?thesis
      unfolding published_parts.simps final_exists_def True
      by (simp only: simp_thms if_False, intro reads_bind [OF reads_exists_regular] reads_lift_bind) auto
  next
    case False
    have step: "reads w0 F (bindIO (published_parts e p qs) (\<lambda>present.
          returnIO (if presence = Present then q # present else present))) (\<lambda>present.
        present = filter (\<lambda>q. F (pp_final q) \<noteq> None) (q # qs) \<and>
        (\<forall>q \<in> set (q # qs). F (pp_final q) \<noteq> None \<longrightarrow> intact e p F q))"
      if "case presence of Missing \<Rightarrow> F (pp_final q) = None | Present \<Rightarrow> intact e p F q" for presence
      by (rule reads_bind [OF Cons], rule reads_return)
        (use that in \<open>auto simp: intact_def part_intact_def split: part_presence.splits\<close>)
    show ?thesis
      unfolding published_parts.simps if_P [OF False] by (intro reads_bind [OF reads_verify_final] step)
  qed
qed auto


section \<open>Cleanup\<close>

lemma put_file_None: "has_files w0 F w \<Longrightarrow> has_files w0 (F |` (- {path})) (put_file path None w)"
  by (auto simp: has_files_def put_file_def restrict_map_def)

lemma restrict_absent: "F path = None \<Longrightarrow> F |` (- {path}) = F"
  by (auto simp: restrict_map_def)

lemma restrict_UNIV [simp]: "F |` UNIV = F"
  by (simp add: restrict_map_def)

lemma restrict_twice: "F |` (- A) |` (- B) = F |` (- (A \<union> B))"
  by (simp add: restrict_restrict)

lemma remove_local_triple:
  "triple (has_files w0 F) (remove_local e path) (\<lambda>_. has_files w0 (F |` (- {path})))
     (\<lambda>w. has_files w0 F w \<or> has_files w0 (F |` (- {path})) w)"
proof -
  let ?E = "\<lambda>w. has_files w0 F w \<or> has_files w0 (F |` (- {path})) w"
  have "triple (\<lambda>w. (present \<longleftrightarrow> F path \<noteq> None) \<and> has_files w0 F w)
      (if present then mutate e ''removing an exact journal-owned file'' (put_file path None) else returnIO ())
      (\<lambda>_. has_files w0 (F |` (- {path}))) ?E" for present
    by (cases present)
      (auto intro!: triple_mutate triple_return simp: put_file_None restrict_absent)
  moreover have "triple (has_files w0 (F |` (- {path}))) (sync e msg) (\<lambda>_. has_files w0 (F |` (- {path}))) ?E" for msg
    using reads_sync [of w0 "F |` (- {path})" e msg] unfolding reads_def by (rule triple_conseq) auto
  ultimately show ?thesis
    unfolding remove_local_def
    by (intro triple_seq [OF reads_exists_regular [unfolded reads_def]]
        triple_bind [where R = "\<lambda>_. has_files w0 (F |` (- {path}))"]) (simp_all only:, blast?)
qed

lemma remove_list_triple:
  "triple (has_files w0 F) (for_eachIO (\<lambda>q. remove_local e (name q)) qs)
     (\<lambda>_. has_files w0 (F |` (- name ` set qs)))
     (\<lambda>w. \<exists>D \<subseteq> name ` set qs. has_files w0 (F |` (- D)) w)"
proof (induction qs arbitrary: F)
  case Nil
  then show ?case by (simp add: triple_return)
next
  case (Cons q qs)
  have "triple (has_files w0 (F |` (- {name q}))) (for_eachIO (\<lambda>q. remove_local e (name q)) qs)
     (\<lambda>_. has_files w0 (F |` (- name ` set (q # qs))))
     (\<lambda>w. \<exists>D \<subseteq> name ` set (q # qs). has_files w0 (F |` (- D)) w)"
  proof (rule triple_conseq [OF Cons])
    fix w
    assume "\<exists>D \<subseteq> name ` set qs. has_files w0 (F |` (- {name q}) |` (- D)) w"
    then obtain D where "D \<subseteq> name ` set qs" "has_files w0 (F |` (- ({name q} \<union> D))) w"
      unfolding restrict_twice by blast
    then show "\<exists>D \<subseteq> name ` set (q # qs). has_files w0 (F |` (- D)) w"
      by (intro exI [of _ "{name q} \<union> D"] conjI) auto
  next
    have "name ` set (q # qs) = {name q} \<union> name ` set qs" by auto
    then show "has_files w0 (F |` (- {name q}) |` (- name ` set qs)) w \<Longrightarrow>
        has_files w0 (F |` (- name ` set (q # qs))) w" for w
      by (simp only: restrict_twice)
  qed
  moreover have "\<exists>D \<subseteq> name ` set (q # qs). has_files w0 (F |` (- D)) w"
    if "has_files w0 F w \<or> has_files w0 (F |` (- {name q})) w" for w
    using that by (auto intro: exI [of _ "{}"] exI [of _ "{name q}"])
  ultimately show ?case
    unfolding for_eachIO.simps by (intro triple_seq [OF remove_local_triple]) auto
qed

text \<open>The names a transaction owns, and when its published parts may be removed.\<close>

definition part_names :: "pending_transaction \<Rightarrow> string set" where
  "part_names p = pp_final ` set (pt_parts p) \<union> pp_temporary ` set (pt_parts p)"

definition rollback_safe :: "env \<Rightarrow> pending_transaction \<Rightarrow> files \<Rightarrow> bool" where
  "rollback_safe e p F \<longleftrightarrow> (\<forall>q \<in> set (pt_parts p). F (pp_final q) \<noteq> None \<longrightarrow> intact e p F q)"

lemma rollback_triple:
  "triple (has_files w0 F) (rollback_writing e p)
     (\<lambda>_ w. rollback_safe e p F \<and> has_files w0 (F |` (- part_names p)) w)
     (\<lambda>w. \<exists>D \<subseteq> part_names p. (D = {} \<or> rollback_safe e p F) \<and> has_files w0 (F |` (- D)) w)"
    (is "triple _ _ ?Q ?E")
proof -
  let ?A = "pp_final ` set (filter (\<lambda>q. F (pp_final q) \<noteq> None) (pt_parts p))"
  let ?B = "pp_temporary ` set (pt_parts p)"
  have A: "F |` (- ?A) = F |` (- pp_final ` set (pt_parts p))"
    by (rule ext) (auto simp: restrict_map_def)
  have two: "triple (has_files w0 F)
      (bindIO (for_eachIO (\<lambda>q. remove_local e (pp_final q)) (filter (\<lambda>q. F (pp_final q) \<noteq> None) (pt_parts p)))
        (\<lambda>_. cleanup_temporaries e p)) ?Q ?E" if safe: "rollback_safe e p F"
    unfolding cleanup_temporaries_def
  proof (rule triple_seq [OF remove_list_triple])
    fix w
    assume "\<exists>D \<subseteq> ?A. has_files w0 (F |` (- D)) w"
    then obtain D where "D \<subseteq> ?A" "has_files w0 (F |` (- D)) w" by blast
    then show "?E w" using safe by (intro exI [of _ D] conjI) (auto simp: part_names_def)
  next
    show "triple (has_files w0 (F |` (- ?A))) (for_eachIO (\<lambda>q. remove_local e (pp_temporary q)) (pt_parts p)) ?Q ?E"
    proof (rule triple_conseq [OF remove_list_triple])
      fix w
      assume "\<exists>D \<subseteq> ?B. has_files w0 (F |` (- ?A) |` (- D)) w"
      then obtain D where "D \<subseteq> ?B" "has_files w0 (F |` (- (?A \<union> D))) w"
        unfolding restrict_twice by blast
      then show "?E w" using safe by (intro exI [of _ "?A \<union> D"] conjI) (auto simp: part_names_def)
    next
      fix u w
      assume "has_files w0 (F |` (- ?A) |` (- ?B)) w"
      then show "?Q u w" using safe unfolding A restrict_twice by (simp add: part_names_def)
    qed auto
  qed
  have "triple (has_files w0 F) (bindIO (published_parts e p (pt_parts p)) (\<lambda>present.
      bindIO (for_eachIO (\<lambda>q. remove_local e (pp_final q)) present) (\<lambda>_. cleanup_temporaries e p))) ?Q ?E"
    by (rule triple_seq [OF reads_published [unfolded reads_def]])
      (use two in \<open>auto intro!: triple_pre_pure exI [of _ "{}"] simp: rollback_safe_def\<close>)
  then show ?thesis
    unfolding rollback_writing_def by (rule triple_bind_lift) (auto intro!: exI [of _ "{}"])
qed


section \<open>Staging and publication\<close>

lemma require_absent_reads: "reads w0 F (require_absent path msg) (\<lambda>_. F path = None)"
  by (auto simp: reads_def triple_def require_absent_def has_files_def)

lemma triple_reads_bind:
  assumes "reads w0 F m R" "\<And>a. R a \<Longrightarrow> triple (has_files w0 F) (f a) Q E" "\<And>w. has_files w0 F w \<Longrightarrow> E w"
  shows "triple (has_files w0 F) (bindIO m f) Q E"
  by (rule triple_seq [OF assms(1) [unfolded reads_def]])
    (use assms(2,3) in \<open>auto intro: triple_pre_pure\<close>)

text \<open>What a staging write may leave under the temporary name.\<close>

definition staged :: "env \<Rightarrow> encoded_part \<Rightarrow> files \<Rightarrow> files \<Rightarrow> bool" where
  "staged e ep F F' \<longleftrightarrow> F (wp_temporary (ep_plan ep)) = None \<and>
     verify_bytes e (ep_plan ep) (ep_receipt ep) (ep_bytes ep) = Inr () \<and>
     (\<exists>k. F' = F(wp_temporary (ep_plan ep) \<mapsto> take k (ep_bytes ep)))"

lemma stage_triple:
  "triple (has_files w0 F) (part_stage e ep)
     (\<lambda>_ w. F (wp_temporary (ep_plan ep)) = None \<and>
        verify_bytes e (ep_plan ep) (ep_receipt ep) (ep_bytes ep) = Inr () \<and>
        has_files w0 (F(wp_temporary (ep_plan ep) \<mapsto> ep_bytes ep)) w)
     (\<lambda>w. has_files w0 F w \<or> (\<exists>F'. staged e ep F F' \<and> has_files w0 F' w))"
    (is "triple _ _ ?Q ?E")
proof -
  let ?t = "wp_temporary (ep_plan ep)" and ?b = "ep_bytes ep"
  let ?G = "\<lambda>w. \<exists>k. has_files w0 (F(?t \<mapsto> take k ?b)) w"
  have writes: "triple (has_files w0 F) (bindIO (mutate e ''creating planned staging file'' (put_file ?t (Some []))) (\<lambda>_.
      bindIO (mutate e ''writing planned staging file'' (\<lambda>w. put_file ?t (Some (take (e_schedule e (w_clock w)) ?b)) w)) (\<lambda>_.
      bindIO (mutate e ''writing planned staging file'' (put_file ?t (Some ?b))) (\<lambda>_.
      bindIO (sync e ''syncing planned staging file'') (\<lambda>_. sync e ''syncing output directory''))))) ?Q ?E"
    if v: "verify_bytes e (ep_plan ep) (ep_receipt ep) ?b = Inr ()" and fresh: "F ?t = None"
  proof -
    have g: "?E w" if "?G w" for w using that v fresh by (auto simp: staged_def)
    have put: "?G (put_file ?t (Some (take k ?b)) w)" if "?G w" for w k
      using that has_files_reput by blast
    have full: "has_files w0 (F(?t \<mapsto> ?b)) (put_file ?t (Some ?b) w)" if "?G w" for w
      using that has_files_reput by blast
    have clk: "?G (w\<lparr> w_clock := n \<rparr>)" if "?G w" for w n using that by simp
    have fullG: "has_files w0 (F(?t \<mapsto> ?b)) w \<Longrightarrow> ?G w" for w by (rule exI [of _ "length ?b"]) simp
    have sync: "triple (has_files w0 (F(?t \<mapsto> ?b))) (sync e msg) (\<lambda>_. has_files w0 (F(?t \<mapsto> ?b))) ?E" for msg
      using reads_sync [of w0 "F(?t \<mapsto> ?b)" e msg] g fullG unfolding reads_def by (elim triple_conseq) blast+
    have "triple (has_files w0 F) (mutate e ''creating planned staging file'' (put_file ?t (Some []))) (\<lambda>_. ?G) ?E"
    proof (rule triple_mutate)
      show "?G (put_file ?t (Some []) (w\<lparr> w_clock := Suc (w_clock w) \<rparr>))" if "has_files w0 F w" for w
        using that has_files_put [of w0 F "w\<lparr> w_clock := Suc (w_clock w) \<rparr>" ?t "Some []"] by (intro exI [of _ 0]) simp
      then show "?E (put_file ?t (Some []) (w\<lparr> w_clock := Suc (w_clock w) \<rparr>))" if "has_files w0 F w" for w
        using that g by blast
    qed simp
    moreover have "triple ?G (mutate e msg (\<lambda>w. put_file ?t (Some (take (e_schedule e (w_clock w)) ?b)) w)) (\<lambda>_. ?G) ?E" for msg
      by (rule triple_mutate) (rule put [OF clk] g [OF put [OF clk]] g [OF clk], assumption)+
    moreover have "triple ?G (mutate e msg (put_file ?t (Some ?b))) (\<lambda>_. has_files w0 (F(?t \<mapsto> ?b))) ?E" for msg
      by (rule triple_mutate) (rule full [OF clk] g [OF fullG [OF full [OF clk]]] g [OF clk], assumption)+
    moreover have "triple (has_files w0 (F(?t \<mapsto> ?b))) (sync e msg) ?Q ?E" for msg
      using sync by (rule triple_conseq) (use v fresh in auto)
    ultimately show ?thesis by (intro triple_bind [OF _ triple_bind [OF _ triple_bind [OF _ triple_bind [OF sync]]]])
  qed
  show ?thesis
    unfolding part_stage_def Let_def
  proof (rule triple_bind_lift, rule triple_bind_lift)
    fix u u'
    assume v: "verify_bytes e (ep_plan ep) (ep_receipt ep) ?b = Inr u"
    show "triple (has_files w0 F) (bindIO (sync e ''creating output directory'') (\<lambda>_.
      bindIO (require_absent ?t ''creating planned staging file'') (\<lambda>_.
      bindIO (mutate e ''creating planned staging file'' (put_file ?t (Some []))) (\<lambda>_.
      bindIO (mutate e ''writing planned staging file'' (\<lambda>w. put_file ?t (Some (take (e_schedule e (w_clock w)) ?b)) w)) (\<lambda>_.
      bindIO (mutate e ''writing planned staging file'' (put_file ?t (Some ?b))) (\<lambda>_.
      bindIO (sync e ''syncing planned staging file'') (\<lambda>_. sync e ''syncing output directory''))))))) ?Q ?E"
      by (rule triple_reads_bind [OF reads_sync], rule triple_reads_bind [OF require_absent_reads], rule writes)
        (use v in auto)
  qed auto
qed

text \<open>What publication may leave: the verified bytes under the final name, with or without the temporary.\<close>

definition published :: "env \<Rightarrow> writer_part \<Rightarrow> protected_receipt \<Rightarrow> files \<Rightarrow> files \<Rightarrow> bool" where
  "published e plan r F F' \<longleftrightarrow> (\<exists>bytes c. F (wp_temporary plan) = Some bytes \<and>
     verify_bytes e plan r bytes = Inr () \<and> F (wp_final plan) = None \<and> c \<in> {None, Some bytes} \<and>
     F' = F(wp_final plan \<mapsto> bytes, wp_temporary plan := c))"

lemma publish_triple:
  assumes "wp_temporary plan \<noteq> wp_final plan"
  shows "triple (has_files w0 F) (part_publish e plan r)
     (\<lambda>_ w. \<exists>F'. published e plan r F F' \<and> F' (wp_temporary plan) = None \<and> has_files w0 F' w)
     (\<lambda>w. has_files w0 F w \<or> (\<exists>F'. published e plan r F F' \<and> has_files w0 F' w))"
    (is "triple _ _ ?Q ?E")
proof -
  let ?t = "wp_temporary plan" and ?f = "wp_final plan"
  have link: "triple (has_files w0 F) (bindIO (mutate e ''publishing Parquet file without replacement''
        (\<lambda>w. put_file ?f (w_files w ?t) w)) (\<lambda>_.
      bindIO (mutate e ''removing published staging name'' (put_file ?t None)) (\<lambda>_.
      sync e ''syncing output directory''))) ?Q ?E"
    if v: "F ?t = Some bytes" "verify_bytes e plan r bytes = Inr ()" "F ?f = None" for bytes
  proof -
    let ?F1 = "F(?f \<mapsto> bytes)" and ?F2 = "F(?f \<mapsto> bytes, ?t := None)"
    have "?F1 = F(?f \<mapsto> bytes, ?t := Some bytes)" using v assms by (auto simp: fun_eq_iff)
    then have p: "published e plan r F ?F1" "published e plan r F ?F2" using v by (auto simp: published_def)
    have "triple (has_files w0 F) (mutate e msg (\<lambda>w. put_file ?f (w_files w ?t) w)) (\<lambda>_. has_files w0 ?F1) ?E" for msg
      by (rule triple_mutate) (use v p(1) in \<open>auto simp: has_files_def put_file_def\<close>)
    moreover have "triple (has_files w0 ?F1) (mutate e msg (put_file ?t None)) (\<lambda>_. has_files w0 ?F2) ?E" for msg
      by (rule triple_mutate) (use p in \<open>auto simp: has_files_def put_file_def\<close>)
    moreover have "triple (has_files w0 ?F2) (sync e msg) ?Q ?E" for msg
      using reads_sync [of w0 ?F2 e msg] unfolding reads_def
      by (rule triple_conseq) (use p in \<open>auto intro!: exI [of _ ?F2]\<close>)
    ultimately show ?thesis by (intro triple_bind)
  qed
  show ?thesis
    unfolding part_publish_def Let_def
    by (rule triple_bind_lift, rule triple_bind_lift, rule triple_reads_bind [OF reads_read_local],
        rule triple_bind_lift, rule triple_reads_bind [OF reads_sync],
        rule triple_reads_bind [OF require_absent_reads], rule link) auto
qed

section \<open>Planned paths are valid\<close>

definition safe_char :: "char \<Rightarrow> bool" where
  "safe_char c \<longleftrightarrow> is_ascii_alphanumeric c \<or> c \<in> {CHR ''-'', CHR ''_'', CHR ''.'', CHR ''=''}"

lemma safe_char_props:
  assumes "safe_char c"
  shows "c \<noteq> CHR ''/''" "c \<noteq> CHR '':''" "c \<notin> {CHR 0x5C, CHR ''?'', CHR ''#'', CHR 0x00}"
  using assms by (auto simp: safe_char_def byte_class_defs)

lemma safe_hex: "is_lower_hex c \<Longrightarrow> safe_char c"
  by (auto simp: safe_char_def byte_class_defs)

lemma safe_dec: "c \<in> set (dec n) \<Longrightarrow> safe_char c"
  using dec_digits by (auto simp: safe_char_def is_ascii_alphanumeric_def)

lemma safe_digest: "digest_wf d \<Longrightarrow> c \<in> set (digest_str d) \<Longrightarrow> safe_char c"
  by (auto simp: digest_wf_def list_all_iff safe_hex)

lemma safe_literals [simp]:
  "safe_char (CHR ''p'')" "safe_char (CHR ''a'')" "safe_char (CHR ''r'')" "safe_char (CHR ''t'')"
  "safe_char (CHR ''v'')" "safe_char (CHR ''1'')" "safe_char (CHR ''-'')" "safe_char (CHR ''.'')"
  "safe_char (CHR ''q'')" "safe_char (CHR ''u'')" "safe_char (CHR ''e'')" "safe_char (CHR ''f'')"
  "safe_char (CHR ''i'')" "safe_char (CHR ''x'')" "safe_char (CHR ''n'')" "safe_char (CHR ''m'')"
  "safe_char (CHR ''d'')" "safe_char (CHR ''='')"
  by (simp_all add: safe_char_def byte_class_defs)

lemma final_name_safe:
  assumes "digest_wf tid" "digest_wf s"
  shows "c \<in> set (final_name tid s p i) \<Longrightarrow> safe_char c"
  using safe_digest [OF assms(1)] safe_digest [OF assms(2)] safe_dec
  by (auto simp: final_name_def)

lemma temporary_name_safe:
  "digest_wf tid \<Longrightarrow> c \<in> set (temporary_name tid i) \<Longrightarrow> safe_char c"
  using safe_digest [of tid] safe_dec by (auto simp: temporary_name_def)

lemma table_safe:
  assumes "validate_table t = Inr ()"
  shows "c \<in> set t \<Longrightarrow> safe_char c \<and> c \<noteq> CHR ''.''" "t \<noteq> []" "length t \<le> 64"
    "list_all (\<lambda>b. is_ascii_lowercase b \<or> is_ascii_digit b \<or> b = CHR ''_'') t"
  using assms by (auto simp: validate_table_def list_all_iff safe_char_def byte_class_defs split: if_splits)

lemma partition_safe:
  assumes "date_parse cal d = Inr q"
  shows "c \<in> set d \<Longrightarrow> safe_char c" "length d = 15" "\<exists>v. d = ''date='' @ v"
proof -
  obtain v where d: "d = ''date='' @ v" and v: "date_shaped v"
    using assms
    by (auto simp: date_parse_def DATE_KEY_def parse_date_value_def Let_def split: if_splits bind_splits)
  then show "length d = 15" "\<exists>v. d = ''date='' @ v" by (auto simp: date_shaped_def)
  have "safe_char c" if c: "c \<in> set v" for c
  proof -
    obtain i where "i < length v" "v ! i = c" using c by (auto simp: in_set_conv_nth)
    with v have "(i, c) \<in> set (zip [0..<10] v)" by (force simp: set_zip date_shaped_def)
    with v show ?thesis
      by (auto simp: date_shaped_def list_all_iff safe_char_def is_ascii_alphanumeric_def split: if_splits)
  qed
  with d show "c \<in> set d \<Longrightarrow> safe_char c" by auto
qed

lemma contains_str_chars: "contains_str sub s \<Longrightarrow> set sub \<subseteq> set s"
proof (induction s)
  case (Cons c s)
  then show ?case by (cases "strip_prefix sub (c # s)") auto
qed simp

text \<open>A path of three safe components below a table.\<close>

lemma safe_path:
  assumes t: "validate_table t = Inr ()" and d: "date_parse cal d = Inr q"
    and n: "\<And>c. c \<in> set n \<Longrightarrow> safe_char c" "n \<noteq> []" "n \<noteq> ''.''" "n \<noteq> ''..''" "length n \<le> 255"
    and ctl: "n \<notin> {OWNERSHIP_FILENAME, OWNERSHIP_PROBES_DIRECTORY, CONTROL_DIRECTORY}"
  defines "path \<equiv> (t @ ''/'' @ d) @ ''/'' @ n"
  shows "split_on (CHR ''/'') path = [t, d, n]" "validate_relative_path path False = Inr ()"
    "protected_validate_relative_path path = Inr ()"
proof -
  note ts = table_safe [OF t] and ds = partition_safe [OF d]
  obtain v where dv: "d = ''date='' @ v" using ds(3) by blast
  have slash: "CHR ''/'' \<notin> set t" "CHR ''/'' \<notin> set d" "CHR ''/'' \<notin> set n"
    using ts(1) ds(1) n(1) safe_char_props(1) by blast+
  show split: "split_on (CHR ''/'') path = [t, d, n]"
    using slash by (simp add: path_def split_on_append split_on_no_sep)
  obtain c t' where tc: "t = c # t'" "c \<noteq> CHR ''.''" "c \<noteq> CHR ''/''"
    using ts(1,2) slash by (cases t) auto
  have chars: "c \<in> set path \<Longrightarrow> c = CHR ''/'' \<or> safe_char c" for c
    using ts(1) ds(1) n(1) by (auto simp: path_def)
  then have bad: "\<forall>c \<in> set path. c \<notin> {CHR 0x5C, CHR ''?'', CHR ''#'', CHR 0x00}" "CHR '':'' \<notin> set path"
    using safe_char_props(2,3) by fastforce+
  have control: "\<not> is_control_path path"
    using tc ctl unfolding is_control_path_def split
    by (simp add: dv OWNERSHIP_FILENAME_def OWNERSHIP_PROBES_DIRECTORY_def CONTROL_DIRECTORY_def)
  have parts: "\<forall>part \<in> set [t, d, n]. part \<noteq> [] \<and> part \<noteq> ''.'' \<and> part \<noteq> ''..'' \<and> length part \<le> 255"
    using tc ts(3) ds(2) dv n(2-5) by auto
  have len: "length path \<le> 340" "path \<noteq> []" using ts(3) ds(2) n(5) by (auto simp: path_def)
  show "validate_relative_path path False = Inr ()"
    using bad(1) control parts len unfolding validate_relative_path_def split
    by (auto simp: list_ex_iff)
  have "\<not> contains_str ''://'' path" using contains_str_chars [of "''://''" path] bad(2) by auto
  then show "protected_validate_relative_path path = Inr ()"
    using bad(1) control parts len tc unfolding protected_validate_relative_path_def split
    by (auto simp: list_all_iff path_def)
qed

text \<open>
  The fields of a transaction the types of the source keep in range: digests are 64 hexadecimal
  digits, ordinals and sizes fit in 64 bits.
\<close>

definition pending_wf :: "pending_transaction \<Rightarrow> bool" where
  "pending_wf p \<longleftrightarrow> digest_wf (pt_id p) \<and> digest_wf (pt_stream_id p) \<and>
     ap_last_ordinal (pt_prefix p) \<le> u64_max \<and>
     (\<forall>q \<in> set (pt_parts p). digest_wf (pp_schema_sha256 q) \<and>
        (\<forall>r. pp_receipt q = Some r \<longrightarrow> digest_wf (pr_sha256 r) \<and> pr_byte_size r < u64_max))"

lemma planned_paths:
  assumes v: "pending_validate x p d = Inr ()" and wf: "pending_wf p" and q: "q \<in> set (pt_parts p)"
  shows "validate_relative_path (pp_final q) False = Inr ()" "validate_relative_path (pp_temporary q) False = Inr ()"
    "validate_plan (writer_plan p q) = Inr ()" "pp_final q \<noteq> pp_temporary q"
proof -
  obtain t where t: "t \<in> set (pt_tables p)" "0 < tp_rows t" "pp_entry_index q < length (pt_tables p)"
    "q\<lparr> pp_receipt := None \<rparr> = plan_part (pt_id p) (pt_stream_id p) (pt_prefix p) (pp_entry_index q) t"
    by (rule part_plan [OF v q])
  have frame: "pending_frame x p d" using v by (simp add: pending_validate_ok)
  then have fits: "table_plan_fits x d t" and len: "length (pt_tables p) \<le> MAX_TABLES"
      and pre: "prefix_validate x (pt_prefix p) = Inr ()"
    using t(1) by (simp_all add: pending_frame_def)
  then obtain dp where tab: "validate_table (tp_table t) = Inr ()"
      and dp: "date_parse (x_calendar x) (tp_partition t) = Inr dp"
    using t(2) by (auto simp: table_plan_fits_def)
  note ids = wf [unfolded pending_wf_def]
  have ord: "ap_first_ordinal (pt_prefix p) \<noteq> 0" "ap_first_ordinal (pt_prefix p) \<le> ap_last_ordinal (pt_prefix p)"
    using pre by (simp_all add: prefix_validate_ok)
  let ?f = "final_name (pt_id p) (pt_stream_id p) (pt_prefix p) (pp_entry_index q)"
  let ?m = "temporary_name (pt_id p) (pp_entry_index q)"
  have idx: "pp_entry_index q < MAX_TABLES" using t(3) len by simp
  have lf: "length ?f \<le> 191" using ids ord idx by (intro final_name_length) auto
  have "length (dec (pp_entry_index q)) \<le> 3" using idx by (intro length_dec) (auto simp: MAX_TABLES_def)
  then have lm: "length ?m \<le> 255" using ids by (simp add: temporary_name_def digest_wf_def)
  have dir: "part_directory t = tp_table t @ ''/'' @ tp_partition t"
    using partition_safe(3) [OF dp] by (auto simp: part_directory_def)
  note paths = part_paths [OF t(4)]
  have nf: "?f \<noteq> []" "?f \<noteq> ''.''" "?f \<noteq> ''..''" "?f \<notin> {OWNERSHIP_FILENAME, OWNERSHIP_PROBES_DIRECTORY, CONTROL_DIRECTORY}"
    by (simp_all add: final_name_def OWNERSHIP_FILENAME_def OWNERSHIP_PROBES_DIRECTORY_def CONTROL_DIRECTORY_def)
  have nm: "?m \<noteq> []" "?m \<noteq> ''.''" "?m \<noteq> ''..''" "?m \<notin> {OWNERSHIP_FILENAME, OWNERSHIP_PROBES_DIRECTORY, CONTROL_DIRECTORY}"
    by (simp_all add: temporary_name_def OWNERSHIP_FILENAME_def OWNERSHIP_PROBES_DIRECTORY_def CONTROL_DIRECTORY_def)
  have sf: "c \<in> set ?f \<Longrightarrow> safe_char c" and sm: "c \<in> set ?m \<Longrightarrow> safe_char c" for c
    using final_name_safe temporary_name_safe ids by blast+
  note F = safe_path [OF tab dp sf nf(1-3) _ nf(4)] and M = safe_path [OF tab dp sm nm(1-3) lm nm(4)]
  have F: "split_on (CHR ''/'') (pp_final q) = [tp_table t, tp_partition t, ?f]"
      "validate_relative_path (pp_final q) False = Inr ()" "protected_validate_relative_path (pp_final q) = Inr ()"
    using F lf unfolding paths dir by simp_all
  have M: "split_on (CHR ''/'') (pp_temporary q) = [tp_table t, tp_partition t, ?m]"
      "validate_relative_path (pp_temporary q) False = Inr ()" "protected_validate_relative_path (pp_temporary q) = Inr ()"
    using M unfolding paths dir by simp_all
  show "validate_relative_path (pp_final q) False = Inr ()" "validate_relative_path (pp_temporary q) False = Inr ()"
    by (rule F(2), rule M(2))
  have fields: "pp_table q = tp_table t" "pp_row_count q = tp_rows t"
    using arg_cong [OF t(4), of pp_table] arg_cong [OF t(4), of pp_row_count] by (simp_all add: plan_part_def)
  have "validate_digest (digest_str dg) = Inr ()" if "digest_wf dg" for dg
    using that by (simp add: validate_digest_def digest_wf_def)
  then show "validate_plan (writer_plan p q) = Inr ()"
    using ids q ord t(2) fields table_safe [OF tab] F(3) M(3)
    by (simp add: validate_plan_def writer_plan_def protected_validate_table_def path_parent_def path_file_name_def
        F(1) M(1) protected_final_name_def protected_temporary_name_def final_name_def temporary_name_def)
  show "pp_final q \<noteq> pp_temporary q"
    using F(1) M(1) final_not_temporary by (metis list.inject)
qed


section \<open>Success in a healthy environment\<close>

definition readsT :: "world \<Rightarrow> files \<Rightarrow> 'a io \<Rightarrow> ('a \<Rightarrow> bool) \<Rightarrow> bool" where
  "readsT w0 F m Q \<longleftrightarrow> triple (has_files w0 F) m (\<lambda>r w. Q r \<and> has_files w0 F w) (\<lambda>_. False)"

lemma readsT_return: "Q a \<Longrightarrow> readsT w0 F (returnIO a) Q"
  unfolding readsT_def by (rule triple_return) simp

lemma readsT_lift: "r = Inr a \<Longrightarrow> readsT w0 F (f a) Q \<Longrightarrow> readsT w0 F (bindIO (liftR r) f) Q"
  unfolding readsT_def by (rule triple_lift_ok)

lemma readsT_bind:
  assumes "readsT w0 F m R" "\<And>a. R a \<Longrightarrow> readsT w0 F (f a) Q"
  shows "readsT w0 F (bindIO m f) Q"
  unfolding readsT_def
  by (rule triple_bind [OF assms(1) [unfolded readsT_def]])
    (rule triple_pre_pure, use assms(2) in \<open>simp add: readsT_def\<close>)

lemma triple_readsT_bind:
  assumes "readsT w0 F m R" "\<And>a. R a \<Longrightarrow> triple (has_files w0 F) (f a) Q (\<lambda>_. False)"
  shows "triple (has_files w0 F) (bindIO m f) Q (\<lambda>_. False)"
  by (rule triple_bind [OF assms(1) [unfolded readsT_def]])
    (rule triple_pre_pure, use assms(2) in simp)

lemma readsT_observe: "healthy e \<Longrightarrow> (\<And>w. w_files w = F \<Longrightarrow> Q (f w)) \<Longrightarrow> readsT w0 F (observe e msg f) Q"
  unfolding readsT_def by (rule observe_total) (auto simp: has_files_def)

lemma readsT_sync: "healthy e \<Longrightarrow> readsT w0 F (sync e msg) (\<lambda>_. True)"
  unfolding sync_def by (rule readsT_observe) simp_all

lemma readsT_for_each:
  "(\<And>a. a \<in> set as \<Longrightarrow> readsT w0 F (f a) (\<lambda>_. True)) \<Longrightarrow> readsT w0 F (for_eachIO f as) (\<lambda>_. True)"
  by (induction as) (auto intro!: readsT_return readsT_bind)

lemma readsT_read_local:
  assumes "healthy e" "F path = Some bytes" "length bytes = n" "n < u64_max"
  shows "readsT w0 F (read_local_bounded e path n) (\<lambda>b. b = bytes)"
  unfolding read_local_bounded_def
  by (rule readsT_bind [where R = "\<lambda>c. c = Some bytes"], rule readsT_observe [OF assms(1)])
    (use assms(2-4) in \<open>auto intro!: readsT_lift readsT_return simp: some_or_def checked_add_def\<close>)

lemma verify_bytes_fields:
  assumes "verify_bytes e plan r bytes = Inr ()"
  shows "protected_validate_receipt plan r = Inr ()" "length bytes = wr_byte_size r" "wr_byte_size r < u64_max"
    "protected_validate_relative_path (wp_final plan) = Inr ()"
    "protected_validate_relative_path (wp_temporary plan) = Inr ()"
  using assms
  by (auto simp: verify_bytes_def protected_validate_receipt_def validate_plan_def result_simps)

lemma verify_final_total:
  assumes "healthy e" "intact e p F q"
  shows "readsT w0 F (verify_final e p q) (\<lambda>r. r = Present)"
proof -
  obtain r bytes where r: "writer_receipt q = Inr r" "F (pp_final q) = Some bytes"
      "verify_bytes e (writer_plan p q) r bytes = Inr ()"
    using assms(2) by (auto simp: intact_def part_intact_def)
  note v = verify_bytes_fields [OF r(3)]
  show ?thesis
    unfolding verify_final_def part_verify_def Let_def
  proof (rule readsT_lift [OF r(1)], simp only: if_False writer_plan_paths, rule readsT_lift [OF v(1)],
      rule readsT_lift [OF v(4) [unfolded writer_plan_paths]],
      rule readsT_bind [where R = "\<lambda>seen. seen = Some bytes"], rule readsT_observe [OF assms(1)])
    show "readsT w0 F (if seen = None then returnIO Missing
        else bindIO (read_local_bounded e (pp_final q) (wr_byte_size r)) (\<lambda>bytes.
          bindIO (liftR (verify_bytes e (writer_plan p q) r bytes)) (\<lambda>_.
          bindIO (sync e ''syncing verified protected file'') (\<lambda>_.
          bindIO (sync e ''creating output directory'') (\<lambda>_. returnIO Present))))) (\<lambda>r. r = Present)"
      if "seen = Some bytes" for seen
      using that r v
      by (auto intro!: readsT_bind [OF readsT_read_local [OF assms(1)]] readsT_lift [OF r(3)]
          readsT_bind [OF readsT_sync [OF assms(1)]] readsT_return)
  qed (simp add: r)
qed

lemma verify_missing_total:
  assumes "healthy e" "pending_validate x p d = Inr ()" "pending_wf p" "q \<in> set (pt_parts p)"
    "pp_receipt q = Some rc" "pr_byte_size rc > 0" "F (pp_final q) = None"
  shows "readsT w0 F (verify_final e p q) (\<lambda>r. r = Missing)"
proof -
  obtain r where r: "writer_receipt q = Inr r" using assms(5) by (simp add: writer_receipt_def)
  note pl = planned_paths [OF assms(2-4)]
  have wf: "digest_wf (pr_sha256 rc)" "pr_byte_size rc < u64_max"
    using assms(3-5) by (auto simp: pending_wf_def)
  have v: "protected_validate_receipt (writer_plan p q) r = Inr ()"
    using r pl(3) wf assms(5,6)
    by (auto simp: protected_validate_receipt_def writer_receipt_def writer_plan_def validate_digest_def digest_wf_def)
  have f: "protected_validate_relative_path (wp_final (writer_plan p q)) = Inr ()"
    using pl(3) by (simp add: validate_plan_def result_simps)
  show ?thesis
    unfolding verify_final_def part_verify_def Let_def
    by (rule readsT_lift [OF r], simp only: if_False, rule readsT_lift [OF v], rule readsT_lift [OF f],
        rule readsT_bind [where R = "\<lambda>seen. seen = None"], rule readsT_observe [OF assms(1)])
      (use assms(7) in \<open>auto intro!: readsT_return\<close>)
qed

lemma exists_regular_total:
  "healthy e \<Longrightarrow> validate_relative_path path False = Inr () \<Longrightarrow>
    readsT w0 F (exists_regular e path) (\<lambda>b. b \<longleftrightarrow> F path \<noteq> None)"
  unfolding exists_regular_def by (rule readsT_lift, assumption, rule readsT_observe) auto

lemma unoccupied_total:
  assumes "healthy e" "pending_validate x p d = Inr ()" "pending_wf p"
    "\<forall>q \<in> set (pt_parts p). F (pp_final q) = None \<and> F (pp_temporary q) = None"
  shows "readsT w0 F (require_unoccupied e p) (\<lambda>_. True)"
  unfolding require_unoccupied_def final_exists_def
proof (rule readsT_for_each)
  fix q
  assume q: "q \<in> set (pt_parts p)"
  note pl = planned_paths [OF assms(2,3) q]
  show "readsT w0 F (bindIO (exists_regular e (pp_final q)) (\<lambda>final_present.
       bindIO (liftR (require (\<not> final_present)
         ''planned final part already exists before Writing; refusing adoption or replacement'')) (\<lambda>_.
       bindIO (exists_regular e (pp_temporary q)) (\<lambda>temporary_present.
       liftR (require (\<not> temporary_present)
         ''planned temporary part already exists before Writing; refusing to claim it''))))) (\<lambda>_. True)"
    by (rule readsT_bind [OF exists_regular_total [OF assms(1) pl(1)]], rule readsT_lift [where a = "()"], use assms(4) q in simp,
        rule readsT_bind [OF exists_regular_total [OF assms(1) pl(2)]])
      (use assms(4) q in \<open>auto simp: readsT_def triple_def liftR_def\<close>)
qed

lemma verify_all_total:
  assumes "healthy e" "\<forall>q \<in> set (pt_parts p). intact e p F q"
  shows "readsT w0 F (verify_all_finals e p) (\<lambda>_. True)"
  unfolding verify_all_finals_def
  by (rule readsT_for_each, rule readsT_bind [OF verify_final_total [OF assms(1)]])
    (use assms(2) in \<open>auto simp: readsT_def triple_def liftR_def\<close>)

lemma remove_local_total:
  assumes "healthy e" "validate_relative_path path False = Inr ()"
  shows "triple (has_files w0 F) (remove_local e path) (\<lambda>_. has_files w0 (F |` (- {path}))) (\<lambda>_. False)"
proof -
  have "triple (has_files w0 F)
      (if F path \<noteq> None then mutate e ''removing an exact journal-owned file'' (put_file path None) else returnIO ())
      (\<lambda>_. has_files w0 (F |` (- {path}))) (\<lambda>_. False)"
    by (cases "F path")
      (auto intro!: mutate_total [OF assms(1)] triple_return simp: put_file_None restrict_absent)
  moreover have "triple (has_files w0 (F |` (- {path}))) (sync e msg) (\<lambda>_. has_files w0 (F |` (- {path}))) (\<lambda>_. False)" for msg
    using readsT_sync [OF assms(1), of w0 "F |` (- {path})" msg] unfolding readsT_def by simp
  ultimately show ?thesis
    unfolding remove_local_def
    by (intro triple_readsT_bind [OF exists_regular_total [OF assms]]
        triple_bind [where R = "\<lambda>_. has_files w0 (F |` (- {path}))"]) simp_all
qed

lemma remove_list_total:
  assumes "healthy e" "\<And>q. q \<in> set qs \<Longrightarrow> validate_relative_path (name q) False = Inr ()"
  shows "triple (has_files w0 F) (for_eachIO (\<lambda>q. remove_local e (name q)) qs)
     (\<lambda>_. has_files w0 (F |` (- name ` set qs))) (\<lambda>_. False)"
  using assms(2)
proof (induction qs arbitrary: F)
  case Nil
  then show ?case by (simp add: triple_return)
next
  case (Cons q qs)
  have eq: "F |` (- {name q}) |` (- name ` set qs) = F |` (- name ` set (q # qs))"
    unfolding restrict_twice by simp
  show ?case
    unfolding for_eachIO.simps
    by (rule triple_bind [OF remove_local_total [OF assms(1) Cons.prems]], simp)
      (use Cons.IH [of "F |` (- {name q})", unfolded eq] Cons.prems in simp)
qed


lemma published_total:
  assumes "healthy e" "pending_validate x p d = Inr ()" "pending_wf p"
    "\<forall>q \<in> set qs. F (pp_final q) \<noteq> None \<longrightarrow> intact e p F q" "set qs \<subseteq> set (pt_parts p)"
  shows "readsT w0 F (published_parts e p qs) (\<lambda>_. True)"
  using assms(4,5)
proof (induction qs)
  case Nil
  then show ?case by (simp add: readsT_return)
next
  case (Cons q qs)
  then have q: "q \<in> set (pt_parts p)" by simp
  have IH: "readsT w0 F (published_parts e p qs) (\<lambda>_. True)" using Cons by simp
  show ?case
  proof (cases "pp_receipt q")
    case None
    then have "F (pp_final q) = None" using Cons.prems by (auto simp: intact_def writer_receipt_def)
    then have "readsT w0 F (bindIO (final_exists e q) (\<lambda>seen. bindIO (liftR (require (\<not> seen)
          ''Writing journal has a published part without a frozen receipt; refusing cleanup'')) (\<lambda>_.
        published_parts e p qs))) (\<lambda>_. True)"
      unfolding final_exists_def
      by (intro readsT_bind [OF exists_regular_total [OF assms(1) planned_paths(1) [OF assms(2,3) q]]]
          readsT_lift [of "require _ _" "()"] IH) simp_all
    then show ?thesis using None by simp
  next
    case (Some rc)
    have "receipt_fits x (pt_phase p) q" using assms(2) q unfolding pending_validate_ok by blast
    then have size: "pr_byte_size rc > 0" using Some by (auto simp: receipt_fits_def validate_receipt_def split: if_splits)
    have "readsT w0 F (verify_final e p q) (\<lambda>_. True)"
    proof (cases "F (pp_final q) = None")
      case True
      from verify_missing_total [where F = F, OF assms(1-3) q Some size True] show ?thesis
        unfolding readsT_def by (rule triple_conseq) auto
    next
      case False
      with Cons.prems have "intact e p F q" by simp
      from verify_final_total [OF assms(1) this] show ?thesis
        unfolding readsT_def by (rule triple_conseq) auto
    qed
    with Some show ?thesis by (simp, intro readsT_bind [OF _ readsT_bind [OF IH]] readsT_return) auto
  qed
qed

lemma rollback_total:
  assumes "healthy e" "pending_validate x p d = Inr ()" "pending_wf p" "pt_phase p = Writing" "rollback_safe e p F"
  shows "triple (has_files w0 F) (rollback_writing e p) (\<lambda>_. has_files w0 (F |` (- part_names p))) (\<lambda>_. False)"
proof -
  note paths = planned_paths [OF assms(2,3)]
  have pub: "readsT w0 F (published_parts e p (pt_parts p)) (\<lambda>present. set present \<subseteq> set (pt_parts p))"
  proof -
    have "readsT w0 F (published_parts e p (pt_parts p)) (\<lambda>_. True)"
      by (rule published_total [OF assms(1-3)]) (use assms(5) in \<open>simp_all add: rollback_safe_def\<close>)
    from triple_conj [OF reads_published [of w0 F e p "pt_parts p", unfolded reads_def] this [unfolded readsT_def]]
    show ?thesis unfolding readsT_def by (rule triple_conseq) auto
  qed
  have "triple (has_files w0 F) (rollback_writing e p) (\<lambda>_ _. True) (\<lambda>_. False)"
    unfolding rollback_writing_def cleanup_temporaries_def
  proof (rule triple_lift_ok [where v = "()"], use assms(4) in simp, rule triple_readsT_bind [OF pub])
    fix present
    assume "set present \<subseteq> set (pt_parts p)"
    then show "triple (has_files w0 F) (bindIO (for_eachIO (\<lambda>q. remove_local e (pp_final q)) present)
        (\<lambda>_. for_eachIO (\<lambda>q. remove_local e (pp_temporary q)) (pt_parts p))) (\<lambda>_ _. True) (\<lambda>_. False)"
      by (intro triple_bind [OF remove_list_total [OF assms(1)]]
          triple_conseq [OF remove_list_total [OF assms(1), where name = pp_temporary]]) (use paths in auto)
  qed
  from triple_conj [OF rollback_triple this] show ?thesis by (rule triple_conseq) auto
qed

lemma readsT_require_absent: "F path = None \<Longrightarrow> readsT w0 F (require_absent path msg) (\<lambda>_. True)"
  by (auto simp: readsT_def triple_def require_absent_def has_files_def)

lemma stage_total:
  assumes "healthy e" "verify_bytes e (ep_plan ep) (ep_receipt ep) (ep_bytes ep) = Inr ()"
    "F (wp_temporary (ep_plan ep)) = None"
  shows "triple (has_files w0 F) (part_stage e ep)
     (\<lambda>_. has_files w0 (F(wp_temporary (ep_plan ep) \<mapsto> ep_bytes ep))) (\<lambda>_. False)"
proof -
  have mut: "triple (\<lambda>_. True) (mutate e msg f) (\<lambda>_ _. True) (\<lambda>_. False)" for msg f
    by (rule mutate_total [OF assms(1)]) simp
  have syn: "triple (\<lambda>_. True) (sync e msg) (\<lambda>_ _. True) (\<lambda>_. False)" for msg
    unfolding sync_def by (rule observe_total [OF assms(1)]) simp
  have "triple (has_files w0 F) (mutate e msg f) (\<lambda>_ _. True) (\<lambda>_. False)" for msg f
    using mut by (rule triple_conseq) auto
  then have "triple (has_files w0 F) (part_stage e ep) (\<lambda>_ _. True) (\<lambda>_. False)"
    unfolding part_stage_def Let_def
    by (intro triple_lift_ok [OF assms(2)] triple_lift_ok [OF verify_bytes_fields(5) [OF assms(2)]]
        triple_readsT_bind [OF readsT_sync [OF assms(1)]] triple_readsT_bind [OF readsT_require_absent [where F = F, OF assms(3)]]
        triple_bind [OF _ triple_bind [OF mut triple_bind [OF mut triple_bind [OF syn syn]]]])
  from triple_conj [OF stage_triple this] show ?thesis by (rule triple_conseq) auto
qed

lemma publish_total:
  assumes "healthy e" "wp_temporary plan \<noteq> wp_final plan" "F (wp_temporary plan) = Some bytes"
    "verify_bytes e plan r bytes = Inr ()" "F (wp_final plan) = None"
  shows "triple (has_files w0 F) (part_publish e plan r)
     (\<lambda>_. has_files w0 (F(wp_final plan \<mapsto> bytes, wp_temporary plan := None))) (\<lambda>_. False)"
proof -
  note v = verify_bytes_fields [OF assms(4)]
  have mut: "triple (\<lambda>_. True) (mutate e msg f) (\<lambda>_ _. True) (\<lambda>_. False)" for msg f
    by (rule mutate_total [OF assms(1)]) simp
  have syn: "triple (\<lambda>_. True) (sync e msg) (\<lambda>_ _. True) (\<lambda>_. False)" for msg
    unfolding sync_def by (rule observe_total [OF assms(1)]) simp
  have "triple (has_files w0 F) (mutate e msg f) (\<lambda>_ _. True) (\<lambda>_. False)" for msg f
    using mut by (rule triple_conseq) auto
  note tail = triple_bind [OF this triple_bind [OF mut syn]]
  have "triple (has_files w0 F) (part_publish e plan r) (\<lambda>_ _. True) (\<lambda>_. False)"
    unfolding part_publish_def Let_def
  proof (rule triple_lift_ok [OF v(5)], rule triple_lift_ok [OF v(4)],
      rule triple_readsT_bind [OF readsT_read_local [where F = F, OF assms(1,3) v(2,3)]])
    fix b
    assume "b = bytes"
    then have b: "verify_bytes e plan r b = Inr ()" using assms(4) by simp
    show "triple (has_files w0 F) (bindIO (liftR (verify_bytes e plan r b)) (\<lambda>_.
      bindIO (sync e ''syncing verified staging file'') (\<lambda>_.
      bindIO (require_absent (wp_final plan) ''publishing Parquet file without replacement'') (\<lambda>_.
      bindIO (mutate e ''publishing Parquet file without replacement''
        (\<lambda>w. put_file (wp_final plan) (w_files w (wp_temporary plan)) w)) (\<lambda>_.
      bindIO (mutate e ''removing published staging name'' (put_file (wp_temporary plan) None)) (\<lambda>_.
      sync e ''syncing output directory'')))))) (\<lambda>_ _. True) (\<lambda>_. False)"
      by (intro triple_lift_ok [OF b] triple_readsT_bind [OF readsT_sync [OF assms(1)]]
          triple_readsT_bind [OF readsT_require_absent [where F = F, OF assms(5)]] tail)
  qed
  from triple_conj [OF publish_triple [OF assms(2)] this] show ?thesis
    by (rule triple_conseq) (use assms(2,3) in \<open>auto simp: published_def\<close>)
qed

section \<open>Properties\<close>

text \<open>
  C23. Rolling back a transaction that is still being written touches only names of its
  own plan. If it succeeds, no final or temporary part of the transaction is left and every other file
  is as before. If it fails, it has removed nothing unless every published part of the transaction
  had been verified byte for byte against its frozen receipt first.
\<close>

theorem rollback_exact:
  assumes "rollback_writing e p w = (r, w')"
  shows "(w_state w', w_pending w', w_logs w', w_mirror w') = (w_state w, w_pending w, w_logs w, w_mirror w) \<and>
    (is_ok r \<longrightarrow> w_files w' = w_files w |` (- part_names p)) \<and>
    (\<forall>path. path \<notin> part_names p \<longrightarrow> w_files w' path = w_files w path) \<and>
    (w_files w' \<noteq> w_files w \<longrightarrow>
      (\<forall>q \<in> set (pt_parts p). w_files w (pp_final q) \<noteq> None \<longrightarrow> intact e p (w_files w) q))"
proof (cases r)
  case (Inl err)
  from tripleD(2) [OF rollback_triple has_files_self assms [unfolded Inl]]
  obtain D where D: "D \<subseteq> part_names p" "D = {} \<or> rollback_safe e p (w_files w)" "has_files w (w_files w |` (- D)) w'"
    by blast
  then show ?thesis using Inl by (auto simp: has_files_def restrict_map_def rollback_safe_def)
next
  case (Inr u)
  from tripleD(1) [OF rollback_triple has_files_self assms [unfolded Inr]]
  show ?thesis using Inr by (auto simp: has_files_def restrict_map_def rollback_safe_def)
qed

text \<open>A world with leftovers of the sample transaction and a file of somebody else.\<close>

definition sample_leftovers :: world where
  "sample_leftovers = empty_world\<lparr> w_files :=
     (\<lambda>_. None)(pp_temporary (hd (pt_parts sample_pending)) \<mapsto> ''torn'', ''keep'' \<mapsto> ''k'') \<rparr>"

lemma sample_part:
  obtains q where "pt_parts sample_pending = [q]" "pp_row_count q = 3" "pp_receipt q = None"
    "pp_schema_sha256 q = sample_digest (CHR ''1'')"
proof -
  obtain q where q: "pt_parts sample_pending = [q]" "pp_row_count q = 3" using sample_parts by blast
  have "map (\<lambda>a. (pp_table a, pp_row_count a, pp_schema_sha256 a)) (pt_parts sample_pending) =
      [(''blocks'', 3, sample_digest (CHR ''1''))]"
    unfolding parts_of_tables [OF sample_pending_valid(2)] prepare_ok(4) [OF sample_prepared]
    by (simp add: sample_tables_def)
  with q prepare_ok(6) [OF sample_prepared] show ?thesis by (intro that) auto
qed

lemma sample_pending_wf: "pending_wf sample_pending"
proof -
  obtain q where q: "pt_parts sample_pending = [q]" "pp_row_count q = 3" "pp_receipt q = None"
    "pp_schema_sha256 q = sample_digest (CHR ''1'')" by (rule sample_part)
  have "pending_frame sample_ext sample_pending sample_descriptor"
    using sample_pending_valid(2) by (simp add: pending_validate_ok)
  note ids = pending_ids_wf [OF sample_sha256_hex this]
  have "digest_wf (sample_digest (CHR ''1''))"
    by (rule sample_digest_wf) (simp add: byte_class_defs)
  then show ?thesis
    using ids q by (simp add: pending_wf_def prepare_ok(3) [OF sample_prepared] sample_prefix_def u64_max_def)
qed

lemma sample_part_paths:
  assumes "pt_parts sample_pending = [q]"
  shows "pp_final q \<noteq> pp_temporary q" "''keep'' \<notin> part_names sample_pending"
proof -
  have v: "pending_validate sample_ext sample_pending sample_descriptor = Inr ()"
    by (rule sample_pending_valid(2))
  have q: "q \<in> set (pt_parts sample_pending)" using assms by simp
  show "pp_final q \<noteq> pp_temporary q" by (rule planned_paths(4) [OF v sample_pending_wf q])
  obtain t where "q\<lparr> pp_receipt := None \<rparr> = plan_part (pt_id sample_pending) (pt_stream_id sample_pending)
      (pt_prefix sample_pending) (pp_entry_index q) t" by (rule part_plan [OF v q])
  note paths = part_paths [OF this]
  have "CHR ''/'' \<in> set (pp_final q)" "CHR ''/'' \<in> set (pp_temporary q)" unfolding paths by simp_all
  then have "pp_final q \<noteq> ''keep''" "pp_temporary q \<noteq> ''keep''" by auto
  then show "''keep'' \<notin> part_names sample_pending" unfolding part_names_def assms by simp
qed

theorem rollback_exact_witness:
  "\<exists>w'. rollback_writing sample_env sample_pending sample_leftovers = (Inr (), w') \<and>
     (\<forall>q \<in> set (pt_parts sample_pending). w_files w' (pp_temporary q) = None \<and> w_files w' (pp_final q) = None) \<and>
     w_files w' ''keep'' = Some ''k''"
proof -
  obtain q where q: "pt_parts sample_pending = [q]" by (rule sample_part)
  note paths = sample_part_paths [OF q]
  have v: "pending_validate (e_ext sample_env) sample_pending sample_descriptor = Inr ()"
    using sample_pending_valid(2) by simp
  have "pp_final q \<noteq> ''keep''" using paths(2) unfolding part_names_def q by auto
  with paths(1) have safe: "rollback_safe sample_env sample_pending (w_files sample_leftovers)"
    unfolding rollback_safe_def q sample_leftovers_def empty_world_def by simp
  obtain w' where w': "rollback_writing sample_env sample_pending sample_leftovers = (Inr (), w')"
    using triple_success [OF rollback_total [OF sample_env_healthy v sample_pending_wf
          prepare_ok(2) [OF sample_prepared] safe] has_files_self] by auto
  have "w_files w' = w_files sample_leftovers |` (- part_names sample_pending)"
    using rollback_exact [OF w'] by simp
  then show ?thesis
    using w' paths(2) by (simp add: part_names_def restrict_map_def q sample_leftovers_def)
qed


text \<open>
  C32. Bytes that verify for two plans are the same part of the same transaction:
  the plans agree on the stream, the transaction, the entry, the ordinal range, the schema and the
  number of rows. A part of one transaction is never taken for a part of another.
\<close>

theorem part_identity_unique:
  assumes "verify_bytes e p r bytes = Inr ()" "verify_bytes e q s bytes = Inr ()"
  shows "wp_stream_id p = wp_stream_id q \<and> wp_transaction_id p = wp_transaction_id q \<and>
    wp_entry_index p = wp_entry_index q \<and> wp_first_ordinal p = wp_first_ordinal q \<and>
    wp_last_ordinal p = wp_last_ordinal q \<and> wp_schema_sha256 p = wp_schema_sha256 q \<and>
    wp_row_count p = wp_row_count q \<and> r = s"
proof -
  have f: "\<exists>footer m. e_parquet e bytes = Some m \<and> pf_metadata m = Some footer \<and> nat (pf_rows m) = wp_row_count p \<and>
      pf_schema_sha256 m = Some (wp_schema_sha256 p) \<and>
      (\<forall>(key, value) \<in> set (footer_identity p). map snd (filter (\<lambda>(k, _). k = key) footer) = [Some value]) \<and>
      r = \<lparr> wr_byte_size = length bytes, wr_sha256 = x_sha256 (e_ext e) bytes, wr_row_count = wp_row_count p,
        wr_schema_sha256 = wp_schema_sha256 p \<rparr>"
    if "verify_bytes e p r bytes = Inr ()" for p r
    using that by (cases r) (auto simp: verify_bytes_def verify_footer_def result_simps case_prod_beta)
  obtain footer m where p: "e_parquet e bytes = Some m" "pf_metadata m = Some footer" "nat (pf_rows m) = wp_row_count p"
      "pf_schema_sha256 m = Some (wp_schema_sha256 p)"
      "\<forall>(key, value) \<in> set (footer_identity p). map snd (filter (\<lambda>(k, _). k = key) footer) = [Some value]"
      "r = \<lparr> wr_byte_size = length bytes, wr_sha256 = x_sha256 (e_ext e) bytes, wr_row_count = wp_row_count p,
        wr_schema_sha256 = wp_schema_sha256 p \<rparr>"
    using f [OF assms(1)] by blast
  have q: "nat (pf_rows m) = wp_row_count q" "pf_schema_sha256 m = Some (wp_schema_sha256 q)"
      "\<forall>(key, value) \<in> set (footer_identity q). map snd (filter (\<lambda>(k, _). k = key) footer) = [Some value]"
      "s = \<lparr> wr_byte_size = length bytes, wr_sha256 = x_sha256 (e_ext e) bytes, wr_row_count = wp_row_count q,
        wr_schema_sha256 = wp_schema_sha256 q \<rparr>"
    using f [OF assms(2)] p(1,2) by auto
  show ?thesis
    using p(3-6) q by (simp add: footer_identity_def dec_inj)
qed

text \<open>The footer and the receipt a correct encoder gives a part.\<close>

definition exact_footer :: "writer_part \<Rightarrow> parquet_footer" where
  "exact_footer plan = \<lparr> pf_metadata = Some ((ARROW_SCHEMA_META_KEY, Some []) #
       map (\<lambda>(k, v). (k, Some v)) (footer_identity plan)),
     pf_rows = int (wp_row_count plan), pf_schema_sha256 = Some (wp_schema_sha256 plan) \<rparr>"

definition exact_receipt :: "ext \<Rightarrow> writer_part \<Rightarrow> string \<Rightarrow> protected_receipt" where
  "exact_receipt x plan bytes = \<lparr> wr_byte_size = length bytes, wr_sha256 = x_sha256 x bytes,
     wr_row_count = wp_row_count plan, wr_schema_sha256 = wp_schema_sha256 plan \<rparr>"

lemma exact_verifies:
  assumes "validate_plan plan = Inr ()" "sha256_hex (e_ext e)" "e_parquet e bytes = Some (exact_footer plan)"
    "bytes \<noteq> []" "length bytes < u64_max"
  shows "verify_bytes e plan (exact_receipt (e_ext e) plan bytes) bytes = Inr ()"
proof -
  have "verify_footer plan (exact_footer plan) = Inr ()"
    by (simp add: verify_footer_def exact_footer_def footer_identity_def ARROW_SCHEMA_META_KEY_def FOOTER_PREFIX_def)
  moreover have "validate_digest (x_sha256 (e_ext e) bytes) = Inr ()"
    using assms(2) by (simp add: validate_digest_def sha256_hex_def)
  ultimately show ?thesis
    using assms by (simp add: verify_bytes_def exact_receipt_def protected_validate_receipt_def)
qed

definition sample_plan :: writer_part where
  "sample_plan = writer_plan sample_pending (hd (pt_parts sample_pending))"

definition sample_bytes :: string where
  "sample_bytes = ''PAR1..PAR1''"

text \<open>The environment in which \<open>sample_bytes\<close> is the encoded part of the sample transaction.\<close>

definition sample_parts_env :: env where
  "sample_parts_env = sample_env\<lparr> e_parquet := (\<lambda>b. if b = sample_bytes then Some (exact_footer sample_plan) else None) \<rparr>"

lemma sample_parts_env_simps [simp]: "e_ext sample_parts_env = sample_ext" "e_codec sample_parts_env = e_codec sample_env"
  "e_fault sample_parts_env = e_fault sample_env"
  by (simp_all add: sample_parts_env_def)

lemma sample_parts_env_healthy: "healthy sample_parts_env"
  using sample_env_healthy by (simp add: healthy_def)

lemma sample_plan_valid: "validate_plan sample_plan = Inr ()"
proof -
  obtain q where q: "pt_parts sample_pending = [q]" by (rule sample_part)
  show ?thesis
    unfolding sample_plan_def q list.sel
    by (rule planned_paths(3) [OF sample_pending_valid(2) sample_pending_wf]) (simp add: q)
qed

lemma sample_bytes_verify:
  "verify_bytes sample_parts_env sample_plan (exact_receipt sample_ext sample_plan sample_bytes) sample_bytes = Inr ()"
  using exact_verifies [OF sample_plan_valid, of sample_parts_env sample_bytes] sample_sha256_hex
  by (simp add: sample_parts_env_def sample_bytes_def u64_max_def)

theorem part_identity_unique_witness:
  "let rc = exact_receipt sample_ext sample_plan sample_bytes in
   verify_bytes sample_parts_env sample_plan rc sample_bytes = Inr () \<and>
   \<not> (\<exists>s. verify_bytes sample_parts_env (sample_plan\<lparr> wp_entry_index := Suc (wp_entry_index sample_plan) \<rparr>) s sample_bytes = Inr ())"
proof -
  have "\<not> (\<exists>s. verify_bytes sample_parts_env (sample_plan\<lparr> wp_entry_index := Suc (wp_entry_index sample_plan) \<rparr>) s sample_bytes = Inr ())"
  proof
    assume "\<exists>s. verify_bytes sample_parts_env (sample_plan\<lparr> wp_entry_index := Suc (wp_entry_index sample_plan) \<rparr>) s sample_bytes = Inr ()"
    then obtain s where
      "verify_bytes sample_parts_env (sample_plan\<lparr> wp_entry_index := Suc (wp_entry_index sample_plan) \<rparr>) s sample_bytes = Inr ()"
      by (rule exE)
    from part_identity_unique [OF sample_bytes_verify this] show False by simp
  qed
  with sample_bytes_verify show ?thesis unfolding Let_def by (rule conjI)
qed

definition sample_staged :: world where
  "sample_staged = empty_world\<lparr> w_files := (\<lambda>_. None)(wp_temporary sample_plan \<mapsto> sample_bytes, ''keep'' \<mapsto> ''k'') \<rparr>"


end
