(* ===== verification/Delta_Commit.thy ===== *)
theory Delta_Commit
  imports Txn_Parts
begin

text \<open>
  One Delta commit per table for a committed transaction (\<open>delta/commit.rs\<close>, and the table identity of
  \<open>delta/mod.rs\<close>): opening and validating the tables, the \<open>add\<close> of every part from the journal, the
  commits with \<open>blocks\<close> last, and recovery, which reads each table's \<open>txn\<close> and commits only what did
  not land. The library delta-rs and the object store under it are the parameters \<open>e_delta\<close> and
  \<open>e_arrive\<close> with the laws \<open>delta_laws\<close>: conditional appends of which at most one of a stream lands past
  a snapshot. A commit without an answer may still arrive later. Retry counts, timings and the
  checkpoint hint, which feed metrics only, are left out.
\<close>

section \<open>Identity of the tables\<close>

definition PARTITION_COLUMN :: string where
  "PARTITION_COLUMN = DATE_KEY"

definition MIN_READER_VERSION :: int where
  "MIN_READER_VERSION = 1"

definition MIN_WRITER_VERSION :: int where
  "MIN_WRITER_VERSION = 2"

definition DESCRIPTOR_PROPERTY :: string where
  "DESCRIPTOR_PROPERTY = ''fireparq.descriptor''"

definition table_properties :: "(string \<times> string) list" where
  "table_properties =
     [(''delta.appendOnly'', ''true''), (''delta.checkpointInterval'', ''100''),
      (''delta.logRetentionDuration'', ''interval 7 days''),
      (''delta.deletedFileRetentionDuration'', ''interval 7 days''),
      (''delta.dataSkippingStatsColumns'', ''block_num,timestamp''),
      (''delta.targetFileSize'', ''268435456'')]"

record delta_identity =
  di_descriptor :: string
  di_chain :: string
  di_block_type :: string

definition identity_of :: "ext \<Rightarrow> stream_descriptor \<Rightarrow> delta_identity result" where
  "identity_of x d =
     bindR (case family_json (sd_family d) of JStr s \<Rightarrow> Inr s
            | _ \<Rightarrow> bail ''a block family serializes as its label'') (\<lambda>block_type.
     bindR (descriptor_id x d) (\<lambda>i.
     Inr \<lparr> di_descriptor = digest_str i, di_chain = sd_chain d, di_block_type = block_type \<rparr>))"

definition app_id :: "delta_identity \<Rightarrow> string" where
  "app_id i = ''fireparq:'' @ di_descriptor i"

definition identity_properties :: "delta_identity \<Rightarrow> (string \<times> string) list" where
  "identity_properties i =
     [(DESCRIPTOR_PROPERTY, di_descriptor i), (''fireparq.chain'', di_chain i),
      (''fireparq.blockType'', di_block_type i)]"

definition configuration :: "delta_identity \<Rightarrow> (string \<times> string) list" where
  "configuration i = table_properties @ identity_properties i"

section \<open>Opening\<close>

record delta_tables =
  dt_identity :: delta_identity
  dt_tables :: "(string \<times> nat) list"
    \<comment> \<open>by name, the number of commits in the loaded snapshot\<close>

text \<open>The metadata of a snapshot: the newest in the log.\<close>

definition snapshot_meta :: "delta_log \<Rightarrow> table_meta option" where
  "snapshot_meta log = (case List.map_filter lc_meta (rev log) of [] \<Rightarrow> None | m # _ \<Rightarrow> Some m)"

definition same_map :: "(string \<times> string) list \<Rightarrow> (string \<times> string) list \<Rightarrow> bool" where
  "same_map a b \<longleftrightarrow> list_all (\<lambda>k. map_of a k = map_of b k) (map fst a @ map fst b)"

definition delta_validate :: "delta_log \<Rightarrow> string list option \<Rightarrow> (string \<times> string) list \<Rightarrow> unit result" where
  "delta_validate log columns expected =
     bindR (some_or (snapshot_meta log) ''Delta table is not loaded'') (\<lambda>m.
     bindR (require (map_of (tm_configuration m) DESCRIPTOR_PROPERTY = map_of expected DESCRIPTOR_PROPERTY)
       ''Delta table belongs to another stream'') (\<lambda>_.
     bindR (require (same_map (tm_configuration m) expected)
       ''Delta table has table properties fireparq does not set'') (\<lambda>_.
     bindR (require (tm_min_reader m = MIN_READER_VERSION \<and> tm_min_writer m = MIN_WRITER_VERSION \<and> \<not> tm_features m)
       ''Delta table has another protocol'') (\<lambda>_.
     bindR (require (tm_partition_columns m = [PARTITION_COLUMN])
       ''Delta table is not partitioned by the date alone'') (\<lambda>_.
     case columns of
       None \<Rightarrow> Inr ()
     | Some cs \<Rightarrow> require (tm_columns m = cs) ''Delta table has a different schema from this stream's table'')))))"

text \<open>A read of a table's log: what other writers did by then is in it.\<close>

definition set_table :: "string \<Rightarrow> delta_log \<times> log_commit list \<Rightarrow> world \<Rightarrow> world" where
  "set_table t li w = w\<lparr> w_logs := (w_logs w)(t := fst li), w_inflight := (w_inflight w)(t := snd li) \<rparr>"

definition load_log :: "env \<Rightarrow> string \<Rightarrow> delta_log io" where
  "load_log e t = (\<lambda>w.
     let li = e_arrive e (w_clock w) t (w_logs w t, w_inflight w t);
         w1 = set_table t li (w\<lparr> w_clock := Suc (w_clock w) \<rparr>)
     in (if e_fault e (w_clock w) = Healthy then Inr (fst li) else Inl (Io ''reading a Delta log''), w1))"

definition creation_commit :: "delta_identity \<Rightarrow> string list \<Rightarrow> log_commit" where
  "creation_commit i columns =
     \<lparr> lc_txn = None, lc_adds = [], lc_info = [],
       lc_meta = Some \<lparr> tm_configuration = identity_properties i @ table_properties,
         tm_min_reader = MIN_READER_VERSION, tm_min_writer = MIN_WRITER_VERSION, tm_features = False,
         tm_partition_columns = [PARTITION_COLUMN], tm_columns = columns \<rparr> \<rparr>"

text \<open>Commit 0 is a put that fails when the log already has one.\<close>

definition create_table :: "env \<Rightarrow> delta_identity \<Rightarrow> string \<Rightarrow> string list \<Rightarrow> unit io" where
  "create_table e i t columns =
     bindIO (\<lambda>w. (if w_logs w t = [] then Inr () else Inl (Io ''the Delta table exists''), w)) (\<lambda>_.
     mutate e ''creating the Delta table''
       (\<lambda>w. w\<lparr> w_logs := (w_logs w)(t := [creation_commit i columns]) \<rparr>))"

definition open_or_create ::
  "env \<Rightarrow> delta_identity \<Rightarrow> string \<Rightarrow> string list option \<Rightarrow> bool \<Rightarrow> nat io" where
  "open_or_create e i t columns create_missing =
     bindIO (load_log e t) (\<lambda>found.
     bindIO (if found \<noteq> [] then returnIO found
             else case (columns, create_missing) of
               (Some cs, True) \<Rightarrow>
                 bindIO (tryIO (create_table e i t cs)) (\<lambda>created.
                 case created of
                   Inr _ \<Rightarrow> bindIO (sync e ''syncing the Delta commit'') (\<lambda>_.
                     returnIO [creation_commit i cs])
                 | Inl err \<Rightarrow>
                     bindIO (load_log e t) (\<lambda>theirs.
                     if theirs = [] then failIO (Context ''creating the Delta table'' err)
                     else returnIO theirs))
             | (Some cs, False) \<Rightarrow> failIO (Bail ''the stream has committed transactions, but the table has no Delta log: its rows are unreachable'')
             | (None, _) \<Rightarrow> failIO (Bail ''table has no Delta log'')) (\<lambda>log.
     bindIO (liftR (delta_validate log columns (configuration i))) (\<lambda>_.
     returnIO (length log))))"

definition open_specs ::
  "env \<Rightarrow> delta_identity \<Rightarrow> (string \<times> string list option) list \<Rightarrow> bool \<Rightarrow> delta_tables io" where
  "open_specs e i specs create_missing =
     bindIO (liftR (require (specs \<noteq> []) ''a dataset has at least one Delta table'')) (\<lambda>_.
     bindIO (mapIO (\<lambda>(t, columns).
         bindIO (mapErr (Context ''opening the Delta table'') (open_or_create e i t columns create_missing)) (\<lambda>n.
         returnIO (t, n))) specs) (\<lambda>opened.
     returnIO \<lparr> dt_identity = i, dt_tables = opened \<rparr>))"

section \<open>Adds\<close>

record part_add =
  pa_table :: string
  pa_entry_index :: nat
  pa_add :: add_action

definition part_add_new ::
  "string \<Rightarrow> nat \<Rightarrow> string \<Rightarrow> string \<Rightarrow> nat \<Rightarrow> string \<Rightarrow> int \<Rightarrow> part_add result" where
  "part_add_new table entry_index path date bytes stats modification_time =
     bindR (require (strip_prefix (PARTITION_COLUMN @ ''='' @ date @ ''/'') path \<noteq> None)
       ''a part lies outside the directory of its partition'') (\<lambda>_.
     bindR (require (bytes \<le> i64_max) ''a part size does not fit a Delta add'') (\<lambda>_.
     Inr \<lparr> pa_table = table, pa_entry_index = entry_index,
       pa_add = \<lparr> aa_path = path, aa_date = date, aa_size = int bytes,
         aa_modification_time = modification_time, aa_stats = stats \<rparr> \<rparr>))"

definition add_of :: "ext \<Rightarrow> delta_tables \<Rightarrow> pending_transaction \<Rightarrow> planned_part \<Rightarrow> part_add result" where
  "add_of x dt p q =
     bindR (some_or (pp_receipt q) ''a committed part has no receipt'') (\<lambda>r.
     bindR (some_or (find (\<lambda>t. tp_table t = pp_table q) (pt_tables p)) ''a committed part has no table plan'') (\<lambda>plan.
     bindR (some_or (strip_prefix (PARTITION_COLUMN @ ''='') (tp_partition plan))
       ''a committed part has no date partition'') (\<lambda>date.
     bindR (some_or (strip_prefix (pp_table q @ ''/'') (pp_final q))
       ''a committed part lies outside its table'') (\<lambda>path.
     bindR (require (map_of (dt_tables dt) (pp_table q) \<noteq> None) ''not a Delta table of this dataset'') (\<lambda>_.
     bindR (check_stats x (pr_stats r) (pp_row_count q)) (\<lambda>_.
     part_add_new (pp_table q) (pp_entry_index q) path date (pr_byte_size r) (pr_stats r)
       (pr_modification_time r)))))))"

definition adds :: "ext \<Rightarrow> delta_tables \<Rightarrow> pending_transaction \<Rightarrow> part_add list result" where
  "adds x dt p =
     bindR (require (pt_phase p = Committed) ''only a Committed transaction can be added to the Delta logs'') (\<lambda>_.
     mapR (add_of x dt p) (pt_parts p))"

definition txn_version_of :: "nat \<Rightarrow> int result" where
  "txn_version_of ordinal =
     bindR (require (ordinal \<le> i64_max) ''the transaction's last ordinal does not fit a Delta txn version'') (\<lambda>_.
     Inr (int ordinal))"

section \<open>Commits\<close>

definition LAST_TABLE :: string where
  "LAST_TABLE = ''blocks''"

record commit_failure =
  cf_error :: error
  cf_unresolved :: bool

record table_commit =
  tc_table :: string
  tc_version :: nat
  tc_found_in_log :: bool

record commit_context =
  cc_app_id :: string
  cc_version :: int
  cc_metadata :: "(string \<times> json) list"
  cc_resolve_from_log :: bool

text \<open>A computation whose failures are definite.\<close>

definition definite :: "'a io \<Rightarrow> (commit_failure + 'a) io" where
  "definite m =
     bindIO (tryIO m) (\<lambda>r. returnIO (case r of
       Inl err \<Rightarrow> Inl \<lparr> cf_error = err, cf_unresolved = False \<rparr> | Inr a \<Rightarrow> Inr a))"

definition txn_of_log :: "string \<Rightarrow> delta_log \<Rightarrow> int option" where
  "txn_of_log app log = (case rev (own app log) of [] \<Rightarrow> None | c # _ \<Rightarrow> map_option snd (lc_txn c))"

definition resolve_from_log :: "env \<Rightarrow> commit_context \<Rightarrow> string \<Rightarrow> nat io" where
  "resolve_from_log e ctx t =
     bindIO (load_log e t) (\<lambda>log.
     bindIO (liftR (require (txn_of_log (cc_app_id ctx) log = Some (cc_version ctx))
       ''a winning commit of this stream left the table at another txn'')) (\<lambda>_.
     bindIO (sync e ''syncing the Delta log tail'') (\<lambda>_. returnIO (length log))))"

definition commit_of_add :: "commit_context \<Rightarrow> part_add \<Rightarrow> log_commit" where
  "commit_of_add ctx add =
     \<lparr> lc_txn = Some (cc_app_id ctx, cc_version ctx), lc_adds = [pa_add add], lc_info = cc_metadata ctx,
       lc_meta = None \<rparr>"

definition submit :: "env \<Rightarrow> string \<Rightarrow> nat \<Rightarrow> log_commit \<Rightarrow> (commit_reply \<times> nat) io" where
  "submit e t n c = (\<lambda>w.
     case e_delta e (w_clock w) t (w_logs w t, w_inflight w t) n c of
       (reply, li) \<Rightarrow> (Inr (reply, length (fst li)), set_table t li (w\<lparr> w_clock := Suc (w_clock w) \<rparr>)))"

definition failed_commit :: "string \<Rightarrow> bool \<Rightarrow> commit_failure" where
  "failed_commit msg unresolved =
     \<lparr> cf_error = Context ''committing to the Delta log of table'' (Io msg), cf_unresolved = unresolved \<rparr>"

text \<open>The commit itself: the new length of the loaded log, and whether it was found in the log.\<close>

definition submit_add ::
  "env \<Rightarrow> commit_context \<Rightarrow> nat \<Rightarrow> part_add \<Rightarrow> (commit_failure + nat \<times> bool) io" where
  "submit_add e ctx n add =
     bindIO (submit e (pa_table add) n (commit_of_add ctx add)) (\<lambda>(reply, version).
     case reply of
       Landed \<Rightarrow> definite (bindIO (sync e ''syncing the Delta commit'') (\<lambda>_. returnIO (version, False)))
     | SameAppConflict \<Rightarrow>
         if cc_resolve_from_log ctx
         then definite (bindIO (resolve_from_log e ctx (pa_table add)) (\<lambda>version. returnIO (version, True)))
         else returnIO (Inl (failed_commit ''a concurrent transaction of the same application'' False))
     | DefiniteFailure \<Rightarrow> returnIO (Inl (failed_commit ''commit conflict or attempts exhausted'' False))
     | UnknownFailure \<Rightarrow> returnIO (Inl (failed_commit ''transport error'' True)))"

definition bindC :: "(commit_failure + 'a) io \<Rightarrow> ('a \<Rightarrow> (commit_failure + 'b) io) \<Rightarrow> (commit_failure + 'b) io" where
  "bindC m f = bindIO m (\<lambda>r. case r of Inl err \<Rightarrow> returnIO (Inl err) | Inr a \<Rightarrow> f a)"

definition commit_table ::
  "env \<Rightarrow> commit_context \<Rightarrow> nat \<times> part_add \<Rightarrow> (commit_failure + table_commit) io" where
  "commit_table e ctx na =
     bindC (submit_add e ctx (fst na) (snd na)) (\<lambda>(version, found_in_log).
     bindC (definite (crash_point e)) (\<lambda>_.
     returnIO (Inr \<lparr> tc_table = pa_table (snd na), tc_version = version, tc_found_in_log = found_in_log \<rparr>)))"

definition merge_failure :: "commit_failure option \<Rightarrow> commit_failure \<Rightarrow> commit_failure" where
  "merge_failure failure f =
     (case failure of None \<Rightarrow> f | Some first \<Rightarrow> first\<lparr> cf_unresolved := cf_unresolved first \<or> cf_unresolved f \<rparr>)"

text \<open>
  \<open>run_bounded\<close>: start commits up to the limit while none has failed, then wait for any running one.
  Which one completes next is up to the scheduler.
\<close>

definition start_more ::
  "nat \<Rightarrow> commit_failure option \<Rightarrow> 'a list \<Rightarrow> 'a list \<Rightarrow> 'a list \<times> 'a list" where
  "start_more limit failure queue running =
     (if failure = None
      then (drop (limit - length running) queue, running @ take (limit - length running) queue)
      else (queue, running))"

lemma start_more_size:
  "length (fst (start_more l f queue running)) + length (snd (start_more l f queue running)) =
     length queue + length running"
  by (simp add: start_more_def min_def)

function run_bounded ::
  "env \<Rightarrow> commit_context \<Rightarrow> nat \<Rightarrow> (nat \<times> part_add) list \<Rightarrow> (nat \<times> part_add) list \<Rightarrow> table_commit list \<Rightarrow>
   commit_failure option \<Rightarrow> (commit_failure + table_commit list) io" where
  "run_bounded e ctx limit queue running committed failure w =
     (let queue' = fst (start_more limit failure queue running);
          running' = snd (start_more limit failure queue running) in
      if running' = [] then (Inr (case failure of Some f \<Rightarrow> Inl f | None \<Rightarrow> Inr committed), w)
      else
        let i = e_schedule e (w_clock w) mod length running';
            rest = take i running' @ drop (Suc i) running' in
        case commit_table e ctx (running' ! i) (w\<lparr> w_clock := Suc (w_clock w) \<rparr>) of
          (Inl err, w') \<Rightarrow> (Inl err, w')
        | (Inr (Inr c), w') \<Rightarrow> run_bounded e ctx limit queue' rest (committed @ [c]) failure w'
        | (Inr (Inl f), w') \<Rightarrow>
            run_bounded e ctx limit queue' rest committed (Some (merge_failure failure f)) w')"
  by pat_completeness auto

termination
proof (relation "measure (\<lambda>(e, ctx, limit, queue, running, committed, failure, w). length queue + length running)",
    goal_cases)
  case (2 e ctx limit queue running committed failure w queue' running' i rest)
  have "i < length running'" using 2(3,4) by simp
  then have "length rest < length running'" using 2(5) by (simp add: min_def)
  with 2(1,2) show ?case using start_more_size [of limit failure queue running] by simp
next
  case (3 e ctx limit queue running committed failure w queue' running' i rest)
  have "i < length running'" using 3(3,4) by simp
  then have "length rest < length running'" using 3(5) by (simp add: min_def)
  with 3(1,2) show ?case using start_more_size [of limit failure queue running] by simp
qed simp


text \<open>A commit leaves its version as the loaded snapshot of the table.\<close>

definition advance_tables :: "delta_tables \<Rightarrow> table_commit list \<Rightarrow> delta_tables" where
  "advance_tables dt commits =
     dt\<lparr> dt_tables := map (\<lambda>(t, n).
       (t, case find (\<lambda>c. tc_table c = t) commits of Some c \<Rightarrow> tc_version c | None \<Rightarrow> n)) (dt_tables dt) \<rparr>"

definition early_failure :: "error \<Rightarrow> commit_failure" where
  "early_failure err = \<lparr> cf_error = err, cf_unresolved = False \<rparr>"

definition liftC :: "'a result \<Rightarrow> (commit_failure + 'a) io" where
  "liftC r = returnIO (case r of Inl err \<Rightarrow> Inl (early_failure err) | Inr a \<Rightarrow> Inr a)"

definition commit_group ::
  "env \<Rightarrow> commit_context \<Rightarrow> delta_tables \<Rightarrow> nat \<Rightarrow> part_add list \<Rightarrow> (commit_failure + table_commit list) io" where
  "commit_group e ctx dt limit group_adds =
     bindC (liftC (mapR (\<lambda>add. bindR (some_or (map_of (dt_tables dt) (pa_table add))
         ''not a Delta table of this dataset'') (\<lambda>n. Inr (n, add))) group_adds)) (\<lambda>queue.
     run_bounded e ctx limit queue [] [] None)"

definition commit_parts_with ::
  "env \<Rightarrow> delta_tables \<Rightarrow> part_add list \<Rightarrow> int \<Rightarrow> (string \<times> json) list \<Rightarrow> nat \<Rightarrow> bool \<Rightarrow>
   (commit_failure + table_commit list) io" where
  "commit_parts_with e dt parts txn_version metadata concurrency resolve =
     bindC (liftC (require (distinct (map pa_table parts)) ''a transaction adds one part per table'')) (\<lambda>_.
     let ctx = \<lparr> cc_app_id = app_id (dt_identity dt), cc_version = txn_version,
           cc_metadata = (''isBlindAppend'', JBool True) # metadata, cc_resolve_from_log = resolve \<rparr> in
     bindC (commit_group e ctx dt (max concurrency 1) (filter (\<lambda>a. pa_table a \<noteq> LAST_TABLE) parts)) (\<lambda>others.
     bindC (commit_group e ctx dt 1 (filter (\<lambda>a. pa_table a = LAST_TABLE) parts)) (\<lambda>last_one.
     returnIO (Inr (others @ last_one)))))"

definition commit_transaction ::
  "env \<Rightarrow> delta_tables \<Rightarrow> pending_transaction \<Rightarrow> part_add list \<Rightarrow> nat \<Rightarrow> bool \<Rightarrow>
   (commit_failure + table_commit list) io" where
  "commit_transaction e dt p parts concurrency resolve =
     bindC (liftC (txn_version_of (ap_last_ordinal (pt_prefix p)))) (\<lambda>version.
     commit_parts_with e dt parts version
       [(''fireparq.transaction'', JStr (digest_str (pt_id p))),
        (''fireparq.firstOrdinal'', JNum (int (ap_first_ordinal (pt_prefix p)))),
        (''fireparq.lastOrdinal'', JNum (int (ap_last_ordinal (pt_prefix p))))] concurrency resolve)"

definition delta_commit ::
  "env \<Rightarrow> delta_tables \<Rightarrow> pending_transaction \<Rightarrow> nat \<Rightarrow> (commit_failure + table_commit list) io" where
  "delta_commit e dt p concurrency =
     bindC (liftC (adds (e_ext e) dt p)) (\<lambda>parts. commit_transaction e dt p parts concurrency False)"

definition delta_roll_forward ::
  "env \<Rightarrow> delta_tables \<Rightarrow> pending_transaction \<Rightarrow> string list \<Rightarrow> nat \<Rightarrow> (commit_failure + table_commit list) io" where
  "delta_roll_forward e dt p tables concurrency =
     bindC (liftC (adds (e_ext e) dt p)) (\<lambda>parts.
     commit_transaction e dt p (filter (\<lambda>a. pa_table a \<in> set tables) parts) concurrency True)"

section \<open>Progress at startup\<close>

text \<open>The \<open>txn\<close> of this stream in the loaded snapshot of a table.\<close>

definition txn_version :: "env \<Rightarrow> delta_tables \<Rightarrow> string \<Rightarrow> int option io" where
  "txn_version e dt t =
     bindIO (liftR (some_or (map_of (dt_tables dt) t) ''not a Delta table of this dataset'')) (\<lambda>n.
     observe e ''reading the txn of a Delta table''
       (\<lambda>w. txn_of_log (app_id (dt_identity dt)) (take n (w_logs w t))))"

text \<open>One step of the loop of \<open>check_progress\<close>: whether the table's log holds the transaction.\<close>

definition check_table ::
  "env \<Rightarrow> nat \<Rightarrow> pending_transaction option \<Rightarrow> int option \<Rightarrow> string \<times> int option \<Rightarrow> bool io" where
  "check_table e authority committed last_txn tv =
     (case tv of (t, txn) \<Rightarrow>
      let with_parts = (case committed of None \<Rightarrow> [] | Some p \<Rightarrow> map pp_table (pt_parts p)) in
      case txn of
        None \<Rightarrow> returnIO False
      | Some version \<Rightarrow>
          if Some version = last_txn \<and> t \<in> set with_parts
          then bindIO (sync e ''syncing the Delta log tail'') (\<lambda>_. returnIO True)
          else if 0 \<le> version \<and> version \<le> int authority then returnIO False
          else failIO (Bail ''the Delta log of a table is ahead of this dataset's authority''))"

definition check_progress ::
  "env \<Rightarrow> delta_tables \<Rightarrow> nat \<Rightarrow> pending_transaction option \<Rightarrow> string list io" where
  "check_progress e dt authority committed =
     bindIO (liftR (case committed of None \<Rightarrow> Inr None
       | Some p \<Rightarrow> bindR (txn_version_of (ap_last_ordinal (pt_prefix p))) (\<lambda>v. Inr (Some v)))) (\<lambda>last_txn.
     bindIO (mapIO (\<lambda>t. bindIO (txn_version e dt t) (\<lambda>v. returnIO (t, v))) (map fst (dt_tables dt))) (\<lambda>versions.
     bindIO (mapIO (check_table e authority committed last_txn) versions) (\<lambda>held.
     let holding = map fst (filter snd (zip (map fst versions) held)) in
     returnIO (case committed of None \<Rightarrow> []
       | Some p \<Rightarrow> filter (\<lambda>t. t \<notin> set holding) (map pp_table (pt_parts p))))))"

end
