(* ===== verification/Delta_Exact.thy ===== *)
theory Delta_Exact
  imports Delta_Commit
begin

text \<open>
  Exactness of the Delta commits. \<open>delta_laws\<close> states what the Delta library and the object store
  under it promise about the commits of one application id. From it: one attempt (\<open>commit_table\<close>)
  leaves a table with the transaction's commit once or not at all, the bounded concurrent group
  (\<open>run_bounded\<close>) does so for all its tables under every schedule, the transaction commits \<open>blocks\<close>
  last, and reading the \<open>txn\<close> of every table at the next start (\<open>check_progress\<close>) separates the tables
  that have the transaction from those that have to be rolled forward, also when commits without an
  answer arrive late. \<open>journal_commits\<close> is the commit a table has to get, read off the journal.
\<close>

section \<open>What the Delta library promises\<close>

text \<open>
  The laws, for the commits of one application id, which only this stream uses. A log only grows.
  What grows of this application is the submitted commit or one that was outstanding. Every commit is
  a put that fails when its version exists, after a check of the commits since the snapshot for the
  same application id: at most one of them lands past the snapshot, and then none of the other
  outstanding copies, which are puts at versions that are taken, can land any more. Only a reply
  without a definite outcome leaves the commit outstanding.
\<close>

definition submit_law ::
  "string \<Rightarrow> delta_log \<times> log_commit list \<Rightarrow> nat \<Rightarrow> log_commit \<Rightarrow> commit_reply \<times> delta_log \<times> log_commit list \<Rightarrow> bool" where
  "submit_law app li n c r \<longleftrightarrow>
     (case li of (log, inflight) \<Rightarrow> case r of (reply, log', inflight') \<Rightarrow>
      \<exists>fresh. log' = log @ fresh \<and> set (own app fresh) \<subseteq> insert c (set inflight) \<and>
        length (own app (drop n log')) \<le> 1 \<and>
        (own app (drop n log') \<noteq> [] \<longrightarrow> inflight' = []) \<and>
        set inflight' \<subseteq> (if reply = UnknownFailure then insert c (set inflight) else set inflight) \<and>
        (reply = Landed \<longrightarrow> fresh \<noteq> [] \<and> last fresh = c) \<and>
        (reply = SameAppConflict \<longrightarrow> own app (drop n log') \<noteq> []))"

definition arrive_law :: "string \<Rightarrow> delta_log \<times> log_commit list \<Rightarrow> delta_log \<times> log_commit list \<Rightarrow> bool" where
  "arrive_law app li r \<longleftrightarrow>
     (case li of (log, inflight) \<Rightarrow> case r of (log', inflight') \<Rightarrow>
      \<exists>fresh. log' = log @ fresh \<and> set (own app fresh) \<subseteq> set inflight \<and> length (own app fresh) \<le> 1 \<and>
        (own app fresh \<noteq> [] \<longrightarrow> inflight' = []) \<and> set inflight' \<subseteq> set inflight)"

definition delta_laws :: "env \<Rightarrow> string \<Rightarrow> bool" where
  "delta_laws e app \<longleftrightarrow>
     (\<forall>k t log inflight n c. own_commit app c \<and> n \<le> length log \<and> length (own app (drop n log)) \<le> 1 \<and>
        (own app (drop n log) \<noteq> [] \<longrightarrow> inflight = []) \<longrightarrow>
        submit_law app (log, inflight) n c (e_delta e k t (log, inflight) n c)) \<and>
     (\<forall>k t li. arrive_law app li (e_arrive e k t li))"

lemma submit_lawD:
  assumes "delta_laws e app" "own_commit app c" "n \<le> length log" "length (own app (drop n log)) \<le> 1"
    "own app (drop n log) \<noteq> [] \<longrightarrow> inflight = []"
    "e_delta e k t (log, inflight) n c = (reply, log', inflight')"
  obtains fresh where "log' = log @ fresh" "set (own app fresh) \<subseteq> insert c (set inflight)"
    "length (own app (drop n log')) \<le> 1" "own app (drop n log') \<noteq> [] \<Longrightarrow> inflight' = []"
    "set inflight' \<subseteq> insert c (set inflight)" "reply \<noteq> UnknownFailure \<Longrightarrow> set inflight' \<subseteq> set inflight"
    "reply = Landed \<Longrightarrow> fresh \<noteq> [] \<and> last fresh = c"
    "reply = SameAppConflict \<Longrightarrow> own app (drop n log') \<noteq> []"
proof -
  have "submit_law app (log, inflight) n c (e_delta e k t (log, inflight) n c)"
    using assms(1-5) unfolding delta_laws_def by blast
  then obtain fresh where f: "log' = log @ fresh" "set (own app fresh) \<subseteq> insert c (set inflight)"
    "length (own app (drop n log')) \<le> 1" "own app (drop n log') \<noteq> [] \<longrightarrow> inflight' = []"
    "set inflight' \<subseteq> (if reply = UnknownFailure then insert c (set inflight) else set inflight)"
    "reply = Landed \<longrightarrow> fresh \<noteq> [] \<and> last fresh = c"
    "reply = SameAppConflict \<longrightarrow> own app (drop n log') \<noteq> []"
    unfolding assms(6) submit_law_def prod.case by (elim exE conjE)
  have x: "set inflight' \<subseteq> insert c (set inflight)" "reply \<noteq> UnknownFailure \<Longrightarrow> set inflight' \<subseteq> set inflight"
    using f(5) by (auto split: if_splits)
  show ?thesis by (rule that [OF f(1-3) _ x]) (use f(4,6,7) in blast)+
qed

lemma arrive_lawD:
  assumes "delta_laws e app" "e_arrive e k t (log, inflight) = (log', inflight')"
  obtains fresh where "log' = log @ fresh" "set (own app fresh) \<subseteq> set inflight" "length (own app fresh) \<le> 1"
    "own app fresh \<noteq> [] \<Longrightarrow> inflight' = []" "set inflight' \<subseteq> set inflight"
proof -
  have "arrive_law app (log, inflight) (e_arrive e k t (log, inflight))"
    using assms(1) unfolding delta_laws_def by blast
  then show ?thesis unfolding assms(2) arrive_law_def prod.case using that by blast
qed

section \<open>One table\<close>

text \<open>
  The stream's commits in a log, when the transaction's commit \<open>c\<close> may or may not be there yet:
  \<open>base\<close> are the commits of earlier transactions.
\<close>

definition absent :: "string \<Rightarrow> log_commit list \<Rightarrow> log_commit \<Rightarrow> delta_log \<times> log_commit list \<Rightarrow> bool" where
  "absent app base c li \<longleftrightarrow> own app (fst li) = base \<and> set (snd li) \<subseteq> {c}"

definition present :: "string \<Rightarrow> log_commit list \<Rightarrow> log_commit \<Rightarrow> delta_log \<times> log_commit list \<Rightarrow> bool" where
  "present app base c li \<longleftrightarrow> own app (fst li) = base @ [c] \<and> snd li = []"

lemma one_of:
  assumes "set xs \<subseteq> {c}" "length xs \<le> 1"
  shows "xs = [] \<or> xs = [c]"
  using assms by (cases xs) auto

lemma own_take_drop: "own app log = own app (take n log) @ own app (drop n log)"
  by (metis append_take_drop_id filter_append)

lemma arrive_table:
  assumes "delta_laws e app" "e_arrive e k t li = li'" "absent app base c li \<or> present app base c li"
  shows "absent app base c li' \<or> present app base c li'" "\<exists>fresh. fst li' = fst li @ fresh"
    "present app base c li \<Longrightarrow> present app base c li'" "snd li = [] \<Longrightarrow> own app (fst li') = own app (fst li) \<and> snd li' = []"
proof -
  obtain log inflight log' inflight' where li: "li = (log, inflight)" "li' = (log', inflight')" by fastforce
  obtain fresh where f: "log' = log @ fresh" "set (own app fresh) \<subseteq> set inflight" "length (own app fresh) \<le> 1"
    "own app fresh \<noteq> [] \<Longrightarrow> inflight' = []" "set inflight' \<subseteq> set inflight"
    using arrive_lawD [OF assms(1) assms(2) [unfolded li]] by metis
  show "\<exists>fresh. fst li' = fst li @ fresh" using f(1) li by auto
  show none: "snd li = [] \<Longrightarrow> own app (fst li') = own app (fst li) \<and> snd li' = []" using f li by auto
  then show p: "present app base c li \<Longrightarrow> present app base c li'" by (simp add: present_def)
  show "absent app base c li' \<or> present app base c li'"
  proof (cases "present app base c li")
    case True
    then show ?thesis using p by blast
  next
    case False
    with assms(3) have a: "own app log = base" "set inflight \<subseteq> {c}" by (auto simp: absent_def li)
    with f(2,3) have "own app fresh = [] \<or> own app fresh = [c]" by (intro one_of) auto
    then show ?thesis
    proof
      assume "own app fresh = []"
      then show ?thesis using a f by (auto simp: absent_def li)
    next
      assume "own app fresh = [c]"
      then show ?thesis using a f by (auto simp: present_def li)
    qed
  qed
qed

lemma submit_table:
  assumes "delta_laws e app" "own_commit app c" "n \<le> length (fst li)" "own app (take n (fst li)) = base"
    "absent app base c li \<or> present app base c li" "e_delta e k t li n c = (reply, li')"
  shows "absent app base c li' \<or> present app base c li'" "\<exists>fresh. fst li' = fst li @ fresh"
    "reply = Landed \<Longrightarrow> present app base c li'" "reply = SameAppConflict \<Longrightarrow> present app base c li'"
    "reply \<noteq> UnknownFailure \<Longrightarrow> set (snd li') \<subseteq> set (snd li)"
proof -
  obtain log inflight log' inflight' where li: "li = (log, inflight)" "li' = (log', inflight')" by fastforce
  have split: "own app log = base @ own app (drop n log)"
    using own_take_drop [of app log n] assms(4) by (simp add: li)
  have d: "own app (drop n log) = [] \<and> set inflight \<subseteq> {c} \<or> own app (drop n log) = [c] \<and> inflight = []"
    using assms(5) split by (auto simp: absent_def present_def li)
  obtain fresh where f: "log' = log @ fresh" "set (own app fresh) \<subseteq> insert c (set inflight)"
    "length (own app (drop n log')) \<le> 1" "own app (drop n log') \<noteq> [] \<Longrightarrow> inflight' = []"
    "set inflight' \<subseteq> insert c (set inflight)"
    "reply = Landed \<Longrightarrow> fresh \<noteq> [] \<and> last fresh = c" "reply = SameAppConflict \<Longrightarrow> own app (drop n log') \<noteq> []"
    "reply \<noteq> UnknownFailure \<Longrightarrow> set inflight' \<subseteq> set inflight"
    by (rule submit_lawD [OF assms(1,2) _ _ _ assms(6) [unfolded li]]) (use assms(3) d in \<open>auto simp: li\<close>)
  have dl: "own app (drop n log') = own app (drop n log) @ own app fresh" using assms(3) f(1) by (simp add: li)
  have "own app log' = base @ own app (drop n log')" using split f(1) dl by simp
  moreover have "own app (drop n log') = [] \<or> own app (drop n log') = [c]"
  proof (rule one_of [OF _ f(3)])
    have "set inflight \<subseteq> {c}" using d by auto
    moreover have "set (own app (drop n log)) \<subseteq> {c}" using d by (elim disjE conjE) (simp_all del: set_filter)
    ultimately
    show "set (own app (drop n log')) \<subseteq> {c}" unfolding dl set_append using f(2) by blast
  qed
  ultimately have cases: "own app (drop n log') = [] \<and> own app log' = base \<or> own app (drop n log') = [c] \<and> own app log' = base @ [c]"
    by auto
  then show "absent app base c li' \<or> present app base c li'"
    using f(4,5) d by (auto simp: absent_def present_def li)
  show "\<exists>fresh. fst li' = fst li @ fresh" using f(1) li by auto
  show "set (snd li') \<subseteq> set (snd li)" if "reply \<noteq> UnknownFailure" using f(8) [OF that] li by simp
  show "present app base c li'" if "reply = SameAppConflict"
    using cases f(4) f(7) [OF that] by (auto simp: present_def li)
  show "present app base c li'" if "reply = Landed"
  proof -
    have "c \<in> set (own app fresh)" using f(6) [OF that] assms(2) last_in_set by fastforce
    then have "own app fresh \<noteq> []" by (metis empty_iff empty_set)
    then have "own app (drop n log') \<noteq> []" unfolding dl by simp
    then show ?thesis using cases f(4) by (auto simp: present_def li)
  qed
qed

text \<open>The changes of a computation confined to the Delta logs of some tables.\<close>

definition only_logs :: "string set \<Rightarrow> world \<Rightarrow> world \<Rightarrow> bool" where
  "only_logs S w0 w \<longleftrightarrow> w_state w = w_state w0 \<and> w_pending w = w_pending w0 \<and> w_files w = w_files w0 \<and>
     w_mirror w = w_mirror w0 \<and>
     (\<forall>t. t \<notin> S \<longrightarrow> w_logs w t = w_logs w0 t \<and> w_inflight w t = w_inflight w0 t)"

lemma only_logs_refl [simp]: "only_logs S w w"
  by (simp add: only_logs_def)

lemma only_logs_clock [simp]: "only_logs S w0 (w\<lparr> w_clock := n \<rparr>) = only_logs S w0 w"
  "only_logs S (w0\<lparr> w_clock := n \<rparr>) w = only_logs S w0 w"
  by (simp_all add: only_logs_def)

lemma only_logs_trans: "only_logs S w0 w1 \<Longrightarrow> only_logs T w1 w2 \<Longrightarrow> S \<union> T \<subseteq> U \<Longrightarrow> only_logs U w0 w2"
  unfolding only_logs_def by (metis UnI1 UnI2 subsetD)

lemma only_logs_set_table [simp]: "only_logs {t} w0 w \<Longrightarrow> only_logs {t} w0 (set_table t li w)"
  by (simp add: only_logs_def set_table_def)

abbreviation table_at :: "world \<Rightarrow> string \<Rightarrow> delta_log \<times> log_commit list" where
  "table_at w t \<equiv> (w_logs w t, w_inflight w t)"

lemma table_at_set [simp]: "table_at (set_table t li w) t = li"
  by (simp add: set_table_def)

lemma only_logs_table: "only_logs S w0 w \<Longrightarrow> t \<notin> S \<Longrightarrow> table_at w t = table_at w0 t"
  by (simp add: only_logs_def)

text \<open>A part of the transaction, at a loaded snapshot of its table from before the transaction.\<close>

abbreviation settles :: "commit_context \<Rightarrow> (string \<Rightarrow> log_commit list) \<Rightarrow> part_add \<Rightarrow> delta_log \<times> log_commit list \<Rightarrow> bool" where
  "settles ctx B add li \<equiv> absent (cc_app_id ctx) (B (pa_table add)) (commit_of_add ctx add) li \<or>
     present (cc_app_id ctx) (B (pa_table add)) (commit_of_add ctx add) li"

abbreviation landed :: "commit_context \<Rightarrow> (string \<Rightarrow> log_commit list) \<Rightarrow> part_add \<Rightarrow> delta_log \<times> log_commit list \<Rightarrow> bool" where
  "landed ctx B add li \<equiv> present (cc_app_id ctx) (B (pa_table add)) (commit_of_add ctx add) li"

definition entry_ok :: "commit_context \<Rightarrow> (string \<Rightarrow> log_commit list) \<Rightarrow> world \<Rightarrow> nat \<times> part_add \<Rightarrow> bool" where
  "entry_ok ctx B w na \<longleftrightarrow>
     (let t = pa_table (snd na) in
      fst na \<le> length (w_logs w t) \<and> own (cc_app_id ctx) (take (fst na) (w_logs w t)) = B t \<and>
      settles ctx B (snd na) (table_at w t))"

lemma own_commit_of_add [simp]: "own_commit (cc_app_id ctx) (commit_of_add ctx add)"
  by (simp add: own_commit_def commit_of_add_def)

text \<open>What a commit attempt leaves of its table.\<close>

definition tried :: "commit_context \<Rightarrow> (string \<Rightarrow> log_commit list) \<Rightarrow> world \<Rightarrow> part_add \<Rightarrow> world \<Rightarrow> bool" where
  "tried ctx B w0 add w \<longleftrightarrow> only_logs {pa_table add} w0 w \<and> settles ctx B add (table_at w (pa_table add))"

definition quiet :: "string set \<Rightarrow> world \<Rightarrow> world \<Rightarrow> bool" where
  "quiet S w0 w \<longleftrightarrow> (\<forall>t\<in>S. set (w_inflight w t) \<subseteq> set (w_inflight w0 t))"

lemma landed_quiet: "landed ctx B add (table_at w (pa_table add)) \<Longrightarrow> quiet {pa_table add} w0 w"
  by (simp add: present_def quiet_def)

lemma submit_triple:
  assumes "delta_laws e (cc_app_id ctx)" "entry_ok ctx B w0 (n, add)"
  shows "triple (\<lambda>w. w = w0) (submit e (pa_table add) n (commit_of_add ctx add))
     (\<lambda>rv w. tried ctx B w0 add w \<and> snd rv = length (w_logs w (pa_table add)) \<and>
        (fst rv = Landed \<or> fst rv = SameAppConflict \<longrightarrow> landed ctx B add (table_at w (pa_table add))) \<and>
        (fst rv \<noteq> UnknownFailure \<longrightarrow> quiet {pa_table add} w0 w)) (\<lambda>_. False)"
proof (rule tripleI)
  fix w r w'
  let ?t = "pa_table add"
  assume w: "w = w0" and run: "submit e ?t n (commit_of_add ctx add) w = (Inr r, w')"
  obtain reply li where d: "e_delta e (w_clock w0) ?t (table_at w0 ?t) n (commit_of_add ctx add) = (reply, li)"
    by (rule prod.exhaust)
  have r: "r = (reply, length (fst li))" "w' = set_table ?t li (w0\<lparr> w_clock := Suc (w_clock w0) \<rparr>)"
    using run by (simp_all add: submit_def d w)
  have at: "table_at w' ?t = li" "only_logs {?t} w0 w'" unfolding r by simp_all
  have pre: "n \<le> length (fst (table_at w0 ?t))" "own (cc_app_id ctx) (take n (fst (table_at w0 ?t))) = B ?t"
    "settles ctx B add (table_at w0 ?t)"
    using assms(2) by (simp_all add: entry_ok_def Let_def)
  note st = submit_table [OF assms(1) own_commit_of_add pre d]
  have "tried ctx B w0 add w'" using st(1) at by (simp add: tried_def)
  moreover have "quiet {?t} w0 w'" if "reply \<noteq> UnknownFailure"
    using st(5) [OF that] at(1) by (auto simp: quiet_def)
  moreover have "fst r = Landed \<or> fst r = SameAppConflict \<longrightarrow> landed ctx B add (table_at w' ?t)"
    using st(3,4) unfolding r(1) at(1) fst_conv by blast
  moreover have "snd r = length (w_logs w' ?t)" using at(1) unfolding r(1) by auto
  ultimately show "tried ctx B w0 add w' \<and> snd r = length (w_logs w' ?t) \<and>
      (fst r = Landed \<or> fst r = SameAppConflict \<longrightarrow> landed ctx B add (table_at w' ?t)) \<and>
      (fst r \<noteq> UnknownFailure \<longrightarrow> quiet {?t} w0 w')"
    unfolding r(1) by simp
qed (auto simp: submit_def split: prod.splits)

lemma triple_definite:
  assumes "triple P m Q E"
  shows "triple P (definite m) (\<lambda>r w. case r of Inl f \<Rightarrow> \<not> cf_unresolved f \<and> E w | Inr a \<Rightarrow> Q a w) (\<lambda>_. False)"
proof (rule tripleI)
  fix w r w'
  assume p: "P w" and run: "definite m w = (Inr r, w')"
  obtain res v where m: "m w = (res, v)" by fastforce
  show "case r of Inl f \<Rightarrow> \<not> cf_unresolved f \<and> E w' | Inr a \<Rightarrow> Q a w'"
  proof (cases res)
    case (Inl err)
    then show ?thesis using run tripleD(2) [OF assms p] m
      by (auto simp: definite_def tryIO_def bindIO_def returnIO_def)
  next
    case (Inr a)
    then show ?thesis using run tripleD(1) [OF assms p] m
      by (auto simp: definite_def tryIO_def bindIO_def returnIO_def)
  qed
qed (auto simp: definite_def tryIO_def bindIO_def returnIO_def split: prod.splits)

lemma triple_bindC:
  assumes "triple P m (\<lambda>r w. case r of Inl f \<Rightarrow> F f w | Inr a \<Rightarrow> R a w) (\<lambda>_. False)"
    "\<And>a. triple (R a) (g a) (\<lambda>r w. case r of Inl f \<Rightarrow> F f w | Inr b \<Rightarrow> Q b w) (\<lambda>_. False)"
  shows "triple P (bindC m g) (\<lambda>r w. case r of Inl f \<Rightarrow> F f w | Inr b \<Rightarrow> Q b w) (\<lambda>_. False)"
  unfolding bindC_def
proof (rule triple_bind [OF assms(1)])
  fix r
  show "triple (\<lambda>w. case r of Inl f \<Rightarrow> F f w | Inr a \<Rightarrow> R a w)
      (case r of Inl err \<Rightarrow> returnIO (Inl err) | Inr a \<Rightarrow> g a)
      (\<lambda>r w. case r of Inl f \<Rightarrow> F f w | Inr b \<Rightarrow> Q b w) (\<lambda>_. False)"
    by (cases r) (use assms(2) in auto)
qed

text \<open>A landed commit stays landed while its log is read again, synced, and up to a crash point.\<close>

definition done_part :: "commit_context \<Rightarrow> (string \<Rightarrow> log_commit list) \<Rightarrow> world \<Rightarrow> part_add \<Rightarrow> world \<Rightarrow> bool" where
  "done_part ctx B w0 add w \<longleftrightarrow> only_logs {pa_table add} w0 w \<and> landed ctx B add (table_at w (pa_table add))"

lemma done_part_clock [simp]:
  "done_part ctx B w0 add (w\<lparr> w_clock := n \<rparr>) = done_part ctx B w0 add w"
  by (simp add: done_part_def)

lemma definite_done:
  assumes "triple P m (\<lambda>a w. done_part ctx B w0 add w \<and> R a w) (done_part ctx B w0 add)"
  shows "triple P (definite m)
     (\<lambda>r w. case r of Inl f \<Rightarrow> tried ctx B w0 add w \<and> (\<not> cf_unresolved f \<longrightarrow> quiet {pa_table add} w0 w)
        | Inr a \<Rightarrow> done_part ctx B w0 add w \<and> R a w) (\<lambda>_. False)"
  by (rule triple_conseq [OF triple_definite [OF assms]])
    (auto simp: done_part_def tried_def landed_quiet split: sum.splits)

lemma done_load_triple:
  assumes "delta_laws e (cc_app_id ctx)"
  shows "triple (done_part ctx B w0 add) (load_log e (pa_table add))
     (\<lambda>log w. done_part ctx B w0 add w \<and> log = w_logs w (pa_table add)) (done_part ctx B w0 add)"
proof -
  let ?t = "pa_table add"
  have "done_part ctx B w0 add (set_table ?t (e_arrive e (w_clock w) ?t (table_at w ?t)) (w\<lparr> w_clock := k \<rparr>))"
    if "done_part ctx B w0 add w" for w k
    using that arrive_table(3) [OF assms refl] by (simp add: done_part_def table_at_set del: prod.inject)
  then show ?thesis by (auto simp: triple_def load_log_def Let_def set_table_def)
qed

lemma done_sync_triple:
  assumes "\<And>w. done_part ctx B w0 add w \<and> P w \<Longrightarrow> P (w\<lparr> w_clock := Suc (w_clock w) \<rparr>)"
  shows "triple (\<lambda>w. done_part ctx B w0 add w \<and> P w) (sync e msg) (\<lambda>_ w. done_part ctx B w0 add w \<and> P w)
     (done_part ctx B w0 add)"
  unfolding sync_def using assms by (intro triple_observe) auto

lemma resolve_triple:
  assumes "delta_laws e (cc_app_id ctx)"
  shows "triple (done_part ctx B w0 add) (resolve_from_log e ctx (pa_table add))
     (\<lambda>n w. done_part ctx B w0 add w \<and> n = length (w_logs w (pa_table add))) (done_part ctx B w0 add)"
  unfolding resolve_from_log_def
proof (rule triple_bind [OF done_load_triple [OF assms]], rule triple_bind_lift)
  fix log u
  show "triple (\<lambda>w. done_part ctx B w0 add w \<and> log = w_logs w (pa_table add))
      (bindIO (sync e ''syncing the Delta log tail'') (\<lambda>_. returnIO (length log)))
      (\<lambda>n w. done_part ctx B w0 add w \<and> n = length (w_logs w (pa_table add))) (done_part ctx B w0 add)"
    by (rule triple_bind [OF done_sync_triple]) auto
qed simp

lemma submit_add_triple:
  assumes "delta_laws e (cc_app_id ctx)" "entry_ok ctx B w0 (n, add)"
  shows "triple (\<lambda>w. w = w0) (submit_add e ctx n add)
     (\<lambda>r w. case r of Inl f \<Rightarrow> tried ctx B w0 add w \<and> (\<not> cf_unresolved f \<longrightarrow> quiet {pa_table add} w0 w)
        | Inr vf \<Rightarrow> done_part ctx B w0 add w \<and> fst vf = length (w_logs w (pa_table add)))
     (\<lambda>_. False)" (is "triple _ _ ?Q _")
  unfolding submit_add_def
proof (rule triple_bind [OF submit_triple [OF assms]])
  let ?t = "pa_table add"
  fix rv :: "commit_reply \<times> nat"
  obtain reply version where rv: "rv = (reply, version)" by fastforce
  have land: "triple (\<lambda>w. done_part ctx B w0 add w \<and> version = length (w_logs w ?t))
      (definite (bindIO (sync e ''syncing the Delta commit'') (\<lambda>_. returnIO (version, False)))) ?Q (\<lambda>_. False)"
  proof -
    have "triple (\<lambda>w. done_part ctx B w0 add w \<and> version = length (w_logs w ?t))
        (bindIO (sync e ''syncing the Delta commit'') (\<lambda>_. returnIO (version, False)))
        (\<lambda>vf w. done_part ctx B w0 add w \<and> fst vf = length (w_logs w ?t)) (done_part ctx B w0 add)"
      by (rule triple_bind [OF done_sync_triple]) auto
    from definite_done [OF this] show ?thesis .
  qed
  have res: "triple (done_part ctx B w0 add)
      (definite (bindIO (resolve_from_log e ctx ?t) (\<lambda>version. returnIO (version, True)))) ?Q (\<lambda>_. False)"
  proof -
    have "triple (done_part ctx B w0 add)
        (bindIO (resolve_from_log e ctx ?t) (\<lambda>version. returnIO (version, True)))
        (\<lambda>vf w. done_part ctx B w0 add w \<and> fst vf = length (w_logs w ?t)) (done_part ctx B w0 add)"
      by (rule triple_bind [OF resolve_triple [OF assms(1)]]) auto
    from definite_done [OF this] show ?thesis .
  qed
  show "triple (\<lambda>w. tried ctx B w0 add w \<and> snd rv = length (w_logs w ?t) \<and>
        (fst rv = Landed \<or> fst rv = SameAppConflict \<longrightarrow> landed ctx B add (table_at w ?t)) \<and>
        (fst rv \<noteq> UnknownFailure \<longrightarrow> quiet {?t} w0 w))
     (case rv of (reply, version) \<Rightarrow>
       case reply of
         Landed \<Rightarrow> definite (bindIO (sync e ''syncing the Delta commit'') (\<lambda>_. returnIO (version, False)))
       | SameAppConflict \<Rightarrow>
           if cc_resolve_from_log ctx
           then definite (bindIO (resolve_from_log e ctx ?t) (\<lambda>version. returnIO (version, True)))
           else returnIO (Inl (failed_commit ''a concurrent transaction of the same application'' False))
       | DefiniteFailure \<Rightarrow> returnIO (Inl (failed_commit ''commit conflict or attempts exhausted'' False))
       | UnknownFailure \<Rightarrow> returnIO (Inl (failed_commit ''transport error'' True))) ?Q (\<lambda>_. False)"
  proof (cases reply)
    case Landed
    show ?thesis unfolding rv fst_conv snd_conv prod.case Landed commit_reply.case
      by (rule triple_conseq [OF land]) (simp_all add: tried_def done_part_def)
  next
    case SameAppConflict
    show ?thesis unfolding rv fst_conv snd_conv prod.case SameAppConflict commit_reply.case
    proof (split if_split, intro conjI impI)
      show "triple (\<lambda>w. tried ctx B w0 add w \<and> version = length (w_logs w ?t) \<and>
          (SameAppConflict = Landed \<or> SameAppConflict = SameAppConflict \<longrightarrow> landed ctx B add (table_at w ?t)) \<and>
          (SameAppConflict \<noteq> UnknownFailure \<longrightarrow> quiet {?t} w0 w))
        (definite (bindIO (resolve_from_log e ctx ?t) (\<lambda>version. returnIO (version, True)))) ?Q (\<lambda>_. False)"
        by (rule triple_conseq [OF res]) (simp_all add: tried_def done_part_def)
    qed (rule triple_return, simp)
  next
    case DefiniteFailure
    show ?thesis unfolding rv fst_conv snd_conv prod.case DefiniteFailure commit_reply.case by (rule triple_return) simp
  next
    case UnknownFailure
    show ?thesis unfolding rv fst_conv snd_conv prod.case UnknownFailure commit_reply.case
      by (rule triple_return) (simp add: failed_commit_def)
  qed
qed

text \<open>
  A commit attempt of one table: on success the commit is in the log, once, and the reported version
  is a snapshot that has it; on failure it is there once or not at all, and a failure that is not
  reported as unresolved adds nothing to what may still arrive.
\<close>

lemma commit_table_triple:
  assumes "delta_laws e (cc_app_id ctx)" "entry_ok ctx B w0 (n, add)"
  shows "triple (\<lambda>w. w = w0) (commit_table e ctx (n, add))
     (\<lambda>r w. case r of Inl f \<Rightarrow> tried ctx B w0 add w \<and> (\<not> cf_unresolved f \<longrightarrow> quiet {pa_table add} w0 w)
        | Inr c \<Rightarrow> done_part ctx B w0 add w \<and> tc_table c = pa_table add \<and> tc_version c = length (w_logs w (pa_table add)))
     (\<lambda>_. False)"
  unfolding commit_table_def fst_conv snd_conv
proof (rule triple_bindC [OF submit_add_triple [OF assms]])
  let ?t = "pa_table add"
  fix vf :: "nat \<times> bool"
  obtain version found where vf: "vf = (version, found)" by fastforce
  have "triple (\<lambda>w. done_part ctx B w0 add w \<and> version = length (w_logs w ?t)) (definite (crash_point e))
      (\<lambda>r w. case r of Inl f \<Rightarrow> tried ctx B w0 add w \<and> (\<not> cf_unresolved f \<longrightarrow> quiet {?t} w0 w)
        | Inr _ \<Rightarrow> done_part ctx B w0 add w \<and> version = length (w_logs w ?t)) (\<lambda>_. False)"
    unfolding crash_point_def
    by (rule definite_done, rule triple_observe) simp_all
  then show "triple (\<lambda>w. done_part ctx B w0 add w \<and> fst vf = length (w_logs w ?t))
      (case vf of (version, found) \<Rightarrow> bindC (definite (crash_point e))
        (\<lambda>_. returnIO (Inr \<lparr> tc_table = ?t, tc_version = version, tc_found_in_log = found \<rparr>)))
      (\<lambda>r w. case r of Inl f \<Rightarrow> tried ctx B w0 add w \<and> (\<not> cf_unresolved f \<longrightarrow> quiet {?t} w0 w)
        | Inr c \<Rightarrow> done_part ctx B w0 add w \<and> tc_table c = ?t \<and> tc_version c = length (w_logs w ?t)) (\<lambda>_. False)"
    unfolding vf fst_conv prod.case by (rule triple_bindC) (rule triple_return, simp)
qed

section \<open>A group of tables\<close>

abbreviation entry_table :: "nat \<times> part_add \<Rightarrow> string" where
  "entry_table na \<equiv> pa_table (snd na)"

definition group_ok :: "commit_context \<Rightarrow> (string \<Rightarrow> log_commit list) \<Rightarrow> world \<Rightarrow> (nat \<times> part_add) list \<Rightarrow> bool" where
  "group_ok ctx B w es \<longleftrightarrow> distinct (map entry_table es) \<and> (\<forall>na\<in>set es. entry_ok ctx B w na)"

text \<open>
  What running a group leaves: every table has the transaction's commit once or not at all, on
  success all have it and the reported versions are snapshots that hold it, and a failure that is
  not unresolved leaves nothing new outstanding.
\<close>

definition group_outcome ::
  "commit_context \<Rightarrow> (string \<Rightarrow> log_commit list) \<Rightarrow> world \<Rightarrow> (nat \<times> part_add) set \<Rightarrow> table_commit list \<Rightarrow>
   commit_failure option \<Rightarrow> commit_failure + table_commit list \<Rightarrow> world \<Rightarrow> bool" where
  "group_outcome ctx B w0 T committed failure out w \<longleftrightarrow>
     only_logs (entry_table ` T) w0 w \<and> (\<forall>na\<in>T. settles ctx B (snd na) (table_at w (entry_table na))) \<and>
     (case out of
        Inl f \<Rightarrow> \<not> cf_unresolved f \<longrightarrow>
          quiet (entry_table ` T) w0 w \<and> (\<forall>g. failure = Some g \<longrightarrow> \<not> cf_unresolved g)
      | Inr cs \<Rightarrow> failure = None \<and> (\<forall>na\<in>T. landed ctx B (snd na) (table_at w (entry_table na))) \<and>
          (\<exists>news. cs = committed @ news \<and> tc_table ` set news = entry_table ` T \<and>
             (\<forall>c\<in>set news. tc_version c = length (w_logs w (tc_table c)))))"

lemma entry_ok_cong:
  "table_at w (entry_table na) = table_at v (entry_table na) \<Longrightarrow> entry_ok ctx B w na = entry_ok ctx B v na"
  by (simp add: entry_ok_def Let_def)

lemma group_ok_mset:
  assumes "mset es = mset es'" "group_ok ctx B w es"
  shows "group_ok ctx B w es'"
proof -
  have "mset (map entry_table es) = mset (map entry_table es')" using assms(1) by simp
  then have "distinct (map entry_table es) = distinct (map entry_table es')" by (rule mset_eq_imp_distinct_iff)
  then show ?thesis using assms mset_eq_setD [OF assms(1)] by (simp add: group_ok_def)
qed

lemma group_ok_clock [simp]: "group_ok ctx B (w\<lparr> w_clock := n \<rparr>) es = group_ok ctx B w es"
  by (simp add: group_ok_def entry_ok_def)

lemma group_outcome_clock: "group_outcome ctx B (w0\<lparr> w_clock := n \<rparr>) T cs f out w = group_outcome ctx B w0 T cs f out w"
  by (cases out) (simp_all add: group_outcome_def quiet_def)

lemma group_ok_rest:
  assumes "group_ok ctx B w (na # es)" "only_logs {entry_table na} w v"
  shows "group_ok ctx B v es"
proof -
  have "entry_ok ctx B v x" if "x \<in> set es" for x
  proof -
    have "entry_table na \<notin> entry_table ` set es" using assms(1) by (simp add: group_ok_def)
    then have "entry_table x \<noteq> entry_table na" using imageI [OF that, of entry_table] by metis
    then have "table_at v (entry_table x) = table_at w (entry_table x)"
      using only_logs_table [OF assms(2)] by simp
    then show ?thesis using assms(1) that entry_ok_cong by (metis group_ok_def list.set_intros(2))
  qed
  then show ?thesis using assms(1) by (simp add: group_ok_def)
qed

text \<open>The outcome of the first attempt and of the rest, together.\<close>

lemma group_outcome_step:
  assumes ok: "group_ok ctx B w (na # es)" and rest: "group_outcome ctx B v (set es) committed' failure' out w'"
    and first: "tried ctx B w (snd na) v"
    and lands: "failure' = None \<Longrightarrow> landed ctx B (snd na) (table_at v (entry_table na)) \<and>
      (\<exists>c. committed' = committed @ [c] \<and> tc_table c = entry_table na \<and> tc_version c = length (w_logs v (entry_table na)))"
    and unresolved: "\<forall>g. failure' = Some g \<longrightarrow> \<not> cf_unresolved g \<Longrightarrow>
      quiet {entry_table na} w v \<and> (\<forall>g. failure = Some g \<longrightarrow> \<not> cf_unresolved g)"
    and none: "failure' = None \<Longrightarrow> failure = None"
  shows "group_outcome ctx B w (insert na (set es)) committed failure out w'"
proof -
  let ?T = "entry_table ` set es"
  have lo: "only_logs ?T v w'" "\<forall>x\<in>set es. settles ctx B (snd x) (table_at w' (entry_table x))"
    using rest by (simp_all add: group_outcome_def)
  have out: "entry_table na \<notin> ?T" using ok by (simp add: group_ok_def)
  have same: "table_at w' (entry_table na) = table_at v (entry_table na)" using only_logs_table [OF lo(1) out] .
  have fr: "only_logs {entry_table na} w v" using first by (simp add: tried_def)
  have "only_logs (entry_table ` insert na (set es)) w w'" by (rule only_logs_trans [OF fr lo(1)]) simp
  moreover have "\<forall>x\<in>insert na (set es). settles ctx B (snd x) (table_at w' (entry_table x))"
    using lo(2) first unfolding ball_simps same by (simp add: tried_def)
  moreover have "case out of
        Inl f \<Rightarrow> \<not> cf_unresolved f \<longrightarrow>
          quiet (entry_table ` insert na (set es)) w w' \<and> (\<forall>g. failure = Some g \<longrightarrow> \<not> cf_unresolved g)
      | Inr cs \<Rightarrow> failure = None \<and> (\<forall>x\<in>insert na (set es). landed ctx B (snd x) (table_at w' (entry_table x))) \<and>
          (\<exists>news. cs = committed @ news \<and> tc_table ` set news = entry_table ` insert na (set es) \<and>
             (\<forall>c\<in>set news. tc_version c = length (w_logs w' (tc_table c))))"
  proof (cases out)
    case (Inl f)
    have "quiet (entry_table ` insert na (set es)) w w' \<and> (\<forall>g. failure = Some g \<longrightarrow> \<not> cf_unresolved g)"
      if "\<not> cf_unresolved f"
    proof -
      have q: "quiet ?T v w'" "\<forall>g. failure' = Some g \<longrightarrow> \<not> cf_unresolved g"
        using rest that Inl by (simp_all add: group_outcome_def)
      have "set (w_inflight w' t) \<subseteq> set (w_inflight w t)" if "t \<in> ?T" for t
      proof -
        have "t \<noteq> entry_table na" using that out by blast
        then have "w_inflight v t = w_inflight w t" using fr by (simp add: only_logs_def)
        then show ?thesis using q(1) that unfolding quiet_def by fastforce
      qed
      moreover have "w_inflight w' (entry_table na) = w_inflight v (entry_table na)" using same by simp
      ultimately show ?thesis using unresolved [OF q(2)] by (simp add: quiet_def)
    qed
    then show ?thesis using Inl by simp
  next
    case (Inr cs)
    obtain news where n: "failure' = None" "\<forall>x\<in>set es. landed ctx B (snd x) (table_at w' (entry_table x))"
      "cs = committed' @ news" "tc_table ` set news = ?T" "\<forall>c\<in>set news. tc_version c = length (w_logs w' (tc_table c))"
      using rest Inr by (auto simp: group_outcome_def)
    obtain c where c: "landed ctx B (snd na) (table_at v (entry_table na))" "committed' = committed @ [c]"
      "tc_table c = entry_table na" "tc_version c = length (w_logs v (entry_table na))"
      using lands [OF n(1)] by blast
    have "cs = committed @ (c # news)" using n(3) c(2) by simp
    moreover have "tc_table ` set (c # news) = entry_table ` insert na (set es)" using n(4) c(3) by simp
    moreover have "\<forall>d\<in>set (c # news). tc_version d = length (w_logs w' (tc_table d))"
      using n(5) c(3,4) same by simp
    moreover have "\<forall>x\<in>insert na (set es). landed ctx B (snd x) (table_at w' (entry_table x))"
      using n(2) c(1) same by simp
    ultimately show ?thesis using none [OF n(1)] Inr by auto
  qed
  ultimately show ?thesis unfolding group_outcome_def by blast
qed

lemma start_more_mset:
  "mset (fst (start_more limit failure queue running) @ snd (start_more limit failure queue running)) =
     mset (queue @ running)"
  by (simp add: start_more_def)
    (metis add.assoc add.commute append_take_drop_id mset_append)

lemma mset_remove_nth: "i < length xs \<Longrightarrow> mset xs = mset ((xs ! i) # take i xs @ drop (Suc i) xs)"
  by (metis append_Cons id_take_nth_drop mset.simps(2) mset_append union_mset_add_mset_right)

lemma run_bounded_stop:
  assumes "snd (start_more limit failure queue running) = []" "1 \<le> limit" "failure = None"
  shows "queue = [] \<and> running = []"
  using assms by (auto simp: start_more_def)

text \<open>The attempt that completes next, and the others.\<close>

lemma pick_entry:
  assumes "queue' = fst (start_more limit failure queue running)" "running' = snd (start_more limit failure queue running)"
    "running' \<noteq> []" "i = k mod length running'" "rest = take i running' @ drop (Suc i) running'"
    "group_ok ctx B w (queue @ running)"
  shows "group_ok ctx B w (running' ! i # queue' @ rest)"
    "set queue \<union> set running = insert (running' ! i) (set (queue' @ rest))"
proof -
  have i: "i < length running'" using assms(3,4) by simp
  have ms: "mset (running' ! i # queue' @ rest) = mset (queue @ running)"
    using start_more_mset [of limit failure queue running] mset_remove_nth [OF i]
    by (simp add: assms(1,2,5))
  show "group_ok ctx B w (running' ! i # queue' @ rest)" by (rule group_ok_mset [OF ms [symmetric] assms(6)])
  show "set queue \<union> set running = insert (running' ! i) (set (queue' @ rest))"
    using mset_eq_setD [OF ms] by simp
qed

lemma run_bounded_outcome:
  assumes "delta_laws e (cc_app_id ctx)" "1 \<le> limit" "group_ok ctx B w (queue @ running)"
  shows "\<exists>out w'. run_bounded e ctx limit queue running committed failure w = (Inr out, w') \<and>
     group_outcome ctx B w (set queue \<union> set running) committed failure out w'"
  using assms
proof (induction e ctx limit queue running committed failure w rule: run_bounded.induct)
  case (1 e ctx limit queue running committed failure w)
  define queue' where "queue' = fst (start_more limit failure queue running)"
  define running' where "running' = snd (start_more limit failure queue running)"
  show ?case
  proof (cases "running' = []")
    case True
    have "group_outcome ctx B w (set queue \<union> set running) committed failure
        (case failure of Some f \<Rightarrow> Inl f | None \<Rightarrow> Inr committed) w"
    proof (cases failure)
      case None
      then have "queue = [] \<and> running = []"
        using run_bounded_stop True "1.prems"(2) unfolding running'_def by blast
      then show ?thesis using None by (simp add: group_outcome_def)
    next
      case (Some f)
      then show ?thesis using "1.prems"(3)
        by (auto simp: group_outcome_def quiet_def group_ok_def entry_ok_def Let_def)
    qed
    moreover have "run_bounded e ctx limit queue running committed failure w =
        (Inr (case failure of Some f \<Rightarrow> Inl f | None \<Rightarrow> Inr committed), w)"
      using True by (subst run_bounded.simps) (simp add: running'_def [symmetric])
    ultimately show ?thesis by blast
  next
    case False
    define i where "i = e_schedule e (w_clock w) mod length running'"
    define rest where "rest = take i running' @ drop (Suc i) running'"
    define w1 where "w1 = w\<lparr> w_clock := Suc (w_clock w) \<rparr>"
    obtain n add where na: "running' ! i = (n, add)" by fastforce
    note pick = pick_entry [OF queue'_def running'_def False i_def rest_def, unfolded na]
    have ok: "group_ok ctx B w1 ((n, add) # queue' @ rest)"
      using pick(1) [OF "1.prems"(3)] by (simp add: w1_def)
    note T = pick(2) [OF "1.prems"(3)]
    have "entry_ok ctx B w1 (n, add)" using ok by (simp add: group_ok_def)
    then obtain res v where run: "commit_table e ctx (n, add) w1 = (Inr res, v)"
      and q: "case res of Inl f \<Rightarrow> tried ctx B w1 add v \<and> (\<not> cf_unresolved f \<longrightarrow> quiet {pa_table add} w1 v)
        | Inr c \<Rightarrow> done_part ctx B w1 add v \<and> tc_table c = pa_table add \<and> tc_version c = length (w_logs v (pa_table add))"
      by (rule triple_success [OF commit_table_triple [OF "1.prems"(1)] refl])
    have tried: "tried ctx B w1 add v" using q by (cases res) (auto simp: done_part_def tried_def)
    then have ok': "group_ok ctx B v (queue' @ rest)"
      using group_ok_rest [OF ok] by (simp add: tried_def)
    note IH = "1.IH" [OF queue'_def running'_def False i_def rest_def]
    note unfold = False run Let_def queue'_def [symmetric] running'_def [symmetric] i_def [symmetric]
      rest_def [symmetric] w1_def [symmetric] na
    show ?thesis
    proof (cases res)
      case (Inl f)
      have r: "(Inr (Inl f), v) = commit_table e ctx (running' ! i) (w\<lparr> w_clock := Suc (w_clock w) \<rparr>)"
        using run Inl by (simp add: na w1_def)
      let ?g = "Some (merge_failure failure f)"
      obtain out w' where out: "run_bounded e ctx limit queue' rest committed ?g v = (Inr out, w')"
        "group_outcome ctx B v (set (queue' @ rest)) committed ?g out w'"
        using IH(1) [OF r refl refl "1.prems"(1,2) ok', folded set_append] by blast
      have "run_bounded e ctx limit queue running committed failure w = (Inr out, w')"
        unfolding out(1) [symmetric] by (subst run_bounded.simps) (simp add: unfold Inl)
      moreover have "group_outcome ctx B w1 (insert (n, add) (set (queue' @ rest))) committed failure out w'"
        by (rule group_outcome_step [OF ok out(2)])
          (use tried q Inl in \<open>auto simp: merge_failure_def split: option.splits\<close>)
      ultimately show ?thesis unfolding T w1_def group_outcome_clock by blast
    next
      case (Inr c)
      have r: "(Inr (Inr c), v) = commit_table e ctx (running' ! i) (w\<lparr> w_clock := Suc (w_clock w) \<rparr>)"
        using run Inr by (simp add: na w1_def)
      obtain out w' where out: "run_bounded e ctx limit queue' rest (committed @ [c]) failure v = (Inr out, w')"
        "group_outcome ctx B v (set (queue' @ rest)) (committed @ [c]) failure out w'"
        using IH(2) [OF r refl refl "1.prems"(1,2) ok', folded set_append] by blast
      have "run_bounded e ctx limit queue running committed failure w = (Inr out, w')"
        unfolding out(1) [symmetric] by (subst run_bounded.simps) (simp add: unfold Inr)
      moreover have "group_outcome ctx B w1 (insert (n, add) (set (queue' @ rest))) committed failure out w'"
        by (rule group_outcome_step [OF ok out(2)])
          (use tried q Inr landed_quiet [of ctx B add v w1] in \<open>auto simp: done_part_def\<close>)
      ultimately show ?thesis unfolding T w1_def group_outcome_clock by blast
    qed
  qed
qed

section \<open>A transaction\<close>

text \<open>The parts of a transaction, at the loaded snapshots of their tables.\<close>

definition adds_ok :: "commit_context \<Rightarrow> (string \<Rightarrow> log_commit list) \<Rightarrow> delta_tables \<Rightarrow> world \<Rightarrow> part_add set \<Rightarrow> bool" where
  "adds_ok ctx B dt w A \<longleftrightarrow> (\<forall>add\<in>A.
     settles ctx B add (table_at w (pa_table add)) \<and>
     (\<forall>n. map_of (dt_tables dt) (pa_table add) = Some n \<longrightarrow>
        n \<le> length (w_logs w (pa_table add)) \<and>
        own (cc_app_id ctx) (take n (w_logs w (pa_table add))) = B (pa_table add)))"

definition adds_outcome ::
  "commit_context \<Rightarrow> (string \<Rightarrow> log_commit list) \<Rightarrow> world \<Rightarrow> part_add set \<Rightarrow>
   commit_failure + table_commit list \<Rightarrow> world \<Rightarrow> bool" where
  "adds_outcome ctx B w0 A out w \<longleftrightarrow>
     only_logs (pa_table ` A) w0 w \<and> (\<forall>add\<in>A. settles ctx B add (table_at w (pa_table add))) \<and>
     (case out of
        Inl f \<Rightarrow> \<not> cf_unresolved f \<longrightarrow> quiet (pa_table ` A) w0 w
      | Inr cs \<Rightarrow> (\<forall>add\<in>A. landed ctx B add (table_at w (pa_table add))) \<and> tc_table ` set cs = pa_table ` A \<and>
          (\<forall>c\<in>set cs. tc_version c = length (w_logs w (tc_table c))))"

lemma adds_outcome_early:
  "adds_ok ctx B dt w A \<Longrightarrow> adds_outcome ctx B w A (Inl f) w"
  by (auto simp: adds_outcome_def adds_ok_def quiet_def)

lemma group_queue:
  assumes "mapR (\<lambda>add. bindR (some_or (map_of m (pa_table add)) msg) (\<lambda>n. Inr (n, add))) as = Inr queue"
  shows "map snd queue = as" "\<forall>na\<in>set queue. map_of m (pa_table (snd na)) = Some (fst na)"
  using assms by (induction as arbitrary: queue) (force simp: bindR_eq_Inr some_or_eq_Inr)+

lemma commit_group_outcome:
  assumes "delta_laws e (cc_app_id ctx)" "1 \<le> limit" "distinct (map pa_table as)" "adds_ok ctx B dt w (set as)"
  shows "\<exists>out w'. commit_group e ctx dt limit as w = (Inr out, w') \<and> adds_outcome ctx B w (set as) out w'"
proof (cases "mapR (\<lambda>add. bindR (some_or (map_of (dt_tables dt) (pa_table add))
         ''not a Delta table of this dataset'') (\<lambda>n. Inr (n, add))) as")
  case (Inl err)
  then have "commit_group e ctx dt limit as w = (Inr (Inl (early_failure err)), w)"
    by (simp add: commit_group_def bindC_def liftC_def bindIO_def returnIO_def)
  then show ?thesis using adds_outcome_early [OF assms(4)] by blast
next
  case (Inr queue)
  note q = group_queue [OF Inr]
  have "map entry_table queue = map pa_table as" using q(1) by (metis (no_types, lifting) list.map_comp comp_apply map_eq_conv)
  moreover have "entry_ok ctx B w na" if "na \<in> set queue" for na
  proof -
    have "snd na \<in> set as" using that q(1) by auto
    then show ?thesis using assms(4) q(2) that by (simp add: entry_ok_def adds_ok_def Let_def)
  qed
  ultimately have "group_ok ctx B w (queue @ [])" using assms(3) by (simp add: group_ok_def)
  then obtain out w' where run: "run_bounded e ctx limit queue [] [] None w = (Inr out, w')"
    and o: "group_outcome ctx B w (set queue \<union> set []) [] None out w'"
    using run_bounded_outcome [OF assms(1,2)] by blast
  have "commit_group e ctx dt limit as w = (Inr out, w')"
    using Inr run by (simp add: commit_group_def bindC_def liftC_def bindIO_def returnIO_def)
  moreover have "adds_outcome ctx B w (set as) out w'"
    using o unfolding q(1) [symmetric]
    by (cases out) (auto simp: group_outcome_def adds_outcome_def image_image)
  ultimately show ?thesis by blast
qed

text \<open>Two groups one after the other; the second starts only when the first is complete.\<close>

lemma adds_outcome_seq:
  assumes ok: "adds_ok ctx B dt w (A1 \<union> A2)" and disj: "pa_table ` A1 \<inter> pa_table ` A2 = {}"
    and o1: "adds_outcome ctx B w A1 (Inr cs1) v" and o2: "adds_outcome ctx B v A2 out2 w'"
  shows "adds_outcome ctx B w (A1 \<union> A2) (case out2 of Inl f \<Rightarrow> Inl f | Inr cs2 \<Rightarrow> Inr (cs1 @ cs2)) w'"
proof -
  have lo: "only_logs (pa_table ` A1) w v" "only_logs (pa_table ` A2) v w'"
    using o1 o2 by (simp_all add: adds_outcome_def)
  have same1: "table_at w' t = table_at v t" if "t \<in> pa_table ` A1" for t
    using only_logs_table [OF lo(2)] that disj by blast
  have same2: "table_at v t = table_at w t" if "t \<in> pa_table ` A2" for t
    using only_logs_table [OF lo(1)] that disj by blast
  have l1: "\<forall>add\<in>A1. landed ctx B add (table_at w' (pa_table add))"
    using o1 same1 by (simp add: adds_outcome_def)
  have s2: "\<forall>add\<in>A2. settles ctx B add (table_at w' (pa_table add))"
    using o2 by (simp add: adds_outcome_def)
  have "only_logs (pa_table ` (A1 \<union> A2)) w w'" by (rule only_logs_trans [OF lo]) auto
  moreover have "\<forall>add\<in>A1 \<union> A2. settles ctx B add (table_at w' (pa_table add))" using l1 s2 by blast
  moreover have "case (case out2 of Inl f \<Rightarrow> Inl f | Inr cs2 \<Rightarrow> Inr (cs1 @ cs2)) of
      Inl f \<Rightarrow> \<not> cf_unresolved f \<longrightarrow> quiet (pa_table ` (A1 \<union> A2)) w w'
    | Inr cs \<Rightarrow> (\<forall>add\<in>A1 \<union> A2. landed ctx B add (table_at w' (pa_table add))) \<and>
        tc_table ` set cs = pa_table ` (A1 \<union> A2) \<and> (\<forall>c\<in>set cs. tc_version c = length (w_logs w' (tc_table c)))"
  proof (cases out2)
    case (Inl f)
    have "quiet (pa_table ` (A1 \<union> A2)) w w'" if q: "quiet (pa_table ` A2) v w'"
      unfolding quiet_def
    proof
      fix t
      assume "t \<in> pa_table ` (A1 \<union> A2)"
      then consider add where "add \<in> A1" "t = pa_table add" | "t \<in> pa_table ` A2" by blast
      then show "set (w_inflight w' t) \<subseteq> set (w_inflight w t)"
      proof cases
        case 1
        then show ?thesis using l1 by (simp add: present_def)
      next
        case 2
        then have "set (w_inflight w' t) \<subseteq> set (w_inflight v t)" using q unfolding quiet_def by blast
        then show ?thesis using same2 [OF 2] by simp
      qed
    qed
    then show ?thesis using o2 Inl by (simp add: adds_outcome_def)
  next
    case (Inr cs2)
    have t1: "tc_table ` set cs1 = pa_table ` A1" "\<forall>c\<in>set cs1. tc_version c = length (w_logs v (tc_table c))"
      using o1 by (simp_all add: adds_outcome_def)
    have "tc_version c = length (w_logs w' (tc_table c))" if "c \<in> set cs1" for c
    proof -
      have "tc_table c \<in> pa_table ` A1" using t1(1) that by blast
      then show ?thesis using same1 t1(2) that by simp
    qed
    moreover have "\<forall>add\<in>A2. landed ctx B add (table_at w' (pa_table add))" "tc_table ` set cs2 = pa_table ` A2"
      "\<forall>c\<in>set cs2. tc_version c = length (w_logs w' (tc_table c))"
      using o2 Inr by (simp_all add: adds_outcome_def)
    ultimately show ?thesis using t1(1) l1 Inr by (simp add: image_Un ball_Un)
  qed
  ultimately show ?thesis unfolding adds_outcome_def by blast
qed

lemma adds_ok_frame:
  assumes "adds_ok ctx B dt w A" "only_logs S w v" "pa_table ` A \<inter> S = {}"
  shows "adds_ok ctx B dt v A"
proof -
  have "table_at v (pa_table add) = table_at w (pa_table add)" if "add \<in> A" for add
    using only_logs_table [OF assms(2)] that assms(3) by blast
  then show ?thesis using assms(1) by (simp add: adds_ok_def)
qed

lemma adds_ok_mono: "adds_ok ctx B dt w A \<Longrightarrow> A' \<subseteq> A \<Longrightarrow> adds_ok ctx B dt w A'"
  unfolding adds_ok_def by blast

lemma adds_outcome_stop:
  assumes ok: "adds_ok ctx B dt w (A1 \<union> A2)" and disj: "pa_table ` A1 \<inter> pa_table ` A2 = {}"
    and o1: "adds_outcome ctx B w A1 (Inl f) v"
  shows "adds_outcome ctx B w (A1 \<union> A2) (Inl f) v"
proof -
  have lo: "only_logs (pa_table ` A1) w v" using o1 by (simp add: adds_outcome_def)
  have same: "table_at v t = table_at w t" if "t \<in> pa_table ` A2" for t
    using only_logs_table [OF lo] that disj by blast
  then have "\<forall>add\<in>A2. settles ctx B add (table_at v (pa_table add))"
    using ok by (simp add: adds_ok_def)
  moreover have "quiet (pa_table ` A2) w v" using same by (simp add: quiet_def)
  moreover have "only_logs (pa_table ` (A1 \<union> A2)) w v" by (rule only_logs_trans [OF lo only_logs_refl, of "{}"]) auto
  ultimately show ?thesis using o1 by (auto simp: adds_outcome_def quiet_def ball_Un)
qed

definition blocks_last :: "commit_context \<Rightarrow> (string \<Rightarrow> log_commit list) \<Rightarrow> world \<Rightarrow> part_add set \<Rightarrow> world \<Rightarrow> bool" where
  "blocks_last ctx B w0 A w \<longleftrightarrow> table_at w LAST_TABLE = table_at w0 LAST_TABLE \<or>
     (\<forall>add\<in>A. pa_table add \<noteq> LAST_TABLE \<longrightarrow> landed ctx B add (table_at w (pa_table add)))"

abbreviation parts_context :: "delta_tables \<Rightarrow> int \<Rightarrow> (string \<times> json) list \<Rightarrow> bool \<Rightarrow> commit_context" where
  "parts_context dt version metadata resolve \<equiv>
     \<lparr> cc_app_id = app_id (dt_identity dt), cc_version = version,
       cc_metadata = (''isBlindAppend'', JBool True) # metadata, cc_resolve_from_log = resolve \<rparr>"

lemma bindC_ok: "m w = (Inr (Inr a), v) \<Longrightarrow> bindC m f w = f a v"
  by (simp add: bindC_def bindIO_def)

lemma bindC_fail: "m w = (Inr (Inl f), v) \<Longrightarrow> bindC m g w = (Inr (Inl f), v)"
  by (simp add: bindC_def bindIO_def returnIO_def)

lemma liftC_ok [simp]: "liftC (Inr a) w = (Inr (Inr a), w)" "liftC (Inl err) w = (Inr (Inl (early_failure err)), w)"
  by (simp_all add: liftC_def returnIO_def)

lemma commit_parts_with_outcome:
  fixes dt version metadata resolve
  defines "ctx \<equiv> parts_context dt version metadata resolve"
  assumes laws: "delta_laws e (app_id (dt_identity dt))" and ok: "adds_ok ctx B dt w (set parts)"
  shows "\<exists>out w'. commit_parts_with e dt parts version metadata concurrency resolve w = (Inr out, w') \<and>
     adds_outcome ctx B w (set parts) out w' \<and> blocks_last ctx B w (set parts) w'"
proof (cases "distinct (map pa_table parts)")
  case False
  then obtain err where "require (distinct (map pa_table parts)) ''a transaction adds one part per table'' = Inl err"
    by (simp add: require_def bail_def)
  then have "commit_parts_with e dt parts version metadata concurrency resolve w = (Inr (Inl (early_failure err)), w)"
    unfolding commit_parts_with_def by (simp add: bindC_fail [OF liftC_ok(2)])
  then show ?thesis using adds_outcome_early [OF ok] by (auto simp: blocks_last_def)
next
  case True
  let ?others = "filter (\<lambda>a. pa_table a \<noteq> LAST_TABLE) parts" and ?last = "filter (\<lambda>a. pa_table a = LAST_TABLE) parts"
  have laws': "delta_laws e (cc_app_id ctx)" using laws by (simp add: ctx_def)
  have run: "commit_parts_with e dt parts version metadata concurrency resolve w =
      bindC (commit_group e ctx dt (max concurrency 1) ?others) (\<lambda>others.
      bindC (commit_group e ctx dt 1 ?last) (\<lambda>last_one. returnIO (Inr (others @ last_one)))) w"
    using True unfolding commit_parts_with_def ctx_def by (simp add: require_def bindC_ok [OF liftC_ok(1)] Let_def)
  have U: "set ?others \<union> set ?last = set parts" by auto
  have disj: "pa_table ` set ?others \<inter> pa_table ` set ?last = {}" by auto
  note ok' = ok [folded U]
  have "adds_ok ctx B dt w (set ?others)" using ok by (simp add: adds_ok_def)
  then obtain out1 v where r1: "commit_group e ctx dt (max concurrency 1) ?others w = (Inr out1, v)"
    and o1: "adds_outcome ctx B w (set ?others) out1 v"
    using commit_group_outcome [OF laws' _ distinct_map_filter [OF True]] by (metis max.cobounded2)
  have lo: "only_logs (pa_table ` set ?others) w v" using o1 by (simp add: adds_outcome_def)
  show ?thesis
  proof (cases out1)
    case (Inl f)
    have "table_at v LAST_TABLE = table_at w LAST_TABLE" by (rule only_logs_table [OF lo]) auto
    moreover have "adds_outcome ctx B w (set parts) (Inl f) v"
      using adds_outcome_stop [OF ok' disj] o1 Inl U by simp
    ultimately show ?thesis unfolding run bindC_fail [where m = "commit_group e ctx dt (max concurrency 1) ?others", OF r1 [unfolded Inl]]
      by (auto simp: blocks_last_def)
  next
    case (Inr cs1)
    have "adds_ok ctx B dt v (set ?last)"
      by (rule adds_ok_frame [OF _ lo]) (use ok disj in \<open>auto simp: adds_ok_def\<close>)
    then obtain out2 w' where r2: "commit_group e ctx dt 1 ?last v = (Inr out2, w')"
      and o2: "adds_outcome ctx B v (set ?last) out2 w'"
      using commit_group_outcome [OF laws' _ distinct_map_filter [OF True]] by (metis order_refl)
    have "adds_outcome ctx B w (set parts) (case out2 of Inl f \<Rightarrow> Inl f | Inr cs2 \<Rightarrow> Inr (cs1 @ cs2)) w'"
      using adds_outcome_seq [OF ok' disj _ o2] o1 Inr U by simp
    moreover have "blocks_last ctx B w (set parts) w'"
    proof -
      have "table_at w' (pa_table add) = table_at v (pa_table add)" if "pa_table add \<noteq> LAST_TABLE" for add :: part_add
        using only_logs_table [of "pa_table ` set ?last" v w'] o2 that by (auto simp: adds_outcome_def)
      moreover have "\<forall>add\<in>set parts. pa_table add \<noteq> LAST_TABLE \<longrightarrow> landed ctx B add (table_at v (pa_table add))"
        using o1 Inr by (simp add: adds_outcome_def)
      ultimately have "\<forall>add\<in>set parts. pa_table add \<noteq> LAST_TABLE \<longrightarrow> landed ctx B add (table_at w' (pa_table add))"
        by (intro ballI impI) simp
      then show ?thesis unfolding blocks_last_def by (rule disjI2)
    qed
    moreover have "commit_parts_with e dt parts version metadata concurrency resolve w =
        (Inr (case out2 of Inl f \<Rightarrow> Inl f | Inr cs2 \<Rightarrow> Inr (cs1 @ cs2)), w')"
      unfolding run bindC_ok [where m = "commit_group e ctx dt (max concurrency 1) ?others", OF r1 [unfolded Inr]] using r2
      by (cases out2) (simp_all add: bindC_def bindIO_def returnIO_def)
    ultimately show ?thesis by blast
  qed
qed

text \<open>
  What the Delta log of a table has to hold of a transaction: the commit with the transaction's last
  ordinal, and one \<open>add\<close> with the file name, date, size, statistics and time of the journaled part.
\<close>

definition journal_commit :: "string \<Rightarrow> pending_transaction \<Rightarrow> planned_part \<Rightarrow> log_commit list" where
  "journal_commit app p q =
     (case (pp_receipt q, find (\<lambda>t. tp_table t = pp_table q) (pt_tables p)) of
        (Some r, Some plan) \<Rightarrow>
          [\<lparr> lc_txn = Some (app, int (ap_last_ordinal (pt_prefix p))),
             lc_adds = [\<lparr> aa_path = drop (Suc (length (pp_table q))) (pp_final q),
               aa_date = drop (Suc (length PARTITION_COLUMN)) (tp_partition plan),
               aa_size = int (pr_byte_size r), aa_modification_time = pr_modification_time r,
               aa_stats = pr_stats r \<rparr>],
             lc_info = [(''isBlindAppend'', JBool True), (''fireparq.transaction'', JStr (digest_str (pt_id p))),
               (''fireparq.firstOrdinal'', JNum (int (ap_first_ordinal (pt_prefix p)))),
               (''fireparq.lastOrdinal'', JNum (int (ap_last_ordinal (pt_prefix p))))],
             lc_meta = None \<rparr>]
      | _ \<Rightarrow> [])"

definition journal_commits :: "string \<Rightarrow> pending_transaction \<Rightarrow> string \<Rightarrow> log_commit list" where
  "journal_commits app p t = concat (map (journal_commit app p) (filter (\<lambda>q. pp_table q = t) (pt_parts p)))"

abbreviation txn_context :: "delta_tables \<Rightarrow> pending_transaction \<Rightarrow> bool \<Rightarrow> commit_context" where
  "txn_context dt p resolve \<equiv> parts_context dt (int (ap_last_ordinal (pt_prefix p)))
     [(''fireparq.transaction'', JStr (digest_str (pt_id p))),
      (''fireparq.firstOrdinal'', JNum (int (ap_first_ordinal (pt_prefix p)))),
      (''fireparq.lastOrdinal'', JNum (int (ap_last_ordinal (pt_prefix p))))] resolve"

lemma add_of_journal:
  assumes "add_of x dt p q = Inr add"
  shows "pa_table add = pp_table q"
    "journal_commit (app_id (dt_identity dt)) p q = [commit_of_add (txn_context dt p resolve) add]"
  using assms
  by (auto simp: add_of_def part_add_new_def bindR_eq_Inr some_or_eq_Inr journal_commit_def commit_of_add_def)

lemma filter_distinct_map: "distinct (map f xs) \<Longrightarrow> a \<in> set xs \<Longrightarrow> filter (\<lambda>b. f b = f a) xs = [a]"
  by (induction xs) (auto simp: filter_empty_conv rev_image_eqI)

lemma adds_journal:
  assumes "adds x dt p = Inr parts"
  shows "map pa_table parts = map pp_table (pt_parts p)" "pt_phase p = Committed"
    "add \<in> set parts \<Longrightarrow> distinct (map pp_table (pt_parts p)) \<Longrightarrow>
      journal_commits (app_id (dt_identity dt)) p (pa_table add) = [commit_of_add (txn_context dt p resolve) add]"
proof -
  have all2: "list_all2 (\<lambda>q add. add_of x dt p q = Inr add) (pt_parts p) parts"
    using assms by (simp add: adds_def bindR_eq_Inr mapR_ok)
  then show "map pa_table parts = map pp_table (pt_parts p)"
    by (induction rule: list_all2_induct) (simp_all add: add_of_journal(1))
  show "pt_phase p = Committed" using assms by (simp add: adds_def bindR_eq_Inr)
  show "journal_commits (app_id (dt_identity dt)) p (pa_table add) = [commit_of_add (txn_context dt p resolve) add]"
    if mem: "add \<in> set parts" and dist: "distinct (map pp_table (pt_parts p))"
  proof -
    obtain q where q: "q \<in> set (pt_parts p)" "add_of x dt p q = Inr add"
      using list_all2_in_right [OF all2 mem] by blast
    have "filter (\<lambda>b. pp_table b = pa_table add) (pt_parts p) = [q]"
      unfolding add_of_journal(1) [OF q(2)] by (rule filter_distinct_map [OF dist q(1)])
    then show ?thesis by (simp add: journal_commits_def add_of_journal(2) [OF q(2)])
  qed
qed

lemma journal_commits_other: "t \<notin> pp_table ` set (pt_parts p) \<Longrightarrow> journal_commits app p t = []"
  by (auto simp: journal_commits_def filter_empty_conv)

text \<open>
  The state of the stream's logs while a transaction is committed: every table holds the base, or
  the base and the transaction's commit; only that commit may still arrive; a table without a part
  is untouched.
\<close>

definition table_partial :: "string \<Rightarrow> log_commit list \<Rightarrow> log_commit list \<Rightarrow> delta_log \<times> log_commit list \<Rightarrow> bool" where
  "table_partial app base c li \<longleftrightarrow>
     own app (fst li) = base \<and> set (snd li) \<subseteq> set c \<or> own app (fst li) = base @ c \<and> snd li = []"

definition logs_partial ::
  "string \<Rightarrow> (string \<Rightarrow> log_commit list) \<Rightarrow> (string \<Rightarrow> log_commit list) \<Rightarrow> world \<Rightarrow> bool" where
  "logs_partial app B C w \<longleftrightarrow> (\<forall>t. table_partial app (B t) (C t) (table_at w t))"

definition logs_exact :: "string \<Rightarrow> (string \<Rightarrow> log_commit list) \<Rightarrow> world \<Rightarrow> bool" where
  "logs_exact app B w \<longleftrightarrow> (\<forall>t. own app (w_logs w t) = B t \<and> w_inflight w t = [])"

lemma settles_journal:
  assumes "adds x dt p = Inr parts" "distinct (map pp_table (pt_parts p))" "add \<in> set parts"
  shows "settles (txn_context dt p resolve) B add (table_at w (pa_table add)) \<longleftrightarrow>
     own (app_id (dt_identity dt)) (w_logs w (pa_table add)) = B (pa_table add) \<and>
       set (w_inflight w (pa_table add)) \<subseteq> set (journal_commits (app_id (dt_identity dt)) p (pa_table add)) \<or>
     own (app_id (dt_identity dt)) (w_logs w (pa_table add)) =
       B (pa_table add) @ journal_commits (app_id (dt_identity dt)) p (pa_table add) \<and> w_inflight w (pa_table add) = []"
    "landed (txn_context dt p resolve) B add (table_at w (pa_table add)) \<longleftrightarrow>
     own (app_id (dt_identity dt)) (w_logs w (pa_table add)) =
       B (pa_table add) @ journal_commits (app_id (dt_identity dt)) p (pa_table add) \<and> w_inflight w (pa_table add) = []"
  using adds_journal(3) [OF assms(1,3,2), of resolve] by (auto simp: absent_def present_def)

text \<open>The loaded snapshots of some tables, from before the transaction.\<close>

definition snapshots_at :: "string \<Rightarrow> (string \<Rightarrow> log_commit list) \<Rightarrow> delta_tables \<Rightarrow> string set \<Rightarrow> world \<Rightarrow> bool" where
  "snapshots_at app B dt S w \<longleftrightarrow> (\<forall>t\<in>S. \<forall>n. map_of (dt_tables dt) t = Some n \<longrightarrow>
     n \<le> length (w_logs w t) \<and> own app (take n (w_logs w t)) = B t)"

lemma adds_ok_journal:
  fixes dt
  defines "app \<equiv> app_id (dt_identity dt)"
  assumes adds: "adds x dt p = Inr all" and dist: "distinct (map pp_table (pt_parts p))"
    and sub: "set parts \<subseteq> set all" and tp: "logs_partial app B (journal_commits app p) w"
    and snap: "snapshots_at app B dt (pa_table ` set parts) w"
  shows "adds_ok (txn_context dt p resolve) B dt w (set parts)"
  unfolding adds_ok_def
proof (intro ballI conjI)
  fix add
  assume add: "add \<in> set parts"
  then have "add \<in> set all" using sub by blast
  from settles_journal(1) [OF adds dist this] tp
  show "settles (txn_context dt p resolve) B add (table_at w (pa_table add))"
    by (auto simp: logs_partial_def table_partial_def app_def)
  show "\<forall>n. map_of (dt_tables dt) (pa_table add) = Some n \<longrightarrow> n \<le> length (w_logs w (pa_table add)) \<and>
      own (cc_app_id (txn_context dt p resolve)) (take n (w_logs w (pa_table add))) = B (pa_table add)"
    using snap add by (simp add: snapshots_at_def app_def)
qed

lemma commit_transaction_outcome:
  fixes dt
  defines "app \<equiv> app_id (dt_identity dt)"
  assumes laws: "delta_laws e app" and adds: "adds x dt p = Inr all" and dist: "distinct (map pp_table (pt_parts p))"
    and sub: "set parts \<subseteq> set all" and tp: "logs_partial app B (journal_commits app p) w" and snap: "snapshots_at app B dt (pa_table ` set parts) w"
  shows "\<exists>out w'. commit_transaction e dt p parts concurrency resolve w = (Inr out, w') \<and>
     only_logs (pa_table ` set parts) w w' \<and> logs_partial app B (journal_commits app p) w' \<and>
     (table_at w' LAST_TABLE = table_at w LAST_TABLE \<or>
       (\<forall>t\<in>pa_table ` set parts. t \<noteq> LAST_TABLE \<longrightarrow> own app (w_logs w' t) = B t @ journal_commits app p t)) \<and>
     (case out of
        Inl f \<Rightarrow> \<not> cf_unresolved f \<longrightarrow> quiet (pa_table ` set parts) w w'
      | Inr cs \<Rightarrow> (\<forall>t\<in>pa_table ` set parts. own app (w_logs w' t) = B t @ journal_commits app p t \<and> w_inflight w' t = []) \<and>
          tc_table ` set cs = pa_table ` set parts \<and> (\<forall>c\<in>set cs. tc_version c = length (w_logs w' (tc_table c))))"
proof (cases "txn_version_of (ap_last_ordinal (pt_prefix p))")
  case (Inl err)
  then have "commit_transaction e dt p parts concurrency resolve w = (Inr (Inl (early_failure err)), w)"
    unfolding commit_transaction_def Inl bindC_fail [OF liftC_ok(2)] by simp
  then show ?thesis using tp by (auto simp: quiet_def)
next
  case (Inr version)
  then have v: "version = int (ap_last_ordinal (pt_prefix p))" by (simp add: txn_version_of_def bindR_eq_Inr)
  let ?ctx = "txn_context dt p resolve"
  note sj = settles_journal [OF adds dist, of _ resolve B]
  have mem: "add \<in> set all" if "add \<in> set parts" for add using that sub by blast
  have "adds_ok ?ctx B dt w (set parts)"
    by (rule adds_ok_journal [OF adds dist sub tp [unfolded app_def] snap [unfolded app_def]])
  from commit_parts_with_outcome [OF laws [unfolded app_def] this, of concurrency]
  obtain out w' where run: "commit_parts_with e dt parts version [(''fireparq.transaction'', JStr (digest_str (pt_id p))),
        (''fireparq.firstOrdinal'', JNum (int (ap_first_ordinal (pt_prefix p)))),
        (''fireparq.lastOrdinal'', JNum (int (ap_last_ordinal (pt_prefix p))))] concurrency resolve w = (Inr out, w')"
    and o: "adds_outcome ?ctx B w (set parts) out w'" and b: "blocks_last ?ctx B w (set parts) w'"
    unfolding v by blast
  have lo: "only_logs (pa_table ` set parts) w w'" using o by (simp add: adds_outcome_def)
  have s: "\<forall>add\<in>set parts. settles ?ctx B add (table_at w' (pa_table add))" using o by (simp add: adds_outcome_def)
  have "logs_partial app B (journal_commits app p) w'"
    unfolding logs_partial_def
  proof
    fix t
    show "table_partial app (B t) (journal_commits app p t) (table_at w' t)"
    proof (cases "t \<in> pa_table ` set parts")
      case True
      then obtain add where add: "add \<in> set parts" "t = pa_table add" by blast
      from s add(1) have "settles ?ctx B add (table_at w' (pa_table add))" by (rule bspec)
      then show ?thesis unfolding sj(1) [OF mem [OF add(1)]] table_partial_def fst_conv snd_conv add(2) app_def .
    next
      case False
      then show ?thesis using tp only_logs_table [OF lo False] by (simp add: logs_partial_def)
    qed
  qed
  moreover have "\<forall>t\<in>pa_table ` set parts. own app (w_logs w' t) = B t @ journal_commits app p t \<and> w_inflight w' t = []"
    if "out = Inr cs" for cs
    using o that sj(2) [OF mem] by (simp add: adds_outcome_def app_def)
  moreover have "table_at w' LAST_TABLE = table_at w LAST_TABLE \<or>
      (\<forall>t\<in>pa_table ` set parts. t \<noteq> LAST_TABLE \<longrightarrow> own app (w_logs w' t) = B t @ journal_commits app p t)"
  proof (cases "table_at w' LAST_TABLE = table_at w LAST_TABLE")
    case False
    then have "\<forall>add\<in>set parts. pa_table add \<noteq> LAST_TABLE \<longrightarrow> landed ?ctx B add (table_at w' (pa_table add))"
      using b unfolding blocks_last_def by blast
    then show ?thesis using sj(2) [OF mem] by (simp add: app_def)
  qed simp
  moreover have "commit_transaction e dt p parts concurrency resolve w = (Inr out, w')"
    unfolding commit_transaction_def Inr using run by (simp add: bindC_ok [OF liftC_ok(1)])
  ultimately show ?thesis using lo o by (cases out) (simp_all add: adds_outcome_def)
qed

section \<open>Progress at startup\<close>

definition upto :: "world \<Rightarrow> world \<Rightarrow> bool" where
  "upto w0 w \<longleftrightarrow> w = w0\<lparr> w_clock := w_clock w \<rparr>"

lemma upto_refl [simp]: "upto w w"
  by (simp add: upto_def)

lemma upto_clock [simp]: "upto w0 w \<Longrightarrow> upto w0 (w\<lparr> w_clock := n \<rparr>)"
proof -
  assume "upto w0 w"
  then have "w\<lparr> w_clock := n \<rparr> = w0\<lparr> w_clock := w_clock w \<rparr>\<lparr> w_clock := n \<rparr>" by (simp only: upto_def)
  then show ?thesis by (simp add: upto_def)
qed

lemma upto_fields: "upto w0 w \<Longrightarrow> w_state w = w_state w0 \<and> w_pending w = w_pending w0 \<and> w_files w = w_files w0 \<and>
    w_logs w = w_logs w0 \<and> w_inflight w = w_inflight w0 \<and> w_mirror w = w_mirror w0"
  unfolding upto_def
  by (metis world.select_convs world.surjective world.update_convs(1))

text \<open>The transaction a snapshot ends with, and when it may be there.\<close>

abbreviation snapshot_txn :: "delta_tables \<Rightarrow> world \<Rightarrow> string \<Rightarrow> nat \<Rightarrow> int option" where
  "snapshot_txn dt w t n \<equiv> txn_of_log (app_id (dt_identity dt)) (take n (w_logs w t))"

definition held_by :: "pending_transaction option \<Rightarrow> string \<Rightarrow> int option \<Rightarrow> bool" where
  "held_by committed t v \<longleftrightarrow> (\<exists>p. committed = Some p \<and> t \<in> pp_table ` set (pt_parts p) \<and>
     v = Some (int (ap_last_ordinal (pt_prefix p))))"

definition not_ahead :: "nat \<Rightarrow> pending_transaction option \<Rightarrow> string \<Rightarrow> int option \<Rightarrow> bool" where
  "not_ahead authority committed t v \<longleftrightarrow> held_by committed t v \<or> (\<forall>n. v = Some n \<longrightarrow> 0 \<le> n \<and> n \<le> int authority)"

lemma txn_version_triple:
  "triple (upto w0) (txn_version e dt t)
     (\<lambda>v w. upto w0 w \<and> (\<exists>n. map_of (dt_tables dt) t = Some n \<and> v = snapshot_txn dt w0 t n)) (upto w0)"
  unfolding txn_version_def
  by (rule triple_bind_lift, rule triple_observe) (auto simp: some_or_eq_Inr dest: upto_fields)

lemma check_table_triple:
  assumes "last_txn = map_option (\<lambda>p. int (ap_last_ordinal (pt_prefix p))) committed"
  shows "triple (upto w0) (check_table e authority committed last_txn (t, v))
     (\<lambda>held w. upto w0 w \<and> (not_ahead authority committed t v \<and> held = held_by committed t v)) (upto w0)"
proof (cases v)
  case None
  then show ?thesis by (auto simp: check_table_def not_ahead_def held_by_def Let_def)
next
  case (Some n)
  define parts where "parts = (case committed of None \<Rightarrow> [] | Some p \<Rightarrow> map pp_table (pt_parts p))"
  have held: "held_by committed t v \<longleftrightarrow> Some n = last_txn \<and> t \<in> set parts"
    using assms Some by (cases committed) (auto simp: held_by_def parts_def)
  have "triple (upto w0) (sync e ''syncing the Delta log tail'') (\<lambda>_. upto w0) (upto w0)"
    unfolding sync_def by (rule triple_observe) auto
  then have "triple (upto w0) (bindIO (sync e ''syncing the Delta log tail'') (\<lambda>_. returnIO True))
      (\<lambda>held w. upto w0 w \<and> held) (upto w0)"
    by (rule triple_bind) auto
  then have yes: "triple (upto w0) (bindIO (sync e ''syncing the Delta log tail'') (\<lambda>_. returnIO True))
      (\<lambda>held w. upto w0 w \<and> (not_ahead authority committed t v \<and> held = held_by committed t v)) (upto w0)"
    if "held_by committed t v" using that by (elim triple_conseq) (auto simp: not_ahead_def)
  show ?thesis
    unfolding check_table_def prod.case Let_def parts_def [symmetric] Some option.case
    using yes held Some by (auto simp: not_ahead_def split: if_splits)
qed

lemma progress_lists:
  fixes ts and V :: "string \<Rightarrow> int option"
  assumes "list_all2 (\<lambda>t tv. fst tv = t \<and> snd tv = V t) ts vs"
    "list_all2 (\<lambda>tv held. not_ahead authority committed (fst tv) (snd tv) \<and> held = held_by committed (fst tv) (snd tv)) vs hs"
  shows "map fst vs = ts" "hs = map (\<lambda>t. held_by committed t (V t)) ts" "\<forall>t\<in>set ts. not_ahead authority committed t (V t)"
  using assms
  by (induction ts arbitrary: vs hs) (auto simp: list_all2_Cons1)

lemma filter_zip_map: "map fst (filter snd (zip ts (map f ts))) = filter f ts"
  by (induction ts) auto

lemma check_progress_triple:
  "triple (upto w0) (check_progress e dt authority committed)
     (\<lambda>missing w. upto w0 w \<and>
        (\<forall>t n. map_of (dt_tables dt) t = Some n \<longrightarrow> not_ahead authority committed t (snapshot_txn dt w0 t n)) \<and>
        set missing = {t. \<exists>p. committed = Some p \<and> t \<in> pp_table ` set (pt_parts p) \<and>
          \<not> (\<exists>n. map_of (dt_tables dt) t = Some n \<and> held_by committed t (snapshot_txn dt w0 t n))})
     (upto w0)"
  unfolding check_progress_def
proof (rule triple_bind_lift)
  let ?ts = "map fst (dt_tables dt)"
  let ?read = "\<lambda>t. bindIO (txn_version e dt t) (\<lambda>v. returnIO (t, v))"
  let ?R = "\<lambda>t tv. fst tv = t \<and> (\<exists>n. map_of (dt_tables dt) t = Some n \<and> snd tv = snapshot_txn dt w0 t n)"
  let ?C = "\<lambda>tv held. not_ahead authority committed (fst tv) (snd tv) \<and> held = held_by committed (fst tv) (snd tv)"
  fix last_txn
  assume last: "(case committed of None \<Rightarrow> Inr None
       | Some p \<Rightarrow> bindR (txn_version_of (ap_last_ordinal (pt_prefix p))) (\<lambda>v. Inr (Some v))) = Inr last_txn"
  then have last_txn: "last_txn = map_option (\<lambda>p. int (ap_last_ordinal (pt_prefix p))) committed"
    by (auto simp: txn_version_of_def bindR_eq_Inr split: option.splits)
  have "triple (upto w0) (?read t) (\<lambda>tv w. upto w0 w \<and> ?R t tv) (upto w0)" for t
    by (rule triple_bind [OF txn_version_triple]) auto
  then have reads: "triple (upto w0) (mapIO ?read ?ts) (\<lambda>vs w. upto w0 w \<and> list_all2 ?R ?ts vs) (upto w0)"
    by (rule triple_mapIO)
  have "triple (upto w0) (check_table e authority committed last_txn tv) (\<lambda>held w. upto w0 w \<and> ?C tv held) (upto w0)" for tv
    by (cases tv) (simp add: check_table_triple [OF last_txn])
  then have checks: "triple (upto w0) (mapIO (check_table e authority committed last_txn) vs)
      (\<lambda>held w. upto w0 w \<and> list_all2 ?C vs held) (upto w0)" for vs
    by (rule triple_mapIO)
  have fin: "(\<forall>t n. map_of (dt_tables dt) t = Some n \<longrightarrow> not_ahead authority committed t (snapshot_txn dt w0 t n)) \<and>
     set (case committed of None \<Rightarrow> []
       | Some p \<Rightarrow> filter (\<lambda>t. t \<notin> set (map fst (filter snd (zip (map fst vs) held)))) (map pp_table (pt_parts p))) =
     {t. \<exists>p. committed = Some p \<and> t \<in> pp_table ` set (pt_parts p) \<and>
        \<not> (\<exists>n. map_of (dt_tables dt) t = Some n \<and> held_by committed t (snapshot_txn dt w0 t n))}"
    if vs: "list_all2 ?R ?ts vs" and hs: "list_all2 ?C vs held" for vs held
  proof -
    define V where "V t = snapshot_txn dt w0 t (the (map_of (dt_tables dt) t))" for t
    have "list_all2 (\<lambda>t tv. fst tv = t \<and> snd tv = V t) ?ts vs"
      using vs by (rule list_all2_mono) (auto simp: V_def)
    note l = progress_lists [OF this hs]
    have tables: "map_of (dt_tables dt) t = Some n \<Longrightarrow> t \<in> set ?ts \<and> V t = snapshot_txn dt w0 t n" for t n
      using image_eqI [of t fst "(t, n)" "set (dt_tables dt)"] by (simp add: V_def map_of_SomeD)
    have known: "t \<in> set ?ts \<Longrightarrow> \<exists>n. map_of (dt_tables dt) t = Some n" for t
      by (cases "map_of (dt_tables dt) t") (auto simp: map_of_eq_None_iff)
    show ?thesis
    proof
      show "\<forall>t n. map_of (dt_tables dt) t = Some n \<longrightarrow> not_ahead authority committed t (snapshot_txn dt w0 t n)"
      proof (intro allI impI)
        fix t n
        assume "map_of (dt_tables dt) t = Some n"
        note t = tables [OF this]
        then have "not_ahead authority committed t (V t)" using l(3) by blast
        then show "not_ahead authority committed t (snapshot_txn dt w0 t n)" using t by simp
      qed
      have hold: "map fst (filter snd (zip (map fst vs) held)) = filter (\<lambda>t. held_by committed t (V t)) ?ts"
        unfolding l(1,2) by (rule filter_zip_map)
      have "t \<in> set (filter (\<lambda>t. held_by committed t (V t)) ?ts) \<longleftrightarrow>
          (\<exists>n. map_of (dt_tables dt) t = Some n \<and> held_by committed t (snapshot_txn dt w0 t n))" for t
      proof
        assume a: "t \<in> set (filter (\<lambda>t. held_by committed t (V t)) ?ts)"
        then have t: "t \<in> set ?ts" by simp
        from known [OF t] obtain n where n: "map_of (dt_tables dt) t = Some n" ..
        with a show "\<exists>n. map_of (dt_tables dt) t = Some n \<and> held_by committed t (snapshot_txn dt w0 t n)"
          using tables [OF n] by simp
      next
        assume "\<exists>n. map_of (dt_tables dt) t = Some n \<and> held_by committed t (snapshot_txn dt w0 t n)"
        then obtain n where n: "map_of (dt_tables dt) t = Some n" "held_by committed t (snapshot_txn dt w0 t n)" by blast
        then show "t \<in> set (filter (\<lambda>t. held_by committed t (V t)) ?ts)" using tables [OF n(1)] by simp
      qed
      then show "set (case committed of None \<Rightarrow> []
         | Some p \<Rightarrow> filter (\<lambda>t. t \<notin> set (map fst (filter snd (zip (map fst vs) held)))) (map pp_table (pt_parts p))) =
       {t. \<exists>p. committed = Some p \<and> t \<in> pp_table ` set (pt_parts p) \<and>
          \<not> (\<exists>n. map_of (dt_tables dt) t = Some n \<and> held_by committed t (snapshot_txn dt w0 t n))}"
        unfolding hold by (cases committed) auto
    qed
  qed
  show "triple (upto w0) (bindIO (mapIO ?read ?ts) (\<lambda>versions.
      bindIO (mapIO (check_table e authority committed last_txn) versions) (\<lambda>held.
      let holding = map fst (filter snd (zip (map fst versions) held)) in
      returnIO (case committed of None \<Rightarrow> []
        | Some p \<Rightarrow> filter (\<lambda>t. t \<notin> set holding) (map pp_table (pt_parts p))))))
     (\<lambda>missing w. upto w0 w \<and>
        (\<forall>t n. map_of (dt_tables dt) t = Some n \<longrightarrow> not_ahead authority committed t (snapshot_txn dt w0 t n)) \<and>
        set missing = {t. \<exists>p. committed = Some p \<and> t \<in> pp_table ` set (pt_parts p) \<and>
          \<not> (\<exists>n. map_of (dt_tables dt) t = Some n \<and> held_by committed t (snapshot_txn dt w0 t n))})
     (upto w0)"
  proof (rule triple_bind [OF reads])
    fix vs
    show "triple (\<lambda>w. upto w0 w \<and> list_all2 ?R ?ts vs) (bindIO (mapIO (check_table e authority committed last_txn) vs) (\<lambda>held.
      let holding = map fst (filter snd (zip (map fst vs) held)) in
      returnIO (case committed of None \<Rightarrow> []
        | Some p \<Rightarrow> filter (\<lambda>t. t \<notin> set holding) (map pp_table (pt_parts p)))))
     (\<lambda>missing w. upto w0 w \<and>
        (\<forall>t n. map_of (dt_tables dt) t = Some n \<longrightarrow> not_ahead authority committed t (snapshot_txn dt w0 t n)) \<and>
        set missing = {t. \<exists>p. committed = Some p \<and> t \<in> pp_table ` set (pt_parts p) \<and>
          \<not> (\<exists>n. map_of (dt_tables dt) t = Some n \<and> held_by committed t (snapshot_txn dt w0 t n))})
     (upto w0)"
    proof (cases "list_all2 ?R ?ts vs")
      case True
      have "triple (upto w0) (bindIO (mapIO (check_table e authority committed last_txn) vs) (\<lambda>held.
        let holding = map fst (filter snd (zip (map fst vs) held)) in
        returnIO (case committed of None \<Rightarrow> []
          | Some p \<Rightarrow> filter (\<lambda>t. t \<notin> set holding) (map pp_table (pt_parts p)))))
       (\<lambda>missing w. upto w0 w \<and>
          (\<forall>t n. map_of (dt_tables dt) t = Some n \<longrightarrow> not_ahead authority committed t (snapshot_txn dt w0 t n)) \<and>
          set missing = {t. \<exists>p. committed = Some p \<and> t \<in> pp_table ` set (pt_parts p) \<and>
            \<not> (\<exists>n. map_of (dt_tables dt) t = Some n \<and> held_by committed t (snapshot_txn dt w0 t n))})
       (upto w0)"
        by (rule triple_bind [OF checks], unfold Let_def, rule triple_return) (use fin [OF True] in blast)
      then show ?thesis by (rule triple_conseq) simp_all
    next
      case False
      then show ?thesis by (simp add: triple_def)
    qed
  qed
qed simp

section \<open>Opening the tables\<close>

text \<open>The Delta logs only grow, and nothing else changes.\<close>

definition grows :: "world \<Rightarrow> world \<Rightarrow> bool" where
  "grows w0 w \<longleftrightarrow> only_logs UNIV w0 w \<and> (\<forall>t. \<exists>fresh. w_logs w t = w_logs w0 t @ fresh)"

lemma grows_refl [simp]: "grows w w"
  by (simp add: grows_def)

lemma grows_clock [simp]: "grows w0 (w\<lparr> w_clock := n \<rparr>) = grows w0 w"
  by (simp add: grows_def)

lemma grows_trans: "grows w0 w1 \<Longrightarrow> grows w1 w2 \<Longrightarrow> grows w0 w2"
  unfolding grows_def using only_logs_trans by (metis append.assoc sup.idem order_refl)

lemma grows_set_table: "grows w0 w \<Longrightarrow> fst li = w_logs w t @ fresh \<Longrightarrow> grows w0 (set_table t li w)"
proof -
  assume g: "grows w0 w" and li: "fst li = w_logs w t @ fresh"
  have "\<exists>fresh. w_logs (set_table t li w) s = w_logs w0 s @ fresh" for s
  proof -
    obtain f where "w_logs w s = w_logs w0 s @ f" using g by (auto simp: grows_def)
    then show ?thesis using li by (cases "s = t") (simp_all add: set_table_def)
  qed
  then show ?thesis using g by (simp add: grows_def only_logs_def set_table_def)
qed

definition one_each :: "(string \<Rightarrow> log_commit list) \<Rightarrow> bool" where
  "one_each C \<longleftrightarrow> (\<forall>t. length (C t) \<le> 1)"

lemma arrive_partial:
  assumes "delta_laws e app" "length c \<le> 1" "table_partial app base c li"
  shows "table_partial app base c (e_arrive e k t li)" "\<exists>fresh. fst (e_arrive e k t li) = fst li @ fresh"
proof -
  obtain log inflight where li: "li = (log, inflight)" by fastforce
  obtain log' inflight' where li': "e_arrive e k t li = (log', inflight')" by fastforce
  obtain fresh where f: "log' = log @ fresh" "set (own app fresh) \<subseteq> set inflight" "length (own app fresh) \<le> 1"
    "own app fresh \<noteq> [] \<Longrightarrow> inflight' = []" "set inflight' \<subseteq> set inflight"
    by (rule arrive_lawD [OF assms(1) li' [unfolded li]]) (blast intro: that)
  show "\<exists>fresh. fst (e_arrive e k t li) = fst li @ fresh" using f(1) li li' by simp
  show "table_partial app base c (e_arrive e k t li)"
  proof (cases "own app fresh = []")
    case True
    then show ?thesis using assms(3) [unfolded li] f unfolding li' table_partial_def by auto
  next
    case False
    then have "inflight \<noteq> []" using f(2) by auto
    then have a: "own app log = base" "set inflight \<subseteq> set c" using assms(3) by (auto simp: table_partial_def li)
    then obtain d where d: "c = [d]" using assms(2) \<open>inflight \<noteq> []\<close> by (cases c) auto
    have "own app fresh = [d]" using one_of [of "own app fresh" d] f(2,3) a(2) d False by auto
    then show ?thesis using a f d False unfolding li' table_partial_def by simp
  qed
qed

abbreviation log_growth :: "string \<Rightarrow> (string \<Rightarrow> log_commit list) \<Rightarrow> (string \<Rightarrow> log_commit list) \<Rightarrow> world \<Rightarrow> world \<Rightarrow> bool" where
  "log_growth app B C w0 w \<equiv> logs_partial app B C w \<and> grows w0 w"

lemma load_log_triple:
  assumes "delta_laws e app" "one_each C"
  shows "triple (log_growth app B C w0) (load_log e t)
     (\<lambda>log w. log_growth app B C w0 w \<and> log = w_logs w t) (log_growth app B C w0)"
proof -
  have "log_growth app B C w0 (set_table t (e_arrive e (w_clock w) t (table_at w t)) (w\<lparr> w_clock := k \<rparr>))"
    if "log_growth app B C w0 w" for w k
  proof
    have tp: "table_partial app (B t) (C t) (table_at w t)" using that by (simp add: logs_partial_def)
    have one: "length (C t) \<le> 1" using assms(2) by (simp add: one_each_def)
    note ar = arrive_partial [OF assms(1) one tp, of "w_clock w" t]
    show "logs_partial app B C (set_table t (e_arrive e (w_clock w) t (table_at w t)) (w\<lparr> w_clock := k \<rparr>))"
      using that ar(1) by (simp add: logs_partial_def set_table_def)
    obtain fresh where "fst (e_arrive e (w_clock w) t (table_at w t)) = w_logs w t @ fresh" using ar(2) by auto
    then show "grows w0 (set_table t (e_arrive e (w_clock w) t (table_at w t)) (w\<lparr> w_clock := k \<rparr>))"
      using that by (intro grows_set_table) simp_all
  qed
  then show ?thesis by (auto simp: triple_def load_log_def Let_def set_table_def)
qed

lemma partial_clock [simp]: "logs_partial app B C (w\<lparr> w_clock := n \<rparr>) = logs_partial app B C w"
  by (simp add: logs_partial_def)

lemma create_table_triple:
  "triple (log_growth app B C w0) (create_table e i t columns)
     (\<lambda>_ w. log_growth app B C w0 w \<and> w_logs w t = [creation_commit i columns]) (log_growth app B C w0)"
proof -
  let ?f = "\<lambda>w. w\<lparr> w_logs := (w_logs w)(t := [creation_commit i columns]) \<rparr>"
  have put: "log_growth app B C w0 (?f (w\<lparr> w_clock := k \<rparr>)) \<and> w_logs (?f (w\<lparr> w_clock := k \<rparr>)) t = [creation_commit i columns]"
    if w: "log_growth app B C w0 w" "w_logs w t = []" for w k
  proof (intro conjI)
    have "own app [creation_commit i columns] = []" by (simp add: own_commit_def creation_commit_def)
    moreover have "table_partial app (B t) (C t) ([], w_inflight w t)"
      using w unfolding logs_partial_def by metis
    ultimately have "table_partial app (B t) (C t) ([creation_commit i columns], w_inflight w t)"
      by (simp add: table_partial_def)
    then show "logs_partial app B C (?f (w\<lparr> w_clock := k \<rparr>))"
      using w(1) by (simp add: logs_partial_def)
    show "grows w0 (?f (w\<lparr> w_clock := k \<rparr>))"
      using grows_set_table [of w0 "w\<lparr> w_clock := k \<rparr>" "([creation_commit i columns], w_inflight w t)" t
          "[creation_commit i columns]"] w by (simp add: set_table_def)
  qed simp
  show ?thesis
    unfolding create_table_def
  proof (rule triple_bind [where R = "\<lambda>_ w. log_growth app B C w0 w \<and> w_logs w t = []"])
    show "triple (\<lambda>w. log_growth app B C w0 w \<and> w_logs w t = []) (mutate e ''creating the Delta table'' ?f)
        (\<lambda>_ w. log_growth app B C w0 w \<and> w_logs w t = [creation_commit i columns]) (log_growth app B C w0)"
      by (rule triple_mutate) (use put in auto)
  qed (auto simp: triple_def)
qed

text \<open>A loaded snapshot has the earlier transactions and the open one completely, or not at all.\<close>

definition loaded ::
  "string \<Rightarrow> (string \<Rightarrow> log_commit list) \<Rightarrow> (string \<Rightarrow> log_commit list) \<Rightarrow> world \<Rightarrow> string \<Rightarrow> nat \<Rightarrow> bool" where
  "loaded app B C w t n \<longleftrightarrow> n \<le> length (w_logs w t) \<and>
     (own app (take n (w_logs w t)) = B t \<or> own app (take n (w_logs w t)) = B t @ C t)"

lemma loaded_grows: "loaded app B C w t n \<Longrightarrow> grows w w' \<Longrightarrow> loaded app B C w' t n"
proof -
  assume l: "loaded app B C w t n" and "grows w w'"
  then obtain f where "w_logs w' t = w_logs w t @ f" by (auto simp: grows_def)
  with l show ?thesis by (simp add: loaded_def)
qed

lemma loaded_now: "logs_partial app B C w \<Longrightarrow> loaded app B C w t (length (w_logs w t))"
  by (auto simp: logs_partial_def table_partial_def loaded_def)

lemma sync_growth: "triple (\<lambda>w. log_growth app B C w0 w \<and> w_logs w t = l) (sync e msg)
    (\<lambda>_ w. log_growth app B C w0 w \<and> w_logs w t = l) (log_growth app B C w0)"
  unfolding sync_def by (rule triple_observe) auto

lemma open_or_create_triple:
  assumes "delta_laws e app" "one_each C"
  shows "triple (log_growth app B C w0) (open_or_create e i t columns create_missing)
     (\<lambda>n w. log_growth app B C w0 w \<and> loaded app B C w t n) (log_growth app B C w0)"
proof -
  let ?L = "\<lambda>log w. log_growth app B C w0 w \<and> w_logs w t = log"
  note load = load_log_triple [OF assms, of B w0 t]
  have create: "triple (log_growth app B C w0) (bindIO (tryIO (create_table e i t cs)) (\<lambda>created.
      case created of
        Inr _ \<Rightarrow> bindIO (sync e ''syncing the Delta commit'') (\<lambda>_. returnIO [creation_commit i cs])
      | Inl err \<Rightarrow> bindIO (load_log e t) (\<lambda>theirs.
          if theirs = [] then failIO (Context ''creating the Delta table'' err) else returnIO theirs)))
      ?L (log_growth app B C w0)" for cs
  proof (rule triple_bind [OF triple_try [OF create_table_triple]])
    fix r :: "error + unit"
    show "triple (\<lambda>w. case r of Inl _ \<Rightarrow> log_growth app B C w0 w
          | Inr a \<Rightarrow> log_growth app B C w0 w \<and> w_logs w t = [creation_commit i cs])
        (case r of Inr _ \<Rightarrow> bindIO (sync e ''syncing the Delta commit'') (\<lambda>_. returnIO [creation_commit i cs])
         | Inl err \<Rightarrow> bindIO (load_log e t) (\<lambda>theirs.
             if theirs = [] then failIO (Context ''creating the Delta table'' err) else returnIO theirs))
        ?L (log_growth app B C w0)"
    proof (cases r)
      case (Inl err)
      show ?thesis unfolding Inl sum.case by (rule triple_bind [OF load]) auto
    next
      case (Inr u)
      show ?thesis unfolding Inr sum.case by (rule triple_bind [OF sync_growth]) auto
    qed
  qed
  have fetch: "triple (\<lambda>w. log_growth app B C w0 w \<and> found = w_logs w t)
      (if found \<noteq> [] then returnIO found
       else case (columns, create_missing) of
         (Some cs, True) \<Rightarrow>
           bindIO (tryIO (create_table e i t cs)) (\<lambda>created.
           case created of
             Inr _ \<Rightarrow> bindIO (sync e ''syncing the Delta commit'') (\<lambda>_. returnIO [creation_commit i cs])
           | Inl err \<Rightarrow> bindIO (load_log e t) (\<lambda>theirs.
               if theirs = [] then failIO (Context ''creating the Delta table'' err) else returnIO theirs))
       | (Some cs, False) \<Rightarrow> failIO (Bail ''the stream has committed transactions, but the table has no Delta log: its rows are unreachable'')
       | (None, _) \<Rightarrow> failIO (Bail ''table has no Delta log'')) ?L (log_growth app B C w0)" for found
  proof (cases "found = []")
    case True
    show ?thesis using True create by (cases columns; cases create_missing) (auto intro: triple_conseq)
  qed auto
  show ?thesis
    unfolding open_or_create_def
  proof (rule triple_bind [OF load], rule triple_bind [OF fetch], rule triple_bind_lift)
    fix log and u :: unit
    show "triple (?L log) (returnIO (length log)) (\<lambda>n w. log_growth app B C w0 w \<and> loaded app B C w t n) (log_growth app B C w0)"
      by (rule triple_return) (use loaded_now in blast)
  qed simp
qed

text \<open>A computation per element, when what one establishes survives the others.\<close>

lemma triple_mapIO_grows:
  assumes step: "\<And>a w0. triple (log_growth app B C w0) (f a) (\<lambda>b w. log_growth app B C w0 w \<and> R a b w) (log_growth app B C w0)"
    and stable: "\<And>a b w w'. R a b w \<Longrightarrow> grows w w' \<Longrightarrow> R a b w'"
  shows "triple (log_growth app B C w0) (mapIO f as)
     (\<lambda>bs w. log_growth app B C w0 w \<and> list_all2 (\<lambda>a b. R a b w) as bs) (log_growth app B C w0)"
proof (induction as arbitrary: w0)
  case Nil
  then show ?case by (simp add: triple_return)
next
  case (Cons a as)
  show ?case
    unfolding mapIO.simps
  proof (rule triple_bind [OF step])
    fix b
    show "triple (\<lambda>w. log_growth app B C w0 w \<and> R a b w) (bindIO (mapIO f as) (\<lambda>bs. returnIO (b # bs)))
        (\<lambda>bs w. log_growth app B C w0 w \<and> list_all2 (\<lambda>a b. R a b w) (a # as) bs) (log_growth app B C w0)"
    proof (rule tripleI)
      fix w bs w'
      assume w: "log_growth app B C w0 w \<and> R a b w" and run: "bindIO (mapIO f as) (\<lambda>bs. returnIO (b # bs)) w = (Inr bs, w')"
      then obtain cs where cs: "mapIO f as w = (Inr cs, w')" "bs = b # cs" by (auto simp: bindIO_ok returnIO_def)
      have "log_growth app B C w w" using w by simp
      from tripleD(1) [OF Cons.IH this cs(1)] have r: "log_growth app B C w w'" "list_all2 (\<lambda>a b. R a b w') as cs" by auto
      then have "R a b w'" "grows w0 w'" using w stable grows_trans by blast+
      with r show "log_growth app B C w0 w' \<and> list_all2 (\<lambda>a b. R a b w') (a # as) bs" using cs(2) by simp
    next
      fix w err w'
      assume w: "log_growth app B C w0 w \<and> R a b w" and run: "bindIO (mapIO f as) (\<lambda>bs. returnIO (b # bs)) w = (Inl err, w')"
      then have "mapIO f as w = (Inl err, w')" by (auto simp: bindIO_err returnIO_def)
      moreover have "log_growth app B C w w" using w by simp
      ultimately have "log_growth app B C w w'" using tripleD(2) [OF Cons.IH] by blast
      then show "log_growth app B C w0 w'" using w grows_trans [of w0 w w'] by simp
    qed
  qed
qed

definition all_loaded ::
  "string \<Rightarrow> (string \<Rightarrow> log_commit list) \<Rightarrow> (string \<Rightarrow> log_commit list) \<Rightarrow> delta_tables \<Rightarrow> world \<Rightarrow> bool" where
  "all_loaded app B C dt w \<longleftrightarrow> (\<forall>(t, n) \<in> set (dt_tables dt). loaded app B C w t n)"

lemma open_specs_triple:
  assumes "delta_laws e app" "one_each C"
  shows "triple (log_growth app B C w0) (open_specs e i specs create_missing)
     (\<lambda>dt w. log_growth app B C w0 w \<and> dt_identity dt = i \<and> map fst (dt_tables dt) = map fst specs \<and> all_loaded app B C dt w)
     (log_growth app B C w0)"
proof -
  let ?f = "\<lambda>(t, columns). bindIO (mapErr (Context ''opening the Delta table'') (open_or_create e i t columns create_missing)) (\<lambda>n.
      returnIO (t, n))"
  let ?R = "\<lambda>tc tn w. fst tn = fst tc \<and> loaded app B C w (fst tn) (snd tn)"
  have step: "triple (log_growth app B C w1) (?f tc) (\<lambda>tn w. log_growth app B C w1 w \<and> ?R tc tn w) (log_growth app B C w1)" for tc w1
  proof -
    have "triple (log_growth app B C w1) (mapErr (Context ''opening the Delta table'') (open_or_create e i (fst tc) (snd tc) create_missing))
       (\<lambda>n w. log_growth app B C w1 w \<and> loaded app B C w (fst tc) n) (log_growth app B C w1)"
      unfolding triple_map_err by (rule open_or_create_triple [OF assms])
    then show ?thesis unfolding case_prod_beta by (rule triple_bind) auto
  qed
  have all2: "map fst opened = map fst specs \<and> (\<forall>(t, n) \<in> set opened. loaded app B C w t n)"
    if "list_all2 (\<lambda>tc tn. ?R tc tn w) specs opened" for opened w
    using that by (induction rule: list_all2_induct) auto
  show ?thesis
    unfolding open_specs_def
  proof (rule triple_bind_lift, rule triple_bind [OF triple_mapIO_grows [where R = ?R, OF step]])
    fix opened
    show "triple (\<lambda>w. log_growth app B C w0 w \<and> list_all2 (\<lambda>tc tn. ?R tc tn w) specs opened)
        (returnIO \<lparr> dt_identity = i, dt_tables = opened \<rparr>)
        (\<lambda>dt w. log_growth app B C w0 w \<and> dt_identity dt = i \<and> map fst (dt_tables dt) = map fst specs \<and> all_loaded app B C dt w)
        (log_growth app B C w0)"
    proof (rule triple_return)
      fix w
      assume "log_growth app B C w0 w \<and> list_all2 (\<lambda>tc tn. ?R tc tn w) specs opened"
      then show "log_growth app B C w0 w \<and> dt_identity \<lparr> dt_identity = i, dt_tables = opened \<rparr> = i \<and>
          map fst (dt_tables \<lparr> dt_identity = i, dt_tables = opened \<rparr>) = map fst specs \<and>
          all_loaded app B C \<lparr> dt_identity = i, dt_tables = opened \<rparr> w"
        using all2 [of w opened] by (simp add: all_loaded_def)
    qed
  qed (auto intro: loaded_grows)
qed

section \<open>Recovery of a committed transaction\<close>

definition last_version :: "log_commit list \<Rightarrow> int option" where
  "last_version cs = (case rev cs of [] \<Rightarrow> None | c # _ \<Rightarrow> map_option snd (lc_txn c))"

lemma txn_of_log_own: "txn_of_log app log = last_version (own app log)"
  by (simp add: txn_of_log_def last_version_def)

lemma last_version_snoc [simp]: "last_version (cs @ [c]) = map_option snd (lc_txn c)"
  by (simp add: last_version_def)

lemma journal_commits_txn: "c \<in> set (journal_commits app p t) \<Longrightarrow> lc_txn c = Some (app, int (ap_last_ordinal (pt_prefix p)))"
  by (auto simp: journal_commits_def journal_commit_def split: option.splits)

lemma journal_commits_one:
  assumes "distinct (map pp_table (pt_parts p))"
  shows "one_each (journal_commits app p)"
  unfolding one_each_def
proof
  fix t
  show "length (journal_commits app p t) \<le> 1"
  proof (cases "t \<in> pp_table ` set (pt_parts p)")
    case True
    then obtain q where "q \<in> set (pt_parts p)" "t = pp_table q" by blast
    then have "filter (\<lambda>b. pp_table b = t) (pt_parts p) = [q]" using filter_distinct_map [OF assms] by blast
    then show ?thesis by (auto simp: journal_commits_def journal_commit_def split: option.splits)
  qed (simp add: journal_commits_other)
qed

text \<open>
  What reading the \<open>txn\<close> of the snapshots tells: the tables without the transaction are at their
  state before it, all others have it.
\<close>

lemma progress_split:
  fixes dt
  defines "app \<equiv> app_id (dt_identity dt)"
  assumes loaded: "all_loaded app B (journal_commits app p) dt w" and tp: "logs_partial app B (journal_commits app p) w"
    and one: "one_each (journal_commits app p)" and fresh: "\<And>t. last_version (B t) \<noteq> Some (int (ap_last_ordinal (pt_prefix p)))"
    and missing: "missing = {t. t \<in> pp_table ` set (pt_parts p) \<and>
      \<not> (\<exists>n. map_of (dt_tables dt) t = Some n \<and> held_by (Some p) t (snapshot_txn dt w t n))}"
  shows "snapshots_at app B dt missing w"
    "\<And>t. t \<in> pp_table ` set (pt_parts p) \<Longrightarrow> t \<notin> missing \<Longrightarrow>
      own app (w_logs w t) = B t @ journal_commits app p t \<and> w_inflight w t = []"
    "\<And>t n. t \<in> pp_table ` set (pt_parts p) \<Longrightarrow> t \<notin> missing \<Longrightarrow> map_of (dt_tables dt) t = Some n \<Longrightarrow>
      own app (take n (w_logs w t)) = B t @ journal_commits app p t"
proof -
  let ?last = "Some (int (ap_last_ordinal (pt_prefix p)))"
  have load: "loaded app B (journal_commits app p) w t n" if "map_of (dt_tables dt) t = Some n" for t n
    using loaded map_of_SomeD [OF that] by (auto simp: all_loaded_def)
  have held: "held_by (Some p) t (snapshot_txn dt w t n) \<longleftrightarrow> last_version (own app (take n (w_logs w t))) = ?last"
    if "t \<in> pp_table ` set (pt_parts p)" for t n
    using that by (auto simp: held_by_def txn_of_log_own app_def)
  have open_txn: "last_version (B t @ journal_commits app p t) = ?last" if ne: "journal_commits app p t \<noteq> []" for t
  proof -
    have "length (journal_commits app p t) \<le> 1" using one by (simp add: one_each_def)
    then obtain c where c: "journal_commits app p t = [c]" using ne by (cases "journal_commits app p t") auto
    then show ?thesis using journal_commits_txn [of c app p t] by simp
  qed
  show "snapshots_at app B dt missing w"
    unfolding snapshots_at_def
  proof (intro ballI allI impI)
    fix t n
    assume t: "t \<in> missing" and n: "map_of (dt_tables dt) t = Some n"
    then have "last_version (own app (take n (w_logs w t))) \<noteq> ?last" using held missing by auto
    with open_txn [of t] load [OF n] show "n \<le> length (w_logs w t) \<and> own app (take n (w_logs w t)) = B t"
      unfolding loaded_def by (cases "journal_commits app p t = []") auto
  qed
  fix t
  assume t: "t \<in> pp_table ` set (pt_parts p)" "t \<notin> missing"
  then obtain n where n: "map_of (dt_tables dt) t = Some n" "last_version (own app (take n (w_logs w t))) = ?last"
    using held missing by auto
  with fresh [of t] have "own app (take n (w_logs w t)) \<noteq> B t" by auto
  with load [OF n(1)] have snap: "own app (take n (w_logs w t)) = B t @ journal_commits app p t" "journal_commits app p t \<noteq> []"
    by (auto simp: loaded_def)
  have "own app (w_logs w t) \<noteq> B t" using own_take_drop [of app "w_logs w t" n] snap by auto
  then show "own app (w_logs w t) = B t @ journal_commits app p t \<and> w_inflight w t = []"
    using tp by (auto simp: logs_partial_def table_partial_def)
  show "own app (take m (w_logs w t)) = B t @ journal_commits app p t" if "map_of (dt_tables dt) t = Some m" for m
    using snap(1) n(1) that by simp
qed

text \<open>The snapshots after a commit: the committed tables at their new end, the others as they were.\<close>

lemma advance_snapshots:
  assumes "\<forall>c\<in>set cs. tc_version c = length (w_logs w (tc_table c)) \<and> own app (w_logs w (tc_table c)) = B (tc_table c)"
    "snapshots_at app B dt (- tc_table ` set cs) w"
  shows "snapshots_at app B (advance_tables dt cs) UNIV w"
  unfolding snapshots_at_def
proof (intro ballI allI impI)
  fix t m
  assume m: "map_of (dt_tables (advance_tables dt cs)) t = Some m"
  let ?f = "\<lambda>t n. case find (\<lambda>c. tc_table c = t) cs of Some c \<Rightarrow> tc_version c | None \<Rightarrow> n"
  have "map_of (map (\<lambda>(t, n). (t, ?f t n)) ts) t = map_option (?f t) (map_of ts t)" for ts
    by (induction ts) (auto split: option.splits)
  then obtain n where n: "map_of (dt_tables dt) t = Some n" "m = ?f t n" using m by (auto simp: advance_tables_def)
  show "m \<le> length (w_logs w t) \<and> own app (take m (w_logs w t)) = B t"
  proof (cases "find (\<lambda>c. tc_table c = t) cs")
    case None
    then have "t \<in> - tc_table ` set cs" by (auto simp: find_None_iff)
    then show ?thesis using assms(2) n None unfolding snapshots_at_def by auto
  next
    case (Some c)
    then have "c \<in> set cs" "tc_table c = t" by (auto simp: find_Some_iff)
    then show ?thesis using assms(1) n Some by auto
  qed
qed

lemma exact_partial: "logs_exact app B w \<Longrightarrow> logs_partial app B C w"
  by (simp add: logs_exact_def logs_partial_def table_partial_def)

lemma delta_roll_forward_outcome:
  fixes dt
  defines "app \<equiv> app_id (dt_identity dt)"
  assumes laws: "delta_laws e app" and dist: "distinct (map pp_table (pt_parts p))"
    and tp: "logs_partial app B (journal_commits app p) w" and snap: "snapshots_at app B dt (set tables) w"
  shows "\<exists>out w'. delta_roll_forward e dt p tables concurrency w = (Inr out, w') \<and>
     only_logs (set tables) w w' \<and> logs_partial app B (journal_commits app p) w' \<and>
     (\<forall>cs. out = Inr cs \<longrightarrow> (\<forall>t\<in>set tables \<inter> pp_table ` set (pt_parts p).
        own app (w_logs w' t) = B t @ journal_commits app p t \<and> w_inflight w' t = []) \<and>
        tc_table ` set cs = set tables \<inter> pp_table ` set (pt_parts p) \<and>
        (\<forall>c\<in>set cs. tc_version c = length (w_logs w' (tc_table c))))"
proof (cases "adds (e_ext e) dt p")
  case (Inl err)
  then show ?thesis
    using tp unfolding delta_roll_forward_def Inl bindC_fail [OF liftC_ok(2)] by auto
next
  case (Inr all)
  let ?parts = "filter (\<lambda>a. pa_table a \<in> set tables) all"
  have "snapshots_at app B dt (pa_table ` set ?parts) w" using snap by (auto simp: snapshots_at_def)
  from commit_transaction_outcome [OF laws [unfolded app_def] Inr dist _ tp [unfolded app_def] this [unfolded app_def],
      of concurrency True, folded app_def]
  obtain out w' where run: "commit_transaction e dt p ?parts concurrency True w = (Inr out, w')"
    and r: "only_logs (pa_table ` set ?parts) w w'" "logs_partial app B (journal_commits app p) w'"
      "case out of
        Inl f \<Rightarrow> \<not> cf_unresolved f \<longrightarrow> quiet (pa_table ` set ?parts) w w'
      | Inr cs \<Rightarrow> (\<forall>t\<in>pa_table ` set ?parts. own app (w_logs w' t) = B t @ journal_commits app p t \<and> w_inflight w' t = []) \<and>
          tc_table ` set cs = pa_table ` set ?parts \<and> (\<forall>c\<in>set cs. tc_version c = length (w_logs w' (tc_table c)))"
    by auto
  have "delta_roll_forward e dt p tables concurrency w = (Inr out, w')"
    unfolding delta_roll_forward_def Inr using run by (simp add: bindC_ok [OF liftC_ok(1)])
  moreover have "only_logs (set tables) w w'"
    by (rule only_logs_trans [OF r(1) only_logs_refl, of "{}"]) auto
  moreover have "set (map pa_table all) = pp_table ` set (pt_parts p)" using adds_journal(1) [OF Inr] by simp
  moreover have "pa_table ` set ?parts = set tables \<inter> set (map pa_table all)" by auto
  ultimately show ?thesis using r by (cases out) simp_all
qed

section \<open>Success\<close>

text \<open>A library and storage that accept a commit nobody else of the application conflicts with.\<close>

definition delta_lands :: "env \<Rightarrow> string \<Rightarrow> bool" where
  "delta_lands e app \<longleftrightarrow> (\<forall>k t li n c. own_commit app c \<and> n \<le> length (fst li) \<and> own app (drop n (fst li)) = [] \<longrightarrow>
     fst (e_delta e k t li n c) = Landed)"

lemma healthy_observe: "healthy e \<Longrightarrow> observe e msg f w = (Inr (f w), w\<lparr> w_clock := Suc (w_clock w) \<rparr>)"
  by (simp add: observe_def healthy_def)

lemma definite_ok: "m w = (Inr a, v) \<Longrightarrow> definite m w = (Inr (Inr a), v)"
  by (simp add: definite_def tryIO_def bindIO_def returnIO_def)

lemma bindIO_eq: "m w = (Inr a, v) \<Longrightarrow> bindIO m f w = f a v"
  by (simp add: bindIO_def)

definition entry_new :: "commit_context \<Rightarrow> (string \<Rightarrow> log_commit list) \<Rightarrow> world \<Rightarrow> nat \<times> part_add \<Rightarrow> bool" where
  "entry_new ctx B w na \<longleftrightarrow> own (cc_app_id ctx) (w_logs w (entry_table na)) = B (entry_table na)"

lemma commit_table_lands:
  assumes "healthy e" "delta_lands e (cc_app_id ctx)" "entry_ok ctx B w (n, add)" "entry_new ctx B w (n, add)"
  shows "\<exists>c w'. commit_table e ctx (n, add) w = (Inr (Inr c), w')"
proof -
  let ?t = "pa_table add" and ?c = "commit_of_add ctx add"
  have n: "n \<le> length (w_logs w ?t)" "own (cc_app_id ctx) (drop n (w_logs w ?t)) = []"
    using assms(3,4) own_take_drop [of "cc_app_id ctx" "w_logs w ?t" n]
    by (simp_all add: entry_ok_def entry_new_def Let_def)
  obtain reply li where d: "e_delta e (w_clock w) ?t (table_at w ?t) n ?c = (reply, li)" by (rule prod.exhaust)
  have "reply = Landed" using assms(2) n d own_commit_of_add unfolding delta_lands_def by (metis fst_conv)
  then obtain v where s: "submit e ?t n ?c w = (Inr (Landed, length (fst li)), v)"
    using d by (simp add: submit_def)
  have "definite (bindIO (sync e ''syncing the Delta commit'') (\<lambda>_. returnIO (length (fst li), False))) v =
      (Inr (Inr (length (fst li), False)), v\<lparr> w_clock := Suc (w_clock v) \<rparr>)"
    by (rule definite_ok) (simp add: bindIO_def sync_def healthy_observe [OF assms(1)] returnIO_def)
  then have sa: "submit_add e ctx n add w = (Inr (Inr (length (fst li), False)), v\<lparr> w_clock := Suc (w_clock v) \<rparr>)"
    unfolding submit_add_def bindIO_eq [where m = "submit e ?t n ?c", OF s] by simp
  have "definite (crash_point e) u = (Inr (Inr ()), u\<lparr> w_clock := Suc (w_clock u) \<rparr>)" for u
    by (rule definite_ok) (simp add: crash_point_def healthy_observe [OF assms(1)])
  then show ?thesis
    unfolding commit_table_def fst_conv snd_conv bindC_ok [where m = "submit_add e ctx n add", OF sa] prod.case
    by (simp add: bindC_def bindIO_def returnIO_def)
qed

lemma run_bounded_lands:
  assumes "delta_laws e (cc_app_id ctx)" "healthy e" "delta_lands e (cc_app_id ctx)" "1 \<le> limit"
    "group_ok ctx B w (queue @ running)" "\<forall>na\<in>set queue \<union> set running. entry_new ctx B w na" "failure = None"
  shows "\<exists>cs w'. run_bounded e ctx limit queue running committed failure w = (Inr (Inr cs), w')"
  using assms
proof (induction e ctx limit queue running committed failure w rule: run_bounded.induct)
  case (1 e ctx limit queue running committed failure w)
  define queue' where "queue' = fst (start_more limit failure queue running)"
  define running' where "running' = snd (start_more limit failure queue running)"
  show ?case
  proof (cases "running' = []")
    case True
    then show ?thesis unfolding running'_def by (subst run_bounded.simps) (simp add: "1.prems"(7))
  next
    case False
    define i where "i = e_schedule e (w_clock w) mod length running'"
    define rest where "rest = take i running' @ drop (Suc i) running'"
    define w1 where "w1 = w\<lparr> w_clock := Suc (w_clock w) \<rparr>"
    obtain n add where na: "running' ! i = (n, add)" by fastforce
    note pick = pick_entry [OF queue'_def running'_def False i_def rest_def, unfolded na]
    have ok: "group_ok ctx B w1 ((n, add) # queue' @ rest)"
      using pick(1) [OF "1.prems"(5)] by (simp add: w1_def)
    note T = pick(2) [OF "1.prems"(5)]
    have new: "entry_new ctx B w1 na" if "na \<in> insert (n, add) (set (queue' @ rest))" for na
      using bspec [OF "1.prems"(6) [unfolded T] that] by (simp add: w1_def entry_new_def)
    have eo: "entry_ok ctx B w1 (n, add)" using ok by (simp add: group_ok_def)
    obtain c v where run: "commit_table e ctx (n, add) w1 = (Inr (Inr c), v)"
      using commit_table_lands [OF "1.prems"(2,3) eo new] by blast
    have lo: "only_logs {pa_table add} w1 v"
      using tripleD(1) [OF commit_table_triple [OF "1.prems"(1) eo] refl run] by (simp add: done_part_def)
    have ok': "group_ok ctx B v (queue' @ rest)" using group_ok_rest [OF ok] lo by simp
    have new': "\<forall>na\<in>set queue' \<union> set rest. entry_new ctx B v na"
    proof
      fix na
      assume na: "na \<in> set queue' \<union> set rest"
      then have "pa_table add \<noteq> entry_table na" using ok by (force simp: group_ok_def)
      then have "w_logs v (entry_table na) = w_logs w1 (entry_table na)" using lo by (simp add: only_logs_def)
      then show "entry_new ctx B v na" using new [of na] na by (simp add: entry_new_def)
    qed
    have r: "(Inr (Inr c), v) = commit_table e ctx (running' ! i) (w\<lparr> w_clock := Suc (w_clock w) \<rparr>)"
      using run by (simp add: na w1_def)
    note IH = "1.IH"(2) [OF queue'_def running'_def False i_def rest_def r refl refl "1.prems"(1-4) ok' new' "1.prems"(7)]
    have "run_bounded e ctx limit queue running committed failure w =
        run_bounded e ctx limit queue' rest (committed @ [c]) failure v"
      by (subst run_bounded.simps)
        (simp add: False run Let_def queue'_def [symmetric] running'_def [symmetric] i_def [symmetric]
          rest_def [symmetric] w1_def [symmetric] na)
    then show ?thesis using IH by simp
  qed
qed

lemma commit_group_lands:
  assumes "delta_laws e (cc_app_id ctx)" "healthy e" "delta_lands e (cc_app_id ctx)" "1 \<le> limit"
    "distinct (map pa_table as)" "adds_ok ctx B dt w (set as)"
    "\<forall>add\<in>set as. map_of (dt_tables dt) (pa_table add) \<noteq> None \<and>
       own (cc_app_id ctx) (w_logs w (pa_table add)) = B (pa_table add)"
  shows "\<exists>cs w'. commit_group e ctx dt limit as w = (Inr (Inr cs), w')"
proof -
  let ?f = "\<lambda>add. bindR (some_or (map_of (dt_tables dt) (pa_table add)) ''not a Delta table of this dataset'') (\<lambda>n. Inr (n, add))"
  let ?queue = "map (\<lambda>add. (the (map_of (dt_tables dt) (pa_table add)), add)) as"
  have q: "mapR ?f as = Inr ?queue" by (rule mapR_total) (use assms(7) in auto)
  have "group_ok ctx B w (?queue @ [])"
    using assms(5-7) by (fastforce simp: group_ok_def entry_ok_def adds_ok_def Let_def comp_def)
  moreover have "\<forall>na\<in>set ?queue \<union> set []. entry_new ctx B w na" using assms(7) by (simp add: entry_new_def)
  ultimately obtain cs w' where "run_bounded e ctx limit ?queue [] [] None w = (Inr (Inr cs), w')"
    using run_bounded_lands [OF assms(1-4), of B w ?queue "[]" None "[]"] by blast
  then show ?thesis using q by (simp add: commit_group_def bindC_def liftC_def bindIO_def returnIO_def)
qed

lemma commit_parts_with_lands:
  fixes dt version metadata resolve
  defines "ctx \<equiv> parts_context dt version metadata resolve"
  assumes laws: "delta_laws e (app_id (dt_identity dt))" and h: "healthy e" and l: "delta_lands e (app_id (dt_identity dt))"
    and dist: "distinct (map pa_table parts)" and ok: "adds_ok ctx B dt w (set parts)"
    and new: "\<forall>add\<in>set parts. map_of (dt_tables dt) (pa_table add) \<noteq> None \<and>
       own (app_id (dt_identity dt)) (w_logs w (pa_table add)) = B (pa_table add)"
  shows "\<exists>cs w'. commit_parts_with e dt parts version metadata concurrency resolve w = (Inr (Inr cs), w')"
proof -
  let ?others = "filter (\<lambda>a. pa_table a \<noteq> LAST_TABLE) parts" and ?last = "filter (\<lambda>a. pa_table a = LAST_TABLE) parts"
  have app: "cc_app_id ctx = app_id (dt_identity dt)" by (simp add: ctx_def)
  have ok1: "adds_ok ctx B dt w (set ?others)" and ok2: "adds_ok ctx B dt w (set ?last)" 
    using adds_ok_mono [OF ok] by (auto simp del: set_filter intro!: filter_is_subset)
  have one: "1 \<le> max concurrency 1" by simp
  obtain cs1 v where r1: "commit_group e ctx dt (max concurrency 1) ?others w = (Inr (Inr cs1), v)"
    using commit_group_lands [of e ctx "max concurrency 1" ?others B dt w] laws h l ok1 new distinct_map_filter [OF dist] one
    unfolding app by auto
  obtain out1 v' where "commit_group e ctx dt (max concurrency 1) ?others w = (Inr out1, v')" "adds_outcome ctx B w (set ?others) out1 v'"
    using commit_group_outcome [of e ctx, OF _ one distinct_map_filter [OF dist] ok1] laws unfolding app by blast
  with r1 have lo: "only_logs (pa_table ` set ?others) w v" by (simp add: adds_outcome_def)
  have same: "table_at v LAST_TABLE = table_at w LAST_TABLE" by (rule only_logs_table [OF lo]) auto
  have "adds_ok ctx B dt v (set ?last)" by (rule adds_ok_frame [OF ok2 lo]) auto
  moreover have "\<forall>add\<in>set ?last. map_of (dt_tables dt) (pa_table add) \<noteq> None \<and>
      own (cc_app_id ctx) (w_logs v (pa_table add)) = B (pa_table add)"
    using new same unfolding app by auto
  ultimately obtain cs2 w' where r2: "commit_group e ctx dt 1 ?last v = (Inr (Inr cs2), w')"
    using commit_group_lands [of e ctx 1 ?last B dt v] laws h l distinct_map_filter [OF dist]
    unfolding app by auto
  have "commit_parts_with e dt parts version metadata concurrency resolve w =
      bindC (commit_group e ctx dt (max concurrency 1) ?others) (\<lambda>others.
      bindC (commit_group e ctx dt 1 ?last) (\<lambda>last_one. returnIO (Inr (others @ last_one)))) w"
    using dist unfolding commit_parts_with_def ctx_def by (simp add: require_def bindC_ok [OF liftC_ok(1)] Let_def)
  also have "\<dots> = (Inr (Inr (cs1 @ cs2)), w')"
    using r1 r2 by (simp add: bindC_def bindIO_def returnIO_def)
  finally show ?thesis by blast
qed

section \<open>Whole commits\<close>

lemma delta_commit_outcome:
  assumes "delta_laws e app" "app = app_id (dt_identity dt)" "distinct (map pp_table (pt_parts p))"
    "logs_exact app B w" "snapshots_at app B dt UNIV w" "delta_commit e dt p concurrency w = (r, w')"
  shows "\<exists>out. r = Inr out \<and> only_logs (pp_table ` set (pt_parts p)) w w' \<and>
     (\<forall>t. own app (w_logs w' t) = B t \<and> set (w_inflight w' t) \<subseteq> set (journal_commits app p t) \<or>
        own app (w_logs w' t) = B t @ journal_commits app p t \<and> w_inflight w' t = []) \<and>
     (table_at w' LAST_TABLE = table_at w LAST_TABLE \<or>
        (\<forall>t. t \<noteq> LAST_TABLE \<longrightarrow> own app (w_logs w' t) = B t @ journal_commits app p t)) \<and>
     (case out of
        Inr cs \<Rightarrow> logs_exact app (\<lambda>t. B t @ journal_commits app p t) w' \<and> tc_table ` set cs = pp_table ` set (pt_parts p) \<and>
          (\<forall>c\<in>set cs. tc_version c = length (w_logs w' (tc_table c)))
      | Inl f \<Rightarrow> \<not> cf_unresolved f \<longrightarrow> (\<forall>t. w_inflight w' t = []))"
proof (cases "adds (e_ext e) dt p")
  case (Inl err)
  then have "r = Inr (Inl (early_failure err))" "w' = w"
    using assms(6) unfolding delta_commit_def Inl bindC_fail [OF liftC_ok(2)] by simp_all
  then show ?thesis using assms(4) by (simp add: logs_exact_def)
next
  case (Inr all)
  have run: "commit_transaction e dt p all concurrency False w = (r, w')"
    using assms(6) unfolding delta_commit_def Inr by (simp add: bindC_ok [OF liftC_ok(1)])
  have tables: "pa_table ` set all = pp_table ` set (pt_parts p)" using adds_journal(1) [OF Inr] by (metis set_map)
  have "snapshots_at app B dt (pa_table ` set all) w" using assms(5) by (simp add: snapshots_at_def)
  note at = assms(1) exact_partial [OF assms(4), of "journal_commits app p"] this
  from commit_transaction_outcome [OF at(1) [unfolded assms(2)] Inr assms(3) _ at(2) [unfolded assms(2)]
      at(3) [unfolded assms(2)], of concurrency False, folded assms(2), unfolded tables run]
  obtain out where r: "r = Inr out" "only_logs (pp_table ` set (pt_parts p)) w w'"
      "logs_partial app B (journal_commits app p) w'"
      "table_at w' LAST_TABLE = table_at w LAST_TABLE \<or>
       (\<forall>t\<in>pp_table ` set (pt_parts p). t \<noteq> LAST_TABLE \<longrightarrow> own app (w_logs w' t) = B t @ journal_commits app p t)"
      "case out of
        Inl f \<Rightarrow> \<not> cf_unresolved f \<longrightarrow> quiet (pp_table ` set (pt_parts p)) w w'
      | Inr cs \<Rightarrow> (\<forall>t\<in>pp_table ` set (pt_parts p). own app (w_logs w' t) = B t @ journal_commits app p t \<and> w_inflight w' t = []) \<and>
          tc_table ` set cs = pp_table ` set (pt_parts p) \<and> (\<forall>c\<in>set cs. tc_version c = length (w_logs w' (tc_table c)))"
    by auto
  have other: "own app (w_logs w' t) = B t \<and> w_inflight w' t = [] \<and> journal_commits app p t = []"
    if "t \<notin> pp_table ` set (pt_parts p)" for t
    using only_logs_table [OF r(2) that] assms(4) journal_commits_other [OF that] by (simp add: logs_exact_def)
  have last: "table_at w' LAST_TABLE = table_at w LAST_TABLE \<or>
      (\<forall>t. t \<noteq> LAST_TABLE \<longrightarrow> own app (w_logs w' t) = B t @ journal_commits app p t)"
    using r(4) other by (metis append_Nil2)
  show ?thesis
  proof (cases out)
    case (Inl f)
    have "w_inflight w' t = []" if "\<not> cf_unresolved f" for t
    proof (cases "t \<in> pp_table ` set (pt_parts p)")
      case True
      have "quiet (pp_table ` set (pt_parts p)) w w'" using r(5) Inl that by simp
      with True have "set (w_inflight w' t) \<subseteq> set (w_inflight w t)" unfolding quiet_def by (rule bspec [rotated])
      then show ?thesis using assms(4) by (simp add: logs_exact_def)
    qed (use other in blast)
    then show ?thesis using r(1-3) last Inl by (simp add: logs_partial_def table_partial_def)
  next
    case (Inr cs)
    have "own app (w_logs w' t) = B t @ journal_commits app p t \<and> w_inflight w' t = []" for t
      using other [of t] r(5) Inr by (cases "t \<in> pp_table ` set (pt_parts p)") auto
    then show ?thesis using r last Inr by (simp add: logs_exact_def logs_partial_def table_partial_def)
  qed
qed

lemma delta_commit_lands:
  assumes "delta_laws e app" "delta_lands e app" "healthy e" "app = app_id (dt_identity dt)"
    "distinct (map pp_table (pt_parts p))" "logs_exact app B w" "snapshots_at app B dt UNIV w"
    "adds (e_ext e) dt p = Inr parts" "ap_last_ordinal (pt_prefix p) \<le> i64_max"
  shows "\<exists>cs w'. delta_commit e dt p concurrency w = (Inr (Inr cs), w')"
proof -
  let ?v = "int (ap_last_ordinal (pt_prefix p))"
  let ?m = "[(''fireparq.transaction'', JStr (digest_str (pt_id p))),
        (''fireparq.firstOrdinal'', JNum (int (ap_first_ordinal (pt_prefix p)))),
        (''fireparq.lastOrdinal'', JNum (int (ap_last_ordinal (pt_prefix p))))]"
  have v: "txn_version_of (ap_last_ordinal (pt_prefix p)) = Inr ?v" using assms(9) by (simp add: txn_version_of_def)
  have "delta_commit e dt p concurrency w = commit_parts_with e dt parts ?v ?m concurrency False w"
    unfolding delta_commit_def commit_transaction_def assms(8) v by (simp add: bindC_ok [OF liftC_ok(1)])
  moreover have "snapshots_at app B dt (pa_table ` set parts) w" using assms(7) by (simp add: snapshots_at_def)
  note at = exact_partial [OF assms(6), of "journal_commits app p"] this
  have "adds_ok (txn_context dt p False) B dt w (set parts)"
    by (rule adds_ok_journal [OF assms(8,5) order_refl at(1) [unfolded assms(4)] at(2) [unfolded assms(4)]])
  moreover have "distinct (map pa_table parts)" using adds_journal(1) [OF assms(8)] assms(5) by simp
  moreover have "map_of (dt_tables dt) (pa_table add) \<noteq> None" if "add \<in> set parts" for add
  proof -
    have "list_all2 (\<lambda>q add. add_of (e_ext e) dt p q = Inr add) (pt_parts p) parts"
      using assms(8) by (simp add: adds_def bindR_eq_Inr mapR_ok)
    from list_all2_in_right [OF this that] obtain q where "add_of (e_ext e) dt p q = Inr add" by blast
    then show ?thesis by (auto simp: add_of_def part_add_new_def bindR_eq_Inr)
  qed
  moreover have "own (app_id (dt_identity dt)) (w_logs w t) = B t" for t using assms(4,6) by (simp add: logs_exact_def)
  ultimately show ?thesis
    using commit_parts_with_lands [of e dt parts ?v ?m False B w concurrency] assms(1-4) by simp
qed

section \<open>Properties\<close>

text \<open>
  C4. Committing a transaction to the Delta logs leaves every table with the
  commits it had, or with those and exactly the one commit the journal prescribes, whatever the
  storage and the library answer. When it succeeds, every table has it and nothing is outstanding.
  When it fails without reporting an unresolved outcome, nothing is outstanding either. Nothing but
  the logs of the transaction's tables changes.
\<close>

theorem delta_commit_exactly_once:
  assumes "delta_laws e app" "app = app_id (dt_identity dt)" "distinct (map pp_table (pt_parts p))"
    "logs_exact app B w" "snapshots_at app B dt UNIV w" "delta_commit e dt p concurrency w = (r, w')"
  shows "\<exists>out. r = Inr out \<and> only_logs (pp_table ` set (pt_parts p)) w w' \<and>
     (\<forall>t. own app (w_logs w' t) = B t \<and> set (w_inflight w' t) \<subseteq> set (journal_commits app p t) \<or>
        own app (w_logs w' t) = B t @ journal_commits app p t \<and> w_inflight w' t = []) \<and>
     (case out of
        Inr cs \<Rightarrow> logs_exact app (\<lambda>t. B t @ journal_commits app p t) w' \<and> tc_table ` set cs = pp_table ` set (pt_parts p)
      | Inl f \<Rightarrow> \<not> cf_unresolved f \<longrightarrow> (\<forall>t. w_inflight w' t = []))"
  using delta_commit_outcome [OF assms] by (fastforce split: sum.splits)

text \<open>A transaction with a part in two tables, opened at freshly created tables.\<close>

lemma sample_same_app:
  assumes "own_commit app c"
  shows "list_ex (\<lambda>d. case (lc_txn c, lc_txn d) of (Some (a, _), Some (b, _)) \<Rightarrow> a = b | _ \<Rightarrow> False) l \<longleftrightarrow> own app l \<noteq> []"
  using assms by (induction l) (auto simp: own_commit_def split: option.splits)

lemma sample_delta_laws: "delta_laws sample_env app"
proof -
  have "submit_law app (log, inflight) n c (e_delta sample_env k t (log, inflight) n c)"
    if "own_commit app c" "n \<le> length log" "length (own app (drop n log)) \<le> 1" for log inflight n c k t
    using that sample_same_app [OF that(1), of "drop n log"]
    by (auto simp: submit_law_def sample_env_def)
  then show ?thesis by (simp add: delta_laws_def arrive_law_def sample_env_def)
qed

definition sample_identity :: delta_identity where
  "sample_identity = \<lparr> di_descriptor = ''d'', di_chain = ''eth'', di_block_type = ''evm'' \<rparr>"

definition sample_txn_part :: "string \<Rightarrow> nat \<Rightarrow> planned_part" where
  "sample_txn_part t i = \<lparr> pp_table = t, pp_final = t @ ''/date=2024-01-01/p'', pp_temporary = t @ ''/date=2024-01-01/t'',
     pp_schema_sha256 = sample_digest (CHR ''1''), pp_entry_index = i, pp_row_count = 3, pp_receipt = Some sample_receipt \<rparr>"

definition sample_txn :: pending_transaction where
  "sample_txn = sample_pending\<lparr> pt_phase := Committed, pt_prefix := sample_prefix,
     pt_tables := map (\<lambda>t. \<lparr> tp_table = t, tp_rows = 3, tp_schema_sha256 = sample_digest (CHR ''1''),
       tp_partition = ''date=2024-01-01'' \<rparr>) [''blocks'', ''logs''],
     pt_parts := [sample_txn_part ''blocks'' 0, sample_txn_part ''logs'' 1] \<rparr>"

definition sample_opened :: delta_tables where
  "sample_opened = \<lparr> dt_identity = sample_identity, dt_tables = [(''blocks'', 1), (''logs'', 1)] \<rparr>"

definition sample_delta_world :: world where
  "sample_delta_world = empty_world\<lparr> w_logs := (\<lambda>_. [creation_commit sample_identity []]) \<rparr>"

lemma sample_delta_exact: "logs_exact app (\<lambda>_. []) sample_delta_world" "snapshots_at app (\<lambda>_. []) sample_opened UNIV sample_delta_world"
  by (auto simp: logs_exact_def snapshots_at_def sample_delta_world_def empty_world_def own_commit_def
      creation_commit_def sample_opened_def split: if_splits)

lemma sample_txn_distinct: "distinct (map pp_table (pt_parts sample_txn))"
  by (simp add: sample_txn_def sample_txn_part_def)

theorem delta_commit_exactly_once_witness:
  "\<exists>out w'. delta_commit sample_env sample_opened sample_txn 2 sample_delta_world = (Inr out, w') \<and>
     own (app_id sample_identity) (w_logs w' ''logs'') \<in> {[], journal_commits (app_id sample_identity) sample_txn ''logs''} \<and>
     w_files w' = w_files sample_delta_world"
proof -
  obtain r w' where run: "delta_commit sample_env sample_opened sample_txn 2 sample_delta_world = (r, w')" by fastforce
  have "app_id sample_identity = app_id (dt_identity sample_opened)" by (simp add: sample_opened_def)
  from delta_commit_exactly_once [OF sample_delta_laws this sample_txn_distinct sample_delta_exact run]
  obtain out where "r = Inr out" "only_logs (pp_table ` set (pt_parts sample_txn)) sample_delta_world w'"
    "\<forall>t. own (app_id sample_identity) (w_logs w' t) = [] \<and>
        set (w_inflight w' t) \<subseteq> set (journal_commits (app_id sample_identity) sample_txn t) \<or>
      own (app_id sample_identity) (w_logs w' t) = [] @ journal_commits (app_id sample_identity) sample_txn t \<and> w_inflight w' t = []"
    by auto
  then show ?thesis using run by (auto simp: only_logs_def)
qed

text \<open>
  C7. The commit of table \<open>blocks\<close> is submitted only when every other table of
  the transaction has its commit: if the log of \<open>blocks\<close>, or what may still arrive there, changed at
  all, then the logs of all other tables have the transaction. A reader that sees a block in \<open>blocks\<close>
  finds its rows in every table.
\<close>

theorem blocks_committed_last:
  assumes "delta_laws e app" "app = app_id (dt_identity dt)" "distinct (map pp_table (pt_parts p))"
    "logs_exact app B w" "snapshots_at app B dt UNIV w" "delta_commit e dt p concurrency w = (r, w')"
    "(w_logs w' ''blocks'', w_inflight w' ''blocks'') \<noteq> (w_logs w ''blocks'', w_inflight w ''blocks'')" "t \<noteq> ''blocks''"
  shows "own app (w_logs w' t) = B t @ journal_commits app p t"
  using delta_commit_outcome [OF assms(1-6)] assms(7,8) unfolding LAST_TABLE_def by blast

lemma sample_delta_lands: "delta_lands sample_env app"
  unfolding delta_lands_def
proof (intro allI impI, elim conjE)
  fix k t n c and li :: "delta_log \<times> log_commit list"
  assume "own_commit app c" "own app (drop n (fst li)) = []"
  then show "fst (e_delta sample_env k t li n c) = Landed"
    using sample_same_app [of app c "drop n (fst li)"] by (simp add: sample_env_def case_prod_beta)
qed

lemma sample_stats: "check_stats sample_ext (pr_stats sample_receipt) 3 = Inr ()"
  by (simp add: check_stats_def sample_receipt_def sample_ext_def as_object_def as_u64_def u64_max_def)

lemma sample_adds: "is_ok (adds sample_ext sample_opened sample_txn)"
  by (simp add: adds_def add_of_def part_add_new_def sample_txn_def sample_txn_part_def sample_opened_def
      sample_stats PARTITION_COLUMN_def DATE_KEY_def i64_max_def) (simp add: sample_receipt_def)

lemma sample_journal: "journal_commits app sample_txn ''blocks'' \<noteq> []"
  by (simp add: journal_commits_def journal_commit_def sample_txn_def sample_txn_part_def)

lemma sample_delta_run:
  obtains cs w' where "delta_commit sample_env sample_opened sample_txn 2 sample_delta_world = (Inr (Inr cs), w')"
    "logs_exact (app_id sample_identity) (journal_commits (app_id sample_identity) sample_txn) w'"
proof -
  obtain parts where "adds sample_ext sample_opened sample_txn = Inr parts" using sample_adds by (auto simp: is_ok_iff)
  moreover have app: "app_id sample_identity = app_id (dt_identity sample_opened)" by (simp add: sample_opened_def)
  moreover have "ap_last_ordinal (pt_prefix sample_txn) \<le> i64_max"
    by (simp add: sample_txn_def sample_prefix_def i64_max_def)
  ultimately obtain cs w' where run: "delta_commit sample_env sample_opened sample_txn 2 sample_delta_world = (Inr (Inr cs), w')"
    using delta_commit_lands [OF sample_delta_laws sample_delta_lands sample_env_healthy app sample_txn_distinct
        sample_delta_exact, of parts 2] by auto
  from delta_commit_outcome [OF sample_delta_laws app sample_txn_distinct sample_delta_exact run] run that show ?thesis by simp
qed

theorem blocks_committed_last_witness:
  "\<exists>w'. snd (delta_commit sample_env sample_opened sample_txn 2 sample_delta_world) = w' \<and>
     own (app_id sample_identity) (w_logs w' ''blocks'') \<noteq> [] \<and>
     own (app_id sample_identity) (w_logs w' ''logs'') = journal_commits (app_id sample_identity) sample_txn ''logs''"
proof -
  obtain cs w' where run: "delta_commit sample_env sample_opened sample_txn 2 sample_delta_world = (Inr (Inr cs), w')"
    and ex: "logs_exact (app_id sample_identity) (journal_commits (app_id sample_identity) sample_txn) w'"
    by (rule sample_delta_run)
  have b: "own (app_id sample_identity) (w_logs w' ''blocks'') \<noteq> []" using ex sample_journal by (simp add: logs_exact_def)
  have "own (app_id sample_identity) (w_logs sample_delta_world ''blocks'') = []"
    using sample_delta_exact(1) by (simp add: logs_exact_def)
  with b have "(w_logs w' ''blocks'', w_inflight w' ''blocks'') \<noteq>
      (w_logs sample_delta_world ''blocks'', w_inflight sample_delta_world ''blocks'')" by auto
  moreover have "app_id sample_identity = app_id (dt_identity sample_opened)" by (simp add: sample_opened_def)
  ultimately have "own (app_id sample_identity) (w_logs w' ''logs'') = [] @ journal_commits (app_id sample_identity) sample_txn ''logs''"
    by (intro blocks_committed_last [OF sample_delta_laws _ sample_txn_distinct sample_delta_exact run]) simp_all
  with b run show ?thesis by simp
qed




text \<open>A log that holds a later transaction of the stream than an empty authority.\<close>

definition sample_ahead :: world where
  "sample_ahead = sample_delta_world\<lparr> w_logs := (\<lambda>_. [creation_commit sample_identity [],
     \<lparr> lc_txn = Some (app_id sample_identity, 7), lc_adds = [], lc_info = [], lc_meta = None \<rparr>]) \<rparr>"


lemma created_validates:
  assumes "list_all (\<lambda>c. lc_meta c = None) rest"
  shows "delta_validate (creation_commit i columns # rest) (Some columns') (configuration i') = Inr () \<longleftrightarrow>
     columns' = columns \<and> i' = i"
proof -
  let ?m = "the (lc_meta (creation_commit i columns))"
  have "List.map_filter lc_meta (rev rest) = []"
    using assms by (auto simp: List.map_filter_def filter_empty_conv list_all_iff)
  then have "snapshot_meta (creation_commit i columns # rest) = Some ?m"
    by (simp add: snapshot_meta_def creation_commit_def List.map_filter_def)
  moreover have "map_of (tm_configuration ?m) DESCRIPTOR_PROPERTY = Some (di_descriptor i)"
    "map_of (configuration i') DESCRIPTOR_PROPERTY = Some (di_descriptor i')"
    by (simp_all add: creation_commit_def configuration_def identity_properties_def table_properties_def DESCRIPTOR_PROPERTY_def)
  moreover have "same_map (tm_configuration ?m) (configuration i') \<longleftrightarrow> i' = i"
    by (cases i; cases i')
      (auto simp: same_map_def creation_commit_def configuration_def identity_properties_def table_properties_def DESCRIPTOR_PROPERTY_def)
  ultimately show ?thesis
    by (auto simp: delta_validate_def bindR_eq_Inr creation_commit_def)
qed

text \<open>
  C11. A table created for a stream is accepted when it is opened with the same
  stream identity and columns, after any number of commits, and with no other: a directory that
  belongs to another chain, block type or descriptor, or with another schema, is refused.
\<close>

theorem table_identity_exact:
  assumes "list_all (\<lambda>c. lc_meta c = None) rest"
  shows "delta_validate (creation_commit i columns # rest) (Some columns') (configuration i') = Inr () \<longleftrightarrow>
     columns' = columns \<and> i' = i"
  using created_validates [OF assms] .

theorem table_identity_exact_witness:
  "delta_validate [creation_commit sample_identity [''number''], commit_of_add (txn_context sample_opened sample_txn False)
       \<lparr> pa_table = ''blocks'', pa_entry_index = 0, pa_add = \<lparr> aa_path = [], aa_date = [], aa_size = 0,
         aa_modification_time = 0, aa_stats = [] \<rparr> \<rparr>] (Some [''number'']) (configuration sample_identity) = Inr () \<and>
   delta_validate [creation_commit sample_identity [''number'']] (Some [''number''])
     (configuration (sample_identity\<lparr> di_chain := ''bsc'' \<rparr>)) \<noteq> Inr ()"
  using table_identity_exact [of "[commit_of_add (txn_context sample_opened sample_txn False)
       \<lparr> pa_table = ''blocks'', pa_entry_index = 0, pa_add = \<lparr> aa_path = [], aa_date = [], aa_size = 0,
         aa_modification_time = 0, aa_stats = [] \<rparr> \<rparr>]" sample_identity "[''number'']" "[''number'']" sample_identity]
    table_identity_exact [of "[]" sample_identity "[''number'']" "[''number'']" "sample_identity\<lparr> di_chain := ''bsc'' \<rparr>"]
  by (simp add: commit_of_add_def sample_identity_def)

end
