(* ===== verification/Budget.thy ===== *)
theory Budget
  imports Prelude
begin

text \<open>
  Byte-weighted admission of encoded parts (\<open>writer/protected/budget.rs\<close>) and the concurrency
  limits (\<open>config.rs\<close>). A budget is its limit and the counters under the mutex; the reservations
  that are alive hold bytes of it. Every operation runs under the mutex, so an operation is atomic;
  \<open>drop\<close> is explicit. An arithmetic underflow would be a \<open>Panic\<close>.
\<close>

section \<open>Concurrency limits\<close>

record flush_concurrency =
  fc_encoders :: nat
  fc_publications :: nat
  fc_inflight_bytes :: nat

definition concurrency_validate :: "flush_concurrency \<Rightarrow> unit result" where
  "concurrency_validate c =
     require (fc_encoders c > 0 \<and> fc_publications c > 0 \<and> fc_inflight_bytes c > 0)
       ''flush concurrency limits must be positive''"

section \<open>The budget\<close>

definition GROWTH_STEP :: nat where
  "GROWTH_STEP = 1024 * 1024"

record inflight_budget =
  ib_limit :: nat
  ib_used :: nat
  ib_peak :: nat
  ib_exclusive :: bool

record reservation =
  rv_held :: nat
  rv_exclusive :: bool

definition budget_new :: "nat \<Rightarrow> inflight_budget" where
  "budget_new limit = \<lparr> ib_limit = limit, ib_used = 0, ib_peak = 0, ib_exclusive = False \<rparr>"

definition use_bytes :: "inflight_budget \<Rightarrow> nat \<Rightarrow> inflight_budget" where
  "use_bytes b used = b\<lparr> ib_used := used, ib_peak := max (ib_peak b) used \<rparr>"

definition try_reserve :: "inflight_budget \<Rightarrow> nat \<Rightarrow> (inflight_budget \<times> reservation) option" where
  "try_reserve b bytes =
     (if ib_exclusive b then None
      else case checked_add (ib_used b) bytes of
          None \<Rightarrow> None
        | Some next \<Rightarrow>
            if next > ib_limit b then None
            else Some (use_bytes b next, \<lparr> rv_held = bytes, rv_exclusive = False \<rparr>))"

definition try_reserve_exclusive :: "inflight_budget \<Rightarrow> (inflight_budget \<times> reservation) option" where
  "try_reserve_exclusive b =
     (if ib_used b \<noteq> 0 then None
      else Some ((use_bytes b (ib_limit b))\<lparr> ib_exclusive := True \<rparr>,
        \<lparr> rv_held = ib_limit b, rv_exclusive = True \<rparr>))"

definition grow_to ::
  "inflight_budget \<Rightarrow> reservation \<Rightarrow> nat \<Rightarrow> bool \<times> inflight_budget \<times> reservation" where
  "grow_to b r wanted =
     (if wanted \<le> rv_held r then (True, b, r)
      else
        let target = max wanted (saturating_add (rv_held r) GROWTH_STEP);
            extra = target - rv_held r;
            granted = (True, use_bytes b (saturating_add (ib_used b) extra), r\<lparr> rv_held := target \<rparr>)
        in if rv_exclusive r then granted
           else case checked_add (ib_used b) extra of
               None \<Rightarrow> (False, b, r)
             | Some next \<Rightarrow>
                 if next > ib_limit b
                 then let needed = wanted - rv_held r
                      in if saturating_add (ib_used b) needed > ib_limit b then (False, b, r)
                         else (True, use_bytes b (ib_used b + needed), r\<lparr> rv_held := wanted \<rparr>)
                 else granted)"

definition shrink_to ::
  "inflight_budget \<Rightarrow> reservation \<Rightarrow> nat \<Rightarrow> (inflight_budget \<times> reservation) result" where
  "shrink_to b r wanted =
     (if rv_exclusive r \<or> wanted \<ge> rv_held r then Inr (b, r)
      else if ib_used b < rv_held r - wanted then Inl (Panic ''attempt to subtract with overflow'')
      else Inr (b\<lparr> ib_used := ib_used b - (rv_held r - wanted) \<rparr>, r\<lparr> rv_held := wanted \<rparr>))"

definition drop_reservation :: "inflight_budget \<Rightarrow> reservation \<Rightarrow> inflight_budget result" where
  "drop_reservation b r =
     (if ib_used b < rv_held r then Inl (Panic ''attempt to subtract with overflow'')
      else let b' = b\<lparr> ib_used := ib_used b - rv_held r \<rparr>
           in Inr (if rv_exclusive r then b'\<lparr> ib_exclusive := False \<rparr> else b'))"

section \<open>Live reservations\<close>

type_synonym budget_state = "inflight_budget \<times> (nat \<times> reservation) list"

datatype budget_op =
    BReserve nat nat
  | BReserveExclusive nat
  | BGrow nat nat
  | BShrink nat nat
  | BDrop nat

text \<open>Replace or remove the reservation with a given name.\<close>

definition put_live :: "nat \<Rightarrow> reservation \<Rightarrow> (nat \<times> reservation) list \<Rightarrow> (nat \<times> reservation) list" where
  "put_live i r l = map (\<lambda>(j, q). if j = i then (j, r) else (j, q)) l"

definition drop_live :: "nat \<Rightarrow> (nat \<times> reservation) list \<Rightarrow> (nat \<times> reservation) list" where
  "drop_live i l = filter (\<lambda>(j, q). j \<noteq> i) l"

text \<open>
  One operation on a named reservation. A refused reservation or an operation on a name that is not
  alive leaves the state as it is.
\<close>

fun budget_step :: "budget_state \<Rightarrow> budget_op \<Rightarrow> budget_state result" where
  "budget_step (b, l) (BReserve i bytes) =
     (if i \<in> fst ` set l then Inr (b, l)
      else case try_reserve b bytes of None \<Rightarrow> Inr (b, l) | Some (b', r) \<Rightarrow> Inr (b', (i, r) # l))"
| "budget_step (b, l) (BReserveExclusive i) =
     (if i \<in> fst ` set l then Inr (b, l)
      else case try_reserve_exclusive b of None \<Rightarrow> Inr (b, l) | Some (b', r) \<Rightarrow> Inr (b', (i, r) # l))"
| "budget_step (b, l) (BGrow i wanted) =
     (case map_of l i of None \<Rightarrow> Inr (b, l)
      | Some r \<Rightarrow> case grow_to b r wanted of (ok, b', r') \<Rightarrow> Inr (b', put_live i r' l))"
| "budget_step (b, l) (BShrink i wanted) =
     (case map_of l i of None \<Rightarrow> Inr (b, l)
      | Some r \<Rightarrow> bindR (shrink_to b r wanted) (\<lambda>(b', r'). Inr (b', put_live i r' l)))"
| "budget_step (b, l) (BDrop i) =
     (case map_of l i of None \<Rightarrow> Inr (b, l)
      | Some r \<Rightarrow> bindR (drop_reservation b r) (\<lambda>b'. Inr (b', drop_live i l)))"

definition held_bytes :: "(nat \<times> reservation) list \<Rightarrow> nat" where
  "held_bytes l = sum_list (map (\<lambda>(i, r). rv_held r) l)"

text \<open>
  The accounting is exact, at most one reservation is exclusive and then it holds everything, and
  otherwise the bytes in use respect the limit.
\<close>

definition sole_exclusive :: "nat \<Rightarrow> reservation \<Rightarrow> (nat \<times> reservation) list \<Rightarrow> bool" where
  "sole_exclusive i r l \<longleftrightarrow> (i, r) \<in> set l \<and> rv_exclusive r \<and>
     (\<forall>(j, q) \<in> set l. j \<noteq> i \<longrightarrow> \<not> rv_exclusive q \<and> rv_held q = 0)"

definition budget_inv :: "budget_state \<Rightarrow> bool" where
  "budget_inv s \<longleftrightarrow>
     (case s of (b, l) \<Rightarrow>
        distinct (map fst l) \<and> ib_used b = held_bytes l \<and> ib_used b \<le> ib_peak b \<and>
        ib_used b \<le> u64_max \<and> 0 < ib_limit b \<and> ib_limit b \<le> u64_max \<and>
        (if ib_exclusive b
         then ib_limit b \<le> ib_used b \<and> (\<exists>i r. sole_exclusive i r l \<and> rv_held r = ib_used b)
         else ib_used b \<le> ib_limit b \<and> (\<forall>(j, q) \<in> set l. \<not> rv_exclusive q)))"

section \<open>Preservation\<close>

lemma held_bytes_simps [simp]:
  "held_bytes [] = 0" "held_bytes ((i, r) # l) = rv_held r + held_bytes l"
  by (simp_all add: held_bytes_def)

lemma live_split:
  assumes "distinct (map fst l)" "map_of l i = Some r"
  shows "held_bytes l = rv_held r + held_bytes (drop_live i l)"
    "held_bytes (put_live i r' l) = rv_held r' + held_bytes (drop_live i l)"
proof -
  have absent: "i \<notin> fst ` set m \<Longrightarrow> drop_live i m = m \<and> put_live i r' m = m" for m
    by (induction m) (auto simp: drop_live_def put_live_def)
  have "held_bytes l = rv_held r + held_bytes (drop_live i l) \<and>
      held_bytes (put_live i r' l) = rv_held r' + held_bytes (drop_live i l)"
    using assms
  proof (induction l)
    case (Cons a l)
    obtain j q where a: "a = (j, q)" by fastforce
    show ?case
    proof (cases "j = i")
      case True
      with Cons.prems a have "q = r" "i \<notin> fst ` set l" by auto
      with True a absent [of l] show ?thesis by (simp add: drop_live_def put_live_def)
    next
      case False
      with Cons a show ?thesis by (auto simp: drop_live_def put_live_def)
    qed
  qed simp
  then show "held_bytes l = rv_held r + held_bytes (drop_live i l)"
    "held_bytes (put_live i r' l) = rv_held r' + held_bytes (drop_live i l)" by simp_all
qed

lemma fst_put_live [simp]: "map fst (put_live i r l) = map fst l"
  by (induction l) (auto simp: put_live_def)

lemma distinct_drop_live: "distinct (map fst l) \<Longrightarrow> distinct (map fst (drop_live i l))"
  by (induction l) (auto simp: drop_live_def)

lemma set_put_live:
  "(j, q) \<in> set (put_live i r l) \<longleftrightarrow>
     (if j = i then q = r \<and> i \<in> fst ` set l else (j, q) \<in> set l)"
  by (induction l) (auto simp: put_live_def split: if_splits)

lemma put_live_same:
  assumes "distinct (map fst l)" "map_of l i = Some r"
  shows "put_live i r l = l"
  unfolding put_live_def
proof (rule map_idI)
  fix a assume a: "a \<in> set l"
  then have "map_of l (fst a) = Some (snd a)" using assms(1) by simp
  with assms(2) show "(case a of (j, q) \<Rightarrow> if j = i then (j, r) else (j, q)) = a"
    by (auto split: prod.splits)
qed

lemma set_drop_live: "(j, q) \<in> set (drop_live i l) \<longleftrightarrow> j \<noteq> i \<and> (j, q) \<in> set l"
  by (auto simp: drop_live_def)

lemma map_of_member: "distinct (map fst l) \<Longrightarrow> map_of l i = Some r \<longleftrightarrow> (i, r) \<in> set l"
  by (simp add: map_of_eq_Some_iff)

lemma held_le: "(i, r) \<in> set l \<Longrightarrow> rv_held r \<le> held_bytes l"
  by (induction l) auto

lemma budget_inv_shared:
  "\<not> ib_exclusive b \<Longrightarrow> budget_inv (b, l) \<longleftrightarrow>
     distinct (map fst l) \<and> ib_used b = held_bytes l \<and> ib_used b \<le> ib_peak b \<and>
     ib_used b \<le> ib_limit b \<and> 0 < ib_limit b \<and> ib_limit b \<le> u64_max \<and>
     (\<forall>(j, q) \<in> set l. \<not> rv_exclusive q)"
  by (auto simp: budget_inv_def)

lemma budget_inv_exclusive:
  "ib_exclusive b \<Longrightarrow> budget_inv (b, l) \<longleftrightarrow>
     distinct (map fst l) \<and> ib_used b = held_bytes l \<and> ib_used b \<le> ib_peak b \<and>
     ib_used b \<le> u64_max \<and> ib_limit b \<le> ib_used b \<and> 0 < ib_limit b \<and>
     (\<exists>i r. sole_exclusive i r l \<and> rv_held r = ib_used b)"
  by (auto simp: budget_inv_def)

lemma sole_exclusive_put:
  assumes "sole_exclusive k q l" "i \<noteq> k" "\<not> rv_exclusive r" "rv_held r = 0"
  shows "sole_exclusive k q (put_live i r l)"
  using assms by (auto simp: sole_exclusive_def set_put_live split: if_splits)

lemma sole_exclusive_grow:
  assumes "sole_exclusive k q l"
  shows "sole_exclusive k (q\<lparr> rv_held := n \<rparr>) (put_live k (q\<lparr> rv_held := n \<rparr>) l)"
  using assms by (force simp: sole_exclusive_def set_put_live)

lemma sole_exclusive_drop:
  assumes "sole_exclusive k q l" "i \<noteq> k"
  shows "sole_exclusive k q (drop_live i l)"
  using assms by (auto simp: sole_exclusive_def set_drop_live)

lemma reserve_ok:
  assumes inv: "budget_inv (b, l)" and t: "try_reserve b bytes = Some (b', r)" and i: "i \<notin> fst ` set l"
  shows "budget_inv (b', (i, r) # l)"
proof -
  have e: "\<not> ib_exclusive b" and r: "r = \<lparr> rv_held = bytes, rv_exclusive = False \<rparr>"
    "b' = use_bytes b (ib_used b + bytes)" "ib_used b + bytes \<le> ib_limit b"
    using t by (auto simp: try_reserve_def split: if_splits option.splits)
  then have "\<not> ib_exclusive b'" by (simp add: use_bytes_def)
  with inv e r i show ?thesis by (auto simp: budget_inv_shared use_bytes_def)
qed

lemma reserve_exclusive_ok:
  assumes inv: "budget_inv (b, l)" and t: "try_reserve_exclusive b = Some (b', r)"
    and i: "i \<notin> fst ` set l"
  shows "budget_inv (b', (i, r) # l)"
proof -
  have r: "ib_used b = 0" "r = \<lparr> rv_held = ib_limit b, rv_exclusive = True \<rparr>"
    "b' = (use_bytes b (ib_limit b))\<lparr> ib_exclusive := True \<rparr>"
    using t by (auto simp: try_reserve_exclusive_def split: if_splits)
  have e: "\<not> ib_exclusive b" using inv r(1) by (auto simp: budget_inv_def)
  with inv have s: "distinct (map fst l)" "held_bytes l = 0" "0 < ib_limit b" "ib_limit b \<le> u64_max"
    "\<forall>(j, q) \<in> set l. \<not> rv_exclusive q" using r(1) by (auto simp: budget_inv_shared)
  have "\<forall>(j, q) \<in> set l. rv_held q = 0" using held_le s(2) by fastforce
  then have "sole_exclusive i r ((i, r) # l)"
    using r s(5) by (auto simp: sole_exclusive_def)
  with s r i show ?thesis
    by (subst budget_inv_exclusive) (auto simp: use_bytes_def intro!: exI [of _ i])
qed

lemma grow_ok:
  assumes inv: "budget_inv (b, l)" and m: "map_of l i = Some r"
    and g: "grow_to b r wanted = (ok, b', r')" and w: "wanted \<le> u64_max"
  shows "budget_inv (b', put_live i r' l)"
proof (cases "wanted \<le> rv_held r \<or> b' = b \<and> r' = r")
  case True
  then have "b' = b" "r' = r" using g by (auto simp: grow_to_def)
  moreover have "distinct (map fst l)" using inv by (simp add: budget_inv_def)
  ultimately show ?thesis using inv put_live_same [of l i r] m by simp
next
  case False
  have d: "distinct (map fst l)" and mem: "(i, r) \<in> set l"
    using inv m map_of_SomeD by (auto simp: budget_inv_def)
  note sp = live_split [OF d m]
  show ?thesis
  proof (cases "ib_exclusive b")
    case e: False
    with inv have s: "ib_used b = held_bytes l" "ib_used b \<le> ib_peak b" "ib_used b \<le> ib_limit b"
      "0 < ib_limit b" "ib_limit b \<le> u64_max" "\<forall>(j, q) \<in> set l. \<not> rv_exclusive q"
      by (auto simp: budget_inv_shared)
    have ne: "\<not> rv_exclusive r" using s(6) mem by auto
    obtain target where t: "rv_held r \<le> target" "r' = r\<lparr> rv_held := target \<rparr>"
      "b' = use_bytes b (ib_used b + (target - rv_held r))"
      "ib_used b + (target - rv_held r) \<le> ib_limit b"
    proof -
      define tgt where "tgt = max wanted (saturating_add (rv_held r) GROWTH_STEP)"
      have "rv_held r \<le> tgt" using False by (auto simp: tgt_def)
      show ?thesis
      proof (cases "ib_used b + (tgt - rv_held r) \<le> ib_limit b")
        case fits: True
        then have "b' = use_bytes b (ib_used b + (tgt - rv_held r)) \<and> r' = r\<lparr> rv_held := tgt \<rparr>"
          using g False ne s(5)
          by (auto simp: grow_to_def Let_def saturating_add_exact checked_add_def simp flip: tgt_def
              split: if_splits)
        with that [of tgt] fits \<open>rv_held r \<le> tgt\<close> show ?thesis by blast
      next
        case over: False
        then have "b' = use_bytes b (ib_used b + (wanted - rv_held r)) \<and> r' = r\<lparr> rv_held := wanted \<rparr> \<and>
            saturating_add (ib_used b) (wanted - rv_held r) \<le> ib_limit b \<and>
            ib_used b + (tgt - rv_held r) \<le> u64_max"
          using g False ne
          by (auto simp: grow_to_def Let_def checked_add_def simp flip: tgt_def split: if_splits)
        moreover from this have "ib_used b + (wanted - rv_held r) \<le> ib_limit b"
          by (auto simp: saturating_add_def tgt_def)
        ultimately show ?thesis using that [of wanted] False by auto
      qed
    qed
    have "\<not> ib_exclusive b'" using e t by (simp add: use_bytes_def)
    moreover have "\<forall>(j, q) \<in> set (put_live i r' l). \<not> rv_exclusive q"
      using s(6) ne t(2) by (auto simp: set_put_live split: if_splits)
    ultimately show ?thesis
      using d s sp t by (auto simp: budget_inv_shared use_bytes_def)
  next
    case e: True
    then obtain k q where k: "sole_exclusive k q l" "rv_held q = ib_used b"
      and s: "ib_used b = held_bytes l" "ib_used b \<le> ib_peak b" "ib_used b \<le> u64_max"
        "ib_limit b \<le> ib_used b" "0 < ib_limit b"
      using inv by (auto simp: budget_inv_exclusive)
    show ?thesis
    proof (cases "i = k")
      case True
      then have rq: "r = q" "rv_exclusive r"
        using k(1) m d by (auto simp: map_of_member sole_exclusive_def dest: eq_key_imp_eq_value)
      define tgt where "tgt = max wanted (saturating_add (rv_held r) GROWTH_STEP)"
      have t: "rv_held r < tgt" "tgt \<le> u64_max" "ib_used b + (tgt - rv_held r) = tgt"
        using False w rq k(2) by (auto simp: tgt_def saturating_add_def)
      have "b' = use_bytes b (saturating_add (ib_used b) (tgt - rv_held r)) \<and> r' = r\<lparr> rv_held := tgt \<rparr>"
        using g False rq unfolding grow_to_def Let_def tgt_def [symmetric] by simp
      then have b': "b' = use_bytes b tgt" "r' = q\<lparr> rv_held := tgt \<rparr>"
        using t rq by (simp_all add: saturating_add_exact)
      have "held_bytes (put_live i r' l) = tgt" using sp k(2) s(1) rq b'(2) by simp
      with s e t d b' True sole_exclusive_grow [OF k(1), of tgt] show ?thesis
        by (subst budget_inv_exclusive) (auto simp: use_bytes_def intro!: exI [of _ k])
    next
      case other: False
      then have r: "\<not> rv_exclusive r" "rv_held r = 0" using k(1) mem by (auto simp: sole_exclusive_def)
      define tgt where "tgt = max wanted (saturating_add (rv_held r) GROWTH_STEP)"
      have w0: "0 < wanted" "wanted \<le> tgt" using False r by (auto simp: tgt_def)
      have "b' = b \<and> r' = r"
      proof (cases "ib_used b + tgt \<le> u64_max")
        case False
        then show ?thesis
          using g r w0 unfolding grow_to_def Let_def tgt_def [symmetric] by (auto simp: checked_add_def)
      next
        case fits: True
        have "ib_limit b < saturating_add (ib_used b) wanted"
          using w0 s(4) fits by (auto simp: saturating_add_def)
        then show ?thesis
          using g r w0 fits s(4) unfolding grow_to_def Let_def tgt_def [symmetric]
          by (auto simp: checked_add_def split: if_splits)
      qed
      with False show ?thesis by simp
    qed
  qed
qed

lemma shrink_ok:
  assumes inv: "budget_inv (b, l)" and m: "map_of l i = Some r"
  shows "\<exists>b' r'. shrink_to b r wanted = Inr (b', r') \<and> budget_inv (b', put_live i r' l)"
proof (cases "rv_exclusive r \<or> rv_held r \<le> wanted")
  case True
  moreover have "distinct (map fst l)" using inv by (simp add: budget_inv_def)
  ultimately show ?thesis using inv put_live_same [of l i r] m by (simp add: shrink_to_def)
next
  case False
  have d: "distinct (map fst l)" and mem: "(i, r) \<in> set l" and u: "ib_used b = held_bytes l"
    using inv m map_of_SomeD by (auto simp: budget_inv_def)
  note sp = live_split [OF d m]
  have ne: "\<not> ib_exclusive b"
  proof
    assume e: "ib_exclusive b"
    then obtain k q where "sole_exclusive k q l" using inv by (auto simp: budget_inv_exclusive)
    with mem False d show False
      by (cases "i = k") (auto simp: sole_exclusive_def dest: eq_key_imp_eq_value)
  qed
  define b' where "b' = b\<lparr> ib_used := ib_used b - (rv_held r - wanted) \<rparr>"
  have "budget_inv (b', put_live i (r\<lparr> rv_held := wanted \<rparr>) l)"
    using inv ne False d sp u
    by (auto simp: budget_inv_shared b'_def set_put_live split: if_splits)
  with False sp u show ?thesis by (auto simp: shrink_to_def b'_def)
qed

lemma drop_ok:
  assumes inv: "budget_inv (b, l)" and m: "map_of l i = Some r"
  shows "\<exists>b'. drop_reservation b r = Inr b' \<and> budget_inv (b', drop_live i l)"
proof -
  have d: "distinct (map fst l)" and mem: "(i, r) \<in> set l" and u: "ib_used b = held_bytes l"
    using inv m map_of_SomeD by (auto simp: budget_inv_def)
  note sp = live_split [OF d m] and dd = distinct_drop_live [OF d]
  show ?thesis
  proof (cases "ib_exclusive b")
    case False
    with inv mem have ne: "\<not> rv_exclusive r" by (auto simp: budget_inv_shared)
    define b' where "b' = b\<lparr> ib_used := ib_used b - rv_held r \<rparr>"
    have "budget_inv (b', drop_live i l)"
      using inv False dd sp u by (auto simp: budget_inv_shared b'_def set_drop_live)
    with ne sp u show ?thesis by (auto simp: drop_reservation_def b'_def)
  next
    case e: True
    then obtain k q where k: "sole_exclusive k q l" "rv_held q = ib_used b"
      using inv by (auto simp: budget_inv_exclusive)
    show ?thesis
    proof (cases "i = k")
      case True
      then have rq: "r = q" "rv_exclusive r"
        using k(1) mem d by (auto simp: sole_exclusive_def dest: eq_key_imp_eq_value)
      define b' where "b' = b\<lparr> ib_used := 0, ib_exclusive := False \<rparr>"
      have "held_bytes (drop_live i l) = 0" using sp(1) k(2) u rq by simp
      moreover have "\<forall>(j, p) \<in> set (drop_live i l). \<not> rv_exclusive p"
        using k(1) True by (auto simp: set_drop_live sole_exclusive_def)
      moreover have "0 < ib_limit b" "ib_limit b \<le> u64_max" using inv by (simp_all add: budget_inv_def)
      moreover have "\<not> ib_exclusive b'" by (simp add: b'_def)
      ultimately have "budget_inv (b', drop_live i l)"
        using dd by (simp add: budget_inv_shared) (simp add: b'_def)
      with rq k show ?thesis by (auto simp: drop_reservation_def b'_def)
    next
      case False
      then have r: "\<not> rv_exclusive r" "rv_held r = 0" using k(1) mem by (auto simp: sole_exclusive_def)
      have "budget_inv (b, drop_live i l)"
        using inv e sp u dd r k sole_exclusive_drop [OF k(1) False]
        by (auto simp: budget_inv_exclusive)
      with r show ?thesis by (auto simp: drop_reservation_def)
    qed
  qed
qed

definition op_in_range :: "budget_op \<Rightarrow> bool" where
  "op_in_range op = (case op of BGrow i wanted \<Rightarrow> wanted \<le> u64_max | _ \<Rightarrow> True)"

lemma grow_limit: "grow_to b r wanted = (ok, b', r') \<Longrightarrow> ib_limit b' = ib_limit b"
  by (auto simp: grow_to_def Let_def use_bytes_def split: if_splits option.splits)

lemma budget_step_ok:
  assumes inv: "budget_inv (b, l)" and r: "op_in_range op"
  shows "\<exists>b' l'. budget_step (b, l) op = Inr (b', l') \<and> budget_inv (b', l') \<and> ib_limit b' = ib_limit b"
proof (cases op)
  case (BReserve i bytes)
  show ?thesis
  proof (cases "i \<in> fst ` set l \<or> try_reserve b bytes = None")
    case True
    with inv BReserve show ?thesis by auto
  next
    case False
    then obtain b' q where t: "try_reserve b bytes = Some (b', q)" by auto
    moreover from t have "ib_limit b' = ib_limit b"
      by (auto simp: try_reserve_def use_bytes_def split: if_splits option.splits)
    ultimately show ?thesis using BReserve False reserve_ok [OF inv t] by auto
  qed
next
  case (BReserveExclusive i)
  show ?thesis
  proof (cases "i \<in> fst ` set l \<or> try_reserve_exclusive b = None")
    case True
    with inv BReserveExclusive show ?thesis by auto
  next
    case False
    then obtain b' q where t: "try_reserve_exclusive b = Some (b', q)" by auto
    moreover from t have "ib_limit b' = ib_limit b"
      by (auto simp: try_reserve_exclusive_def use_bytes_def split: if_splits)
    ultimately show ?thesis using BReserveExclusive False reserve_exclusive_ok [OF inv t] by auto
  qed
next
  case (BGrow i wanted)
  show ?thesis
  proof (cases "map_of l i")
    case None
    with inv BGrow show ?thesis by simp
  next
    case (Some q)
    obtain ok b' q' where g: "grow_to b q wanted = (ok, b', q')" by (cases "grow_to b q wanted")
    with inv Some BGrow r grow_limit [OF g] grow_ok [OF inv Some g] show ?thesis
      by (simp add: op_in_range_def)
  qed
next
  case (BShrink i wanted)
  show ?thesis
  proof (cases "map_of l i")
    case None
    with inv BShrink show ?thesis by simp
  next
    case (Some q)
    obtain b' q' where s: "shrink_to b q wanted = Inr (b', q')" "budget_inv (b', put_live i q' l)"
      using shrink_ok [OF inv Some] by blast
    moreover from s(1) have "ib_limit b' = ib_limit b" by (auto simp: shrink_to_def split: if_splits)
    ultimately show ?thesis using BShrink Some by simp
  qed
next
  case (BDrop i)
  show ?thesis
  proof (cases "map_of l i")
    case None
    with inv BDrop show ?thesis by simp
  next
    case (Some q)
    obtain b' where s: "drop_reservation b q = Inr b'" "budget_inv (b', drop_live i l)"
      using drop_ok [OF inv Some] by blast
    moreover from s(1) have "ib_limit b' = ib_limit b"
      by (auto simp: drop_reservation_def Let_def split: if_splits)
    ultimately show ?thesis using BDrop Some by simp
  qed
qed

lemma budget_run_ok:
  assumes "budget_inv (b, l)" "\<forall>op \<in> set ops. op_in_range op"
  shows "\<exists>b' l'. foldR budget_step (b, l) ops = Inr (b', l') \<and> budget_inv (b', l') \<and>
    ib_limit b' = ib_limit b"
  using assms
proof (induction ops arbitrary: b l)
  case (Cons op ops)
  obtain b1 l1 where s: "budget_step (b, l) op = Inr (b1, l1)" "budget_inv (b1, l1)"
    "ib_limit b1 = ib_limit b"
    using budget_step_ok [OF Cons.prems(1), of op] Cons.prems(2) by auto
  with Cons.IH [OF s(2)] Cons.prems(2) show ?case by simp
qed simp

section \<open>Properties\<close>

text \<open>
  C31. For every sequence of reservations, growths, shrinks and drops the accounting
  never underflows and stays exact: the bytes in use are the sum of what the live reservations hold,
  they stay within the limit unless one reservation is exclusive, and then every other reservation
  holds nothing; once all reservations are dropped the budget is empty and not exclusive.
\<close>

theorem budget_never_leaks:
  assumes "0 < limit" "limit \<le> u64_max" "\<forall>op \<in> set ops. op_in_range op"
  shows "\<exists>b l. foldR budget_step (budget_new limit, []) ops = Inr (b, l) \<and>
    ib_used b = held_bytes l \<and>
    (\<not> ib_exclusive b \<longrightarrow> ib_used b \<le> limit) \<and>
    (ib_exclusive b \<longrightarrow> (\<exists>i r. sole_exclusive i r l \<and> rv_held r = ib_used b)) \<and>
    (l = [] \<longrightarrow> ib_used b = 0 \<and> \<not> ib_exclusive b)"
proof -
  have "budget_inv (budget_new limit, [])" using assms by (simp add: budget_inv_def budget_new_def)
  from budget_run_ok [OF this assms(3)] obtain b l where
    b: "foldR budget_step (budget_new limit, []) ops = Inr (b, l)" "budget_inv (b, l)" "ib_limit b = limit"
    by (auto simp: budget_new_def)
  moreover have "l = [] \<Longrightarrow> \<not> ib_exclusive b"
    using b(2) by (auto simp: budget_inv_def sole_exclusive_def)
  ultimately show ?thesis by (auto simp: budget_inv_def)
qed

theorem budget_never_leaks_witness:
  "\<exists>b. foldR budget_step (budget_new 10, [])
     [BReserve 1 4, BReserve 2 3, BGrow 1 6, BReserveExclusive 3, BDrop 1, BShrink 2 1, BDrop 2,
      BReserveExclusive 4, BGrow 4 25, BDrop 4] = Inr (b, []) \<and> ib_used b = 0"
proof -
  let ?ops = "[BReserve 1 4, BReserve 2 3, BGrow 1 6, BReserveExclusive 3, BDrop 1, BShrink 2 1, BDrop 2,
      BReserveExclusive 4, BGrow 4 25, BDrop 4]"
  have "foldR budget_step (budget_new 10, []) ?ops =
      Inr (\<lparr> ib_limit = 10, ib_used = 0, ib_peak = 1048586, ib_exclusive = False \<rparr>, [])"
    by (simp add: try_reserve_def try_reserve_exclusive_def grow_to_def shrink_to_def
        drop_reservation_def use_bytes_def put_live_def drop_live_def budget_new_def Let_def
        checked_add_def saturating_add_def u64_max_def GROWTH_STEP_def)
  moreover have "\<forall>op \<in> set ?ops. op_in_range op" by (simp add: op_in_range_def u64_max_def)
  ultimately show ?thesis using budget_never_leaks [of 10 ?ops] by (auto simp: u64_max_def)
qed

end
