(* ===== verification/Flush_Plan.thy ===== *)
theory Flush_Plan
  imports Txn_Parts Budget
begin

text \<open>
  Preparation of a flush (\<open>writer.rs\<close>, \<open>PreparedFlush\<close> of \<open>writer/protected.rs\<close>, the plan built in
  \<open>TransactionController::commit\<close>): routing of a table to its date partition, the validation of every
  batch against the inventory and its partition, the initial reservation of a part and the pieces of
  its encoder. Arrow and Parquet are not modelled: a \<open>record_batch\<close> has what the code reads of a batch
  (rows, the digest of its schema, the timestamp and date columns, its statistics) and the chunks the
  Parquet writer emits for it.
\<close>

section \<open>Data\<close>

record block_metadata =
  bm_min_block_number :: nat
  bm_max_block_number :: nat
  bm_min_timestamp :: "int option"
  bm_max_timestamp :: "int option"

text \<open>The compressions of the configuration; the journal's \<open>part_compression\<close> is the canonical one.\<close>

datatype compression = CompNone | CompSnappy | CompGzip | CompZstd | CompZstdWithLevel int

datatype timestamp_column =
    MillisUtc "int option list"
  | MicrosUtc "int option list"
  | OtherTimestamp

datatype date_column = Date32Column "int option list" | OtherDate

datatype ordinal_column = UInt64Column "nat option list" | OtherOrdinal

record record_batch =
  rb_rows :: nat
  rb_schema_sha256 :: "string result"
    \<comment> \<open>\<open>schema_sha256(batch.schema())\<close>\<close>
  rb_timestamp :: "timestamp_column option"
  rb_date :: "date_column option"
  rb_stream_ordinal :: "ordinal_column option"
  rb_share :: "compression \<Rightarrow> nat"
    \<comment> \<open>\<open>(batch.get_array_memory_size() as f64 * compression_ratio) as u64\<close>\<close>
  rb_write :: "compression \<Rightarrow> (string \<times> string) list \<Rightarrow> string list \<times> error option"
    \<comment> \<open>the chunks \<open>ArrowWriter\<close> writes for the batch and a footer, and the error it stops with\<close>
  rb_stats :: "string result"
    \<comment> \<open>\<open>delta::stats::stats_json(batch)\<close>\<close>

section \<open>Routing\<close>

definition block_metadata_merge :: "block_metadata \<Rightarrow> block_metadata \<Rightarrow> block_metadata" where
  "block_metadata_merge a b =
     (let pick = (\<lambda>f x y. case (x, y) of (Some u, Some v) \<Rightarrow> Some (f u v) | (Some u, None) \<Rightarrow> Some u | (None, v) \<Rightarrow> v) in
      \<lparr> bm_min_block_number = min (bm_min_block_number a) (bm_min_block_number b),
        bm_max_block_number = max (bm_max_block_number a) (bm_max_block_number b),
        bm_min_timestamp = pick min (bm_min_timestamp a) (bm_min_timestamp b),
        bm_max_timestamp = pick max (bm_max_timestamp a) (bm_max_timestamp b) \<rparr>)"

definition partition_suffix :: "calendar \<Rightarrow> string \<Rightarrow> block_metadata \<Rightarrow> string result" where
  "partition_suffix cal table m =
     bindR (case bm_max_timestamp m of None \<Rightarrow> Inr ()
            | Some seconds \<Rightarrow> bindR (checked_timestamp cal seconds) (\<lambda>_. Inr ())) (\<lambda>_.
     bindR (some_or (bm_min_timestamp m) ''a table needs a routing block time'') (\<lambda>seconds.
     bindR (from_timestamp cal seconds) (\<lambda>d. Inr (table @ ''/'' @ date_path d))))"

text \<open>The destination of a row with the given time is the expected one.\<close>

definition check_row :: "calendar \<Rightarrow> string \<Rightarrow> block_metadata \<Rightarrow> string \<Rightarrow> int \<Rightarrow> unit result" where
  "check_row cal table m expected seconds =
     bindR (partition_suffix cal table (m\<lparr> bm_min_timestamp := Some seconds \<rparr>)) (\<lambda>actual.
     require (actual = expected) ''table spans partitions or disagrees with its metadata'')"

fun check_rows :: "calendar \<Rightarrow> string \<Rightarrow> block_metadata \<Rightarrow> string \<Rightarrow> int option \<Rightarrow> int list \<Rightarrow> unit result" where
  "check_rows cal table m expected previous [] = Inr ()"
| "check_rows cal table m expected previous (seconds # rest) =
     (if previous = Some seconds then check_rows cal table m expected previous rest
      else bindR (check_row cal table m expected seconds) (\<lambda>_.
        check_rows cal table m expected (Some seconds) rest))"

definition row_seconds :: "record_batch \<Rightarrow> int list result" where
  "row_seconds batch =
     bindR (some_or (rb_timestamp batch) ''table needs canonical timestamp for date partitioning'') (\<lambda>column.
     case column of
       MillisUtc values \<Rightarrow> Inr (map (\<lambda>v. v div 1000) (List.map_filter id values))
     | MicrosUtc values \<Rightarrow> Inr (map (\<lambda>v. v div 1000000) (List.map_filter id values))
     | OtherTimestamp \<Rightarrow> bail ''timestamp must be Timestamp(Millisecond, UTC) or Timestamp(Microsecond, UTC)'')"

definition validate_date_column :: "calendar \<Rightarrow> record_batch \<Rightarrow> block_metadata \<Rightarrow> unit result" where
  "validate_date_column cal batch m =
     (case rb_date batch of
        None \<Rightarrow> Inr ()
      | Some OtherDate \<Rightarrow> bail ''date must be Date32''
      | Some (Date32Column dates) \<Rightarrow>
          (case bm_min_timestamp m of
             None \<Rightarrow> Inl (Panic ''validate_partition requires a routing time'')
           | Some seconds \<Rightarrow>
               bindR (from_timestamp cal seconds) (\<lambda>d.
               for_each (\<lambda>date. require (date = date32 cal d) ''date differs from its date partition'')
                 (List.map_filter id dates))))"

definition validate_partition :: "calendar \<Rightarrow> string \<Rightarrow> record_batch \<Rightarrow> block_metadata \<Rightarrow> unit result" where
  "validate_partition cal table batch m =
     bindR (partition_suffix cal table m) (\<lambda>expected.
     bindR (row_seconds batch) (\<lambda>seconds.
     bindR (some_or (bm_max_timestamp m) ''table needs both minimum and maximum routing timestamps'') (\<lambda>max_seconds.
     bindR (check_row cal table m expected max_seconds) (\<lambda>_.
     bindR (check_rows cal table m expected None seconds) (\<lambda>_.
     validate_date_column cal batch m)))))"

section \<open>The prepared flush\<close>

record prepared_flush =
  pf_batches :: "(string \<times> record_batch) list"
  pf_parts :: "writer_part list"
  pf_compression :: compression
  pf_file_metadata :: "(string \<times> string) list"

definition position :: "string \<Rightarrow> string list \<Rightarrow> nat option" where
  "position t ts = find (\<lambda>i. ts ! i = t) [0..<length ts]"

definition same_transaction :: "writer_part \<Rightarrow> writer_part \<Rightarrow> bool" where
  "same_transaction a b \<longleftrightarrow> wp_stream_id a = wp_stream_id b \<and> wp_transaction_id a = wp_transaction_id b \<and>
     wp_first_ordinal a = wp_first_ordinal b \<and> wp_last_ordinal a = wp_last_ordinal b"

definition check_planned ::
  "calendar \<Rightarrow> (string \<times> record_batch) list \<Rightarrow> (string \<times> string) list \<Rightarrow> writer_part list \<Rightarrow> block_metadata \<Rightarrow>
   string option \<Rightarrow> writer_part \<Rightarrow> unit result" where
  "check_planned cal batches inventory parts m previous plan =
     bindR (validate_plan plan) (\<lambda>_.
     bindR (some_or (position (wp_table plan) (map fst inventory))
       ''planned table is absent from protected inventory'') (\<lambda>index.
     bindR (require (wp_entry_index plan = index)
       ''planned entry index must match the full sorted table inventory'') (\<lambda>_.
     bindR (require (case previous of None \<Rightarrow> True | Some t \<Rightarrow> t < wp_table plan)
       ''planned tables must be unique and sorted'') (\<lambda>_.
     bindR (require (case parts of [] \<Rightarrow> True | first # _ \<Rightarrow> same_transaction plan first)
       ''planned parts disagree on transaction identity'') (\<lambda>_.
     bindR (require (map_of inventory (wp_table plan) = Some (wp_schema_sha256 plan))
       ''planned schema differs from protected inventory'') (\<lambda>_.
     bindR (some_or (map_of batches (wp_table plan)) ''nonempty planned table is missing its batch'') (\<lambda>batch.
     bindR (require (rb_rows batch = wp_row_count plan) ''planned table row count differs from batch'') (\<lambda>_.
     bindR (validate_partition cal (wp_table plan) batch m) (\<lambda>_.
     bindR (partition_suffix cal (wp_table plan) m) (\<lambda>directory.
     require (wp_final plan = directory @ ''/'' @ protected_final_name plan \<and>
         wp_temporary plan = directory @ ''/'' @ protected_temporary_name plan)
       ''planned paths disagree with validated table partition''))))))))))"

fun check_plans ::
  "calendar \<Rightarrow> (string \<times> record_batch) list \<Rightarrow> (string \<times> string) list \<Rightarrow> writer_part list \<Rightarrow> block_metadata \<Rightarrow>
   string option \<Rightarrow> writer_part list \<Rightarrow> unit result" where
  "check_plans cal batches inventory parts m previous [] = Inr ()"
| "check_plans cal batches inventory parts m previous (plan # plans) =
     bindR (check_planned cal batches inventory parts m previous plan) (\<lambda>_.
     check_plans cal batches inventory parts m (Some (wp_table plan)) plans)"

definition prepared_new ::
  "calendar \<Rightarrow> (string \<times> record_batch) list \<Rightarrow> (string \<times> string) list \<Rightarrow> writer_part list \<Rightarrow> block_metadata \<Rightarrow>
   compression \<Rightarrow> (string \<times> string) list \<Rightarrow> prepared_flush result" where
  "prepared_new cal batches inventory parts m compression file_metadata =
     bindR (require (inventory \<noteq> []) ''protected inventory must include every declared table'') (\<lambda>_.
     bindR (require (list_all (\<lambda>(key, _). strip_prefix FOOTER_PREFIX key = None) file_metadata)
       ''caller metadata collides with protected footer keys'') (\<lambda>_.
     bindR (for_each (\<lambda>(table, digest). bindR (protected_validate_table table) (\<lambda>_. validate_digest digest)) inventory) (\<lambda>_.
     bindR (for_each (\<lambda>(table, batch).
         bindR (some_or (map_of inventory table) ''batch table is absent from protected inventory'') (\<lambda>expected.
         bindR (rb_schema_sha256 batch) (\<lambda>digest.
         require (digest = expected) ''batch schema differs from protected inventory''))) batches) (\<lambda>_.
     bindR (check_plans cal batches inventory parts m None parts) (\<lambda>_.
     bindR (for_each (\<lambda>(table, batch).
         require (rb_rows batch = 0 \<or> list_ex (\<lambda>part. wp_table part = table) parts)
           ''nonempty batch has no planned part'') batches) (\<lambda>_.
     Inr \<lparr> pf_batches = batches, pf_parts = parts, pf_compression = compression,
       pf_file_metadata = file_metadata \<rparr>))))))"

section \<open>Encoding\<close>

definition MIN_PART_RESERVATION :: nat where
  "MIN_PART_RESERVATION = 256 * 1024"

definition prepared_part :: "prepared_flush \<Rightarrow> nat \<Rightarrow> (writer_part \<times> record_batch) result" where
  "prepared_part f entry_index =
     bindR (some_or (find (\<lambda>part. wp_entry_index part = entry_index) (pf_parts f)) ''unknown protected part index'') (\<lambda>plan.
     bindR (some_or (map_of (pf_batches f) (wp_table plan)) ''prepared batch is missing'') (\<lambda>batch.
     Inr (plan, batch)))"

definition estimated_part_bytes :: "prepared_flush \<Rightarrow> nat \<Rightarrow> nat result" where
  "estimated_part_bytes f entry_index =
     bindR (prepared_part f entry_index) (\<lambda>(plan, batch).
     Inr (saturating_add (rb_share batch (pf_compression f)) MIN_PART_RESERVATION))"

text \<open>What the Parquet writer emits for a part, with its identity in the footer.\<close>

definition part_writes :: "prepared_flush \<Rightarrow> nat \<Rightarrow> string list \<times> error option" where
  "part_writes f entry_index =
     (case prepared_part f entry_index of
        Inl err \<Rightarrow> ([], Some err)
      | Inr (plan, batch) \<Rightarrow> rb_write batch (pf_compression f) (pf_file_metadata f @ footer_identity plan))"

text \<open>The sizes the output buffer asks its reservation for, one per write.\<close>

fun write_totals :: "nat \<Rightarrow> string list \<Rightarrow> nat list" where
  "write_totals len [] = []"
| "write_totals len (c # cs) = saturating_add len (length c) # write_totals (len + length c) cs"

text \<open>The encoded part once every write was admitted; the reservation shrinks to the bytes written.\<close>

definition encode_finish ::
  "ext \<Rightarrow> prepared_flush \<Rightarrow> nat \<Rightarrow> encoded_part result" where
  "encode_finish x f entry_index =
     (case part_writes f entry_index of
        (_, Some err) \<Rightarrow> Inl err
      | (chunks, None) \<Rightarrow>
          bindR (prepared_part f entry_index) (\<lambda>(plan, batch).
          bindR (rb_stats batch) (\<lambda>stats.
          Inr \<lparr> ep_plan = plan,
            ep_receipt = \<lparr> wr_byte_size = length (concat chunks), wr_sha256 = x_sha256 x (concat chunks),
              wr_row_count = wp_row_count plan, wr_schema_sha256 = wp_schema_sha256 plan \<rparr>,
            ep_stats = stats, ep_bytes = concat chunks \<rparr>)))"

section \<open>The plan of a flush\<close>

text \<open>\<open>Compression::canonical\<close> and \<open>part_compression\<close>.\<close>

definition compression_canonical :: "compression \<Rightarrow> compression" where
  "compression_canonical c =
     (case c of CompZstdWithLevel level \<Rightarrow> if level = 0 \<or> level = 3 then CompZstd else c | _ \<Rightarrow> c)"

definition part_compression_of :: "compression \<Rightarrow> part_compression" where
  "part_compression_of c =
     (case compression_canonical c of
        CompNone \<Rightarrow> CNone
      | CompSnappy \<Rightarrow> Snappy | CompGzip \<Rightarrow> Gzip | CompZstd \<Rightarrow> Zstd
      | CompZstdWithLevel level \<Rightarrow> ZstdWithLevel level)"

text \<open>The table plans of a flush: one per table of the stream, without a partition when it has no rows.\<close>

definition table_plan_of ::
  "calendar \<Rightarrow> (string \<times> record_batch) list \<Rightarrow> block_metadata \<Rightarrow> string \<times> digest \<Rightarrow> table_plan result" where
  "table_plan_of cal batches m ts =
     (let table = fst ts; rows = (case map_of batches table of None \<Rightarrow> 0 | Some batch \<Rightarrow> rb_rows batch) in
      bindR (if rows = 0 then Inr table else partition_suffix cal table m) (\<lambda>directory.
      bindR (if directory = table then Inr [] else some_or (strip_prefix (table @ ''/'') directory)
          ''partition path escaped its table'') (\<lambda>partition.
      Inr \<lparr> tp_table = table, tp_rows = rows, tp_schema_sha256 = snd ts, tp_partition = partition \<rparr>)))"

end
