(* ===== verification/Pipeline.thy ===== *)
theory Pipeline
  imports Flush_Plan
begin

text \<open>
  Bounded table work inside one transaction (\<open>ingest/controller/pipeline.rs\<close>): one coordinator admits
  encoders by count and bytes, stages encoded parts, journals the receipts that are ready in one
  change of the pending record, and starts the publication of a part only when its receipt is
  durable. The first error stops admission and everything that was started is drained. The
  \<open>coordinator\<close> record is the local state of \<open>publish_parts\<close>; which running work makes progress next is
  up to the scheduler \<open>e_schedule\<close>, write by write for encoders. A crash between two steps is an
  environment in which every request after it fails. High-water marks are left out.
\<close>

section \<open>State\<close>

record staged_part =
  sp_index :: nat
  sp_encoded :: encoded_part
  sp_reservation :: reservation

datatype work =
    Encoding nat bool reservation "nat list"
  | Staging staged_part
  | Recording "pending_transaction versioned" "staged_part list"
  | Publishing staged_part

record coordinator =
  co_queue :: "(nat \<times> bool) list"
  co_work :: "work list"
  co_pending :: "pending_transaction versioned option"
  co_receipts :: "staged_part list"
  co_publishable :: "staged_part list"
  co_encoders :: nat
  co_publications :: nat
  co_recording :: bool
  co_budget :: inflight_budget
  co_reencoded :: nat
  co_oversized :: nat
  co_failure :: "error option"
  co_underflow :: bool
    \<comment> \<open>a reservation gave back more than was in use\<close>

record pipeline_job =
  pj_authority :: "authority_state versioned"
  pj_prepared :: prepared_flush
  pj_limits :: flush_concurrency
  pj_lane :: bool
    \<comment> \<open>whether blocking local work runs on the lane\<close>

section \<open>Admission\<close>

definition part_estimate :: "prepared_flush \<Rightarrow> nat \<Rightarrow> nat" where
  "part_estimate f i = (case estimated_part_bytes f i of Inr n \<Rightarrow> n | Inl _ \<Rightarrow> 0)"

fun admit_encoders :: "pipeline_job \<Rightarrow> (nat \<times> bool) list \<Rightarrow> coordinator \<Rightarrow> coordinator" where
  "admit_encoders job [] st = st\<lparr> co_queue := [] \<rparr>"
| "admit_encoders job ((i, exc) # queue) st =
     (if co_encoders st < fc_encoders (pj_limits job) then
        let estimate = part_estimate (pj_prepared job) i;
            exclusive = exc \<or> ib_limit (co_budget st) \<le> estimate in
        case (if exclusive then try_reserve_exclusive (co_budget st) else try_reserve (co_budget st) estimate) of
          None \<Rightarrow> st\<lparr> co_queue := (i, exc) # queue \<rparr>
        | Some (b, r) \<Rightarrow>
            admit_encoders job queue (st\<lparr> co_encoders := co_encoders st + 1, co_budget := b,
              co_work := co_work st @ [Encoding i exclusive r (write_totals 0 (fst (part_writes (pj_prepared job) i)))] \<rparr>)
      else st\<lparr> co_queue := (i, exc) # queue \<rparr>)"

definition admit_recording :: "coordinator \<Rightarrow> coordinator" where
  "admit_recording st =
     (if \<not> co_recording st \<and> co_receipts st \<noteq> [] then
        case co_pending st of
          None \<Rightarrow> st
        | Some prior \<Rightarrow> st\<lparr> co_pending := None, co_receipts := [], co_recording := True,
            co_work := co_work st @ [Recording prior (co_receipts st)] \<rparr>
      else st)"

fun admit_publications :: "nat \<Rightarrow> staged_part list \<Rightarrow> coordinator \<Rightarrow> coordinator" where
  "admit_publications limit [] st = st\<lparr> co_publishable := [] \<rparr>"
| "admit_publications limit (p # ps) st =
     (if co_publications st < limit then
        admit_publications limit ps (st\<lparr> co_publications := co_publications st + 1,
          co_work := co_work st @ [Publishing p] \<rparr>)
      else st\<lparr> co_publishable := p # ps \<rparr>)"

definition admit :: "pipeline_job \<Rightarrow> coordinator \<Rightarrow> coordinator" where
  "admit job st =
     (let st1 = admit_encoders job (co_queue st) st;
          st2 = admit_recording st1
      in admit_publications (fc_publications (pj_limits job)) (co_publishable st2) st2)"

section \<open>Completion of work\<close>

text \<open>Dropping parts gives their bytes back to the budget.\<close>

definition release :: "reservation \<Rightarrow> coordinator \<Rightarrow> coordinator" where
  "release r st =
     (case drop_reservation (co_budget st) r of
        Inr b \<Rightarrow> st\<lparr> co_budget := b \<rparr>
      | Inl _ \<Rightarrow> st\<lparr> co_underflow := True \<rparr>)"

definition release_all :: "staged_part list \<Rightarrow> coordinator \<Rightarrow> coordinator" where
  "release_all ps st = fold (\<lambda>p. release (sp_reservation p)) ps st"

datatype encode_result = Encoded staged_part | Exceeded | EncodeFailed error

text \<open>The end of an encoder: the reservation of a finished part shrinks to its bytes, otherwise it is dropped.\<close>

definition encoder_end :: "env \<Rightarrow> pipeline_job \<Rightarrow> nat \<Rightarrow> reservation \<Rightarrow> coordinator \<Rightarrow> encode_result \<times> coordinator" where
  "encoder_end e job i r st =
     (case encode_finish (e_ext e) (pj_prepared job) i of
        Inl err \<Rightarrow> (EncodeFailed err, release r st)
      | Inr ep \<Rightarrow>
          (case shrink_to (co_budget st) r (wr_byte_size (ep_receipt ep)) of
             Inr (b, r') \<Rightarrow> (Encoded \<lparr> sp_index = i, sp_encoded = ep, sp_reservation = r' \<rparr>, st\<lparr> co_budget := b \<rparr>)
           | Inl _ \<Rightarrow> (Encoded \<lparr> sp_index = i, sp_encoded = ep, sp_reservation = r \<rparr>, st\<lparr> co_underflow := True \<rparr>)))"

definition handle_encoded ::
  "env \<Rightarrow> pipeline_job \<Rightarrow> nat \<Rightarrow> bool \<Rightarrow> encode_result \<Rightarrow> coordinator \<Rightarrow> (unit result \<times> coordinator) io" where
  "handle_encoded e job i exclusive result st0 =
     (let st = st0\<lparr> co_encoders := co_encoders st0 - 1 \<rparr> in
      case result of
        Encoded part \<Rightarrow>
          if co_failure st = None then
            let st1 = (if ib_limit (co_budget st) < wr_byte_size (ep_receipt (sp_encoded part))
                       then st\<lparr> co_oversized := co_oversized st + 1 \<rparr> else st) in
            if pj_lane job then returnIO (Inr (), st1\<lparr> co_work := co_work st1 @ [Staging part] \<rparr>)
            else
              bindIO (tryIO (bindIO (part_stage e (sp_encoded part)) (\<lambda>_. crash_point e))) (\<lambda>r.
              case r of
                Inr _ \<Rightarrow> returnIO (Inr (), st1\<lparr> co_receipts := co_receipts st1 @ [part] \<rparr>)
              | Inl err \<Rightarrow> returnIO (Inl err, release (sp_reservation part) st1))
          else returnIO (Inr (), release (sp_reservation part) st)
      | Exceeded \<Rightarrow>
          if \<not> exclusive
          then returnIO (Inr (), st\<lparr> co_reencoded := co_reencoded st + 1, co_queue := (i, True) # co_queue st \<rparr>)
          else returnIO (Inl (Bail ''encoded part could not grow its in-flight reservation''), st)
      | EncodeFailed err \<Rightarrow> returnIO (Inl err, st))"

definition handle_staged :: "env \<Rightarrow> staged_part \<Rightarrow> coordinator \<Rightarrow> (unit result \<times> coordinator) io" where
  "handle_staged e part st =
     bindIO (tryIO (bindIO (part_stage e (sp_encoded part)) (\<lambda>_. crash_point e))) (\<lambda>r.
     case r of
       Inl err \<Rightarrow> returnIO (Inl err, release (sp_reservation part) st)
     | Inr _ \<Rightarrow>
         if co_failure st = None then returnIO (Inr (), st\<lparr> co_receipts := co_receipts st @ [part] \<rparr>)
         else returnIO (Inr (), release (sp_reservation part) st))"

definition part_receipt_of :: "env \<Rightarrow> encoded_part \<Rightarrow> part_receipt io" where
  "part_receipt_of e ep = (\<lambda>w.
     let w1 = w\<lparr> w_clock := Suc (w_clock w) \<rparr> in
     (bindR (some_or (e_now e (w_clock w)) ''the system clock is before the Unix epoch'') (\<lambda>now.
      bindR (digest_parse (wr_sha256 (ep_receipt ep))) (\<lambda>sha.
      bindR (require (now \<le> int i64_max) ''the system clock is beyond the Delta modification time range'') (\<lambda>_.
      Inr \<lparr> pr_byte_size = wr_byte_size (ep_receipt ep), pr_sha256 = sha, pr_stats = ep_stats ep,
        pr_modification_time = now \<rparr>))), w1))"

definition record_batch_receipts ::
  "env \<Rightarrow> authority_state versioned \<Rightarrow> pending_transaction versioned \<Rightarrow> staged_part list \<Rightarrow>
   pending_transaction versioned io" where
  "record_batch_receipts e authority prior batch =
     bindIO (mapIO (\<lambda>part. bindIO (part_receipt_of e (sp_encoded part)) (\<lambda>r. returnIO (sp_index part, r))) batch) (\<lambda>receipts.
     store_record_receipts e authority prior receipts)"

text \<open>After the receipts are durable: every part of the batch becomes publishable unless something failed.\<close>

fun after_receipts :: "env \<Rightarrow> unit result \<Rightarrow> staged_part list \<Rightarrow> coordinator \<Rightarrow> (unit result \<times> coordinator) io" where
  "after_receipts e outcome [] st = returnIO (outcome, st)"
| "after_receipts e outcome (part # batch) st =
     bindIO (tryIO (crash_point e)) (\<lambda>r.
     case r of
       Inr _ \<Rightarrow>
         if co_failure st = None \<and> is_ok outcome
         then after_receipts e outcome batch (st\<lparr> co_publishable := co_publishable st @ [part] \<rparr>)
         else after_receipts e outcome batch (release (sp_reservation part) st)
     | Inl err \<Rightarrow>
         after_receipts e (if is_ok outcome then Inl err else outcome) batch (release (sp_reservation part) st))"

definition handle_recorded ::
  "env \<Rightarrow> pipeline_job \<Rightarrow> pending_transaction versioned \<Rightarrow> staged_part list \<Rightarrow> coordinator \<Rightarrow>
   (unit result \<times> coordinator) io" where
  "handle_recorded e job prior batch st0 =
     (let st = st0\<lparr> co_recording := False \<rparr> in
      bindIO (tryIO (record_batch_receipts e (pj_authority job) prior batch)) (\<lambda>r.
      case r of
        Inr nxt \<Rightarrow> after_receipts e (Inr ()) batch (st\<lparr> co_pending := Some nxt \<rparr>)
      | Inl err \<Rightarrow> returnIO (Inl err, release_all batch (st\<lparr> co_pending := Some prior \<rparr>))))"

definition handle_published :: "env \<Rightarrow> staged_part \<Rightarrow> coordinator \<Rightarrow> (unit result \<times> coordinator) io" where
  "handle_published e part st =
     bindIO (tryIO (bindIO (part_publish e (ep_plan (sp_encoded part)) (ep_receipt (sp_encoded part))) (\<lambda>_. crash_point e))) (\<lambda>r.
     returnIO (case r of Inl err \<Rightarrow> Inl err | Inr _ \<Rightarrow> Inr (),
       release (sp_reservation part) (st\<lparr> co_publications := co_publications st - 1 \<rparr>)))"

text \<open>One completed work item, taken from the running work.\<close>

definition handle_work :: "env \<Rightarrow> pipeline_job \<Rightarrow> work \<Rightarrow> coordinator \<Rightarrow> (unit result \<times> coordinator) io" where
  "handle_work e job item st =
     (case item of
        Encoding i exclusive r totals \<Rightarrow>
          (case totals of
             [] \<Rightarrow> (case encoder_end e job i r st of (result, st') \<Rightarrow> handle_encoded e job i exclusive result st')
           | _ \<Rightarrow> handle_encoded e job i exclusive Exceeded (release r st))
      | Staging part \<Rightarrow> handle_staged e part st
      | Recording prior batch \<Rightarrow> handle_recorded e job prior batch st
      | Publishing part \<Rightarrow> handle_published e part st)"

text \<open>The first error clears everything that was not started.\<close>

definition note_failure :: "unit result \<Rightarrow> coordinator \<Rightarrow> coordinator" where
  "note_failure outcome st =
     (case outcome of
        Inr _ \<Rightarrow> st
      | Inl err \<Rightarrow>
          if co_failure st = None
          then (release_all (co_receipts st @ co_publishable st) st)\<lparr> co_failure := Some err, co_queue := [],
            co_receipts := [], co_publishable := [] \<rparr>
          else st)"

section \<open>The loop\<close>

text \<open>A write of a running encoder that its reservation admits.\<close>

definition encoder_progress :: "coordinator \<Rightarrow> nat \<Rightarrow> coordinator option" where
  "encoder_progress st i =
     (case co_work st ! i of
        Encoding k exclusive r (n # ns) \<Rightarrow>
          (case grow_to (co_budget st) r n of
             (True, b, r') \<Rightarrow> Some (st\<lparr> co_budget := b, co_work := (co_work st)[i := Encoding k exclusive r' ns] \<rparr>)
           | (False, _, _) \<Rightarrow> None)
      | _ \<Rightarrow> None)"

text \<open>How far the parts are from done: every event moves one of them closer.\<close>

definition writes_of :: "pipeline_job \<Rightarrow> nat \<Rightarrow> nat" where
  "writes_of job i = length (fst (part_writes (pj_prepared job) i))"

fun queue_weight :: "pipeline_job \<Rightarrow> nat \<times> bool \<Rightarrow> nat" where
  "queue_weight job (i, exclusive) = (if exclusive then writes_of job i + 7 else 2 * writes_of job i + 9)"

fun work_weight :: "pipeline_job \<Rightarrow> work \<Rightarrow> nat" where
  "work_weight job (Encoding i exclusive r totals) =
     (if exclusive then length totals + 6 else length totals + writes_of job i + 8)"
| "work_weight job (Staging part) = 5"
| "work_weight job (Recording prior batch) = 3 * length batch + 1"
| "work_weight job (Publishing part) = 1"

definition weight :: "pipeline_job \<Rightarrow> coordinator \<Rightarrow> nat" where
  "weight job st = sum_list (map (queue_weight job) (co_queue st)) + sum_list (map (work_weight job) (co_work st)) +
     4 * length (co_receipts st) + 2 * length (co_publishable st)"

lemma release_fields [simp]:
  "co_queue (release r st) = co_queue st" "co_work (release r st) = co_work st" "co_pending (release r st) = co_pending st"
  "co_receipts (release r st) = co_receipts st" "co_publishable (release r st) = co_publishable st"
  "co_failure (release r st) = co_failure st" "co_recording (release r st) = co_recording st"
  "co_encoders (release r st) = co_encoders st" "co_publications (release r st) = co_publications st"
  by (simp_all add: release_def split: sum.splits)

lemma release_all_fields [simp]:
  "co_queue (release_all ps st) = co_queue st" "co_work (release_all ps st) = co_work st"
  "co_pending (release_all ps st) = co_pending st" "co_receipts (release_all ps st) = co_receipts st"
  "co_publishable (release_all ps st) = co_publishable st" "co_failure (release_all ps st) = co_failure st"
  "co_recording (release_all ps st) = co_recording st" "co_encoders (release_all ps st) = co_encoders st"
  "co_publications (release_all ps st) = co_publications st"
  by (induction ps arbitrary: st) (simp_all add: release_all_def)

lemma write_totals_length [simp]: "length (write_totals n cs) = length cs"
  by (induction cs arbitrary: n) simp_all

lemma admit_encoders_weight: "weight job (admit_encoders job queue st) \<le> weight job (st\<lparr> co_queue := queue \<rparr>)"
proof (induction job queue st rule: admit_encoders.induct)
  case (2 job i exc queue st)
  show ?case
  proof (cases "co_encoders st < fc_encoders (pj_limits job)")
    case True
    define exclusive where "exclusive = (exc \<or> ib_limit (co_budget st) \<le> part_estimate (pj_prepared job) i)"
    show ?thesis
    proof (cases "if exclusive then try_reserve_exclusive (co_budget st) else try_reserve (co_budget st) (part_estimate (pj_prepared job) i)")
      case None
      then show ?thesis using True by (simp add: Let_def exclusive_def)
    next
      case (Some br)
      obtain b r where br: "br = (b, r)" by fastforce
      let ?st = "st\<lparr> co_encoders := co_encoders st + 1, co_budget := b,
        co_work := co_work st @ [Encoding i exclusive r (write_totals 0 (fst (part_writes (pj_prepared job) i)))] \<rparr>"
      have "admit_encoders job ((i, exc) # queue) st = admit_encoders job queue ?st"
        using True Some by (simp add: Let_def exclusive_def br)
      moreover have "weight job (admit_encoders job queue ?st) \<le> weight job (?st\<lparr> co_queue := queue \<rparr>)"
        using "2.IH" True Some by (simp add: exclusive_def br)
      moreover have "weight job (?st\<lparr> co_queue := queue \<rparr>) \<le> weight job (st\<lparr> co_queue := (i, exc) # queue \<rparr>)"
        by (simp add: weight_def writes_of_def exclusive_def)
      ultimately show ?thesis by simp
    qed
  qed simp
qed simp

lemma admit_recording_weight: "weight job (admit_recording st) \<le> weight job st"
  by (cases "co_receipts st") (auto simp: admit_recording_def weight_def split: option.splits)

lemma admit_publications_weight: "weight job (admit_publications limit ps st) \<le> weight job (st\<lparr> co_publishable := ps \<rparr>)"
  by (induction limit ps st rule: admit_publications.induct) (auto simp: weight_def elim!: order_trans)

lemma admit_weight: "weight job (admit job st) \<le> weight job st"
proof -
  let ?st1 = "admit_encoders job (co_queue st) st"
  have "weight job (admit job st) \<le> weight job (admit_recording ?st1)"
    unfolding admit_def Let_def by (rule order_trans [OF admit_publications_weight]) simp
  also have "\<dots> \<le> weight job st"
    by (rule order_trans [OF admit_recording_weight], rule order_trans [OF admit_encoders_weight]) simp
  finally show ?thesis .
qed

lemma note_failure_weight: "weight job (note_failure outcome st) \<le> weight job st"
  by (simp add: note_failure_def weight_def split: sum.splits)

lemma tryIO_result: "tryIO m w = (r, w') \<longleftrightarrow> (\<exists>x. m w = (x, w') \<and> r = Inr x)"
  by (cases "m w") (auto simp: tryIO_def)

lemma bind_try:
  "bindIO (tryIO m) f w = (case m w of (r, v) \<Rightarrow> f r v)"
  by (simp add: bindIO_def tryIO_def split: prod.splits)

lemma handle_encoded_weight:
  assumes "handle_encoded e job i exclusive result st w = (Inr (outcome, st'), w')"
  shows "weight job st' \<le> weight job st + (if result = Exceeded \<and> \<not> exclusive then writes_of job i + 7 else 5)"
  using assms
  by (auto simp: handle_encoded_def Let_def bind_try returnIO_def weight_def
      split: encode_result.splits if_splits prod.splits sum.splits)

lemma handle_staged_weight:
  assumes "handle_staged e part st w = (Inr (outcome, st'), w')"
  shows "weight job st' \<le> weight job st + 4"
  using assms
  by (auto simp: handle_staged_def bind_try returnIO_def weight_def split: if_splits prod.splits sum.splits)

lemma after_receipts_weight:
  assumes "after_receipts e outcome batch st w = (Inr (outcome', st'), w')"
  shows "weight job st' \<le> weight job st + 2 * length batch"
  using assms
proof (induction e outcome batch st arbitrary: w rule: after_receipts.induct)
  case (1 e outcome st)
  then show ?case by (simp add: returnIO_def)
next
  case (2 e outcome part batch st)
  obtain r v where r: "crash_point e w = (r, v)" by fastforce
  have clear: "weight job (release (sp_reservation part) st) = weight job st"
    "weight job (st\<lparr> co_publishable := co_publishable st @ [part] \<rparr>) = weight job st + 2" by (simp_all add: weight_def)
  show ?case
  proof (cases r)
    case (Inl err)
    then have "after_receipts e (if is_ok outcome then Inl err else outcome) batch (release (sp_reservation part) st) v =
        (Inr (outcome', st'), w')" using 2(4) r by (simp add: bind_try)
    from 2(1) [OF this] clear show ?thesis by simp
  next
    case (Inr u)
    show ?thesis
    proof (cases "co_failure st = None \<and> is_ok outcome")
      case True
      then have "after_receipts e outcome batch (st\<lparr> co_publishable := co_publishable st @ [part] \<rparr>) v = (Inr (outcome', st'), w')"
        using 2(4) r Inr by (simp add: bind_try)
      from 2(2) [OF True this] clear show ?thesis by simp
    next
      case False
      then have "after_receipts e outcome batch (release (sp_reservation part) st) v = (Inr (outcome', st'), w')"
        using 2(4) r Inr by (auto simp: bind_try)
      from 2(3) [OF False this] clear show ?thesis by simp
    qed
  qed
qed

lemma handle_recorded_weight:
  assumes "handle_recorded e job prior batch st w = (Inr (outcome, st'), w')"
  shows "weight job st' \<le> weight job st + 2 * length batch"
proof -
  obtain r v where r: "record_batch_receipts e (pj_authority job) prior batch w = (r, v)" by fastforce
  show ?thesis
  proof (cases r)
    case (Inl err)
    then show ?thesis using assms r by (auto simp: handle_recorded_def Let_def bind_try returnIO_def weight_def)
  next
    case (Inr nxt)
    then have "after_receipts e (Inr ()) batch (st\<lparr> co_recording := False, co_pending := Some nxt \<rparr>) v = (Inr (outcome, st'), w')"
      using assms r by (simp add: handle_recorded_def Let_def bind_try)
    from after_receipts_weight [OF this, of job] show ?thesis by (simp add: weight_def)
  qed
qed

lemma handle_published_weight:
  assumes "handle_published e part st w = (Inr (outcome, st'), w')"
  shows "weight job st' = weight job st"
  using assms by (auto simp: handle_published_def bind_try returnIO_def weight_def split: prod.splits sum.splits)

lemma encoder_end_weight: "encoder_end e job i r st = (result, st') \<Longrightarrow> weight job st' = weight job st \<and> result \<noteq> Exceeded"
  by (auto simp: encoder_end_def weight_def split: sum.splits prod.splits)

lemma handle_work_weight:
  assumes "handle_work e job item st w = (Inr (outcome, st'), w')"
  shows "weight job st' < weight job st + work_weight job item"
proof (cases item)
  case (Encoding i exclusive r totals)
  show ?thesis
  proof (cases totals)
    case Nil
    obtain result v where "encoder_end e job i r st = (result, v)" by fastforce
    with assms Encoding Nil have h: "handle_encoded e job i exclusive result v w = (Inr (outcome, st'), w')"
      "weight job v = weight job st" "result \<noteq> Exceeded"
      using encoder_end_weight by (auto simp: handle_work_def)
    from handle_encoded_weight [OF h(1)] h(2,3) Encoding Nil show ?thesis by simp
  next
    case (Cons n ns)
    with assms Encoding have "handle_encoded e job i exclusive Exceeded (release r st) w = (Inr (outcome, st'), w')"
      by (simp add: handle_work_def)
    from handle_encoded_weight [OF this] Encoding Cons show ?thesis by (simp add: weight_def split: if_splits)
  qed
next
  case (Staging part)
  then show ?thesis using assms handle_staged_weight [of e part st w outcome st' w' job] by (simp add: handle_work_def)
next
  case (Recording prior batch)
  then show ?thesis using assms handle_recorded_weight [of e job prior batch st w outcome st' w'] by (simp add: handle_work_def)
next
  case (Publishing part)
  then show ?thesis using assms handle_published_weight [of e part st w outcome st' w' job] by (simp add: handle_work_def)
qed

lemma sum_list_remove_nth:
  fixes f :: "'a \<Rightarrow> nat"
  shows "i < length xs \<Longrightarrow> sum_list (map f xs) = sum_list (map f (take i xs @ drop (Suc i) xs)) + f (xs ! i)"
proof -
  assume i: "i < length xs"
  have "sum_list (map f xs) = sum_list (map f (take i xs @ xs ! i # drop (Suc i) xs))" using id_take_nth_drop [OF i] by simp
  then show ?thesis by simp
qed

definition take_work :: "nat \<Rightarrow> coordinator \<Rightarrow> coordinator" where
  "take_work i st = st\<lparr> co_work := take i (co_work st) @ drop (Suc i) (co_work st) \<rparr>"

lemma take_work_weight: "i < length (co_work st) \<Longrightarrow> weight job st = weight job (take_work i st) + work_weight job (co_work st ! i)"
  using sum_list_remove_nth [of i "co_work st" "work_weight job"] by (simp add: weight_def take_work_def)

lemma encoder_progress_weight:
  assumes "encoder_progress st i = Some st'" "i < length (co_work st)"
  shows "weight job st' < weight job st"
proof -
  obtain k exclusive r n ns b r' where w: "co_work st ! i = Encoding k exclusive r (n # ns)"
    "st' = st\<lparr> co_budget := b, co_work := (co_work st)[i := Encoding k exclusive r' ns] \<rparr>"
    using assms(1) by (auto simp: encoder_progress_def split: work.splits list.splits prod.splits bool.splits)
  have "i < length (co_work st')" "take_work i st' = (take_work i st)\<lparr> co_budget := b \<rparr>"
    using assms(2) w(2) by (simp_all add: take_work_def)
  then show ?thesis
    using take_work_weight [OF assms(2), of job] take_work_weight [of i st' job] assms(2) w by (simp add: weight_def)
qed

function publish_loop :: "env \<Rightarrow> pipeline_job \<Rightarrow> bool \<Rightarrow> coordinator \<Rightarrow> coordinator io" where
  "publish_loop e job admitting st w =
     (let st1 = (if admitting \<and> co_failure st = None then admit job st else st) in
      if co_work st1 = [] then (Inr st1, w)
      else
        let i = e_schedule e (w_clock w) mod length (co_work st1); w1 = w\<lparr> w_clock := Suc (w_clock w) \<rparr> in
        case encoder_progress st1 i of
          Some st2 \<Rightarrow> publish_loop e job False st2 w1
        | None \<Rightarrow>
            (case handle_work e job (co_work st1 ! i) (take_work i st1) w1 of
               (Inl err, w2) \<Rightarrow> (Inl err, w2)
             | (Inr (outcome, st2), w2) \<Rightarrow> publish_loop e job True (note_failure outcome st2) w2))"
  by pat_completeness auto

termination
proof (relation "measure (\<lambda>(e, job, admitting, st, w). weight job st)", goal_cases)
  case (2 e job admitting st w st1 i w1 r w2 a outcome st2)
  have i: "i < length (co_work st1)" using 2(2,3) by simp
  have "weight job (note_failure outcome st2) < weight job st1"
    using handle_work_weight [of e job "co_work st1 ! i" "take_work i st1" w1 outcome st2 w2] 2
      note_failure_weight [of job outcome st2] take_work_weight [OF i, of job] by simp
  with admit_weight [of job st] 2(1) show ?case by (auto split: if_splits)
next
  case (3 e job admitting st w st1 i w1 st2)
  have "i < length (co_work st1)" using 3(2,3) by simp
  from encoder_progress_weight [OF 3(5) this, of job] admit_weight [of job st] 3(1) show ?case by (auto split: if_splits)
qed simp

declare publish_loop.simps [simp del]

definition initial_coordinator :: "pipeline_job \<Rightarrow> pending_transaction versioned \<Rightarrow> coordinator" where
  "initial_coordinator job pending =
     \<lparr> co_queue = map (\<lambda>part. (wp_entry_index part, False)) (sort_key wp_entry_index (pf_parts (pj_prepared job))),
       co_work = [], co_pending = Some pending, co_receipts = [], co_publishable = [], co_encoders = 0,
       co_publications = 0, co_recording = False, co_budget = budget_new (fc_inflight_bytes (pj_limits job)),
       co_reencoded = 0, co_oversized = 0, co_failure = None, co_underflow = False \<rparr>"

definition publish_parts ::
  "env \<Rightarrow> pipeline_job \<Rightarrow> pending_transaction versioned \<Rightarrow> pending_transaction versioned io" where
  "publish_parts e job pending =
     bindIO (liftR (concurrency_validate (pj_limits job))) (\<lambda>_.
     bindIO (liftR (for_each (\<lambda>part. bindR (estimated_part_bytes (pj_prepared job) (wp_entry_index part)) (\<lambda>_. Inr ()))
       (pf_parts (pj_prepared job)))) (\<lambda>_.
     bindIO (publish_loop e job True (initial_coordinator job pending)) (\<lambda>st.
     case co_failure st of
       Some err \<Rightarrow> failIO err
     | None \<Rightarrow>
         bindIO (liftR (require (co_queue st = [] \<and> co_receipts st = [] \<and> co_publishable st = [] \<and> ib_used (co_budget st) = 0)
           ''transaction table work ended with unfinished parts'')) (\<lambda>_.
         liftR (some_or (co_pending st) ''pending record is unavailable after publication'')))))"

end
