(* ===== verification/Pipeline_Safe.thy ===== *)
theory Pipeline_Safe
  imports Pipeline
begin

text \<open>
  The bounded table work keeps the journal ahead of the files: whatever fails, and in whatever order
  the work completes, a final part is in place only when the pending record holds the receipt that
  describes it byte for byte, so that a rollback may remove it. The invariant \<open>running\<close> of the loop says
  so and accounts for every part of the transaction.
\<close>

section \<open>Receipts\<close>

lemma receipt_only_frozen: "receipt_only q q' \<Longrightarrow> pp_receipt q = Some r \<Longrightarrow> q' = q"
  unfolding receipt_only_def by (cases q; cases q') auto

lemma receipt_only_plan: "receipt_only q q' \<Longrightarrow> same_plan p p' \<Longrightarrow> writer_plan p' q' = writer_plan p q \<and>
    pp_entry_index q' = pp_entry_index q \<and> pp_row_count q' = pp_row_count q \<and> pp_schema_sha256 q' = pp_schema_sha256 q \<and>
    pp_final q' = pp_final q \<and> pp_temporary q' = pp_temporary q"
  unfolding receipt_only_def writer_plan_def by (cases q; cases q') (auto simp: same_plan_fields)

text \<open>The journal may go on recording receipts while work with earlier receipts is under way.\<close>

definition extends_journal :: "pending_transaction \<Rightarrow> pending_transaction \<Rightarrow> bool" where
  "extends_journal p p' \<longleftrightarrow> same_plan p p' \<and> receipts_only (pt_parts p) (pt_parts p')"

definition known :: "pending_transaction \<Rightarrow> staged_part \<Rightarrow> bool" where
  "known p s \<longleftrightarrow> (\<exists>q\<in>set (pt_parts p). pp_entry_index q = sp_index s \<and>
     ep_plan (sp_encoded s) = writer_plan p q \<and> wr_row_count (ep_receipt (sp_encoded s)) = pp_row_count q \<and>
     wr_schema_sha256 (ep_receipt (sp_encoded s)) = digest_str (pp_schema_sha256 q))"

definition ready :: "pending_transaction \<Rightarrow> staged_part \<Rightarrow> bool" where
  "ready p s \<longleftrightarrow> (\<exists>q\<in>set (pt_parts p). pp_entry_index q = sp_index s \<and>
     ep_plan (sp_encoded s) = writer_plan p q \<and> writer_receipt q = Inr (ep_receipt (sp_encoded s)))"

lemma known_extends:
  assumes "extends_journal p p'" "known p s"
  shows "known p' s"
proof -
  obtain q where q: "q \<in> set (pt_parts p)" "pp_entry_index q = sp_index s" "ep_plan (sp_encoded s) = writer_plan p q"
    "wr_row_count (ep_receipt (sp_encoded s)) = pp_row_count q"
    "wr_schema_sha256 (ep_receipt (sp_encoded s)) = digest_str (pp_schema_sha256 q)"
    using assms(2) by (auto simp: known_def)
  have ex: "same_plan p p'" "receipts_only (pt_parts p) (pt_parts p')" using assms(1) by (auto simp: extends_journal_def)
  obtain q' where q': "q' \<in> set (pt_parts p')" "receipt_only q q'" using list_all2_in_left [OF ex(2) q(1)] by blast
  show ?thesis unfolding known_def using q q' receipt_only_plan [OF q'(2) ex(1)] by auto
qed

lemma ready_extends:
  assumes "extends_journal p p'" "ready p s"
  shows "ready p' s"
proof -
  obtain q where q: "q \<in> set (pt_parts p)" "pp_entry_index q = sp_index s" "ep_plan (sp_encoded s) = writer_plan p q"
    "writer_receipt q = Inr (ep_receipt (sp_encoded s))"
    using assms(2) by (auto simp: ready_def)
  have ex: "same_plan p p'" "receipts_only (pt_parts p) (pt_parts p')" using assms(1) by (auto simp: extends_journal_def)
  obtain q' where q': "q' \<in> set (pt_parts p')" "receipt_only q q'" using list_all2_in_left [OF ex(2) q(1)] by blast
  obtain r where "pp_receipt q = Some r" using q(4) by (auto simp: writer_receipt_def some_or_eq_Inr bindR_eq_Inr)
  from receipt_only_frozen [OF q'(2) this] have "q' = q" .
  then show ?thesis unfolding ready_def using q q' receipt_only_plan [OF q'(2) ex(1)] by auto
qed

lemma names_extends: "extends_journal p p' \<Longrightarrow> part_names p' = part_names p \<and> pp_final ` set (pt_parts p') = pp_final ` set (pt_parts p)"
proof -
  assume "extends_journal p p'"
  then have l: "list_all2 receipt_only (pt_parts p) (pt_parts p')" and sp: "same_plan p p'" by (auto simp: extends_journal_def)
  from l have "map pp_final (pt_parts p') = map pp_final (pt_parts p) \<and> map pp_temporary (pt_parts p') = map pp_temporary (pt_parts p)"
    by (induction rule: list_all2_induct) (use receipt_only_plan [OF _ sp] in auto)
  then show ?thesis unfolding part_names_def by (metis list.set_map)
qed

lemma rollback_safe_extends:
  assumes "extends_journal p p'" "rollback_safe e p F"
  shows "rollback_safe e p' F"
  unfolding rollback_safe_def
proof (intro ballI impI)
  fix q'
  assume q': "q' \<in> set (pt_parts p')" and present: "F (pp_final q') \<noteq> None"
  have ex: "same_plan p p'" "receipts_only (pt_parts p) (pt_parts p')" using assms(1) by (auto simp: extends_journal_def)
  obtain q where q: "q \<in> set (pt_parts p)" "receipt_only q q'" using list_all2_in_right [OF ex(2) q'] by blast
  have i: "intact e p F q" using assms(2) q present receipt_only_plan [OF q(2) ex(1)] by (simp add: rollback_safe_def)
  then obtain r where "pp_receipt q = Some r" by (auto simp: intact_def writer_receipt_def some_or_eq_Inr bindR_eq_Inr)
  from receipt_only_frozen [OF q(2) this] have "q' = q" .
  then show "intact e p' F q'" using i receipt_only_plan [OF q(2) ex(1)] by (simp add: intact_def)
qed

lemma with_receipts_recorded:
  assumes "with_receipts x d p rs = Inr p'" "rs \<noteq> []"
  shows "extends_journal p p'" "(i, r) \<in> set rs \<Longrightarrow> \<exists>q\<in>set (pt_parts p'). pp_entry_index q = i \<and> pp_receipt q = Some r"
proof -
  show "extends_journal p p'" using with_receipts_same_plan [OF assms] by (simp add: extends_journal_def)
  show "\<exists>q\<in>set (pt_parts p'). pp_entry_index q = i \<and> pp_receipt q = Some r" if "(i, r) \<in> set rs"
    using assms(1) that
  proof (induction rs arbitrary: p)
    case (Cons ir rs)
    obtain m where m: "with_receipt x p (fst ir) (snd ir) d = Inr m" "with_receipts x d m rs = Inr p'"
      using Cons.prems(1) by (auto simp: bindR_eq_Inr)
    show ?case
    proof (cases "(i, r) = ir")
      case True
      obtain q where q: "q \<in> set (pt_parts m)" "pp_entry_index q = i" "pp_receipt q = Some r"
      proof (rule with_receipt_ok [OF m(1)])
        fix us a vs
        assume "pp_entry_index a = fst ir" "m = p\<lparr> pt_parts := us @ a\<lparr> pp_receipt := Some (snd ir) \<rparr> # vs \<rparr>"
        then show thesis using True that [of "a\<lparr> pp_receipt := Some (snd ir) \<rparr>"] by auto
      qed
      show ?thesis
      proof (cases "rs = []")
        case False
        then have "receipts_only (pt_parts m) (pt_parts p')" using with_receipts_same_plan [OF m(2)] by simp
        from list_all2_in_left [OF this q(1)] obtain q' where q': "q' \<in> set (pt_parts p')" "receipt_only q q'" by blast
        from receipt_only_frozen [OF q'(2) q(3)] show ?thesis using q q'(1) by auto
      qed (use m q in auto)
    next
      case False
      then show ?thesis using Cons m(2) by simp
    qed
  qed simp
qed

section \<open>The world while a transaction is written\<close>

text \<open>
  The journal is \<open>h\<close>, still Writing; every final part in place is described by a receipt in it; the
  parts \<open>S\<close> are in place; nothing but names of the transaction changed since \<open>w0\<close>.
\<close>

definition writing ::
  "env \<Rightarrow> authority_state versioned \<Rightarrow> world \<Rightarrow> string set \<Rightarrow> pending_transaction versioned \<Rightarrow> world \<Rightarrow> bool" where
  "writing e a w0 S h w \<longleftrightarrow> w_state w = Some a \<and> w_pending w = Some h \<and> w_logs w = w_logs w0 \<and>
     w_inflight w = w_inflight w0 \<and> w_mirror w = w_mirror w0 \<and>
     validate_predecessor (e_ext e) (snd a) (snd h) = Inr () \<and> pt_phase (snd h) = Writing \<and>
     rollback_safe e (snd h) (w_files w) \<and> (\<forall>path\<in>S. w_files w path \<noteq> None) \<and>
     (\<forall>path. path \<notin> part_names (snd h) \<longrightarrow> w_files w path = w_files w0 path)"

lemma writing_clock [simp]: "writing e a w0 S h (w\<lparr> w_clock := n \<rparr>) = writing e a w0 S h w"
  by (simp add: writing_def)

lemma triple_pointwise: "(\<And>w. P w \<Longrightarrow> triple (\<lambda>v. v = w) m Q E) \<Longrightarrow> triple P m Q E"
  by (rule tripleI) (blast dest: tripleD)+

lemma triple_files:
  assumes "\<And>w. P w \<Longrightarrow> triple (has_files w (w_files w)) m Q E"
  shows "triple P m Q E"
proof (rule triple_pointwise)
  fix w
  assume "P w"
  from assms [OF this] show "triple (\<lambda>v. v = w) m Q E" by (rule triple_conseq) (simp_all add: has_files_self)
qed

lemma writing_valid: "writing e a w0 S h w \<Longrightarrow> pending_validate (e_ext e) (snd h) (au_descriptor (snd a)) = Inr ()"
  by (simp add: writing_def validate_predecessor_ok)

text \<open>A change below a temporary name, and the publication of a verified part.\<close>

lemma writing_temporary:
  assumes sha: "sha256_hex (e_ext e)" and w: "writing e a w0 S h w" and q: "q \<in> set (pt_parts (snd h))"
    and S: "S \<subseteq> pp_final ` set (pt_parts (snd h))" and hf: "has_files w ((w_files w)(pp_temporary q := c)) w'"
  shows "writing e a w0 S h w'"
proof -
  note v = writing_valid [OF w]
  have ne: "pp_final b \<noteq> pp_temporary q" if "b \<in> set (pt_parts (snd h))" for b
    by (rule part_paths_separate(1) [OF sha v that v q])
  have "rollback_safe e (snd h) ((w_files w)(pp_temporary q := c))"
    using w ne by (auto simp: writing_def rollback_safe_def intact_def part_intact_def)
  moreover have "pp_temporary q \<notin> S" using S ne by fastforce
  then have "\<forall>path\<in>S. ((w_files w)(pp_temporary q := c)) path \<noteq> None" using w by (auto simp: writing_def)
  moreover have "pp_temporary q \<in> part_names (snd h)" using q by (auto simp: part_names_def)
  ultimately show ?thesis using w hf by (auto simp: writing_def has_files_def)
qed

lemma writing_final:
  assumes sha: "sha256_hex (e_ext e)" and w: "writing e a w0 S h w" and q: "q \<in> set (pt_parts (snd h))"
    and S: "S \<subseteq> pp_final ` set (pt_parts (snd h))" and r: "writer_receipt q = Inr r"
    and v: "verify_bytes e (writer_plan (snd h) q) r bytes = Inr ()"
    and hf: "has_files w ((w_files w)(pp_final q \<mapsto> bytes, pp_temporary q := c)) w'"
  shows "writing e a w0 (insert (pp_final q) S) h w'"
proof -
  let ?F = "(w_files w)(pp_final q \<mapsto> bytes)"
  note val = writing_valid [OF w]
  have ne: "pp_final b \<noteq> pp_temporary q" if "b \<in> set (pt_parts (snd h))" for b
    by (rule part_paths_separate(1) [OF sha val that val q])
  have same: "b = q" if b: "b \<in> set (pt_parts (snd h))" "pp_final b = pp_final q" for b
  proof -
    have "pp_entry_index b = pp_entry_index q" using part_paths_separate(2) [OF sha val b(1) val q b(2)] by simp
    then show ?thesis using distinct_entries [OF val] b(1) q by (simp add: distinct_map inj_on_def)
  qed
  have "intact e (snd h) (?F(pp_temporary q := c)) b" if "b \<in> set (pt_parts (snd h))" "(?F(pp_temporary q := c)) (pp_final b) \<noteq> None" for b
  proof (cases "pp_final b = pp_final q")
    case True
    with same that(1) have "b = q" by blast
    then show ?thesis using r v ne [OF q] by (auto simp: intact_def part_intact_def)
  next
    case False
    then show ?thesis using w that ne [OF that(1)] by (auto simp: writing_def rollback_safe_def intact_def part_intact_def)
  qed
  then have "rollback_safe e (snd h) (?F(pp_temporary q := c))" by (simp add: rollback_safe_def)
  moreover have "pp_temporary q \<notin> insert (pp_final q) S" using S ne q by fastforce
  then have "\<forall>path\<in>insert (pp_final q) S. (?F(pp_temporary q := c)) path \<noteq> None"
    using w by (auto simp: writing_def)
  moreover have "pp_final q \<in> part_names (snd h)" "pp_temporary q \<in> part_names (snd h)" using q by (auto simp: part_names_def)
  ultimately show ?thesis using w hf by (auto simp: writing_def has_files_def)
qed

abbreviation finals :: "pending_transaction versioned \<Rightarrow> string set" where
  "finals h \<equiv> pp_final ` set (pt_parts (snd h))"

lemma stage_writing:
  assumes sha: "sha256_hex (e_ext e)" and s: "known (snd h) s" and S: "S \<subseteq> finals h"
  shows "triple (writing e a w0 S h) (part_stage e (sp_encoded s)) (\<lambda>_. writing e a w0 S h) (writing e a w0 S h)"
proof (rule triple_files)
  fix w
  assume w: "writing e a w0 S h w"
  obtain q where q: "q \<in> set (pt_parts (snd h))" "ep_plan (sp_encoded s) = writer_plan (snd h) q"
    using s by (auto simp: known_def)
  note tmp = writing_temporary [OF sha w q(1) S]
  have same: "has_files w (w_files w) v \<Longrightarrow> writing e a w0 S h v" for v
    using tmp [of "w_files w (pp_temporary q)" v] by simp
  show "triple (has_files w (w_files w)) (part_stage e (sp_encoded s)) (\<lambda>_. writing e a w0 S h) (writing e a w0 S h)"
    by (rule triple_conseq [OF stage_triple]) (use tmp same in \<open>auto simp: q(2) staged_def\<close>)
qed

lemma publish_writing:
  assumes sha: "sha256_hex (e_ext e)" and s: "ready (snd h) s" and S: "S \<subseteq> finals h"
  obtains q where "q \<in> set (pt_parts (snd h))" "pp_entry_index q = sp_index s"
    "triple (writing e a w0 S h) (part_publish e (ep_plan (sp_encoded s)) (ep_receipt (sp_encoded s)))
       (\<lambda>_. writing e a w0 (insert (pp_final q) S) h) (writing e a w0 S h)"
proof -
  obtain q where q: "q \<in> set (pt_parts (snd h))" "pp_entry_index q = sp_index s" "ep_plan (sp_encoded s) = writer_plan (snd h) q"
    "writer_receipt q = Inr (ep_receipt (sp_encoded s))"
    using s by (auto simp: ready_def)
  have "triple (writing e a w0 S h) (part_publish e (ep_plan (sp_encoded s)) (ep_receipt (sp_encoded s)))
       (\<lambda>_. writing e a w0 (insert (pp_final q) S) h) (writing e a w0 S h)"
  proof (rule triple_files)
    fix w
    assume w: "writing e a w0 S h w"
    have weaken: "writing e a w0 S h v" if "writing e a w0 (insert (pp_final q) S) h v" for v using that by (simp add: writing_def)
    have fin: "writing e a w0 (insert (pp_final q) S) h v"
      if "published e (writer_plan (snd h) q) (ep_receipt (sp_encoded s)) (w_files w) F'" "has_files w F' v" for F' v
      using that writing_final [OF sha w q(1) S q(4)] by (auto simp: published_def)
    have same: "has_files w (w_files w) v \<Longrightarrow> writing e a w0 S h v" for v
      using writing_temporary [OF sha w q(1) S, of "w_files w (pp_temporary q)" v] by simp
    have ne: "wp_temporary (writer_plan (snd h) q) \<noteq> wp_final (writer_plan (snd h) q)"
      using part_paths_separate(1) [OF sha writing_valid [OF w] q(1) writing_valid [OF w] q(1)] by simp
    show "triple (has_files w (w_files w)) (part_publish e (ep_plan (sp_encoded s)) (ep_receipt (sp_encoded s)))
        (\<lambda>_. writing e a w0 (insert (pp_final q) S) h) (writing e a w0 S h)"
      unfolding q(3)
      by (rule triple_conseq [OF publish_triple [OF ne]]) (use fin weaken same in blast)+
  qed
  with q that show ?thesis by blast
qed

lemma crash_writing: "triple (writing e a w0 S h) (crash_point e) (\<lambda>_. writing e a w0 S h) (writing e a w0 S h)"
  unfolding crash_point_def by (rule triple_observe) simp_all

text \<open>Recording receipts: the journal is extended by the receipts of the batch, or not at all.\<close>

lemma writing_extends:
  assumes "writing e a w0 S h w" "extends_journal (snd h) (snd h')" "validate_predecessor (e_ext e) (snd a) (snd h') = Inr ()"
    "pt_phase (snd h') = Writing" "has_journal w (Some a, Some h') w'"
  shows "writing e a w0 S h' w'"
  using assms rollback_safe_extends [OF assms(2)] names_extends [OF assms(2)] by (auto simp: writing_def has_journal_def)

lemma part_receipt_upto:
  "triple (\<lambda>w. w = v) (part_receipt_of e ep)
     (\<lambda>r w. (\<exists>n. w = v\<lparr> w_clock := n \<rparr>) \<and> pr_byte_size r = wr_byte_size (ep_receipt ep) \<and> digest_str (pr_sha256 r) = wr_sha256 (ep_receipt ep))
     (\<lambda>w. \<exists>n. w = v\<lparr> w_clock := n \<rparr>)"
  by (auto simp: triple_def part_receipt_of_def Let_def bindR_eq_Inr digest_parse_iff split: sum.splits)

lemma extends_refl [simp]: "extends_journal p p"
  by (simp add: extends_journal_def)

lemma extends_trans: "extends_journal p q \<Longrightarrow> extends_journal q r \<Longrightarrow> extends_journal p r"
  unfolding extends_journal_def by (blast intro: same_plan_trans receipts_only_trans)

lemma batch_ready:
  assumes known: "known p s" and rec: "q' \<in> set (pt_parts p')" "pp_entry_index q' = sp_index s" "pp_receipt q' = Some r"
    and r: "pr_byte_size r = wr_byte_size (ep_receipt (sp_encoded s))" "digest_str (pr_sha256 r) = wr_sha256 (ep_receipt (sp_encoded s))"
    and ex: "extends_journal p p'" and v: "pending_validate x p' d = Inr ()"
  shows "ready p' s"
proof -
  obtain q where q: "q \<in> set (pt_parts p')" "pp_entry_index q = sp_index s" "ep_plan (sp_encoded s) = writer_plan p' q"
    "wr_row_count (ep_receipt (sp_encoded s)) = pp_row_count q"
    "wr_schema_sha256 (ep_receipt (sp_encoded s)) = digest_str (pp_schema_sha256 q)"
    using known_extends [OF ex known] by (auto simp: known_def)
  have "q = q'" using distinct_entries [OF v] q(1,2) rec(1,2) by (simp add: distinct_map inj_on_def)
  then have "writer_receipt q = Inr (ep_receipt (sp_encoded s))"
    using rec(3) r q(4,5) by (simp add: writer_receipt_def)
  then show ?thesis unfolding ready_def using q by blast
qed

lemma record_writing:
  assumes known: "\<forall>s\<in>set batch. known (snd h) s"
  shows "triple (writing e a w0 S h) (record_batch_receipts e a h batch)
     (\<lambda>h' w. writing e a w0 S h' w \<and> extends_journal (snd h) (snd h') \<and> (\<forall>s\<in>set batch. ready (snd h') s))
     (\<lambda>w. \<exists>h'. writing e a w0 S h' w \<and> extends_journal (snd h) (snd h'))"
  unfolding record_batch_receipts_def
proof (rule triple_seq)
  let ?R = "\<lambda>s ir. fst ir = sp_index s \<and> pr_byte_size (snd ir) = wr_byte_size (ep_receipt (sp_encoded s)) \<and>
      digest_str (pr_sha256 (snd ir)) = wr_sha256 (ep_receipt (sp_encoded s))"
  have "triple (writing e a w0 S h) (part_receipt_of e (sp_encoded s))
      (\<lambda>r w. writing e a w0 S h w \<and> ?R s (sp_index s, r)) (writing e a w0 S h)" for s
    by (rule triple_pointwise, rule triple_conseq [OF part_receipt_upto]) auto
  then have "triple (writing e a w0 S h) (bindIO (part_receipt_of e (sp_encoded s)) (\<lambda>r. returnIO (sp_index s, r)))
      (\<lambda>ir w. writing e a w0 S h w \<and> ?R s ir) (writing e a w0 S h)" for s
    by (rule triple_bind) auto
  then show "triple (writing e a w0 S h)
      (mapIO (\<lambda>part. bindIO (part_receipt_of e (sp_encoded part)) (\<lambda>r. returnIO (sp_index part, r))) batch)
      (\<lambda>rs w. writing e a w0 S h w \<and> list_all2 ?R batch rs) (writing e a w0 S h)"
    by (rule triple_mapIO)
  show "\<exists>h'. writing e a w0 S h' w \<and> extends_journal (snd h) (snd h')" if "writing e a w0 S h w" for w
    using that by (intro exI [of _ h]) simp
  fix rs
  show "triple (\<lambda>w. writing e a w0 S h w \<and> list_all2 ?R batch rs) (store_record_receipts e a h rs)
     (\<lambda>h' w. writing e a w0 S h' w \<and> extends_journal (snd h) (snd h') \<and> (\<forall>s\<in>set batch. ready (snd h') s))
     (\<lambda>w. \<exists>h'. writing e a w0 S h' w \<and> extends_journal (snd h) (snd h'))"
  proof (rule triple_pointwise, elim conjE)
    fix w
    assume w: "writing e a w0 S h w" and rs: "list_all2 ?R batch rs"
    have j: "has_journal w (Some a, Some h) w" using w by (simp add: writing_def has_journal_def)
    have step: "writing e a w0 S h' w' \<and> extends_journal (snd h) (snd h') \<and> (\<forall>s\<in>set batch. ready (snd h') s)"
      if wr: "with_receipts (e_ext e) (au_descriptor (snd a)) (snd h) rs = Inr (snd h')" "rs \<noteq> []" "has_journal w (Some a, Some h') w'"
      for h' w'
    proof -
      note same = with_receipts_same_plan [OF wr(1,2)]
      have vp: "validate_predecessor (e_ext e) (snd a) (snd h') = Inr ()"
        by (rule same_plan_predecessor [of _ _ "snd h"]) (use w same in \<open>auto simp: writing_def\<close>)
      note ex = with_receipts_recorded(1) [OF wr(1,2)]
      have "ready (snd h') s" if s: "s \<in> set batch" for s
      proof -
        from list_all2_in_left [OF rs s] obtain ir where ir: "ir \<in> set rs" "?R s ir" ..
        obtain q where q: "q \<in> set (pt_parts (snd h'))" "pp_entry_index q = fst ir" "pp_receipt q = Some (snd ir)"
          using with_receipts_recorded(2) [OF wr(1,2), of "fst ir" "snd ir"] ir(1) by auto
        have k: "known (snd h) s" using known s by (rule bspec)
        have pv: "pending_validate (e_ext e) (snd h') (au_descriptor (snd a)) = Inr ()" using same by blast
        show ?thesis by (rule batch_ready [OF k q(1) _ q(3) _ _ ex pv]) (use q(2) ir(2) in simp_all)
      qed
      then show ?thesis using writing_extends [OF w ex vp _ wr(3)] same ex by simp
    qed
    have co: "coherent (Some a) a" "coherent (Some h) h" by simp_all
    show "triple (\<lambda>v. v = w) (store_record_receipts e a h rs)
       (\<lambda>h' w. writing e a w0 S h' w \<and> extends_journal (snd h) (snd h') \<and> (\<forall>s\<in>set batch. ready (snd h') s))
       (\<lambda>w. \<exists>h'. writing e a w0 S h' w \<and> extends_journal (snd h) (snd h'))"
    proof (rule triple_conseq [OF receipts_atomic [OF co, of w e rs, unfolded atomically_def]])
      fix v
      assume "has_journal w (Some a, Some h) v \<or> (\<exists>r k. (with_receipts (e_ext e) (au_descriptor (snd a)) (snd h) rs = Inr (snd r) \<and>
          validate_predecessor (e_ext e) (snd a) (snd h) = Inr () \<and> rs \<noteq> [] \<and> (Some a, Some h) = (Some a, Some h) \<and>
          k = (Some a, Some r)) \<and> has_journal w k v)"
      then show "\<exists>h'. writing e a w0 S h' v \<and> extends_journal (snd h) (snd h')"
      proof
        assume "has_journal w (Some a, Some h) v"
        then show ?thesis using w by (intro exI [of _ h]) (simp add: writing_def has_journal_def)
      qed (use step in blast)
    qed (use j step in auto)
  qed
qed

section \<open>The coordinator\<close>

fun item_ok :: "pending_transaction versioned \<Rightarrow> work \<Rightarrow> bool" where
  "item_ok h (Encoding i exclusive r totals) \<longleftrightarrow> True"
| "item_ok h (Staging s) \<longleftrightarrow> known (snd h) s"
| "item_ok h (Recording prior batch) \<longleftrightarrow> prior = h \<and> (\<forall>s\<in>set batch. known (snd h) s)"
| "item_ok h (Publishing s) \<longleftrightarrow> ready (snd h) s"

fun item_indices :: "work \<Rightarrow> nat set" where
  "item_indices (Encoding i exclusive r totals) = {i}"
| "item_indices (Staging s) = {sp_index s}"
| "item_indices (Recording prior batch) = sp_index ` set batch"
| "item_indices (Publishing s) = {sp_index s}"

fun is_recording :: "work \<Rightarrow> bool" where
  "is_recording (Recording prior batch) \<longleftrightarrow> True"
| "is_recording _ \<longleftrightarrow> False"

text \<open>The parts that are still on their way.\<close>

definition live_indices :: "coordinator \<Rightarrow> nat set" where
  "live_indices st = fst ` set (co_queue st) \<union> (\<Union>item\<in>set (co_work st). item_indices item) \<union>
     sp_index ` set (co_receipts st) \<union> sp_index ` set (co_publishable st)"

definition items_ok :: "pending_transaction versioned \<Rightarrow> coordinator \<Rightarrow> bool" where
  "items_ok h st \<longleftrightarrow> (\<forall>item\<in>set (co_work st). item_ok h item) \<and> (\<forall>s\<in>set (co_receipts st). known (snd h) s) \<and>
     (\<forall>s\<in>set (co_publishable st). ready (snd h) s)"

definition rec_ok :: "coordinator \<Rightarrow> nat \<Rightarrow> bool" where
  "rec_ok st k \<longleftrightarrow> length (filter is_recording (co_work st)) + k = (if co_recording st then 1 else 0)"

definition pend_ok :: "pending_transaction versioned \<Rightarrow> coordinator \<Rightarrow> bool" where
  "pend_ok h st \<longleftrightarrow> (co_failure st = None \<longrightarrow> co_pending st = (if co_recording st then None else Some h))"

definition placed :: "pending_transaction versioned \<Rightarrow> coordinator \<Rightarrow> nat set \<Rightarrow> string set \<Rightarrow> bool" where
  "placed h st X S \<longleftrightarrow> (co_failure st = None \<longrightarrow>
     (\<forall>q\<in>set (pt_parts (snd h)). pp_entry_index q \<in> live_indices st \<union> X \<or> pp_final q \<in> S))"

definition job_ok :: "pipeline_job \<Rightarrow> pending_transaction \<Rightarrow> bool" where
  "job_ok job p \<longleftrightarrow> pf_parts (pj_prepared job) = map (writer_plan p) (pt_parts p)"

lemma job_ok_extends: "extends_journal p p' \<Longrightarrow> job_ok job p \<Longrightarrow> job_ok job p'"
proof -
  assume "extends_journal p p'" and j: "job_ok job p"
  then have l: "list_all2 receipt_only (pt_parts p) (pt_parts p')" and sp: "same_plan p p'" by (auto simp: extends_journal_def)
  from l have "map (writer_plan p') (pt_parts p') = map (writer_plan p) (pt_parts p)"
    by (induction rule: list_all2_induct) (use receipt_only_plan [OF _ sp] in auto)
  with j show ?thesis by (simp add: job_ok_def)
qed

lemma placed_extends:
  assumes "extends_journal (snd h) (snd h')" "placed h st X S"
  shows "placed h' st X S"
  unfolding placed_def
proof (intro impI ballI)
  fix q'
  assume f: "co_failure st = None" and q': "q' \<in> set (pt_parts (snd h'))"
  have ex: "same_plan (snd h) (snd h')" "receipts_only (pt_parts (snd h)) (pt_parts (snd h'))"
    using assms(1) by (auto simp: extends_journal_def)
  obtain q where q: "q \<in> set (pt_parts (snd h))" "receipt_only q q'" using list_all2_in_right [OF ex(2) q'] by blast
  show "pp_entry_index q' \<in> live_indices st \<union> X \<or> pp_final q' \<in> S"
    using assms(2) f q(1) receipt_only_plan [OF q(2) ex(1)] by (simp add: placed_def)
qed

lemma item_ok_extends: "extends_journal (snd h) (snd h') \<Longrightarrow> item_ok h item \<Longrightarrow> \<not> is_recording item \<Longrightarrow> item_ok h' item"
  by (cases item) (auto intro: known_extends ready_extends)

text \<open>What handling one piece of work leaves.\<close>

definition good ::
  "env \<Rightarrow> authority_state versioned \<Rightarrow> world \<Rightarrow> pending_transaction versioned \<Rightarrow> unit result \<times> coordinator \<Rightarrow> world \<Rightarrow> bool" where
  "good e a w0 h os w \<longleftrightarrow> (\<exists>h' S. writing e a w0 S h' w \<and> S \<subseteq> finals h' \<and> extends_journal (snd h) (snd h') \<and>
     items_ok h' (snd os) \<and> rec_ok (snd os) 0 \<and>
     (is_ok (fst os) \<longrightarrow> pend_ok h' (snd os) \<and> placed h' (snd os) {} S))"

lemma goodI:
  assumes "writing e a w0 S h' w" "S \<subseteq> finals h'" "extends_journal (snd h) (snd h')" "items_ok h' st" "rec_ok st 0"
    "is_ok outcome \<Longrightarrow> pend_ok h' st" "is_ok outcome \<Longrightarrow> placed h' st {} S"
  shows "good e a w0 h (outcome, st) w"
  using assms unfolding good_def by (intro exI conjI) auto

lemma live_indices_simps [simp]:
  "live_indices (st\<lparr> co_pending := v1 \<rparr>) = live_indices st"
  "live_indices (st\<lparr> co_encoders := n \<rparr>) = live_indices st"
  "live_indices (st\<lparr> co_publications := n \<rparr>) = live_indices st"
  "live_indices (st\<lparr> co_recording := b \<rparr>) = live_indices st"
  "live_indices (st\<lparr> co_oversized := n \<rparr>) = live_indices st"
  "live_indices (st\<lparr> co_reencoded := n \<rparr>) = live_indices st"
  "live_indices (st\<lparr> co_budget := bu \<rparr>) = live_indices st"
  "live_indices (st\<lparr> co_underflow := b \<rparr>) = live_indices st"
  "live_indices (release r st) = live_indices st"
  by (simp_all add: live_indices_def)

lemma known_encoded:
  assumes "job_ok job p" "encode_finish x (pj_prepared job) i = Inr ep"
  shows "known p \<lparr> sp_index = i, sp_encoded = ep, sp_reservation = r \<rparr>"
proof -
  obtain plan batch where pb: "prepared_part (pj_prepared job) i = Inr (plan, batch)" "ep_plan ep = plan"
    "wr_row_count (ep_receipt ep) = wp_row_count plan" "wr_schema_sha256 (ep_receipt ep) = wp_schema_sha256 plan"
    using assms(2) by (auto simp: encode_finish_def bindR_eq_Inr split: prod.splits option.splits)
  then have "plan \<in> set (pf_parts (pj_prepared job))" "wp_entry_index plan = i"
    by (auto simp: prepared_part_def bindR_eq_Inr some_or_eq_Inr find_Some_iff)
  then obtain q where "q \<in> set (pt_parts p)" "plan = writer_plan p q" "pp_entry_index q = i"
    using assms(1) by (auto simp: job_ok_def writer_plan_def)
  then show ?thesis unfolding known_def using pb by (auto simp: writer_plan_def)
qed

lemma triple_bind_try:
  assumes "triple P m Q E" "\<And>a. triple (Q a) (f (Inr a)) R F" "\<And>err. triple E (f (Inl err)) R F"
  shows "triple P (bindIO (tryIO m) f) R F"
proof (rule triple_bind [OF triple_try [OF assms(1)]])
  fix r
  show "triple (\<lambda>w. case r of Inl _ \<Rightarrow> E w | Inr a \<Rightarrow> Q a w) (f r) R F"
    using assms(2,3) by (cases r) simp_all
qed

definition busy :: "pending_transaction versioned \<Rightarrow> string set \<Rightarrow> coordinator \<Rightarrow> nat \<Rightarrow> nat set \<Rightarrow> bool" where
  "busy h S st k X \<longleftrightarrow> S \<subseteq> finals h \<and> items_ok h st \<and> rec_ok st k \<and> pend_ok h st \<and> placed h st X S"

lemmas busy_defs = busy_def items_ok_def rec_ok_def pend_ok_def placed_def live_indices_def

lemma good_same:
  assumes "writing e a w0 S h w" "busy h S st' 0 {}"
  shows "good e a w0 h (outcome, st') w"
  using assms by (intro goodI [of e a w0 S h]) (auto simp: busy_def)

lemma good_failed:
  assumes "writing e a w0 S h w" "S \<subseteq> finals h" "items_ok h st'" "rec_ok st' 0"
  shows "good e a w0 h (Inl err, st') w"
  using assms by (intro goodI [of e a w0 S h]) auto

lemma staged_writing:
  assumes sha: "sha256_hex (e_ext e)" and s: "known (snd h) s" and S: "S \<subseteq> finals h"
  shows "triple (writing e a w0 S h) (bindIO (part_stage e (sp_encoded s)) (\<lambda>_. crash_point e))
    (\<lambda>_. writing e a w0 S h) (writing e a w0 S h)"
  by (rule triple_bind [OF stage_writing [OF assms] crash_writing])

lemma handle_staged_good:
  assumes sha: "sha256_hex (e_ext e)" and s: "known (snd h) s" and b: "busy h S st 0 {sp_index s}"
  shows "triple (writing e a w0 S h) (handle_staged e s st) (good e a w0 h) (\<lambda>_. False)"
  unfolding handle_staged_def
proof (rule triple_bind_try)
  show "triple (writing e a w0 S h) (bindIO (part_stage e (sp_encoded s)) (\<lambda>_. crash_point e))
    (\<lambda>_. writing e a w0 S h) (writing e a w0 S h)"
    by (rule staged_writing [OF sha s]) (use b in \<open>simp add: busy_def\<close>)
  have "busy h S (st\<lparr> co_receipts := co_receipts st @ [s] \<rparr>) 0 {}" using b s by (auto simp: busy_defs)
  moreover have "co_failure st \<noteq> None \<Longrightarrow> busy h S (release (sp_reservation s) st) 0 {}" using b by (auto simp: busy_defs)
  ultimately show "triple (writing e a w0 S h)
      (case Inr r of Inl err \<Rightarrow> returnIO (Inl err, release (sp_reservation s) st)
       | Inr _ \<Rightarrow> if co_failure st = None then returnIO (Inr (), st\<lparr> co_receipts := co_receipts st @ [s] \<rparr>)
           else returnIO (Inr (), release (sp_reservation s) st)) (good e a w0 h) (\<lambda>_. False)" for r
    by (auto intro!: triple_return good_same)
  have "items_ok h (release (sp_reservation s) st)" "rec_ok (release (sp_reservation s) st) 0" "S \<subseteq> finals h"
    using b by (simp_all add: busy_defs)
  then show "triple (writing e a w0 S h)
      (case Inl err of Inl err \<Rightarrow> returnIO (Inl err, release (sp_reservation s) st)
       | Inr _ \<Rightarrow> if co_failure st = None then returnIO (Inr (), st\<lparr> co_receipts := co_receipts st @ [s] \<rparr>)
           else returnIO (Inr (), release (sp_reservation s) st)) (good e a w0 h) (\<lambda>_. False)" for err
    by (auto intro!: triple_return good_failed)
qed

lemma handle_published_good:
  assumes sha: "sha256_hex (e_ext e)" and s: "ready (snd h) s" and b: "busy h S st 0 {sp_index s}"
  shows "triple (writing e a w0 S h) (handle_published e s st) (good e a w0 h) (\<lambda>_. False)"
proof -
  let ?st = "release (sp_reservation s) (st\<lparr> co_publications := co_publications st - 1 \<rparr>)"
  have S: "S \<subseteq> finals h" using b by (simp add: busy_def)
  obtain q where q: "q \<in> set (pt_parts (snd h))" "pp_entry_index q = sp_index s"
    "triple (writing e a w0 S h) (part_publish e (ep_plan (sp_encoded s)) (ep_receipt (sp_encoded s)))
       (\<lambda>_. writing e a w0 (insert (pp_final q) S) h) (writing e a w0 S h)"
    by (rule publish_writing [OF sha s S])
  have rest: "items_ok h ?st" "rec_ok ?st 0" "pend_ok h ?st" using b by (simp_all add: busy_defs)
  have placed: "placed h ?st {} (insert (pp_final q) S)" if w: "writing e a w0 S' h w" for S' w
    unfolding placed_def
  proof (intro impI ballI)
    fix b'
    assume f: "co_failure ?st = None" and b': "b' \<in> set (pt_parts (snd h))"
    have "b' = q" if "pp_entry_index b' = sp_index s"
      using distinct_entries [OF writing_valid [OF w]] b' q(1,2) that by (simp add: distinct_map inj_on_def)
    then show "pp_entry_index b' \<in> live_indices ?st \<union> {} \<or> pp_final b' \<in> insert (pp_final q) S"
      using b b' f by (auto simp: busy_def placed_def)
  qed
  have m: "triple (writing e a w0 S h)
      (bindIO (part_publish e (ep_plan (sp_encoded s)) (ep_receipt (sp_encoded s))) (\<lambda>_. crash_point e))
      (\<lambda>_. writing e a w0 (insert (pp_final q) S) h) (\<lambda>w. writing e a w0 S h w \<or> writing e a w0 (insert (pp_final q) S) h w)"
    by (rule triple_seq [OF q(3)], simp, rule triple_conseq [OF crash_writing]) auto
  have ins: "insert (pp_final q) S \<subseteq> finals h" using S q(1) by auto
  show ?thesis
    unfolding handle_published_def
  proof (rule triple_bind_try [OF m])
    show "triple (writing e a w0 (insert (pp_final q) S) h)
       (returnIO (case Inr r of Inl err \<Rightarrow> Inl err | Inr _ \<Rightarrow> Inr (), ?st)) (good e a w0 h) (\<lambda>_. False)" for r
      unfolding sum.case by (rule triple_return, rule goodI [OF _ ins _ rest(1,2,3)]) (use placed in auto)
    show "triple (\<lambda>w. writing e a w0 S h w \<or> writing e a w0 (insert (pp_final q) S) h w)
       (returnIO (case Inl err of Inl err \<Rightarrow> Inl err | Inr _ \<Rightarrow> Inr (), ?st)) (good e a w0 h) (\<lambda>_. False)" for err
      unfolding sum.case
      by (rule triple_return, erule disjE) (rule good_failed [OF _ S rest(1,2)], assumption, rule good_failed [OF _ ins rest(1,2)], assumption)
  qed
qed

lemma handle_encoded_good:
  assumes sha: "sha256_hex (e_ext e)" and b: "busy h S st 0 {i}"
    and result: "\<And>s. result = Encoded s \<Longrightarrow> known (snd h) s \<and> sp_index s = i"
  shows "triple (writing e a w0 S h) (handle_encoded e job i exclusive result st) (good e a w0 h) (\<lambda>_. False)"
proof -
  let ?st = "st\<lparr> co_encoders := co_encoders st - 1 \<rparr>"
  have S: "S \<subseteq> finals h" and ok: "items_ok h ?st" "rec_ok ?st 0" using b by (simp_all add: busy_defs)
  show ?thesis
  proof (cases result)
    case (Encoded s)
    have s: "known (snd h) s" "sp_index s = i" using result [OF Encoded] by simp_all
    define st1 where "st1 = (if ib_limit (co_budget ?st) < wr_byte_size (ep_receipt (sp_encoded s))
      then ?st\<lparr> co_oversized := co_oversized ?st + 1 \<rparr> else ?st)"
    have b1: "busy h S st1 0 {i}" using b by (simp add: st1_def busy_defs)
    have lane: "busy h S (st1\<lparr> co_work := co_work st1 @ [Staging s] \<rparr>) 0 {}"
      and direct: "busy h S (st1\<lparr> co_receipts := co_receipts st1 @ [s] \<rparr>) 0 {}" using b1 s by (auto simp: busy_defs)
    have failed: "items_ok h (release (sp_reservation s) st1)" "rec_ok (release (sp_reservation s) st1) 0"
      using b1 by (simp_all add: busy_defs)
    have stop: "busy h S (release (sp_reservation s) ?st) 0 {}" if "co_failure ?st \<noteq> None" using b that by (auto simp: busy_defs)
    have stage: "triple (writing e a w0 S h)
        (bindIO (tryIO (bindIO (part_stage e (sp_encoded s)) (\<lambda>_. crash_point e))) (\<lambda>r. case r of
            Inr _ \<Rightarrow> returnIO (Inr (), st1\<lparr> co_receipts := co_receipts st1 @ [s] \<rparr>)
          | Inl err \<Rightarrow> returnIO (Inl err, release (sp_reservation s) st1))) (good e a w0 h) (\<lambda>_. False)"
      by (rule triple_bind_try [OF staged_writing [OF sha s(1) S]]; unfold sum.case; rule triple_return)
        (erule good_same [OF _ direct], erule good_failed [OF _ S failed])
    have "handle_encoded e job i exclusive result st =
        (if co_failure ?st = None then
           if pj_lane job then returnIO (Inr (), st1\<lparr> co_work := co_work st1 @ [Staging s] \<rparr>)
           else bindIO (tryIO (bindIO (part_stage e (sp_encoded s)) (\<lambda>_. crash_point e))) (\<lambda>r. case r of
              Inr _ \<Rightarrow> returnIO (Inr (), st1\<lparr> co_receipts := co_receipts st1 @ [s] \<rparr>)
            | Inl err \<Rightarrow> returnIO (Inl err, release (sp_reservation s) st1))
         else returnIO (Inr (), release (sp_reservation s) ?st))"
      unfolding handle_encoded_def Let_def Encoded st1_def by simp
    moreover have "triple (writing e a w0 S h) (returnIO (Inr (), st1\<lparr> co_work := co_work st1 @ [Staging s] \<rparr>)) (good e a w0 h) (\<lambda>_. False)"
      by (rule triple_return, erule good_same [OF _ lane])
    moreover have "triple (writing e a w0 S h) (returnIO (Inr (), release (sp_reservation s) ?st)) (good e a w0 h) (\<lambda>_. False)"
      if "co_failure ?st \<noteq> None"
      by (rule triple_return, erule good_same [OF _ stop [OF that]])
    ultimately show ?thesis using stage by (simp split: if_split)
  next
    case Exceeded
    have "busy h S (?st\<lparr> co_reencoded := co_reencoded ?st + 1, co_queue := (i, True) # co_queue ?st \<rparr>) 0 {}"
      using b by (auto simp: busy_defs)
    then show ?thesis
      unfolding handle_encoded_def Let_def Exceeded encode_result.case
      by (cases exclusive) (auto intro!: triple_return good_same good_failed [OF _ S ok, unfolded One_nat_def])
  next
    case (EncodeFailed err)
    show ?thesis unfolding handle_encoded_def Let_def EncodeFailed encode_result.case
      by (rule triple_return, erule good_failed [OF _ S ok])
  qed
qed

lemma after_receipts_good:
  assumes "S \<subseteq> finals h" "items_ok h st" "rec_ok st 0" "\<forall>s\<in>set batch. ready (snd h) s"
    "is_ok outcome \<Longrightarrow> pend_ok h st" "is_ok outcome \<Longrightarrow> placed h st (sp_index ` set batch) S"
  shows "triple (writing e a w0 S h) (after_receipts e outcome batch st) (good e a w0 h) (\<lambda>_. False)"
  using assms
proof (induction e outcome batch st rule: after_receipts.induct)
  case (1 e outcome st)
  then show ?case by (auto intro!: triple_return intro: goodI [OF _ "1.prems"(1)])
next
  case (2 e outcome s batch st)
  let ?rel = "release (sp_reservation s) st" and ?pub = "st\<lparr> co_publishable := co_publishable st @ [s] \<rparr>"
  have rel: "items_ok h ?rel" "rec_ok ?rel 0" and pub: "items_ok h ?pub" "rec_ok ?pub 0"
    using "2.prems"(2,3,4) by (auto simp: items_ok_def rec_ok_def)
  have batch: "\<forall>s\<in>set batch. ready (snd h) s" using "2.prems"(4) by simp
  show ?case
    unfolding after_receipts.simps
  proof (rule triple_bind_try [OF crash_writing]; unfold sum.case)
    fix err
    show "triple (writing e a w0 S h) (after_receipts e (if is_ok outcome then Inl err else outcome) batch ?rel) (good e a w0 h) (\<lambda>_. False)"
      by (rule "2.IH"(1) [OF "2.prems"(1) rel batch]) (cases outcome, simp_all)+
  next
    fix u
    show "triple (writing e a w0 S h) (if co_failure st = None \<and> is_ok outcome then after_receipts e outcome batch ?pub
        else after_receipts e outcome batch ?rel) (good e a w0 h) (\<lambda>_. False)"
    proof (cases "co_failure st = None \<and> is_ok outcome")
      case True
      have "pend_ok h ?pub" "placed h ?pub (sp_index ` set batch) S"
        using "2.prems"(5,6) True by (auto simp: pend_ok_def placed_def live_indices_def)
      then show ?thesis using "2.IH"(2) [OF True "2.prems"(1) pub batch] True by simp
    next
      case False
      have "pend_ok h ?rel" "placed h ?rel (sp_index ` set batch) S" if "is_ok outcome"
        using that False by (auto simp: pend_ok_def placed_def)
      then show ?thesis unfolding if_not_P [OF False] using "2.IH"(3) [OF False "2.prems"(1) rel batch] by simp
    qed
  qed
qed

lemma items_ok_extends:
  assumes "extends_journal (snd h) (snd h')" "items_ok h st" "rec_ok st 1" "co_recording st"
  shows "items_ok h' st"
proof -
  have none: "\<not> is_recording item" if "item \<in> set (co_work st)" for item
    using assms(3,4) that by (simp add: rec_ok_def filter_empty_conv)
  show ?thesis
    using assms(2) item_ok_extends [OF assms(1) _ none] known_extends [OF assms(1)] ready_extends [OF assms(1)]
    by (simp add: items_ok_def)
qed

lemma handle_recorded_good:
  assumes b: "busy h S st 1 (sp_index ` set batch)" and known: "\<forall>s\<in>set batch. known (snd h) s" and auth: "pj_authority job = a"
  shows "triple (writing e a w0 S h) (handle_recorded e job h batch st) (good e a w0 h) (\<lambda>_. False)"
proof -
  let ?st = "st\<lparr> co_recording := False \<rparr>"
  have r: "co_recording st" "rec_ok ?st 0" "S \<subseteq> finals h" "rec_ok st 1" "items_ok h st" "placed h st (sp_index ` set batch) S"
    using b by (auto simp: busy_def rec_ok_def split: if_splits)
  have ext: "items_ok h' ?st" "S \<subseteq> finals h'" "placed h' ?st (sp_index ` set batch) S"
    if "extends_journal (snd h) (snd h')" for h'
  proof -
    show "items_ok h' ?st" using items_ok_extends [OF that r(5,4,1)] by (simp add: items_ok_def)
    show "S \<subseteq> finals h'" using r(3) names_extends [OF that] by simp
    show "placed h' ?st (sp_index ` set batch) S" using placed_extends [OF that r(6)] by (simp add: placed_def)
  qed
  show ?thesis
    unfolding handle_recorded_def Let_def auth
  proof (rule triple_bind_try [OF record_writing [OF known]]; unfold sum.case)
    fix h'
    have "triple (writing e a w0 S h') (after_receipts e (Inr ()) batch (?st\<lparr> co_pending := Some h' \<rparr>)) (good e a w0 h) (\<lambda>_. False)"
      if ex: "extends_journal (snd h) (snd h')" and rd: "\<forall>s\<in>set batch. ready (snd h') s"
    proof (rule triple_conseq [OF after_receipts_good])
      show "S \<subseteq> finals h'" by (rule ext [OF ex])
      show "items_ok h' (?st\<lparr> co_pending := Some h' \<rparr>)" "rec_ok (?st\<lparr> co_pending := Some h' \<rparr>) 0" "pend_ok h' (?st\<lparr> co_pending := Some h' \<rparr>)"
        "placed h' (?st\<lparr> co_pending := Some h' \<rparr>) (sp_index ` set batch) S"
        using ext [OF ex] r(2) by (simp_all add: items_ok_def rec_ok_def pend_ok_def placed_def)
      show "good e a w0 h os w" if "good e a w0 h' os w" for os w
        using that extends_trans [OF ex] unfolding good_def by blast
    qed (use rd in auto)
    then show "triple (\<lambda>w. writing e a w0 S h' w \<and> extends_journal (snd h) (snd h') \<and> (\<forall>s\<in>set batch. ready (snd h') s))
        (after_receipts e (Inr ()) batch (?st\<lparr> co_pending := Some h' \<rparr>)) (good e a w0 h) (\<lambda>_. False)"
      by (auto simp: triple_def)
  next
    fix err
    let ?rel = "release_all batch (?st\<lparr> co_pending := Some h \<rparr>)"
    have "items_ok h' ?rel" "rec_ok ?rel 0" if "extends_journal (snd h) (snd h')" for h'
      using ext(1) [OF that] r(2) by (simp_all add: items_ok_def rec_ok_def)
    then show "triple (\<lambda>w. \<exists>h'. writing e a w0 S h' w \<and> extends_journal (snd h) (snd h')) (returnIO (Inl err, ?rel)) (good e a w0 h) (\<lambda>_. False)"
      by (intro triple_return, elim exE conjE) (rule goodI, assumption, erule ext(2), simp_all)
  qed
qed

lemma busy_budget: "busy h S (st\<lparr> co_budget := bu \<rparr>) k X = busy h S st k X" "busy h S (st\<lparr> co_underflow := u \<rparr>) k X = busy h S st k X"
  by (simp_all add: busy_defs)

lemma busy_release: "busy h S (release r st) k X = busy h S st k X"
  by (simp add: busy_defs)

lemma handle_work_good:
  assumes sha: "sha256_hex (e_ext e)" and item: "item_ok h item"
    and b: "busy h S st (if is_recording item then 1 else 0) (item_indices item)"
    and job: "job_ok job (snd h)" "pj_authority job = a"
  shows "triple (writing e a w0 S h) (handle_work e job item st) (good e a w0 h) (\<lambda>_. False)"
proof (cases item)
  case (Encoding i exclusive r totals)
  show ?thesis
  proof (cases totals)
    case Nil
    obtain result st' where end': "encoder_end e job i r st = (result, st')" by fastforce
    then have "busy h S st' 0 {i}" and "result = Encoded s \<Longrightarrow> known (snd h) s \<and> sp_index s = i" for s
      using b Encoding known_encoded [OF job(1)]
      by (auto simp: encoder_end_def busy_budget busy_release split: sum.splits prod.splits)
    from handle_encoded_good [OF sha this] show ?thesis by (simp add: handle_work_def Encoding Nil end')
  next
    case (Cons n ns)
    have "busy h S (release r st) 0 {i}" using b Encoding by (simp add: busy_release)
    from handle_encoded_good [OF sha this, of Exceeded] show ?thesis by (simp add: handle_work_def Encoding Cons)
  qed
next
  case (Staging s)
  then show ?thesis using handle_staged_good [OF sha, of h s S st] item b by (simp add: handle_work_def)
next
  case (Recording prior batch)
  then show ?thesis using handle_recorded_good [of h S st batch job a e w0] item b job by (simp add: handle_work_def)
next
  case (Publishing s)
  then show ?thesis using handle_published_good [OF sha, of h s S st] item b by (simp add: handle_work_def)
qed

section \<open>The loop\<close>

lemma busy_take:
  assumes b: "busy h S st 0 {}" and i: "i < length (co_work st)"
  shows "busy h S (take_work i st) (if is_recording (co_work st ! i) then 1 else 0) (item_indices (co_work st ! i))" (is ?busy)
    and "item_ok h (co_work st ! i)"
proof -
  have w: "co_work st = take i (co_work st) @ co_work st ! i # drop (Suc i) (co_work st)" by (rule id_take_nth_drop [OF i])
  let ?w = "take i (co_work st) @ drop (Suc i) (co_work st)"
  have set_w: "set (co_work st) = insert (co_work st ! i) (set ?w)" by (subst w) auto
  show "item_ok h (co_work st ! i)" using b i by (simp add: busy_def items_ok_def)
  have "items_ok h (take_work i st)" using b set_w by (simp add: busy_def items_ok_def take_work_def)
  moreover have "length (filter is_recording (co_work st)) = length (filter is_recording ?w) + (if is_recording (co_work st ! i) then 1 else 0)"
    by (subst w) simp
  then have "rec_ok (take_work i st) (if is_recording (co_work st ! i) then 1 else 0)" using b by (simp add: busy_def rec_ok_def take_work_def)
  moreover have "live_indices st = live_indices (take_work i st) \<union> item_indices (co_work st ! i)"
    unfolding live_indices_def set_w by (auto simp: take_work_def)
  then have "placed h (take_work i st) (item_indices (co_work st ! i)) S" using b by (simp add: busy_def placed_def take_work_def)
  ultimately show ?busy using b by (simp add: busy_def pend_ok_def take_work_def)
qed

lemma busy_progress:
  assumes "busy h S st 0 {}" "encoder_progress st i = Some st'" "i < length (co_work st)"
  shows "busy h S st' 0 {}"
proof -
  obtain k exclusive r n ns b r' where w: "co_work st ! i = Encoding k exclusive r (n # ns)"
    "st' = st\<lparr> co_budget := b, co_work := (co_work st)[i := Encoding k exclusive r' ns] \<rparr>"
    using assms(2) by (auto simp: encoder_progress_def split: work.splits list.splits prod.splits bool.splits)
  let ?l = "take i (co_work st)" and ?r = "drop (Suc i) (co_work st)"
  have old: "co_work st = ?l @ Encoding k exclusive r (n # ns) # ?r" using id_take_nth_drop [OF assms(3)] w(1) by simp
  have new: "co_work st' = ?l @ Encoding k exclusive r' ns # ?r" using w(2) assms(3) by (simp add: upd_conv_take_nth_drop)
  have "live_indices st' = live_indices st" unfolding live_indices_def new by (subst (3) old) (simp add: w(2))
  moreover have "filter is_recording (co_work st') = filter is_recording (co_work st)" unfolding new by (subst (3) old) simp
  moreover have "\<forall>item\<in>set (co_work st'). item_ok h item"
  proof -
    have "set (co_work st') \<subseteq> insert (Encoding k exclusive r' ns) (set (co_work st))" using w(2) by (simp add: set_update_subset_insert)
    then show ?thesis using assms(1) by (auto simp: busy_def items_ok_def)
  qed
  ultimately show ?thesis using assms(1) w(2) by (simp add: busy_def items_ok_def rec_ok_def pend_ok_def placed_def)
qed

lemma busy_admit_encoders:
  "busy h S (st\<lparr> co_queue := queue \<rparr>) 0 {} \<Longrightarrow> busy h S (admit_encoders job queue st) 0 {}"
proof (induction job queue st rule: admit_encoders.induct)
  case (2 job i exc queue st)
  show ?case
  proof (cases "co_encoders st < fc_encoders (pj_limits job)")
    case True
    define exclusive where "exclusive = (exc \<or> ib_limit (co_budget st) \<le> part_estimate (pj_prepared job) i)"
    show ?thesis
    proof (cases "if exclusive then try_reserve_exclusive (co_budget st) else try_reserve (co_budget st) (part_estimate (pj_prepared job) i)")
      case None
      then show ?thesis using True 2(2) by (simp add: Let_def exclusive_def)
    next
      case (Some br)
      obtain b r where br: "br = (b, r)" by fastforce
      let ?st = "st\<lparr> co_encoders := co_encoders st + 1, co_budget := b,
        co_work := co_work st @ [Encoding i exclusive r (write_totals 0 (fst (part_writes (pj_prepared job) i)))] \<rparr>"
      have "admit_encoders job ((i, exc) # queue) st = admit_encoders job queue ?st"
        using True Some by (simp add: Let_def exclusive_def br)
      moreover have "busy h S (?st\<lparr> co_queue := queue \<rparr>) 0 {}" using 2(2) by (auto simp: busy_defs)
      then have "busy h S (admit_encoders job queue ?st) 0 {}" using "2.IH" True Some by (simp add: exclusive_def br)
      ultimately show ?thesis by simp
    qed
  qed (use 2(2) in simp)
qed simp

lemma busy_admit_recording: "busy h S st 0 {} \<Longrightarrow> co_failure st = None \<Longrightarrow> busy h S (admit_recording st) 0 {}"
  by (auto simp: admit_recording_def busy_defs split: option.splits)

lemma busy_admit_publications:
  "busy h S (st\<lparr> co_publishable := ps \<rparr>) 0 {} \<Longrightarrow> busy h S (admit_publications limit ps st) 0 {}"
proof (induction limit ps st rule: admit_publications.induct)
  case (2 limit s ps st)
  let ?st = "st\<lparr> co_publications := co_publications st + 1, co_work := co_work st @ [Publishing s] \<rparr>"
  have "busy h S (?st\<lparr> co_publishable := ps \<rparr>) 0 {}" using 2(2) by (auto simp: busy_defs)
  then show ?case using 2 by simp
qed simp

lemma admit_fields [simp]:
  "co_failure (admit_encoders job queue st) = co_failure st" "co_failure (admit_recording st) = co_failure st"
  "co_failure (admit_publications limit ps st) = co_failure st" "co_failure (admit job st) = co_failure st"
proof -
  show 1: "co_failure (admit_encoders job queue st) = co_failure st" for queue
    by (induction job queue st rule: admit_encoders.induct) (auto simp: Let_def split: option.splits if_splits)
  show 2: "co_failure (admit_recording st) = co_failure st" for st by (simp add: admit_recording_def split: option.splits)
  show 3: "co_failure (admit_publications limit ps st) = co_failure st" for limit ps st
    by (induction limit ps st rule: admit_publications.induct) auto
  show "co_failure (admit job st) = co_failure st" by (simp add: admit_def Let_def 1 2 3)
qed

lemma busy_admit: "busy h S st 0 {} \<Longrightarrow> co_failure st = None \<Longrightarrow> busy h S (admit job st) 0 {}"
  unfolding admit_def Let_def
  by (rule busy_admit_publications, simp, rule busy_admit_recording, rule busy_admit_encoders) simp_all

text \<open>The invariant of the loop.\<close>

definition running :: "env \<Rightarrow> authority_state versioned \<Rightarrow> world \<Rightarrow> pending_transaction versioned \<Rightarrow> coordinator \<Rightarrow> world \<Rightarrow> bool" where
  "running e a w0 h0 st w \<longleftrightarrow> (\<exists>h S. writing e a w0 S h w \<and> busy h S st 0 {} \<and> extends_journal (snd h0) (snd h))"

lemma note_failure_running:
  assumes "good e a w0 h (outcome, st) w" "extends_journal (snd h0) (snd h)"
  shows "running e a w0 h0 (note_failure outcome st) w"
proof -
  obtain h' S where g: "writing e a w0 S h' w" "S \<subseteq> finals h'" "extends_journal (snd h) (snd h')" "items_ok h' st" "rec_ok st 0"
    "is_ok outcome \<Longrightarrow> pend_ok h' st" "is_ok outcome \<Longrightarrow> placed h' st {} S"
    using assms(1) by (auto simp: good_def)
  have "busy h' S (note_failure outcome st) 0 {}"
    using g by (cases outcome) (auto simp: busy_def note_failure_def items_ok_def rec_ok_def pend_ok_def placed_def)
  then show ?thesis using g(1) extends_trans [OF assms(2) g(3)] unfolding running_def by blast
qed

text \<open>
  The rule for the loop: an invariant of admission, of the progress of an encoder and of every handled
  piece of work holds at the end, when nothing runs any more and the last admission admitted nothing.
\<close>

lemma publish_loop_rule:
  assumes admit: "\<And>st w. I st w \<Longrightarrow> co_failure st = None \<Longrightarrow> I (admit job st) w"
    and progress: "\<And>st w i st' n. I st w \<Longrightarrow> i < length (co_work st) \<Longrightarrow> encoder_progress st i = Some st' \<Longrightarrow> I st' (w\<lparr> w_clock := n \<rparr>)"
    and handle: "\<And>st w i n. I st w \<Longrightarrow> i < length (co_work st) \<Longrightarrow>
        \<exists>outcome st' w'. handle_work e job (co_work st ! i) (take_work i st) (w\<lparr> w_clock := n \<rparr>) = (Inr (outcome, st'), w') \<and>
          I (note_failure outcome st') w'"
    and start: "I st w" "admitting \<or> co_work st \<noteq> []"
  shows "\<exists>st' w'. publish_loop e job admitting st w = (Inr st', w') \<and> I st' w' \<and> co_work st' = [] \<and>
    (co_failure st' = None \<longrightarrow> (\<exists>st0. I st0 w' \<and> st' = admit job st0))"
  using assms
proof (induction e job admitting st w rule: publish_loop.induct)
  case (1 e job admitting st w)
  let ?st1 = "if admitting \<and> co_failure st = None then admit job st else st"
  have I1: "I ?st1 w" using "1.prems"(1,4) by simp
  show ?case
  proof (cases "co_work ?st1 = []")
    case True
    then have run: "publish_loop e job admitting st w = (Inr ?st1, w)" by (subst publish_loop.simps) (simp add: Let_def)
    have final: "co_failure ?st1 = None \<longrightarrow> (\<exists>st0. I st0 w \<and> ?st1 = admit job st0)"
      using True "1.prems"(4,5) by (auto split: if_splits)
    show ?thesis by (intro exI [of _ ?st1] exI [of _ w] conjI run I1 True final)
  next
    case False
    let ?i = "e_schedule e (w_clock w) mod length (co_work ?st1)" and ?w1 = "w\<lparr> w_clock := Suc (w_clock w) \<rparr>"
    have i: "?i < length (co_work ?st1)" using False by simp
    show ?thesis
    proof (cases "encoder_progress ?st1 ?i")
      case (Some st2)
      have "length (co_work st2) = length (co_work ?st1)"
        using Some by (auto simp: encoder_progress_def split: work.splits list.splits prod.splits bool.splits)
      then have ne: "False \<or> co_work st2 \<noteq> []" using False by auto
      have eq: "publish_loop e job admitting st w = publish_loop e job False st2 ?w1"
        by (subst publish_loop.simps) (simp only: Let_def False Some if_False option.case)
      show ?thesis unfolding eq
        by (rule "1.IH"(2) [OF refl False refl refl Some "1.prems"(1-3) "1.prems"(2) [OF I1 i Some] ne])
    next
      case None
      obtain outcome st2 w2 where os: "handle_work e job (co_work ?st1 ! ?i) (take_work ?i ?st1) ?w1 = (Inr (outcome, st2), w2)"
        "I (note_failure outcome st2) w2"
        using "1.prems"(3) [OF I1 i] by blast
      have eq: "publish_loop e job admitting st w = publish_loop e job True (note_failure outcome st2) w2"
        by (subst publish_loop.simps) (simp only: Let_def False None if_False option.case os(1) prod.case sum.case)
      show ?thesis unfolding eq
        by (rule "1.IH"(1) [OF refl False refl refl None os(1) [symmetric] refl refl "1.prems"(1-3) os(2)]) simp_all
    qed
  qed
qed

lemma handle_work_running:
  assumes "sha256_hex (e_ext e)" "pj_authority job = a" "job_ok job (snd h0)" "running e a w0 h0 st w" "i < length (co_work st)"
  shows "\<exists>outcome st' w'. handle_work e job (co_work st ! i) (take_work i st) (w\<lparr> w_clock := n \<rparr>) = (Inr (outcome, st'), w') \<and>
    running e a w0 h0 (note_failure outcome st') w'"
proof -
  obtain h S where hS: "writing e a w0 S h w" "busy h S st 0 {}" "extends_journal (snd h0) (snd h)"
    using assms(4) unfolding running_def by blast
  have "triple (writing e a w0 S h) (handle_work e job (co_work st ! i) (take_work i st)) (good e a w0 h) (\<lambda>_. False)"
    by (rule handle_work_good [OF assms(1) busy_take(2) [OF hS(2) assms(5)] busy_take(1) [OF hS(2) assms(5)]
          job_ok_extends [OF hS(3) assms(3)] assms(2)])
  moreover have "writing e a w0 S h (w\<lparr> w_clock := n \<rparr>)" using hS(1) by simp
  ultimately obtain os w2 where os: "handle_work e job (co_work st ! i) (take_work i st) (w\<lparr> w_clock := n \<rparr>) = (Inr os, w2)" "good e a w0 h os w2"
    by (rule triple_success)
  obtain outcome st2 where o: "os = (outcome, st2)" by fastforce
  show ?thesis using os(1) o note_failure_running [OF os(2) [unfolded o] hS(3)] by blast
qed

lemma admit_running: "running e a w0 h0 st w \<Longrightarrow> co_failure st = None \<Longrightarrow> running e a w0 h0 (admit job st) w"
  unfolding running_def using busy_admit by blast

lemma progress_running:
  "running e a w0 h0 st w \<Longrightarrow> i < length (co_work st) \<Longrightarrow> encoder_progress st i = Some st' \<Longrightarrow> running e a w0 h0 st' (w\<lparr> w_clock := n \<rparr>)"
  unfolding running_def by (metis busy_progress writing_clock)

end
