(* ===== verification/Pipeline_Budget.thy ===== *)
theory Pipeline_Budget
  imports Pipeline_Safe "HOL-Library.Multiset"
begin

text \<open>
  The budget accounting of the bounded table work is exact, work that was started always drains, and
  the loop never gets stuck with parts left over. Together with the invariant of \<open>Pipeline_Safe\<close> this
  gives the outcome of \<open>publish_parts\<close>, which the controller builds on.
\<close>

section \<open>Bytes in flight\<close>

text \<open>The reservations alive are a multiset: whoever holds them, the budget accounts for them exactly.\<close>

definition holds :: "inflight_budget \<Rightarrow> reservation multiset \<Rightarrow> bool" where
  "holds b M \<longleftrightarrow> (\<exists>l. mset (map snd l) = M \<and> budget_inv (b, l))"

lemma fresh_name: "\<exists>i. (i::nat) \<notin> fst ` set l"
  by (rule ex_new_if_finite) simp_all

lemma holds_reserve: "holds b M \<Longrightarrow> try_reserve b n = Some (b', r) \<Longrightarrow> holds b' (add_mset r M)"
  unfolding holds_def using fresh_name reserve_ok by (metis list.simps(9) mset.simps(2) snd_conv)

lemma holds_reserve_exclusive: "holds b M \<Longrightarrow> try_reserve_exclusive b = Some (b', r) \<Longrightarrow> holds b' (add_mset r M)"
  unfolding holds_def using fresh_name reserve_exclusive_ok by (metis list.simps(9) mset.simps(2) snd_conv)

lemma holds_member:
  assumes "holds b (add_mset r M)"
  obtains l i where "budget_inv (b, l)" "map_of l i = Some r" "mset (map snd (drop_live i l)) = M"
    "\<And>r'. mset (map snd (put_live i r' l)) = add_mset r' M"
proof -
  obtain l where l: "mset (map snd l) = add_mset r M" "budget_inv (b, l)" using assms by (auto simp: holds_def)
  have "r \<in> set (map snd l)" using l(1) by (metis mset_eq_setD set_mset_mset union_single_eq_member)
  then obtain i where i: "(i, r) \<in> set l" by auto
  have d: "distinct (map fst l)" using l(2) by (simp add: budget_inv_def)
  obtain xs ys where sp: "l = xs @ (i, r) # ys" using i by (auto simp: in_set_conv_decomp)
  have out: "i \<notin> fst ` set xs" "i \<notin> fst ` set ys" using d sp by auto
  have "drop_live i xs = xs" "drop_live i ys = ys" "put_live i r' xs = xs" "put_live i r' ys = ys" for r'
    using out by (force simp: drop_live_def put_live_def filter_id_conv intro!: map_idI)+
  then have dl: "drop_live i l = xs @ ys" and pl: "put_live i r' l = xs @ (i, r') # ys" for r'
    unfolding sp by (simp_all add: drop_live_def put_live_def)
  show thesis
  proof (rule that [OF l(2)])
    show "map_of l i = Some r" using d i by simp
    show "mset (map snd (drop_live i l)) = M" unfolding dl using l(1) sp by simp
    then show "mset (map snd (put_live i r' l)) = add_mset r' M" for r' unfolding dl pl by simp
  qed
qed

lemma holds_drop: "holds b (add_mset r M) \<Longrightarrow> \<exists>b'. drop_reservation b r = Inr b' \<and> holds b' M"
  by (erule holds_member) (metis drop_ok holds_def)

lemma holds_shrink: "holds b (add_mset r M) \<Longrightarrow> \<exists>b' r'. shrink_to b r n = Inr (b', r') \<and> holds b' (add_mset r' M)"
  by (erule holds_member) (metis shrink_ok holds_def)

lemma holds_grow: "holds b (add_mset r M) \<Longrightarrow> grow_to b r n = (ok, b', r') \<Longrightarrow> n \<le> u64_max \<Longrightarrow> holds b' (add_mset r' M)"
  by (erule holds_member) (metis grow_ok holds_def)

lemma holds_empty: "holds b {#} \<Longrightarrow> ib_used b = 0 \<and> \<not> ib_exclusive b"
  by (auto simp: holds_def budget_inv_def sole_exclusive_def)

lemma holds_start: "0 < n \<Longrightarrow> n \<le> u64_max \<Longrightarrow> holds (budget_new n) {#}"
  unfolding holds_def by (intro exI [of _ "[]"]) (simp add: budget_inv_def budget_new_def)

fun work_held :: "work \<Rightarrow> reservation multiset" where
  "work_held (Encoding i exclusive r totals) = {#r#}"
| "work_held (Staging s) = {#sp_reservation s#}"
| "work_held (Recording prior batch) = mset (map sp_reservation batch)"
| "work_held (Publishing s) = {#sp_reservation s#}"

fun is_encoding :: "work \<Rightarrow> bool" where
  "is_encoding (Encoding i exclusive r totals) \<longleftrightarrow> True"
| "is_encoding _ \<longleftrightarrow> False"

fun is_publishing :: "work \<Rightarrow> bool" where
  "is_publishing (Publishing s) \<longleftrightarrow> True"
| "is_publishing _ \<longleftrightarrow> False"

fun totals_fit :: "work \<Rightarrow> bool" where
  "totals_fit (Encoding i exclusive r totals) \<longleftrightarrow> (\<forall>n\<in>set totals. n \<le> u64_max)"
| "totals_fit _ \<longleftrightarrow> True"

definition reserved :: "coordinator \<Rightarrow> reservation multiset" where
  "reserved st = sum_list (map work_held (co_work st)) + mset (map sp_reservation (co_receipts st)) +
     mset (map sp_reservation (co_publishable st))"

definition count_work :: "(work \<Rightarrow> bool) \<Rightarrow> coordinator \<Rightarrow> nat" where
  "count_work P st = length (filter P (co_work st))"

text \<open>The accounting of the coordinator, with \<open>X\<close>, \<open>n\<close> and \<open>m\<close> for a piece of work taken from it.\<close>

definition accounts :: "pipeline_job \<Rightarrow> coordinator \<Rightarrow> reservation multiset \<Rightarrow> nat \<Rightarrow> nat \<Rightarrow> bool" where
  "accounts job st X n m \<longleftrightarrow> \<not> co_underflow st \<and> holds (co_budget st) (reserved st + X) \<and>
     ib_limit (co_budget st) = fc_inflight_bytes (pj_limits job) \<and> (\<forall>item\<in>set (co_work st). totals_fit item) \<and>
     co_encoders st = count_work is_encoding st + n \<and> co_publications st = count_work is_publishing st + m"

lemmas accounts_defs = accounts_def reserved_def count_work_def

lemma release_reserved [simp]:
  "reserved (release r st) = reserved st" "count_work P (release r st) = count_work P st"
  by (simp_all add: reserved_def count_work_def)

lemma drop_limit: "drop_reservation b r = Inr b' \<Longrightarrow> ib_limit b' = ib_limit b"
  by (auto simp: drop_reservation_def Let_def split: if_splits)

lemma shrink_limit: "shrink_to b r n = Inr (b', r') \<Longrightarrow> ib_limit b' = ib_limit b"
  by (auto simp: shrink_to_def split: if_splits)

lemma accounts_release:
  assumes "accounts job st (add_mset r X) n m"
  shows "accounts job (release r st) X n m"
proof -
  obtain b where b: "drop_reservation (co_budget st) r = Inr b" "holds b (reserved st + X)"
    using holds_drop [of "co_budget st" r "reserved st + X"] assms by (auto simp: accounts_def)
  then have "release r st = st\<lparr> co_budget := b \<rparr>" by (simp add: release_def)
  then show ?thesis using assms b drop_limit [OF b(1)] by (simp add: accounts_defs)
qed

lemma accounts_release_all:
  "accounts job st (mset (map sp_reservation ps) + X) n m \<Longrightarrow> accounts job (release_all ps st) X n m"
proof (induction ps arbitrary: st)
  case (Cons p ps)
  have "accounts job (release (sp_reservation p) st) (mset (map sp_reservation ps) + X) n m"
    by (rule accounts_release) (use Cons.prems in simp)
  from Cons.IH [OF this] show ?case by (simp add: release_all_def)
qed (simp add: release_all_def)

lemma accounts_take:
  assumes "accounts job st {#} 0 0" "i < length (co_work st)"
  shows "accounts job (take_work i st) (work_held (co_work st ! i)) (if is_encoding (co_work st ! i) then 1 else 0)
    (if is_publishing (co_work st ! i) then 1 else 0)" "totals_fit (co_work st ! i)"
proof -
  have w: "co_work st = take i (co_work st) @ co_work st ! i # drop (Suc i) (co_work st)" by (rule id_take_nth_drop [OF assms(2)])
  let ?w = "take i (co_work st) @ drop (Suc i) (co_work st)"
  have "sum_list (map work_held (co_work st)) = sum_list (map work_held ?w) + work_held (co_work st ! i)" by (subst w) simp
  moreover have "length (filter P (co_work st)) = length (filter P ?w) + (if P (co_work st ! i) then 1 else 0)" for P by (subst w) simp
  moreover have "set ?w \<subseteq> set (co_work st)" using set_take_subset set_drop_subset by fastforce
  ultimately show "accounts job (take_work i st) (work_held (co_work st ! i)) (if is_encoding (co_work st ! i) then 1 else 0)
    (if is_publishing (co_work st ! i) then 1 else 0)"
    using assms(1) unfolding accounts_defs take_work_def by (auto simp: ac_simps)
  show "totals_fit (co_work st ! i)" using assms by (simp add: accounts_def)
qed

lemma accounts_staged:
  assumes "handle_staged e s st w = (Inr (outcome, st'), w')" "accounts job st {#sp_reservation s#} 0 0"
  shows "accounts job st' {#} 0 0"
proof -
  have "accounts job (release (sp_reservation s) st) {#} 0 0" by (rule accounts_release [OF assms(2)])
  moreover have "accounts job (st\<lparr> co_receipts := co_receipts st @ [s] \<rparr>) {#} 0 0" using assms(2) by (simp add: accounts_defs)
  ultimately show ?thesis using assms(1)
    by (auto simp: handle_staged_def bind_try returnIO_def split: prod.splits sum.splits if_splits)
qed

lemma accounts_published:
  assumes "handle_published e s st w = (Inr (outcome, st'), w')" "accounts job st {#sp_reservation s#} 0 1"
  shows "accounts job st' {#} 0 0"
proof -
  have "accounts job (st\<lparr> co_publications := co_publications st - 1 \<rparr>) {#sp_reservation s#} 0 0" using assms(2) by (simp add: accounts_defs)
  from accounts_release [OF this] show ?thesis
    using assms(1) by (auto simp: handle_published_def bind_try returnIO_def split: prod.splits sum.splits)
qed

lemma accounts_after_receipts:
  assumes "after_receipts e outcome batch st w = (Inr (outcome', st'), w')" "accounts job st (mset (map sp_reservation batch)) 0 0"
  shows "accounts job st' {#} 0 0"
  using assms
proof (induction e outcome batch st arbitrary: w rule: after_receipts.induct)
  case (1 e outcome st)
  then show ?case by (simp add: returnIO_def)
next
  case (2 e outcome s batch st)
  have rel: "accounts job (release (sp_reservation s) st) (mset (map sp_reservation batch)) 0 0"
    by (rule accounts_release) (use "2.prems"(2) in simp)
  have pub: "accounts job (st\<lparr> co_publishable := co_publishable st @ [s] \<rparr>) (mset (map sp_reservation batch)) 0 0"
    using "2.prems"(2) by (simp add: accounts_defs ac_simps)
  show ?case
    using "2.prems"(1) "2.IH" rel pub by (auto simp: bind_try split: prod.splits sum.splits if_split_asm)
qed

lemma accounts_recorded:
  assumes "handle_recorded e job prior batch st w = (Inr (outcome, st'), w')" "accounts job st (mset (map sp_reservation batch)) 0 0"
  shows "accounts job st' {#} 0 0"
proof -
  have a: "accounts job (st\<lparr> co_recording := False, co_pending := v \<rparr>) (mset (map sp_reservation batch) + {#}) 0 0" for v
    using assms(2) by (simp add: accounts_defs)
  obtain r v where r: "record_batch_receipts e (pj_authority job) prior batch w = (r, v)" by fastforce
  show ?thesis
  proof (cases r)
    case (Inl err)
    then show ?thesis using assms(1) r accounts_release_all [OF a] by (auto simp: handle_recorded_def Let_def bind_try returnIO_def)
  next
    case (Inr nxt)
    then have "after_receipts e (Inr ()) batch (st\<lparr> co_recording := False, co_pending := Some nxt \<rparr>) v = (Inr (outcome, st'), w')"
      using assms(1) r by (simp add: handle_recorded_def Let_def bind_try)
    from accounts_after_receipts [OF this] a show ?thesis by simp
  qed
qed

fun result_held :: "encode_result \<Rightarrow> reservation multiset" where
  "result_held (Encoded s) = {#sp_reservation s#}"
| "result_held _ = {#}"

lemma accounts_encoded:
  assumes "handle_encoded e job i exclusive result st w = (Inr (outcome, st'), w')" "accounts job st (result_held result) 1 0"
  shows "accounts job st' {#} 0 0"
proof -
  let ?st = "st\<lparr> co_encoders := co_encoders st - 1 \<rparr>"
  have a: "accounts job ?st (result_held result) 0 0" using assms(2) by (simp add: accounts_defs)
  show ?thesis
  proof (cases result)
    case (Encoded s)
    define st1 where "st1 = (if ib_limit (co_budget ?st) < wr_byte_size (ep_receipt (sp_encoded s))
      then ?st\<lparr> co_oversized := co_oversized ?st + 1 \<rparr> else ?st)"
    have a1: "accounts job st1 {#sp_reservation s#} 0 0" using a Encoded by (simp add: st1_def accounts_defs)
    then have "accounts job (st1\<lparr> co_work := co_work st1 @ [Staging s] \<rparr>) {#} 0 0"
      "accounts job (st1\<lparr> co_receipts := co_receipts st1 @ [s] \<rparr>) {#} 0 0" by (auto simp: accounts_defs ac_simps)
    moreover have "accounts job (release (sp_reservation s) st1) {#} 0 0" "accounts job (release (sp_reservation s) ?st) {#} 0 0"
      using accounts_release [OF a1] a Encoded by (auto intro: accounts_release)
    ultimately show ?thesis
      using assms(1) unfolding handle_encoded_def Let_def Encoded st1_def [symmetric] encode_result.case
      by (auto simp: bind_try returnIO_def split: prod.splits sum.splits if_split_asm)
  next
    case Exceeded
    have "accounts job (?st\<lparr> co_reencoded := co_reencoded ?st + 1, co_queue := (i, True) # co_queue ?st \<rparr>) {#} 0 0"
      using a Exceeded by (simp add: accounts_defs)
    then show ?thesis using assms(1) a Exceeded by (auto simp: handle_encoded_def Let_def returnIO_def split: if_split_asm)
  next
    case (EncodeFailed err)
    then show ?thesis using assms(1) a by (auto simp: handle_encoded_def Let_def returnIO_def)
  qed
qed

lemma accounts_encoder_end:
  assumes "accounts job st {#r#} 1 0" "encoder_end e job i r st = (result, st')"
  shows "accounts job st' (result_held result) 1 0"
proof (cases "encode_finish (e_ext e) (pj_prepared job) i")
  case (Inl err)
  then show ?thesis using assms accounts_release [OF assms(1)] by (auto simp: encoder_end_def)
next
  case (Inr ep)
  obtain b r' where b: "shrink_to (co_budget st) r (wr_byte_size (ep_receipt ep)) = Inr (b, r')" "holds b (add_mset r' (reserved st))"
    using holds_shrink [of "co_budget st" r "reserved st" "wr_byte_size (ep_receipt ep)"] assms(1) by (auto simp: accounts_def)
  then show ?thesis using assms Inr shrink_limit [OF b(1)] by (auto simp: encoder_end_def accounts_defs)
qed

lemma accounts_work:
  assumes "handle_work e job item st w = (Inr (outcome, st'), w')"
    "accounts job st (work_held item) (if is_encoding item then 1 else 0) (if is_publishing item then 1 else 0)"
  shows "accounts job st' {#} 0 0"
proof (cases item)
  case (Encoding i exclusive r totals)
  obtain result v where end': "encoder_end e job i r st = (result, v)" by fastforce
  have "accounts job v (result_held result) 1 0" using assms(2) Encoding by (intro accounts_encoder_end [OF _ end']) simp
  moreover have "accounts job (release r st) (result_held Exceeded) 1 0" using assms(2) Encoding by (auto intro: accounts_release)
  ultimately show ?thesis
    using assms(1) end' accounts_encoded by (auto simp: handle_work_def Encoding split: list.splits)
next
  case (Staging s)
  then show ?thesis using assms accounts_staged by (auto simp: handle_work_def)
next
  case (Recording prior batch)
  then show ?thesis using assms accounts_recorded by (auto simp: handle_work_def)
next
  case (Publishing s)
  then show ?thesis using assms accounts_published by (auto simp: handle_work_def)
qed

lemma release_cleared:
  "release r (st\<lparr> co_receipts := x, co_publishable := y \<rparr>) = (release r st)\<lparr> co_receipts := x, co_publishable := y \<rparr>"
  by (simp add: release_def split: sum.splits)

lemma release_all_cleared:
  "release_all ps (st\<lparr> co_receipts := x, co_publishable := y \<rparr>) = (release_all ps st)\<lparr> co_receipts := x, co_publishable := y \<rparr>"
  by (induction ps arbitrary: st) (simp_all add: release_all_def release_cleared)

lemma accounts_note_failure:
  assumes "accounts job st {#} 0 0"
  shows "accounts job (note_failure outcome st) {#} 0 0"
proof -
  let ?ps = "co_receipts st @ co_publishable st"
  have "accounts job (st\<lparr> co_receipts := [], co_publishable := [] \<rparr>) (mset (map sp_reservation ?ps) + {#}) 0 0"
    using assms by (simp add: accounts_defs ac_simps)
  from accounts_release_all [OF this] have "accounts job ((release_all ?ps st)\<lparr> co_receipts := [], co_publishable := [] \<rparr>) {#} 0 0"
    by (simp only: release_all_cleared)
  then show ?thesis using assms by (auto simp: note_failure_def accounts_defs split: sum.splits)
qed

lemma accounts_progress:
  assumes "accounts job st {#} 0 0" "encoder_progress st i = Some st'" "i < length (co_work st)"
  shows "accounts job st' {#} 0 0"
proof -
  obtain k exclusive r n ns b r' where w: "co_work st ! i = Encoding k exclusive r (n # ns)" "grow_to (co_budget st) r n = (True, b, r')"
    "st' = st\<lparr> co_budget := b, co_work := (co_work st)[i := Encoding k exclusive r' ns] \<rparr>"
    using assms(2) by (auto simp: encoder_progress_def split: work.splits list.splits prod.splits bool.splits)
  let ?l = "take i (co_work st)" and ?r = "drop (Suc i) (co_work st)"
  have old: "co_work st = ?l @ Encoding k exclusive r (n # ns) # ?r" using id_take_nth_drop [OF assms(3)] w(1) by simp
  have new: "co_work st' = ?l @ Encoding k exclusive r' ns # ?r" using w(3) assms(3) by (simp add: upd_conv_take_nth_drop)
  define rest where "rest = sum_list (map work_held ?l) + sum_list (map work_held ?r) + mset (map sp_reservation (co_receipts st)) +
     mset (map sp_reservation (co_publishable st))"
  have "reserved st = add_mset r rest" unfolding reserved_def rest_def by (subst old) simp
  moreover have "reserved st' = add_mset r' rest" unfolding reserved_def rest_def new by (simp add: w(3))
  moreover have "count_work P st' = count_work P st" if "\<And>r t. P (Encoding k exclusive r t) = c" for P c
    unfolding count_work_def new by (subst (3) old) (simp add: that)
  then have "count_work is_encoding st' = count_work is_encoding st" "count_work is_publishing st' = count_work is_publishing st"
    by (metis is_encoding.simps(1), metis is_publishing.simps(2))
  moreover have fit: "totals_fit (Encoding k exclusive r (n # ns))" using accounts_take(2) [OF assms(1,3)] w(1) by simp
  moreover have "\<forall>item\<in>set (co_work st'). totals_fit item"
  proof -
    have "set (co_work st') \<subseteq> insert (Encoding k exclusive r' ns) (set (co_work st))" using w(3) by (simp add: set_update_subset_insert)
    then show ?thesis using assms(1) fit by (auto simp: accounts_def)
  qed
  moreover have "holds b (add_mset r' rest)"
    by (rule holds_grow [OF _ w(2)]) (use assms(1) fit \<open>reserved st = _\<close> in \<open>simp_all add: accounts_def\<close>)
  ultimately show ?thesis using assms(1) w(3) grow_limit [OF w(2)] by (simp add: accounts_def)
qed

section \<open>Admission\<close>

lemma write_totals_fit: "n \<in> set (write_totals k cs) \<Longrightarrow> n \<le> u64_max"
  by (induction cs arbitrary: k) (auto simp: saturating_add_def)

lemma reserve_limit:
  "try_reserve b n = Some (b', r) \<Longrightarrow> ib_limit b' = ib_limit b" "try_reserve_exclusive b = Some (b', r) \<Longrightarrow> ib_limit b' = ib_limit b"
  by (auto simp: try_reserve_def try_reserve_exclusive_def use_bytes_def split: if_splits option.splits)

lemma accounts_admit_encoders:
  "accounts job st {#} 0 0 \<Longrightarrow> accounts job (admit_encoders job queue st) {#} 0 0"
proof (induction job queue st rule: admit_encoders.induct)
  case (1 job st)
  then show ?case by (simp add: accounts_defs)
next
  case (2 job i exc queue st)
  have stop: "accounts job (st\<lparr> co_queue := q \<rparr>) {#} 0 0" for q using 2(2) by (simp add: accounts_defs)
  show ?case
  proof (cases "co_encoders st < fc_encoders (pj_limits job)")
    case True
    define exclusive where "exclusive = (exc \<or> ib_limit (co_budget st) \<le> part_estimate (pj_prepared job) i)"
    show ?thesis
    proof (cases "if exclusive then try_reserve_exclusive (co_budget st) else try_reserve (co_budget st) (part_estimate (pj_prepared job) i)")
      case None
      then show ?thesis using True stop by (simp add: Let_def exclusive_def)
    next
      case (Some br)
      obtain b r where br: "br = (b, r)" by fastforce
      let ?st = "st\<lparr> co_encoders := co_encoders st + 1, co_budget := b,
        co_work := co_work st @ [Encoding i exclusive r (write_totals 0 (fst (part_writes (pj_prepared job) i)))] \<rparr>"
      have "admit_encoders job ((i, exc) # queue) st = admit_encoders job queue ?st"
        using True Some by (simp add: Let_def exclusive_def br)
      moreover have "holds b (add_mset r (reserved st))" "ib_limit b = ib_limit (co_budget st)"
        using Some br 2(2) by (auto simp: accounts_def intro: holds_reserve holds_reserve_exclusive dest: reserve_limit split: if_splits)
      then have "accounts job ?st {#} 0 0" using 2(2) by (auto simp: accounts_defs ac_simps dest: write_totals_fit)
      then have "accounts job (admit_encoders job queue ?st) {#} 0 0" using "2.IH" True Some by (simp add: exclusive_def br)
      ultimately show ?thesis by simp
    qed
  qed (use stop in simp)
qed

lemma accounts_admit_recording: "accounts job st {#} 0 0 \<Longrightarrow> accounts job (admit_recording st) {#} 0 0"
  by (auto simp: admit_recording_def accounts_defs ac_simps split: option.splits)

lemma accounts_admit_publications:
  "accounts job (st\<lparr> co_publishable := ps \<rparr>) {#} 0 0 \<Longrightarrow> accounts job (admit_publications limit ps st) {#} 0 0"
proof (induction limit ps st rule: admit_publications.induct)
  case (2 limit s ps st)
  let ?st = "st\<lparr> co_publications := co_publications st + 1, co_work := co_work st @ [Publishing s] \<rparr>"
  have "accounts job (?st\<lparr> co_publishable := ps \<rparr>) {#} 0 0" using 2(2) by (auto simp: accounts_defs ac_simps)
  then show ?case using 2 by simp
qed simp

lemma accounts_admit: "accounts job st {#} 0 0 \<Longrightarrow> accounts job (admit job st) {#} 0 0"
  unfolding admit_def Let_def
  by (rule accounts_admit_publications, simp, rule accounts_admit_recording, erule accounts_admit_encoders)

text \<open>When an admission leaves nothing running, there was nothing left to do.\<close>

lemma admit_encoders_mono: "length (co_work st) \<le> length (co_work (admit_encoders job queue st))"
proof (induction job queue st rule: admit_encoders.induct)
  case (2 job i exc queue st)
  then show ?case by (auto simp: Let_def split: if_splits option.splits prod.splits intro: order_trans [OF _ 2] intro: Suc_leD)
qed simp

lemma admit_publications_mono: "length (co_work st) \<le> length (co_work (admit_publications limit ps st))"
proof (induction limit ps st rule: admit_publications.induct)
  case (2 limit s ps st)
  then show ?case by (auto intro: Suc_leD)
qed simp

lemma admit_encoders_idle:
  assumes a: "accounts job st {#} 0 0" and c: "concurrency_validate (pj_limits job) = Inr ()"
    and idle: "co_receipts st = []" "co_publishable st = []" and e: "co_work (admit_encoders job queue st) = []"
  shows "queue = []"
proof (rule ccontr)
  assume "queue \<noteq> []"
  then obtain i exc rest where q: "queue = (i, exc) # rest" by (metis neq_Nil_conv old.prod.exhaust)
  have w: "co_work st = []" using admit_encoders_mono [of st job queue] e by simp
  have "holds (co_budget st) {#}" "co_encoders st = 0" using a idle w by (simp_all add: accounts_defs)
  then have z: "ib_used (co_budget st) = 0" "\<not> ib_exclusive (co_budget st)" "co_encoders st < fc_encoders (pj_limits job)"
    using holds_empty c by (auto simp: concurrency_validate_def)
  have lim: "ib_limit (co_budget st) \<le> u64_max" using \<open>holds (co_budget st) {#}\<close> by (auto simp: holds_def budget_inv_def)
  define exclusive where "exclusive = (exc \<or> ib_limit (co_budget st) \<le> part_estimate (pj_prepared job) i)"
  obtain b r where br: "(if exclusive then try_reserve_exclusive (co_budget st) else try_reserve (co_budget st) (part_estimate (pj_prepared job) i)) = Some (b, r)"
  proof (cases exclusive)
    case True
    then show ?thesis using that z(1) by (simp add: try_reserve_exclusive_def)
  next
    case False
    then show ?thesis using that z(1,2) lim by (simp add: exclusive_def try_reserve_def checked_add_def)
  qed
  let ?st = "st\<lparr> co_encoders := co_encoders st + 1, co_budget := b,
    co_work := co_work st @ [Encoding i exclusive r (write_totals 0 (fst (part_writes (pj_prepared job) i)))] \<rparr>"
  have "admit_encoders job queue st = admit_encoders job rest ?st"
    unfolding q using z(3) br by (simp add: Let_def exclusive_def)
  then show False using e admit_encoders_mono [of ?st job rest] by simp
qed

lemma admit_encoders_fields [simp]:
  "co_receipts (admit_encoders job queue st) = co_receipts st" "co_publishable (admit_encoders job queue st) = co_publishable st"
  "co_pending (admit_encoders job queue st) = co_pending st" "co_recording (admit_encoders job queue st) = co_recording st"
  "co_publications (admit_encoders job queue st) = co_publications st"
  by (induction job queue st rule: admit_encoders.induct) (auto simp: Let_def split: option.splits if_splits)

lemma admit_idle:
  assumes b: "busy h S st 0 {}" "co_failure st = None" and a: "accounts job st {#} 0 0"
    and c: "concurrency_validate (pj_limits job) = Inr ()" and e: "co_work (admit job st) = []"
  shows "co_queue (admit job st) = [] \<and> co_receipts (admit job st) = [] \<and> co_publishable (admit job st) = [] \<and>
    ib_used (co_budget (admit job st)) = 0 \<and> co_pending (admit job st) = Some h"
proof -
  define st1 where "st1 = admit_encoders job (co_queue st) st"
  define st2 where "st2 = admit_recording st1"
  have ad: "admit job st = admit_publications (fc_publications (pj_limits job)) (co_publishable st2) st2"
    by (simp add: admit_def Let_def st1_def st2_def)
  have w2: "co_work st2 = []" using e admit_publications_mono [of st2] unfolding ad by (metis le_zero_eq list.size(3) length_0_conv)
  have b1: "busy h S st1 0 {}" unfolding st1_def by (rule busy_admit_encoders) (use b in simp)
  have f1: "co_failure st1 = None" using b(2) by (simp add: st1_def)
  have w1: "co_work st1 = []" using w2 by (auto simp: st2_def admit_recording_def split: if_splits option.splits)
  have p1: "\<not> co_recording st1" "co_pending st1 = Some h" using b1 w1 f1 by (auto simp: busy_def rec_ok_def pend_ok_def split: if_splits)
  have r1: "co_receipts st1 = []" using w2 p1 by (auto simp: st2_def admit_recording_def split: if_splits)
  then have 2: "st2 = st1" by (simp add: st2_def admit_recording_def)
  have a1: "accounts job st1 {#} 0 0" unfolding st1_def by (rule accounts_admit_encoders [OF a])
  have pub: "co_publishable st1 = []"
  proof (cases "co_publishable st1")
    case (Cons s ps)
    have "co_publications st1 < fc_publications (pj_limits job)"
      using a1 w1 c by (simp add: accounts_defs concurrency_validate_def)
    then show ?thesis
      using e admit_publications_mono [of "st1\<lparr> co_publications := co_publications st1 + 1, co_work := co_work st1 @ [Publishing s] \<rparr>"
          "fc_publications (pj_limits job)" ps]
      unfolding ad 2 Cons by simp
  qed
  then have ad': "admit job st = st1\<lparr> co_publishable := [] \<rparr>" unfolding ad 2 by simp
  have q: "co_queue st = []"
    by (rule admit_encoders_idle [OF a c _ _ w1 [unfolded st1_def]]) (use r1 pub in \<open>simp_all add: st1_def\<close>)
  then have "co_queue st1 = []" by (simp add: st1_def)
  moreover have "ib_used (co_budget st1) = 0" using a1 w1 r1 pub holds_empty by (simp add: accounts_defs)
  ultimately show ?thesis using ad' r1 p1 by simp
qed

section \<open>After a failure\<close>

text \<open>Nothing new waits for a receipt or for its publication once something failed.\<close>

definition stopped :: "coordinator \<Rightarrow> bool" where
  "stopped st \<longleftrightarrow> (co_failure st \<noteq> None \<longrightarrow> co_receipts st = [] \<and> co_publishable st = [])"

lemma after_receipts_stopped:
  "after_receipts e outcome batch st w = (Inr (outcome', st'), w') \<Longrightarrow> co_failure st' = co_failure st \<and>
     co_receipts st' = co_receipts st \<and> (co_failure st \<noteq> None \<longrightarrow> co_publishable st' = co_publishable st)"
proof (induction e outcome batch st arbitrary: w rule: after_receipts.induct)
  case (1 e outcome st)
  then show ?case by (simp add: returnIO_def)
next
  case (2 e outcome s batch st)
  show ?case using "2.prems" "2.IH" by (fastforce simp: bind_try split: prod.splits sum.splits if_split_asm)
qed

lemma handle_work_stopped:
  assumes "handle_work e job item st w = (Inr (outcome, st'), w')"
  shows "co_failure st' = co_failure st \<and>
    (co_failure st \<noteq> None \<longrightarrow> co_receipts st' = co_receipts st \<and> co_publishable st' = co_publishable st)"
proof (cases item)
  case (Encoding i exclusive r totals)
  have enc: "co_failure st' = co_failure v \<and>
      (co_failure v \<noteq> None \<longrightarrow> co_receipts st' = co_receipts v \<and> co_publishable st' = co_publishable v)"
    if "handle_encoded e job i exclusive result v w = (Inr (outcome, st'), w')" for result v
    using that by (auto simp: handle_encoded_def Let_def bind_try returnIO_def split: encode_result.splits if_split_asm prod.splits sum.splits)
  have end': "co_failure v = co_failure st \<and> co_receipts v = co_receipts st \<and> co_publishable v = co_publishable st"
    if "encoder_end e job i r st = (result, v)" for result v
    using that by (auto simp: encoder_end_def split: sum.splits prod.splits)
  show ?thesis
    using assms Encoding enc end' by (auto simp: handle_work_def split: list.splits prod.splits)
next
  case (Staging s)
  then show ?thesis using assms
    by (auto simp: handle_work_def handle_staged_def bind_try returnIO_def split: if_split_asm prod.splits sum.splits)
next
  case (Recording prior batch)
  obtain r v where r: "record_batch_receipts e (pj_authority job) prior batch w = (r, v)" by fastforce
  show ?thesis
  proof (cases r)
    case (Inl err)
    then show ?thesis using assms Recording r by (auto simp: handle_work_def handle_recorded_def Let_def bind_try returnIO_def)
  next
    case (Inr nxt)
    then have "after_receipts e (Inr ()) batch (st\<lparr> co_recording := False, co_pending := Some nxt \<rparr>) v = (Inr (outcome, st'), w')"
      using assms Recording r by (simp add: handle_work_def handle_recorded_def Let_def bind_try)
    from after_receipts_stopped [OF this] show ?thesis by simp
  qed
next
  case (Publishing s)
  then show ?thesis using assms
    by (auto simp: handle_work_def handle_published_def bind_try returnIO_def split: prod.splits sum.splits)
qed

lemma stopped_work:
  assumes "handle_work e job item st w = (Inr (outcome, st'), w')" "stopped st"
  shows "stopped (note_failure outcome st')"
  using handle_work_stopped [OF assms(1)] assms(2) by (auto simp: stopped_def note_failure_def split: sum.splits)

lemma stopped_progress: "encoder_progress st i = Some st' \<Longrightarrow> stopped st \<Longrightarrow> stopped st'"
  by (auto simp: stopped_def encoder_progress_def split: work.splits list.splits prod.splits bool.splits)

section \<open>Publication of the parts of a transaction\<close>

lemma initial_accounts:
  "concurrency_validate (pj_limits job) = Inr () \<Longrightarrow> fc_inflight_bytes (pj_limits job) \<le> u64_max \<Longrightarrow>
     accounts job (initial_coordinator job h) {#} 0 0"
  using holds_start by (simp add: initial_coordinator_def accounts_defs concurrency_validate_def budget_new_def)

lemma initial_running:
  assumes "writing e a w0 {} h w" "job_ok job (snd h)"
  shows "running e a w0 h (initial_coordinator job h) w"
proof -
  have "placed h (initial_coordinator job h) {} {}"
    using assms(2) by (auto simp: placed_def job_ok_def initial_coordinator_def live_indices_def writer_plan_def image_image)
  then have "busy h {} (initial_coordinator job h) 0 {}"
    by (simp add: busy_def items_ok_def rec_ok_def pend_ok_def initial_coordinator_def)
  then show ?thesis using assms(1) extends_refl unfolding running_def by blast
qed

text \<open>How the loop ends: with nothing running and no byte in flight, whatever happened.\<close>

lemma publish_loop_end:
  assumes sha: "sha256_hex (e_ext e)" and auth: "pj_authority job = a" and job: "job_ok job (snd h)" and w: "writing e a w0 {} h w"
    and c: "concurrency_validate (pj_limits job) = Inr ()" "fc_inflight_bytes (pj_limits job) \<le> u64_max"
  obtains st' w' where "publish_loop e job True (initial_coordinator job h) w = (Inr st', w')" "co_work st' = []"
    "running e a w0 h st' w'" "accounts job st' {#} 0 0" "stopped st'"
    "co_failure st' = None \<longrightarrow> co_queue st' = [] \<and> co_receipts st' = [] \<and> co_publishable st' = [] \<and>
       ib_used (co_budget st') = 0 \<and> co_pending st' \<noteq> None"
proof -
  let ?I = "\<lambda>st w. running e a w0 h st w \<and> accounts job st {#} 0 0 \<and> stopped st"
  have ad: "?I (admit job st) w" if "?I st w" "co_failure st = None" for st w
    using that by (auto simp: stopped_def intro: admit_running accounts_admit)
  have pr: "?I st' (w\<lparr> w_clock := n \<rparr>)" if "?I st w" "i < length (co_work st)" "encoder_progress st i = Some st'" for st w i st' n
    using that by (blast intro: progress_running accounts_progress stopped_progress)
  have hw: "\<exists>outcome st' w'. handle_work e job (co_work st ! i) (take_work i st) (w\<lparr> w_clock := n \<rparr>) = (Inr (outcome, st'), w') \<and>
      ?I (note_failure outcome st') w'" if "?I st w" "i < length (co_work st)" for st w i n
  proof -
    from that obtain outcome st' w' where
      o: "handle_work e job (co_work st ! i) (take_work i st) (w\<lparr> w_clock := n \<rparr>) = (Inr (outcome, st'), w')"
        "running e a w0 h (note_failure outcome st') w'"
      using handle_work_running [OF sha auth job] by blast
    have "accounts job st' {#} 0 0" by (rule accounts_work [OF o(1) accounts_take(1)]) (use that in simp_all)
    moreover have "stopped (note_failure outcome st')" by (rule stopped_work [OF o(1)]) (use that in \<open>simp add: stopped_def take_work_def\<close>)
    ultimately show ?thesis using o accounts_note_failure by blast
  qed
  have start: "?I (initial_coordinator job h) w" using initial_running [OF w job] initial_accounts [OF c] by (simp add: stopped_def initial_coordinator_def)
  have "\<exists>st' w'. publish_loop e job True (initial_coordinator job h) w = (Inr st', w') \<and> ?I st' w' \<and> co_work st' = [] \<and>
      (co_failure st' = None \<longrightarrow> (\<exists>st0. ?I st0 w' \<and> st' = admit job st0))"
    by (rule publish_loop_rule [where I = ?I]) (fact ad, fact pr, fact hw, fact start, simp)
  then obtain st' w' where e': "publish_loop e job True (initial_coordinator job h) w = (Inr st', w')" "?I st' w'" "co_work st' = []"
    "co_failure st' = None \<longrightarrow> (\<exists>st0. ?I st0 w' \<and> st' = admit job st0)"
    by auto
  show ?thesis
  proof (rule that [OF e'(1,3)]; (rule impI)?)
    assume "co_failure st' = None"
    then obtain st0 where st0: "?I st0 w'" "st' = admit job st0" using e'(4) by blast
    obtain h' S where "busy h' S st0 0 {}" using st0(1) unfolding running_def by blast
    from admit_idle [OF this _ _ c(1)] st0 e'(3) \<open>co_failure st' = None\<close>
    show "co_queue st' = [] \<and> co_receipts st' = [] \<and> co_publishable st' = [] \<and> ib_used (co_budget st') = 0 \<and> co_pending st' \<noteq> None"
      by simp
  qed (use e'(2) in simp_all)
qed

text \<open>What publication leaves behind: the journal it returned, and whether every part is in place.\<close>

lemma publish_parts_outcome:
  assumes sha: "sha256_hex (e_ext e)" and auth: "pj_authority job = a" and job: "job_ok job (snd h)"
    and bound: "fc_inflight_bytes (pj_limits job) \<le> u64_max"
  shows "triple (writing e a w0 {} h) (publish_parts e job h)
    (\<lambda>h' w. writing e a w0 (finals h') h' w \<and> extends_journal (snd h) (snd h'))
    (\<lambda>w. \<exists>h'. writing e a w0 {} h' w \<and> extends_journal (snd h) (snd h'))"
  unfolding publish_parts_def
proof (intro triple_bind_lift)
  fix u v
  assume c: "concurrency_validate (pj_limits job) = Inr u"
  let ?E = "\<lambda>w. \<exists>h'. writing e a w0 {} h' w \<and> extends_journal (snd h) (snd h')"
  have weaken: "writing e a w0 {} h' w" if "writing e a w0 S h' w" for S h' w using that by (simp add: writing_def)
  have loop: "triple (writing e a w0 {} h) (publish_loop e job True (initial_coordinator job h))
      (\<lambda>st w. co_work st = [] \<and> running e a w0 h st w \<and> (co_failure st = None \<longrightarrow> co_pending st \<noteq> None)) ?E"
  proof (rule triple_pointwise)
    fix w
    assume w: "writing e a w0 {} h w"
    obtain st' w' where "publish_loop e job True (initial_coordinator job h) w = (Inr st', w')" "co_work st' = []"
      "running e a w0 h st' w'" "co_failure st' = None \<Longrightarrow> co_pending st' \<noteq> None"
      by (rule publish_loop_end [OF sha auth job w]) (use c bound in auto)
    then show "triple (\<lambda>v. v = w) (publish_loop e job True (initial_coordinator job h))
        (\<lambda>st w. co_work st = [] \<and> running e a w0 h st w \<and> (co_failure st = None \<longrightarrow> co_pending st \<noteq> None)) ?E"
      by (simp add: triple_def)
  qed
  show "triple (writing e a w0 {} h)
     (bindIO (publish_loop e job True (initial_coordinator job h)) (\<lambda>st.
     case co_failure st of
       Some err \<Rightarrow> failIO err
     | None \<Rightarrow>
         bindIO (liftR (require (co_queue st = [] \<and> co_receipts st = [] \<and> co_publishable st = [] \<and> ib_used (co_budget st) = 0)
           ''transaction table work ended with unfinished parts'')) (\<lambda>_.
         liftR (some_or (co_pending st) ''pending record is unavailable after publication''))))
    (\<lambda>h' w. writing e a w0 (finals h') h' w \<and> extends_journal (snd h) (snd h')) ?E"
  proof (rule triple_bind [OF loop], rule triple_pre_pure, rule triple_pointwise, elim conjE)
    fix st w
    assume idle: "co_work st = []" and run: "running e a w0 h st w"
    obtain h' S where r: "writing e a w0 S h' w" "busy h' S st 0 {}" "extends_journal (snd h) (snd h')"
      using run unfolding running_def by blast
    have E: "?E w" using weaken [OF r(1)] r(3) by blast
    have full: "writing e a w0 (finals h') h' w" "co_pending st = Some h'"
      if "co_failure st = None" "co_queue st = []" "co_receipts st = []" "co_publishable st = []"
    proof -
      have "\<not> co_recording st" using r(2) idle by (auto simp: busy_def rec_ok_def split: if_splits)
      then show "co_pending st = Some h'" using r(2) that by (simp add: busy_def pend_ok_def)
      have "finals h' \<subseteq> S" using r(2) idle that by (auto simp: busy_def placed_def live_indices_def)
      then have "S = finals h'" using r(2) by (auto simp: busy_def)
      then show "writing e a w0 (finals h') h' w" using r(1) by simp
    qed
    show "triple (\<lambda>v. v = w)
     (case co_failure st of
       Some err \<Rightarrow> failIO err
     | None \<Rightarrow>
         bindIO (liftR (require (co_queue st = [] \<and> co_receipts st = [] \<and> co_publishable st = [] \<and> ib_used (co_budget st) = 0)
           ''transaction table work ended with unfinished parts'')) (\<lambda>_.
         liftR (some_or (co_pending st) ''pending record is unavailable after publication'')))
    (\<lambda>h' w. writing e a w0 (finals h') h' w \<and> extends_journal (snd h) (snd h')) ?E"
    proof (cases "co_failure st")
      case None
      show ?thesis unfolding None option.case
        by (rule triple_bind_lift, rule triple_lift) (use E full [OF None] r(3) in \<open>auto simp: some_or_eq_Inr\<close>)
    qed (use E in \<open>auto intro: triple_fail\<close>)
  qed
qed (use extends_refl in blast)+

section \<open>Properties\<close>

text \<open>
  C5. Whatever the environment does and in whatever order the concurrent work
  completes, publishing the parts of a transaction leaves its authority as it was and its pending record
  in the Writing phase, with a receipt that describes byte for byte every final part in place, so that
  the transaction can be rolled back; it touches no file but those of the transaction; and when it
  succeeds the returned record is the durable one and every planned part is in place and described by
  its receipt.
\<close>

theorem publication_is_journaled:
  assumes "sha256_hex (e_ext e)" "pj_authority job = a" "pf_parts (pj_prepared job) = map (writer_plan (snd h)) (pt_parts (snd h))"
    "fc_inflight_bytes (pj_limits job) \<le> u64_max"
    and "w_state w = Some a" "w_pending w = Some h" "validate_predecessor (e_ext e) (snd a) (snd h) = Inr ()"
    "pt_phase (snd h) = Writing" "rollback_safe e (snd h) (w_files w)"
    and run: "publish_parts e job h w = (r, w')"
  shows "\<exists>j. w_state w' = Some a \<and> w_pending w' = Some j \<and> pt_phase (snd j) = Writing \<and> extends_journal (snd h) (snd j) \<and>
    rollback_safe e (snd j) (w_files w') \<and> (\<forall>path. path \<notin> part_names (snd h) \<longrightarrow> w_files w' path = w_files w path) \<and>
    w_logs w' = w_logs w \<and>
    (case r of Inl _ \<Rightarrow> True | Inr j' \<Rightarrow> j' = j \<and> (\<forall>q\<in>set (pt_parts (snd j)). pp_receipt q \<noteq> None \<and> intact e (snd j) (w_files w') q))"
proof -
  have "writing e a w {} h w" using assms(5-9) by (simp add: writing_def)
  note out = tripleD [OF publish_parts_outcome [OF assms(1,2) _ assms(4), of h w] this]
  have job: "job_ok job (snd h)" using assms(3) by (simp add: job_ok_def)
  obtain j S where j: "writing e a w S j w'" "extends_journal (snd h) (snd j)" "\<And>j'. r = Inr j' \<Longrightarrow> j' = j \<and> S = finals j"
  proof (cases r)
    case (Inl err)
    then show ?thesis using out(2) [OF job run [unfolded Inl]] that by blast
  next
    case (Inr j')
    then show ?thesis using out(1) [OF job run [unfolded Inr]] that by blast
  qed
  have "pp_receipt q \<noteq> None \<and> intact e (snd j) (w_files w') q" if "r = Inr j'" "q \<in> set (pt_parts (snd j))" for j' q
  proof -
    have "intact e (snd j) (w_files w') q" using j(1,3) that by (auto simp: writing_def rollback_safe_def)
    then show ?thesis by (auto simp: intact_def writer_receipt_def bindR_eq_Inr some_or_eq_Inr)
  qed
  then have "case r of Inl _ \<Rightarrow> True | Inr j' \<Rightarrow> j' = j \<and> (\<forall>q\<in>set (pt_parts (snd j)). pp_receipt q \<noteq> None \<and> intact e (snd j) (w_files w') q)"
    using j(3) by (auto split: sum.splits)
  moreover have "part_names (snd j) = part_names (snd h)" using names_extends [OF j(2)] by simp
  ultimately show ?thesis using j(1,2) unfolding writing_def by blast
qed

text \<open>A stream about to write the part of its first transaction.\<close>

definition sample_limits :: flush_concurrency where
  "sample_limits = \<lparr> fc_encoders = 2, fc_publications = 1, fc_inflight_bytes = 1000000 \<rparr>"

definition sample_journal_record :: "pending_transaction versioned" where
  "sample_journal_record = (\<lparr> cv_incarnation = ''p'', cv_revision = 0, cv_digest = ''x'' \<rparr>, sample_pending)"

definition sample_authority_record :: "authority_state versioned" where
  "sample_authority_record = (\<lparr> cv_incarnation = ''a'', cv_revision = 0, cv_digest = ''y'' \<rparr>, sample_authority)"

definition sample_batch :: record_batch where
  "sample_batch = \<lparr> rb_rows = 3, rb_schema_sha256 = Inr (replicate 64 (CHR ''1'')), rb_timestamp = None, rb_date = None, rb_stream_ordinal = None,
     rb_share = (\<lambda>_. 300), rb_write = (\<lambda>_ _. ([''PAR1'', ''rows'', ''PAR1''], None)), rb_stats = Inr ''{numRecords:3}'' \<rparr>"

definition sample_job :: pipeline_job where
  "sample_job = \<lparr> pj_authority = sample_authority_record,
     pj_prepared = \<lparr> pf_batches = [(''blocks'', sample_batch)], pf_parts = map (writer_plan sample_pending) (pt_parts sample_pending),
       pf_compression = CompSnappy, pf_file_metadata = [] \<rparr>,
     pj_limits = sample_limits, pj_lane = False \<rparr>"

definition sample_writing_world :: world where
  "sample_writing_world = empty_world\<lparr> w_state := Some sample_authority_record, w_pending := Some sample_journal_record \<rparr>"

lemma sample_writing:
  "pj_authority sample_job = sample_authority_record"
  "pf_parts (pj_prepared sample_job) = map (writer_plan (snd sample_journal_record)) (pt_parts (snd sample_journal_record))"
  "concurrency_validate (pj_limits sample_job) = Inr ()" "fc_inflight_bytes (pj_limits sample_job) \<le> u64_max"
  "w_state sample_writing_world = Some sample_authority_record" "w_pending sample_writing_world = Some sample_journal_record"
  "validate_predecessor (e_ext sample_env) (snd sample_authority_record) (snd sample_journal_record) = Inr ()"
  "pt_phase (snd sample_journal_record) = Writing" "rollback_safe sample_env (snd sample_journal_record) (w_files sample_writing_world)"
  using sample_pending_valid prepare_ok [OF sample_prepared]
  by (simp_all add: sample_job_def sample_journal_record_def sample_authority_record_def sample_writing_world_def sample_limits_def
      concurrency_validate_def u64_max_def rollback_safe_def empty_world_def)

theorem publication_is_journaled_witness:
  "\<exists>j w'. snd (publish_parts sample_env sample_job sample_journal_record sample_writing_world) = w' \<and> w_pending w' = Some j \<and>
     pt_phase (snd j) = Writing \<and> rollback_safe sample_env (snd j) (w_files w')"
proof -
  obtain r w' where run: "publish_parts sample_env sample_job sample_journal_record sample_writing_world = (r, w')" by fastforce
  have "sha256_hex (e_ext sample_env)" using sample_sha256_hex by simp
  from publication_is_journaled [OF this sample_writing(1,2,4-9) run] run show ?thesis by auto
qed

text \<open>
  C6. The coordinator always comes to an end with nothing running and no byte of the
  budget in use, and its accounting never underflows, whatever fails and whenever: work that was
  started is drained, work that was not is dropped. Without a failure nothing is left to admit, so that
  the closing check for unfinished parts cannot fail, and the pending record is the durable one.
\<close>

theorem table_work_drains:
  assumes "sha256_hex (e_ext e)" "pj_authority job = a" "pf_parts (pj_prepared job) = map (writer_plan (snd h)) (pt_parts (snd h))"
    "concurrency_validate (pj_limits job) = Inr ()" "fc_inflight_bytes (pj_limits job) \<le> u64_max"
    and "w_state w = Some a" "w_pending w = Some h" "validate_predecessor (e_ext e) (snd a) (snd h) = Inr ()"
    "pt_phase (snd h) = Writing" "rollback_safe e (snd h) (w_files w)"
  shows "\<exists>st w'. publish_loop e job True (initial_coordinator job h) w = (Inr st, w') \<and> co_work st = [] \<and>
    ib_used (co_budget st) = 0 \<and> \<not> ib_exclusive (co_budget st) \<and> \<not> co_underflow st \<and>
    (co_failure st = None \<longrightarrow> co_queue st = [] \<and> co_receipts st = [] \<and> co_publishable st = [] \<and> co_pending st = w_pending w')"
proof -
  have w: "writing e a w {} h w" and job: "job_ok job (snd h)" using assms by (simp_all add: writing_def job_ok_def)
  obtain st w' where st: "publish_loop e job True (initial_coordinator job h) w = (Inr st, w')" "co_work st = []"
    "running e a w h st w'" "accounts job st {#} 0 0" "stopped st"
    "co_failure st = None \<longrightarrow> co_queue st = [] \<and> co_receipts st = [] \<and> co_publishable st = [] \<and>
       ib_used (co_budget st) = 0 \<and> co_pending st \<noteq> None"
    by (rule publish_loop_end [OF assms(1,2) job w assms(4,5)])
  have empty: "co_receipts st = [] \<and> co_publishable st = []" using st(5,6) by (cases "co_failure st") (auto simp: stopped_def)
  then have "holds (co_budget st) {#}" "\<not> co_underflow st" using st(2,4) by (simp_all add: accounts_defs)
  moreover from this have "ib_used (co_budget st) = 0" "\<not> ib_exclusive (co_budget st)" using holds_empty by blast+
  moreover have "co_pending st = w_pending w'" if "co_failure st = None"
  proof -
    obtain h' S where "writing e a w S h' w'" "busy h' S st 0 {}" using st(3) unfolding running_def by blast
    then show ?thesis using that st(2,6) by (auto simp: writing_def busy_def pend_ok_def)
  qed
  ultimately show ?thesis using st(1,2,6) by (intro exI [of _ st] exI [of _ w']) simp
qed

theorem table_work_drains_witness:
  "\<exists>st w'. publish_loop sample_env sample_job True (initial_coordinator sample_job sample_journal_record) sample_writing_world =
     (Inr st, w') \<and> ib_used (co_budget st) = 0 \<and> \<not> co_underflow st"
proof -
  have "sha256_hex (e_ext sample_env)" using sample_sha256_hex by simp
  from table_work_drains [OF this sample_writing] show ?thesis by blast
qed

end
