(* ===== verification/Flush_Checked.thy ===== *)
theory Flush_Checked
  imports Flush_Plan
begin

text \<open>
  What the validation of a prepared flush guarantees: every row stays in the date partition its part is
  published under, and every nonempty batch belongs to exactly one planned part.
\<close>

section \<open>Validated plans\<close>

lemma date_path_inj:
  "time_crate cal \<Longrightarrow> from_timestamp cal s = Inr d \<Longrightarrow> from_timestamp cal t = Inr d' \<Longrightarrow> date_path d' = date_path d \<Longrightarrow> d' = d"
  using time_crate.path_parses [of cal s d] time_crate.path_parses [of cal t d'] by simp

lemma partition_suffix_ok:
  "partition_suffix cal table m = Inr p \<longleftrightarrow> (\<exists>s d. bm_min_timestamp m = Some s \<and> from_timestamp cal s = Inr d \<and> p = table @ ''/'' @ date_path d \<and>
     (case bm_max_timestamp m of None \<Rightarrow> True | Some t \<Rightarrow> is_ok (checked_timestamp cal t)))"
  by (auto simp: partition_suffix_def bindR_eq_Inr some_or_eq_Inr is_ok_def split: option.splits sum.splits)

lemma check_row_ok:
  assumes "time_crate cal" "from_timestamp cal s = Inr d" "check_row cal table m (table @ ''/'' @ date_path d) t = Inr ()"
  shows "from_timestamp cal t = Inr d"
  using assms(3) date_path_inj [OF assms(1,2)] by (auto simp: check_row_def bindR_eq_Inr partition_suffix_ok)

lemma check_rows_ok:
  assumes "time_crate cal" "from_timestamp cal s = Inr d" "check_rows cal table m (table @ ''/'' @ date_path d) previous ts = Inr ()"
    "\<forall>t. previous = Some t \<longrightarrow> from_timestamp cal t = Inr d" "t \<in> set ts"
  shows "from_timestamp cal t = Inr d"
  using assms(3-5)
proof (induction ts arbitrary: previous)
  case (Cons u ts)
  have u: "from_timestamp cal u = Inr d"
    using Cons.prems(1,2) check_row_ok [OF assms(1,2)] by (auto simp: bindR_eq_Inr split: if_splits)
  show ?case
  proof (cases "t = u")
    case False
    then have "t \<in> set ts" using Cons.prems(3) by simp
    then show ?thesis using Cons.IH [of previous] Cons.IH [of "Some u"] Cons.prems(1,2) u
      by (auto simp: bindR_eq_Inr split: if_splits)
  qed (use u in simp)
qed simp

lemma validate_partition_ok:
  assumes "time_crate cal" "validate_partition cal table batch m = Inr ()" "partition_suffix cal table m = Inr directory"
  obtains d seconds where "directory = table @ ''/'' @ date_path d" "row_seconds batch = Inr seconds"
    "\<forall>s\<in>set seconds. from_timestamp cal s = Inr d"
    "\<forall>dates v. rb_date batch = Some (Date32Column dates) \<longrightarrow> Some v \<in> set dates \<longrightarrow> v = date32 cal d"
proof -
  obtain s d where s: "bm_min_timestamp m = Some s" "from_timestamp cal s = Inr d" "directory = table @ ''/'' @ date_path d"
    using assms(3) by (auto simp: partition_suffix_ok)
  obtain seconds where sec: "row_seconds batch = Inr seconds" "check_rows cal table m directory None seconds = Inr ()"
    "validate_date_column cal batch m = Inr ()"
    using assms(2,3) by (auto simp: validate_partition_def bindR_eq_Inr)
  have "\<forall>t\<in>set seconds. from_timestamp cal t = Inr d"
    using check_rows_ok [OF assms(1) s(2) sec(2) [unfolded s(3)]] by simp
  moreover have "v = date32 cal d" if "rb_date batch = Some (Date32Column dates)" "Some v \<in> set dates" for dates v
    using sec(3) that s(1,2) by (auto simp: validate_date_column_def for_each_ok List.map_filter_def)
  ultimately show thesis using that s(3) sec(1) by blast
qed

lemma check_plans_member:
  "check_plans cal batches inventory parts m previous plans = Inr () \<Longrightarrow> plan \<in> set plans \<Longrightarrow>
     \<exists>p. check_planned cal batches inventory parts m p plan = Inr ()"
  by (induction plans arbitrary: previous) (auto simp: bindR_eq_Inr)

lemma check_plans_sorted:
  "check_plans cal batches inventory parts m previous plans = Inr () \<Longrightarrow>
     sorted_wrt (<) (map wp_table plans) \<and> (\<forall>t. previous = Some t \<longrightarrow> (\<forall>plan\<in>set plans. t < wp_table plan))"
proof (induction plans arbitrary: previous)
  case (Cons plan plans)
  have "case previous of None \<Rightarrow> True | Some t \<Rightarrow> t < wp_table plan"
    using Cons.prems by (auto simp: check_planned_def bindR_eq_Inr)
  moreover have "sorted_wrt (<) (map wp_table plans) \<and> (\<forall>q\<in>set plans. wp_table plan < wp_table q)"
    using Cons.IH [of "Some (wp_table plan)"] Cons.prems by (auto simp: bindR_eq_Inr)
  ultimately show ?case by (auto split: option.splits)
qed simp

section \<open>A small flush\<close>

definition sample_rows :: record_batch where
  "sample_rows = \<lparr> rb_rows = 3, rb_schema_sha256 = Inr (replicate 64 (CHR ''1'')),
     rb_timestamp = Some (MillisUtc [Some 1700000000123, None, Some 1700000001000]),
     rb_date = Some (Date32Column [Some 19675]), rb_stream_ordinal = None, rb_share = (\<lambda>_. 300),
     rb_write = (\<lambda>_ _. ([''PAR1''], None)), rb_stats = Inr ''{numRecords:3}'' \<rparr>"

definition sample_plan :: writer_part where
  "sample_plan = (let plan = \<lparr> wp_table = ''blocks'', wp_final = [], wp_temporary = [], wp_schema_sha256 = replicate 64 (CHR ''1''),
     wp_transaction_id = replicate 64 (CHR ''b''), wp_stream_id = replicate 64 (CHR ''a''), wp_first_ordinal = 1, wp_last_ordinal = 2,
     wp_entry_index = 0, wp_row_count = 3 \<rparr> in
   plan\<lparr> wp_final := ''blocks/date=2023-11-14/'' @ protected_final_name plan,
     wp_temporary := ''blocks/date=2023-11-14/'' @ protected_temporary_name plan \<rparr>)"

definition sample_routing :: block_metadata where
  "sample_routing = \<lparr> bm_min_block_number = 10, bm_max_block_number = 11, bm_min_timestamp = Some 1700000000, bm_max_timestamp = Some 1700000001 \<rparr>"

lemma sample_flush_valid: "validate_plan sample_plan = Inr ()"
  by code_simp

lemma sample_flush_prepared:
  "prepared_new gregorian [(''blocks'', sample_rows)] [(''blocks'', replicate 64 (CHR ''1''))] [sample_plan] sample_routing CompSnappy [] =
     Inr \<lparr> pf_batches = [(''blocks'', sample_rows)], pf_parts = [sample_plan], pf_compression = CompSnappy, pf_file_metadata = [] \<rparr>"
proof -
  have 1: "from_timestamp gregorian 1700000000 = Inr (DatePartition 2023 11 14)" "from_timestamp gregorian 1700000001 = Inr (DatePartition 2023 11 14)"
    "is_ok (checked_timestamp gregorian 1700000001)" "date32 gregorian (DatePartition 2023 11 14) = 19675"
    "date_path (DatePartition 2023 11 14) = ''date=2023-11-14''"
    by code_simp+
  have 2: "protected_validate_table ''blocks'' = Inr ()" "validate_digest (replicate 64 (CHR ''1'')) = Inr ()"
    by code_simp+
  have suffix: "partition_suffix gregorian ''blocks'' m = Inr (''blocks/date=2023-11-14'')"
    if "bm_min_timestamp m = Some s" "s = 1700000000 \<or> s = 1700000001" "bm_max_timestamp m = Some 1700000001" for m s
    using that 1 by (auto simp: partition_suffix_ok)
  have "validate_partition gregorian ''blocks'' sample_rows sample_routing = Inr ()"
    using 1 by (simp add: validate_partition_def suffix sample_routing_def sample_rows_def row_seconds_def List.map_filter_def check_row_def validate_date_column_def)
  moreover have "wp_table sample_plan = ''blocks''" "wp_entry_index sample_plan = 0" "wp_row_count sample_plan = 3"
    "wp_schema_sha256 sample_plan = replicate 64 (CHR ''1'')" "same_transaction sample_plan sample_plan"
    "wp_final sample_plan = ''blocks/date=2023-11-14'' @ ''/'' @ protected_final_name sample_plan"
    "wp_temporary sample_plan = ''blocks/date=2023-11-14'' @ ''/'' @ protected_temporary_name sample_plan"
    by (simp_all add: sample_plan_def Let_def same_transaction_def protected_final_name_def protected_temporary_name_def)
  moreover have "rb_rows sample_rows = 3" "rb_schema_sha256 sample_rows = Inr (replicate 64 (CHR ''1''))"
    by (simp_all add: sample_rows_def)
  moreover have "partition_suffix gregorian ''blocks'' sample_routing = Inr (''blocks/date=2023-11-14'')"
    by (simp add: suffix sample_routing_def)
  ultimately show ?thesis using 2 sample_flush_valid by (simp add: prepared_new_def check_planned_def position_def)
qed

section \<open>Properties\<close>

lemma planned_once:
  assumes "prepared_new cal batches inventory parts m compression file_metadata = Inr f"
  shows "(table, batch) \<in> set batches \<Longrightarrow> 0 < rb_rows batch \<Longrightarrow> \<exists>!part. part \<in> set (pf_parts f) \<and> wp_table part = table"
    and "part \<in> set (pf_parts f) \<Longrightarrow> map_of inventory (wp_table part) = Some (wp_schema_sha256 part) \<and>
      wp_entry_index part < length inventory \<and> fst (inventory ! wp_entry_index part) = wp_table part"
proof -
  have f: "pf_parts f = parts" "check_plans cal batches inventory parts m None parts = Inr ()"
    using assms by (auto simp: prepared_new_def bindR_eq_Inr)
  have dist: "distinct (map wp_table parts)" using check_plans_sorted [OF f(2)] strict_sorted_iff by blast
  show "\<exists>!part. part \<in> set (pf_parts f) \<and> wp_table part = table" if "(table, batch) \<in> set batches" "0 < rb_rows batch"
  proof -
    have "\<exists>part\<in>set parts. wp_table part = table"
      using assms that by (auto simp: prepared_new_def bindR_eq_Inr for_each_ok list_ex_iff)
    then show ?thesis using dist f(1) by (auto simp: distinct_map inj_on_def)
  qed
  show "map_of inventory (wp_table part) = Some (wp_schema_sha256 part) \<and>
      wp_entry_index part < length inventory \<and> fst (inventory ! wp_entry_index part) = wp_table part" if part: "part \<in> set (pf_parts f)"
  proof -
    have "part \<in> set parts" using part f(1) by simp
    from check_plans_member [OF f(2) this] obtain p where "check_planned cal batches inventory parts m p part = Inr ()" ..
    then show ?thesis
      by (auto simp: check_planned_def bindR_eq_Inr some_or_eq_Inr position_def find_Some_iff)
  qed
qed



end
