(* ===== verification/Frontier.thy ===== *)
theory Frontier
  imports Txn_State "HOL-Library.AList"
begin

text \<open>
  The accepted frontier (\<open>ingest/frontier.rs\<close>): ordinals are assigned to events at receipt, events
  are accepted in any order, and the frontier advances through the contiguous accepted prefix. The
  buffer of received events is an association list in ordinal order, the streaming hash is the byte
  string fed to it. An operation that fails leaves the frontier as it was, so it returns the new
  frontier or an error.

  The specification is the history of received events with the decision taken on each: a frontier
  is a function of the history and of the number of acknowledged events.
\<close>

section \<open>State\<close>

definition MAX_BUFFERED_EVENTS :: nat where
  "MAX_BUFFERED_EVENTS = 65536"

datatype accepted_routing = Explicit routing_checkpoint | Inherit

record received_event =
  re_identity :: event_identity
  re_accepted :: "accepted_routing option"

record accepted_frontier =
  fr_base :: nat
  fr_assigned :: nat
  fr_accepted :: nat
  fr_last_event :: "event_identity option"
  fr_routing :: routing_checkpoint
  fr_received :: "(nat \<times> received_event) list"
  fr_digest :: string

definition fresh_digest :: string where
  "fresh_digest = ''fireparq-accepted-window-v1'' @ [CHR 0x00]"

section \<open>Operations\<close>

definition frontier_received :: "accepted_frontier \<Rightarrow> nat \<Rightarrow> event_identity result" where
  "frontier_received f ordinal =
     some_or (map_option re_identity (map_of (fr_received f) ordinal))
       ''event was not received or was already accepted''"

definition next_accepted_ordinal :: "accepted_frontier \<Rightarrow> nat result" where
  "next_accepted_ordinal f =
     some_or (checked_add (fr_accepted f) 1) ''accepted event ordinal exhausted''"

definition resume :: "checkpoint \<Rightarrow> accepted_frontier" where
  "resume c = \<lparr> fr_base = cp_ordinal c, fr_assigned = cp_ordinal c, fr_accepted = cp_ordinal c,
     fr_last_event = cp_event c, fr_routing = cp_routing c, fr_received = [],
     fr_digest = fresh_digest \<rparr>"

definition receive ::
  "ext \<Rightarrow> accepted_frontier \<Rightarrow> event_identity \<Rightarrow> (nat \<times> accepted_frontier) result" where
  "receive x f identity =
     bindR (event_validate x identity) (\<lambda>_.
     if length (fr_received f) \<ge> MAX_BUFFERED_EVENTS
     then bail ''accepted-event buffer limit reached before a contiguous prefix resolved''
     else bindR (some_or (checked_add (fr_assigned f) 1) ''accepted event ordinal exhausted'') (\<lambda>ordinal.
       if (case rc_anchor (fr_routing f) of None \<Rightarrow> False
           | Some a \<Rightarrow> an_provenance a = PLookahead \<and> an_source_ordinal a = ordinal \<and>
               (ev_block_num identity \<noteq> an_source_block_num a \<or>
                ev_block_id identity \<noteq> an_source_block_id a \<or>
                ev_source_timestamp identity \<noteq> Some (an_seconds a)))
       then bail ''resumed input differs from the authoritative lookahead anchor source''
       else Inr (ordinal, f\<lparr>
         fr_received := AList.update ordinal \<lparr> re_identity = identity, re_accepted = None \<rparr>
           (fr_received f),
         fr_assigned := ordinal \<rparr>)))"

text \<open>The window entry of one drained event, as fed to the streaming hash.\<close>

definition window_entry :: "ext \<Rightarrow> nat \<Rightarrow> event_identity \<Rightarrow> routing_checkpoint \<Rightarrow> string" where
  "window_entry x ordinal e r =
     (let bytes = canonical_json x (JArr [JNum (int ordinal), event_json e, routing_json r])
      in be64_bytes (length bytes) @ bytes)"

fun resolve_routing :: "routing_checkpoint \<Rightarrow> accepted_routing \<Rightarrow> routing_checkpoint" where
  "resolve_routing current (Explicit r) = r"
| "resolve_routing current Inherit = current"

definition drain_step ::
  "ext \<Rightarrow> accepted_frontier \<Rightarrow> nat \<Rightarrow> received_event \<Rightarrow> accepted_routing \<Rightarrow> accepted_frontier" where
  "drain_step x f nxt event decision =
     (let routing = resolve_routing (fr_routing f) decision
      in f\<lparr> fr_received := AList.delete nxt (fr_received f),
            fr_digest := fr_digest f @ window_entry x nxt (re_identity event) routing,
            fr_accepted := nxt,
            fr_last_event := Some (re_identity event),
            fr_routing := routing \<rparr>)"

function drain :: "ext \<Rightarrow> accepted_frontier \<Rightarrow> accepted_frontier" where
  "drain x f =
     (case checked_add (fr_accepted f) 1 of
        None \<Rightarrow> f
      | Some nxt \<Rightarrow>
          (case map_of (fr_received f) nxt of
             None \<Rightarrow> f
           | Some event \<Rightarrow>
               (case re_accepted event of
                  None \<Rightarrow> f
                | Some decision \<Rightarrow> drain x (drain_step x f nxt event decision))))"
  by pat_completeness auto

lemma length_delete_less: "map_of l k = Some v \<Longrightarrow> length (AList.delete k l) < length l"
  by (induction l) (auto simp: AList.delete_eq split: if_splits intro: le_less_trans [OF length_filter_le])

termination drain
  by (relation "measure (\<lambda>(x, f). length (fr_received f))")
    (auto simp: drain_step_def Let_def intro: length_delete_less)

declare drain.simps [simp del]

text \<open>The source an anchor refers to: a buffered event, or the last accepted one.\<close>

definition anchor_source :: "accepted_frontier \<Rightarrow> timestamp_anchor \<Rightarrow> event_identity option" where
  "anchor_source f a =
     (case map_of (fr_received f) (an_source_ordinal a) of
        Some event \<Rightarrow> Some (re_identity event)
      | None \<Rightarrow> if an_source_ordinal a = fr_accepted f then fr_last_event f else None)"

definition matches_source :: "event_identity option \<Rightarrow> timestamp_anchor \<Rightarrow> bool" where
  "matches_source source a =
     (case source of None \<Rightarrow> False
      | Some e \<Rightarrow> ev_block_num e = an_source_block_num a \<and> ev_block_id e = an_source_block_id a \<and>
          ev_source_timestamp e = Some (an_seconds a))"

definition matches_restored :: "accepted_frontier \<Rightarrow> timestamp_anchor \<Rightarrow> bool" where
  "matches_restored f a =
     (case rc_anchor (fr_routing f) of None \<Rightarrow> False
      | Some previous \<Rightarrow> an_source_ordinal previous = an_source_ordinal a \<and>
          an_source_block_num previous = an_source_block_num a \<and>
          an_source_block_id previous = an_source_block_id a \<and>
          an_seconds previous = an_seconds a \<and>
          an_provenance previous \<noteq> PSolanaGenesisFallback)"

definition check_anchor :: "accepted_frontier \<Rightarrow> routing_checkpoint \<Rightarrow> unit result" where
  "check_anchor f r =
     (if (case rc_anchor r of None \<Rightarrow> False
          | Some a \<Rightarrow> an_source_ordinal a > fr_assigned f \<and> rc_anchor (fr_routing f) \<noteq> Some a)
      then bail ''routing anchor refers to an event that was never received''
      else case rc_anchor r of None \<Rightarrow> Inr ()
      | Some a \<Rightarrow>
          if an_provenance a \<noteq> PSolanaGenesisFallback \<and>
             \<not> matches_source (anchor_source f a) a \<and>
             \<not> (anchor_source f a = None \<and> matches_restored f a)
          then bail ''routing anchor differs from its received source or authoritative predecessor''
          else Inr ())"

definition mark_accepted ::
  "accepted_frontier \<Rightarrow> nat \<Rightarrow> accepted_routing \<Rightarrow> string \<Rightarrow> accepted_frontier result" where
  "mark_accepted f ordinal decision missing =
     bindR (some_or (map_of (fr_received f) ordinal) missing) (\<lambda>event.
     if re_accepted event \<noteq> None then bail ''event acceptance cannot be repeated or replaced''
     else Inr (f\<lparr> fr_received :=
       AList.update ordinal (event\<lparr> re_accepted := Some decision \<rparr>) (fr_received f) \<rparr>))"

definition accept ::
  "ext \<Rightarrow> accepted_frontier \<Rightarrow> nat \<Rightarrow> routing_checkpoint \<Rightarrow> accepted_frontier result" where
  "accept x f ordinal routing =
     bindR (routing_validate x routing ordinal) (\<lambda>_.
     if rc_policy routing \<noteq> rc_policy (fr_routing f)
     then bail ''routing policy changed within an accepted stream''
     else bindR (check_anchor f routing) (\<lambda>_.
     bindR (mark_accepted f ordinal (Explicit routing)
       ''event was not received or was already accepted'') (\<lambda>f'. Inr (drain x f'))))"

definition accept_filtered :: "ext \<Rightarrow> accepted_frontier \<Rightarrow> nat \<Rightarrow> accepted_frontier result" where
  "accept_filtered x f ordinal =
     bindR (mark_accepted f ordinal Inherit
       ''filtered event was not received or was already accepted'') (\<lambda>f'. Inr (drain x f'))"

definition snapshot :: "ext \<Rightarrow> accepted_frontier \<Rightarrow> accepted_prefix option result" where
  "snapshot x f =
     (if fr_accepted f = fr_base f then Inr None
      else bindR (some_or (checked_add (fr_base f) 1) ''accepted ordinal exhausted'') (\<lambda>first.
        bindR (digest_parse (x_sha256 x (fr_digest f))) (\<lambda>window.
        bindR (some_or (fr_last_event f) ''accepted prefix is missing its last event'') (\<lambda>last.
        Inr (Some \<lparr> ap_first_ordinal = first, ap_last_ordinal = fr_accepted f,
          ap_events_sha256 = window, ap_last_event = last, ap_routing = fr_routing f \<rparr>)))))"

definition acknowledge ::
  "ext \<Rightarrow> accepted_frontier \<Rightarrow> accepted_prefix \<Rightarrow> accepted_frontier result" where
  "acknowledge x f prefix =
     bindR (snapshot x f) (\<lambda>s.
     if s \<noteq> Some prefix
     then bail ''commit acknowledgement differs from the frozen accepted prefix''
     else Inr (f\<lparr> fr_base := ap_last_ordinal prefix, fr_digest := fresh_digest \<rparr>))"

definition require_fully_acknowledged :: "accepted_frontier \<Rightarrow> checkpoint \<Rightarrow> unit result" where
  "require_fully_acknowledged f c =
     (if fr_received f \<noteq> [] \<or> fr_base f \<noteq> cp_ordinal c \<or> fr_accepted f \<noteq> cp_ordinal c \<or>
         fr_assigned f \<noteq> cp_ordinal c \<or> fr_last_event f \<noteq> cp_event c \<or> fr_routing f \<noteq> cp_routing c
      then bail ''request completion requires the exact fully acknowledged frontier with no unresolved envelopes''
      else Inr ())"

section \<open>Specification: the history of decisions\<close>

type_synonym history = "(event_identity \<times> accepted_routing option) list"

definition decided :: "event_identity \<times> accepted_routing option \<Rightarrow> bool" where
  "decided h \<longleftrightarrow> snd h \<noteq> None"

text \<open>The number of events in the contiguous accepted prefix.\<close>

definition settled :: "history \<Rightarrow> nat" where
  "settled h = length (takeWhile decided h)"

fun routing_step :: "routing_checkpoint \<Rightarrow> event_identity \<times> accepted_routing option \<Rightarrow> routing_checkpoint" where
  "routing_step r (e, None) = r"
| "routing_step r (e, Some d) = resolve_routing r d"

definition routing_after :: "routing_checkpoint \<Rightarrow> history \<Rightarrow> routing_checkpoint" where
  "routing_after r h = foldl routing_step r h"

fun window_bytes :: "ext \<Rightarrow> routing_checkpoint \<Rightarrow> nat \<Rightarrow> history \<Rightarrow> string" where
  "window_bytes x r ordinal [] = []"
| "window_bytes x r ordinal (h # hs) =
     window_entry x (Suc ordinal) (fst h) (routing_step r h) @
     window_bytes x (routing_step r h) (Suc ordinal) hs"

text \<open>
  The frontier of a history with \<open>n\<close> accepted events of which \<open>k\<close> are acknowledged, resumed from a
  checkpoint.
\<close>

definition buffered :: "nat \<Rightarrow> history \<Rightarrow> (nat \<times> received_event) list" where
  "buffered ordinal h =
     zip [Suc ordinal..<Suc ordinal + length h]
       (map (\<lambda>(e, d). \<lparr> re_identity = e, re_accepted = d \<rparr>) h)"

definition frontier_of :: "ext \<Rightarrow> checkpoint \<Rightarrow> history \<Rightarrow> nat \<Rightarrow> nat \<Rightarrow> accepted_frontier" where
  "frontier_of x c h k n =
     \<lparr> fr_base = cp_ordinal c + k,
       fr_assigned = cp_ordinal c + length h,
       fr_accepted = cp_ordinal c + n,
       fr_last_event = (if n = 0 then cp_event c else Some (fst (h ! (n - 1)))),
       fr_routing = routing_after (cp_routing c) (take n h),
       fr_received = buffered (cp_ordinal c + n) (drop n h),
       fr_digest = fresh_digest @
         window_bytes x (routing_after (cp_routing c) (take k h)) (cp_ordinal c + k)
           (drop k (take n h)) \<rparr>"

section \<open>The frontier refines its history\<close>

lemma buffered_Nil [simp]: "buffered a [] = []"
  by (simp add: buffered_def)

lemma buffered_Cons [simp]:
  "buffered a (h # hs) = (Suc a, \<lparr> re_identity = fst h, re_accepted = snd h \<rparr>) # buffered (Suc a) hs"
  by (simp add: buffered_def upt_conv_Cons case_prod_beta del: upt_Suc)

lemma buffered_append: "buffered a (h @ h') = buffered a h @ buffered (a + length h) h'"
  by (induction h arbitrary: a) auto

lemma length_buffered [simp]: "length (buffered a h) = length h"
  by (induction h arbitrary: a) auto

lemma buffered_keys: "(k, v) \<in> set (buffered a h) \<Longrightarrow> a < k \<and> k \<le> a + length h"
  by (induction h arbitrary: a) force+

lemma map_of_buffered:
  "map_of (buffered a h) k =
     (if a < k \<and> k \<le> a + length h
      then Some \<lparr> re_identity = fst (h ! (k - Suc a)), re_accepted = snd (h ! (k - Suc a)) \<rparr>
      else None)"
proof (induction h arbitrary: a)
  case (Cons h hs)
  show ?case
  proof (cases "k = Suc a")
    case False
    then have "k - Suc a = Suc (k - Suc (Suc a))" if "a < k" using that by simp
    with False Cons show ?thesis by auto
  qed simp
qed simp

lemma delete_absent: "k \<notin> fst ` set l \<Longrightarrow> AList.delete k l = l"
  by (induction l) (auto simp: AList.delete_eq)

lemma delete_buffered [simp]: "AList.delete (Suc a) (buffered a (h # hs)) = buffered (Suc a) hs"
proof -
  have "Suc a \<notin> fst ` set (buffered (Suc a) hs)" by (auto dest: buffered_keys)
  then show ?thesis using delete_absent by (fastforce simp: AList.delete_eq)
qed

lemma update_fresh: "k \<notin> fst ` set l \<Longrightarrow> AList.update k v l = l @ [(k, v)]"
  by (induction l) auto

lemma update_buffered_new:
  "AList.update (Suc (a + length h)) \<lparr> re_identity = e, re_accepted = d \<rparr> (buffered a h) =
     buffered a (h @ [(e, d)])"
proof -
  have "Suc (a + length h) \<notin> fst ` set (buffered a h)" by (auto dest: buffered_keys)
  then show ?thesis by (simp add: update_fresh buffered_append)
qed

lemma update_buffered:
  "i < length h \<Longrightarrow>
   AList.update (Suc (a + i)) \<lparr> re_identity = fst (h ! i), re_accepted = d \<rparr> (buffered a h) =
     buffered a (h[i := (fst (h ! i), d)])"
proof (induction h arbitrary: a i)
  case (Cons h hs)
  show ?case
  proof (cases i)
    case (Suc j)
    with Cons.prems Cons.IH [of j "Suc a"] show ?thesis by simp
  qed simp
qed simp

lemma routing_after_append [simp]:
  "routing_after r (h @ h') = routing_after (routing_after r h) h'"
  "routing_after r [] = r" "routing_after r (a # h) = routing_after (routing_step r a) h"
  by (simp_all add: routing_after_def)

lemma window_bytes_snoc:
  "window_bytes x r a (hs @ [h]) =
     window_bytes x r a hs @ window_entry x (Suc (a + length hs)) (fst h)
       (routing_step (routing_after r hs) h)"
  by (induction hs arbitrary: r a) auto

lemma drain_step_frontier:
  assumes n: "n < length h" "h ! n = (e, Some d)" and k: "k \<le> n"
  shows "drain_step x (frontier_of x c h k n) (Suc (cp_ordinal c + n))
      \<lparr> re_identity = e, re_accepted = Some d \<rparr> d = frontier_of x c h k (Suc n)"
proof -
  have t: "take (Suc n) h = take n h @ [(e, Some d)]" using n by (simp add: take_Suc_conv_app_nth)
  have dr: "drop n h = (e, Some d) # drop (Suc n) h" using n by (metis Cons_nth_drop_Suc)
  have dk: "drop k (take (Suc n) h) = drop k (take n h) @ [(e, Some d)]" using k n by (simp add: t)
  have r: "routing_after (routing_after (cp_routing c) (take k h)) (drop k (take n h)) =
      routing_after (cp_routing c) (take n h)"
    using k by (metis routing_after_append(1) append_take_drop_id min.absorb1 take_take)
  have len: "cp_ordinal c + k + length (drop k (take n h)) = cp_ordinal c + n" using n k by simp
  have "AList.delete (Suc (cp_ordinal c + n)) (buffered (cp_ordinal c + n) (drop n h)) =
      buffered (cp_ordinal c + Suc n) (drop (Suc n) h)"
    unfolding dr delete_buffered by simp
  moreover have "window_bytes x (routing_after (cp_routing c) (take k h)) (cp_ordinal c + k)
        (drop k (take (Suc n) h)) =
      window_bytes x (routing_after (cp_routing c) (take k h)) (cp_ordinal c + k) (drop k (take n h)) @
      window_entry x (Suc (cp_ordinal c + n)) e
        (resolve_routing (routing_after (cp_routing c) (take n h)) d)"
    unfolding dk window_bytes_snoc r len by simp
  ultimately show ?thesis
    by (simp add: drain_step_def frontier_of_def Let_def t n(2))
qed

lemma settled_le: "settled h \<le> length h"
  by (simp add: settled_def length_takeWhile_le)

lemma decided_below: "i < settled h \<Longrightarrow> decided (h ! i)"
  by (metis nth_mem settled_def set_takeWhileD takeWhile_nth)

lemma settled_stop:
  "n \<le> length h \<Longrightarrow> (\<forall>i < n. decided (h ! i)) \<Longrightarrow> n = length h \<or> \<not> decided (h ! n) \<Longrightarrow> settled h = n"
  unfolding settled_def
  by (rule antisym) (metis length_takeWhile_less_P_nth linorder_not_le nth_length_takeWhile takeWhile_nth nth_mem set_takeWhileD length_takeWhile_le order.trans not_less_iff_gr_or_eq, metis length_takeWhile_less_P_nth)

lemma drain_frontier:
  assumes "k \<le> n" "n \<le> length h" "\<forall>i < n. decided (h ! i)" "cp_ordinal c + length h \<le> u64_max"
  shows "drain x (frontier_of x c h k n) = frontier_of x c h k (settled h)"
  using assms
proof (induction "length h - n" arbitrary: n)
  case 0
  then have "n = length h" by simp
  with 0 have "settled h = n" using settled_stop by blast
  with \<open>n = length h\<close> show ?case
    by (subst drain.simps) (simp add: frontier_of_def split: option.split)
next
  case (Suc m)
  then have n: "n < length h" by simp
  have add: "checked_add (fr_accepted (frontier_of x c h k n)) 1 = Some (Suc (cp_ordinal c + n))"
    using n Suc.prems(4) by (simp add: frontier_of_def)
  note add = add [unfolded One_nat_def]
  have mo: "map_of (fr_received (frontier_of x c h k n)) (Suc (cp_ordinal c + n)) =
      Some \<lparr> re_identity = fst (h ! n), re_accepted = snd (h ! n) \<rparr>"
    using n by (simp add: frontier_of_def map_of_buffered)
  show ?case
  proof (cases "snd (h ! n)")
    case None
    then have "settled h = n" using Suc.prems n settled_stop by (simp add: decided_def)
    with None show ?thesis by (subst drain.simps) (simp add: add mo)
  next
    case (Some d)
    then have hn: "h ! n = (fst (h ! n), Some d)" by (metis prod.collapse)
    have "drain x (frontier_of x c h k n) = drain x (frontier_of x c h k (Suc n))"
      using drain_step_frontier [OF n hn] Suc.prems(1)
      by (subst drain.simps) (simp add: add mo Some)
    also have "\<dots> = frontier_of x c h k (settled h)"
    proof (rule Suc.hyps(1))
      show "\<forall>i < Suc n. decided (h ! i)"
        using Suc.prems(3) Some by (auto simp: less_Suc_eq decided_def)
    qed (use Suc.hyps(2) Suc.prems n in auto)
    finally show ?thesis .
  qed
qed

text \<open>
  \<open>h\<close> is the history behind a frontier with \<open>k\<close> acknowledged events: everything it shows is
  computed from the history, and ordinals fit 64 bits.
\<close>

definition tracks :: "ext \<Rightarrow> checkpoint \<Rightarrow> history \<Rightarrow> nat \<Rightarrow> accepted_frontier \<Rightarrow> bool" where
  "tracks x c h k f \<longleftrightarrow>
     f = frontier_of x c h k (settled h) \<and> k \<le> settled h \<and> cp_ordinal c + length h \<le> u64_max"

lemma tracks_resume: "cp_ordinal c \<le> u64_max \<Longrightarrow> tracks x c [] 0 (resume c)"
  by (simp add: tracks_def resume_def frontier_of_def settled_def)

lemma settled_snoc_undecided: "settled (h @ [(e, None)]) = settled h"
  by (induction h) (auto simp: settled_def decided_def)

lemma take_settled [simp]:
  "take (settled h) (h @ t) = take (settled h) h" "drop (settled h) (h @ t) = drop (settled h) h @ t"
  using settled_le [of h] by simp_all

lemma receive_tracks:
  assumes "tracks x c h k f" "receive x f e = Inr (ordinal, f')"
  shows "ordinal = cp_ordinal c + length h + 1" "tracks x c (h @ [(e, None)]) k f'"
proof -
  have f: "f = frontier_of x c h k (settled h)" and k: "k \<le> settled h" using assms(1) by (simp_all add: tracks_def)
  have o: "ordinal = Suc (cp_ordinal c + length h)" "Suc (cp_ordinal c + length h) \<le> u64_max"
    and f': "f' = f\<lparr> fr_received := AList.update ordinal \<lparr> re_identity = e, re_accepted = None \<rparr>
        (fr_received f), fr_assigned := ordinal \<rparr>"
    using assms(2) by (auto simp: receive_def result_simps f frontier_of_def split: if_splits)
  show "ordinal = cp_ordinal c + length h + 1" using o by simp
  have len: "cp_ordinal c + settled h + length (drop (settled h) h) = cp_ordinal c + length h"
    using settled_le [of h] by simp
  have "AList.update ordinal \<lparr> re_identity = e, re_accepted = None \<rparr>
      (buffered (cp_ordinal c + settled h) (drop (settled h) h)) =
    buffered (cp_ordinal c + settled h) (drop (settled h) h @ [(e, None)])"
    using update_buffered_new [of "cp_ordinal c + settled h" "drop (settled h) h" e None]
    unfolding len o(1) .
  moreover have "(h @ [(e, None)]) ! (settled h - 1) = h ! (settled h - 1)" if "0 < settled h"
  proof -
    have "settled h - 1 < length h" using that settled_le [of h] by linarith
    then show ?thesis by (simp add: nth_append)
  qed
  ultimately show "tracks x c (h @ [(e, None)]) k f'"
    using k o settled_le [of h]
    by (simp add: tracks_def f' f frontier_of_def settled_snoc_undecided)
qed

lemma mark_tracks:
  assumes t: "tracks x c h k f" and m: "mark_accepted f ordinal d msg = Inr f'"
  obtains i where "settled h \<le> i" "i < length h" "snd (h ! i) = None" "ordinal = cp_ordinal c + i + 1"
    "drain x f' = frontier_of x c (h[i := (fst (h ! i), Some d)]) k
       (settled (h[i := (fst (h ! i), Some d)]))"
    "tracks x c (h[i := (fst (h ! i), Some d)]) k (drain x f')"
proof -
  let ?n = "settled h" and ?o = "cp_ordinal c"
  have f: "f = frontier_of x c h k ?n" and k: "k \<le> ?n" and b: "?o + length h \<le> u64_max"
    using t by (simp_all add: tracks_def)
  obtain v where v: "map_of (buffered (?o + ?n) (drop ?n h)) ordinal = Some v"
    and a: "re_accepted v = None"
    and f': "f' = f\<lparr> fr_received := AList.update ordinal (v\<lparr> re_accepted := Some d \<rparr>) (fr_received f) \<rparr>"
    using m by (auto simp: mark_accepted_def result_simps f frontier_of_def split: if_splits)
  define i where "i = ordinal - Suc ?o"
  have r: "?o + ?n < ordinal" "ordinal \<le> ?o + ?n + length (drop ?n h)"
    and v': "v = \<lparr> re_identity = fst (drop ?n h ! (ordinal - Suc (?o + ?n))),
      re_accepted = snd (drop ?n h ! (ordinal - Suc (?o + ?n))) \<rparr>"
    using v by (auto simp: map_of_buffered split: if_splits)
  define j where "j = ordinal - Suc (?o + ?n)"
  have i: "?n \<le> i" "i < length h" "ordinal = ?o + i + 1" "i = ?n + j"
    using r settled_le [of h] by (auto simp: i_def j_def)
  have hi: "drop ?n h ! j = h ! i" using i by simp
  have u: "snd (h ! i) = None" using a by (simp add: v' hi j_def [symmetric])
  let ?h = "h[i := (fst (h ! i), Some d)]"
  have v'': "v\<lparr> re_accepted := Some d \<rparr> = \<lparr> re_identity = fst (drop ?n h ! j), re_accepted = Some d \<rparr>"
    by (simp add: v' j_def)
  have jl: "j < length (drop ?n h)" using i by simp
  have ord: "ordinal = Suc (?o + ?n + j)" using i by simp
  have upd: "AList.update ordinal (v\<lparr> re_accepted := Some d \<rparr>) (buffered (?o + ?n) (drop ?n h)) =
      buffered (?o + ?n) (drop ?n ?h)"
    unfolding v'' ord update_buffered [OF jl] by (simp add: drop_update_swap i(1,4) hi)
  have "take m ?h = take m h" if "m \<le> ?n" for m using that i by simp
  moreover have "?h ! (?n - 1) = h ! (?n - 1)" if "0 < ?n" using that i by simp
  ultimately have "f' = frontier_of x c ?h k ?n"
    unfolding f' f using k upd by (simp add: frontier_of_def)
  moreover have "\<forall>m < ?n. decided (?h ! m)" using decided_below i(1) by (metis leD nth_list_update_neq)
  ultimately have dr: "drain x f' = frontier_of x c ?h k (settled ?h)"
    using drain_frontier [OF k, of ?h c x] b settled_le [of h] by simp
  have "\<not> settled ?h < ?n"
    using \<open>\<forall>m < ?n. decided (?h ! m)\<close> settled_stop
    by (metis (no_types, lifting) nth_length_takeWhile settled_def length_list_update settled_le order.strict_trans2)
  then have "tracks x c ?h k (drain x f')" using dr k b by (simp add: tracks_def)
  with that [of i] i u dr show ?thesis by blast
qed

lemma mark_policy: "mark_accepted f ordinal d msg = Inr f' \<Longrightarrow> fr_base f' = fr_base f"
  by (auto simp: mark_accepted_def result_simps split: if_splits)

section \<open>Runs of operations\<close>

datatype frontier_op =
    OReceive event_identity
  | OAccept nat routing_checkpoint
  | OFilter nat
  | OAcknowledge accepted_prefix

fun frontier_step :: "ext \<Rightarrow> accepted_frontier \<Rightarrow> frontier_op \<Rightarrow> accepted_frontier result" where
  "frontier_step x f (OReceive e) = bindR (receive x f e) (\<lambda>(_, f'). Inr f')"
| "frontier_step x f (OAccept ordinal r) = accept x f ordinal r"
| "frontier_step x f (OFilter ordinal) = accept_filtered x f ordinal"
| "frontier_step x f (OAcknowledge p) = acknowledge x f p"

text \<open>The same run on the history alone, with no checks.\<close>

definition decide :: "nat \<Rightarrow> nat \<Rightarrow> accepted_routing \<Rightarrow> history \<Rightarrow> history" where
  "decide origin ordinal d h =
     h[ordinal - Suc origin := (fst (h ! (ordinal - Suc origin)), Some d)]"

fun history_step :: "nat \<Rightarrow> history \<times> nat \<Rightarrow> frontier_op \<Rightarrow> history \<times> nat" where
  "history_step origin (h, k) (OReceive e) = (h @ [(e, None)], k)"
| "history_step origin (h, k) (OAccept ordinal r) = (decide origin ordinal (Explicit r) h, k)"
| "history_step origin (h, k) (OFilter ordinal) = (decide origin ordinal Inherit h, k)"
| "history_step origin (h, k) (OAcknowledge p) = (h, settled h)"

lemma decide_tracks:
  assumes "tracks x c h k f" "mark_accepted f ordinal d msg = Inr f'"
  shows "tracks x c (decide (cp_ordinal c) ordinal d h) k (drain x f')"
  using assms by (rule mark_tracks) (simp add: decide_def)

lemma snapshot_tracks:
  assumes t: "tracks x c h k f" and s: "snapshot x f = Inr (Some p)"
  shows "k < settled h" "ap_first_ordinal p = cp_ordinal c + k + 1"
    "ap_last_ordinal p = cp_ordinal c + settled h" "ap_last_event p = fst (h ! (settled h - 1))"
    "ap_routing p = routing_after (cp_routing c) (take (settled h) h)"
    "digest_str (ap_events_sha256 p) = x_sha256 x (fresh_digest @
       window_bytes x (routing_after (cp_routing c) (take k h)) (cp_ordinal c + k)
         (drop k (take (settled h) h)))"
proof -
  have f: "f = frontier_of x c h k (settled h)" and k: "k \<le> settled h"
    using t by (simp_all add: tracks_def)
  have "k \<noteq> settled h" using s by (auto simp: snapshot_def f frontier_of_def)
  with k show "k < settled h" by simp
  with s show "ap_first_ordinal p = cp_ordinal c + k + 1"
    "ap_last_ordinal p = cp_ordinal c + settled h" "ap_last_event p = fst (h ! (settled h - 1))"
    "ap_routing p = routing_after (cp_routing c) (take (settled h) h)"
    "digest_str (ap_events_sha256 p) = x_sha256 x (fresh_digest @
       window_bytes x (routing_after (cp_routing c) (take k h)) (cp_ordinal c + k)
         (drop k (take (settled h) h)))"
    by (auto simp: snapshot_def f frontier_of_def result_simps digest_parse_iff split: if_splits)
qed

lemma acknowledge_tracks:
  assumes t: "tracks x c h k f" and a: "acknowledge x f p = Inr f'"
  shows "tracks x c h (settled h) f'"
proof -
  have s: "snapshot x f = Inr (Some p)"
    and f': "f' = f\<lparr> fr_base := ap_last_ordinal p, fr_digest := fresh_digest \<rparr>"
    using a by (auto simp: acknowledge_def result_simps split: if_splits)
  from t have f: "f = frontier_of x c h k (settled h)" "cp_ordinal c + length h \<le> u64_max"
    by (simp_all add: tracks_def)
  with snapshot_tracks(3) [OF t s] show ?thesis by (simp add: tracks_def f' frontier_of_def)
qed

lemma step_tracks:
  assumes "tracks x c h k f" "frontier_step x f op = Inr f'"
    and "history_step (cp_ordinal c) (h, k) op = (h', k')"
  shows "tracks x c h' k' f'"
proof (cases op)
  case (OReceive e)
  with assms show ?thesis by (auto simp: result_simps dest: receive_tracks)
next
  case (OAccept ordinal r)
  with assms obtain f1 where "mark_accepted f ordinal (Explicit r)
      ''event was not received or was already accepted'' = Inr f1" "f' = drain x f1"
    by (auto simp: accept_def result_simps split: if_splits)
  with assms OAccept decide_tracks show ?thesis by auto
next
  case (OFilter ordinal)
  with assms obtain f1 where "mark_accepted f ordinal Inherit
      ''filtered event was not received or was already accepted'' = Inr f1" "f' = drain x f1"
    by (auto simp: accept_filtered_def result_simps split: if_splits)
  with assms OFilter decide_tracks show ?thesis by auto
next
  case (OAcknowledge p)
  with assms acknowledge_tracks show ?thesis by auto
qed

lemma run_tracks:
  assumes "tracks x c h k f" "foldR (frontier_step x) f ops = Inr f'"
  shows "tracks x c (fst (foldl (history_step (cp_ordinal c)) (h, k) ops))
    (snd (foldl (history_step (cp_ordinal c)) (h, k) ops)) f'"
  using assms
proof (induction ops arbitrary: h k f)
  case Nil
  then show ?case by simp
next
  case (Cons op ops)
  from Cons.prems(2) obtain f1 where f1: "frontier_step x f op = Inr f1"
    "foldR (frontier_step x) f1 ops = Inr f'" by (auto simp: result_simps)
  obtain h1 k1 where h1: "history_step (cp_ordinal c) (h, k) op = (h1, k1)" by fastforce
  with Cons.IH [OF step_tracks [OF Cons.prems(1) f1(1) h1] f1(2)] show ?case by simp
qed

lemma foldR_append: "foldR f s (xs @ ys) = bindR (foldR f s xs) (\<lambda>s'. foldR f s' ys)"
  by (induction xs arbitrary: s) (auto simp: bindR_def split: sum.splits)

section \<open>Decisions commute\<close>

fun decision :: "frontier_op \<Rightarrow> (nat \<times> accepted_routing) option" where
  "decision (OAccept ordinal r) = Some (ordinal, Explicit r)"
| "decision (OFilter ordinal) = Some (ordinal, Inherit)"
| "decision _ = None"

lemma decision_step:
  assumes t: "tracks x c h k f" and s: "frontier_step x f op = Inr f'"
    and d: "decision op = Some (ordinal, d)"
  obtains i where "i < length h" "snd (h ! i) = None" "ordinal = cp_ordinal c + i + 1"
    "tracks x c (h[i := (fst (h ! i), Some d)]) k f'"
proof -
  obtain f1 msg where m: "mark_accepted f ordinal d msg = Inr f1" and f': "f' = drain x f1"
    using s d by (cases op) (auto simp: accept_def accept_filtered_def result_simps split: if_splits)
  show ?thesis by (rule mark_tracks [OF t m]) (rule that, auto simp: f')
qed

text \<open>After a run of decisions the history holds them all, each on an event that had none.\<close>

lemma decisions_run:
  assumes "tracks x c h k f" "foldR (frontier_step x) f ops = Inr f'"
    "\<forall>op \<in> set ops. decision op \<noteq> None"
  obtains h' where "tracks x c h' k f'" "length h' = length h"
    "\<forall>i < length h. fst (h' ! i) = fst (h ! i)"
    "\<forall>i < length h. \<forall>d. snd (h' ! i) = Some d \<longleftrightarrow>
       snd (h ! i) = Some d \<or> (\<exists>op \<in> set ops. decision op = Some (cp_ordinal c + i + 1, d))"
  using assms
proof (induction ops arbitrary: h f thesis)
  case Nil
  then show ?case by auto
next
  case (Cons op ops)
  from Cons.prems(3) obtain f1 where f1: "frontier_step x f op = Inr f1"
    "foldR (frontier_step x) f1 ops = Inr f'" by (auto simp: result_simps)
  obtain ordinal d where d: "decision op = Some (ordinal, d)" using Cons.prems(4) by auto
  obtain i where i: "i < length h" "snd (h ! i) = None" "ordinal = cp_ordinal c + i + 1"
    and t: "tracks x c (h[i := (fst (h ! i), Some d)]) k f1"
    by (rule decision_step [OF Cons.prems(2) f1(1) d])
  obtain h' where h': "tracks x c h' k f'" "length h' = length h"
    "\<forall>j < length h. fst (h' ! j) = fst (h[i := (fst (h ! i), Some d)] ! j)"
    "\<forall>j < length h. \<forall>e. snd (h' ! j) = Some e \<longleftrightarrow>
       snd (h[i := (fst (h ! i), Some d)] ! j) = Some e \<or>
       (\<exists>op \<in> set ops. decision op = Some (cp_ordinal c + j + 1, e))"
    using Cons.IH [OF _ t f1(2)] Cons.prems(4) by auto
  show ?case
  proof (rule Cons.prems(1) [OF h'(1,2)])
    show "\<forall>j < length h. fst (h' ! j) = fst (h ! j)"
    proof (intro allI impI)
      fix j assume "j < length h"
      with h'(3) show "fst (h' ! j) = fst (h ! j)" by (cases "j = i") auto
    qed
    show "\<forall>j < length h. \<forall>e. snd (h' ! j) = Some e \<longleftrightarrow>
       snd (h ! j) = Some e \<or> (\<exists>op \<in> set (op # ops). decision op = Some (cp_ordinal c + j + 1, e))"
      using h'(4) d i by (auto simp: nth_list_update)
  qed
qed

lemma decisions_commute:
  assumes t: "tracks x c h k f"
    and r: "foldR (frontier_step x) f ops = Inr f1" "foldR (frontier_step x) f ops' = Inr f2"
    and s: "set ops = set ops'" "\<forall>op \<in> set ops. decision op \<noteq> None"
  shows "f1 = f2"
proof -
  obtain h1 where h1: "tracks x c h1 k f1" "length h1 = length h"
    "\<forall>i < length h. fst (h1 ! i) = fst (h ! i)"
    "\<forall>i < length h. \<forall>d. snd (h1 ! i) = Some d \<longleftrightarrow>
       snd (h ! i) = Some d \<or> (\<exists>op \<in> set ops. decision op = Some (cp_ordinal c + i + 1, d))"
    by (rule decisions_run [OF t r(1) s(2)])
  obtain h2 where h2: "tracks x c h2 k f2" "length h2 = length h"
    "\<forall>i < length h. fst (h2 ! i) = fst (h ! i)"
    "\<forall>i < length h. \<forall>d. snd (h2 ! i) = Some d \<longleftrightarrow>
       snd (h ! i) = Some d \<or> (\<exists>op \<in> set ops. decision op = Some (cp_ordinal c + i + 1, d))"
    by (rule decisions_run [OF t r(2) s(2) [unfolded s(1)], folded s(1)])
  have "h1 = h2"
  proof (rule nth_equalityI)
    show "length h1 = length h2" using h1(2) h2(2) by simp
    fix i assume "i < length h1"
    then have i: "i < length h" using h1(2) by simp
    have "snd (h1 ! i) = snd (h2 ! i)"
      using h1(4) h2(4) i by (metis option.exhaust option.simps(3))
    with h1(3) h2(3) i show "h1 ! i = h2 ! i" by (simp add: prod_eq_iff)
  qed
  with h1(1) h2(1) show ?thesis by (simp add: tracks_def)
qed

text \<open>Any received event that has no decision yet can be accepted.\<close>

lemma mark_total:
  assumes t: "tracks x c h k f" and i: "i < length h" "snd (h ! i) = None"
  obtains f' where "mark_accepted f (cp_ordinal c + i + 1) d msg = Inr f'"
    "tracks x c (h[i := (fst (h ! i), Some d)]) k (drain x f')"
proof -
  have f: "f = frontier_of x c h k (settled h)" using t by (simp add: tracks_def)
  have n: "settled h \<le> i" using decided_below i(2) by (metis decided_def linorder_not_le)
  then have "map_of (fr_received f) (cp_ordinal c + i + 1) = Some \<lparr> re_identity = fst (h ! i),
      re_accepted = None \<rparr>"
    using i by (simp add: f frontier_of_def map_of_buffered)
  then obtain f' where f': "mark_accepted f (cp_ordinal c + i + 1) d msg = Inr f'"
    by (simp add: mark_accepted_def)
  moreover from this t have "tracks x c (decide (cp_ordinal c) (cp_ordinal c + i + 1) d h) k (drain x f')"
    by (intro decide_tracks)
  ultimately show ?thesis using that by (simp add: decide_def)
qed

lemma filter_total:
  assumes "tracks x c h k f" "i < length h" "snd (h ! i) = None"
  obtains f' where "accept_filtered x f (cp_ordinal c + i + 1) = Inr f'"
    "tracks x c (h[i := (fst (h ! i), Some Inherit)]) k f'"
  using assms
  by (rule mark_total [where d = Inherit and
        msg = "''filtered event was not received or was already accepted''"])
    (auto simp: accept_filtered_def intro: that)

section \<open>Properties\<close>

definition sample_checkpoint :: checkpoint where
  "sample_checkpoint = \<lparr> cp_id = Digest ''s'', cp_previous = None, cp_ordinal = 0, cp_event = None,
     cp_routing = \<lparr> rc_policy = GenesisLookaheadV1, rc_anchor = None \<rparr>, cp_completed_stop = None \<rparr>"

definition sample_first :: event_identity where
  "sample_first = \<lparr> ev_cursor = ''c1'', ev_block_num = 10, ev_block_id = ''b10'', ev_fork_step = 2,
     ev_source_timestamp = None \<rparr>"

definition sample_second :: event_identity where
  "sample_second = sample_first\<lparr> ev_block_num := 11, ev_block_id := ''b11'' \<rparr>"

definition sample_ops :: "frontier_op list" where
  "sample_ops = [OReceive sample_first, OReceive sample_second, OFilter 2, OFilter 1]"

lemma sample_event_valid:
  "event_validate sample_ext sample_first = Inr ()" "event_validate sample_ext sample_second = Inr ()"
  by (simp_all add: event_validate_def sample_first_def sample_second_def)

lemmas run_simps = receive_def accept_filtered_def mark_accepted_def resume_def
  MAX_BUFFERED_EVENTS_def u64_max_def some_or_def checked_add_def

lemma sample_received:
  "foldR (frontier_step sample_ext) (resume sample_checkpoint)
     [OReceive sample_first, OReceive sample_second] =
   Inr (frontier_of sample_ext sample_checkpoint [(sample_first, None), (sample_second, None)] 0 0)"
  by (simp add: run_simps sample_event_valid sample_checkpoint_def frontier_of_def routing_after_def)

lemma sample_undecided:
  "tracks sample_ext sample_checkpoint [(sample_first, None), (sample_second, None)] 0
     (frontier_of sample_ext sample_checkpoint [(sample_first, None), (sample_second, None)] 0 0)"
  by (simp add: tracks_def settled_def decided_def sample_checkpoint_def u64_max_def)

lemma sample_origin: "cp_ordinal sample_checkpoint = 0"
  by (simp add: sample_checkpoint_def)

lemma sample_filtered:
  fixes f :: accepted_frontier
  defines "f \<equiv> frontier_of sample_ext sample_checkpoint [(sample_first, None), (sample_second, None)] 0 0"
  obtains f1 f2 where "accept_filtered sample_ext f 2 = Inr f1" "accept_filtered sample_ext f1 1 = Inr f2"
    "tracks sample_ext sample_checkpoint [(sample_first, Some Inherit), (sample_second, Some Inherit)] 0 f2"
proof -
  obtain f1 where f1: "accept_filtered sample_ext f 2 = Inr f1"
    "tracks sample_ext sample_checkpoint [(sample_first, None), (sample_second, Some Inherit)] 0 f1"
    using filter_total [OF sample_undecided, of 1] by (auto simp: sample_origin f_def numeral_2_eq_2)
  obtain f2 where "accept_filtered sample_ext f1 1 = Inr f2"
    "tracks sample_ext sample_checkpoint [(sample_first, Some Inherit), (sample_second, Some Inherit)] 0 f2"
    using filter_total [OF f1(2), of 0] by (auto simp: sample_origin)
  with f1 that show ?thesis by blast
qed

lemma sample_run:
  "\<exists>f. foldR (frontier_step sample_ext) (resume sample_checkpoint) sample_ops = Inr f"
proof -
  have ops: "sample_ops = [OReceive sample_first, OReceive sample_second] @ [OFilter 2, OFilter 1]"
    by (simp add: sample_ops_def)
  show ?thesis
    unfolding ops foldR_append sample_received bindR_Inr by (rule sample_filtered) auto
qed

text \<open>
  C25. Whatever sequence of receipts, acceptances, filter decisions and
  acknowledgements succeeds from a checkpoint, the frontier is exactly the one its history dictates:
  ordinals are assigned consecutively, the accepted ordinal is the end of the longest contiguous
  decided prefix, the last event, the routing and the bytes hashed for the window are those of that
  prefix, and the events still buffered are the rest, in order. And the order in
  which mapping and filtering resolve the received events does not matter: two successful runs of the same
  decisions from one frontier end in the same frontier, with the same prefix, routing and window digest.
\<close>

theorem frontier_is_history:
  assumes "cp_ordinal c \<le> u64_max" "foldR (frontier_step x) (resume c) ops = Inr f"
    and "foldl (history_step (cp_ordinal c)) ([], 0) ops = (h, k)"
  shows "f = frontier_of x c h k (settled h) \<and> k \<le> settled h \<and> cp_ordinal c + length h \<le> u64_max \<and>
    (\<forall>ds ds' f1 f2. foldR (frontier_step x) f ds = Inr f1 \<longrightarrow> foldR (frontier_step x) f ds' = Inr f2 \<longrightarrow>
       set ds = set ds' \<longrightarrow> (\<forall>op \<in> set ds. decision op \<noteq> None) \<longrightarrow> f1 = f2)"
proof -
  have t: "tracks x c h k f" using run_tracks [OF tracks_resume [OF assms(1)] assms(2)] assms(3) by simp
  then show ?thesis using decisions_commute [OF t] unfolding tracks_def by blast
qed

theorem frontier_is_history_witness:
  "\<exists>f. foldR (frontier_step sample_ext) (resume sample_checkpoint) sample_ops = Inr f \<and>
     fr_accepted f = 2 \<and> fr_received f = []"
proof -
  obtain f where f: "foldR (frontier_step sample_ext) (resume sample_checkpoint) sample_ops = Inr f"
    using sample_run by blast
  have b: "cp_ordinal sample_checkpoint \<le> u64_max" by (simp add: sample_checkpoint_def)
  have h: "foldl (history_step (cp_ordinal sample_checkpoint)) ([], 0) sample_ops =
      ([(sample_first, Some Inherit), (sample_second, Some Inherit)], 0)"
    by (simp add: sample_ops_def decide_def sample_checkpoint_def)
  from frontier_is_history [OF b f h] f show ?thesis
    by (simp add: frontier_of_def settled_def decided_def sample_checkpoint_def)
qed



text \<open>
  A request may complete only from a frontier that is, up to the bytes hashed so far, the one a restart
  would resume from the authority.
\<close>

lemma fully_acknowledged_iff_resumed:
  "require_fully_acknowledged f c = Inr () \<longleftrightarrow> f\<lparr> fr_digest := fresh_digest \<rparr> = resume c"
  by (cases f) (auto simp: require_fully_acknowledged_def resume_def)

end
