(* ===== verification/Controller.thy ===== *)
theory Controller
  imports Delta_Exact Pipeline_Budget Flush_Checked Frontier
begin

text \<open>
  All-table publication and restart decisions (\<open>ingest/controller.rs\<close>). A controller is its authority,
  the flag that poisons it after an unresolved operation, the concurrency limits and the Delta tables
  of the dataset. Its methods change the controller and the world: \<open>controller_commit\<close>,
  \<open>controller_complete_request\<close> and \<open>open_reserved\<close>, which recovers the journal. The cursor mirror is the
  trait \<open>MirrorAction\<close>, a parameter here and the subject of \<open>Mirror\<close>. A stage at which the process may stop is a \<open>crash_point\<close>. The
  controller after a failed method is kept in the result, since the code mutates it on the way. Timings
  and high-water marks are left out.
\<close>

section \<open>State\<close>

type_synonym mirror_action = "authority_state \<Rightarrow> unit io"

record controller =
  ct_authority :: "authority_state versioned"
  ct_failed :: bool
  ct_concurrency :: flush_concurrency
  ct_delta :: "delta_tables option"

record committed_table =
  cm_table :: string
  cm_rows :: nat
  cm_bytes :: nat

record committed_flush =
  fl_checkpoint_id :: digest
  fl_ordinal :: nat
  fl_rows :: nat
  fl_bytes :: nat
  fl_files :: nat
  fl_tables :: "committed_table list"
  fl_delta :: "table_commit list"

section \<open>Failed Delta commits\<close>

definition unresolved_note :: "commit_failure \<Rightarrow> error" where
  "unresolved_note failure =
     (if \<not> cf_unresolved failure then cf_error failure
      else Context ''a Delta commit's outcome is unknown (it may have landed); the next start resolves it from the table's txn''
        (cf_error failure))"

text \<open>How long ago the newest part was received, in milliseconds.\<close>

definition pending_age :: "int option \<Rightarrow> pending_transaction \<Rightarrow> nat option" where
  "pending_age now p =
     (case map pr_modification_time (List.map_filter pp_receipt (pt_parts p)) of
        [] \<Rightarrow> None
      | t # ts \<Rightarrow>
          let newest = fold max ts t in
          case now of
            None \<Rightarrow> None
          | Some n \<Rightarrow> if newest < 0 then None else Some (min (nat n - nat newest) u64_max))"

definition human_duration :: "nat \<Rightarrow> string" where
  "human_duration millis =
     (let seconds = millis div 1000 in
      if seconds \<le> 119 then dec seconds @ '' s''
      else if seconds \<le> 7199 then dec (seconds div 60) @ '' min''
      else if seconds \<le> 172799 then dec (seconds div 3600) @ '' h''
      else dec (seconds div 86400) @ '' days'')"

section \<open>Commit\<close>

text \<open>Verification of the finals on the lane: every check is awaited, then the first error is returned.\<close>

definition verify_local_finals :: "env \<Rightarrow> pending_transaction \<Rightarrow> unit io" where
  "verify_local_finals e p =
     bindIO (mapIO (\<lambda>q. tryIO (bindIO (verify_final e p q) (\<lambda>presence.
         liftR (require (presence = Present) ''committed transaction is missing a required final part''))))
       (pt_parts p)) (\<lambda>results.
     liftR (for_each (\<lambda>r. r) results))"

definition publish_and_verify ::
  "env \<Rightarrow> bool \<Rightarrow> controller \<Rightarrow> prepared_flush \<Rightarrow> pending_transaction versioned \<Rightarrow> pending_transaction versioned io" where
  "publish_and_verify e multi_thread c prepared pending =
     (let lane_supported = (fc_publications (ct_concurrency c) > 1 \<and> multi_thread);
          job = \<lparr> pj_authority = ct_authority c, pj_prepared = prepared, pj_limits = ct_concurrency c,
            pj_lane = lane_supported \<rparr> in
      bindIO (publish_parts e job pending) (\<lambda>nxt.
      bindIO (if lane_supported then verify_local_finals e (snd nxt) else verify_all_finals e (snd nxt)) (\<lambda>_.
      returnIO nxt)))"

definition commit_delta ::
  "env \<Rightarrow> controller \<Rightarrow> pending_transaction \<Rightarrow> (table_commit list \<times> delta_tables option) io" where
  "commit_delta e c p =
     (case ct_delta c of
        None \<Rightarrow> returnIO ([], None)
      | Some dt \<Rightarrow>
          bindIO (delta_commit e dt p (fc_publications (ct_concurrency c))) (\<lambda>out.
          case out of
            Inl failure \<Rightarrow> failIO (unresolved_note failure)
          | Inr commits \<Rightarrow>
              bindIO (crash_point e) (\<lambda>_. returnIO (commits, Some (advance_tables dt commits)))))"

text \<open>The part of \<open>publish_and_commit\<close> up to the advanced authority, and the part after it.\<close>

definition commit_until_advance ::
  "env \<Rightarrow> bool \<Rightarrow> controller \<Rightarrow> prepared_flush \<Rightarrow> pending_transaction versioned \<Rightarrow>
   (pending_transaction versioned \<times> table_commit list \<times> controller) io" where
  "commit_until_advance e multi_thread c prepared pending0 =
     bindIO (crash_point e) (\<lambda>_.
     bindIO (publish_and_verify e multi_thread c prepared pending0) (\<lambda>pending1.
     bindIO (store_mark_committed e (ct_authority c) pending1) (\<lambda>pending.
     bindIO (crash_point e) (\<lambda>_.
     bindIO (commit_delta e c (snd pending)) (\<lambda>(commits, delta).
     bindIO (store_advance e (ct_authority c) pending) (\<lambda>authority.
     returnIO (pending, commits, c\<lparr> ct_authority := authority, ct_delta := delta \<rparr>)))))))"

definition finish_transaction ::
  "env \<Rightarrow> mirror_action \<Rightarrow> controller \<Rightarrow> pending_transaction versioned \<Rightarrow> unit io" where
  "finish_transaction e reconcile c pending =
     bindIO (crash_point e) (\<lambda>_.
     bindIO (reconcile (snd (ct_authority c))) (\<lambda>_.
     bindIO (crash_point e) (\<lambda>_.
     bindIO (cleanup_temporaries e (snd pending)) (\<lambda>_.
     bindIO (store_clear e (ct_authority c) pending) (\<lambda>_.
     crash_point e)))))"

definition publish_and_commit ::
  "env \<Rightarrow> mirror_action \<Rightarrow> bool \<Rightarrow> prepared_flush \<Rightarrow> pending_transaction versioned \<Rightarrow> controller \<Rightarrow>
   ((pending_transaction versioned \<times> table_commit list) result \<times> controller) io" where
  "publish_and_commit e reconcile multi_thread prepared pending0 c =
     bindIO (tryIO (commit_until_advance e multi_thread c prepared pending0)) (\<lambda>advanced.
     case advanced of
       Inl err \<Rightarrow> returnIO (Inl err, c)
     | Inr (pending, commits, c') \<Rightarrow>
         bindIO (tryIO (finish_transaction e reconcile c' pending)) (\<lambda>finished.
         returnIO (case finished of Inl err \<Rightarrow> Inl err | Inr _ \<Rightarrow> Inr (pending, commits), c')))"

text \<open>Everything before the first receipt: the plan, its validation and the Writing record.\<close>

definition start_transaction ::
  "env \<Rightarrow> controller \<Rightarrow> accepted_prefix \<Rightarrow> (string \<times> record_batch) list \<Rightarrow> block_metadata \<Rightarrow> compression \<Rightarrow>
   (string \<times> string) list \<Rightarrow> (prepared_flush \<times> pending_transaction versioned) io" where
  "start_transaction e c prefix batches metadata compression file_metadata =
     (let authority = snd (ct_authority c); descriptor = au_descriptor authority; cal = x_calendar (e_ext e) in
      bindIO (liftR (mapR (table_plan_of cal batches metadata) (sd_tables descriptor))) (\<lambda>tables.
      bindIO (liftR (prepare (e_ext e) authority prefix tables (part_compression_of compression))) (\<lambda>pending.
      let inventory = map (\<lambda>(table, digest). (table, digest_str digest)) (sd_tables descriptor);
          plans = map (writer_plan pending) (pt_parts pending) in
      bindIO (liftR (prepared_new cal batches inventory plans metadata compression file_metadata)) (\<lambda>prepared.
      bindIO (require_unoccupied e pending) (\<lambda>_.
      bindIO (store_begin e (ct_authority c) pending) (\<lambda>started.
      returnIO (prepared, started)))))))"

definition receipt_bytes :: "planned_part \<Rightarrow> nat result" where
  "receipt_bytes q = bindR (some_or (pp_receipt q) ''committed receipt missing'') (\<lambda>r. Inr (pr_byte_size r))"

definition committed_flush_of :: "controller \<Rightarrow> pending_transaction \<Rightarrow> table_commit list \<Rightarrow> committed_flush result" where
  "committed_flush_of c p commits =
     bindR (foldR (\<lambda>sum t. some_or (checked_add sum (tp_rows t)) ''committed row count overflow'') 0 (pt_tables p)) (\<lambda>rows.
     bindR (foldR (\<lambda>sum q. bindR (receipt_bytes q) (\<lambda>n. some_or (checked_add sum n) ''committed byte count overflow''))
       0 (pt_parts p)) (\<lambda>bytes.
     bindR (mapR (\<lambda>q. bindR (receipt_bytes q) (\<lambda>n.
       Inr \<lparr> cm_table = pp_table q, cm_rows = pp_row_count q, cm_bytes = n \<rparr>)) (pt_parts p)) (\<lambda>tables.
     Inr \<lparr> fl_checkpoint_id = cp_id (au_checkpoint (snd (ct_authority c))),
       fl_ordinal = cp_ordinal (au_checkpoint (snd (ct_authority c))), fl_rows = rows, fl_bytes = bytes,
       fl_files = length (pt_parts p), fl_tables = tables, fl_delta = commits \<rparr>)))"

definition controller_commit ::
  "env \<Rightarrow> mirror_action \<Rightarrow> bool \<Rightarrow> controller \<Rightarrow> accepted_prefix \<Rightarrow> (string \<times> record_batch) list \<Rightarrow> block_metadata \<Rightarrow>
   compression \<Rightarrow> (string \<times> string) list \<Rightarrow> (committed_flush result \<times> controller) io" where
  "controller_commit e reconcile multi_thread c prefix batches metadata compression file_metadata =
     (if ct_failed c
      then returnIO (Inl (Bail ''ingestion controller stopped after an unresolved commit; reopen through recovery''), c)
      else
        let c1 = c\<lparr> ct_failed := True \<rparr> in
        bindIO (tryIO (start_transaction e c1 prefix batches metadata compression file_metadata)) (\<lambda>started.
        case started of
          Inl err \<Rightarrow> returnIO (Inl err, c1)
        | Inr (prepared, pending) \<Rightarrow>
            bindIO (publish_and_commit e reconcile multi_thread prepared pending c1) (\<lambda>(outcome, c2).
            case outcome of
              Inl err \<Rightarrow> bindIO (tryIO (cleanup_temporaries e (snd pending))) (\<lambda>_. returnIO (Inl err, c2))
            | Inr (done_pending, commits) \<Rightarrow>
                (case committed_flush_of c2 (snd done_pending) commits of
                   Inl err \<Rightarrow> returnIO (Inl err, c2)
                 | Inr flush \<Rightarrow> returnIO (Inr flush, c2\<lparr> ct_failed := False \<rparr>)))))"

section \<open>Recovery\<close>

definition roll_forward_refusal :: "int option \<Rightarrow> pending_transaction \<Rightarrow> string list \<Rightarrow> string" where
  "roll_forward_refusal now p uncommitted =
     (let holding = filter (\<lambda>t. t \<notin> set uncommitted) (map pp_table (pt_parts p)) in
      ''cannot roll the Committed transaction of ordinals '' @ dec (ap_first_ordinal (pt_prefix p)) @ ''..='' @
      dec (ap_last_ordinal (pt_prefix p)) @ '' (pending for '' @
      (case pending_age now p of None \<Rightarrow> ''an unknown time'' | Some age \<Rightarrow> human_duration age) @
      '') forward into the Delta tables '' @ join_str '', '' uncommitted @
      ''. Tables that already hold the transaction: '' @
      (if holding = [] then ''none'' else join_str '', '' holding))"

definition roll_forward ::
  "env \<Rightarrow> delta_tables option \<Rightarrow> pending_transaction \<Rightarrow> string list \<Rightarrow> nat \<Rightarrow> delta_tables option io" where
  "roll_forward e delta p uncommitted concurrency =
     (case delta of
        None \<Rightarrow> failIO (Bail ''a Committed transaction can only be recovered with the dataset's Delta tables'')
      | Some dt \<Rightarrow>
          if uncommitted = [] then returnIO (Some dt)
          else
            bindIO (\<lambda>w. mapErr (Context (roll_forward_refusal (e_now e (w_clock w)) p uncommitted))
              (verify_finals_of e p uncommitted) w) (\<lambda>_.
            bindIO (delta_roll_forward e dt p uncommitted concurrency) (\<lambda>out.
            case out of
              Inl failure \<Rightarrow> failIO (unresolved_note failure)
            | Inr commits \<Rightarrow> returnIO (Some (advance_tables dt commits)))))"

definition STREAM_MISMATCH :: string where
  "STREAM_MISMATCH = ''existing authoritative stream differs from this request; use a new output root for changed semantics or bindings''"

text \<open>A committed transaction whose authority has not advanced: its Delta commits may be incomplete.\<close>

definition behind :: "authority_state \<Rightarrow> pending_transaction versioned option \<Rightarrow> pending_transaction option" where
  "behind a pending =
     (case pending of
        None \<Rightarrow> None
      | Some (_, p) \<Rightarrow>
          if pt_phase p = Committed \<and> cp_id (au_checkpoint a) = pt_predecessor p then Some p else None)"

text \<open>The decision of recovery for a pending record: the authority and the tables afterwards.\<close>

definition recover_pending ::
  "env \<Rightarrow> mirror_action \<Rightarrow> authority_state versioned \<Rightarrow> pending_transaction versioned \<Rightarrow> delta_tables option \<Rightarrow>
   string list \<Rightarrow> nat \<Rightarrow> (authority_state versioned \<times> delta_tables option) io" where
  "recover_pending e reconcile authority pending delta uncommitted concurrency =
     (case pt_phase (snd pending) of
        Writing \<Rightarrow>
          bindIO (rollback_writing e (snd pending)) (\<lambda>_.
          bindIO (crash_point e) (\<lambda>_.
          bindIO (store_clear e authority pending) (\<lambda>_.
          bindIO (reconcile (snd authority)) (\<lambda>_.
          returnIO (authority, delta)))))
      | Committed \<Rightarrow>
          bindIO (if cp_id (au_checkpoint (snd authority)) = pt_predecessor (snd pending)
                  then bindIO (roll_forward e delta (snd pending) uncommitted concurrency) (\<lambda>delta'.
                    bindIO (store_advance e authority pending) (\<lambda>advanced.
                    bindIO (crash_point e) (\<lambda>_. returnIO (advanced, delta'))))
                  else returnIO (authority, delta)) (\<lambda>(authority', delta').
          bindIO (reconcile (snd authority')) (\<lambda>_.
          bindIO (cleanup_temporaries e (snd pending)) (\<lambda>_.
          bindIO (store_clear e authority' pending) (\<lambda>_.
          returnIO (authority', delta'))))))"

definition open_reserved ::
  "env \<Rightarrow> mirror_action \<Rightarrow> stream_descriptor \<Rightarrow> delta_tables option \<Rightarrow> flush_concurrency \<Rightarrow> controller io" where
  "open_reserved e reconcile expected delta concurrency =
     bindIO (liftR (concurrency_validate concurrency)) (\<lambda>_.
     bindIO (liftR (descriptor_validate expected)) (\<lambda>_.
     bindIO (store_load e) (\<lambda>(loaded_authority, pending).
     bindIO (liftR (some_or loaded_authority
       ''protected ingestion authority is absent; eligible-root initialization is required'')) (\<lambda>authority.
     bindIO (liftR (require (au_descriptor (snd authority) = expected) STREAM_MISMATCH)) (\<lambda>_.
     bindIO (case delta of
         None \<Rightarrow> returnIO []
       | Some dt \<Rightarrow> check_progress e dt (cp_ordinal (au_checkpoint (snd authority))) (behind (snd authority) pending)) (\<lambda>uncommitted.
     bindIO (case pending of
         None \<Rightarrow> bindIO (reconcile (snd authority)) (\<lambda>_. returnIO (authority, delta))
       | Some h \<Rightarrow> recover_pending e reconcile authority h delta uncommitted (fc_publications concurrency)) (\<lambda>(authority', delta').
     returnIO \<lparr> ct_authority = authority', ct_failed = False, ct_concurrency = concurrency, ct_delta = delta' \<rparr>)))))))"

section \<open>Completion of a bounded request\<close>

definition request_already_complete :: "controller \<Rightarrow> nat \<Rightarrow> bool result" where
  "request_already_complete c stop =
     (case cp_completed_stop (au_checkpoint (snd (ct_authority c))) of
        Some completed \<Rightarrow>
          if stop < completed
          then bail ''requested stop rewinds an already completed output; use a new root for a shorter range''
          else Inr (stop = completed)
      | None \<Rightarrow> Inr False)"

definition controller_complete_request ::
  "env \<Rightarrow> mirror_action \<Rightarrow> controller \<Rightarrow> nat \<Rightarrow> accepted_frontier \<Rightarrow> bool \<Rightarrow> (bool result \<times> controller) io" where
  "controller_complete_request e reconcile c stop frontier clean_stream_completed =
     (if ct_failed c
      then returnIO (Inl (Bail ''ingestion controller stopped after an unresolved operation; reopen through recovery''), c)
      else
        let c1 = c\<lparr> ct_failed := True \<rparr> in
        case bindR (require clean_stream_completed
               ''interrupted or failed stream cannot prove bounded request completion'') (\<lambda>_.
             bindR (require_fully_acknowledged frontier (au_checkpoint (snd (ct_authority c)))) (\<lambda>_.
             request_already_complete c stop)) of
          Inl err \<Rightarrow> returnIO (Inl err, c1)
        | Inr True \<Rightarrow> returnIO (Inr False, c)
        | Inr False \<Rightarrow>
            bindIO (tryIO (store_complete_request e (ct_authority c) stop)) (\<lambda>advanced.
            case advanced of
              Inl err \<Rightarrow> returnIO (Inl err, c1)
            | Inr authority \<Rightarrow>
                let c2 = c1\<lparr> ct_authority := authority \<rparr> in
                bindIO (tryIO (bindIO (crash_point e) (\<lambda>_. bindIO (reconcile (snd authority)) (\<lambda>_. crash_point e)))) (\<lambda>finished.
                returnIO (case finished of
                  Inl err \<Rightarrow> (Inl err, c2)
                | Inr _ \<Rightarrow> (Inr True, c2\<lparr> ct_failed := False \<rparr>)))))"

end
