(* ===== verification/Mirror.thy ===== *)
theory Mirror
  imports Controller
begin

text \<open>
  Reconciling the cursor mirror with the authority (\<open>ingest/mirror.rs\<close>, \<open>ProtectedMirror\<close>). The mirror is a
  file outside the authority: \<open>mirror_reconcile\<close> reads it, decodes it, and rewrites it when the authority
  has moved on; a file that is ahead of the authority, in conflict with it or not a protected mirror is
  refused and left alone. A write that fails is attempted three times. The bytes of the file are part of
  the world; what the file system answers about paths, and the reconciliation of a mirror in S3, are
  parameters.

  The locale \<open>mirror_law\<close> is what the controller relies on of the trait \<open>MirrorAction\<close>; the local and the
  disabled mirror are proved to keep it. \<open>mirror_ok\<close> states that the mirror trails the authority, so that
  reconciling never refuses it, and \<open>mirror_current\<close> that it shows exactly the authority.
\<close>

section \<open>State\<close>

datatype mirror_outcome = Disabled | Unchanged | Repaired

record mirror_ownership =
  ow_local :: bool
    \<comment> \<open>whether the ownership has a local scope\<close>
  ow_inside :: "string \<Rightarrow> nat \<Rightarrow> bool"
    \<comment> \<open>whether the canonical directory of the path lies below a root that is held\<close>
  ow_regular :: "string \<Rightarrow> nat \<Rightarrow> bool"
    \<comment> \<open>whether the path is a regular file or absent\<close>
  ow_scopes :: "string \<Rightarrow> string list option"
    \<comment> \<open>the scopes held in a bucket\<close>
  ow_remote :: "string \<Rightarrow> string \<Rightarrow> authority_state \<Rightarrow> mirror_outcome io"
    \<comment> \<open>reconciliation of the object at a key of a bucket\<close>
  ow_remote_present :: "string \<Rightarrow> string \<Rightarrow> bool io"

record protected_mirror =
  pm_ownership :: mirror_ownership
  pm_binding :: mirror_binding
  pm_shutdown :: "nat \<Rightarrow> bool"
    \<comment> \<open>the shutdown flag\<close>

section \<open>Local paths\<close>

definition local_owner :: "protected_mirror \<Rightarrow> unit io" where
  "local_owner pm = liftR (require (ow_local (pm_ownership pm)) ''mirror has no local ownership scope'')"

definition lock_local :: "env \<Rightarrow> protected_mirror \<Rightarrow> unit io" where
  "lock_local e pm = bindIO (local_owner pm) (\<lambda>_. sync e ''locking control mutations'')"

definition revalidate_local_paths :: "env \<Rightarrow> unit io" where
  "revalidate_local_paths e = sync e ''revalidating held local paths''"

definition local_path :: "env \<Rightarrow> protected_mirror \<Rightarrow> string \<Rightarrow> unit io" where
  "local_path e pm path =
     bindIO (revalidate_local_paths e) (\<lambda>_.
     bindIO (liftR (require (length path \<le> 4096 \<and> strip_prefix ''/'' path \<noteq> None \<and>
         list_ex (\<lambda>part. part \<noteq> []) (split_on (CHR ''/'') path) \<and>
         \<not> list_ex (\<lambda>part. part = ''.'' \<or> part = ''..'') (split_on (CHR ''/'') path) \<and> \<not> is_control_path path)
       ''invalid protected mirror local binding'')) (\<lambda>_.
     bindIO (observe e ''resolving protected mirror parent failed'' (\<lambda>w. ow_inside (pm_ownership pm) path (w_clock w))) (\<lambda>inside.
     bindIO (local_owner pm) (\<lambda>_.
     bindIO (liftR (require inside ''mirror path is outside held local ownership'')) (\<lambda>_.
     bindIO (observe e ''inspecting protected mirror failed'' (\<lambda>w. ow_regular (pm_ownership pm) path (w_clock w))) (\<lambda>regular.
     liftR (require regular ''protected mirror is not a regular file'')))))))"

section \<open>Reading and writing the file\<close>

definition read_local :: "env \<Rightarrow> protected_mirror \<Rightarrow> string \<Rightarrow> string option io" where
  "read_local e pm path =
     bindIO (observe e ''reading protected mirror metadata failed'' (\<lambda>w. (w_mirror w, ow_regular (pm_ownership pm) path (w_clock w))))
       (\<lambda>(stored, regular).
     case stored of
       None \<Rightarrow> returnIO None
     | Some content \<Rightarrow>
         bindIO (liftR (require regular ''protected mirror is not a regular file'')) (\<lambda>_.
         bindIO (liftR (require (length content \<le> MAX_MIRROR_BYTES) ''protected mirror exceeds byte limit'')) (\<lambda>_.
         bindIO (observe e ''reading protected mirror failed'' w_mirror) (\<lambda>opened.
         case opened of
           None \<Rightarrow> failIO (Bail ''opening protected mirror failed'')
         | Some again \<Rightarrow>
             let bytes = take (MAX_MIRROR_BYTES + 1) again in
             bindIO (liftR (require (length bytes \<le> MAX_MIRROR_BYTES \<and> length bytes = length content)
               ''protected mirror size changed during read'')) (\<lambda>_.
             returnIO (Some bytes))))))"

text \<open>The temporary beside the mirror is private to the write; the rename replaces the mirror at once.\<close>

definition write_local :: "env \<Rightarrow> string \<Rightarrow> unit io" where
  "write_local e bytes =
     bindIO (sync e ''creating private mirror directory failed'') (\<lambda>_.
     bindIO (sync e ''syncing mirror directory links failed'') (\<lambda>_.
     bindIO (fresh_uuid e) (\<lambda>_.
     bindIO (sync e ''creating private mirror temporary failed'') (\<lambda>_.
     bindIO (sync e ''writing protected mirror failed'') (\<lambda>_.
     bindIO (sync e ''syncing protected mirror failed'') (\<lambda>_.
     bindIO (mutate e ''publishing protected mirror failed'' (\<lambda>w. w\<lparr> w_mirror := Some bytes \<rparr>)) (\<lambda>_.
     sync e ''syncing mirror directory links failed'')))))))"

definition sync_private_file :: "env \<Rightarrow> unit io" where
  "sync_private_file e =
     bindIO (sync e ''setting private mirror permissions failed'') (\<lambda>_.
     bindIO (sync e ''syncing existing mirror failed'') (\<lambda>_.
     sync e ''syncing mirror directory links failed''))"

section \<open>Reconciliation\<close>

definition encode_now :: "env \<Rightarrow> authority_state \<Rightarrow> string io" where
  "encode_now e authority = (\<lambda>w.
     (mirror_encode (e_ext e) (e_mirror e) (e_timestamp e (w_clock w)) authority, w\<lparr> w_clock := Suc (w_clock w) \<rparr>))"

definition decode_current :: "env \<Rightarrow> authority_state \<Rightarrow> string option \<Rightarrow> mirror_envelope option result" where
  "decode_current e authority stored =
     (case stored of
        None \<Rightarrow> Inr None
      | Some bytes \<Rightarrow> bindR (mirror_decode (e_ext e) (e_mirror e) bytes (au_descriptor authority)) (\<lambda>env. Inr (Some env)))"

text \<open>A local attempt up to its first write: the outcome without a write, or the bytes to write.\<close>

definition local_inspect :: "env \<Rightarrow> protected_mirror \<Rightarrow> string \<Rightarrow> authority_state \<Rightarrow> string option io" where
  "local_inspect e pm path authority =
     bindIO (lock_local e pm) (\<lambda>_.
     bindIO (local_path e pm path) (\<lambda>_.
     bindIO (read_local e pm path) (\<lambda>stored.
     bindIO (liftR (decode_current e authority stored)) (\<lambda>current.
     bindIO (liftR (needs_repair authority current)) (\<lambda>repair.
     if \<not> repair
     then bindIO (if current \<noteq> None then sync_private_file e else returnIO ()) (\<lambda>_. returnIO None)
     else bindIO (encode_now e authority) (\<lambda>bytes. returnIO (Some bytes)))))))"

text \<open>The result, and whether a write was attempted.\<close>

definition local_attempt :: "env \<Rightarrow> protected_mirror \<Rightarrow> string \<Rightarrow> authority_state \<Rightarrow> (mirror_outcome result \<times> bool) io" where
  "local_attempt e pm path authority =
     bindIO (tryIO (local_inspect e pm path authority)) (\<lambda>inspected.
     case inspected of
       Inl err \<Rightarrow> returnIO (Inl err, False)
     | Inr None \<Rightarrow> returnIO (Inr Unchanged, False)
     | Inr (Some bytes) \<Rightarrow>
         bindIO (tryIO (bindIO (revalidate_local_paths e) (\<lambda>_. write_local e bytes))) (\<lambda>written.
         returnIO (case written of Inl err \<Rightarrow> Inl err | Inr _ \<Rightarrow> Inr Repaired, True)))"

definition check_shutdown :: "protected_mirror \<Rightarrow> unit io" where
  "check_shutdown pm = (\<lambda>w.
     (require (\<not> pm_shutdown pm (w_clock w)) ''protected mirror retry interrupted by shutdown'', w\<lparr> w_clock := Suc (w_clock w) \<rparr>))"

text \<open>The flag is read every 50 ms until the delay is over.\<close>

definition retry_backoff :: "protected_mirror \<Rightarrow> nat \<Rightarrow> unit io" where
  "retry_backoff pm millis = for_eachIO (\<lambda>_. check_shutdown pm) [0..<Suc ((millis + 49) div 50)]"

fun local_attempts :: "env \<Rightarrow> protected_mirror \<Rightarrow> string \<Rightarrow> authority_state \<Rightarrow> nat list \<Rightarrow> bool \<Rightarrow> mirror_outcome io" where
  "local_attempts e pm path authority [] had_write = failIO (Bail ''unreachable'')"
| "local_attempts e pm path authority (attempt # rest) had_write =
     bindIO (local_attempt e pm path authority) (\<lambda>(outcome, attempted_write).
     case outcome of
       Inr out \<Rightarrow> returnIO (if had_write \<or> attempted_write then Repaired else out)
     | Inl err \<Rightarrow>
         if \<not> attempted_write then failIO err
         else if attempt = 2 then failIO (Context ''protected mirror persistence failed after three local attempts'' err)
         else bindIO (retry_backoff pm (1000 * 2 ^ attempt)) (\<lambda>_.
           local_attempts e pm path authority rest (had_write \<or> attempted_write)))"

definition reconcile_counted :: "env \<Rightarrow> protected_mirror \<Rightarrow> authority_state \<Rightarrow> mirror_outcome io" where
  "reconcile_counted e pm authority =
     bindIO (liftR (authority_validate (e_ext e) authority)) (\<lambda>_.
     bindIO (liftR (require (sd_mirror (au_descriptor authority) = pm_binding pm)
       ''authority mirror binding differs from resolved adapter'')) (\<lambda>_.
     case pm_binding pm of
       MDisabled \<Rightarrow> returnIO Disabled
     | MLocal path \<Rightarrow> local_attempts e pm path authority [0..<3] False
     | MS3 service bucket key \<Rightarrow> ow_remote (pm_ownership pm) bucket key authority))"

text \<open>\<open>ProtectedMirror\<close> as the \<open>MirrorAction\<close> of a controller.\<close>

definition mirror_reconcile :: "env \<Rightarrow> protected_mirror \<Rightarrow> mirror_action" where
  "mirror_reconcile e pm = (\<lambda>authority. bindIO (reconcile_counted e pm authority) (\<lambda>_. returnIO ()))"

definition require_absent_for_initialization :: "env \<Rightarrow> protected_mirror \<Rightarrow> unit io" where
  "require_absent_for_initialization e pm =
     bindIO (case pm_binding pm of
         MDisabled \<Rightarrow> returnIO False
       | MLocal path \<Rightarrow>
           bindIO (lock_local e pm) (\<lambda>_.
           bindIO (local_path e pm path) (\<lambda>_.
           bindIO (read_local e pm path) (\<lambda>stored. returnIO (stored \<noteq> None))))
       | MS3 service bucket key \<Rightarrow> ow_remote_present (pm_ownership pm) bucket key) (\<lambda>present.
     liftR (require (\<not> present)
       ''existing mirror prevents protected initialization; legacy cursors cannot establish authority''))"

section \<open>Construction\<close>

definition validate_remote_key :: "string \<Rightarrow> unit result" where
  "validate_remote_key key =
     require (length key \<le> 4096 \<and> key \<noteq> [] \<and> strip_prefix ''/'' key = None \<and>
         \<not> list_ex (\<lambda>c. c \<in> {CHR 0x5C, CHR ''?'', CHR ''#'', CHR 0x00}) key \<and> \<not> list_ex (\<lambda>n. strip_prefix ''://'' (drop n key) \<noteq> None) [0..<length key] \<and>
         list_all (\<lambda>part. part \<noteq> [] \<and> part \<noteq> ''.'' \<and> part \<noteq> ''..'') (split_on (CHR ''/'') key) \<and> \<not> is_control_path key)
       ''invalid protected mirror object key''"

definition in_scope :: "string \<Rightarrow> string \<Rightarrow> bool" where
  "in_scope key scope \<longleftrightarrow> scope = [] \<or> key = scope \<or>
     (case strip_prefix scope key of None \<Rightarrow> False | Some rest \<Rightarrow> strip_prefix ''/'' rest \<noteq> None)"

definition mirror_new :: "env \<Rightarrow> mirror_ownership \<Rightarrow> mirror_binding \<Rightarrow> digest option \<Rightarrow> protected_mirror io" where
  "mirror_new e ownership binding resolved_service =
     (let pm = \<lparr> pm_ownership = ownership, pm_binding = binding, pm_shutdown = (\<lambda>_. False) \<rparr> in
      bindIO (case binding of
          MDisabled \<Rightarrow> liftR (require (resolved_service = None) ''disabled mirror cannot bind a remote service'')
        | MLocal path \<Rightarrow>
            bindIO (liftR (require (resolved_service = None) ''local mirror cannot bind a remote service'')) (\<lambda>_.
            local_path e pm path)
        | MS3 service bucket key \<Rightarrow>
            bindIO (liftR (require (resolved_service = Some service) ''resolved mirror service differs from stored binding'')) (\<lambda>_.
            bindIO (liftR (some_or (ow_scopes ownership bucket) ''mirror bucket is not held by dataset ownership'')) (\<lambda>scopes.
            bindIO (liftR (validate_remote_key key)) (\<lambda>_.
            liftR (require (list_ex (in_scope key) scopes) ''mirror key is outside declared bucket ownership''))))) (\<lambda>_.
      returnIO pm))"

definition with_shutdown :: "protected_mirror \<Rightarrow> (nat \<Rightarrow> bool) \<Rightarrow> protected_mirror" where
  "with_shutdown pm flag = pm\<lparr> pm_shutdown := flag \<rparr>"

section \<open>Worlds that differ in the clock\<close>

lemma upto_iff: "upto w v \<longleftrightarrow> w_state v = w_state w \<and> w_pending v = w_pending w \<and> w_files v = w_files w \<and>
    w_logs v = w_logs w \<and> w_inflight v = w_inflight w \<and> w_mirror v = w_mirror w"
proof
  assume "w_state v = w_state w \<and> w_pending v = w_pending w \<and> w_files v = w_files w \<and>
    w_logs v = w_logs w \<and> w_inflight v = w_inflight w \<and> w_mirror v = w_mirror w"
  then show "upto w v" unfolding upto_def by (cases v, cases w) simp
qed (use upto_fields in blast)

definition stable :: "(world \<Rightarrow> bool) \<Rightarrow> bool" where
  "stable P \<longleftrightarrow> (\<forall>w v. P w \<longrightarrow> upto w v \<longrightarrow> P v)"

lemma stableD: "stable P \<Longrightarrow> P w \<Longrightarrow> upto w v \<Longrightarrow> P v"
  unfolding stable_def by blast

lemma stable_upto: "stable (upto w0)"
  unfolding stable_def upto_iff by simp

lemma triple_sync: "stable P \<Longrightarrow> triple P (sync e msg) (\<lambda>_. P) P"
  unfolding sync_def by (rule triple_observe) (auto elim!: stableD)

lemma triple_crash: "stable P \<Longrightarrow> triple P (crash_point e) (\<lambda>_. P) P"
  unfolding crash_point_def by (rule triple_observe) (auto elim!: stableD)

section \<open>A mirror behind the authority\<close>

text \<open>The checkpoint of a mirror is the authority's, or one that the authority has moved on from.\<close>

definition trails :: "checkpoint \<Rightarrow> checkpoint \<Rightarrow> bool" where
  "trails stored target \<longleftrightarrow> stored = target \<or> cp_ordinal stored < cp_ordinal target \<or>
     (cp_ordinal stored = cp_ordinal target \<and> cp_previous target = Some (cp_id stored) \<and> cp_event stored = cp_event target \<and>
      cp_routing stored = cp_routing target \<and> completion_extended (cp_completed_stop stored) (cp_completed_stop target))"

definition mirror_ok :: "env \<Rightarrow> authority_state \<Rightarrow> string option \<Rightarrow> bool" where
  "mirror_ok e a m \<longleftrightarrow> sd_mirror (au_descriptor a) = MDisabled \<or>
     (\<forall>bytes env. m = Some bytes \<longrightarrow> mirror_decode (e_ext e) (e_mirror e) bytes (au_descriptor a) = Inr env \<longrightarrow>
        trails (me_checkpoint env) (au_checkpoint a))"

definition mirror_shows :: "env \<Rightarrow> authority_state \<Rightarrow> string option \<Rightarrow> bool" where
  "mirror_shows e a m \<longleftrightarrow>
     (\<forall>bytes env. m = Some bytes \<longrightarrow> mirror_decode (e_ext e) (e_mirror e) bytes (au_descriptor a) = Inr env \<longrightarrow>
        me_checkpoint env = au_checkpoint a)"

definition mirror_current :: "env \<Rightarrow> authority_state \<Rightarrow> string option \<Rightarrow> bool" where
  "mirror_current e a m \<longleftrightarrow> sd_mirror (au_descriptor a) = MDisabled \<or>
     (mirror_shows e a m \<and> (m = None \<longleftrightarrow> cp_ordinal (au_checkpoint a) = 0))"

lemma decoded_ordinal: "mirror_decode x k bytes d = Inr env \<Longrightarrow> 0 < cp_ordinal (me_checkpoint env)"
  by (auto simp: mirror_decode_def decode_envelope_def envelope_validate_def bindR_eq_Inr)

text \<open>A mirror that trails the authority is never refused, and every mirror that is not refused trails it.\<close>

lemma trails_accepted:
  assumes "0 < cp_ordinal (me_checkpoint env)"
  shows "is_ok (needs_repair a (Some env)) \<longleftrightarrow> trails (me_checkpoint env) (au_checkpoint a)"
  using assms by (auto simp: needs_repair_def trails_def Let_def is_ok_iff bindR_eq_Inr)

lemma needs_repair_False:
  assumes "needs_repair a current = Inr False"
  shows "case current of None \<Rightarrow> cp_ordinal (au_checkpoint a) = 0 | Some env \<Rightarrow> cp_ordinal (au_checkpoint a) \<noteq> 0 \<and> me_checkpoint env = au_checkpoint a"
  using assms by (auto simp: needs_repair_def Let_def bindR_eq_Inr split: if_splits option.splits)

lemma shows_ok: "mirror_shows e a m \<Longrightarrow> mirror_ok e a m"
  by (auto simp: mirror_shows_def mirror_ok_def trails_def)

text \<open>An authority that moves on leaves the mirror behind.\<close>

lemma ok_advanced:
  assumes "mirror_ok e a m" "au_descriptor b = au_descriptor a" "cp_ordinal (au_checkpoint a) < cp_ordinal (au_checkpoint b)"
  shows "mirror_ok e b m"
  using assms unfolding mirror_ok_def trails_def by fastforce

lemma current_completed:
  assumes m: "mirror_current e a m" and b: "au_descriptor b = au_descriptor a" "trails (au_checkpoint a) (au_checkpoint b)"
  shows "mirror_ok e b m"
  using m b unfolding mirror_current_def mirror_shows_def mirror_ok_def by metis

section \<open>What a controller relies on\<close>

locale mirror_law =
  fixes e :: env and reconcile :: mirror_action
  assumes only_mirror: "reconcile a w = (r, w') \<Longrightarrow> \<exists>m. upto (w\<lparr> w_mirror := m \<rparr>) w' \<and> (m = w_mirror w \<or> mirror_shows e a m)"
    and made_current: "reconcile a w = (Inr (), w') \<Longrightarrow> mirror_current e a (w_mirror w')"
begin

text \<open>A condition on the rest of the world survives, and success makes the mirror current.\<close>

lemma reconcile_triple:
  assumes P: "stable P" "\<And>w m. P w \<Longrightarrow> mirror_shows e a m \<Longrightarrow> P (w\<lparr> w_mirror := m \<rparr>)"
  shows "triple P (reconcile a) (\<lambda>_ w. P w \<and> mirror_current e a (w_mirror w)) P"
proof -
  have "P w'" if w: "P w" "reconcile a w = (r, w')" for w r w'
  proof -
    obtain m where m: "upto (w\<lparr> w_mirror := m \<rparr>) w'" "m = w_mirror w \<or> mirror_shows e a m" using only_mirror [OF w(2)] by blast
    then have "P (w\<lparr> w_mirror := m \<rparr>)" using P(2) [OF w(1)] w(1) by auto
    then show ?thesis using stableD [OF P(1) _ m(1)] by blast
  qed
  then show ?thesis using made_current by (intro tripleI) auto
qed

end

section \<open>The local mirror\<close>

lemma read_local_triple:
  "triple (upto w0) (read_local e pm path) (\<lambda>stored w. stored = w_mirror w0 \<and> upto w0 w) (upto w0)"
proof -
  let ?P = "\<lambda>s w. fst s = w_mirror w0 \<and> upto w0 w"
  have one: "triple (upto w0) (observe e msg (\<lambda>w. (w_mirror w, f w))) ?P (upto w0)" for msg and f :: "world \<Rightarrow> bool"
    by (rule triple_observe) (auto simp: upto_iff)
  have two: "triple (upto w0) (observe e msg w_mirror) (\<lambda>s w. s = w_mirror w0 \<and> upto w0 w) (upto w0)" for msg
    by (rule triple_observe) (auto simp: upto_iff)
  show ?thesis
    unfolding read_local_def
  proof (rule triple_bind [OF one])
    fix s :: "string option \<times> bool"
    obtain stored regular where s: "s = (stored, regular)" by (cases s)
    let ?rest = "\<lambda>stored regular. case stored of None \<Rightarrow> returnIO None
     | Some content \<Rightarrow>
         bindIO (liftR (require regular ''protected mirror is not a regular file'')) (\<lambda>_.
         bindIO (liftR (require (length content \<le> MAX_MIRROR_BYTES) ''protected mirror exceeds byte limit'')) (\<lambda>_.
         bindIO (observe e ''reading protected mirror failed'' w_mirror) (\<lambda>opened.
         case opened of
           None \<Rightarrow> failIO (Bail ''opening protected mirror failed'')
         | Some again \<Rightarrow>
             let bytes = take (MAX_MIRROR_BYTES + 1) again in
             bindIO (liftR (require (length bytes \<le> MAX_MIRROR_BYTES \<and> length bytes = length content)
               ''protected mirror size changed during read'')) (\<lambda>_.
             returnIO (Some bytes)))))"
    have "triple (upto w0) (?rest stored regular) (\<lambda>stored w. stored = w_mirror w0 \<and> upto w0 w) (upto w0)" if eq: "stored = w_mirror w0"
    proof (cases stored)
      case None
      then show ?thesis using eq by (auto intro!: triple_return)
    next
      case (Some content)
      have again: "Some content = w_mirror w0" using eq Some by simp
      show ?thesis
        unfolding Some option.case
        by (intro triple_bind_lift triple_bind_eq [OF two])
          (auto simp: again [symmetric] Let_def simp del: not_less intro!: triple_return triple_bind_lift)
    qed
    then show "triple (?P s) (case s of (stored, regular) \<Rightarrow> ?rest stored regular) (\<lambda>stored w. stored = w_mirror w0 \<and> upto w0 w) (upto w0)"
      unfolding s by (auto simp: triple_def)
  qed
qed

text \<open>A mirror written for an authority shows it.\<close>

definition written_for :: "env \<Rightarrow> authority_state \<Rightarrow> string \<Rightarrow> bool" where
  "written_for e a bytes \<longleftrightarrow> (\<exists>now. mirror_encode (e_ext e) (e_mirror e) now a = Inr bytes)"

lemma written_shows:
  assumes "mirror_format (e_mirror e)" "written_for e a bytes"
  shows "mirror_shows e a (Some bytes)" "0 < cp_ordinal (au_checkpoint a)"
proof -
  obtain now where enc: "mirror_encode (e_ext e) (e_mirror e) now a = Inr bytes" using assms(2) by (auto simp: written_for_def)
  show "mirror_shows e a (Some bytes)"
    unfolding mirror_shows_def using mirror_format.decode_encoded_only [OF assms(1) enc] by blast
  show "0 < cp_ordinal (au_checkpoint a)"
    using enc envelope_fields(2) by (fastforce simp: mirror_encode_def envelope_validate_def bindR_eq_Inr)
qed

text \<open>What reconciliation finds: a file to replace, one to keep, or one to refuse.\<close>

definition inspection :: "env \<Rightarrow> authority_state \<Rightarrow> string option \<Rightarrow> bool result" where
  "inspection e a m = bindR (decode_current e a m) (needs_repair a)"

abbreviation repairable :: "env \<Rightarrow> authority_state \<Rightarrow> string option \<Rightarrow> bool" where
  "repairable e a m \<equiv> inspection e a m = Inr True"

lemma inspected_current: "inspection e a m = Inr False \<Longrightarrow> mirror_current e a m"
  using needs_repair_False [of a]
  by (fastforce simp: inspection_def decode_current_def mirror_current_def mirror_shows_def bindR_eq_Inr split: option.splits)

lemma local_path_triple: "triple (upto w0) (local_path e pm path) (\<lambda>_. upto w0) (upto w0)"
proof -
  have ask: "triple (upto w0) (observe e msg f) (\<lambda>_. upto w0) (upto w0)" for msg and f :: "world \<Rightarrow> bool"
    by (rule triple_observe) (auto simp: upto_iff)
  show ?thesis
    unfolding local_path_def revalidate_local_paths_def local_owner_def
    by (intro triple_bind [OF triple_sync [OF stable_upto]] triple_bind_lift triple_bind [OF ask] triple_lift) auto
qed

lemma local_inspect_triple:
  assumes f: "mirror_format (e_mirror e)" and m: "sd_mirror (au_descriptor a) \<noteq> MDisabled"
  shows "triple (upto w0) (local_inspect e pm path a)
    (\<lambda>r w. upto w0 w \<and> (case r of None \<Rightarrow> inspection e a (w_mirror w0) = Inr False
      | Some bytes \<Rightarrow> repairable e a (w_mirror w0) \<and> written_for e a bytes)) (upto w0)"
proof -
  let ?Q = "\<lambda>r w. upto w0 w \<and> (case r of None \<Rightarrow> inspection e a (w_mirror w0) = Inr False
      | Some bytes \<Rightarrow> repairable e a (w_mirror w0) \<and> written_for e a bytes)"
  note st = triple_sync [OF stable_upto]
  have sf: "triple (upto w0) (sync_private_file e) (\<lambda>_. upto w0) (upto w0)"
    unfolding sync_private_file_def by (intro triple_bind [OF st] st)
  have enc: "triple (upto w0) (encode_now e a) (\<lambda>bytes w. written_for e a bytes \<and> upto w0 w) (upto w0)"
    by (auto simp: triple_def encode_now_def written_for_def upto_iff split: sum.splits)
  have tail: "triple (upto w0) (if \<not> repair
     then bindIO (if current \<noteq> None then sync_private_file e else returnIO ()) (\<lambda>_. returnIO None)
     else bindIO (encode_now e a) (\<lambda>bytes. returnIO (Some bytes))) ?Q (upto w0)"
    if d: "decode_current e a (w_mirror w0) = Inr current" and n: "needs_repair a current = Inr repair" for current repair
  proof (cases repair)
    case True
    have "repairable e a (w_mirror w0)" using d n True by (simp add: inspection_def)
    then have "triple (upto w0) (bindIO (encode_now e a) (\<lambda>bytes. returnIO (Some bytes))) ?Q (upto w0)"
      by (intro triple_bind [OF enc]) (auto simp: triple_def returnIO_def)
    then show ?thesis using True by simp
  next
    case False
    have "inspection e a (w_mirror w0) = Inr False" using d n False by (simp add: inspection_def)
    moreover have "triple (upto w0) (if current \<noteq> None then sync_private_file e else returnIO ()) (\<lambda>_. upto w0) (upto w0)"
      using sf by (auto intro: triple_return)
    ultimately show ?thesis using False by (auto elim!: triple_bind intro!: triple_return)
  qed
  show ?thesis
    unfolding local_inspect_def lock_local_def local_owner_def
    by (intro triple_bind [OF triple_bind_lift [OF st]] triple_bind [OF local_path_triple]
        triple_bind_eq [OF read_local_triple] triple_bind_lift tail) auto
qed

text \<open>What an attempt leaves: the mirror as it was, or one written for the authority.\<close>

definition attempted :: "env \<Rightarrow> authority_state \<Rightarrow> world \<Rightarrow> world \<Rightarrow> bool" where
  "attempted e a w0 w \<longleftrightarrow> (\<exists>m. upto (w0\<lparr> w_mirror := m \<rparr>) w \<and>
     (m = w_mirror w0 \<or> (repairable e a (w_mirror w0) \<and> (\<exists>bytes. m = Some bytes \<and> written_for e a bytes))))"

lemma attempted_refl: "upto w0 w \<Longrightarrow> attempted e a w0 w"
  unfolding attempted_def by (rule exI [of _ "w_mirror w0"]) simp

lemma stable_attempted: "stable (attempted e a w0)"
  unfolding stable_def attempted_def upto_iff by auto

lemma write_local_triple:
  "triple (upto w0) (write_local e bytes) (\<lambda>_ w. upto (w0\<lparr> w_mirror := Some bytes \<rparr>) w)
    (\<lambda>w. upto w0 w \<or> upto (w0\<lparr> w_mirror := Some bytes \<rparr>) w)"
proof -
  let ?w = "w0\<lparr> w_mirror := Some bytes \<rparr>"
  let ?E = "\<lambda>w. upto w0 w \<or> upto ?w w"
  have st: "triple (upto w0) (sync e msg) (\<lambda>_. upto w0) ?E" for msg
    by (rule triple_conseq [OF triple_sync [OF stable_upto]]) auto
  have last: "triple (upto ?w) (sync e msg) (\<lambda>_. upto ?w) ?E" for msg
    by (rule triple_conseq [OF triple_sync [OF stable_upto]]) auto
  have name: "triple (upto w0) (fresh_uuid e) (\<lambda>_. upto w0) ?E"
    by (auto simp: triple_def fresh_uuid_def upto_iff)
  have rename: "triple (upto w0) (mutate e msg (\<lambda>w. w\<lparr> w_mirror := Some bytes \<rparr>)) (\<lambda>_. upto ?w) ?E" for msg
    by (rule triple_mutate) (auto simp: upto_iff)
  show ?thesis unfolding write_local_def by (intro triple_bind [OF st] triple_bind [OF name] triple_bind [OF rename] last)
qed

text \<open>
  One attempt: a result without a write leaves the mirror alone and finds it current, or refuses it; a
  write leaves the old mirror or the new one, and the new one on success.
\<close>

definition attempt_end :: "env \<Rightarrow> authority_state \<Rightarrow> world \<Rightarrow> mirror_outcome result \<times> bool \<Rightarrow> world \<Rightarrow> bool" where
  "attempt_end e a w0 r w \<longleftrightarrow>
     (case r of
        (Inl _, False) \<Rightarrow> upto w0 w
      | (Inl _, True) \<Rightarrow> attempted e a w0 w \<and> repairable e a (w_mirror w0)
      | (Inr out, False) \<Rightarrow> upto w0 w \<and> out = Unchanged \<and> inspection e a (w_mirror w0) = Inr False
      | (Inr out, True) \<Rightarrow> repairable e a (w_mirror w0) \<and> (\<exists>bytes. upto (w0\<lparr> w_mirror := Some bytes \<rparr>) w \<and> written_for e a bytes))"

lemma local_attempt_triple:
  assumes f: "mirror_format (e_mirror e)" and m: "sd_mirror (au_descriptor a) \<noteq> MDisabled"
  shows "triple (upto w0) (local_attempt e pm path a) (attempt_end e a w0) (\<lambda>_. False)"
  unfolding local_attempt_def
proof (rule triple_bind_try [OF local_inspect_triple [OF f m]]; unfold sum.case)
  show "triple (upto w0) (returnIO (Inl err, False)) (attempt_end e a w0) (\<lambda>_. False)" for err
    by (rule triple_return) (simp add: attempt_end_def)
  fix r :: "string option"
  let ?save = "\<lambda>bytes. bindIO (tryIO (bindIO (revalidate_local_paths e) (\<lambda>_. write_local e bytes))) (\<lambda>written.
         returnIO (case written of Inl err \<Rightarrow> Inl err | Inr _ \<Rightarrow> Inr Repaired, True))"
  have saved: "triple (upto w0) (?save bytes) (attempt_end e a w0) (\<lambda>_. False)"
    if ok: "repairable e a (w_mirror w0)" "written_for e a bytes" for bytes
  proof -
    let ?E = "\<lambda>w. upto w0 w \<or> upto (w0\<lparr> w_mirror := Some bytes \<rparr>) w"
    have "triple (upto w0) (bindIO (revalidate_local_paths e) (\<lambda>_. write_local e bytes)) (\<lambda>_. upto (w0\<lparr> w_mirror := Some bytes \<rparr>)) ?E"
      unfolding revalidate_local_paths_def by (rule triple_seq [OF triple_sync [OF stable_upto] _ write_local_triple]) simp
    then show ?thesis
    proof (rule triple_bind_try; unfold sum.case)
      show "triple ?E (returnIO (Inl err, True)) (attempt_end e a w0) (\<lambda>_. False)" for err
      proof (rule triple_return)
        fix w
        assume "?E w"
        then have "attempted e a w0 w" using ok attempted_refl unfolding attempted_def by blast
        then show "attempt_end e a w0 (Inl err, True) w" using ok by (simp add: attempt_end_def)
      qed
      show "triple (upto (w0\<lparr> w_mirror := Some bytes \<rparr>)) (returnIO (Inr Repaired, True)) (attempt_end e a w0) (\<lambda>_. False)"
        by (rule triple_return) (use ok in \<open>auto simp: attempt_end_def\<close>)
    qed
  qed
  show "triple (\<lambda>w. upto w0 w \<and> (case r of None \<Rightarrow> inspection e a (w_mirror w0) = Inr False
      | Some bytes \<Rightarrow> repairable e a (w_mirror w0) \<and> written_for e a bytes))
    (case r of None \<Rightarrow> returnIO (Inr Unchanged, False) | Some bytes \<Rightarrow> ?save bytes) (attempt_end e a w0) (\<lambda>_. False)"
  proof (cases r)
    case None
    then show ?thesis by (auto simp: attempt_end_def intro!: triple_return)
  next
    case (Some bytes)
    have "triple (\<lambda>w. (repairable e a (w_mirror w0) \<and> written_for e a bytes) \<and> upto w0 w) (?save bytes) (attempt_end e a w0) (\<lambda>_. False)"
      by (rule triple_pre_pure) (use saved in blast)
    then show ?thesis unfolding Some option.case by (rule triple_conseq) auto
  qed
qed

lemma written_current:
  "mirror_format (e_mirror e) \<Longrightarrow> written_for e a bytes \<Longrightarrow> mirror_current e a (Some bytes)"
  using written_shows by (simp add: mirror_current_def)

lemma attempted_trans:
  assumes "attempted e a w0 w1" "attempted e a w1 w2"
  shows "attempted e a w0 w2"
proof -
  obtain m1 where m1: "upto (w0\<lparr> w_mirror := m1 \<rparr>) w1" "m1 = w_mirror w0 \<or> (repairable e a (w_mirror w0) \<and> (\<exists>bytes. m1 = Some bytes \<and> written_for e a bytes))"
    using assms(1) by (auto simp: attempted_def)
  obtain m2 where m2: "upto (w1\<lparr> w_mirror := m2 \<rparr>) w2" "m2 = w_mirror w1 \<or> (repairable e a (w_mirror w1) \<and> (\<exists>bytes. m2 = Some bytes \<and> written_for e a bytes))"
    using assms(2) by (auto simp: attempted_def)
  have eq: "w_mirror w1 = m1" and up: "upto (w0\<lparr> w_mirror := m2 \<rparr>) w2" using m1(1) m2(1) by (simp_all add: upto_iff)
  show ?thesis unfolding attempted_def by (rule exI [of _ m2]) (use m1(2) m2(2) eq up in auto)
qed

lemma attempt_attempted:
  assumes "attempt_end e a w0 (r, wrote) w"
  shows "attempted e a w0 w" "r = Inr out \<Longrightarrow> mirror_format (e_mirror e) \<Longrightarrow> mirror_current e a (w_mirror w)"
    "\<not> wrote \<Longrightarrow> upto w0 w" "r = Inr out \<Longrightarrow> is_ok (inspection e a (w_mirror w0))"
proof -
  show "attempted e a w0 w"
  proof (cases wrote)
    case False
    then show ?thesis using assms attempted_refl by (auto simp: attempt_end_def split: sum.splits)
  next
    case True
    then show ?thesis using assms by (cases r) (auto simp: attempt_end_def attempted_def)
  qed
  show "mirror_current e a (w_mirror w)" if r: "r = Inr out" and f: "mirror_format (e_mirror e)"
  proof (cases wrote)
    case False
    then show ?thesis using assms r inspected_current by (simp add: attempt_end_def upto_iff)
  next
    case True
    then obtain bytes where "upto (w0\<lparr> w_mirror := Some bytes \<rparr>) w" "written_for e a bytes" using assms r by (auto simp: attempt_end_def)
    then show ?thesis using written_current [OF f] by (simp add: upto_iff)
  qed
  show "upto w0 w" if "\<not> wrote" using assms that by (cases r) (auto simp: attempt_end_def)
  show "is_ok (inspection e a (w_mirror w0))" if "r = Inr out" using assms that by (cases wrote) (auto simp: attempt_end_def)
qed

definition reconciled :: "env \<Rightarrow> authority_state \<Rightarrow> world \<Rightarrow> mirror_outcome \<Rightarrow> world \<Rightarrow> bool" where
  "reconciled e a w0 out w \<longleftrightarrow> attempted e a w0 w \<and> mirror_current e a (w_mirror w) \<and> (out \<noteq> Repaired \<longrightarrow> upto w0 w) \<and>
     (sd_mirror (au_descriptor a) = MDisabled \<or> is_ok (inspection e a (w_mirror w0)))"

lemma backoff_triple: "stable P \<Longrightarrow> triple P (retry_backoff pm millis) (\<lambda>_. P) P"
proof -
  assume st: "stable P"
  have "triple P (check_shutdown pm) (\<lambda>_. P) P"
    by (rule tripleI) (auto simp: check_shutdown_def intro: stableD [OF st])
  then show ?thesis unfolding retry_backoff_def by (intro triple_for_each)
qed

lemma attempts_triple:
  assumes f: "mirror_format (e_mirror e)" and m: "sd_mirror (au_descriptor a) \<noteq> MDisabled"
  shows "triple (\<lambda>w. attempted e a w0 w \<and> (\<not> had \<longrightarrow> upto w0 w)) (local_attempts e pm path a ns had) (reconciled e a w0) (attempted e a w0)"
proof (induction ns arbitrary: had)
  case Nil
  show ?case by (auto intro!: triple_fail)
next
  case (Cons n ns)
  show ?case
  proof (rule triple_pointwise, elim conjE)
    fix w1
    assume w1: "attempted e a w0 w1" "\<not> had \<longrightarrow> upto w0 w1"
    have one: "triple (\<lambda>v. v = w1) (local_attempt e pm path a) (attempt_end e a w1) (attempted e a w0)"
      by (rule triple_conseq [OF local_attempt_triple [OF f m, of w1]]) auto
    show "triple (\<lambda>v. v = w1) (local_attempts e pm path a (n # ns) had) (reconciled e a w0) (attempted e a w0)"
      unfolding local_attempts.simps
    proof (rule triple_bind [OF one])
      fix r :: "mirror_outcome result \<times> bool"
      obtain out wrote where r: "r = (out, wrote)" by (cases r)
      have att: "attempted e a w0 w" if "attempt_end e a w1 r w" for w
        using attempted_trans [OF w1(1) attempt_attempted(1)] that r by blast
      let ?next = "\<lambda>out wrote. case out of
       Inr out \<Rightarrow> returnIO (if had \<or> wrote then Repaired else out)
     | Inl err \<Rightarrow>
         if \<not> wrote then failIO err
         else if n = 2 then failIO (Context ''protected mirror persistence failed after three local attempts'' err)
         else bindIO (retry_backoff pm (1000 * 2 ^ n)) (\<lambda>_. local_attempts e pm path a ns (had \<or> wrote))"
      have "triple (attempt_end e a w1 r) (?next out wrote) (reconciled e a w0) (attempted e a w0)"
      proof (cases out)
        case (Inl err)
        have "triple (attempted e a w0) (bindIO (retry_backoff pm (1000 * 2 ^ n)) (\<lambda>_. local_attempts e pm path a ns True))
            (reconciled e a w0) (attempted e a w0)"
          by (rule triple_bind [OF backoff_triple [OF stable_attempted]], rule triple_conseq [OF Cons.IH [of True]]) auto
        then have "triple (attempt_end e a w1 r) (bindIO (retry_backoff pm (1000 * 2 ^ n)) (\<lambda>_. local_attempts e pm path a ns True))
            (reconciled e a w0) (attempted e a w0)"
          by (rule triple_conseq) (auto intro: att)
        then show ?thesis using Inl by (auto intro!: triple_fail att)
      next
        case (Inr o')
        have "reconciled e a w0 (if had \<or> wrote then Repaired else o') w" if a: "attempt_end e a w1 r w" for w
        proof -
          note t = attempt_attempted [OF a [unfolded r]]
          have "upto w0 w" if "\<not> had" "\<not> wrote" using t(3) w1(2) that by (simp add: upto_iff)
          moreover have "is_ok (inspection e a (w_mirror w0))"
            using t(4) [OF Inr] w1(1) by (auto simp: attempted_def upto_iff)
          ultimately show ?thesis using att [OF a] t(2) [OF Inr f] by (auto simp: reconciled_def)
        qed
        then show ?thesis unfolding Inr sum.case by (rule triple_return)
      qed
      then show "triple (attempt_end e a w1 r) (case r of (out, wrote) \<Rightarrow> ?next out wrote) (reconciled e a w0) (attempted e a w0)"
        unfolding r by simp
    qed
  qed
qed

text \<open>The reconciliation of a mirror that is not in S3.\<close>

lemma reconcile_counted_triple:
  assumes f: "mirror_format (e_mirror e)" and b: "\<And>service bucket key. pm_binding pm \<noteq> MS3 service bucket key"
  shows "triple (upto w0) (reconcile_counted e pm a) (reconciled e a w0) (attempted e a w0)"
  unfolding reconcile_counted_def
proof (rule triple_bind_lift, rule triple_bind_lift)
  fix u v :: unit
  assume "require (sd_mirror (au_descriptor a) = pm_binding pm) ''authority mirror binding differs from resolved adapter'' = Inr v"
  then have eq: "sd_mirror (au_descriptor a) = pm_binding pm" by simp
  show "triple (upto w0) (case pm_binding pm of MDisabled \<Rightarrow> returnIO Disabled
     | MLocal path \<Rightarrow> local_attempts e pm path a [0..<3] False
     | MS3 service bucket key \<Rightarrow> ow_remote (pm_ownership pm) bucket key a) (reconciled e a w0) (attempted e a w0)"
  proof (cases "pm_binding pm")
    case MDisabled
    then show ?thesis using eq by (auto intro!: triple_return simp: reconciled_def attempted_refl mirror_current_def)
  next
    case (MLocal path)
    have "triple (upto w0) (local_attempts e pm path a [0..<3] False) (reconciled e a w0) (attempted e a w0)"
      by (rule triple_conseq [OF attempts_triple [OF f]]) (use eq MLocal attempted_refl in auto)
    then show ?thesis using MLocal by simp
  qed (use b in simp)
qed (auto intro: attempted_refl)

text \<open>The laws of \<open>MirrorAction\<close> hold for \<open>ProtectedMirror\<close>.\<close>

lemma protected_mirror_law:
  assumes f: "mirror_format (e_mirror e)" and b: "\<And>service bucket key. pm_binding pm \<noteq> MS3 service bucket key"
  shows "mirror_law e (mirror_reconcile e pm)"
proof
  fix a w r w'
  note t = reconcile_counted_triple [OF f b, of w a]
  {
    assume run: "mirror_reconcile e pm a w = (r, w')"
    have "attempted e a w w'"
      using run tripleD [OF t upto_refl] by (auto simp: mirror_reconcile_def bindIO_def returnIO_def reconciled_def split: prod.splits sum.splits)
    then show "\<exists>m. upto (w\<lparr> w_mirror := m \<rparr>) w' \<and> (m = w_mirror w \<or> mirror_shows e a m)"
      using written_shows(1) [OF f] unfolding attempted_def by blast
  next
    assume run: "mirror_reconcile e pm a w = (Inr (), w')"
    then show "mirror_current e a (w_mirror w')"
      using tripleD(1) [OF t upto_refl] by (auto simp: mirror_reconcile_def bindIO_ok returnIO_def reconciled_def)
  }
qed

section \<open>Without faults\<close>

text \<open>A path the ownership allows.\<close>

definition path_allowed :: "protected_mirror \<Rightarrow> string \<Rightarrow> bool" where
  "path_allowed pm path \<longleftrightarrow> ow_local (pm_ownership pm) \<and> (\<forall>n. ow_inside (pm_ownership pm) path n \<and> ow_regular (pm_ownership pm) path n) \<and>
     length path \<le> 4096 \<and> strip_prefix ''/'' path \<noteq> None \<and> list_ex (\<lambda>part. part \<noteq> []) (split_on (CHR ''/'') path) \<and>
     \<not> list_ex (\<lambda>part. part = ''.'' \<or> part = ''..'') (split_on (CHR ''/'') path) \<and> \<not> is_control_path path"

lemma require_holds: "C \<Longrightarrow> require C msg = Inr ()"
  by simp

lemma sync_total: "healthy e \<Longrightarrow> triple (upto w0) (sync e msg) (\<lambda>_. upto w0) E"
  unfolding sync_def by (rule observe_total) auto

lemma read_local_total:
  assumes e: "healthy e" and p: "path_allowed pm path" and n: "\<And>content. w_mirror w0 = Some content \<Longrightarrow> length content \<le> MAX_MIRROR_BYTES"
  shows "triple (upto w0) (read_local e pm path) (\<lambda>stored w. stored = w_mirror w0 \<and> upto w0 w) E"
proof -
  have one: "triple (upto w0) (observe e msg (\<lambda>w. (w_mirror w, ow_regular (pm_ownership pm) path (w_clock w))))
      (\<lambda>s w. s = (w_mirror w0, True) \<and> upto w0 w) E" for msg
    by (rule observe_total [OF e]) (use p in \<open>auto simp: upto_iff path_allowed_def\<close>)
  have two: "triple (upto w0) (observe e msg w_mirror) (\<lambda>s w. s = w_mirror w0 \<and> upto w0 w) E" for msg
    by (rule observe_total [OF e]) (auto simp: upto_iff)
  show ?thesis
    unfolding read_local_def
  proof (rule triple_bind_eq [OF one], unfold prod.case)
    let ?rest = "\<lambda>stored. case stored of None \<Rightarrow> returnIO None
     | Some content \<Rightarrow>
         bindIO (liftR (require True ''protected mirror is not a regular file'')) (\<lambda>_.
         bindIO (liftR (require (length content \<le> MAX_MIRROR_BYTES) ''protected mirror exceeds byte limit'')) (\<lambda>_.
         bindIO (observe e ''reading protected mirror failed'' w_mirror) (\<lambda>opened.
         case opened of
           None \<Rightarrow> failIO (Bail ''opening protected mirror failed'')
         | Some again \<Rightarrow>
             let bytes = take (MAX_MIRROR_BYTES + 1) again in
             bindIO (liftR (require (length bytes \<le> MAX_MIRROR_BYTES \<and> length bytes = length content)
               ''protected mirror size changed during read'')) (\<lambda>_.
             returnIO (Some bytes)))))"
    show "triple (upto w0) (?rest (w_mirror w0)) (\<lambda>stored w. stored = w_mirror w0 \<and> upto w0 w) E"
    proof (cases "w_mirror w0")
      case None
      then show ?thesis by (auto intro!: triple_return)
    next
      case (Some content)
      have len: "length content \<le> MAX_MIRROR_BYTES" by (rule n [OF Some])
      show ?thesis
        unfolding Some option.case
        by (rule triple_lift_ok [OF require_holds], simp, rule triple_lift_ok [OF require_holds], rule len, rule triple_bind_eq [OF two])
          (use len in \<open>simp add: Some Let_def triple_def bindIO_def liftR_def returnIO_def\<close>)
    qed
  qed
qed

lemma local_path_total:
  assumes e: "healthy e" and p: "path_allowed pm path"
  shows "triple (upto w0) (local_path e pm path) (\<lambda>_. upto w0) E"
proof -
  have ask: "triple (upto w0) (observe e msg f) (\<lambda>r w. r = True \<and> upto w0 w) E" if "\<And>w. f w" for msg f
    by (rule observe_total [OF e]) (use that in \<open>auto simp: upto_iff\<close>)
  show ?thesis
    unfolding local_path_def revalidate_local_paths_def local_owner_def
    by (rule triple_bind [OF sync_total [OF e]], rule triple_lift_ok [OF require_holds], use p in \<open>simp add: path_allowed_def\<close>,
        rule triple_bind_eq [OF ask], use p in \<open>simp add: path_allowed_def\<close>,
        rule triple_lift_ok [OF require_holds], use p in \<open>simp add: path_allowed_def\<close>, rule triple_lift_ok [OF require_holds], simp,
        rule triple_bind_eq [OF ask], use p in \<open>simp add: path_allowed_def\<close>) (simp add: triple_def liftR_def)
qed

lemma attempt_total:
  assumes e: "healthy e" and p: "path_allowed pm path" and i: "is_ok (inspection e a (w_mirror w0))"
    and enc: "\<And>n. cp_ordinal (au_checkpoint a) \<noteq> 0 \<Longrightarrow> is_ok (mirror_encode (e_ext e) (e_mirror e) (e_timestamp e n) a)"
  shows "triple (upto w0) (local_attempt e pm path a) (\<lambda>(r, _) _. is_ok r) (\<lambda>_. False)"
proof -
  note st = sync_total [OF e]
  obtain current repair where c: "decode_current e a (w_mirror w0) = Inr current" "needs_repair a current = Inr repair"
    using i by (auto simp: inspection_def is_ok_iff bindR_eq_Inr)
  have len: "length content \<le> MAX_MIRROR_BYTES" if "w_mirror w0 = Some content" for content
    using c(1) that by (auto simp: decode_current_def mirror_decode_def bindR_eq_Inr)
  have rest: "triple (upto w0) (if \<not> repair
     then bindIO (if current \<noteq> None then sync_private_file e else returnIO ()) (\<lambda>_. returnIO None)
     else bindIO (encode_now e a) (\<lambda>bytes. returnIO (Some bytes))) (\<lambda>_. upto w0) (\<lambda>_. False)"
  proof (cases repair)
    case True
    then have "cp_ordinal (au_checkpoint a) \<noteq> 0" using c(2) by (auto simp: needs_repair_def Let_def bindR_eq_Inr split: if_splits)
    from enc [OF this] have encodes: "mirror_encode (e_ext e) (e_mirror e) (e_timestamp e n) a \<noteq> Inl err" for n err
      by (metis is_ok_iff sum.distinct(1))
    have "triple (upto w0) (encode_now e a) (\<lambda>_. upto w0) (\<lambda>_. False)"
      by (rule tripleI) (auto simp: encode_now_def encodes)
    then show ?thesis using True by (auto elim!: triple_bind intro!: triple_return)
  next
    case False
    have "triple (upto w0) (sync_private_file e) (\<lambda>_. upto w0) (\<lambda>_. False)"
      unfolding sync_private_file_def by (intro triple_bind [OF st] st)
    then have "triple (upto w0) (if current \<noteq> None then sync_private_file e else returnIO ()) (\<lambda>_. upto w0) (\<lambda>_. False)"
      by (auto intro: triple_return)
    then show ?thesis using False by (auto elim!: triple_bind intro!: triple_return)
  qed
  have owner: "require (ow_local (pm_ownership pm)) msg = Inr ()" for msg using p by (simp add: path_allowed_def)
  have inspect: "triple (upto w0) (local_inspect e pm path a) (\<lambda>_. upto w0) (\<lambda>_. False)"
    unfolding local_inspect_def lock_local_def local_owner_def
    by (rule triple_bind [OF triple_lift_ok [OF owner st]], rule triple_bind [OF local_path_total [OF e p]],
        rule triple_bind_eq [OF read_local_total [OF e p len]], assumption, rule triple_lift_ok [OF c(1)], rule triple_lift_ok [OF c(2)], rule rest)
  have name: "triple (upto w0) (fresh_uuid e) (\<lambda>_. upto w0) (\<lambda>_. False)"
    by (auto simp: triple_def fresh_uuid_def upto_iff)
  have save: "triple (upto w0) (bindIO (revalidate_local_paths e) (\<lambda>_. write_local e bytes)) (\<lambda>_ _. True) (\<lambda>_. False)" for bytes
    unfolding revalidate_local_paths_def write_local_def
    by (intro triple_bind [OF st] triple_bind [OF name] triple_bind [OF mutate_total [OF e, where Q = "\<lambda>_. upto (w0\<lparr> w_mirror := Some bytes \<rparr>)"]]
        triple_conseq [OF st [of "w0\<lparr> w_mirror := Some bytes \<rparr>"]]) (auto simp: upto_iff)
  have "triple (upto w0) (bindIO (tryIO (bindIO (revalidate_local_paths e) (\<lambda>_. write_local e bytes))) (\<lambda>written.
         returnIO (case written of Inl err \<Rightarrow> Inl err | Inr _ \<Rightarrow> Inr Repaired, True))) (\<lambda>(r, _) _. is_ok r) (\<lambda>_. False)" for bytes
    by (rule triple_bind_try [OF save]) (auto simp: triple_def returnIO_def)
  then show ?thesis
    unfolding local_attempt_def
    by (intro triple_bind_try [OF inspect]) (auto simp: triple_def returnIO_def split: option.splits)
qed

text \<open>A mirror that is not refused is reconciled.\<close>

lemma reconcile_total:
  assumes e: "healthy e" and p: "pm_binding pm = MLocal path" "path_allowed pm path"
    and a: "authority_validate (e_ext e) a = Inr ()" "sd_mirror (au_descriptor a) = MLocal path" and i: "is_ok (inspection e a (w_mirror w))"
    and enc: "\<And>n. cp_ordinal (au_checkpoint a) \<noteq> 0 \<Longrightarrow> is_ok (mirror_encode (e_ext e) (e_mirror e) (e_timestamp e n) a)"
  obtains out w' where "reconcile_counted e pm a w = (Inr out, w')"
proof -
  from attempt_total [OF e p(2) i enc] have "triple (upto w) (local_attempt e pm path a) (\<lambda>(r, _) _. is_ok r) (\<lambda>_. False)" by blast
  then obtain r w1 where r: "local_attempt e pm path a w = (Inr r, w1)" "case r of (r, _) \<Rightarrow> is_ok r"
    by (rule triple_success) (auto intro: upto_refl)
  obtain out wrote where "r = (Inr out, wrote)" using r(2) by (cases r) (auto simp: is_ok_iff)
  moreover have "[0..<3] = [0, 1, 2 :: nat]" by (simp add: upt_rec)
  ultimately have "\<exists>out w'. reconcile_counted e pm a w = (Inr out, w')"
    using p(1) a r(1) by (simp add: reconcile_counted_def bindIO_def liftR_def returnIO_def)
  then show ?thesis using that by blast
qed

section \<open>A local mirror\<close>

definition sample_mirror_at :: protected_mirror where
  "sample_mirror_at = \<lparr> pm_ownership = \<lparr> ow_local = True, ow_inside = (\<lambda>_ _. True), ow_regular = (\<lambda>_ _. True), ow_scopes = (\<lambda>_. None),
       ow_remote = (\<lambda>_ _ _. failIO (Bail ''no bucket'')), ow_remote_present = (\<lambda>_ _. failIO (Bail ''no bucket'')) \<rparr>,
     pm_binding = MLocal ''/m/cursor.parquet'', pm_shutdown = (\<lambda>_. False) \<rparr>"

lemma sample_mirror_format: "mirror_format (e_mirror sample_env)"
  using sample_mirror.mirror_format_axioms by (simp add: sample_env_def)

interpretation local_mirror: mirror_law sample_env "mirror_reconcile sample_env sample_mirror_at"
  by (rule protected_mirror_law [OF sample_mirror_format]) (simp add: sample_mirror_at_def)

lemma sample_path_allowed: "path_allowed sample_mirror_at ''/m/cursor.parquet''"
proof -
  have "length ''/m/cursor.parquet'' \<le> 4096" "strip_prefix ''/'' ''/m/cursor.parquet'' \<noteq> None"
    "list_ex (\<lambda>part. part \<noteq> []) (split_on (CHR ''/'') ''/m/cursor.parquet'')"
    "\<not> list_ex (\<lambda>part. part = ''.'' \<or> part = ''..'') (split_on (CHR ''/'') ''/m/cursor.parquet'')" "\<not> is_control_path ''/m/cursor.parquet''"
    by code_simp+
  then show ?thesis by (simp add: path_allowed_def sample_mirror_at_def)
qed

lemma mirrored_reconciles:
  obtains out w' where "reconcile_counted sample_env sample_mirror_at mirrored_authority empty_world = (Inr out, w')"
proof (rule reconcile_total [OF sample_env_healthy _ sample_path_allowed])
  show "is_ok (inspection sample_env mirrored_authority (w_mirror empty_world))"
    using mirrored_fields(3) by (simp add: inspection_def decode_current_def empty_world_def needs_repair_def)
  show "is_ok (mirror_encode (e_ext sample_env) (e_mirror sample_env) (e_timestamp sample_env n) mirrored_authority)" for n
    using mirrored_encodes by (simp add: sample_env_def)
qed (use that mirrored_fields(1,2) in \<open>simp_all add: sample_mirror_at_def mirrored_descriptor_def\<close>)

section \<open>Properties\<close>



end
