(* ===== verification/Controller_Safe.thy ===== *)
theory Controller_Safe
  imports Mirror
begin

text \<open>
  What the controller leaves behind. The ledger \<open>H\<close> says which commits of the stream every Delta table
  has. A dataset is \<open>settled\<close> when nothing is pending and the logs are exactly the ledger; otherwise a
  transaction is \<open>aborting\<close> (Writing, to be rolled back), \<open>committing\<close> (Committed, its commits in some of
  the logs) or \<open>finishing\<close> (the authority already advanced). Every method of the controller leads from
  one of these states to another, whatever fails.
\<close>

section \<open>Worlds that differ in the clock\<close>

lemma files_upto: "has_files w (w_files w) v \<longleftrightarrow> upto w v"
  by (auto simp: has_files_def upto_iff)

lemma journal_upto: "has_journal w (w_state w, w_pending w) v \<longleftrightarrow> upto w v"
  by (auto simp: has_journal_def upto_iff)

lemma triple_reads:
  assumes "\<And>w. reads w (w_files w) m (Q w)" "stable P"
  shows "triple P m (\<lambda>r v. P v \<and> (\<exists>w. P w \<and> upto w v \<and> Q w r)) P"
proof (rule triple_pointwise)
  fix w
  assume w: "P w"
  show "triple (\<lambda>v. v = w) m (\<lambda>r v. P v \<and> (\<exists>w. P w \<and> upto w v \<and> Q w r)) P"
    by (rule triple_conseq [OF assms(1) [of w, unfolded reads_def]])
      (use w stableD [OF assms(2) w] in \<open>auto simp: files_upto intro!: exI [of _ w]\<close>)
qed

section \<open>The ledger and the states of a dataset\<close>

type_synonym ledger = "string \<Rightarrow> log_commit list"

definition extend_ledger :: "string \<Rightarrow> ledger \<Rightarrow> pending_transaction \<Rightarrow> ledger" where
  "extend_ledger app H p = (\<lambda>t. H t @ journal_commits app p t)"

definition ledger_behind :: "ledger \<Rightarrow> checkpoint \<Rightarrow> bool" where
  "ledger_behind H c \<longleftrightarrow> (\<forall>t n. last_version (H t) = Some n \<longrightarrow> n \<le> int (cp_ordinal c))"

definition based :: "env \<Rightarrow> ledger \<Rightarrow> authority_state versioned \<Rightarrow> world \<Rightarrow> bool" where
  "based e H a w \<longleftrightarrow> w_state w = Some a \<and> authority_validate (e_ext e) (snd a) = Inr () \<and>
     ledger_behind H (au_checkpoint (snd a)) \<and> mirror_ok e (snd a) (w_mirror w)"

definition settled :: "env \<Rightarrow> string \<Rightarrow> ledger \<Rightarrow> authority_state versioned \<Rightarrow> world \<Rightarrow> bool" where
  "settled e app H a w \<longleftrightarrow> based e H a w \<and> w_pending w = None \<and> logs_exact app H w"

definition aborting :: "env \<Rightarrow> string \<Rightarrow> ledger \<Rightarrow> authority_state versioned \<Rightarrow> pending_transaction versioned \<Rightarrow> world \<Rightarrow> bool" where
  "aborting e app H a h w \<longleftrightarrow> based e H a w \<and> w_pending w = Some h \<and> logs_exact app H w \<and>
     validate_predecessor (e_ext e) (snd a) (snd h) = Inr () \<and> pt_phase (snd h) = Writing \<and>
     acyclic_pending (snd h) \<and> rollback_safe e (snd h) (w_files w)"

definition committing :: "env \<Rightarrow> string \<Rightarrow> ledger \<Rightarrow> authority_state versioned \<Rightarrow> pending_transaction versioned \<Rightarrow> world \<Rightarrow> bool" where
  "committing e app H a h w \<longleftrightarrow> based e H a w \<and> w_pending w = Some h \<and>
     logs_partial app H (journal_commits app (snd h)) w \<and>
     validate_predecessor (e_ext e) (snd a) (snd h) = Inr () \<and> pt_phase (snd h) = Committed \<and>
     acyclic_pending (snd h)"

definition finishing :: "env \<Rightarrow> string \<Rightarrow> ledger \<Rightarrow> authority_state versioned \<Rightarrow> pending_transaction versioned \<Rightarrow> world \<Rightarrow> bool" where
  "finishing e app H a h w \<longleftrightarrow> based e H a w \<and> w_pending w = Some h \<and> logs_exact app H w \<and>
     pending_validate (e_ext e) (snd h) (au_descriptor (snd a)) = Inr () \<and> pt_phase (snd h) = Committed \<and>
     au_checkpoint (snd a) = pt_target (snd h) \<and> acyclic_pending (snd h)"

definition consistent :: "env \<Rightarrow> string \<Rightarrow> ledger \<Rightarrow> world \<Rightarrow> bool" where
  "consistent e app H w \<longleftrightarrow> (\<exists>a. settled e app H a w \<or>
     (\<exists>h. aborting e app H a h w \<or> committing e app H a h w \<or> finishing e app H a h w))"

lemmas state_defs = based_def settled_def aborting_def committing_def finishing_def logs_exact_def logs_partial_def

lemma stable_states:
  "stable (settled e app H a)" "stable (aborting e app H a h)" "stable (committing e app H a h)" "stable (finishing e app H a h)"
  unfolding stable_def by (auto simp: state_defs upto_iff)

text \<open>A part belongs to one table.\<close>

lemma live_tables: "distinct (map tp_table ts) \<Longrightarrow> distinct (map (\<lambda>(i, t). tp_table t) (live_entries n ts))"
proof (induction ts arbitrary: n)
  case (Cons t ts)
  have "tp_table t \<notin> (\<lambda>(i, t). tp_table t) ` set (live_entries (Suc n) ts)"
    using Cons.prems live_entries_mem by fastforce
  then show ?case using Cons by simp
qed simp

lemma distinct_part_tables:
  assumes "pending_validate x p d = Inr ()"
  shows "distinct (map pp_table (pt_parts p))"
proof -
  have "expected_parts p = Inr (map (\<lambda>a. a\<lparr> pp_receipt := None \<rparr>) (pt_parts p))" "sorted_wrt (<) (map tp_table (pt_tables p))"
    using assms by (simp_all add: pending_validate_ok pending_frame_def)
  note eq = derive_parts_eq [OF this(1) [unfolded expected_parts_def]] and sorted = this(2)
  have "map pp_table (pt_parts p) = map pp_table (map (\<lambda>a. a\<lparr> pp_receipt := None \<rparr>) (pt_parts p))" by simp
  also have "\<dots> = map (\<lambda>(i, t). tp_table t) (live_entries 0 (pt_tables p))"
    unfolding eq by (simp add: plan_part_def case_prod_beta comp_def)
  finally show ?thesis using live_tables sorted strict_sorted_iff by metis
qed

text \<open>Before and after the authority advances.\<close>

lemma ledger_fresh:
  assumes "ledger_behind H (au_checkpoint a)" "validate_predecessor x a p = Inr ()"
  shows "last_version (H t) \<noteq> Some (int (ap_last_ordinal (pt_prefix p)))"
proof -
  have "cp_ordinal (au_checkpoint a) < ap_last_ordinal (pt_prefix p)"
    using assms(2) pending_target(3) [of x p "au_descriptor a"] by (auto simp: validate_predecessor_ok)
  then show ?thesis using assms(1) by (fastforce simp: ledger_behind_def)
qed

lemma ledger_extend:
  assumes "ledger_behind H (au_checkpoint a)" "install x a p = Inr b"
  shows "ledger_behind (extend_ledger app H p) (au_checkpoint b)"
  unfolding ledger_behind_def
proof (intro allI impI)
  fix t n
  assume n: "last_version (extend_ledger app H p t) = Some n"
  have v: "pending_validate x p (au_descriptor a) = Inr ()" "au_checkpoint b = pt_target p"
    using assms(2) by (auto simp: install_ok validate_predecessor_ok)
  show "n \<le> int (cp_ordinal (au_checkpoint b))"
  proof (cases "journal_commits app p t" rule: rev_cases)
    case Nil
    then show ?thesis using n assms(1) install_valid(2) [OF assms(2)] by (fastforce simp: extend_ledger_def ledger_behind_def)
  next
    case (snoc cs c)
    then have "lc_txn c = Some (app, int (ap_last_ordinal (pt_prefix p)))" using journal_commits_txn [of c app p t] by simp
    moreover have "extend_ledger app H p t = (H t @ cs) @ [c]" by (simp add: extend_ledger_def snoc)
    ultimately have "n = int (ap_last_ordinal (pt_prefix p))" using n by (simp only: last_version_snoc) simp
    then show ?thesis using pending_target(2) [OF v(1)] v(2) by simp
  qed
qed

lemma install_ordinal_grows: "install x a p = Inr b \<Longrightarrow> cp_ordinal (au_checkpoint a) < cp_ordinal (au_checkpoint b)"
  using pending_target(2,3) [of x p "au_descriptor a"] by (auto simp: install_ok validate_predecessor_ok)

lemma advanced_state:
  assumes c: "committing e app H a h w" and lg: "logs_exact app (extend_ledger app H (snd h)) w"
    and i: "install (e_ext e) (snd a) (snd h) = Inr (snd b)" and j: "has_journal w (Some b, Some h) w'"
  shows "finishing e app (extend_ledger app H (snd h)) b h w'"
proof -
  have b: "au_checkpoint (snd b) = pt_target (snd h)" "au_descriptor (snd b) = au_descriptor (snd a)"
    "pending_validate (e_ext e) (snd h) (au_descriptor (snd a)) = Inr ()"
    using i by (auto simp: install_ok validate_predecessor_ok)
  have "mirror_ok e (snd b) (w_mirror w)"
    by (rule ok_advanced [of _ "snd a"]) (use c b(2) install_ordinal_grows [OF i] in \<open>simp_all add: state_defs\<close>)
  moreover have "ledger_behind (extend_ledger app H (snd h)) (au_checkpoint (snd b))"
    by (rule ledger_extend [OF _ i]) (use c in \<open>simp add: state_defs\<close>)
  ultimately show ?thesis
    using c lg b install_valid(1) [OF i] j by (simp add: finishing_def based_def committing_def has_journal_def logs_exact_def)
qed

section \<open>Removing temporaries\<close>

definition in_place :: "env \<Rightarrow> pending_transaction \<Rightarrow> world \<Rightarrow> bool" where
  "in_place e p w \<longleftrightarrow> (\<forall>q\<in>set (pt_parts p). intact e p (w_files w) q)"

definition temp_stable :: "pending_transaction \<Rightarrow> (world \<Rightarrow> bool) \<Rightarrow> bool" where
  "temp_stable p P \<longleftrightarrow> (\<forall>w v D. P w \<longrightarrow> D \<subseteq> pp_temporary ` set (pt_parts p) \<longrightarrow> has_files w (w_files w |` (- D)) v \<longrightarrow> P v)"

lemma cleanup_triple:
  assumes "temp_stable p P"
  shows "triple P (cleanup_temporaries e p) (\<lambda>_. P) P"
proof (rule triple_files)
  fix w
  assume w: "P w"
  have ts: "P v" if "D \<subseteq> pp_temporary ` set (pt_parts p)" "has_files w (w_files w |` (- D)) v" for D v
    using assms w that unfolding temp_stable_def by blast
  show "triple (has_files w (w_files w)) (cleanup_temporaries e p) (\<lambda>_. P) P"
    unfolding cleanup_temporaries_def by (rule triple_conseq [OF remove_list_triple]) (use ts in blast)+
qed

lemma temp_stable_states:
  "temp_stable p (settled e app H a)" "temp_stable p (committing e app H a h)" "temp_stable p (finishing e app H a h)"
  unfolding temp_stable_def by (auto simp: state_defs has_files_def)

lemma temp_stable_intact:
  assumes sha: "sha256_hex x" and v: "pending_validate x p d = Inr ()" "pending_validate x p' d' = Inr ()" and q: "q \<in> set (pt_parts p')"
    and D: "D \<subseteq> pp_temporary ` set (pt_parts p)"
  shows "(F |` (- D)) (pp_final q) = F (pp_final q)" "intact e p' (F |` (- D)) q \<longleftrightarrow> intact e p' F q"
proof -
  have "pp_final q \<notin> D" using part_paths_separate(1) [OF sha v(2) q v(1)] D by auto
  then show "(F |` (- D)) (pp_final q) = F (pp_final q)" by simp
  then show "intact e p' (F |` (- D)) q \<longleftrightarrow> intact e p' F q" by (simp add: intact_def part_intact_def)
qed

lemma temp_stable_aborting:
  assumes sha: "sha256_hex (e_ext e)" and v: "pending_validate (e_ext e) p d = Inr ()"
  shows "temp_stable p (aborting e app H a h)"
  unfolding temp_stable_def
proof (intro allI impI)
  fix w u D
  assume a: "aborting e app H a h w" and D: "D \<subseteq> pp_temporary ` set (pt_parts p)" and f: "has_files w (w_files w |` (- D)) u"
  have v': "pending_validate (e_ext e) (snd h) (au_descriptor (snd a)) = Inr ()" using a by (simp add: aborting_def validate_predecessor_ok)
  have "rollback_safe e (snd h) (w_files w |` (- D))"
    using a temp_stable_intact [OF sha v v' _ D] by (simp add: aborting_def rollback_safe_def)
  then show "aborting e app H a h u" using a f by (auto simp: state_defs has_files_def)
qed

lemma temp_stable_in_place:
  assumes sha: "sha256_hex (e_ext e)" and v: "pending_validate (e_ext e) p d = Inr ()" "pending_validate (e_ext e) p' d' = Inr ()"
  shows "temp_stable p (in_place e p')"
  unfolding temp_stable_def in_place_def using temp_stable_intact(2) [OF sha v] by (auto simp: has_files_def)

lemma temp_stable_conj: "temp_stable p P \<Longrightarrow> temp_stable p Q \<Longrightarrow> temp_stable p (\<lambda>w. P w \<and> Q w)"
  and temp_stable_disj: "temp_stable p P \<Longrightarrow> temp_stable p Q \<Longrightarrow> temp_stable p (\<lambda>w. P w \<or> Q w)"
  and temp_stable_ex: "(\<And>y. temp_stable p (R y)) \<Longrightarrow> temp_stable p (\<lambda>w. \<exists>y. R y w)"
  and temp_stable_const: "temp_stable p (\<lambda>_. K)"
  unfolding temp_stable_def by blast+

section \<open>The steps of a commit\<close>

lemma mirror_states:
  "settled e app H a w \<Longrightarrow> mirror_shows e (snd a) m \<Longrightarrow> settled e app H a (w\<lparr> w_mirror := m \<rparr>)"
  "finishing e app H a h w \<Longrightarrow> mirror_shows e (snd a) m \<Longrightarrow> finishing e app H a h (w\<lparr> w_mirror := m \<rparr>)"
  by (auto simp: state_defs dest: shows_ok)

lemma writing_aborting:
  assumes "settled e app H a w0" "writing e a w0 S h w" "acyclic_pending (snd h)"
  shows "aborting e app H a h w"
  using assms by (auto simp: state_defs writing_def)

lemma start_triple:
  assumes w: "settled e app H a w" and c: "ct_authority c = a"
    and ac: "\<And>tables p. prepare (e_ext e) (snd a) prefix tables (part_compression_of compression) = Inr p \<Longrightarrow> acyclic_pending p"
  shows "triple (\<lambda>v. v = w) (start_transaction e c prefix batches metadata compression file_metadata)
    (\<lambda>(prepared, h) v. writing e a w {} h v \<and> pf_parts prepared = map (writer_plan (snd h)) (pt_parts (snd h)) \<and>
       pt_prefix (snd h) = prefix \<and> acyclic_pending (snd h))
    (\<lambda>v. settled e app H a v \<or> (\<exists>h. aborting e app H a h v \<and> pt_prefix (snd h) = prefix))"
  unfolding start_transaction_def Let_def c
proof (rule triple_bind_lift, rule triple_bind_lift, rule triple_bind_lift)
  fix tables p prepared
  assume p: "prepare (e_ext e) (snd a) prefix tables (part_compression_of compression) = Inr p"
    and prep: "prepared_new (x_calendar (e_ext e)) batches (map (\<lambda>(table, digest). (table, digest_str digest)) (sd_tables (au_descriptor (snd a))))
      (map (writer_plan p) (pt_parts p)) metadata compression file_metadata = Inr prepared"
  let ?E = "\<lambda>v. settled e app H a v \<or> (\<exists>h. aborting e app H a h v \<and> pt_prefix (snd h) = prefix)"
  note ok = prepare_ok [OF p]
  have slots: "w_state w = Some a" "w_pending w = None" using w by (auto simp: state_defs)
  have parts: "pf_parts prepared = map (writer_plan p) (pt_parts p)" using prep by (auto simp: prepared_new_def bindR_eq_Inr)
  have same: "settled e app H a v" if "upto w v" for v using stableD [OF stable_states(1) w that] .
  have free: "triple (\<lambda>v. v = w) (require_unoccupied e p)
      (\<lambda>_ v. (\<forall>q \<in> set (pt_parts p). w_files w (pp_final q) = None) \<and> upto w v) ?E"
    by (rule triple_conseq [OF reads_unoccupied [of w "w_files w" e p, unfolded reads_def]]) (auto simp: files_upto same)
  have begun: "writing e a w {} h v" if "has_journal w (Some a, Some h) v" "snd h = p" "\<forall>q \<in> set (pt_parts p). w_files w (pp_final q) = None" for h v
    using that ok(1,2) by (simp add: writing_def has_journal_def rollback_safe_def)
  show "triple (\<lambda>v. v = w)
     (bindIO (require_unoccupied e p) (\<lambda>_. bindIO (store_begin e a p) (\<lambda>started. returnIO (prepared, started))))
     (\<lambda>(prepared, h) v. writing e a w {} h v \<and> pf_parts prepared = map (writer_plan (snd h)) (pt_parts (snd h)) \<and>
       pt_prefix (snd h) = prefix \<and> acyclic_pending (snd h)) ?E"
  proof (rule triple_bind [OF free], rule triple_pre_pure)
    assume fr: "\<forall>q \<in> set (pt_parts p). w_files w (pp_final q) = None"
    have store: "triple (upto w) (store_begin e a p) (\<lambda>h v. writing e a w {} h v \<and> snd h = p) ?E"
    proof (rule triple_conseq [OF begin_atomic [of "Some a" a w None e p, unfolded atomically_def]])
      show "has_journal w (Some a, None) v" if "upto w v" for v using that slots journal_upto [of w v] by simp
      show "?E v" if "has_journal w (Some a, None) v \<or> (\<exists>r k. (snd r = p \<and> validate_predecessor (e_ext e) (snd a) p = Inr () \<and>
          fresh_pending p \<and> (Some a, None) = (Some a, None) \<and> k = (Some a, Some r)) \<and> has_journal w k v)" for v
        using that
      proof
        assume "has_journal w (Some a, None) v"
        then show ?thesis using same journal_upto [of w v] slots by simp
      next
        assume "\<exists>r k. (snd r = p \<and> validate_predecessor (e_ext e) (snd a) p = Inr () \<and>
          fresh_pending p \<and> (Some a, None) = (Some a, None) \<and> k = (Some a, Some r)) \<and> has_journal w k v"
        then obtain h where h: "snd h = p" "has_journal w (Some a, Some h) v" by blast
        then show ?thesis using writing_aborting [OF w begun [OF h(2,1) fr]] ac [OF p] ok(3) by blast
      qed
    qed (use begun [OF _ _ fr] in auto)
    show "triple (upto w) (bindIO (store_begin e a p) (\<lambda>started. returnIO (prepared, started)))
     (\<lambda>(prepared, h) v. writing e a w {} h v \<and> pf_parts prepared = map (writer_plan (snd h)) (pt_parts (snd h)) \<and>
       pt_prefix (snd h) = prefix \<and> acyclic_pending (snd h)) ?E"
      by (rule triple_bind [OF store], rule triple_return) (use parts ok(3) ac [OF p] in auto)
  qed
qed (use w in auto)

lemma reads_try:
  assumes "reads w0 F m Q"
  shows "reads w0 F (tryIO m) (\<lambda>r. \<forall>a. r = Inr a \<longrightarrow> Q a)"
  unfolding reads_def
proof (rule triple_conseq [OF triple_try [OF assms [unfolded reads_def], where E' = "has_files w0 F"]])
  show "(\<forall>a. r = Inr a \<longrightarrow> Q a) \<and> has_files w0 F w"
    if "case r of Inl _ \<Rightarrow> has_files w0 F w | Inr a \<Rightarrow> Q a \<and> has_files w0 F w" for r w
    using that by (cases r) simp_all
qed simp_all

lemma reads_map:
  assumes "\<And>a. a \<in> set as \<Longrightarrow> reads w0 F (f a) (R a)"
  shows "reads w0 F (mapIO f as) (list_all2 R as)"
  unfolding reads_def
proof (rule triple_conseq [OF triple_mapIO [where I = "has_files w0 F" and R = R]])
  show "triple (has_files w0 F) (f a) (\<lambda>b w. has_files w0 F w \<and> R a b) (has_files w0 F)" if "a \<in> set as" for a
    by (rule triple_conseq [OF assms [OF that, unfolded reads_def]]) simp_all
qed simp_all

lemma reads_verify_local:
  "reads w0 F (verify_local_finals e p) (\<lambda>_. \<forall>q \<in> set (pt_parts p). intact e p F q)"
proof -
  have one: "reads w0 F (tryIO (bindIO (verify_final e p q) (\<lambda>presence.
      liftR (require (presence = Present) ''committed transaction is missing a required final part''))))
      (\<lambda>r. \<forall>u. r = Inr u \<longrightarrow> intact e p F q)" for q
    by (rule reads_try, rule reads_bind [OF reads_verify_final], rule reads_lift) (auto split: part_presence.splits)
  show ?thesis
    unfolding verify_local_finals_def
  proof (rule reads_bind [OF reads_map [OF one]], rule reads_lift, rule ballI)
    fix results u q
    assume l: "list_all2 (\<lambda>q r. \<forall>u. r = Inr u \<longrightarrow> intact e p F q) (pt_parts p) results" "for_each (\<lambda>r. r) results = Inr u"
      and q: "q \<in> set (pt_parts p)"
    obtain r where r: "r \<in> set results" "\<forall>u. r = Inr u \<longrightarrow> intact e p F q" using list_all2_in_left [OF l(1) q] by blast
    then show "intact e p F q" using l(2) by (simp add: for_each_ok)
  qed
qed

lemma stable_writing: "stable (writing e a w0 S h)"
  unfolding stable_def writing_def upto_iff by auto

lemma publish_and_verify_triple:
  assumes sha: "sha256_hex (e_ext e)" and c: "ct_authority c = a" "fc_inflight_bytes (ct_concurrency c) \<le> u64_max"
    and parts: "pf_parts prepared = map (writer_plan (snd h)) (pt_parts (snd h))"
  shows "triple (writing e a w0 {} h) (publish_and_verify e multi_thread c prepared h)
    (\<lambda>h' w. writing e a w0 {} h' w \<and> extends_journal (snd h) (snd h') \<and> in_place e (snd h') w)
    (\<lambda>w. \<exists>h'. writing e a w0 {} h' w \<and> extends_journal (snd h) (snd h'))"
proof -
  define lane where "lane = (fc_publications (ct_concurrency c) > 1 \<and> multi_thread)"
  let ?job = "\<lparr> pj_authority = ct_authority c, pj_prepared = prepared, pj_limits = ct_concurrency c, pj_lane = lane \<rparr>"
  let ?E = "\<lambda>w. \<exists>h'. writing e a w0 {} h' w \<and> extends_journal (snd h) (snd h')"
  have pub: "triple (writing e a w0 {} h) (publish_parts e ?job h)
      (\<lambda>h' w. extends_journal (snd h) (snd h') \<and> writing e a w0 {} h' w) ?E"
    by (rule triple_conseq [OF publish_parts_outcome [OF sha, of ?job a h w0]])
      (use c parts in \<open>auto simp: job_ok_def writing_def\<close>)
  have ver: "triple (writing e a w0 {} h') (if lane then verify_local_finals e (snd h') else verify_all_finals e (snd h'))
      (\<lambda>_ w. writing e a w0 {} h' w \<and> in_place e (snd h') w) ?E" if "extends_journal (snd h) (snd h')" for h'
  proof -
    have "reads w (w_files w) (if lane then verify_local_finals e (snd h') else verify_all_finals e (snd h')) (\<lambda>_. in_place e (snd h') w)" for w
      unfolding in_place_def using reads_verify_local reads_verify_all by (cases lane) simp_all
    from triple_reads [OF this stable_writing] show ?thesis
    proof (rule triple_conseq)
      show "?E w" if "writing e a w0 {} h' w" for w using that \<open>extends_journal (snd h) (snd h')\<close> by blast
    qed (auto simp: in_place_def upto_iff)
  qed
  have eq: "publish_and_verify e multi_thread c prepared h = bindIO (publish_parts e ?job h) (\<lambda>nxt.
      bindIO (if lane then verify_local_finals e (snd nxt) else verify_all_finals e (snd nxt)) (\<lambda>_. returnIO nxt))"
    unfolding publish_and_verify_def Let_def lane_def by simp
  have rest: "triple (\<lambda>w. extends_journal (snd h) (snd h') \<and> writing e a w0 {} h' w)
      (bindIO (if lane then verify_local_finals e (snd h') else verify_all_finals e (snd h')) (\<lambda>_. returnIO h'))
      (\<lambda>h' w. writing e a w0 {} h' w \<and> extends_journal (snd h) (snd h') \<and> in_place e (snd h') w) ?E" for h'
    by (rule triple_pre_pure, rule triple_bind [OF ver], assumption, rule triple_return) simp
  show ?thesis unfolding eq by (rule triple_bind [OF pub rest])
qed

text \<open>The Committed record, which makes the transaction durable.\<close>

lemma intact_phase: "intact e (p\<lparr> pt_phase := ph \<rparr>) F q = intact e p F q"
  by (simp add: intact_def writer_plan_def)

lemma mark_committed_triple:
  assumes w0: "settled e app H a w0" and ac: "acyclic_pending (snd h)"
  shows "triple (\<lambda>w. writing e a w0 {} h w \<and> in_place e (snd h) w) (store_mark_committed e a h)
    (\<lambda>h' w. committing e app H a h' w \<and> logs_exact app H w \<and> w_logs w = w_logs w0 \<and> in_place e (snd h') w \<and>
       snd h' = (snd h)\<lparr> pt_phase := Committed \<rparr>)
    (\<lambda>w. aborting e app H a h w \<or> (\<exists>h'. committing e app H a h' w \<and> pt_prefix (snd h') = pt_prefix (snd h)))"
proof (rule triple_pointwise, elim conjE)
  fix w
  assume w: "writing e a w0 {} h w" and fin: "in_place e (snd h) w"
  have j: "has_journal w (Some a, Some h) w" using w by (simp add: writing_def has_journal_def)
  have lg: "logs_exact app H w" using w0 w by (simp add: state_defs writing_def)
  have new: "committing e app H a h' v \<and> logs_exact app H v \<and> w_logs v = w_logs w0 \<and> in_place e (snd h') v \<and>
      snd h' = (snd h)\<lparr> pt_phase := Committed \<rparr>"
    if "committed_after_verification (e_ext e) (snd h) (au_descriptor (snd a)) = Inr (snd h')" "has_journal w (Some a, Some h') v" for h' v
  proof -
    note cm = committed_same_plan [OF that(1)]
    have h': "snd h' = (snd h)\<lparr> pt_phase := Committed \<rparr>" using that(1) by (simp add: committed_ok)
    have "validate_predecessor (e_ext e) (snd a) (snd h') = Inr ()"
      by (rule same_plan_predecessor [OF _ cm(1,2)]) (use w in \<open>simp add: writing_def\<close>)
    moreover have "logs_exact app H v" using lg that(2) by (simp add: logs_exact_def has_journal_def)
    moreover have "based e H a v" using w0 w that(2) by (simp add: state_defs writing_def has_journal_def)
    moreover have "in_place e (snd h') v" using fin that(2) by (simp add: in_place_def h' intact_phase has_journal_def)
    ultimately show ?thesis
      using exact_partial [of app H v] cm(3) ac same_plan_acyclic [OF cm(1)] h' w that(2)
      by (simp add: committing_def has_journal_def writing_def)
  qed
  have old: "aborting e app H a h v" if "has_journal w (Some a, Some h) v" for v
  proof -
    have "upto w v" using that j by (simp add: has_journal_def upto_iff)
    then show ?thesis using stableD [OF stable_states(2) writing_aborting [OF w0 w ac]] by blast
  qed
  show "triple (\<lambda>v. v = w) (store_mark_committed e a h)
    (\<lambda>h' w. committing e app H a h' w \<and> logs_exact app H w \<and> w_logs w = w_logs w0 \<and> in_place e (snd h') w \<and>
       snd h' = (snd h)\<lparr> pt_phase := Committed \<rparr>)
    (\<lambda>w. aborting e app H a h w \<or> (\<exists>h'. committing e app H a h' w \<and> pt_prefix (snd h') = pt_prefix (snd h)))"
  proof (rule triple_conseq [OF mark_committed_atomic [of "Some a" a "Some h" h w e, unfolded atomically_def]])
    fix v
    assume "has_journal w (Some a, Some h) v \<or> (\<exists>r k. (committed_after_verification (e_ext e) (snd h) (au_descriptor (snd a)) = Inr (snd r) \<and>
     validate_predecessor (e_ext e) (snd a) (snd h) = Inr () \<and> pt_phase (snd h) = Writing \<and>
     (Some a, Some h) = (Some a, Some h) \<and> k = (Some a, Some r)) \<and> has_journal w k v)"
    then show "aborting e app H a h v \<or> (\<exists>h'. committing e app H a h' v \<and> pt_prefix (snd h') = pt_prefix (snd h))"
    proof
      assume "\<exists>r k. (committed_after_verification (e_ext e) (snd h) (au_descriptor (snd a)) = Inr (snd r) \<and>
        validate_predecessor (e_ext e) (snd a) (snd h) = Inr () \<and> pt_phase (snd h) = Writing \<and>
        (Some a, Some h) = (Some a, Some h) \<and> k = (Some a, Some r)) \<and> has_journal w k v"
      then obtain r where "committed_after_verification (e_ext e) (snd h) (au_descriptor (snd a)) = Inr (snd r)"
        "has_journal w (Some a, Some r) v" by blast
      from new [OF this] show ?thesis by (intro disjI2 exI [of _ r]) simp
    qed (use old in blast)
  qed (use j new in auto)
qed

lemma commit_delta_triple:
  assumes laws: "delta_laws e app" and dt: "ct_delta c = Some dt" "app_id (dt_identity dt) = app"
  shows "triple (\<lambda>w. committing e app H a h w \<and> logs_exact app H w \<and> snapshots_at app H dt UNIV w \<and> in_place e (snd h) w)
    (commit_delta e c (snd h))
    (\<lambda>(commits, delta) w. committing e app H a h w \<and> logs_exact app (extend_ledger app H (snd h)) w \<and> in_place e (snd h) w \<and>
       (\<exists>d. delta = Some d \<and> dt_identity d = dt_identity dt \<and> snapshots_at app (extend_ledger app H (snd h)) d UNIV w))
    (committing e app H a h)"
proof (rule triple_pointwise, elim conjE)
  fix w
  assume w: "committing e app H a h w" "logs_exact app H w" "snapshots_at app H dt UNIV w" "in_place e (snd h) w"
  have v: "pending_validate (e_ext e) (snd h) (au_descriptor (snd a)) = Inr ()" using w(1) by (simp add: committing_def validate_predecessor_ok)
  obtain r w' where run: "delta_commit e dt (snd h) (fc_publications (ct_concurrency c)) w = (r, w')" by fastforce
  note out = delta_commit_outcome [OF laws dt(2) [symmetric] distinct_part_tables [OF v] w(2,3) run]
  obtain out where o: "r = Inr out" "only_logs (pp_table ` set (pt_parts (snd h))) w w'"
    "\<forall>t. own app (w_logs w' t) = H t \<and> set (w_inflight w' t) \<subseteq> set (journal_commits app (snd h) t) \<or>
        own app (w_logs w' t) = H t @ journal_commits app (snd h) t \<and> w_inflight w' t = []"
    "case out of
        Inr cs \<Rightarrow> logs_exact app (\<lambda>t. H t @ journal_commits app (snd h) t) w' \<and> tc_table ` set cs = pp_table ` set (pt_parts (snd h)) \<and>
          (\<forall>c\<in>set cs. tc_version c = length (w_logs w' (tc_table c)))
      | Inl f \<Rightarrow> \<not> cf_unresolved f \<longrightarrow> (\<forall>t. w_inflight w' t = [])"
    using out by blast
  have com: "committing e app H a h w'"
    using w(1) o(2,3) by (simp add: committing_def based_def only_logs_def logs_partial_def table_partial_def)
  have inp: "in_place e (snd h) w'" using w(4) o(2) by (simp add: in_place_def only_logs_def)
  show "triple (\<lambda>v. v = w) (commit_delta e c (snd h))
    (\<lambda>(commits, delta) w. committing e app H a h w \<and> logs_exact app (extend_ledger app H (snd h)) w \<and> in_place e (snd h) w \<and>
       (\<exists>d. delta = Some d \<and> dt_identity d = dt_identity dt \<and> snapshots_at app (extend_ledger app H (snd h)) d UNIV w))
    (committing e app H a h)"
  proof (cases out)
    case (Inl f)
    then have "commit_delta e c (snd h) w = (Inl (unresolved_note f), w')"
      using run o(1) by (simp add: commit_delta_def dt(1) bindIO_eq failIO_def)
    then show ?thesis using com by (simp add: triple_def)
  next
    case (Inr cs)
    have ex: "logs_exact app (extend_ledger app H (snd h)) w'" "tc_table ` set cs = pp_table ` set (pt_parts (snd h))"
      "\<forall>c\<in>set cs. tc_version c = length (w_logs w' (tc_table c))"
      using o(4) Inr by (simp_all add: extend_ledger_def)
    have "snapshots_at app (extend_ledger app H (snd h)) (advance_tables dt cs) UNIV w'"
    proof (rule advance_snapshots)
      show "\<forall>c\<in>set cs. tc_version c = length (w_logs w' (tc_table c)) \<and> own app (w_logs w' (tc_table c)) = extend_ledger app H (snd h) (tc_table c)"
        using ex(1,3) by (simp add: logs_exact_def)
      have "extend_ledger app H (snd h) t = H t \<and> w_logs w' t = w_logs w t" if "t \<in> - tc_table ` set cs" for t
        using that o(2) journal_commits_other [of t "snd h" app] by (simp add: ex(2) extend_ledger_def only_logs_def)
      then show "snapshots_at app (extend_ledger app H (snd h)) dt (- tc_table ` set cs) w'" using w(3) by (simp add: snapshots_at_def)
    qed
    then have P: "committing e app H a h w' \<and> logs_exact app (extend_ledger app H (snd h)) w' \<and> in_place e (snd h) w' \<and>
       (\<exists>d. Some (advance_tables dt cs) = Some d \<and> dt_identity d = dt_identity dt \<and> snapshots_at app (extend_ledger app H (snd h)) d UNIV w')"
      using com ex inp by (simp add: advance_tables_def)
    have eq: "commit_delta e c (snd h) w = bindIO (crash_point e) (\<lambda>_. returnIO (cs, Some (advance_tables dt cs))) w'"
      using run o(1) Inr by (simp add: commit_delta_def dt(1) bindIO_eq)
    have "triple (\<lambda>v. upto w' v) (crash_point e) (\<lambda>_ v. upto w' v) (committing e app H a h)"
      by (rule triple_conseq [OF triple_crash [of "upto w'"]])
        (use stableD [OF stable_states(3) com] in \<open>auto simp: stable_def upto_iff\<close>)
    then have "triple (\<lambda>v. v = w') (bindIO (crash_point e) (\<lambda>_. returnIO (cs, Some (advance_tables dt cs))))
       (\<lambda>r v. r = (cs, Some (advance_tables dt cs)) \<and> upto w' v) (committing e app H a h)"
      by (rule triple_conseq [OF triple_bind]) auto
    from tripleD [OF this refl] show ?thesis using P eq stableD [OF stable_states(3) com]
      by (auto simp: triple_def upto_iff logs_exact_def in_place_def snapshots_at_def split: sum.splits prod.splits)
  qed
qed

text \<open>What is known once the transaction is in all logs.\<close>

definition everywhere :: "env \<Rightarrow> string \<Rightarrow> ledger \<Rightarrow> bool \<Rightarrow> pending_transaction \<Rightarrow> delta_tables option \<Rightarrow> world \<Rightarrow> bool" where
  "everywhere e app H K p delta w \<longleftrightarrow> (K \<longrightarrow> in_place e p w) \<and> (\<forall>d. delta = Some d \<longrightarrow> snapshots_at app H d UNIV w)"

lemma everywhere_journal: "everywhere e app H K p delta w \<Longrightarrow> has_journal w j w' \<Longrightarrow> everywhere e app H K p delta w'"
  by (simp add: everywhere_def in_place_def snapshots_at_def has_journal_def)

lemma stable_everywhere: "stable (everywhere e app H K p delta)"
  unfolding stable_def everywhere_def in_place_def snapshots_at_def upto_iff by auto

lemma stable_conj: "stable P \<Longrightarrow> stable Q \<Longrightarrow> stable (\<lambda>w. P w \<and> Q w)"
  unfolding stable_def by blast

lemma temp_stable_everywhere:
  assumes sha: "sha256_hex (e_ext e)" and v: "pending_validate (e_ext e) p d = Inr ()"
  shows "temp_stable p (everywhere e app H K p delta)"
  using temp_stable_in_place [OF sha v v] unfolding temp_stable_def everywhere_def snapshots_at_def
  by (auto simp: has_files_def)

text \<open>The same with a mirror that shows the authority.\<close>

definition closing ::
  "env \<Rightarrow> string \<Rightarrow> ledger \<Rightarrow> bool \<Rightarrow> authority_state versioned \<Rightarrow> pending_transaction \<Rightarrow> delta_tables option \<Rightarrow> world \<Rightarrow> bool" where
  "closing e app H K b p delta w \<longleftrightarrow> everywhere e app H K p delta w \<and> mirror_current e (snd b) (w_mirror w)"

lemma closing_journal: "closing e app H K b p delta w \<Longrightarrow> has_journal w j w' \<Longrightarrow> closing e app H K b p delta w'"
  by (auto simp: closing_def elim: everywhere_journal) (simp add: has_journal_def)

lemma stable_closing: "stable (closing e app H K b p delta)"
  using stable_everywhere [of e app H K p delta] unfolding stable_def closing_def by (auto simp: upto_iff)

lemma advance_triple:
  "triple (\<lambda>w. committing e app H a h w \<and> logs_exact app (extend_ledger app H (snd h)) w \<and> everywhere e app H' K (snd h) delta w)
    (store_advance e a h)
    (\<lambda>b w. finishing e app (extend_ledger app H (snd h)) b h w \<and> install (e_ext e) (snd a) (snd h) = Inr (snd b) \<and>
       everywhere e app H' K (snd h) delta w)
    (\<lambda>w. committing e app H a h w \<or>
       (\<exists>b. finishing e app (extend_ledger app H (snd h)) b h w \<and> install (e_ext e) (snd a) (snd h) = Inr (snd b)))"
proof (rule triple_pointwise, elim conjE)
  fix w
  assume w: "committing e app H a h w" "logs_exact app (extend_ledger app H (snd h)) w" "everywhere e app H' K (snd h) delta w"
  have j: "has_journal w (Some a, Some h) w" using w(1) by (simp add: state_defs has_journal_def)
  have old: "committing e app H a h v" if "has_journal w (Some a, Some h) v" for v
  proof -
    have "upto w v" using that j by (simp add: has_journal_def upto_iff)
    then show ?thesis using stableD [OF stable_states(3) w(1)] by blast
  qed
  note new = advanced_state [OF w(1,2)] and ev = everywhere_journal [OF w(3)]
  show "triple (\<lambda>v. v = w) (store_advance e a h)
    (\<lambda>b w. finishing e app (extend_ledger app H (snd h)) b h w \<and> install (e_ext e) (snd a) (snd h) = Inr (snd b) \<and>
       everywhere e app H' K (snd h) delta w)
    (\<lambda>w. committing e app H a h w \<or>
       (\<exists>b. finishing e app (extend_ledger app H (snd h)) b h w \<and> install (e_ext e) (snd a) (snd h) = Inr (snd b)))"
  proof (rule triple_conseq [OF advance_atomic [of "Some a" a "Some h" h w e, unfolded atomically_def]])
    fix v
    assume "has_journal w (Some a, Some h) v \<or> (\<exists>r k. (install (e_ext e) (snd a) (snd h) = Inr (snd r) \<and>
      (Some a, Some h) = (Some a, Some h) \<and> k = (Some r, Some h)) \<and> has_journal w k v)"
    then show "committing e app H a h v \<or>
       (\<exists>b. finishing e app (extend_ledger app H (snd h)) b h v \<and> install (e_ext e) (snd a) (snd h) = Inr (snd b))"
    proof
      assume "\<exists>r k. (install (e_ext e) (snd a) (snd h) = Inr (snd r) \<and>
        (Some a, Some h) = (Some a, Some h) \<and> k = (Some r, Some h)) \<and> has_journal w k v"
      then obtain r where r: "install (e_ext e) (snd a) (snd h) = Inr (snd r)" "has_journal w (Some r, Some h) v" by blast
      from new [OF this] r(1) show ?thesis by blast
    qed (use old in blast)
  qed (use j new ev in auto)
qed

lemma clear_triple:
  "triple (\<lambda>w. finishing e app H b h w \<and> closing e app H' K b p delta w) (store_clear e b h)
    (\<lambda>_ w. settled e app H b w \<and> closing e app H' K b p delta w) (\<lambda>w. finishing e app H b h w \<or> settled e app H b w)"
proof (rule triple_pointwise, elim conjE)
  fix w
  assume w: "finishing e app H b h w" "closing e app H' K b p delta w"
  have j: "has_journal w (Some b, Some h) w" using w(1) by (simp add: state_defs has_journal_def)
  have old: "finishing e app H b h v" if "has_journal w (Some b, Some h) v" for v
  proof -
    have "upto w v" using that j by (simp add: has_journal_def upto_iff)
    then show ?thesis using stableD [OF stable_states(4) w(1)] by blast
  qed
  have new: "settled e app H b v" if "has_journal w (Some b, None) v" for v
    using w(1) that by (auto simp: state_defs has_journal_def)
  show "triple (\<lambda>v. v = w) (store_clear e b h)
    (\<lambda>_ w. settled e app H b w \<and> closing e app H' K b p delta w) (\<lambda>w. finishing e app H b h w \<or> settled e app H b w)"
    by (rule triple_conseq [OF clear_atomic [of "Some b" b "Some h" h w e, unfolded atomically_def]])
      (use j old new closing_journal [OF w(2)] in auto)
qed

lemma mirror_everywhere: "everywhere e app H K p delta w \<Longrightarrow> everywhere e app H K p delta (w\<lparr> w_mirror := m \<rparr>)"
  by (simp add: everywhere_def in_place_def snapshots_at_def)

text \<open>From the advanced authority to the cleared journal.\<close>

lemma reconcile_finishing:
  assumes "mirror_law e reconcile"
  shows "triple (\<lambda>w. finishing e app H b h w \<and> everywhere e app H' K p delta w) (reconcile (snd b))
    (\<lambda>_ w. finishing e app H b h w \<and> closing e app H' K b p delta w) (\<lambda>w. finishing e app H b h w \<and> everywhere e app H' K p delta w)"
  by (rule triple_conseq [OF mirror_law.reconcile_triple [OF assms stable_conj [OF stable_states(4) [of e app H b h] stable_everywhere [of e app H' K p delta]]]])
    (use mirror_states(2) mirror_everywhere in \<open>auto simp: closing_def\<close>)

lemma cleanup_finishing:
  assumes sha: "sha256_hex (e_ext e)"
  shows "triple (\<lambda>w. finishing e app H b h w \<and> closing e app H' K b (snd h) delta w) (cleanup_temporaries e (snd h))
    (\<lambda>_ w. finishing e app H b h w \<and> closing e app H' K b (snd h) delta w) (\<lambda>w. finishing e app H b h w \<and> closing e app H' K b (snd h) delta w)"
proof (rule cleanup_triple, unfold temp_stable_def, intro allI impI)
  let ?P = "\<lambda>w. finishing e app H b h w \<and> closing e app H' K b (snd h) delta w"
  fix w v D
  assume P: "?P w" and D: "D \<subseteq> pp_temporary ` set (pt_parts (snd h))" "has_files w (w_files w |` (- D)) v"
  have "pending_validate (e_ext e) (snd h) (au_descriptor (snd b)) = Inr ()" using P by (simp add: finishing_def)
  moreover have "w_mirror v = w_mirror w" using D(2) by (simp add: has_files_def)
  ultimately show "?P v" using P D temp_stable_states(3) [of "snd h" e app H b h] temp_stable_everywhere [OF sha, of "snd h" _ app H' K delta]
    unfolding temp_stable_def closing_def by metis
qed

lemma settle_triple:
  assumes sha: "sha256_hex (e_ext e)" and m: "mirror_law e reconcile" and b: "ct_authority c = b"
  shows "triple (\<lambda>w. finishing e app H b h w \<and> everywhere e app H K (snd h) delta w) (finish_transaction e reconcile c h)
    (\<lambda>_ w. settled e app H b w \<and> closing e app H K b (snd h) delta w) (\<lambda>w. finishing e app H b h w \<or> settled e app H b w)"
proof -
  have st: "stable (\<lambda>w. finishing e app H b h w \<and> everywhere e app H K (snd h) delta w)"
    "stable (\<lambda>w. finishing e app H b h w \<and> closing e app H K b (snd h) delta w)"
    "stable (\<lambda>w. settled e app H b w \<and> closing e app H K b (snd h) delta w)"
    by (intro stable_conj stable_states stable_everywhere stable_closing)+
  show ?thesis unfolding finish_transaction_def b
    by (rule triple_seq [OF triple_crash [OF st(1)]], blast, rule triple_seq [OF reconcile_finishing [OF m]], blast,
        rule triple_seq [OF triple_crash [OF st(2)]], blast, rule triple_seq [OF cleanup_finishing [OF sha]], blast,
        rule triple_seq [OF clear_triple], assumption, rule triple_conseq [OF triple_crash [OF st(3)]]) auto
qed

section \<open>A commit\<close>

text \<open>What a commit of a prefix leaves: no trace of it, an open transaction, or all of it.\<close>

definition applied :: "env \<Rightarrow> string \<Rightarrow> ledger \<Rightarrow> authority_state versioned \<Rightarrow> accepted_prefix \<Rightarrow> pending_transaction versioned \<Rightarrow>
    authority_state versioned \<Rightarrow> bool" where
  "applied e app H a prefix h b \<longleftrightarrow> pt_prefix (snd h) = prefix \<and> install (e_ext e) (snd a) (snd h) = Inr (snd b)"

definition left_by :: "env \<Rightarrow> string \<Rightarrow> ledger \<Rightarrow> authority_state versioned \<Rightarrow> accepted_prefix \<Rightarrow> world \<Rightarrow> bool" where
  "left_by e app H a prefix w \<longleftrightarrow> settled e app H a w \<or>
     (\<exists>h. pt_prefix (snd h) = prefix \<and> (aborting e app H a h w \<or> committing e app H a h w)) \<or>
     (\<exists>h b. applied e app H a prefix h b \<and>
        (finishing e app (extend_ledger app H (snd h)) b h w \<or> settled e app (extend_ledger app H (snd h)) b w))"

lemma commit_until_advance_triple:
  assumes sha: "sha256_hex (e_ext e)" and laws: "delta_laws e app"
    and c: "ct_authority c = a" "fc_inflight_bytes (ct_concurrency c) \<le> u64_max" "ct_delta c = Some dt" "app_id (dt_identity dt) = app"
    and w0: "settled e app H a w0" "snapshots_at app H dt UNIV w0"
    and h0: "pf_parts prepared = map (writer_plan (snd h0)) (pt_parts (snd h0))" "pt_prefix (snd h0) = prefix" "acyclic_pending (snd h0)"
  shows "triple (writing e a w0 {} h0) (commit_until_advance e multi_thread c prepared h0)
    (\<lambda>(h, commits, c') w. finishing e app (extend_ledger app H (snd h)) (ct_authority c') h w \<and> applied e app H a prefix h (ct_authority c') \<and>
       everywhere e app (extend_ledger app H (snd h)) True (snd h) (ct_delta c') w \<and>
       (\<exists>d. ct_delta c' = Some d \<and> dt_identity d = dt_identity dt) \<and> ct_concurrency c' = ct_concurrency c \<and> ct_failed c' = ct_failed c)
    (left_by e app H a prefix)" (is "triple ?P ?m ?Q ?E")
proof -
  have ext: "acyclic_pending (snd h1)" "pt_prefix (snd h1) = prefix" if "extends_journal (snd h0) (snd h1)" for h1
    using that h0(2,3) same_plan_acyclic [of "snd h0" "snd h1"] same_plan_fields(4) [of "snd h0" "snd h1"] by (auto simp: extends_journal_def)
  have ab: "?E w" if "writing e a w0 {} h1 w" "extends_journal (snd h0) (snd h1)" for h1 w
    using writing_aborting [OF w0(1) that(1) ext(1) [OF that(2)]] ext(2) [OF that(2)] unfolding left_by_def by blast
  have cm: "?E w" if "committing e app H a h w" "pt_prefix (snd h) = prefix" for h w using that unfolding left_by_def by blast
  have s1: "triple ?P (crash_point e) (\<lambda>_. ?P) ?E"
    by (rule triple_conseq [OF triple_crash [OF stable_writing]]) (use ab extends_refl in blast)+
  have s2: "triple ?P (publish_and_verify e multi_thread c prepared h0)
      (\<lambda>h1 w. extends_journal (snd h0) (snd h1) \<and> (writing e a w0 {} h1 w \<and> in_place e (snd h1) w)) ?E"
    by (rule triple_conseq [OF publish_and_verify_triple [OF sha c(1,2) h0(1)]]) (use ab in blast)+
  let ?C = "\<lambda>h w. committing e app H a h w \<and> logs_exact app H w \<and> snapshots_at app H dt UNIV w \<and> in_place e (snd h) w"
  have s3: "triple (\<lambda>w. writing e a w0 {} h1 w \<and> in_place e (snd h1) w) (store_mark_committed e a h1)
      (\<lambda>h w. pt_prefix (snd h) = prefix \<and> ?C h w) ?E" if ex: "extends_journal (snd h0) (snd h1)" for h1
  proof (rule triple_conseq [OF mark_committed_triple [OF w0(1) ext(1) [OF ex]]])
    show "?E w" if "aborting e app H a h1 w \<or> (\<exists>h'. committing e app H a h' w \<and> pt_prefix (snd h') = pt_prefix (snd h1))" for w
      using that ext(2) [OF ex] unfolding left_by_def by (elim disjE) (blast, auto)
  qed (use w0(2) ext(2) [OF ex] in \<open>auto simp: snapshots_at_def\<close>)
  have s4: "triple (?C h) (crash_point e) (\<lambda>_. ?C h) ?E" if "pt_prefix (snd h) = prefix" for h
  proof (rule triple_conseq [OF triple_crash])
    show "stable (?C h)"
      by (intro stable_conj stable_states) (auto simp: stable_def logs_exact_def snapshots_at_def in_place_def upto_iff)
  qed (use cm [of h] that in auto)
  let ?D = "\<lambda>h cd w. committing e app H a h w \<and> logs_exact app (extend_ledger app H (snd h)) w \<and>
      everywhere e app (extend_ledger app H (snd h)) True (snd h) (snd cd) w \<and> (\<exists>d. snd cd = Some d \<and> dt_identity d = dt_identity dt)"
  have s5: "triple (?C h) (commit_delta e c (snd h)) (?D h) ?E" if "pt_prefix (snd h) = prefix" for h
    by (rule triple_conseq [OF commit_delta_triple [OF laws c(3,4)]]) (use cm [of h] that in \<open>auto simp: everywhere_def\<close>)
  have s6: "triple (?D h cd) (bindIO (store_advance e a h) (\<lambda>authority.
      returnIO (h, fst cd, c\<lparr> ct_authority := authority, ct_delta := snd cd \<rparr>))) ?Q ?E" if pre: "pt_prefix (snd h) = prefix" for h cd
  proof (rule triple_seq)
    show "triple (?D h cd) (store_advance e a h)
        (\<lambda>b w. (\<exists>d. snd cd = Some d \<and> dt_identity d = dt_identity dt) \<and> finishing e app (extend_ledger app H (snd h)) b h w \<and>
          install (e_ext e) (snd a) (snd h) = Inr (snd b) \<and> everywhere e app (extend_ledger app H (snd h)) True (snd h) (snd cd) w) ?E"
    proof (cases "\<exists>d. snd cd = Some d \<and> dt_identity d = dt_identity dt")
      case True
      show ?thesis
      proof (rule triple_conseq [OF advance_triple [of e app H a h "extend_ledger app H (snd h)" True "snd cd"]])
        show "?E w" if "committing e app H a h w \<or>
            (\<exists>b. finishing e app (extend_ledger app H (snd h)) b h w \<and> install (e_ext e) (snd a) (snd h) = Inr (snd b))" for w
          using that pre unfolding left_by_def applied_def by blast
      qed (use True in auto)
    qed (auto simp: triple_def)
    show "triple (\<lambda>w. (\<exists>d. snd cd = Some d \<and> dt_identity d = dt_identity dt) \<and> finishing e app (extend_ledger app H (snd h)) b h w \<and>
          install (e_ext e) (snd a) (snd h) = Inr (snd b) \<and> everywhere e app (extend_ledger app H (snd h)) True (snd h) (snd cd) w)
        (returnIO (h, fst cd, c\<lparr> ct_authority := b, ct_delta := snd cd \<rparr>)) ?Q ?E" for b
      by (rule triple_return) (use pre in \<open>simp add: applied_def\<close>)
  qed
  show ?thesis unfolding commit_until_advance_def c(1) case_prod_beta [of _ "_::table_commit list \<times> delta_tables option"]
    by (rule triple_bind [OF s1], rule triple_bind [OF s2], rule triple_pre_pure, rule triple_bind [OF s3], assumption,
        rule triple_pre_pure, rule triple_bind [OF s4], assumption, rule triple_bind [OF s5], assumption, rule s6)
qed

lemma left_by_cleanup:
  assumes sha: "sha256_hex (e_ext e)" and v: "pending_validate (e_ext e) p d = Inr ()"
  shows "temp_stable p (left_by e app H a prefix)"
  unfolding left_by_def
  by (intro temp_stable_disj temp_stable_ex temp_stable_conj temp_stable_const temp_stable_states temp_stable_aborting [OF sha v])

text \<open>The controller that comes out of a commit.\<close>

definition ready_for :: "env \<Rightarrow> string \<Rightarrow> ledger \<Rightarrow> controller \<Rightarrow> delta_tables \<Rightarrow> world \<Rightarrow> bool" where
  "ready_for e app H c dt w \<longleftrightarrow> \<not> ct_failed c \<and> fc_inflight_bytes (ct_concurrency c) \<le> u64_max \<and> ct_delta c = Some dt \<and>
     app_id (dt_identity dt) = app \<and> snapshots_at app H dt UNIV w \<and> mirror_current e (snd (ct_authority c)) (w_mirror w)"

definition commit_end ::
  "env \<Rightarrow> string \<Rightarrow> ledger \<Rightarrow> authority_state versioned \<Rightarrow> accepted_prefix \<Rightarrow> committed_flush result \<times> controller \<Rightarrow> world \<Rightarrow> bool" where
  "commit_end e app H a prefix rc w \<longleftrightarrow>
     (case fst rc of
        Inl _ \<Rightarrow> ct_failed (snd rc) \<and> left_by e app H a prefix w
      | Inr flush \<Rightarrow> (\<exists>h dt. applied e app H a prefix h (ct_authority (snd rc)) \<and>
          settled e app (extend_ledger app H (snd h)) (ct_authority (snd rc)) w \<and> in_place e (snd h) w \<and>
          ready_for e app (extend_ledger app H (snd h)) (snd rc) dt w \<and>
          committed_flush_of (snd rc) (snd h) (fl_delta flush) = Inr flush))"

lemma publish_and_commit_triple:
  assumes sha: "sha256_hex (e_ext e)" and laws: "delta_laws e app" and m: "mirror_law e reconcile"
    and c: "ct_authority c = a" "fc_inflight_bytes (ct_concurrency c) \<le> u64_max" "ct_delta c = Some dt" "app_id (dt_identity dt) = app"
    and w0: "settled e app H a w0" "snapshots_at app H dt UNIV w0"
    and h0: "pf_parts prepared = map (writer_plan (snd h0)) (pt_parts (snd h0))" "pt_prefix (snd h0) = prefix" "acyclic_pending (snd h0)"
  shows "triple (writing e a w0 {} h0) (publish_and_commit e reconcile multi_thread prepared h0 c)
    (\<lambda>(outcome, c') w. case outcome of
        Inl _ \<Rightarrow> left_by e app H a prefix w \<and> ct_failed c' = ct_failed c
      | Inr (h, commits) \<Rightarrow> applied e app H a prefix h (ct_authority c') \<and> settled e app (extend_ledger app H (snd h)) (ct_authority c') w \<and>
          closing e app (extend_ledger app H (snd h)) True (ct_authority c') (snd h) (ct_delta c') w \<and>
          (\<exists>d. ct_delta c' = Some d \<and> dt_identity d = dt_identity dt) \<and> ct_concurrency c' = ct_concurrency c \<and> ct_failed c' = ct_failed c)
    (\<lambda>_. False)"
  unfolding publish_and_commit_def
proof (rule triple_bind_try [OF commit_until_advance_triple [OF sha laws c w0 h0]]; unfold sum.case)
  let ?Q = "\<lambda>(outcome, c') w. case outcome of
        Inl _ \<Rightarrow> left_by e app H a prefix w \<and> ct_failed c' = ct_failed c
      | Inr (h, commits) \<Rightarrow> applied e app H a prefix h (ct_authority c') \<and> settled e app (extend_ledger app H (snd h)) (ct_authority c') w \<and>
          closing e app (extend_ledger app H (snd h)) True (ct_authority c') (snd h) (ct_delta c') w \<and>
          (\<exists>d. ct_delta c' = Some d \<and> dt_identity d = dt_identity dt) \<and> ct_concurrency c' = ct_concurrency c \<and> ct_failed c' = ct_failed c"
  show "triple (left_by e app H a prefix) (returnIO (Inl err, c)) ?Q (\<lambda>_. False)" for err by (rule triple_return) simp
  fix r :: "pending_transaction versioned \<times> table_commit list \<times> controller"
  obtain h commits c' where r: "r = (h, commits, c')" by (cases r)
  let ?K = "applied e app H a prefix h (ct_authority c') \<and> (\<exists>d. ct_delta c' = Some d \<and> dt_identity d = dt_identity dt) \<and>
      ct_concurrency c' = ct_concurrency c \<and> ct_failed c' = ct_failed c"
  let ?P = "\<lambda>w. finishing e app (extend_ledger app H (snd h)) (ct_authority c') h w \<and> everywhere e app (extend_ledger app H (snd h)) True (snd h) (ct_delta c') w"
  have "triple ?P (bindIO (tryIO (finish_transaction e reconcile c' h)) (\<lambda>finished.
         returnIO (case finished of Inl err \<Rightarrow> Inl err | Inr _ \<Rightarrow> Inr (h, commits), c'))) ?Q (\<lambda>_. False)" if K: ?K
  proof (rule triple_bind_try [OF settle_triple [OF sha m refl]]; unfold sum.case)
    show "triple (\<lambda>w. settled e app (extend_ledger app H (snd h)) (ct_authority c') w \<and> closing e app (extend_ledger app H (snd h)) True (ct_authority c') (snd h) (ct_delta c') w)
        (returnIO (Inr (h, commits), c')) ?Q (\<lambda>_. False)"
      by (rule triple_return) (use K in simp)
    show "triple (\<lambda>w. finishing e app (extend_ledger app H (snd h)) (ct_authority c') h w \<or> settled e app (extend_ledger app H (snd h)) (ct_authority c') w)
        (returnIO (Inl err, c')) ?Q (\<lambda>_. False)" for err
    proof (rule triple_return)
      fix w
      assume "finishing e app (extend_ledger app H (snd h)) (ct_authority c') h w \<or> settled e app (extend_ledger app H (snd h)) (ct_authority c') w"
      then have "left_by e app H a prefix w" using K unfolding left_by_def by blast
      then show "?Q (Inl err, c') w" using K by simp
    qed
  qed
  then show "triple (case r of (h, commits, c') \<Rightarrow> \<lambda>w. finishing e app (extend_ledger app H (snd h)) (ct_authority c') h w \<and> applied e app H a prefix h (ct_authority c') \<and>
       everywhere e app (extend_ledger app H (snd h)) True (snd h) (ct_delta c') w \<and>
       (\<exists>d. ct_delta c' = Some d \<and> dt_identity d = dt_identity dt) \<and> ct_concurrency c' = ct_concurrency c \<and> ct_failed c' = ct_failed c)
      (case r of (pending, commits, c') \<Rightarrow> bindIO (tryIO (finish_transaction e reconcile c' pending)) (\<lambda>finished.
         returnIO (case finished of Inl err \<Rightarrow> Inl err | Inr _ \<Rightarrow> Inr (pending, commits), c'))) ?Q (\<lambda>_. False)"
    unfolding r prod.case by (auto simp: triple_def)
qed

lemma commit_triple:
  assumes sha: "sha256_hex (e_ext e)" and laws: "delta_laws e app" and m: "mirror_law e reconcile"
    and w: "settled e app H a w" and c: "ct_authority c = a" "ready_for e app H c dt w"
    and ac: "\<And>tables p. prepare (e_ext e) (snd a) prefix tables (part_compression_of compression) = Inr p \<Longrightarrow> acyclic_pending p"
  shows "triple (\<lambda>v. v = w) (controller_commit e reconcile multi_thread c prefix batches metadata compression file_metadata)
    (commit_end e app H a prefix) (\<lambda>_. False)"
proof -
  let ?c = "c\<lparr> ct_failed := True \<rparr>"
  have c1: "ct_authority ?c = a" "fc_inflight_bytes (ct_concurrency ?c) \<le> u64_max" "ct_delta ?c = Some dt" "app_id (dt_identity dt) = app"
    and snap: "snapshots_at app H dt UNIV w" and nf: "\<not> ct_failed c"
    using c by (simp_all add: ready_for_def)
  have start: "triple (\<lambda>v. v = w) (start_transaction e ?c prefix batches metadata compression file_metadata)
    (\<lambda>(prepared, h) v. writing e a w {} h v \<and> pf_parts prepared = map (writer_plan (snd h)) (pt_parts (snd h)) \<and>
       pt_prefix (snd h) = prefix \<and> acyclic_pending (snd h))
    (\<lambda>v. settled e app H a v \<or> (\<exists>h. aborting e app H a h v \<and> pt_prefix (snd h) = prefix))"
    by (rule start_triple [OF w c1(1)]) (erule ac)
  show ?thesis
    unfolding controller_commit_def Let_def if_not_P [OF nf]
  proof (rule triple_bind_try [OF start]; unfold sum.case)
    show "triple (\<lambda>v. settled e app H a v \<or> (\<exists>h. aborting e app H a h v \<and> pt_prefix (snd h) = prefix))
       (returnIO (Inl err, ?c)) (commit_end e app H a prefix) (\<lambda>_. False)" for err
    proof (rule triple_return)
      fix v
      assume "settled e app H a v \<or> (\<exists>h. aborting e app H a h v \<and> pt_prefix (snd h) = prefix)"
      then have "left_by e app H a prefix v" unfolding left_by_def by blast
      then show "commit_end e app H a prefix (Inl err, ?c) v" by (simp add: commit_end_def)
    qed
    fix started :: "prepared_flush \<times> pending_transaction versioned"
    obtain prepared h where st: "started = (prepared, h)" by (cases started)
    let ?next = "bindIO (publish_and_commit e reconcile multi_thread prepared h ?c) (\<lambda>(outcome, c2).
            case outcome of
              Inl err \<Rightarrow> bindIO (tryIO (cleanup_temporaries e (snd h))) (\<lambda>_. returnIO (Inl err, c2))
            | Inr (done_pending, commits) \<Rightarrow>
                (case committed_flush_of c2 (snd done_pending) commits of
                   Inl err \<Rightarrow> returnIO (Inl err, c2)
                 | Inr flush \<Rightarrow> returnIO (Inr flush, c2\<lparr> ct_failed := False \<rparr>)))"
    have "triple (writing e a w {} h) ?next (commit_end e app H a prefix) (\<lambda>_. False)"
      if h: "pf_parts prepared = map (writer_plan (snd h)) (pt_parts (snd h))" "pt_prefix (snd h) = prefix" "acyclic_pending (snd h)"
    proof (rule triple_pointwise)
      fix v
      assume v: "writing e a w {} h v"
      have pv: "pending_validate (e_ext e) (snd h) (au_descriptor (snd a)) = Inr ()" using v by (rule writing_valid)
      show "triple (\<lambda>u. u = v) ?next (commit_end e app H a prefix) (\<lambda>_. False)"
      proof (rule triple_conseq [OF triple_bind [OF publish_and_commit_triple [OF sha laws m c1 w snap h]]])
        fix oc :: "(pending_transaction versioned \<times> table_commit list) result \<times> controller"
        obtain outcome c2 where oc: "oc = (outcome, c2)" by (cases oc)
        show "triple (case oc of (outcome, c') \<Rightarrow> \<lambda>w. case outcome of
              Inl _ \<Rightarrow> left_by e app H a prefix w \<and> ct_failed c' = ct_failed ?c
            | Inr (h, commits) \<Rightarrow> applied e app H a prefix h (ct_authority c') \<and> settled e app (extend_ledger app H (snd h)) (ct_authority c') w \<and>
                closing e app (extend_ledger app H (snd h)) True (ct_authority c') (snd h) (ct_delta c') w \<and>
                (\<exists>d. ct_delta c' = Some d \<and> dt_identity d = dt_identity dt) \<and> ct_concurrency c' = ct_concurrency ?c \<and> ct_failed c' = ct_failed ?c)
          (case oc of (outcome, c2) \<Rightarrow> case outcome of
              Inl err \<Rightarrow> bindIO (tryIO (cleanup_temporaries e (snd h))) (\<lambda>_. returnIO (Inl err, c2))
            | Inr (done_pending, commits) \<Rightarrow>
                (case committed_flush_of c2 (snd done_pending) commits of
                   Inl err \<Rightarrow> returnIO (Inl err, c2)
                 | Inr flush \<Rightarrow> returnIO (Inr flush, c2\<lparr> ct_failed := False \<rparr>)))
          (commit_end e app H a prefix) (\<lambda>_. False)"
        proof (cases outcome)
          case (Inl err)
          note cl = cleanup_triple [OF left_by_cleanup [OF sha pv, of app H a prefix], of e]
          have "triple (left_by e app H a prefix) (bindIO (tryIO (cleanup_temporaries e (snd h))) (\<lambda>_. returnIO (Inl err, c2)))
              (commit_end e app H a prefix) (\<lambda>_. False)" if "ct_failed c2"
            by (rule triple_bind_try [OF cl]; rule triple_return) (use that in \<open>simp_all add: commit_end_def\<close>)
          then show ?thesis unfolding oc Inl by (auto simp: triple_def)
        next
          case (Inr hc)
          obtain h' commits where hc: "hc = (h', commits)" by (cases hc)
          let ?H = "extend_ledger app H (snd h')"
          have last: "triple (\<lambda>w. settled e app ?H (ct_authority c2) w \<and> closing e app ?H True (ct_authority c2) (snd h') (ct_delta c2) w)
              (case committed_flush_of c2 (snd h') commits of
                 Inl err \<Rightarrow> returnIO (Inl err, c2)
               | Inr flush \<Rightarrow> returnIO (Inr flush, c2\<lparr> ct_failed := False \<rparr>)) (commit_end e app H a prefix) (\<lambda>_. False)"
            if "applied e app H a prefix h' (ct_authority c2)" "ct_delta c2 = Some d" "dt_identity d = dt_identity dt"
              "ct_concurrency c2 = ct_concurrency c" "ct_failed c2" for d
          proof (cases "committed_flush_of c2 (snd h') commits")
            case (Inl err)
            show ?thesis unfolding Inl sum.case
            proof (rule triple_return)
              fix w
              assume "settled e app ?H (ct_authority c2) w \<and> closing e app ?H True (ct_authority c2) (snd h') (ct_delta c2) w"
              then have "left_by e app H a prefix w" using that(1) unfolding left_by_def by blast
              then show "commit_end e app H a prefix (Inl err, c2) w" using that(5) by (simp add: commit_end_def)
            qed
          next
            case (Inr flush)
            have flush: "committed_flush_of (c2\<lparr> ct_failed := False \<rparr>) (snd h') (fl_delta flush) = Inr flush"
              using Inr by (auto simp: committed_flush_of_def bindR_eq_Inr)
            show ?thesis unfolding Inr sum.case
            proof (rule triple_return)
              fix w
              assume "settled e app ?H (ct_authority c2) w \<and> closing e app ?H True (ct_authority c2) (snd h') (ct_delta c2) w"
              then have "applied e app H a prefix h' (ct_authority (c2\<lparr> ct_failed := False \<rparr>)) \<and>
                settled e app ?H (ct_authority (c2\<lparr> ct_failed := False \<rparr>)) w \<and> in_place e (snd h') w \<and>
                ready_for e app ?H (c2\<lparr> ct_failed := False \<rparr>) d w \<and>
                committed_flush_of (c2\<lparr> ct_failed := False \<rparr>) (snd h') (fl_delta flush) = Inr flush"
                using that flush c1(2,4) by (simp add: ready_for_def closing_def everywhere_def)
              then show "commit_end e app H a prefix (Inr flush, c2\<lparr> ct_failed := False \<rparr>) w"
                unfolding commit_end_def fst_conv snd_conv sum.case by blast
            qed
          qed
          show ?thesis unfolding oc Inr hc prod.case sum.case
          proof (rule triple_pointwise, elim conjE exE)
            fix w d
            assume k: "applied e app H a prefix h' (ct_authority c2)" "ct_delta c2 = Some d" "dt_identity d = dt_identity dt"
              "ct_concurrency c2 = ct_concurrency ?c" "ct_failed c2 = ct_failed ?c"
              and w: "settled e app ?H (ct_authority c2) w" "closing e app ?H True (ct_authority c2) (snd h') (ct_delta c2) w"
            have k': "ct_concurrency c2 = ct_concurrency c" "ct_failed c2" using k(4,5) by simp_all
            show "triple (\<lambda>v. v = w) (case committed_flush_of c2 (snd h') commits of
                 Inl err \<Rightarrow> returnIO (Inl err, c2)
               | Inr flush \<Rightarrow> returnIO (Inr flush, c2\<lparr> ct_failed := False \<rparr>)) (commit_end e app H a prefix) (\<lambda>_. False)"
              by (rule triple_conseq [OF last [OF k(1-3) k']]) (use w in auto)
          qed
        qed
      qed (use v in auto)
    qed
    then show "triple (case started of (prepared, h) \<Rightarrow> \<lambda>v. writing e a w {} h v \<and> pf_parts prepared = map (writer_plan (snd h)) (pt_parts (snd h)) \<and>
       pt_prefix (snd h) = prefix \<and> acyclic_pending (snd h))
     (case started of (prepared, h) \<Rightarrow> bindIO (publish_and_commit e reconcile multi_thread prepared h ?c) (\<lambda>(outcome, c2).
            case outcome of
              Inl err \<Rightarrow> bindIO (tryIO (cleanup_temporaries e (snd h))) (\<lambda>_. returnIO (Inl err, c2))
            | Inr (done_pending, commits) \<Rightarrow>
                (case committed_flush_of c2 (snd done_pending) commits of
                   Inl err \<Rightarrow> returnIO (Inl err, c2)
                 | Inr flush \<Rightarrow> returnIO (Inr flush, c2\<lparr> ct_failed := False \<rparr>)))) (commit_end e app H a prefix) (\<lambda>_. False)"
      unfolding st prod.case by (auto simp: triple_def)
  qed
qed

end
