(* ===== verification/Controller_Recovery.thy ===== *)
theory Controller_Recovery
  imports Controller_Safe
begin

text \<open>
  Recovery: from every state a stopped process may leave, reopening rolls the pending transaction back
  or forward and ends settled, or fails and leaves a state it can be repeated from.
\<close>

section \<open>Parts of recovery\<close>

lemma triple_pre_mid: "(C \<Longrightarrow> triple (\<lambda>w. A w \<and> B w) m Q E) \<Longrightarrow> triple (\<lambda>w. A w \<and> C \<and> B w) m Q E"
  by (auto simp: triple_def)

lemma bindIO_return: "bindIO (returnIO a) f = f a"
  by (simp add: bindIO_def returnIO_def)

lemma reads_verify_finals_of:
  "reads w0 F (verify_finals_of e p tables) (\<lambda>_. \<forall>q \<in> set (pt_parts p). pp_table q \<in> set tables \<longrightarrow> intact e p F q)"
proof -
  let ?qs = "filter (\<lambda>q. pp_table q \<in> set tables) (pt_parts p)"
  let ?R = "\<lambda>q c. c = None \<longrightarrow> intact e p F q"
  have one: "reads w0 F (bindIO (tryIO (verify_final e p q)) (\<lambda>outcome. returnIO (verify_failure q outcome))) (?R q)" for q
    by (rule reads_bind [OF reads_try [OF reads_verify_final]], rule reads_return)
      (auto simp: verify_failure_def Let_def split: sum.splits part_presence.splits)
  have fin: "\<forall>q \<in> set (pt_parts p). pp_table q \<in> set tables \<longrightarrow> intact e p F q"
    if l: "list_all2 ?R ?qs checks" and f: "List.map_filter (\<lambda>c. c) checks = []" for checks
  proof (intro ballI impI)
    fix q
    assume "q \<in> set (pt_parts p)" "pp_table q \<in> set tables"
    then have "q \<in> set ?qs" by simp
    from list_all2_in_left [OF l this] obtain c where c: "c \<in> set checks" "?R q c" ..
    have "c = None" using f c(1) by (auto simp: List.map_filter_def filter_empty_conv)
    then show "intact e p F q" using c(2) by simp
  qed
  show ?thesis
    unfolding verify_finals_of_def Let_def
    by (rule reads_bind [OF reads_map [OF one]], rule reads_lift) (use fin in auto)
qed

text \<open>The closing steps of recovery after a commit.\<close>

lemma close_committed_triple:
  assumes sha: "sha256_hex (e_ext e)" and m: "mirror_law e reconcile"
  shows "triple (\<lambda>w. finishing e app H b h w \<and> everywhere e app H K (snd h) delta w)
    (bindIO (reconcile (snd b)) (\<lambda>_. bindIO (cleanup_temporaries e (snd h)) (\<lambda>_. bindIO (store_clear e b h) (\<lambda>_. returnIO (b, delta)))))
    (\<lambda>r w. r = (b, delta) \<and> settled e app H b w \<and> closing e app H K b (snd h) delta w)
    (\<lambda>w. finishing e app H b h w \<or> settled e app H b w)"
  by (rule triple_seq [OF reconcile_finishing [OF m]], blast, rule triple_seq [OF cleanup_finishing [OF sha]], blast,
      rule triple_bind [OF clear_triple], rule triple_return) simp

text \<open>Rolling back a Writing transaction.\<close>

lemma rollback_state:
  assumes "aborting e app H a h w" "D \<subseteq> part_names (snd h)" "has_files w (w_files w |` (- D)) v"
  shows "aborting e app H a h v"
proof -
  have safe: "rollback_safe e (snd h) (w_files w)" using assms(1) by (simp add: aborting_def)
  have "intact e (snd h) (w_files w |` (- D)) q" if q: "q \<in> set (pt_parts (snd h))" "(w_files w |` (- D)) (pp_final q) \<noteq> None" for q
  proof -
    have "pp_final q \<notin> D" using q(2) by (auto simp: restrict_map_def)
    then have "(w_files w |` (- D)) (pp_final q) = w_files w (pp_final q)" by simp
    then show ?thesis using safe q by (auto simp: rollback_safe_def intact_def part_intact_def)
  qed
  then have "rollback_safe e (snd h) (w_files w |` (- D))" by (simp add: rollback_safe_def)
  then show ?thesis using assms(1,3) by (auto simp: state_defs has_files_def)
qed

definition gone :: "pending_transaction \<Rightarrow> world \<Rightarrow> world \<Rightarrow> bool" where
  "gone p w v \<longleftrightarrow> w_files v = w_files w |` (- part_names p) \<and> w_logs v = w_logs w"

lemma rollback_aborting:
  assumes w: "aborting e app H a h w"
  shows "triple (\<lambda>v. upto w v) (rollback_writing e (snd h)) (\<lambda>_ v. aborting e app H a h v \<and> gone (snd h) w v) (aborting e app H a h)"
proof (rule triple_conseq [OF rollback_triple [of w "w_files w" e "snd h"]])
  show "aborting e app H a h v" if "\<exists>D \<subseteq> part_names (snd h). (D = {} \<or> rollback_safe e (snd h) (w_files w)) \<and> has_files w (w_files w |` (- D)) v" for v
    using that rollback_state [OF w] by blast
  show "aborting e app H a h v \<and> gone (snd h) w v"
    if "rollback_safe e (snd h) (w_files w) \<and> has_files w (w_files w |` (- part_names (snd h))) v" for v
    using that rollback_state [OF w order_refl] by (auto simp: gone_def has_files_def)
qed (simp add: files_upto)

lemma clear_aborting:
  "triple (\<lambda>v. aborting e app H a h v \<and> gone p w v) (store_clear e a h)
    (\<lambda>_ v. settled e app H a v \<and> gone p w v) (\<lambda>v. aborting e app H a h v \<or> settled e app H a v)"
proof (rule triple_pointwise, elim conjE)
  fix u
  assume u: "aborting e app H a h u" "gone p w u"
  have j: "has_journal u (Some a, Some h) u" using u(1) by (simp add: state_defs has_journal_def)
  have old: "aborting e app H a h v" if "has_journal u (Some a, Some h) v" for v
  proof -
    have "upto u v" using that j by (simp add: has_journal_def upto_iff)
    then show ?thesis using stableD [OF stable_states(2) u(1)] by blast
  qed
  have new: "settled e app H a v \<and> gone p w v" if "has_journal u (Some a, None) v" for v
    using u that by (auto simp: state_defs has_journal_def gone_def)
  show "triple (\<lambda>v. v = u) (store_clear e a h)
    (\<lambda>_ v. settled e app H a v \<and> gone p w v) (\<lambda>v. aborting e app H a h v \<or> settled e app H a v)"
    by (rule triple_conseq [OF clear_atomic [of "Some a" a "Some h" h u e, unfolded atomically_def]])
      (use j old new in auto)
qed

lemma roll_back_triple:
  assumes m: "mirror_law e reconcile" and w: "aborting e app H a h w"
  shows "triple (upto w) (recover_pending e reconcile a h delta uncommitted concurrency)
    (\<lambda>r v. r = (a, delta) \<and> (settled e app H a v \<and> gone (snd h) w v) \<and> mirror_current e (snd a) (w_mirror v)) (\<lambda>v. aborting e app H a h v \<or> settled e app H a v)"
proof -
  let ?A = "\<lambda>v. aborting e app H a h v \<and> gone (snd h) w v" and ?S = "\<lambda>v. settled e app H a v \<and> gone (snd h) w v"
  have sg: "stable (gone (snd h) w)" by (auto simp: stable_def gone_def upto_iff)
  have st: "stable ?A" "stable ?S" by (intro stable_conj stable_states sg)+
  have mir: "triple ?S (reconcile (snd a)) (\<lambda>_ v. ?S v \<and> mirror_current e (snd a) (w_mirror v)) ?S"
    by (rule mirror_law.reconcile_triple [OF m st(2)]) (use mirror_states(1) in \<open>auto simp: gone_def\<close>)
  have ph: "pt_phase (snd h) = Writing" using w by (simp add: aborting_def)
  show ?thesis unfolding recover_pending_def ph transaction_phase.case
    by (rule triple_seq [OF rollback_aborting [OF w]], blast, rule triple_seq [OF triple_crash [OF st(1)]], blast,
        rule triple_bind [OF clear_aborting], rule triple_seq [OF mir], blast, rule triple_return) simp
qed

text \<open>Rolling a Committed transaction forward.\<close>

definition missing_tables :: "delta_tables \<Rightarrow> pending_transaction \<Rightarrow> world \<Rightarrow> string set" where
  "missing_tables dt p w = {t. t \<in> pp_table ` set (pt_parts p) \<and>
     \<not> (\<exists>n. map_of (dt_tables dt) t = Some n \<and> held_by (Some p) t (snapshot_txn dt w t n))}"

lemma roll_forward_triple:
  assumes laws: "delta_laws e app" and dt: "app_id (dt_identity dt) = app"
    and w: "committing e app H a h w" "all_loaded app H (journal_commits app (snd h)) dt w"
    and missing: "set missing = missing_tables dt (snd h) w"
  shows "triple (upto w) (roll_forward e (Some dt) (snd h) missing concurrency)
    (\<lambda>delta v. committing e app H a h v \<and> logs_exact app (extend_ledger app H (snd h)) v \<and>
       everywhere e app (extend_ledger app H (snd h)) False (snd h) delta v \<and> (\<exists>d. delta = Some d \<and> dt_identity d = dt_identity dt))
    (committing e app H a h)"
proof (rule triple_pointwise)
  fix u
  assume u: "upto w u"
  let ?J = "journal_commits app (snd h)" and ?H = "extend_ledger app H (snd h)"
  have cu: "committing e app H a h u" using stableD [OF stable_states(3) w(1) u] .
  have lu: "all_loaded app H ?J dt u" using w(2) u by (simp add: all_loaded_def loaded_def upto_iff)
  have v: "pending_validate (e_ext e) (snd h) (au_descriptor (snd a)) = Inr ()" and tp: "logs_partial app H ?J u"
    and lb: "ledger_behind H (au_checkpoint (snd a))" and vp: "validate_predecessor (e_ext e) (snd a) (snd h) = Inr ()"
    using cu by (auto simp: committing_def based_def validate_predecessor_ok)
  note dist = distinct_part_tables [OF v]
  have mu: "set missing = {t. t \<in> pp_table ` set (pt_parts (snd h)) \<and>
      \<not> (\<exists>n. map_of (dt_tables dt) t = Some n \<and> held_by (Some (snd h)) t (snapshot_txn dt u t n))}"
    using missing u by (simp add: missing_tables_def upto_iff)
  note split = progress_split [OF lu [folded dt] tp [folded dt] journal_commits_one [OF dist] ledger_fresh [OF lb vp] mu, unfolded dt]
  have other: "own app (w_logs x t) = ?H t \<and> w_inflight x t = []"
    if "t \<notin> pp_table ` set (pt_parts (snd h))" "logs_partial app H ?J x" for t x
  proof -
    have "own app (w_logs x t) = H t \<and> set (w_inflight x t) \<subseteq> set (?J t) \<or> own app (w_logs x t) = H t @ ?J t \<and> w_inflight x t = []"
      using that(2) by (simp add: logs_partial_def table_partial_def)
    then show ?thesis using journal_commits_other [OF that(1)] by (simp add: extend_ledger_def)
  qed
  have snaps: "snapshots_at app ?H dt (- set missing) u"
    unfolding snapshots_at_def
  proof (intro ballI allI impI)
    fix t n
    assume t: "t \<in> - set missing" and n: "map_of (dt_tables dt) t = Some n"
    have ln: "loaded app H ?J u t n" using lu map_of_SomeD [OF n] by (auto simp: all_loaded_def)
    show "n \<le> length (w_logs u t) \<and> own app (take n (w_logs u t)) = ?H t"
    proof (cases "t \<in> pp_table ` set (pt_parts (snd h))")
      case True
      then show ?thesis using split(3) [OF True _ n] t ln by (simp add: extend_ledger_def loaded_def)
    next
      case False
      then show ?thesis using ln journal_commits_other [of t "snd h" app] by (auto simp: extend_ledger_def loaded_def)
    qed
  qed
  show "triple (\<lambda>v. v = u) (roll_forward e (Some dt) (snd h) missing concurrency)
    (\<lambda>delta v. committing e app H a h v \<and> logs_exact app ?H v \<and>
       everywhere e app ?H False (snd h) delta v \<and> (\<exists>d. delta = Some d \<and> dt_identity d = dt_identity dt))
    (committing e app H a h)"
  proof (cases "missing = []")
    case True
    have "own app (w_logs u t) = ?H t \<and> w_inflight u t = []" for t
    proof (cases "t \<in> pp_table ` set (pt_parts (snd h))")
      case t: True
      then show ?thesis using split(2) [of t] True by (simp add: extend_ledger_def)
    qed (use other [OF _ tp] in blast)
    then have "logs_exact app ?H u" by (simp add: logs_exact_def)
    moreover have "everywhere e app ?H False (snd h) (Some dt) u" using snaps True by (simp add: everywhere_def)
    ultimately show ?thesis unfolding roll_forward_def option.case True using cu by (auto intro!: triple_return)
  next
    case False
    have ver: "triple (\<lambda>v. v = u) (\<lambda>w. mapErr (Context (roll_forward_refusal (e_now e (w_clock w)) (snd h) missing))
        (verify_finals_of e (snd h) missing) w) (\<lambda>_ v. upto u v) (committing e app H a h)"
    proof -
      have "triple (\<lambda>v. v = u) (verify_finals_of e (snd h) missing) (\<lambda>_ v. upto u v) (committing e app H a h)"
        by (rule triple_conseq [OF reads_verify_finals_of [of u "w_files u", unfolded reads_def]])
          (use stableD [OF stable_states(3) cu] in \<open>auto simp: files_upto\<close>)
      then show ?thesis by (auto simp: triple_def mapErr_def split: prod.splits sum.splits)
    qed
    have fwd: "triple (\<lambda>v. upto u v) (bindIO (delta_roll_forward e dt (snd h) missing concurrency) (\<lambda>out.
            case out of
              Inl failure \<Rightarrow> failIO (unresolved_note failure)
            | Inr commits \<Rightarrow> returnIO (Some (advance_tables dt commits))))
        (\<lambda>delta v. committing e app H a h v \<and> logs_exact app ?H v \<and>
           everywhere e app ?H False (snd h) delta v \<and> (\<exists>d. delta = Some d \<and> dt_identity d = dt_identity dt))
        (committing e app H a h)" (is "triple _ ?m ?Q ?E")
    proof (rule triple_pointwise)
      fix x
      assume x: "upto u x"
      have tx: "logs_partial app H ?J x" and sx: "snapshots_at app H dt (set missing) x"
        using tp split(1) x by (simp_all add: logs_partial_def snapshots_at_def upto_iff)
      obtain out x' where run: "delta_roll_forward e dt (snd h) missing concurrency x = (Inr out, x')"
        and o: "only_logs (set missing) x x'" "logs_partial app H ?J x'"
          "\<forall>cs. out = Inr cs \<longrightarrow> (\<forall>t\<in>set missing \<inter> pp_table ` set (pt_parts (snd h)).
            own app (w_logs x' t) = H t @ ?J t \<and> w_inflight x' t = []) \<and>
            tc_table ` set cs = set missing \<inter> pp_table ` set (pt_parts (snd h)) \<and>
            (\<forall>c\<in>set cs. tc_version c = length (w_logs x' (tc_table c)))"
        using delta_roll_forward_outcome [OF laws [folded dt] dist tx [folded dt] sx [folded dt], of concurrency, unfolded dt]
        by (elim exE conjE) (rule that)
      have cx: "committing e app H a h x'"
        using cu x o(1,2) by (simp add: committing_def based_def only_logs_def upto_iff)
      show "triple (\<lambda>v. v = x) ?m ?Q ?E"
      proof (cases out)
        case (Inl f)
        then have "?m x = (Inl (unresolved_note f), x')" using run by (simp add: bindIO_eq failIO_def)
        then show ?thesis using cx by (simp add: triple_def)
      next
        case (Inr cs)
        have sub: "set missing \<subseteq> pp_table ` set (pt_parts (snd h))" using mu by blast
        then have tabs: "set missing \<inter> pp_table ` set (pt_parts (snd h)) = set missing" by blast
        have land: "own app (w_logs x' t) = ?H t \<and> w_inflight x' t = []" for t
        proof (cases "t \<in> set missing")
          case True
          then show ?thesis using o(3) Inr by (simp add: tabs extend_ledger_def)
        next
          case out: False
          show ?thesis
          proof (cases "t \<in> pp_table ` set (pt_parts (snd h))")
            case True
            then show ?thesis using split(2) [OF True out] x only_logs_table [OF o(1) out] by (simp add: extend_ledger_def upto_iff)
          qed (use other [OF _ o(2)] in blast)
        qed
        have cs: "tc_table ` set cs = set missing" "\<forall>c\<in>set cs. tc_version c = length (w_logs x' (tc_table c))"
          using o(3) Inr tabs by simp_all
        have "snapshots_at app ?H (advance_tables dt cs) UNIV x'"
        proof (rule advance_snapshots)
          show "\<forall>c\<in>set cs. tc_version c = length (w_logs x' (tc_table c)) \<and> own app (w_logs x' (tc_table c)) = ?H (tc_table c)"
            using cs(2) land by blast
          show "snapshots_at app ?H dt (- tc_table ` set cs) x'"
            using snaps x o(1) unfolding cs(1) by (simp add: snapshots_at_def upto_iff only_logs_def)
        qed
        then have "?Q (Some (advance_tables dt cs)) x'"
          using cx land by (simp add: everywhere_def logs_exact_def advance_tables_def)
        moreover have "?m x = (Inr (Some (advance_tables dt cs)), x')" using run Inr by (simp add: bindIO_eq returnIO_def)
        ultimately show ?thesis by (simp add: triple_def)
      qed
    qed
    show ?thesis unfolding roll_forward_def option.case if_not_P [OF False] by (rule triple_bind [OF ver fwd])
  qed
qed

text \<open>Recovery of a pending record, by its state.\<close>

definition at_ledger :: "string \<Rightarrow> ledger \<Rightarrow> delta_tables \<Rightarrow> delta_tables option \<Rightarrow> world \<Rightarrow> bool" where
  "at_ledger app H dt delta w \<longleftrightarrow> (\<exists>d. delta = Some d \<and> dt_identity d = dt_identity dt \<and> snapshots_at app H d UNIV w)"

lemma recover_committing:
  assumes sha: "sha256_hex (e_ext e)" and laws: "delta_laws e app" and m: "mirror_law e reconcile" and dt: "app_id (dt_identity dt) = app"
    and w: "committing e app H a h w" "all_loaded app H (journal_commits app (snd h)) dt w"
    and missing: "set missing = missing_tables dt (snd h) w"
  shows "triple (upto w) (recover_pending e reconcile a h (Some dt) missing concurrency)
    (\<lambda>(b, delta) v. install (e_ext e) (snd a) (snd h) = Inr (snd b) \<and> settled e app (extend_ledger app H (snd h)) b v \<and>
       at_ledger app (extend_ledger app H (snd h)) dt delta v \<and> mirror_current e (snd b) (w_mirror v))
    (\<lambda>v. committing e app H a h v \<or> (\<exists>b. install (e_ext e) (snd a) (snd h) = Inr (snd b) \<and>
       (finishing e app (extend_ledger app H (snd h)) b h v \<or> settled e app (extend_ledger app H (snd h)) b v)))"
    (is "triple _ _ ?Q ?E")
proof -
  let ?H = "extend_ledger app H (snd h)" and ?ev = "\<lambda>d w. everywhere e app (extend_ledger app H (snd h)) False (snd h) (Some d) w"
  have ph: "pt_phase (snd h) = Committed" and pre: "cp_id (au_checkpoint (snd a)) = pt_predecessor (snd h)"
    using w(1) by (simp_all add: committing_def validate_predecessor_ok)
  let ?F = "\<lambda>(b, delta) v. \<exists>d. (delta = Some d \<and> dt_identity d = dt_identity dt \<and> install (e_ext e) (snd a) (snd h) = Inr (snd b)) \<and>
      finishing e app ?H b h v \<and> ?ev d v"
  have adv: "triple (\<lambda>v. committing e app H a h v \<and> logs_exact app ?H v \<and> everywhere e app ?H False (snd h) delta v \<and>
        (\<exists>d. delta = Some d \<and> dt_identity d = dt_identity dt))
      (bindIO (store_advance e a h) (\<lambda>advanced. bindIO (crash_point e) (\<lambda>_. returnIO (advanced, delta)))) ?F ?E" for delta
  proof (rule triple_conseq [OF triple_pre_ex [of "\<lambda>d v. (delta = Some d \<and> dt_identity d = dt_identity dt) \<and>
        committing e app H a h v \<and> logs_exact app ?H v \<and> everywhere e app ?H False (snd h) delta v" _ ?F ?E]])
    fix d
    show "triple (\<lambda>v. (delta = Some d \<and> dt_identity d = dt_identity dt) \<and>
        committing e app H a h v \<and> logs_exact app ?H v \<and> everywhere e app ?H False (snd h) delta v)
      (bindIO (store_advance e a h) (\<lambda>advanced. bindIO (crash_point e) (\<lambda>_. returnIO (advanced, delta)))) ?F ?E"
    proof (rule triple_pre_pure, elim conjE)
      assume d: "delta = Some d" "dt_identity d = dt_identity dt"
      show "triple (\<lambda>v. committing e app H a h v \<and> logs_exact app ?H v \<and> everywhere e app ?H False (snd h) delta v)
        (bindIO (store_advance e a h) (\<lambda>advanced. bindIO (crash_point e) (\<lambda>_. returnIO (advanced, delta)))) ?F ?E"
        unfolding d(1)
      proof (rule triple_seq [OF advance_triple [of e app H a h ?H False "Some d"]])
        fix b
        have st: "stable (\<lambda>w. finishing e app ?H b h w \<and> ?ev d w)" by (intro stable_conj stable_states stable_everywhere)
        show "triple (\<lambda>w. finishing e app ?H b h w \<and> install (e_ext e) (snd a) (snd h) = Inr (snd b) \<and> ?ev d w)
            (bindIO (crash_point e) (\<lambda>_. returnIO (b, Some d))) ?F ?E"
          by (rule triple_pre_mid, rule triple_seq [OF triple_crash [OF st]], blast, rule triple_return) (use d in auto)
      qed blast
    qed
  qed auto
  have close: "triple (?F (b, delta)) (bindIO (reconcile (snd b)) (\<lambda>_. bindIO (cleanup_temporaries e (snd h)) (\<lambda>_.
      bindIO (store_clear e b h) (\<lambda>_. returnIO (b, delta))))) ?Q ?E" for b delta
    unfolding prod.case
  proof (rule triple_pre_ex, rule triple_pre_pure, elim conjE)
    fix d
    assume d: "delta = Some d" "dt_identity d = dt_identity dt" "install (e_ext e) (snd a) (snd h) = Inr (snd b)"
    show "triple (\<lambda>v. finishing e app ?H b h v \<and> ?ev d v) (bindIO (reconcile (snd b)) (\<lambda>_. bindIO (cleanup_temporaries e (snd h)) (\<lambda>_.
      bindIO (store_clear e b h) (\<lambda>_. returnIO (b, delta))))) ?Q ?E" unfolding d(1)
    proof (rule triple_conseq [OF close_committed_triple [OF sha m]])
      show "?E v" if "finishing e app ?H b h v \<or> settled e app ?H b v" for v using that d(3) by blast
    qed (use d in \<open>auto simp: closing_def everywhere_def at_ledger_def\<close>)
  qed
  show ?thesis unfolding recover_pending_def ph transaction_phase.case if_P [OF pre]
    by (rule triple_bind [OF triple_seq [OF roll_forward_triple [OF laws dt w missing] _ adv]], blast) (use close in auto)
qed

lemma recover_finishing:
  assumes sha: "sha256_hex (e_ext e)" and m: "mirror_law e reconcile" and w: "finishing e app H a h w" "snapshots_at app H dt UNIV w"
  shows "triple (upto w) (recover_pending e reconcile a h (Some dt) missing concurrency)
    (\<lambda>r v. r = (a, Some dt) \<and> settled e app H a v \<and> snapshots_at app H dt UNIV v \<and> mirror_current e (snd a) (w_mirror v))
    (\<lambda>v. finishing e app H a h v \<or> settled e app H a v)"
proof -
  have "acyclic_pending (snd h)" and eq: "au_checkpoint (snd a) = pt_target (snd h)" and ph: "pt_phase (snd h) = Committed"
    using w(1) by (auto simp: finishing_def)
  then have pre: "cp_id (au_checkpoint (snd a)) \<noteq> pt_predecessor (snd h)" by (simp add: acyclic_pending_def)
  have "finishing e app H a h v \<and> everywhere e app H False (snd h) (Some dt) v" if "upto w v" for v
    using stableD [OF stable_states(4) w(1) that] w(2) that by (simp add: everywhere_def snapshots_at_def upto_iff)
  then show ?thesis unfolding recover_pending_def ph transaction_phase.case if_not_P [OF pre] bindIO_return prod.case
    by (intro triple_conseq [OF close_committed_triple [OF sha m, of app H a h False "Some dt"]]) (auto simp: closing_def everywhere_def)
qed

section \<open>Opening the controller\<close>

text \<open>The commits recovery still has to bring into the logs.\<close>

definition unfinished :: "string \<Rightarrow> authority_state versioned \<Rightarrow> pending_transaction versioned option \<Rightarrow> ledger" where
  "unfinished app a pending = (case behind (snd a) pending of None \<Rightarrow> (\<lambda>_. []) | Some p \<Rightarrow> journal_commits app p)"

definition resolved :: "string \<Rightarrow> ledger \<Rightarrow> authority_state versioned \<Rightarrow> pending_transaction versioned option \<Rightarrow> ledger" where
  "resolved app H a pending = (\<lambda>t. H t @ unfinished app a pending t)"

lemma resolved_cases:
  "behind (snd a) pending = None \<Longrightarrow> resolved app H a pending = H \<and> unfinished app a pending = (\<lambda>_. [])"
  "behind (snd a) pending = Some p \<Longrightarrow> resolved app H a pending = extend_ledger app H p \<and> unfinished app a pending = journal_commits app p"
  by (simp_all add: resolved_def unfinished_def extend_ledger_def)

lemma behind_states:
  "aborting e app H a h w \<Longrightarrow> behind (snd a) (Some h) = None"
  "committing e app H a h w \<Longrightarrow> behind (snd a) (Some h) = Some (snd h)"
  "finishing e app H a h w \<Longrightarrow> behind (snd a) (Some h) = None"
  by (auto simp: behind_def aborting_def committing_def finishing_def validate_predecessor_ok acyclic_pending_def split: prod.splits)

lemma exact_snapshots:
  assumes "all_loaded app H (\<lambda>_. []) dt w"
  shows "snapshots_at app H dt UNIV w"
  unfolding snapshots_at_def
proof (intro ballI allI impI)
  fix t n
  assume "map_of (dt_tables dt) t = Some n"
  then have "(t, n) \<in> set (dt_tables dt)" by (rule map_of_SomeD)
  then have "loaded app H (\<lambda>_. []) w t n" using assms by (auto simp: all_loaded_def)
  then show "n \<le> length (w_logs w t) \<and> own app (take n (w_logs w t)) = H t" by (simp add: loaded_def)
qed

lemma open_triple_by:
  assumes st: "w_state w = Some a" and E: "\<And>v. upto w v \<Longrightarrow> E v"
    and rest: "\<And>missing. au_descriptor (snd a) = expected \<Longrightarrow>
      (\<And>p. behind (snd a) (w_pending w) = Some p \<Longrightarrow> set missing = missing_tables dt p w) \<Longrightarrow>
      triple (upto w) (case w_pending w of
           None \<Rightarrow> bindIO (reconcile (snd a)) (\<lambda>_. returnIO (a, Some dt))
         | Some h \<Rightarrow> recover_pending e reconcile a h (Some dt) missing (fc_publications concurrency)) R E"
  shows "triple (\<lambda>v. v = w) (open_reserved e reconcile expected (Some dt) concurrency)
    (\<lambda>c v. au_descriptor (snd a) = expected \<and> R (ct_authority c, ct_delta c) v \<and> \<not> ct_failed c \<and> ct_concurrency c = concurrency) E"
  (is "triple _ _ ?Q E")
proof -
  let ?rec = "\<lambda>missing. case w_pending w of
       None \<Rightarrow> bindIO (reconcile (snd a)) (\<lambda>_. returnIO (a, Some dt))
     | Some h \<Rightarrow> recover_pending e reconcile a h (Some dt) missing (fc_publications concurrency)"
  let ?make = "\<lambda>(authority', delta'). returnIO \<lparr> ct_authority = authority', ct_failed = False, ct_concurrency = concurrency, ct_delta = delta' \<rparr>"
  have load: "triple (\<lambda>v. v = w) (store_load e) (\<lambda>r v. r = (Some a, w_pending w) \<and> upto w v) E"
    by (rule triple_conseq [OF store_load_triple [of w "Some a" "w_pending w" e]])
      (use st E in \<open>auto simp: journal_upto [of w, unfolded st]\<close>)
  have fin: "triple (R r) (?make r) ?Q E" if "au_descriptor (snd a) = expected" for r
    using that by (cases r) (auto intro!: triple_return)
  have rest': "triple (upto w) (bindIO (check_progress e dt (cp_ordinal (au_checkpoint (snd a))) (behind (snd a) (w_pending w)))
      (\<lambda>missing. bindIO (?rec missing) ?make)) ?Q E" if d: "au_descriptor (snd a) = expected"
  proof (rule triple_seq [OF check_progress_triple E])
    fix missing
    let ?pre = "set missing = {t. \<exists>p. behind (snd a) (w_pending w) = Some p \<and> t \<in> pp_table ` set (pt_parts p) \<and>
          \<not> (\<exists>n. map_of (dt_tables dt) t = Some n \<and> held_by (behind (snd a) (w_pending w)) t (snapshot_txn dt w t n))}"
    have "triple (upto w) (bindIO (?rec missing) ?make) ?Q E" if pre: ?pre
    proof (rule triple_bind [OF rest fin], rule d)
      show "set missing = missing_tables dt p w" if "behind (snd a) (w_pending w) = Some p" for p
        using pre that by (simp add: missing_tables_def)
    qed (rule d)
    then show "triple (\<lambda>v. upto w v \<and>
        (\<forall>t n. map_of (dt_tables dt) t = Some n \<longrightarrow> not_ahead (cp_ordinal (au_checkpoint (snd a))) (behind (snd a) (w_pending w)) t (snapshot_txn dt w t n)) \<and> ?pre)
       (bindIO (?rec missing) ?make) ?Q E" by (auto simp: triple_def)
  qed
  have tail: "triple (upto w) (bindIO (liftR (some_or (Some a)
       ''protected ingestion authority is absent; eligible-root initialization is required'')) (\<lambda>authority.
     bindIO (liftR (require (au_descriptor (snd authority) = expected) STREAM_MISMATCH)) (\<lambda>_.
     bindIO (check_progress e dt (cp_ordinal (au_checkpoint (snd authority))) (behind (snd authority) (w_pending w))) (\<lambda>uncommitted.
     bindIO (case w_pending w of
         None \<Rightarrow> bindIO (reconcile (snd authority)) (\<lambda>_. returnIO (authority, Some dt))
       | Some h \<Rightarrow> recover_pending e reconcile authority h (Some dt) uncommitted (fc_publications concurrency)) ?make)))) ?Q E"
    by (rule triple_bind_lift, rule triple_bind_lift) (use rest' E in \<open>auto simp: some_or_def require_def bail_def split: if_splits\<close>)
  show ?thesis unfolding open_reserved_def option.case
    by (rule triple_bind_lift, rule triple_bind_lift, rule triple_bind_eq [OF load], unfold prod.case, rule tail) (use E in auto)
qed

text \<open>What recovery achieves, and what a failed recovery leaves.\<close>

definition recovered ::
  "env \<Rightarrow> string \<Rightarrow> ledger \<Rightarrow> authority_state versioned \<Rightarrow> delta_tables \<Rightarrow> world \<Rightarrow>
   authority_state versioned \<times> delta_tables option \<Rightarrow> world \<Rightarrow> bool" where
  "recovered e app H a dt w r v \<longleftrightarrow>
     settled e app (resolved app H a (w_pending w)) (fst r) v \<and> at_ledger app (resolved app H a (w_pending w)) dt (snd r) v \<and>
     mirror_current e (snd (fst r)) (w_mirror v) \<and>
     (case behind (snd a) (w_pending w) of
        None \<Rightarrow> fst r = a
      | Some p \<Rightarrow> install (e_ext e) (snd a) p = Inr (snd (fst r))) \<and>
     (\<forall>h. w_pending w = Some h \<longrightarrow> pt_phase (snd h) = Writing \<longrightarrow> w_files v = w_files w |` (- part_names (snd h)))"

definition unrecovered :: "env \<Rightarrow> string \<Rightarrow> ledger \<Rightarrow> authority_state versioned \<Rightarrow> world \<Rightarrow> world \<Rightarrow> bool" where
  "unrecovered e app H a w v \<longleftrightarrow> consistent e app H v \<and> w_state v = Some a \<or>
     (\<exists>b p. behind (snd a) (w_pending w) = Some p \<and> install (e_ext e) (snd a) p = Inr (snd b) \<and>
        consistent e app (resolved app H a (w_pending w)) v \<and> w_state v = Some b)"

lemma consistentI:
  "settled e app H a w \<Longrightarrow> consistent e app H w" "aborting e app H a h w \<Longrightarrow> consistent e app H w"
  "committing e app H a h w \<Longrightarrow> consistent e app H w" "finishing e app H a h w \<Longrightarrow> consistent e app H w"
  unfolding consistent_def by blast+

lemma state_of:
  "settled e app H a w \<Longrightarrow> w_state w = Some a" "aborting e app H a h w \<Longrightarrow> w_state w = Some a"
  "committing e app H a h w \<Longrightarrow> w_state w = Some a" "finishing e app H a h w \<Longrightarrow> w_state w = Some a"
  by (simp_all add: settled_def aborting_def committing_def finishing_def based_def)

lemma unrecoveredI:
  "settled e app H a v \<Longrightarrow> unrecovered e app H a w v" "aborting e app H a h v \<Longrightarrow> unrecovered e app H a w v"
  "committing e app H a h v \<Longrightarrow> unrecovered e app H a w v" "finishing e app H a h v \<Longrightarrow> unrecovered e app H a w v"
  unfolding unrecovered_def by (blast intro: consistentI dest: state_of)+

lemma stable_consistent: "stable (consistent e app H)"
  using stable_states unfolding consistent_def stable_def by meson

lemma recover_none:
  assumes m: "mirror_law e reconcile" and w: "settled e app H a w" and ld: "all_loaded app H (unfinished app a (w_pending w)) dt w"
  shows "triple (upto w) (bindIO (reconcile (snd a)) (\<lambda>_. returnIO (a, Some dt))) (recovered e app H a dt w) (unrecovered e app H a w)"
proof -
  have p: "w_pending w = None" using w by (simp add: settled_def)
  have b: "behind (snd a) (w_pending w) = None" by (simp add: behind_def p)
  note r = resolved_cases(1) [OF b, of app H]
  let ?S = "\<lambda>v. settled e app H a v \<and> w_logs v = w_logs w"
  have stS: "stable ?S" by (intro stable_conj stable_states) (auto simp: stable_def upto_iff)
  let ?T = "\<lambda>v. ?S v \<and> mirror_current e (snd a) (w_mirror v)"
  have mir: "triple ?S (reconcile (snd a)) (\<lambda>_. ?T) ?S" by (rule mirror_law.reconcile_triple [OF m stS]) (use mirror_states(1) in auto)
  have good: "recovered e app H a dt w (a, Some dt) v" if "?T v" for v
    using that exact_snapshots [of app H dt w] ld r b p by (auto simp: recovered_def at_ledger_def snapshots_at_def)
  show ?thesis
  proof (rule triple_conseq [OF triple_bind [OF mir triple_return [of ?T "\<lambda>r v. r = (a, Some dt) \<and> ?T v"]]])
    show "?S v" if "upto w v" for v using stableD [OF stS _ that] w by simp
    show "unrecovered e app H a w v" if "?S v" for v using that unrecoveredI(1) by blast
  qed (use good in auto)
qed

lemma recover_writing:
  assumes m: "mirror_law e reconcile" and w: "aborting e app H a h w" and ld: "all_loaded app H (unfinished app a (w_pending w)) dt w"
  shows "triple (upto w) (recover_pending e reconcile a h (Some dt) missing concurrency) (recovered e app H a dt w) (unrecovered e app H a w)"
proof -
  have p: "w_pending w = Some h" using w by (simp add: aborting_def)
  have b: "behind (snd a) (w_pending w) = None" using behind_states(1) [OF w] p by simp
  note r = resolved_cases(1) [OF b, of app H]
  have good: "recovered e app H a dt w (a, Some dt) v" if "settled e app H a v" "gone (snd h) w v" "mirror_current e (snd a) (w_mirror v)" for v
    using that exact_snapshots [of app H dt w] ld r b p by (auto simp: recovered_def at_ledger_def snapshots_at_def gone_def)
  show ?thesis
  proof (rule triple_conseq [OF roll_back_triple [OF m w]])
    show "unrecovered e app H a w v" if "aborting e app H a h v \<or> settled e app H a v" for v
      using that unrecoveredI(1,2) by blast
  qed (use good in auto)
qed

lemma recover_committed:
  assumes sha: "sha256_hex (e_ext e)" and laws: "delta_laws e app" and m: "mirror_law e reconcile" and dt: "app_id (dt_identity dt) = app"
    and w: "committing e app H a h w" and ld: "all_loaded app H (unfinished app a (w_pending w)) dt w"
    and missing: "\<And>p. behind (snd a) (w_pending w) = Some p \<Longrightarrow> set missing = missing_tables dt p w"
  shows "triple (upto w) (recover_pending e reconcile a h (Some dt) missing concurrency) (recovered e app H a dt w) (unrecovered e app H a w)"
proof -
  have p: "w_pending w = Some h" and ph: "pt_phase (snd h) = Committed" using w by (simp_all add: committing_def)
  have b: "behind (snd a) (w_pending w) = Some (snd h)" using behind_states(2) [OF w] p by simp
  note r = resolved_cases(2) [OF b, of app H]
  have ld': "all_loaded app H (journal_commits app (snd h)) dt w" using ld r by simp
  show ?thesis
  proof (rule triple_conseq [OF recover_committing [OF sha laws m dt w ld' missing [OF b]]])
    show "unrecovered e app H a w v" if E: "committing e app H a h v \<or> (\<exists>b. install (e_ext e) (snd a) (snd h) = Inr (snd b) \<and>
        (finishing e app (extend_ledger app H (snd h)) b h v \<or> settled e app (extend_ledger app H (snd h)) b v))" for v
      using E
    proof
      assume "\<exists>b. install (e_ext e) (snd a) (snd h) = Inr (snd b) \<and>
        (finishing e app (extend_ledger app H (snd h)) b h v \<or> settled e app (extend_ledger app H (snd h)) b v)"
      then show ?thesis using b r consistentI(1,4) state_of(1,4) unfolding unrecovered_def by metis
    qed (rule unrecoveredI(3))
  qed (use r b p ph in \<open>auto simp: recovered_def\<close>)
qed

lemma recover_advanced:
  assumes sha: "sha256_hex (e_ext e)" and m: "mirror_law e reconcile" and w: "finishing e app H a h w"
    and ld: "all_loaded app H (unfinished app a (w_pending w)) dt w"
  shows "triple (upto w) (recover_pending e reconcile a h (Some dt) missing concurrency) (recovered e app H a dt w) (unrecovered e app H a w)"
proof -
  have p: "w_pending w = Some h" and ph: "pt_phase (snd h) = Committed" using w by (simp_all add: finishing_def)
  have b: "behind (snd a) (w_pending w) = None" using behind_states(3) [OF w] p by simp
  note r = resolved_cases(1) [OF b, of app H]
  have sn: "snapshots_at app H dt UNIV w" using exact_snapshots ld r by simp
  show ?thesis
  proof (rule triple_conseq [OF recover_finishing [OF sha m w sn]])
    show "unrecovered e app H a w v" if "finishing e app H a h v \<or> settled e app H a v" for v
      using that unrecoveredI(1,4) by blast
  qed (use r b p ph in \<open>auto simp: recovered_def at_ledger_def\<close>)
qed

lemma open_triple:
  assumes sha: "sha256_hex (e_ext e)" and laws: "delta_laws e app" and m: "mirror_law e reconcile" and dt: "app_id (dt_identity dt) = app"
    and w: "consistent e app H w" and st: "w_state w = Some a" and ld: "all_loaded app H (unfinished app a (w_pending w)) dt w"
  shows "triple (\<lambda>v. v = w) (open_reserved e reconcile expected (Some dt) concurrency)
    (\<lambda>c v. au_descriptor (snd a) = expected \<and> recovered e app H a dt w (ct_authority c, ct_delta c) v \<and> \<not> ct_failed c \<and>
       ct_concurrency c = concurrency) (unrecovered e app H a w)"
proof (rule open_triple_by [OF st])
  show "unrecovered e app H a w v" if "upto w v" for v
    using stableD [OF stable_consistent w that] st that by (simp add: unrecovered_def upto_iff)
  fix missing
  assume missing: "\<And>p. behind (snd a) (w_pending w) = Some p \<Longrightarrow> set missing = missing_tables dt p w"
  let ?rec = "\<lambda>h. recover_pending e reconcile a h (Some dt) missing (fc_publications concurrency)"
  obtain a' where a': "settled e app H a' w \<or> (\<exists>h. aborting e app H a' h w \<or> committing e app H a' h w \<or> finishing e app H a' h w)"
    using w unfolding consistent_def by blast
  have eq: "a' = a" using a' st by (auto simp: settled_def aborting_def committing_def finishing_def based_def)
  show "triple (upto w) (case w_pending w of None \<Rightarrow> bindIO (reconcile (snd a)) (\<lambda>_. returnIO (a, Some dt)) | Some h \<Rightarrow> ?rec h)
      (recovered e app H a dt w) (unrecovered e app H a w)"
  proof (cases "w_pending w")
    case None
    then have "settled e app H a w" using a' eq by (auto simp: aborting_def committing_def finishing_def)
    from recover_none [OF m this ld] show ?thesis by (simp add: None)
  next
    case (Some h)
    then consider "aborting e app H a h w" | "committing e app H a h w" | "finishing e app H a h w"
      using a' eq by (auto simp: settled_def aborting_def committing_def finishing_def)
    then have "triple (upto w) (?rec h) (recovered e app H a dt w) (unrecovered e app H a w)"
    proof cases
      case 1
      then show ?thesis by (rule recover_writing [OF m _ ld])
    next
      case 2
      show ?thesis by (rule recover_committed [OF sha laws m dt 2 ld]) (rule missing)
    next
      case 3
      then show ?thesis by (rule recover_advanced [OF sha m _ ld])
    qed
    then show ?thesis by (simp add: Some)
  qed
qed

section \<open>Completing a bounded request\<close>

definition completed :: "env \<Rightarrow> authority_state versioned \<Rightarrow> nat \<Rightarrow> authority_state versioned \<Rightarrow> bool" where
  "completed e a stop b \<longleftrightarrow>
     complete_request (e_ext e) (au_checkpoint (snd a)) (au_descriptor (snd a)) stop = Inr (au_checkpoint (snd b)) \<and>
     au_descriptor (snd b) = au_descriptor (snd a)"

lemma completed_state:
  assumes w: "settled e app H a w" "mirror_current e (snd a) (w_mirror w)" and b: "completed e a stop b" and j: "has_journal w (Some b, None) v"
  shows "settled e app H b v"
proof -
  note ok = complete_request_ok [OF conjunct1 [OF b [unfolded completed_def]]]
  have "authority_validate (e_ext e) (snd b) = Inr ()"
    using w(1) b ok(1) by (auto simp: settled_def based_def completed_def authority_validate_def bindR_eq_Inr)
  moreover have "ledger_behind H (au_checkpoint (snd b))"
    using w ok(3) by (simp add: settled_def based_def ledger_behind_def)
  moreover have "trails (au_checkpoint (snd a)) (au_checkpoint (snd b))"
    using ok(2-6,8) by (simp add: trails_def completion_extended_def split: option.splits)
  then have "mirror_ok e (snd b) (w_mirror v)"
    using current_completed [OF w(2), of "snd b"] b j by (simp add: completed_def has_journal_def)
  ultimately show ?thesis using w(1) j by (simp add: settled_def based_def has_journal_def logs_exact_def)
qed

lemma store_complete_triple:
  assumes w: "settled e app H a w" "mirror_current e (snd a) (w_mirror w)"
  shows "triple (\<lambda>v. v = w) (store_complete_request e a stop)
    (\<lambda>b v. completed e a stop b \<and> settled e app H b v \<and> w_logs v = w_logs w)
    (\<lambda>v. settled e app H a v \<or> (\<exists>b. completed e a stop b \<and> settled e app H b v))"
proof (rule triple_conseq [OF complete_atomic [of "Some a" a w None e stop, unfolded atomically_def]])
  have slots: "w_state w = Some a" "w_pending w = None" using w(1) by (auto simp: state_defs)
  have same: "settled e app H a v" if "has_journal w (Some a, None) v" for v
  proof -
    have "upto w v" using that journal_upto [of w v] slots by simp
    then show ?thesis by (rule stableD [OF stable_states(1) w(1)])
  qed
  show "settled e app H a v \<or> (\<exists>b. completed e a stop b \<and> settled e app H b v)"
    if "has_journal w (Some a, None) v \<or> (\<exists>r k. (complete_request (e_ext e) (au_checkpoint (snd a)) (au_descriptor (snd a)) stop =
       Inr (au_checkpoint (snd r)) \<and> au_descriptor (snd r) = au_descriptor (snd a) \<and>
     (Some a, None) = (Some a, None) \<and> k = (Some r, None)) \<and> has_journal w k v)" for v
    using that same completed_state [OF w] unfolding completed_def by blast
  show "completed e a stop r \<and> settled e app H r v \<and> w_logs v = w_logs w"
    if "\<exists>k. (complete_request (e_ext e) (au_checkpoint (snd a)) (au_descriptor (snd a)) stop =
       Inr (au_checkpoint (snd r)) \<and> au_descriptor (snd r) = au_descriptor (snd a) \<and>
     (Some a, None) = (Some a, None) \<and> k = (Some r, None)) \<and> has_journal w k v" for r v
    using that completed_state [OF w, of stop r v] by (auto simp: completed_def has_journal_def)
  show "has_journal w (Some a, None) v" if "v = w" for v using that slots journal_upto [of w w] by simp
qed simp

definition complete_end ::
  "env \<Rightarrow> string \<Rightarrow> ledger \<Rightarrow> controller \<Rightarrow> nat \<Rightarrow> accepted_frontier \<Rightarrow> bool result \<times> controller \<Rightarrow> world \<Rightarrow> bool" where
  "complete_end e app H c stop frontier rc w \<longleftrightarrow>
     (case fst rc of
        Inl _ \<Rightarrow> ct_failed (snd rc) \<and> (settled e app H (ct_authority c) w \<or>
          (\<exists>b. completed e (ct_authority c) stop b \<and> settled e app H b w))
      | Inr changed \<Rightarrow> settled e app H (ct_authority (snd rc)) w \<and> (\<exists>dt. ready_for e app H (snd rc) dt w) \<and>
          require_fully_acknowledged frontier (au_checkpoint (snd (ct_authority c))) = Inr () \<and>
          (if changed then completed e (ct_authority c) stop (ct_authority (snd rc))
           else snd rc = c \<and> cp_completed_stop (au_checkpoint (snd (ct_authority c))) = Some stop))"

lemma complete_triple:
  assumes m: "mirror_law e reconcile" and w: "settled e app H (ct_authority c) w" and c: "ready_for e app H c dt w"
  shows "triple (\<lambda>v. v = w) (controller_complete_request e reconcile c stop frontier clean)
    (complete_end e app H c stop frontier) (\<lambda>_. False)" (is "triple _ _ ?Q _")
proof -
  let ?a = "ct_authority c" and ?c = "c\<lparr> ct_failed := True \<rparr>"
  let ?checks = "bindR (require clean ''interrupted or failed stream cannot prove bounded request completion'') (\<lambda>_.
      bindR (require_fully_acknowledged frontier (au_checkpoint (snd ?a))) (\<lambda>_. request_already_complete c stop))"
  let ?W = "\<lambda>b v. settled e app H b v \<and> w_logs v = w_logs w"
  have nf: "\<not> ct_failed c" and cur: "mirror_current e (snd ?a) (w_mirror w)" using c by (simp_all add: ready_for_def)
  have finish: "triple (?W b) (bindIO (tryIO (bindIO (crash_point e) (\<lambda>_. bindIO (reconcile (snd b)) (\<lambda>_. crash_point e)))) (\<lambda>finished.
      returnIO (case finished of Inl err \<Rightarrow> (Inl err, ?c\<lparr> ct_authority := b \<rparr>)
        | Inr _ \<Rightarrow> (Inr True, ?c\<lparr> ct_authority := b, ct_failed := False \<rparr>)))) ?Q (\<lambda>_. False)"
    if b: "completed e ?a stop b" and full: "require_fully_acknowledged frontier (au_checkpoint (snd ?a)) = Inr ()" for b
  proof -
    have st: "stable (?W b)" by (intro stable_conj stable_states) (auto simp: stable_def upto_iff)
    let ?V = "\<lambda>v. ?W b v \<and> mirror_current e (snd b) (w_mirror v)"
    have mir: "triple (?W b) (reconcile (snd b)) (\<lambda>_. ?V) (?W b)"
      by (rule mirror_law.reconcile_triple [OF m st]) (use mirror_states(1) in auto)
    have stV: "stable ?V" by (intro stable_conj [OF st]) (auto simp: stable_def upto_iff)
    have "triple (?W b) (bindIO (crash_point e) (\<lambda>_. bindIO (reconcile (snd b)) (\<lambda>_. crash_point e))) (\<lambda>_. ?V) (?W b)"
      by (rule triple_bind [OF triple_crash [OF st]], rule triple_bind [OF mir], rule triple_conseq [OF triple_crash [OF stV]]) auto
    then show ?thesis
    proof (rule triple_bind_try; unfold sum.case; intro triple_return)
      show "?Q (Inl err, ?c\<lparr> ct_authority := b \<rparr>) v" if "?W b v" for err v
      proof -
        have "\<exists>b. completed e ?a stop b \<and> settled e app H b v" using that b by blast
        then show ?thesis unfolding complete_end_def fst_conv snd_conv sum.case by simp
      qed
      show "?Q (Inr True, ?c\<lparr> ct_authority := b, ct_failed := False \<rparr>) v" if "?V v" for v
      proof -
        have "ready_for e app H (?c\<lparr> ct_authority := b, ct_failed := False \<rparr>) dt v"
          using that c by (simp add: ready_for_def snapshots_at_def)
        then show ?thesis using that b full by (auto simp: complete_end_def)
      qed
    qed
  qed
  show ?thesis
  proof (cases ?checks)
    case (Inl err)
    then show ?thesis unfolding controller_complete_request_def Let_def if_not_P [OF nf] Inl sum.case
      by (intro triple_return) (use w in \<open>simp add: complete_end_def\<close>)
  next
    case (Inr already)
    then have full: "require_fully_acknowledged frontier (au_checkpoint (snd ?a)) = Inr ()" and al: "request_already_complete c stop = Inr already"
      by (auto simp: bindR_eq_Inr)
    consider (yes) "already = True" | (no) "already = False" by blast
    then show ?thesis
    proof cases
      case yes
      then have "cp_completed_stop (au_checkpoint (snd ?a)) = Some stop"
        using al by (auto simp: request_already_complete_def bail_def split: option.splits if_splits)
      then show ?thesis unfolding controller_complete_request_def Let_def if_not_P [OF nf] Inr yes sum.case bool.case
        by (intro triple_return) (use w c full in \<open>auto simp: complete_end_def\<close>)
    next
      case no
      show ?thesis unfolding controller_complete_request_def Let_def if_not_P [OF nf] Inr no sum.case bool.case
      proof (rule triple_bind_try [OF store_complete_triple [OF w cur]]; unfold sum.case)
        show "triple (\<lambda>v. settled e app H ?a v \<or> (\<exists>b. completed e ?a stop b \<and> settled e app H b v)) (returnIO (Inl err, ?c)) ?Q (\<lambda>_. False)" for err
          by (rule triple_return) (simp add: complete_end_def)
        show "triple (\<lambda>v. completed e ?a stop b \<and> ?W b v) (bindIO (tryIO (bindIO (crash_point e) (\<lambda>_. bindIO (reconcile (snd b)) (\<lambda>_. crash_point e)))) (\<lambda>finished.
      returnIO (case finished of Inl err \<Rightarrow> (Inl err, ?c\<lparr> ct_authority := b \<rparr>)
        | Inr _ \<Rightarrow> (Inr True, ?c\<lparr> ct_authority := b, ct_failed := False \<rparr>)))) ?Q (\<lambda>_. False)" for b
          by (rule triple_pre_pure) (rule finish [OF _ full])
      qed
    qed
  qed
qed

end
