(* ===== verification/Binding.thy ===== *)
theory Binding
  imports Txn_Parts Byte_Text
begin

text \<open>
  The durable identities of the storage a stream writes to (\<open>ingest/binding.rs\<close>, \<open>s3.rs\<close>, \<open>writer.rs\<close>): the
  output, the cursor mirror and the S3 service behind a bucket, resolved from paths and the configured
  endpoint. The URI parser of the \<open>http\<close> crate, the current directory and the canonicalization of the file
  system are the record \<open>resolver\<close>; the locale \<open>file_system\<close> states what is used of the last one. Shown: the
  path of a resolved output resolves to the same output, so a stream is never refused on the storage it
  was set up for.
\<close>

section \<open>Configuration\<close>

record aws_config =
  aws_region :: "string option"
  aws_endpoint_url :: "string option"

record uri =
  ur_scheme :: "string option"
  ur_host :: "string option"
  ur_port :: "nat option"
  ur_path :: string

datatype canonicalized =
    Canonical string bool
      \<comment> \<open>the canonical path, and whether it is a directory\<close>
  | NotFound
  | Unresolved

record resolver =
  rs_uri :: "string \<Rightarrow> uri option"
  rs_current_dir :: "string option"
  rs_canonicalize :: "string \<Rightarrow> canonicalized"

section \<open>S3 services\<close>

definition strip_suffix :: "string \<Rightarrow> string \<Rightarrow> string option" where
  "strip_suffix p s = map_option rev (strip_prefix (rev p) (rev s))"

definition trim_end_slashes :: "string \<Rightarrow> string" where
  "trim_end_slashes s = rev (dropWhile (\<lambda>c. c = CHR ''/'') (rev s))"

text \<open>Whether the host of an endpoint names a bucket; another bucket than the requested one is refused.\<close>

definition service_label :: "string \<Rightarrow> bool" where
  "service_label label \<longleftrightarrow> label = ''s3'' \<or> strip_prefix ''s3-'' label \<noteq> None \<or> strip_prefix ''s3express-'' label \<noteq> None"

definition bound_bucket :: "string \<Rightarrow> string option" where
  "bound_bucket host =
     (case strip_suffix ''.fly.storage.tigris.dev'' host of
        Some prefix \<Rightarrow> Some prefix
      | None \<Rightarrow>
          (case (case strip_suffix ''.amazonaws.com'' host of Some p \<Rightarrow> Some p | None \<Rightarrow> strip_suffix ''.amazonaws.com.cn'' host) of
             None \<Rightarrow> None
           | Some prefix \<Rightarrow>
               let labels = split_on (CHR ''.'') prefix;
                   tail = dropWhile (\<lambda>label. \<not> service_label label) (rev labels) in
               if length tail \<le> 1 then None else Some (join_str ''.'' (rev (tl tail)))))"

definition endpoint_is_bucket_bound :: "resolver \<Rightarrow> string \<Rightarrow> string \<Rightarrow> bool result" where
  "endpoint_is_bucket_bound rs endpoint bucket =
     bindR (some_or (rs_uri rs endpoint) ''invalid AWS endpoint URL'') (\<lambda>uri.
     bindR (some_or (ur_host uri) ''AWS endpoint URL must contain a host'') (\<lambda>host.
     case bound_bucket (to_lowercase host) of
       None \<Rightarrow> Inr False
     | Some bound \<Rightarrow> bindR (require (bound = bucket) ''AWS endpoint host is bound to another bucket'') (\<lambda>_. Inr True)))"

definition validate_bucket :: "string \<Rightarrow> unit result" where
  "validate_bucket bucket =
     require (bucket \<noteq> [] \<and> length bucket \<le> 255 \<and>
         list_all (\<lambda>b. is_ascii_lowercase b \<or> is_ascii_digit b \<or> b = CHR ''-'' \<or> b = CHR ''.'') bucket \<and>
         bucket \<noteq> ''.'' \<and> bucket \<noteq> ''..'')
       ''invalid protected S3 bucket name''"

definition resolve_service_identity :: "ext \<Rightarrow> resolver \<Rightarrow> aws_config \<Rightarrow> string \<Rightarrow> digest result" where
  "resolve_service_identity x rs aws bucket =
     bindR (validate_bucket bucket) (\<lambda>_.
     let region = (case aws_region aws of None \<Rightarrow> ''us-east-1'' | Some r \<Rightarrow> r) in
     bindR (require (region \<noteq> [] \<and> length region \<le> 255 \<and> list_all (\<lambda>b. is_ascii_alphanumeric b \<or> b = CHR ''-'') region)
       ''invalid S3 service region'') (\<lambda>_.
     let endpoint = (case aws_endpoint_url aws of None \<Rightarrow> ''https://s3.'' @ region @ ''.amazonaws.com'' | Some u \<Rightarrow> u) in
     bindR (require (\<not> list_ex (\<lambda>c. c \<in> {CHR 0x40, CHR ''?'', CHR ''#'', CHR 0x5C, CHR 0x25}) endpoint \<and> length endpoint \<le> 4096)
       ''protected S3 endpoints must not contain credentials, queries, fragments or encoded path components'') (\<lambda>_.
     bindR (some_or (rs_uri rs endpoint) ''invalid protected S3 service endpoint'') (\<lambda>uri.
     bindR (require (ur_scheme uri = Some ''https'') ''protected S3 endpoints require HTTPS'') (\<lambda>_.
     bindR (some_or (ur_host uri) ''protected S3 endpoint requires a host'') (\<lambda>host0.
     let host = to_lowercase host0 in
     bindR (case endpoint_is_bucket_bound rs endpoint bucket of
              Inl _ \<Rightarrow> bail ''S3 endpoint is incompatible with the requested bucket''
            | Inr False \<Rightarrow> Inr host
            | Inr True \<Rightarrow> some_or (strip_prefix (bucket @ ''.'') host) ''invalid bucket-bound S3 endpoint'') (\<lambda>host.
     let port = (if ur_port uri = Some 443 then None else ur_port uri);
         path = trim_end_slashes (ur_path uri) in
     bindR (require (path = [] \<or> (hd path = CHR ''/'' \<and>
         \<not> list_ex (\<lambda>part. part = [] \<or> part = ''.'' \<or> part = ''..'') (split_on (CHR ''/'') (tl path))))
       ''protected S3 endpoint has an ambiguous service path'') (\<lambda>_.
     Inr (digest_hash x ''s3-service-v1''
       (JArr [JStr ''https'', JStr host, opt_json (\<lambda>n. JNum (int n)) port, JStr path, JStr region]))))))))))"

section \<open>Paths\<close>

definition parse_s3_url :: "string \<Rightarrow> (string \<times> string) result" where
  "parse_s3_url url =
     bindR (some_or (strip_prefix ''s3://'' url) ''expected s3:// URL'') (\<lambda>rest.
     let (bucket, prefix) =
       (case dropWhile (\<lambda>c. c \<noteq> CHR ''/'') rest of
          [] \<Rightarrow> (rest, [])
        | _ # tail \<Rightarrow> (takeWhile (\<lambda>c. c \<noteq> CHR ''/'') rest, trim_end_slashes tail)) in
     bindR (require (bucket \<noteq> []) ''S3 URL missing bucket name'') (\<lambda>_. Inr (bucket, prefix)))"

definition parse_remote :: "string \<Rightarrow> bool \<Rightarrow> (string \<times> string) result" where
  "parse_remote path empty_allowed =
     bindR (case parse_s3_url path of Inl _ \<Rightarrow> bail ''invalid protected S3 path'' | Inr parsed \<Rightarrow> Inr parsed) (\<lambda>(bucket, key).
     bindR (validate_bucket bucket) (\<lambda>_.
     bindR (validate_relative_path key empty_allowed) (\<lambda>_.
     bindR (require (strip_suffix ''//'' path = None) ''ambiguous protected S3 path separators'') (\<lambda>_. Inr (bucket, key)))))"

text \<open>\<open>Path::components\<close> of an absolute path drops empty and \<open>.\<close> components.\<close>

definition path_components :: "string \<Rightarrow> string list" where
  "path_components path = filter (\<lambda>c. c \<noteq> [] \<and> c \<noteq> ''.'') (split_on (CHR ''/'') path)"

definition path_text :: "string list \<Rightarrow> string" where
  "path_text components = ''/'' @ join_str ''/'' components"

definition is_absolute :: "string \<Rightarrow> bool" where
  "is_absolute path \<longleftrightarrow> strip_prefix ''/'' path \<noteq> None"

definition path_join :: "string \<Rightarrow> string \<Rightarrow> string" where
  "path_join base path =
     (if is_absolute path then path else if base = [] \<or> last base = CHR ''/'' then base @ path else base @ ''/'' @ path)"

definition lexical_absolute :: "resolver \<Rightarrow> string \<Rightarrow> string list result" where
  "lexical_absolute rs path =
     bindR (if is_absolute path then Inr path
       else bindR (some_or (rs_current_dir rs) ''current directory'') (\<lambda>cwd. Inr (path_join cwd path))) (\<lambda>full.
     bindR (require (''..'' \<notin> set (path_components full)) ''protected storage paths must not contain parent traversal'') (\<lambda>_.
     Inr (path_components full)))"

text \<open>The longest existing ancestor, canonicalized, with the rest of the path: the components are in reverse.\<close>

fun canonical_from :: "resolver \<Rightarrow> string list \<Rightarrow> string list \<Rightarrow> string result" where
  "canonical_from rs existing suffix =
     (case rs_canonicalize rs (path_text (rev existing)) of
        Canonical canonical directory \<Rightarrow>
          bindR (require directory ''protected output ancestor is not a directory'') (\<lambda>_.
          Inr (if suffix = [] then canonical else path_join canonical (join_str ''/'' suffix)))
      | NotFound \<Rightarrow>
          (case existing of
             [] \<Rightarrow> bail ''protected output has no existing ancestor''
           | last_component # parent \<Rightarrow> canonical_from rs parent (last_component # suffix))
      | Unresolved \<Rightarrow> bail ''cannot resolve protected output ancestry'')"

declare canonical_from.simps [simp del]

definition canonical_directory :: "resolver \<Rightarrow> string \<Rightarrow> string result" where
  "canonical_directory rs path = bindR (lexical_absolute rs path) (\<lambda>components. canonical_from rs (rev components) [])"

section \<open>Bindings\<close>

definition resolve_output_identity :: "ext \<Rightarrow> resolver \<Rightarrow> aws_config \<Rightarrow> string \<Rightarrow> storage_identity result" where
  "resolve_output_identity x rs aws path =
     bindR (if strip_prefix ''s3://'' path \<noteq> None
       then bindR (parse_remote path True) (\<lambda>(bucket, prefix).
         bindR (resolve_service_identity x rs aws bucket) (\<lambda>service. Inr (SS3 service bucket prefix)))
       else bindR (canonical_directory rs path) (\<lambda>root. Inr (SLocal root))) (\<lambda>identity.
     bindR (storage_validate identity) (\<lambda>_. Inr identity))"

definition resolve_mirror_binding :: "ext \<Rightarrow> resolver \<Rightarrow> aws_config \<Rightarrow> string \<Rightarrow> string option \<Rightarrow> mirror_binding result" where
  "resolve_mirror_binding x rs aws output cursor =
     (case cursor of
        None \<Rightarrow> Inr MDisabled
      | Some cursor \<Rightarrow>
          bindR (if strip_prefix ''s3://'' cursor \<noteq> None
            then bindR (parse_remote cursor False) (\<lambda>(bucket, key).
              bindR (resolve_service_identity x rs aws bucket) (\<lambda>service. Inr (MS3 service bucket key)))
            else if strip_prefix ''s3://'' output \<noteq> None
            then bindR (require (\<not> is_absolute cursor) ''S3 output cannot use an absolute local cursor path'') (\<lambda>_.
              bindR (parse_remote output True) (\<lambda>(bucket, prefix).
              let relative = map (\<lambda>c. if c = CHR 0x5C then CHR ''/'' else c) cursor in
              bindR (validate_relative_path relative False) (\<lambda>_.
              let key = (if prefix = [] then relative else prefix @ ''/'' @ relative) in
              bindR (resolve_service_identity x rs aws bucket) (\<lambda>service. Inr (MS3 service bucket key)))))
            else bindR (lexical_absolute rs (path_join output cursor)) (\<lambda>components. Inr (MLocal (path_text components)))) (\<lambda>binding.
          bindR (mirror_binding_validate binding) (\<lambda>_. Inr binding)))"

definition validate_runtime_bindings :: "ext \<Rightarrow> resolver \<Rightarrow> aws_config \<Rightarrow> stream_descriptor \<Rightarrow> string \<Rightarrow> unit result" where
  "validate_runtime_bindings x rs aws d output_path =
     bindR (descriptor_validate d) (\<lambda>_.
     bindR (resolve_output_identity x rs aws output_path) (\<lambda>resolved.
     bindR (require (sd_output d = resolved) ''authoritative output binding differs from the selected storage destination'') (\<lambda>_.
     case sd_mirror d of
       MS3 service bucket key \<Rightarrow>
         bindR (resolve_service_identity x rs aws bucket) (\<lambda>resolved.
         require (service = resolved) ''authoritative cursor service differs from the resolved storage service'')
     | _ \<Rightarrow> Inr ())))"

fun mirror_service :: "ext \<Rightarrow> resolver \<Rightarrow> aws_config \<Rightarrow> mirror_binding \<Rightarrow> digest option result" where
  "mirror_service x rs aws (MS3 service bucket key) = bindR (resolve_service_identity x rs aws bucket) (\<lambda>d. Inr (Some d))"
| "mirror_service x rs aws _ = Inr None"

fun output_path :: "storage_identity \<Rightarrow> string" where
  "output_path (SLocal canonical_root) = canonical_root"
| "output_path (SS3 service bucket prefix) = (if prefix = [] then ''s3://'' @ bucket else ''s3://'' @ bucket @ ''/'' @ prefix)"

section \<open>Paths of components\<close>

definition plain_component :: "string \<Rightarrow> bool" where
  "plain_component c \<longleftrightarrow> c \<noteq> [] \<and> c \<noteq> ''.'' \<and> c \<noteq> ''..'' \<and> CHR ''/'' \<notin> set c"

abbreviation plain :: "string list \<Rightarrow> bool" where
  "plain \<equiv> list_all plain_component"

lemma split_joined:
  assumes "cs \<noteq> []" "\<And>c. c \<in> set cs \<Longrightarrow> CHR ''/'' \<notin> set c"
  shows "split_on (CHR ''/'') (join_str ''/'' cs) = cs"
  using assms
proof (induction "''/''" cs rule: join_str.induct)
  case (3 s a ss)
  then show ?case using split_on_append [of "CHR ''/''" s "join_str ''/'' (a # ss)"] by simp
qed (simp_all add: split_on_no_sep)

lemma components_text: "plain cs \<Longrightarrow> path_components (path_text cs) = cs"
  using split_joined [of cs] by (cases "cs = []") (auto simp: path_components_def path_text_def list_all_iff plain_component_def intro!: filter_True)

lemma components_plain: "''..'' \<notin> set (path_components p) \<Longrightarrow> plain (path_components p)"
  using split_on_parts by (fastforce simp: path_components_def list_all_iff plain_component_def)

lemma join_append: "cs \<noteq> [] \<Longrightarrow> ss \<noteq> [] \<Longrightarrow> join_str sep (cs @ ss) = join_str sep cs @ sep @ join_str sep ss"
proof (induction cs rule: induct_list012)
  case (2 c)
  then show ?case by (cases ss) simp_all
qed simp_all

lemma last_joined: "cs \<noteq> [] \<Longrightarrow> plain cs \<Longrightarrow> join_str ''/'' cs \<noteq> [] \<and> last (join_str ''/'' cs) \<noteq> CHR ''/''"
proof (induction cs rule: induct_list012)
  case (2 c)
  then have "c \<noteq> []" "CHR ''/'' \<notin> set c" by (simp_all add: plain_component_def)
  then show ?case using last_in_set by fastforce
qed auto

lemma joined_relative: "ss \<noteq> [] \<Longrightarrow> plain ss \<Longrightarrow> \<not> is_absolute (join_str ''/'' ss)"
  by (cases ss; cases "tl ss"; cases "hd ss") (auto simp: is_absolute_def plain_component_def)

lemma join_text: "plain cs \<Longrightarrow> plain ss \<Longrightarrow> ss \<noteq> [] \<Longrightarrow> path_join (path_text cs) (join_str ''/'' ss) = path_text (cs @ ss)"
  using last_joined [of cs] joined_relative [of ss] join_append [of cs ss "''/''"]
  by (cases "cs = []") (simp_all add: path_join_def path_text_def)

text \<open>Where canonicalization finds the longest existing ancestor.\<close>

lemma canonical_from_ok:
  assumes "canonical_from rs ex suffix = Inr root"
  shows "\<exists>ps mid c. rev ex = ps @ mid \<and> rs_canonicalize rs (path_text ps) = Canonical c True \<and>
    (\<forall>m n. mid = m @ n \<longrightarrow> m \<noteq> [] \<longrightarrow> rs_canonicalize rs (path_text (ps @ m)) = NotFound) \<and>
    root = (if mid @ suffix = [] then c else path_join c (join_str ''/'' (mid @ suffix)))"
  using assms
proof (induction rs ex suffix rule: canonical_from.induct)
  case (1 rs ex suffix)
  show ?case
  proof (cases "rs_canonicalize rs (path_text (rev ex))")
    case (Canonical c d)
    then show ?thesis using "1.prems"
      by (intro exI [of _ "rev ex"] exI [of _ "[]"] exI [of _ c]) (auto simp: canonical_from.simps [of rs ex] bindR_eq_Inr split: if_splits)
  next
    case NotFound
    then obtain l parent where ex: "ex = l # parent" "canonical_from rs parent (l # suffix) = Inr root"
      using "1.prems" by (auto simp: canonical_from.simps [of rs ex] bail_def split: list.splits)
    from "1.IH" [OF NotFound ex] obtain ps mid c where h: "rev parent = ps @ mid" "rs_canonicalize rs (path_text ps) = Canonical c True"
      "\<forall>m n. mid = m @ n \<longrightarrow> m \<noteq> [] \<longrightarrow> rs_canonicalize rs (path_text (ps @ m)) = NotFound"
      "root = (if mid @ l # suffix = [] then c else path_join c (join_str ''/'' (mid @ l # suffix)))" by blast
    have "rs_canonicalize rs (path_text (ps @ m)) = NotFound" if "mid @ [l] = m @ n" "m \<noteq> []" for m n
    proof (cases n rule: rev_cases)
      case Nil
      then show ?thesis using that NotFound ex(1) h(1) by simp
    next
      case (snoc n' k)
      then show ?thesis using that h(3) by simp
    qed
    then show ?thesis using ex(1) h by (intro exI [of _ ps] exI [of _ "mid @ [l]"] exI [of _ c]) auto
  qed (use "1.prems" in \<open>simp add: canonical_from.simps [of rs ex] bail_def\<close>)
qed

lemma canonical_from_at:
  assumes "rs_canonicalize rs (path_text ps) = Canonical c True"
    "\<And>m n. mid = m @ n \<Longrightarrow> m \<noteq> [] \<Longrightarrow> rs_canonicalize rs (path_text (ps @ m)) = NotFound"
  shows "canonical_from rs (rev (ps @ mid)) suffix = Inr (if mid @ suffix = [] then c else path_join c (join_str ''/'' (mid @ suffix)))"
  using assms(2)
proof (induction mid arbitrary: suffix rule: rev_induct)
  case Nil
  then show ?case using assms(1) by (simp add: canonical_from.simps)
next
  case (snoc l mid)
  have "rs_canonicalize rs (path_text (ps @ mid @ [l])) = NotFound" using snoc.prems [of "mid @ [l]" "[]"] by simp
  moreover have "canonical_from rs (rev (ps @ mid)) (l # suffix) = Inr (if mid @ l # suffix = [] then c else path_join c (join_str ''/'' (mid @ l # suffix)))"
    by (rule snoc.IH) (use snoc.prems in auto)
  ultimately show ?case by (simp add: canonical_from.simps [of rs "l # rev mid @ rev ps"])
qed

text \<open>What is used of \<open>fs::canonicalize\<close>: the result is absolute and normalized, and names the same file in every path below it.\<close>

locale file_system =
  fixes rs :: resolver
  assumes canonical_form: "rs_canonicalize rs p = Canonical c d \<Longrightarrow> \<exists>cs. plain cs \<and> c = path_text cs"
    and canonical_prefix: "rs_canonicalize rs (path_text ps) = Canonical (path_text cs) d \<Longrightarrow> plain ps \<Longrightarrow> plain cs \<Longrightarrow> plain ss \<Longrightarrow>
      rs_canonicalize rs (path_text (ps @ ss)) = rs_canonicalize rs (path_text (cs @ ss))"
begin

lemma canonical_directory_plain:
  assumes "canonical_directory rs path = Inr root"
  obtains cs where "plain cs" "root = path_text cs" "canonical_directory rs root = Inr root"
proof -
  obtain comps where comps: "plain comps" "canonical_from rs (rev comps) [] = Inr root"
    using assms components_plain by (auto simp: canonical_directory_def lexical_absolute_def bindR_eq_Inr)
  obtain ps mid c where h: "comps = ps @ mid" "rs_canonicalize rs (path_text ps) = Canonical c True"
    "\<And>m n. mid = m @ n \<Longrightarrow> m \<noteq> [] \<Longrightarrow> rs_canonicalize rs (path_text (ps @ m)) = NotFound"
    "root = (if mid = [] then c else path_join c (join_str ''/'' mid))"
    using canonical_from_ok [OF comps(2)] by auto
  obtain cs where cs: "plain cs" "c = path_text cs" using canonical_form [OF h(2)] by blast
  have pl: "plain ps" "plain mid" using comps(1) h(1) by simp_all
  have root: "root = path_text (cs @ mid)" using h(4) cs join_text [OF cs(1) pl(2)] by (cases "mid = []") simp_all
  have pre: "rs_canonicalize rs (path_text (ps @ ss)) = rs_canonicalize rs (path_text (cs @ ss))" if "plain ss" for ss
    using canonical_prefix [OF h(2) [unfolded cs(2)] pl(1) cs(1) that] .
  have "canonical_from rs (rev (cs @ mid)) [] = Inr (if mid @ [] = [] then c else path_join c (join_str ''/'' (mid @ [])))"
  proof (rule canonical_from_at)
    show "rs_canonicalize rs (path_text cs) = Canonical c True" using pre [of "[]"] h(2) by simp
    show "rs_canonicalize rs (path_text (cs @ m)) = NotFound" if m: "mid = m @ n" "m \<noteq> []" for m n
    proof -
      have "plain m" using pl(2) m(1) by simp
      then show ?thesis using pre h(3) [OF m] by simp
    qed
  qed
  then have again: "canonical_from rs (rev (cs @ mid)) [] = Inr root" using h(4) by simp
  have all: "plain (cs @ mid)" using cs(1) pl(2) by simp
  moreover have "''..'' \<notin> set (cs @ mid)" using all by (auto simp: list_all_iff plain_component_def)
  ultimately have "canonical_directory rs root = Inr root"
    using again components_text [OF all] by (simp add: canonical_directory_def lexical_absolute_def root is_absolute_def path_text_def)
  then show ?thesis using that all root by blast
qed

end

section \<open>Remote outputs\<close>

lemma strip_suffix_last: "s = [] \<or> last s \<noteq> CHR ''/'' \<Longrightarrow> strip_suffix ''//'' s = None"
  by (cases s rule: rev_cases) (auto simp: strip_suffix_def)

lemma trim_end_last: "s = [] \<or> last s \<noteq> CHR ''/'' \<Longrightarrow> trim_end_slashes s = s"
  by (cases s rule: rev_cases) (auto simp: trim_end_slashes_def)

lemma split_trailing: "split_on c (s @ [c]) = split_on c s @ [[]]"
  by (induction s) (auto split: list.splits)

lemma relative_last:
  assumes "validate_relative_path key True = Inr ()"
  shows "key = [] \<or> last key \<noteq> CHR ''/''"
proof (cases key rule: rev_cases)
  case (snoc s c)
  then have "\<not> list_ex (\<lambda>part. part = [] \<or> part = ''.'' \<or> part = ''..'' \<or> length part > 255) (split_on (CHR ''/'') (s @ [c]))"
    using assms unfolding validate_relative_path_def by (simp add: bail_def split: if_splits)
  then have "c \<noteq> CHR ''/''" unfolding list_ex_iff using split_trailing [of c s] by force
  then show ?thesis using snoc by simp
qed simp

lemma parse_remote_again:
  assumes "parse_remote path True = Inr (bucket, prefix)"
  shows "parse_remote (output_path (SS3 service bucket prefix)) True = Inr (bucket, prefix)"
proof -
  have ok: "validate_bucket bucket = Inr ()" "validate_relative_path prefix True = Inr ()"
    using assms by (auto simp: parse_remote_def bindR_eq_Inr bail_def split: sum.splits)
  have b: "bucket \<noteq> []" "CHR ''/'' \<notin> set bucket" using ok(1) by (auto simp: validate_bucket_def list_all_iff is_ascii_lowercase_def is_ascii_digit_def byte_def dest!: bspec [of "set bucket" _ "CHR ''/''"])
  note p = relative_last [OF ok(2)]
  have drop: "dropWhile (\<lambda>c. c \<noteq> CHR ''/'') (bucket @ t) = dropWhile (\<lambda>c. c \<noteq> CHR ''/'') t"
    and take: "takeWhile (\<lambda>c. c \<noteq> CHR ''/'') (bucket @ CHR ''/'' # t) = bucket" for t
    using b(2) by (induction bucket) auto
  have "strip_suffix ''//'' (''s3://'' @ bucket) = None"
    by (rule strip_suffix_last) (use b in \<open>cases bucket rule: rev_cases, auto\<close>)
  moreover have "strip_suffix ''//'' (''s3://'' @ bucket @ ''/'' @ prefix) = None" if "prefix \<noteq> []"
    by (rule strip_suffix_last) (use p that in simp)
  moreover have "dropWhile (\<lambda>c. c \<noteq> CHR ''/'') bucket = []" using b(2) by auto
  note nil = this
  have "parse_s3_url (output_path (SS3 service bucket prefix)) = Inr (bucket, prefix)"
    using b(1) drop [of "CHR ''/'' # prefix"] take [of prefix] trim_end_last [OF p]
    by (cases "prefix = []") (simp_all add: parse_s3_url_def nil)
  ultimately show ?thesis using ok by (cases "prefix = []") (simp_all add: parse_remote_def)
qed

lemma mirror_service_resolved:
  assumes "resolve_mirror_binding x rs aws output cursor = Inr (MS3 service bucket key)"
  shows "resolve_service_identity x rs aws bucket = Inr service"
  using assms by (auto simp: resolve_mirror_binding_def bindR_eq_Inr Let_def split: option.splits if_splits)

lemma output_resolves_again:
  assumes fs: "file_system rs" and res: "resolve_output_identity x rs aws path = Inr identity"
  shows "resolve_output_identity x rs aws (output_path identity) = Inr identity"
proof -
  have valid: "storage_validate identity = Inr ()" using res by (auto simp: resolve_output_identity_def bindR_eq_Inr)
  show ?thesis
  proof (cases identity)
    case (SS3 service bucket prefix)
    then have "parse_remote path True = Inr (bucket, prefix)" "resolve_service_identity x rs aws bucket = Inr service"
      using res by (auto simp: resolve_output_identity_def bindR_eq_Inr split: if_splits)
    moreover have "strip_prefix ''s3://'' (output_path identity) \<noteq> None" using SS3 by simp
    ultimately show ?thesis using parse_remote_again [of path bucket prefix service] valid SS3
      by (simp add: resolve_output_identity_def)
  next
    case (SLocal root)
    then have "canonical_directory rs path = Inr root" using res by (auto simp: resolve_output_identity_def bindR_eq_Inr split: if_splits)
    from file_system.canonical_directory_plain [OF fs this] obtain cs where "root = path_text cs" "canonical_directory rs root = Inr root" by metis
    then show ?thesis using valid SLocal by (simp add: resolve_output_identity_def path_text_def)
  qed
qed

section \<open>A file system with one directory\<close>

definition sample_resolver :: resolver where
  "sample_resolver = \<lparr> rs_uri = (\<lambda>_. None), rs_current_dir = None,
     rs_canonicalize = (\<lambda>p. if p = ''/'' \<or> p = ''/d'' then Canonical p True else NotFound) \<rparr>"

lemma sample_canonical: "rs_canonicalize sample_resolver p = Canonical c d \<Longrightarrow> c = p \<and> (p = ''/'' \<or> p = ''/d'')"
  by (simp add: sample_resolver_def split: if_splits)

interpretation sample_files: file_system sample_resolver
proof
  show "\<exists>cs. plain cs \<and> c = path_text cs" if "rs_canonicalize sample_resolver p = Canonical c d" for p c d
    using sample_canonical [OF that]
  proof (elim conjE disjE)
    assume "c = p" "p = ''/''"
    then show ?thesis by (intro exI [of _ "[]"]) (simp add: path_text_def)
  next
    assume "c = p" "p = ''/d''"
    then show ?thesis by (intro exI [of _ "[''d'']"]) (simp add: path_text_def plain_component_def)
  qed
  show "rs_canonicalize sample_resolver (path_text (ps @ ss)) = rs_canonicalize sample_resolver (path_text (cs @ ss))"
    if c: "rs_canonicalize sample_resolver (path_text ps) = Canonical (path_text cs) d" and pl: "plain ps" "plain cs" for ps cs d ss
  proof -
    have "path_text cs = path_text ps" using sample_canonical [OF c] by (rule conjunct1)
    then have "ps = cs" using components_text [OF pl(1)] components_text [OF pl(2)] by metis
    then show ?thesis by (rule arg_cong)
  qed
qed

lemma sample_output: "resolve_output_identity x sample_resolver aws ''/d'' = Inr (SLocal ''/d'')"
proof -
  have "path_components ''/d'' = [''d'']" by code_simp
  then have "canonical_directory sample_resolver ''/d'' = Inr ''/d''"
    by (simp add: canonical_directory_def lexical_absolute_def is_absolute_def canonical_from.simps path_text_def sample_resolver_def)
  moreover have "storage_validate (SLocal ''/d'') = Inr ()" by code_simp
  ultimately show ?thesis by (simp add: resolve_output_identity_def)
qed

section \<open>Properties\<close>

text \<open>
  C16. A stream is never refused on the storage it was set up for: the output and the
  mirror resolved from the configured paths are valid identities, the path derived from the output
  identity resolves to the same identity, and a valid descriptor with this output and mirror passes the
  check of its runtime bindings, with the mirror service resolved to the one in the mirror binding.
\<close>

theorem bindings_resolve:
  assumes "file_system rs" "resolve_output_identity x rs aws path = Inr identity" "resolve_mirror_binding x rs aws path cursor = Inr binding"
    "descriptor_validate d = Inr ()" "sd_output d = identity" "sd_mirror d = binding"
  shows "storage_validate identity = Inr () \<and> mirror_binding_validate binding = Inr () \<and>
    resolve_output_identity x rs aws (output_path identity) = Inr identity \<and>
    validate_runtime_bindings x rs aws d (output_path identity) = Inr () \<and>
    mirror_service x rs aws binding = Inr (case binding of MS3 service bucket key \<Rightarrow> Some service | _ \<Rightarrow> None)"
proof -
  note again = output_resolves_again [OF assms(1,2)]
  have "validate_runtime_bindings x rs aws d (output_path identity) = Inr ()"
    using again assms(4-6) mirror_service_resolved assms(3) by (cases binding) (auto simp: validate_runtime_bindings_def)
  moreover have "mirror_service x rs aws binding = Inr (case binding of MS3 service bucket key \<Rightarrow> Some service | _ \<Rightarrow> None)"
    using assms(3) mirror_service_resolved by (cases binding) auto
  moreover have "mirror_binding_validate binding = Inr ()"
    using assms(3) by (auto simp: resolve_mirror_binding_def bindR_eq_Inr split: option.splits)
  moreover have "storage_validate identity = Inr ()" using assms(2) by (auto simp: resolve_output_identity_def bindR_eq_Inr)
  ultimately show ?thesis using again by blast
qed

theorem bindings_resolve_witness:
  "resolve_output_identity sample_ext sample_resolver \<lparr> aws_region = None, aws_endpoint_url = None \<rparr> (output_path (SLocal ''/d'')) = Inr (SLocal ''/d'') \<and>
   validate_runtime_bindings sample_ext sample_resolver \<lparr> aws_region = None, aws_endpoint_url = None \<rparr> sample_descriptor ''/d'' = Inr ()"
proof -
  let ?aws = "\<lparr> aws_region = None, aws_endpoint_url = None \<rparr>"
  note out = sample_output [of sample_ext ?aws]
  have mir: "resolve_mirror_binding sample_ext sample_resolver ?aws ''/d'' None = Inr MDisabled" by (simp add: resolve_mirror_binding_def)
  have d: "sd_output sample_descriptor = SLocal ''/d''" "sd_mirror sample_descriptor = MDisabled" by (simp_all add: sample_descriptor_def)
  from bindings_resolve [OF sample_files.file_system_axioms out mir sample_descriptor_valid d] out show ?thesis by simp
qed

end
