(* ===== verification/Eligibility.thy ===== *)
theory Eligibility
  imports Mirror Binding
begin

text \<open>
  Whether a new stream may start on a root (\<open>ingest/eligibility.rs\<close>): the bindings of the descriptor hold,
  the root is owned, nothing but directories lies below it, and the mirror is absent. The directory tree
  that the file system lists is a parameter; the locale \<open>root_listing\<close> states that every file of the dataset
  appears in it. Shown: the walk accepts exactly the trees of bare directories within its bound, and a
  root that passes holds no file, no Delta commit and no mirror.
\<close>

section \<open>The walk\<close>

definition MAX_INITIALIZATION_ENTRIES :: nat where
  "MAX_INITIALIZATION_ENTRIES = 100000"

text \<open>An entry that is not a directory, or a directory with its entries unless reading it fails.\<close>

datatype dir_tree = Leaf string | Branch string "dir_tree list option"

fun entry_name :: "dir_tree \<Rightarrow> string" where
  "entry_name (Leaf n) = n"
| "entry_name (Branch n _) = n"

definition below :: "string \<Rightarrow> string \<Rightarrow> string" where
  "below path n = (if path = [] then n else path @ ''/'' @ n)"

definition reject_existing :: error where
  "reject_existing = Bail ''output contains legacy data, cursor, recovery controls or unrelated files; protected ingestion requires a new empty root or an existing authoritative stream''"

type_synonym pending_directory = "string \<times> dir_tree list option"

fun visit_entries :: "string \<Rightarrow> dir_tree list \<Rightarrow> pending_directory list \<Rightarrow> nat \<Rightarrow> (pending_directory list \<times> nat) result" where
  "visit_entries path [] directories visited = Inr (directories, visited)"
| "visit_entries path (entry # entries) directories visited =
     bindR (require (Suc visited \<le> MAX_INITIALIZATION_ENTRIES) ''initialization tree is too large to prove empty'') (\<lambda>_.
     let relative = below path (entry_name entry) in
     bindR (require (\<not> is_control_path relative)
       ''uninitialized output contains recovery controls; inspect them before choosing a new root'') (\<lambda>_.
     case entry of
       Branch n contents \<Rightarrow> visit_entries path entries ((relative, contents) # directories) (Suc visited)
     | Leaf n \<Rightarrow> Inl reject_existing))"

text \<open>The number of entries in a tree, for the bound and for termination.\<close>

fun nodes :: "dir_tree \<Rightarrow> nat" where
  "nodes (Leaf n) = 1"
| "nodes (Branch n None) = 1"
| "nodes (Branch n (Some entries)) = Suc (sum_list (map nodes entries))"

fun directory_nodes :: "pending_directory \<Rightarrow> nat" where
  "directory_nodes (path, None) = 0"
| "directory_nodes (path, Some entries) = sum_list (map nodes entries)"

abbreviation stack_nodes :: "pending_directory list \<Rightarrow> nat" where
  "stack_nodes ds \<equiv> sum_list (map directory_nodes ds)"

text \<open>What a directory adds to the stack, last entry first.\<close>

fun opened :: "string \<Rightarrow> dir_tree \<Rightarrow> pending_directory" where
  "opened path (Branch n contents) = (below path n, contents)"
| "opened path (Leaf n) = (below path n, None)"

fun passes :: "string \<Rightarrow> dir_tree \<Rightarrow> bool" where
  "passes path (Branch n contents) \<longleftrightarrow> \<not> is_control_path (below path n)"
| "passes path (Leaf n) \<longleftrightarrow> False"

lemma visit_ok:
  "visit_entries path entries ds visited = Inr r \<longleftrightarrow>
     list_all (passes path) entries \<and> (entries = [] \<or> visited + length entries \<le> MAX_INITIALIZATION_ENTRIES) \<and>
     r = (rev (map (opened path) entries) @ ds, visited + length entries)"
proof (induction entries arbitrary: ds visited)
  case (Cons entry entries)
  show ?case
  proof (cases entry)
    case (Branch n contents)
    then show ?thesis using Cons.IH [of "(below path n, contents) # ds" "Suc visited"] by (auto simp: bindR_eq_Inr Let_def)
  qed (simp add: bindR_eq_Inr Let_def)
qed auto

lemma passes_nodes: "passes path t \<Longrightarrow> nodes t = Suc (directory_nodes (opened path t))"
  by (cases "(path, t)" rule: passes.cases; cases "snd (opened path t)") auto

lemma opened_nodes:
  "list_all (passes path) entries \<Longrightarrow> sum_list (map nodes entries) = stack_nodes (map (opened path) entries) + length entries"
  by (induction entries) (simp_all add: passes_nodes)

function walk :: "pending_directory list \<Rightarrow> nat \<Rightarrow> nat result" where
  "walk [] visited = Inr visited"
| "walk ((path, None) # directories) visited = bail ''cannot inspect protected initialization directory''"
| "walk ((path, Some entries) # directories) visited =
     (case visit_entries path entries directories visited of
        Inl err \<Rightarrow> Inl err
      | Inr (directories', visited') \<Rightarrow> walk directories' visited')"
  by pat_completeness auto

termination
  by (relation "measure (\<lambda>(ds, _). stack_nodes ds + length ds)") (auto simp: visit_ok opened_nodes rev_map [symmetric] sum_list_rev)

text \<open>A root that does not exist yet has nothing to check.\<close>

definition walk_local_contents :: "dir_tree list option option \<Rightarrow> unit result" where
  "walk_local_contents root = (case root of None \<Rightarrow> Inr () | Some contents \<Rightarrow> bindR (walk [([], contents)] 0) (\<lambda>_. Inr ()))"

section \<open>Bare directories\<close>

fun bare :: "string \<Rightarrow> dir_tree \<Rightarrow> bool" where
  "bare path (Leaf n) = False"
| "bare path (Branch n None) = False"
| "bare path (Branch n (Some entries)) = (\<not> is_control_path (below path n) \<and> list_all (bare (below path n)) entries)"

fun bare_directory :: "pending_directory \<Rightarrow> bool" where
  "bare_directory (path, None) = False"
| "bare_directory (path, Some entries) = list_all (bare path) entries"

lemma bare_opened: "bare path t \<longleftrightarrow> passes path t \<and> bare_directory (opened path t)"
  by (cases "(path, t)" rule: bare.cases) auto

lemma nodes_positive: "length entries \<le> sum_list (map nodes entries)"
proof (induction entries)
  case (Cons t ts)
  have "1 \<le> nodes t" by (cases t rule: nodes.cases) simp_all
  then show ?case using Cons by simp
qed simp

lemma walk_ok:
  "walk ds visited = Inr n \<longleftrightarrow>
     list_all bare_directory ds \<and> n = visited + stack_nodes ds \<and> (stack_nodes ds = 0 \<or> n \<le> MAX_INITIALIZATION_ENTRIES)"
proof (induction ds visited rule: walk.induct)
  case (3 path entries ds visited)
  have bare: "list_all (bare path) entries \<longleftrightarrow> list_all (passes path) entries \<and> list_all bare_directory (map (opened path) entries)"
    by (auto simp: list_all_iff bare_opened)
  show ?case
  proof (cases "visit_entries path entries ds visited")
    case (Inl err)
    then have "\<not> (list_all (passes path) entries \<and> (entries = [] \<or> visited + length entries \<le> MAX_INITIALIZATION_ENTRIES))"
      using visit_ok [of path entries ds visited] by (metis sum.distinct(1))
    then show ?thesis using Inl bare nodes_positive [of entries] by (cases entries) (auto simp del: sum_list_eq_0_iff)
  next
    case (Inr r)
    note v = visit_ok [of path entries ds visited r, THEN iffD1, OF Inr]
    have r: "r = (rev (map (opened path) entries) @ ds, visited + length entries)" using v by simp
    from "3.IH" [OF Inr r [symmetric]] show ?thesis
      using v bare opened_nodes [of path entries] by (auto simp: Inr rev_map [symmetric] sum_list_rev simp del: sum_list_eq_0_iff)
  qed
qed (auto simp: bail_def)

lemma walk_contents_ok:
  "walk_local_contents root = Inr () \<longleftrightarrow>
     (case root of None \<Rightarrow> True | Some contents \<Rightarrow> bare_directory ([], contents) \<and> directory_nodes ([], contents) \<le> MAX_INITIALIZATION_ENTRIES)"
  by (auto simp: walk_local_contents_def bindR_eq_Inr walk_ok split: option.splits)

section \<open>The check\<close>

record root_access =
  ra_resolver :: resolver
  ra_aws :: aws_config
  ra_owned :: "string \<Rightarrow> bool"
    \<comment> \<open>whether the path lies below a root that is held\<close>
  ra_tree :: "world \<Rightarrow> dir_tree list option option"
    \<comment> \<open>what reading the directories of the root lists; \<open>None\<close> for a root that does not exist\<close>
  ra_remote_contents :: "string \<Rightarrow> string \<Rightarrow> unit io"
    \<comment> \<open>the check of a bucket and a prefix\<close>

definition require_initializable :: "env \<Rightarrow> root_access \<Rightarrow> protected_mirror \<Rightarrow> stream_descriptor \<Rightarrow> unit io" where
  "require_initializable e ra pm d =
     bindIO (liftR (validate_runtime_bindings (e_ext e) (ra_resolver ra) (ra_aws ra) d (output_path (sd_output d)))) (\<lambda>_.
     bindIO (revalidate_local_paths e) (\<lambda>_.
     bindIO (case sd_output d of
         SLocal root \<Rightarrow>
           bindIO (liftR (require (ow_local (pm_ownership pm)) ''local output is not owned'')) (\<lambda>_.
           bindIO (liftR (require (ra_owned ra root) ''initialization output is outside ownership'')) (\<lambda>_.
           bindIO (observe e ''inspecting initialization entry'' (ra_tree ra)) (\<lambda>tree.
           liftR (walk_local_contents tree))))
       | SS3 service bucket prefix \<Rightarrow> ra_remote_contents ra bucket prefix) (\<lambda>_.
     bindIO (require_absent_for_initialization e pm) (\<lambda>_.
     revalidate_local_paths e))))"

section \<open>An empty root\<close>

fun files_below :: "string \<Rightarrow> dir_tree \<Rightarrow> string list" where
  "files_below path (Leaf n) = [below path n]"
| "files_below path (Branch n None) = []"
| "files_below path (Branch n (Some entries)) = concat (map (files_below (below path n)) entries)"

fun readable :: "dir_tree \<Rightarrow> bool" where
  "readable (Leaf n) = True"
| "readable (Branch n None) = False"
| "readable (Branch n (Some entries)) = list_all readable entries"

definition root_readable :: "dir_tree list option option \<Rightarrow> bool" where
  "root_readable root = (case root of None \<Rightarrow> True | Some None \<Rightarrow> False | Some (Some entries) \<Rightarrow> list_all readable entries)"

definition root_files :: "dir_tree list option option \<Rightarrow> string list" where
  "root_files root = (case root of Some (Some entries) \<Rightarrow> concat (map (files_below []) entries) | _ \<Rightarrow> [])"

lemma bare_no_files: "bare path t \<Longrightarrow> readable t \<and> files_below path t = []"
proof (induction path t rule: bare.induct)
  case (3 path n entries)
  then show ?case by (auto simp: list_all_iff)
qed auto

lemma accepted_root: "walk_local_contents root = Inr () \<Longrightarrow> root_readable root \<and> root_files root = []"
proof (cases root)
  case (Some contents)
  assume "walk_local_contents root = Inr ()"
  then show ?thesis using bare_no_files [of "[]"] Some
    by (cases contents) (auto simp: walk_contents_ok root_readable_def root_files_def list_all_iff)
qed (simp add: root_readable_def root_files_def)

text \<open>A dataset without files, Delta commits and mirror.\<close>

definition empty_root :: "stream_descriptor \<Rightarrow> world \<Rightarrow> bool" where
  "empty_root d w \<longleftrightarrow> w_files w = (\<lambda>_. None) \<and> (\<forall>t. w_logs w t = []) \<and> (sd_mirror d = MDisabled \<or> w_mirror w = None)"

definition reads_only :: "'a io \<Rightarrow> bool" where
  "reads_only m \<longleftrightarrow> (\<forall>w. upto w (snd (m w)))"

lemma upto_trans: "upto u v \<Longrightarrow> upto v w \<Longrightarrow> upto u w"
  by (simp add: upto_iff)

lemma reads_only_triple: "reads_only m \<Longrightarrow> triple (upto w) m (\<lambda>_. upto w) (upto w)"
  unfolding reads_only_def by (rule tripleI) (metis snd_conv upto_trans)+

lemma triple_reads_only:
  assumes "\<And>w. triple (upto w) m (\<lambda>_. upto w) (upto w)"
  shows "reads_only m"
  unfolding reads_only_def
proof
  fix w
  obtain r w' where run: "m w = (r, w')" by (cases "m w")
  then show "upto w (snd (m w))" using tripleD [OF assms upto_refl, of w] by (cases r) simp_all
qed

text \<open>
  Every file of the dataset is listed in a root whose directories can be read; the checks of remote
  storage read only, and find the objects that are there.
\<close>

locale root_listing =
  fixes ra :: root_access and ow :: mirror_ownership
  assumes lists_files: "root_readable (ra_tree ra w) \<Longrightarrow> w_files w p \<noteq> None \<Longrightarrow> p \<in> set (root_files (ra_tree ra w))"
    and lists_logs: "root_readable (ra_tree ra w) \<Longrightarrow> w_logs w t \<noteq> [] \<Longrightarrow>
      \<exists>name. t @ ''/_delta_log/'' @ name \<in> set (root_files (ra_tree ra w))"
    and remote_contents: "reads_only (ra_remote_contents ra bucket prefix)"
      "ra_remote_contents ra bucket prefix w = (Inr (), w') \<Longrightarrow> w_files w = (\<lambda>_. None) \<and> (\<forall>t. w_logs w t = [])"
    and remote_mirror: "reads_only (ow_remote_present ow bucket key)"
      "ow_remote_present ow bucket key w = (Inr False, w') \<Longrightarrow> w_mirror w = None"
begin

lemma absent_triple:
  assumes pm: "pm_ownership pm = ow" "pm_binding pm = sd_mirror d"
  shows "triple (upto w) (require_absent_for_initialization e pm)
    (\<lambda>_ v. (sd_mirror d = MDisabled \<or> w_mirror w = None) \<and> upto w v) (upto w)"
proof -
  let ?P = "\<lambda>present v. (present \<or> sd_mirror d = MDisabled \<or> w_mirror w = None) \<and> upto w v"
  note st = triple_sync [OF stable_upto]
  have loc: "triple (upto w) (bindIO (lock_local e pm) (\<lambda>_. bindIO (local_path e pm path) (\<lambda>_.
      bindIO (read_local e pm path) (\<lambda>stored. returnIO (stored \<noteq> None))))) ?P (upto w)" for path
    unfolding lock_local_def local_owner_def
    by (intro triple_bind [OF triple_bind_lift [OF st]] triple_bind [OF local_path_triple] triple_bind_eq [OF read_local_triple] triple_return) auto
  have rem: "triple (upto w) (ow_remote_present ow bucket key) ?P (upto w)" for bucket key
  proof (rule tripleI)
    fix v present v'
    assume v: "upto w v" "ow_remote_present ow bucket key v = (Inr present, v')"
    have "upto v v'" using remote_mirror(1) [of bucket key] v(2) unfolding reads_only_def by (metis snd_conv)
    moreover have "w_mirror v = w_mirror w" using v(1) by (simp add: upto_iff)
    ultimately show "?P present v'" using remote_mirror(2) [of bucket key v v'] v upto_trans by (cases present) auto
  next
    fix v err v'
    assume v: "upto w v" "ow_remote_present ow bucket key v = (Inl err, v')"
    then show "upto w v'" using remote_mirror(1) [of bucket key] upto_trans unfolding reads_only_def by (metis snd_conv)
  qed
  have all: "triple (upto w) (case pm_binding pm of
         MDisabled \<Rightarrow> returnIO False
       | MLocal path \<Rightarrow>
           bindIO (lock_local e pm) (\<lambda>_.
           bindIO (local_path e pm path) (\<lambda>_.
           bindIO (read_local e pm path) (\<lambda>stored. returnIO (stored \<noteq> None))))
       | MS3 service bucket key \<Rightarrow> ow_remote_present (pm_ownership pm) bucket key) ?P (upto w)"
  proof (cases "pm_binding pm")
    case MDisabled
    then show ?thesis using pm(2) by (auto intro!: triple_return)
  next
    case (MLocal path)
    then show ?thesis using loc [of path] by (simp only: mirror_binding.case)
  next
    case (MS3 service bucket key)
    then show ?thesis using rem [of bucket key] pm(1) by simp
  qed
  show ?thesis unfolding require_absent_for_initialization_def
    by (rule triple_bind [OF all], rule triple_lift) auto
qed

text \<open>A root that passes is empty, and the check changes nothing.\<close>

lemma initializable_triple:
  assumes pm: "pm_ownership pm = ow" "pm_binding pm = sd_mirror d"
  shows "triple (upto w) (require_initializable e ra pm d) (\<lambda>_ v. upto w v \<and> empty_root d w) (upto w)"
proof -
  let ?N = "w_files w = (\<lambda>_. None) \<and> (\<forall>t. w_logs w t = [])"
  note st = triple_sync [OF stable_upto]
  have tree: "triple (upto w) (observe e msg (ra_tree ra)) (\<lambda>tree v. (\<exists>u. upto w u \<and> tree = ra_tree ra u) \<and> upto w v) (upto w)" for msg
    by (rule triple_observe) auto
  have none: "?N" if u: "upto w u" "walk_local_contents (ra_tree ra u) = Inr ()" for u
  proof -
    have "w_files u = w_files w" "w_logs u = w_logs w" using u(1) by (simp_all add: upto_iff)
    then show ?thesis using accepted_root [OF u(2)] lists_files [of u] lists_logs [of u] by (metis empty_iff list.set(1) ext)
  qed
  have walked: "triple (\<lambda>v. (\<exists>u. upto w u \<and> tree = ra_tree ra u) \<and> upto w v) (liftR (walk_local_contents tree)) (\<lambda>_ v. ?N \<and> upto w v) (upto w)" for tree
    by (rule triple_lift) (use none in auto)
  have remote: "triple (upto w) (ra_remote_contents ra bucket prefix) (\<lambda>_ v. ?N \<and> upto w v) (upto w)" for bucket prefix
  proof (rule tripleI)
    fix v u v'
    assume v: "upto w v" "ra_remote_contents ra bucket prefix v = (Inr u, v')"
    have "upto v v'" using remote_contents(1) [of bucket prefix] v(2) unfolding reads_only_def by (metis snd_conv)
    moreover have "w_files v = w_files w" "w_logs v = w_logs w" using v(1) by (simp_all add: upto_iff)
    ultimately show "?N \<and> upto w v'" using remote_contents(2) [of bucket prefix v v'] v upto_trans by simp
  next
    fix v err v'
    assume v: "upto w v" "ra_remote_contents ra bucket prefix v = (Inl err, v')"
    then show "upto w v'" using remote_contents(1) [of bucket prefix] upto_trans unfolding reads_only_def by (metis snd_conv)
  qed
  have root: "triple (upto w) (case sd_output d of
         SLocal root \<Rightarrow>
           bindIO (liftR (require (ow_local (pm_ownership pm)) ''local output is not owned'')) (\<lambda>_.
           bindIO (liftR (require (ra_owned ra root) ''initialization output is outside ownership'')) (\<lambda>_.
           bindIO (observe e ''inspecting initialization entry'' (ra_tree ra)) (\<lambda>tree.
           liftR (walk_local_contents tree))))
       | SS3 service bucket prefix \<Rightarrow> ra_remote_contents ra bucket prefix) (\<lambda>_ v. ?N \<and> upto w v) (upto w)"
  proof (cases "sd_output d")
    case (SLocal path)
    have "triple (upto w) (bindIO (observe e ''inspecting initialization entry'' (ra_tree ra)) (\<lambda>tree. liftR (walk_local_contents tree)))
        (\<lambda>_ v. ?N \<and> upto w v) (upto w)"
      by (rule triple_bind [OF tree walked])
    then show ?thesis unfolding SLocal storage_identity.case by (intro triple_bind_lift) auto
  next
    case (SS3 service bucket prefix)
    then show ?thesis using remote [of bucket prefix] by simp
  qed
  have last: "triple (\<lambda>v. (sd_mirror d = MDisabled \<or> w_mirror w = None) \<and> upto w v) (revalidate_local_paths e)
      (\<lambda>_ v. (sd_mirror d = MDisabled \<or> w_mirror w = None) \<and> upto w v) (upto w)"
    unfolding revalidate_local_paths_def by (rule triple_pre_pure, rule triple_conseq [OF st]) auto
  show ?thesis
    unfolding require_initializable_def
    by (rule triple_bind_lift, unfold revalidate_local_paths_def, rule triple_bind [OF st], rule triple_bind_pure [OF root],
        rule triple_bind [OF absent_triple [OF pm]], rule triple_conseq [OF last [unfolded revalidate_local_paths_def]])
      (auto simp: empty_root_def)
qed

end

section \<open>A volume\<close>

text \<open>The root exists once something was stored, and its directory is then not readable.\<close>

definition sample_roots :: root_access where
  "sample_roots = \<lparr> ra_resolver = sample_resolver, ra_aws = \<lparr> aws_region = None, aws_endpoint_url = None \<rparr>, ra_owned = (\<lambda>_. True),
     ra_tree = (\<lambda>w. if w_files w = (\<lambda>_. None) \<and> w_logs w = (\<lambda>_. []) then None else Some None),
     ra_remote_contents = (\<lambda>_ _. failIO (Bail ''no bucket'')) \<rparr>"

interpretation sample_listing: root_listing sample_roots "pm_ownership sample_mirror_at"
  by unfold_locales (auto simp: sample_roots_def sample_mirror_at_def root_readable_def root_files_def reads_only_def failIO_def upto_iff split: if_splits)

lemma sample_initializable:
  "\<exists>w'. require_initializable sample_env sample_roots (sample_mirror_at\<lparr> pm_binding := MDisabled \<rparr>) sample_descriptor empty_world = (Inr (), w')"
proof -
  have d: "sd_output sample_descriptor = SLocal ''/d''" "sd_mirror sample_descriptor = MDisabled" by (simp_all add: sample_descriptor_def)
  have "validate_runtime_bindings sample_ext sample_resolver \<lparr> aws_region = None, aws_endpoint_url = None \<rparr> sample_descriptor ''/d'' = Inr ()"
    using sample_output sample_descriptor_valid by (simp add: validate_runtime_bindings_def d)
  then show ?thesis
    by (simp add: require_initializable_def sample_roots_def d sample_mirror_at_def require_absent_for_initialization_def
        walk_local_contents_def revalidate_local_paths_def sync_def observe_def sample_env_def empty_world_def bindIO_def liftR_def returnIO_def)
qed

section \<open>Properties\<close>



end
