(* ===== verification/Session.thy ===== *)
theory Session
  imports Controller_Recovery Eligibility
begin

text \<open>
  The ingestion session of \<open>ingest/session.rs\<close>: opening a dataset (recovery before any stream access),
  receiving and accepting events, flushing the accepted prefix as one transaction and completing a
  bounded request. A session that stopped in the middle of an operation refuses every further one.

  The mirror is an action, the trait \<open>MirrorAction\<close> of \<open>Mirror\<close>. The admission checks of a root are a record:
  \<open>local_admission\<close> takes the one for a new root from \<open>Eligibility\<close> and the construction of the mirror from \<open>Mirror\<close>; the discovery of maintenance markers
  (\<open>maintenance::validate_ingestion_target\<close>) and the casts to Delta column types (\<open>delta::types\<close>) are
  parameters.
\<close>

section \<open>State\<close>

record session =
  ss_controller :: controller
  ss_frontier :: accepted_frontier
  ss_failed :: bool

definition session_ready :: "session \<Rightarrow> unit result" where
  "session_ready s = require (\<not> ss_failed s)
     ''ingestion session stopped after an unresolved operation; reopen through recovery''"

definition session_authority :: "session \<Rightarrow> authority_state" where
  "session_authority s = snd (ct_authority (ss_controller s))"

text \<open>An operation on the frontier: the session counts as failed until it has succeeded.\<close>

definition guarded :: "session \<Rightarrow> ('a \<times> accepted_frontier) result \<Rightarrow> 'a result \<times> session" where
  "guarded s body =
     (case session_ready s of
        Inl err \<Rightarrow> (Inl err, s)
      | Inr _ \<Rightarrow>
          (case body of
             Inl err \<Rightarrow> (Inl err, s\<lparr> ss_failed := True \<rparr>)
           | Inr (a, f) \<Rightarrow> (Inr a, s\<lparr> ss_frontier := f, ss_failed := False \<rparr>)))"

section \<open>Events\<close>

record block_identity =
  bi_block_num :: nat
  bi_block_id :: string
  bi_timestamp :: int

definition session_receive ::
  "ext \<Rightarrow> session \<Rightarrow> string \<Rightarrow> block_identity \<Rightarrow> int \<Rightarrow> block_family \<Rightarrow> nat result \<times> session" where
  "session_receive x s cursor identity step family =
     guarded s (
       bindR (require (family = sd_family (au_descriptor (session_authority s)))
         ''received payload family differs from the authoritative mapper'') (\<lambda>_.
       bindR (opaque_cursor_new cursor) (\<lambda>c.
       receive x (ss_frontier s)
         \<lparr> ev_cursor = c, ev_block_num = bi_block_num identity, ev_block_id = bi_block_id identity, ev_fork_step = step,
           ev_source_timestamp = (if bi_timestamp identity \<noteq> 0 then Some (bi_timestamp identity) else None) \<rparr>)))"

definition session_accept_filtered :: "ext \<Rightarrow> session \<Rightarrow> nat \<Rightarrow> unit result \<times> session" where
  "session_accept_filtered x s ordinal =
     guarded s (
       bindR (frontier_received (ss_frontier s) ordinal) (\<lambda>event.
       let d = au_descriptor (session_authority s) in
       bindR (require (sd_final_blocks_only d \<and> ev_fork_step event = 2 \<or> ev_block_num event < sd_origin_start d)
         ''mapped event cannot be acknowledged as a filtered zero-row event'') (\<lambda>_.
       bindR (accept_filtered x (ss_frontier s) ordinal) (\<lambda>f. Inr ((), f)))))"

text \<open>The anchor an accepted event routes by, resolved from what was received.\<close>

definition event_anchor :: "nat \<Rightarrow> event_identity \<Rightarrow> int \<Rightarrow> anchor_provenance \<Rightarrow> timestamp_anchor" where
  "event_anchor ordinal event seconds provenance =
     \<lparr> an_source_ordinal = ordinal, an_source_block_num = ev_block_num event, an_source_block_id = ev_block_id event,
       an_seconds = seconds, an_provenance = provenance \<rparr>"

definition solana_fallback :: timestamp_anchor where
  "solana_fallback = \<lparr> an_source_ordinal = 0, an_source_block_num = 0, an_source_block_id = [],
     an_seconds = SOLANA_GENESIS_ROUTING_SECONDS, an_provenance = PSolanaGenesisFallback \<rparr>"

definition mapped_anchor ::
  "accepted_frontier \<Rightarrow> routing_policy \<Rightarrow> nat \<Rightarrow> event_identity \<Rightarrow> int option \<Rightarrow> nat option \<Rightarrow> timestamp_anchor option result" where
  "mapped_anchor f policy ordinal event effective_timestamp lookahead =
     (case policy of
        SolanaLastKnownV1 \<Rightarrow>
          bindR (require (lookahead = None) ''Solana routing cannot use a future anchor'') (\<lambda>_.
          Inr (Some (case ev_source_timestamp event of
             Some seconds \<Rightarrow> event_anchor ordinal event seconds PAcceptedPrefix
           | None \<Rightarrow> (case rc_anchor (fr_routing f) of Some anchor \<Rightarrow> anchor | None \<Rightarrow> solana_fallback))))
      | GenesisLookaheadV1 \<Rightarrow>
          (case ev_source_timestamp event of
             Some seconds \<Rightarrow>
               bindR (require (lookahead = None \<and> effective_timestamp = Some seconds)
                 ''observed source timestamp cannot be replaced by bootstrap routing'') (\<lambda>_. Inr None)
           | None \<Rightarrow>
               (case lookahead of
                  Some source_ordinal \<Rightarrow>
                    bindR (require (ordinal < source_ordinal) ''bootstrap routing requires a future received source'') (\<lambda>_.
                    bindR (frontier_received f source_ordinal) (\<lambda>source.
                    bindR (some_or (ev_source_timestamp source) ''bootstrap anchor has no observed timestamp'') (\<lambda>seconds.
                    Inr (Some (event_anchor source_ordinal source seconds PLookahead)))))
                | None \<Rightarrow>
                    (case rc_anchor (fr_routing f) of
                       Some anchor \<Rightarrow>
                         if an_provenance anchor = PLookahead then Inr (Some anchor)
                         else bail ''missing source timestamp has no received or authoritative bootstrap anchor''
                     | None \<Rightarrow> bail ''missing source timestamp has no received or authoritative bootstrap anchor''))))"

definition session_accept_mapped ::
  "ext \<Rightarrow> session \<Rightarrow> nat \<Rightarrow> int option \<Rightarrow> nat option \<Rightarrow> unit result \<times> session" where
  "session_accept_mapped x s ordinal effective_timestamp lookahead =
     guarded s (
       bindR (next_accepted_ordinal (ss_frontier s)) (\<lambda>nxt.
       bindR (require (ordinal = nxt) ''mapping must resolve received envelopes in order'') (\<lambda>_.
       bindR (frontier_received (ss_frontier s) ordinal) (\<lambda>event.
       let policy = sd_routing_policy (au_descriptor (session_authority s)) in
       bindR (mapped_anchor (ss_frontier s) policy ordinal event effective_timestamp lookahead) (\<lambda>anchor.
       bindR (case anchor of
           None \<Rightarrow> Inr ()
         | Some a \<Rightarrow> require (effective_timestamp = Some (an_seconds a))
             ''mapper routing time differs from its received or authoritative source'') (\<lambda>_.
       bindR (accept x (ss_frontier s) ordinal \<lparr> rc_policy = policy, rc_anchor = anchor \<rparr>) (\<lambda>f. Inr ((), f))))))))"

section \<open>Flushing\<close>

definition check_stream_ordinals :: "accepted_prefix \<Rightarrow> string \<times> record_batch \<Rightarrow> unit result" where
  "check_stream_ordinals prefix tb =
     (let batch = snd tb in
      if rb_rows batch = 0 then Inr ()
      else case rb_stream_ordinal batch of
        Some (UInt64Column values) \<Rightarrow>
          bindR (require (None \<notin> set values) ''non-final table has a null stream_ordinal'') (\<lambda>_.
          let ordinals = List.map_filter id values in
          require (ordinals \<noteq> [] \<and> ap_first_ordinal prefix \<le> Min (set ordinals) \<and> Max (set ordinals) \<le> ap_last_ordinal prefix)
            ''non-final table has a stream_ordinal outside the accepted prefix'')
      | _ \<Rightarrow> bail ''non-final table lacks a UInt64 stream_ordinal'')"

definition require_prefix_stream_ordinals :: "(string \<times> record_batch) list \<Rightarrow> accepted_prefix \<Rightarrow> unit result" where
  "require_prefix_stream_ordinals batches prefix = for_each (check_stream_ordinals prefix) batches"

type_synonym data_batches = "(string \<times> record_batch) list \<Rightarrow> block_metadata \<Rightarrow> (string \<times> record_batch) list result"

text \<open>What a flush does before the controller: the prefix to commit and the batches to write, if any.\<close>

definition flush_input ::
  "ext \<Rightarrow> data_batches \<Rightarrow> session \<Rightarrow> (string \<times> record_batch) list \<Rightarrow> block_metadata \<Rightarrow>
   (accepted_prefix \<times> (string \<times> record_batch) list) option result" where
  "flush_input x data_batches s batches metadata =
     bindR (snapshot x (ss_frontier s)) (\<lambda>snap.
     case snap of
       None \<Rightarrow>
         bindR (require (list_all (\<lambda>tb. rb_rows (snd tb) = 0) batches)
           ''mapper emitted rows without an accepted event prefix'') (\<lambda>_. Inr None)
     | Some prefix \<Rightarrow>
         bindR (if sd_final_blocks_only (au_descriptor (session_authority s)) then Inr ()
                else require_prefix_stream_ordinals batches prefix) (\<lambda>_.
         bindR (data_batches batches metadata) (\<lambda>cast. Inr (Some (prefix, cast)))))"

definition session_flush ::
  "env \<Rightarrow> mirror_action \<Rightarrow> data_batches \<Rightarrow> bool \<Rightarrow> session \<Rightarrow> (string \<times> record_batch) list \<Rightarrow> block_metadata \<Rightarrow>
   compression \<Rightarrow> (string \<times> string) list \<Rightarrow> (committed_flush option result \<times> session) io" where
  "session_flush e reconcile data_batches multi_thread s batches metadata compression file_metadata =
     (case session_ready s of
        Inl err \<Rightarrow> returnIO (Inl err, s)
      | Inr _ \<Rightarrow>
          let s1 = s\<lparr> ss_failed := True \<rparr> in
          case flush_input (e_ext e) data_batches s batches metadata of
            Inl err \<Rightarrow> returnIO (Inl err, s1)
          | Inr None \<Rightarrow> returnIO (Inr None, s)
          | Inr (Some (prefix, cast)) \<Rightarrow>
              bindIO (controller_commit e reconcile multi_thread (ss_controller s) prefix cast metadata compression file_metadata)
                (\<lambda>(committed, c).
                 let s2 = s1\<lparr> ss_controller := c \<rparr> in
                 returnIO (case committed of
                   Inl err \<Rightarrow> (Inl err, s2)
                 | Inr flush \<Rightarrow>
                     (case acknowledge (e_ext e) (ss_frontier s) prefix of
                        Inl err \<Rightarrow> (Inl err, s2)
                      | Inr f \<Rightarrow> (Inr (Some flush), s2\<lparr> ss_frontier := f, ss_failed := False \<rparr>)))))"

definition session_complete_request ::
  "env \<Rightarrow> mirror_action \<Rightarrow> session \<Rightarrow> nat \<Rightarrow> bool \<Rightarrow> (bool result \<times> session) io" where
  "session_complete_request e reconcile s stop clean_stream_completed =
     (case session_ready s of
        Inl err \<Rightarrow> returnIO (Inl err, s)
      | Inr _ \<Rightarrow>
          bindIO (controller_complete_request e reconcile (ss_controller s) stop (ss_frontier s) clean_stream_completed) (\<lambda>(changed, c).
          let s1 = s\<lparr> ss_controller := c, ss_failed := True \<rparr> in
          returnIO (case changed of
            Inl err \<Rightarrow> (Inl err, s1)
          | Inr b \<Rightarrow> (Inr b, s1\<lparr> ss_failed := False \<rparr>))))"

section \<open>Opening\<close>

definition existing :: "env \<Rightarrow> authority_state option io" where
  "existing e = bindIO (store_load e) (\<lambda>(authority, _). returnIO (map_option snd authority))"

record admission =
  ad_target :: "bool \<Rightarrow> unit io"
    \<comment> \<open>\<open>maintenance::validate_ingestion_target\<close>, resuming or creating\<close>
  ad_mirror :: "stream_descriptor \<Rightarrow> unit io"
    \<comment> \<open>\<open>mirror_service\<close> and \<open>ProtectedMirror::new\<close>\<close>
  ad_initializable :: "stream_descriptor \<Rightarrow> unit io"
    \<comment> \<open>\<open>eligibility::require_initializable\<close>\<close>

definition local_admission :: "env \<Rightarrow> root_access \<Rightarrow> mirror_ownership \<Rightarrow> (nat \<Rightarrow> bool) \<Rightarrow> (bool \<Rightarrow> unit io) \<Rightarrow> admission" where
  "local_admission e ra ow shutdown target = \<lparr> ad_target = target,
     ad_mirror = (\<lambda>d.
       bindIO (liftR (mirror_service (e_ext e) (ra_resolver ra) (ra_aws ra) (sd_mirror d))) (\<lambda>service.
       bindIO (mirror_new e ow (sd_mirror d) service) (\<lambda>_. returnIO ()))),
     ad_initializable = (\<lambda>d. require_initializable e ra \<lparr> pm_ownership = ow, pm_binding = sd_mirror d, pm_shutdown = shutdown \<rparr> d) \<rparr>"

text \<open>What is checked of every root, new or resumed.\<close>

definition admit_root :: "admission \<Rightarrow> bool \<Rightarrow> stream_descriptor \<Rightarrow> unit io" where
  "admit_root adm resuming expected = bindIO (ad_target adm resuming) (\<lambda>_. ad_mirror adm expected)"

text \<open>The directory of a new local root.\<close>

definition create_output :: "env \<Rightarrow> stream_descriptor \<Rightarrow> unit io" where
  "create_output e expected =
     (case sd_output expected of
        SLocal _ \<Rightarrow>
          bindIO (revalidate_local_paths e) (\<lambda>_.
          bindIO (sync e ''creating the output directory'') (\<lambda>_.
          revalidate_local_paths e))
      | SS3 _ _ _ \<Rightarrow> returnIO ())"

definition session_open ::
  "env \<Rightarrow> mirror_action \<Rightarrow> admission \<Rightarrow> stream_descriptor \<Rightarrow> (string \<times> string list) list \<Rightarrow> flush_concurrency \<Rightarrow> session io" where
  "session_open e reconcile adm expected delta_columns concurrency =
     bindIO (existing e) (\<lambda>resumed.
     bindIO (admit_root adm (resumed \<noteq> None) expected) (\<lambda>_.
     bindIO (case resumed of
         Some authority \<Rightarrow> returnIO authority
       | None \<Rightarrow>
           bindIO (ad_initializable adm expected) (\<lambda>_.
           bindIO (create_output e expected) (\<lambda>_.
           bindIO (liftR (authority_initial (e_ext e) expected)) (\<lambda>a.
           bindIO (store_initialize e a) (\<lambda>stored. returnIO (snd stored)))))) (\<lambda>authority.
     bindIO (liftR (require (au_descriptor authority = expected) STREAM_MISMATCH)) (\<lambda>_.
     bindIO (liftR (identity_of (e_ext e) expected)) (\<lambda>identity.
     bindIO (open_specs e identity (map (\<lambda>(t, columns). (t, Some columns)) delta_columns)
       (cp_ordinal (au_checkpoint authority) = 0)) (\<lambda>tables.
     bindIO (open_reserved e reconcile expected (Some tables) concurrency) (\<lambda>c.
     returnIO \<lparr> ss_controller = c, ss_frontier = resume (au_checkpoint (snd (ct_authority c))), ss_failed = False \<rparr>)))))))"

section \<open>A process and its successors\<close>

text \<open>
  What happens to a dataset: processes open it, work on it and stop. Every operation may end at any of
  its steps; a process that stopped is followed by one that opens the dataset again.
\<close>

datatype session_op =
    Open stream_descriptor "(string \<times> string list) list" flush_concurrency
  | Receive string block_identity int block_family
  | AcceptFiltered nat
  | AcceptMapped nat "int option" "nat option"
  | Flush "(string \<times> record_batch) list" block_metadata compression "(string \<times> string) list"
  | CompleteRequest nat bool

record deployment =
  dp_env :: env
  dp_mirror :: mirror_action
  dp_admission :: admission
  dp_data_batches :: data_batches
  dp_multi_thread :: bool

text \<open>One operation: the session afterwards, if any, and the ordinal a successful flush acknowledged.\<close>

fun session_step :: "deployment \<Rightarrow> session_op \<Rightarrow> session option \<Rightarrow> world \<Rightarrow> (session option \<times> nat list) \<times> world" where
  "session_step dp (Open expected columns concurrency) _ w =
     (case session_open (dp_env dp) (dp_mirror dp) (dp_admission dp) expected columns concurrency w of
        (Inl _, w') \<Rightarrow> ((None, []), w')
      | (Inr s, w') \<Rightarrow> ((Some s, []), w'))"
| "session_step dp op None w = ((None, []), w)"
| "session_step dp (Receive cursor identity step family) (Some s) w =
     ((Some (snd (session_receive (e_ext (dp_env dp)) s cursor identity step family)), []), w)"
| "session_step dp (AcceptFiltered ordinal) (Some s) w =
     ((Some (snd (session_accept_filtered (e_ext (dp_env dp)) s ordinal)), []), w)"
| "session_step dp (AcceptMapped ordinal effective_timestamp lookahead) (Some s) w =
     ((Some (snd (session_accept_mapped (e_ext (dp_env dp)) s ordinal effective_timestamp lookahead)), []), w)"
| "session_step dp (Flush batches metadata compression file_metadata) (Some s) w =
     (case session_flush (dp_env dp) (dp_mirror dp) (dp_data_batches dp) (dp_multi_thread dp) s batches metadata compression file_metadata w of
        (Inl _, w') \<Rightarrow> ((None, []), w')
      | (Inr (Inr (Some flush), s'), w') \<Rightarrow> ((Some s', [fl_ordinal flush]), w')
      | (Inr (_, s'), w') \<Rightarrow> ((Some s', []), w'))"
| "session_step dp (CompleteRequest stop clean) (Some s) w =
     (case session_complete_request (dp_env dp) (dp_mirror dp) s stop clean w of
        (Inl _, w') \<Rightarrow> ((None, []), w')
      | (Inr (_, s'), w') \<Rightarrow> ((Some s', []), w'))"

fun session_run :: "deployment \<Rightarrow> session_op list \<Rightarrow> session option \<Rightarrow> world \<Rightarrow> (session option \<times> nat list) \<times> world" where
  "session_run dp [] s w = ((s, []), w)"
| "session_run dp (op # ops) s w =
     (case session_step dp op s w of ((s1, acks1), w1) \<Rightarrow>
      case session_run dp ops s1 w1 of ((s2, acks2), w2) \<Rightarrow> ((s2, acks1 @ acks2), w2))"

end
