(* ===== verification/Session_Safe.thy ===== *)
theory Session_Safe
  imports Session
begin

text \<open>
  A dataset over its whole life. The list of committed transactions determines the Delta logs and the
  authority; every operation of a session, however it ends, keeps this list or appends one transaction.
\<close>

section \<open>The committed transactions\<close>

text \<open>No digest of a checkpoint names the checkpoint as its own predecessor.\<close>

definition digest_acyclic :: "ext \<Rightarrow> bool" where
  "digest_acyclic x \<longleftrightarrow> (\<forall>c stream prev. digest_wf stream \<longrightarrow> digest_wf prev \<longrightarrow> cp_previous c = Some prev \<longrightarrow>
     checkpoint_identity x c stream \<noteq> prev)"

lemma checkpoint_identity_wf: "sha256_hex x \<Longrightarrow> digest_wf (checkpoint_identity x c stream)"
  by (simp add: checkpoint_identity_def digest_hash_def digest_wf_def sha256_hex_def)

lemma acyclic_from_digests:
  assumes sha: "sha256_hex x" and ac: "digest_acyclic x" and v: "validate_predecessor x a p = Inr ()"
  shows "acyclic_pending p"
proof -
  have a: "authority_validate x a = Inr ()" and p: "pending_validate x p (au_descriptor a) = Inr ()"
    and id: "cp_id (au_checkpoint a) = pt_predecessor p"
    using v by (auto simp: validate_predecessor_ok)
  obtain stream where s: "descriptor_id x (au_descriptor a) = Inr stream" "cp_id (pt_target p) = checkpoint_identity x (pt_target p) stream"
    using pending_target(1) [OF p] by (auto simp: checkpoint_validate_ok)
  obtain stream' where "cp_id (au_checkpoint a) = checkpoint_identity x (au_checkpoint a) stream'"
    using a by (auto simp: authority_validate_def bindR_eq_Inr checkpoint_validate_ok)
  then have "digest_wf (pt_predecessor p)" using checkpoint_identity_wf [OF sha] id by metis
  moreover have "digest_wf stream" using s(1) sha by (auto simp: descriptor_id_ok digest_hash_def digest_wf_def sha256_hex_def)
  ultimately show ?thesis
    using ac pending_target(4) [OF p] s(2) by (auto simp: digest_acyclic_def acyclic_pending_def)
qed

inductive lineage :: "ext \<Rightarrow> authority_state \<Rightarrow> pending_transaction list \<Rightarrow> authority_state \<Rightarrow> bool" for x a where
  start: "lineage x a [] a"
| installed: "lineage x a ps b \<Longrightarrow> install x b p = Inr c \<Longrightarrow> lineage x a (ps @ [p]) c"
| completes: "lineage x a ps b \<Longrightarrow> complete_request x (au_checkpoint b) (au_descriptor b) stop = Inr (au_checkpoint c) \<Longrightarrow>
    au_descriptor c = au_descriptor b \<Longrightarrow> lineage x a ps c"

definition ordinals_of :: "pending_transaction \<Rightarrow> nat list" where
  "ordinals_of p = [ap_first_ordinal (pt_prefix p)..<Suc (ap_last_ordinal (pt_prefix p))]"

lemma upt_join: "i \<le> j \<Longrightarrow> j \<le> k \<Longrightarrow> [i..<j] @ [j..<k] = [i..<k]"
  by (metis le_add_diff_inverse upt_add_eq_append)

lemma lineage_ordinals:
  assumes "lineage x a ps b"
  shows "concat (map ordinals_of ps) = [Suc (cp_ordinal (au_checkpoint a))..<Suc (cp_ordinal (au_checkpoint b))] \<and>
    cp_ordinal (au_checkpoint a) \<le> cp_ordinal (au_checkpoint b) \<and> au_descriptor b = au_descriptor a"
  using assms
proof (induction rule: lineage.induct)
  case (installed ps b p c)
  have v: "pending_validate x p (au_descriptor b) = Inr ()" and first: "ap_first_ordinal (pt_prefix p) = Suc (cp_ordinal (au_checkpoint b))"
    and c: "au_checkpoint c = pt_target p" "au_descriptor c = au_descriptor b"
    using installed.hyps(2) by (auto simp: install_ok validate_predecessor_ok)
  have "cp_ordinal (au_checkpoint c) = ap_last_ordinal (pt_prefix p)" using pending_target(2) [OF v] c by simp
  moreover have "ap_first_ordinal (pt_prefix p) \<le> ap_last_ordinal (pt_prefix p)" by (rule pending_target(3) [OF v])
  ultimately show ?case
    using installed.IH first c upt_join [of "Suc (cp_ordinal (au_checkpoint a))" "Suc (cp_ordinal (au_checkpoint b))" "Suc (cp_ordinal (au_checkpoint c))"]
    by (simp add: ordinals_of_def)
next
  case (completes ps b stop c)
  then show ?case using complete_request_ok(3) [OF completes.hyps(2)] by simp
qed simp

definition ledger_of :: "string \<Rightarrow> pending_transaction list \<Rightarrow> ledger" where
  "ledger_of app ps = (\<lambda>t. concat (map (\<lambda>p. journal_commits app p t) ps))"

lemma ledger_of_snoc: "extend_ledger app (ledger_of app ps) p = ledger_of app (ps @ [p])"
  by (simp add: extend_ledger_def ledger_of_def fun_eq_iff)

section \<open>Invariant\<close>

definition recorded :: "env \<Rightarrow> string \<Rightarrow> authority_state \<Rightarrow> pending_transaction list \<Rightarrow> world \<Rightarrow> bool" where
  "recorded e app a0 ps w \<longleftrightarrow> consistent e app (ledger_of app ps) w \<and>
     (\<exists>a. w_state w = Some a \<and> lineage (e_ext e) a0 ps (snd a))"

definition live :: "env \<Rightarrow> string \<Rightarrow> pending_transaction list \<Rightarrow> session \<Rightarrow> world \<Rightarrow> bool" where
  "live e app ps s w \<longleftrightarrow> settled e app (ledger_of app ps) (ct_authority (ss_controller s)) w \<and>
     (\<exists>dt. ready_for e app (ledger_of app ps) (ss_controller s) dt w)"

definition working :: "env \<Rightarrow> string \<Rightarrow> authority_state \<Rightarrow> pending_transaction list \<Rightarrow> session option \<Rightarrow> world \<Rightarrow> bool" where
  "working e app a0 ps s w \<longleftrightarrow> recorded e app a0 ps w \<and> (\<forall>s'. s = Some s' \<longrightarrow> \<not> ss_failed s' \<longrightarrow> live e app ps s' w)"

lemma recorded_settled:
  "settled e app (ledger_of app ps) a w \<Longrightarrow> lineage (e_ext e) a0 ps (snd a) \<Longrightarrow> recorded e app a0 ps w"
  unfolding recorded_def using consistentI(1) by (fastforce simp: settled_def based_def)

lemma live_recorded:
  assumes "live e app ps s w" "recorded e app a0 ps w"
  shows "lineage (e_ext e) a0 ps (snd (ct_authority (ss_controller s)))"
  using assms by (auto simp: live_def recorded_def settled_def based_def)

lemma state_unique:
  assumes "consistent e app H w" "w_state w = Some a"
  shows "settled e app H a w \<or> (\<exists>h. aborting e app H a h w \<or> committing e app H a h w \<or> finishing e app H a h w)"
  using assms by (auto simp: consistent_def settled_def aborting_def committing_def finishing_def based_def)

lemma finished_states:
  "settled e app H a w \<Longrightarrow> behind (snd a) (w_pending w) = None"
  "aborting e app H a h w \<Longrightarrow> behind (snd a) (w_pending w) = None"
  "finishing e app H a h w \<Longrightarrow> behind (snd a) (w_pending w) = None"
proof -
  show "behind (snd a) (w_pending w) = None" if "settled e app H a w" using that by (simp add: settled_def behind_def)
  show "behind (snd a) (w_pending w) = None" if "aborting e app H a h w"
    using behind_states(1) [OF that] that by (simp add: aborting_def)
  show "behind (snd a) (w_pending w) = None" if "finishing e app H a h w"
    using behind_states(3) [OF that] that by (simp add: finishing_def)
qed

lemma finished_exact:
  "settled e app H a w \<Longrightarrow> logs_exact app H w" "aborting e app H a h w \<Longrightarrow> logs_exact app H w" "finishing e app H a h w \<Longrightarrow> logs_exact app H w"
  by (simp_all add: settled_def aborting_def finishing_def)

lemma exact_as_partial: "logs_exact app H w \<longleftrightarrow> logs_partial app H (\<lambda>_. []) w"
  by (auto simp: logs_exact_def logs_partial_def table_partial_def)

text \<open>The logs agree with the ledger up to the commits recovery has to bring in.\<close>

lemma consistent_partial:
  assumes "consistent e app H w" "w_state w = Some a"
  shows "logs_partial app H (unfinished app a (w_pending w)) w" "one_each (unfinished app a (w_pending w))"
proof -
  have none: "logs_partial app H (unfinished app a (w_pending w)) w \<and> one_each (unfinished app a (w_pending w))"
    if "behind (snd a) (w_pending w) = None" "logs_exact app H w"
    using that resolved_cases(1) [OF that(1)] by (simp add: exact_as_partial one_each_def)
  have some: "logs_partial app H (unfinished app a (w_pending w)) w \<and> one_each (unfinished app a (w_pending w))"
    if c: "committing e app H a h w" for h
  proof -
    have "w_pending w = Some h" "pending_validate (e_ext e) (snd h) (au_descriptor (snd a)) = Inr ()"
      "logs_partial app H (journal_commits app (snd h)) w"
      using c by (simp_all add: committing_def validate_predecessor_ok)
    then show ?thesis
      using behind_states(2) [OF c] resolved_cases(2) [of a "Some h" "snd h"] journal_commits_one [OF distinct_part_tables] by auto
  qed
  show "logs_partial app H (unfinished app a (w_pending w)) w" "one_each (unfinished app a (w_pending w))"
    using state_unique [OF assms] none [OF finished_states(1) finished_exact(1)] none [OF finished_states(2) finished_exact(2)]
      none [OF finished_states(3) finished_exact(3)] some by blast+
qed

lemma grown_consistent:
  assumes c: "consistent e app H w" and st: "w_state w = Some a"
    and g: "logs_partial app H (unfinished app a (w_pending w)) v" "only_logs UNIV w v"
  shows "consistent e app H v"
proof -
  have eq: "w_state v = w_state w" "w_pending v = w_pending w" "w_files v = w_files w" "w_mirror v = w_mirror w"
    using g(2) by (simp_all add: only_logs_def)
  have exact: "logs_exact app H v" if "behind (snd a) (w_pending w) = None"
    using g(1) resolved_cases(1) [OF that, of app H] by (simp add: exact_as_partial)
  consider "settled e app H a w" | h where "aborting e app H a h w" | h where "committing e app H a h w" | h where "finishing e app H a h w"
    using state_unique [OF c st] by blast
  then show ?thesis
  proof cases
    case 1
    then have "settled e app H a v" using exact [OF finished_states(1) [OF 1]] eq by (simp add: settled_def based_def)
    then show ?thesis by (rule consistentI)
  next
    case 2
    then have "aborting e app H a h v" using exact [OF finished_states(2) [OF 2]] eq by (simp add: aborting_def based_def)
    then show ?thesis by (rule consistentI)
  next
    case 3
    then have p: "w_pending w = Some h" by (simp add: committing_def)
    then have "unfinished app a (w_pending w) = journal_commits app (snd h)"
      using behind_states(2) [OF 3] resolved_cases(2) [of a "Some h" "snd h"] by simp
    then have "committing e app H a h v" using 3 g(1) eq by (simp add: committing_def based_def)
    then show ?thesis by (rule consistentI)
  next
    case 4
    then have "finishing e app H a h v" using exact [OF finished_states(3) [OF 4]] eq by (auto simp: finishing_def based_def)
    then show ?thesis by (rule consistentI)
  qed
qed

section \<open>Opening a dataset\<close>

text \<open>The admission checks only read, and a root that may be initialized is empty.\<close>

locale admission_law =
  fixes adm :: admission
  assumes target_reads: "reads_only (ad_target adm resuming)"
    and mirror_reads: "reads_only (ad_mirror adm d)"
    and initializable_reads: "reads_only (ad_initializable adm d)"
    and initializable_empty: "ad_initializable adm d w = (Inr (), w') \<Longrightarrow> empty_root d w"
begin

lemma admit_root_triple: "triple (upto w) (admit_root adm resuming d) (\<lambda>_. upto w) (upto w)"
  unfolding admit_root_def by (rule triple_bind [OF reads_only_triple [OF target_reads] reads_only_triple [OF mirror_reads]])

lemma admitted_triple: "triple (upto w) (ad_initializable adm d) (\<lambda>_ v. empty_root d w \<and> upto w v) (upto w)"
proof (rule tripleI)
  fix v r v'
  assume v: "upto w v" "ad_initializable adm d v = (Inr r, v')"
  have "empty_root d v" using initializable_empty v(2) by simp
  then have "empty_root d w" using v(1) by (simp add: empty_root_def upto_iff)
  then show "empty_root d w \<and> upto w v'" using tripleD(1) [OF reads_only_triple [OF initializable_reads] v] by simp
qed (use tripleD(2) [OF reads_only_triple [OF initializable_reads]] in blast)

end

lemma constructed_triple:
  "triple (upto w) (bindIO (liftR r) (\<lambda>service. bindIO (mirror_new e ow binding service) (\<lambda>_. returnIO ()))) (\<lambda>_. upto w) (upto w)"
proof -
  have "triple (upto w) (mirror_new e ow binding service) (\<lambda>_. upto w) (upto w)" for service
    unfolding mirror_new_def Let_def
    by (cases binding) (auto intro!: triple_bind [where R = "\<lambda>_. upto w"] triple_bind_lift triple_lift triple_return local_path_triple)
  then show ?thesis by (intro triple_bind_lift triple_bind [where R = "\<lambda>_. upto w"] triple_return) auto
qed

lemma local_admission_law:
  assumes "root_listing ra ow" "\<And>resuming. reads_only (target resuming)"
  shows "admission_law (local_admission e ra ow shutdown target)"
proof -
  let ?pm = "\<lambda>d. \<lparr> pm_ownership = ow, pm_binding = sd_mirror d, pm_shutdown = shutdown \<rparr>"
  note t = root_listing.initializable_triple [OF assms(1), where pm = "?pm d" and d = d and e = e for d, simplified]
  have "triple (upto w) (require_initializable e ra (?pm d) d) (\<lambda>_. upto w) (upto w)" for w d
    by (rule triple_conseq [OF t [of w d]]) auto
  then have "reads_only (require_initializable e ra (?pm d) d)" for d by (rule triple_reads_only)
  moreover have "empty_root d w" if "require_initializable e ra (?pm d) d w = (Inr (), w')" for d w w'
    using tripleD(1) [OF t [of w d] upto_refl that] by simp
  moreover have "reads_only (ad_mirror (local_admission e ra ow shutdown target) d)" for d
    unfolding local_admission_def admission.simps by (rule triple_reads_only [OF constructed_triple])
  ultimately show ?thesis using assms(2) by unfold_locales (simp_all add: local_admission_def)
qed

text \<open>The next authority and the next list of transactions after recovery.\<close>

definition rolled_forward :: "authority_state versioned \<Rightarrow> pending_transaction versioned option \<Rightarrow> pending_transaction list" where
  "rolled_forward a pending = (case behind (snd a) pending of None \<Rightarrow> [] | Some p \<Rightarrow> [p])"

lemma resolved_ledger: "resolved app (ledger_of app ps) a pending = ledger_of app (ps @ rolled_forward a pending)"
  by (auto simp: resolved_def unfinished_def rolled_forward_def ledger_of_def fun_eq_iff split: option.splits)

lemma existing_triple:
  assumes "w_state w = Some a"
  shows "triple (\<lambda>v. v = w) (existing e) (\<lambda>r v. r = Some (snd a) \<and> upto w v) (upto w)"
proof -
  have up: "has_journal w (Some a, w_pending w) v \<longleftrightarrow> upto w v" for v using journal_upto [of w v] assms by simp
  have "triple (\<lambda>v. v = w) (store_load e) (\<lambda>r v. r = (Some a, w_pending w) \<and> upto w v) (upto w)"
    by (rule triple_conseq [OF store_load_triple [of w "Some a" "w_pending w" e]]) (simp_all add: up)
  then show ?thesis unfolding existing_def
    by (rule triple_bind_eq) (auto intro!: triple_return)
qed

lemma recorded_upto: "recorded e app a0 ps w \<Longrightarrow> upto w v \<Longrightarrow> recorded e app a0 ps v"
  using stableD [OF stable_consistent] unfolding recorded_def upto_iff by metis

text \<open>What an opened session stands on.\<close>

definition started :: "env \<Rightarrow> string \<Rightarrow> authority_state \<Rightarrow> pending_transaction list \<Rightarrow> session \<Rightarrow> world \<Rightarrow> bool" where
  "started e app a0 ps s w \<longleftrightarrow> (\<exists>qs. length qs \<le> 1 \<and> recorded e app a0 (ps @ qs) w \<and> live e app (ps @ qs) s w \<and> \<not> ss_failed s \<and>
     ss_frontier s = resume (au_checkpoint (session_authority s)))"

definition interrupted :: "env \<Rightarrow> string \<Rightarrow> authority_state \<Rightarrow> pending_transaction list \<Rightarrow> world \<Rightarrow> bool" where
  "interrupted e app a0 ps w \<longleftrightarrow> (\<exists>qs. length qs \<le> 1 \<and> recorded e app a0 (ps @ qs) w)"

lemma interruptedI: "recorded e app a0 ps w \<Longrightarrow> interrupted e app a0 ps w" "recorded e app a0 (ps @ [q]) w \<Longrightarrow> interrupted e app a0 ps w"
  unfolding interrupted_def by (rule exI [of _ "[]"], simp, rule exI [of _ "[q]"], simp)

lemma rolled_lineage:
  assumes "lineage x a0 ps (snd a)" "case behind (snd a) pending of None \<Rightarrow> b = a | Some p \<Rightarrow> install x (snd a) p = Inr (snd b)"
  shows "lineage x a0 (ps @ rolled_forward a pending) (snd b)"
  using assms by (auto simp: rolled_forward_def intro: lineage.installed split: option.splits)

lemma rolled_length: "length (rolled_forward a pending) \<le> 1"
  by (simp add: rolled_forward_def split: option.splits)

lemma recover_session:
  assumes sha: "sha256_hex (e_ext e)" and laws: "delta_laws e app" and m: "mirror_law e reconcile"
    and dt: "app_id (dt_identity dt) = app" and bytes: "fc_inflight_bytes concurrency \<le> u64_max"
    and w: "consistent e app (ledger_of app ps) w" and st: "w_state w = Some a" and lin: "lineage (e_ext e) a0 ps (snd a)"
    and ld: "all_loaded app (ledger_of app ps) (unfinished app a (w_pending w)) dt w"
  shows "triple (\<lambda>v. v = w) (bindIO (open_reserved e reconcile expected (Some dt) concurrency) (\<lambda>c.
      returnIO \<lparr> ss_controller = c, ss_frontier = resume (au_checkpoint (snd (ct_authority c))), ss_failed = False \<rparr>))
    (started e app a0 ps) (interrupted e app a0 ps)"
proof (rule triple_bind [OF triple_conseq [OF open_triple [OF sha laws m dt w st ld]] triple_return])
  let ?qs = "rolled_forward a (w_pending w)"
  note H = resolved_ledger [of app ps a "w_pending w"]
  show "interrupted e app a0 ps v" if "unrecovered e app (ledger_of app ps) a w v" for v
    using that unfolding unrecovered_def
  proof (elim disjE exE conjE)
    assume "consistent e app (ledger_of app ps) v" "w_state v = Some a"
    then show ?thesis using lin interruptedI(1) unfolding recorded_def by blast
  next
    fix b p
    assume b: "behind (snd a) (w_pending w) = Some p" "install (e_ext e) (snd a) p = Inr (snd b)"
      "consistent e app (resolved app (ledger_of app ps) a (w_pending w)) v" "w_state v = Some b"
    have "recorded e app a0 (ps @ ?qs) v"
      using b rolled_lineage [OF lin, where pending = "w_pending w" and b = b] H unfolding recorded_def by auto
    then show ?thesis using rolled_length unfolding interrupted_def by blast
  qed
  show "started e app a0 ps \<lparr> ss_controller = c, ss_frontier = resume (au_checkpoint (snd (ct_authority c))), ss_failed = False \<rparr> v"
    if c: "au_descriptor (snd a) = expected \<and> recovered e app (ledger_of app ps) a dt w (ct_authority c, ct_delta c) v \<and> \<not> ct_failed c \<and>
       ct_concurrency c = concurrency" for c v
  proof -
    have "case behind (snd a) (w_pending w) of None \<Rightarrow> ct_authority c = a | Some p \<Rightarrow> install (e_ext e) (snd a) p = Inr (snd (ct_authority c))"
      using c unfolding recovered_def fst_conv by blast
    from rolled_lineage [OF lin this]
    have rec: "settled e app (ledger_of app (ps @ ?qs)) (ct_authority c) v" "at_ledger app (ledger_of app (ps @ ?qs)) dt (ct_delta c) v"
      "lineage (e_ext e) a0 (ps @ ?qs) (snd (ct_authority c))"
      using c H by (simp_all add: recovered_def)
    have "\<exists>d. ready_for e app (ledger_of app (ps @ ?qs)) c d v"
      using rec(2) c bytes dt by (auto simp: at_ledger_def ready_for_def recovered_def)
    then have "live e app (ps @ ?qs) \<lparr> ss_controller = c, ss_frontier = resume (au_checkpoint (snd (ct_authority c))), ss_failed = False \<rparr> v"
      using rec(1) by (simp add: live_def)
    then show ?thesis using recorded_settled [OF rec(1,3)] rolled_length unfolding started_def session_authority_def by (intro exI [of _ ?qs]) simp
  qed
qed simp

abbreviation open_rest ::
  "env \<Rightarrow> mirror_action \<Rightarrow> stream_descriptor \<Rightarrow> (string \<times> string list) list \<Rightarrow> flush_concurrency \<Rightarrow> authority_state \<Rightarrow> session io" where
  "open_rest e reconcile expected columns concurrency authority \<equiv>
     bindIO (liftR (require (au_descriptor authority = expected) STREAM_MISMATCH)) (\<lambda>_.
     bindIO (liftR (identity_of (e_ext e) expected)) (\<lambda>identity.
     bindIO (open_specs e identity (map (\<lambda>(t, columns). (t, Some columns)) columns) (cp_ordinal (au_checkpoint authority) = 0)) (\<lambda>tables.
     bindIO (open_reserved e reconcile expected (Some tables) concurrency) (\<lambda>c.
     returnIO \<lparr> ss_controller = c, ss_frontier = resume (au_checkpoint (snd (ct_authority c))), ss_failed = False \<rparr>))))"

lemma open_rest_triple:
  assumes sha: "sha256_hex (e_ext e)" and laws: "delta_laws e app" and m: "mirror_law e reconcile"
    and id: "identity_of (e_ext e) (au_descriptor a0) = Inr i" "app_id i = app" and bytes: "fc_inflight_bytes concurrency \<le> u64_max"
    and w: "recorded e app a0 ps w" and st: "w_state w = Some a"
  shows "triple (upto w) (open_rest e reconcile expected columns concurrency (snd a))
    (\<lambda>s v. expected = au_descriptor a0 \<and> started e app a0 ps s v) (interrupted e app a0 ps)" (is "triple _ _ ?Q ?E")
proof -
  have lin: "lineage (e_ext e) a0 ps (snd a)" and c: "consistent e app (ledger_of app ps) w"
    using w st by (auto simp: recorded_def)
  let ?H = "ledger_of app ps" and ?C = "unfinished app a (w_pending w)"
  have d: "au_descriptor (snd a) = au_descriptor a0" using lineage_ordinals [OF lin] by simp
  note part = consistent_partial [OF c st]
  have E: "?E v" if "upto w v" for v using recorded_upto [OF w that] by (rule interruptedI)
  have grown: "consistent e app ?H v" "w_state v = Some a" "w_pending v = w_pending w" if "log_growth app ?H ?C w v" for v
    using grown_consistent [OF c st] that st by (auto simp: grows_def only_logs_def)
  have E': "?E v" if "log_growth app ?H ?C w v" for v
    using grown [OF that] lin interruptedI(1) unfolding recorded_def by blast
  have tail: "triple (log_growth app ?H ?C w) (bindIO (open_specs e i (map (\<lambda>(t, columns). (t, Some columns)) columns)
       (cp_ordinal (au_checkpoint (snd a)) = 0)) (\<lambda>tables.
     bindIO (open_reserved e reconcile expected (Some tables) concurrency) (\<lambda>c.
     returnIO \<lparr> ss_controller = c, ss_frontier = resume (au_checkpoint (snd (ct_authority c))), ss_failed = False \<rparr>))) (started e app a0 ps) ?E"
  proof (rule triple_seq [OF open_specs_triple [OF laws part(2)] E'], assumption, rule triple_pointwise, elim conjE)
    fix tables v
    assume g: "logs_partial app ?H ?C v" "grows w v" and v: "dt_identity tables = i" "all_loaded app ?H ?C tables v"
    note g = conjI [OF g]
    show "triple (\<lambda>u. u = v) (bindIO (open_reserved e reconcile expected (Some tables) concurrency) (\<lambda>c.
       returnIO \<lparr> ss_controller = c, ss_frontier = resume (au_checkpoint (snd (ct_authority c))), ss_failed = False \<rparr>)) (started e app a0 ps) ?E"
      by (rule recover_session [OF sha laws m _ bytes grown(1,2) [OF g] lin]) (use v id(2) grown(3) [OF g] in simp_all)
  qed
  show ?thesis
  proof (rule triple_bind_lift, rule triple_bind_lift)
    fix u identity
    assume "require (au_descriptor (snd a) = expected) STREAM_MISMATCH = Inr u" "identity_of (e_ext e) expected = Inr identity"
    then have x: "expected = au_descriptor a0" "identity = i" using d id(1) by (auto simp: require_def bail_def split: if_splits)
    show "triple (upto w) (bindIO (open_specs e identity (map (\<lambda>(t, columns). (t, Some columns)) columns) (cp_ordinal (au_checkpoint (snd a)) = 0)) (\<lambda>tables.
      bindIO (open_reserved e reconcile expected (Some tables) concurrency) (\<lambda>c.
      returnIO \<lparr> ss_controller = c, ss_frontier = resume (au_checkpoint (snd (ct_authority c))), ss_failed = False \<rparr>))) ?Q ?E"
      by (rule triple_conseq [OF tail [folded x(2)]]) (use x part(1) in \<open>auto simp: grows_def only_logs_def upto_iff logs_partial_def\<close>)
  qed (use E in auto)
qed

lemma session_open_triple:
  assumes sha: "sha256_hex (e_ext e)" and laws: "delta_laws e app" and m: "mirror_law e reconcile" and adm: "admission_law adm"
    and id: "identity_of (e_ext e) (au_descriptor a0) = Inr i" "app_id i = app" and bytes: "fc_inflight_bytes concurrency \<le> u64_max"
    and w: "recorded e app a0 ps w"
  shows "triple (\<lambda>v. v = w) (session_open e reconcile adm expected columns concurrency)
    (\<lambda>s v. expected = au_descriptor a0 \<and> started e app a0 ps s v) (interrupted e app a0 ps)" (is "triple _ _ ?Q ?E")
proof -
  obtain a where st: "w_state w = Some a" using w unfolding recorded_def by blast
  have E: "?E v" if "upto w v" for v using recorded_upto [OF w that] by (rule interruptedI)
  have main: "triple (upto w) (bindIO (admit_root adm (Some (snd a) \<noteq> None) expected) (\<lambda>_. open_rest e reconcile expected columns concurrency (snd a))) ?Q ?E"
    by (rule triple_seq [OF admission_law.admit_root_triple [OF adm] E open_rest_triple [OF sha laws m id bytes w st]])
  have ex: "triple (\<lambda>v. v = w) (existing e) (\<lambda>r v. r = Some (snd a) \<and> upto w v) ?E"
    by (rule triple_conseq [OF existing_triple [OF st]]) (use E in auto)
  show ?thesis unfolding session_open_def
    by (rule triple_bind_eq [OF ex]) (use main in \<open>simp add: bindIO_return\<close>)
qed

section \<open>Opening a new root\<close>

text \<open>No stream was ever started on the root.\<close>

definition vacant :: "world \<Rightarrow> bool" where
  "vacant w \<longleftrightarrow> w_state w = None \<and> w_pending w = None \<and> (\<forall>t. w_inflight w t = [])"

definition initialized :: "env \<Rightarrow> string \<Rightarrow> authority_state \<Rightarrow> world \<Rightarrow> bool" where
  "initialized e app a w \<longleftrightarrow> (\<exists>v. w_state w = Some (v, a)) \<and> authority_initial (e_ext e) (au_descriptor a) = Inr a \<and>
     w_pending w = None \<and> (sd_mirror (au_descriptor a) = MDisabled \<or> w_mirror w = None) \<and> (\<forall>t. own app (w_logs w t) = [] \<and> w_inflight w t = [])"

lemma initialized_settled: "initialized e app a w \<Longrightarrow> w_state w = Some (v, a) \<Longrightarrow> settled e app (ledger_of app []) (v, a) w"
  using initial_valid [of "e_ext e" "au_descriptor a" a]
  by (auto simp: initialized_def settled_def based_def ledger_of_def ledger_behind_def mirror_ok_def logs_exact_def last_version_def)

lemma initialized_recorded:
  assumes "initialized e app a w"
  shows "recorded e app a [] w"
proof -
  obtain v where "w_state w = Some (v, a)" using assms by (auto simp: initialized_def)
  from initialized_settled [OF assms this] show ?thesis by (rule recorded_settled) (simp add: lineage.start)
qed

lemma session_open_vacant:
  assumes sha: "sha256_hex (e_ext e)" and laws: "delta_laws e app" and m: "mirror_law e reconcile" and adm: "admission_law adm"
    and id: "identity_of (e_ext e) (au_descriptor a0) = Inr i" "app_id i = app" and bytes: "fc_inflight_bytes concurrency \<le> u64_max"
    and a0: "authority_initial (e_ext e) expected = Inr a0" and w: "vacant w"
  shows "triple (upto w) (session_open e reconcile adm expected columns concurrency)
    (\<lambda>s v. expected = au_descriptor a0 \<and> started e app a0 [] s v) (\<lambda>v. upto w v \<or> interrupted e app a0 [] v)" (is "triple _ _ ?Q ?E")
proof -
  have slots: "w_state w = None" "w_pending w = None" using w by (simp_all add: vacant_def)
  have up: "has_journal w (None, None) v \<longleftrightarrow> upto w v" for v using journal_upto [of w v] slots by simp
  have d: "au_descriptor a0 = expected" using a0 by (auto simp: authority_initial_def bindR_eq_Inr)
  have init: "initialized e app a0 v" if "empty_root expected w" "has_journal w (Some r, None) v" "snd r = a0" for v r
    using that w a0 d by (cases r) (auto simp: initialized_def empty_root_def vacant_def has_journal_def)
  have "triple (has_journal w (None, None)) (store_load e) (\<lambda>r v. r = (None, None) \<and> upto w v) ?E"
    by (rule triple_conseq [OF store_load_triple [of w None None e]]) (simp_all add: up)
  then have ex: "triple (upto w) (existing e) (\<lambda>r v. r = None \<and> upto w v) ?E"
    unfolding existing_def up [abs_def] by (rule triple_bind_eq) (auto intro!: triple_return)
  have create: "triple (upto w) (create_output e expected) (\<lambda>_. upto w) ?E"
    unfolding create_output_def revalidate_local_paths_def
    by (rule triple_conseq [where Q = "\<lambda>_. upto w" and E = "upto w" and P = "upto w"])
      (auto intro!: triple_bind [OF triple_sync [OF stable_upto]] triple_sync stable_upto triple_return split: storage_identity.split)
  have store: "triple (upto w) (store_initialize e a0) (\<lambda>r v. snd r = a0 \<and> initialized e app a0 v \<and> w_state v = Some r) ?E"
    if e0: "empty_root expected w"
  proof (rule triple_conseq [OF initialize_atomic [of w None None e a0, unfolded atomically_def]])
    show "?E v" if "has_journal w (None, None) v \<or> (\<exists>r k. (snd r = a0 \<and> authority_validate (e_ext e) a0 = Inr () \<and>
       empty_checkpoint (au_checkpoint a0) \<and> (None, None) = (None, None) \<and> k = (Some r, None)) \<and> has_journal w k v)" for v
      using that up init [OF e0] initialized_recorded interruptedI(1) by blast
    show "snd r = a0 \<and> initialized e app a0 v \<and> w_state v = Some r" if "\<exists>k. (snd r = a0 \<and> authority_validate (e_ext e) a0 = Inr () \<and>
       empty_checkpoint (au_checkpoint a0) \<and> (None, None) = (None, None) \<and> k = (Some r, None)) \<and> has_journal w k v" for r v
      using that init [OF e0, of r v] by (auto simp: has_journal_def)
  qed (simp add: up)
  have rest: "triple (\<lambda>v. snd r = a0 \<and> initialized e app a0 v \<and> w_state v = Some r)
      (open_rest e reconcile expected columns concurrency (snd r)) ?Q ?E" for r
  proof (rule triple_pointwise, elim conjE)
    fix v
    assume v: "initialized e app a0 v" "w_state v = Some r"
    show "triple (\<lambda>u. u = v) (open_rest e reconcile expected columns concurrency (snd r)) ?Q ?E"
      by (rule triple_conseq [OF open_rest_triple [OF sha laws m id bytes initialized_recorded [OF v(1)] v(2)]]) auto
  qed
  have target: "triple (upto w) (admit_root adm False expected) (\<lambda>_. upto w) ?E"
    by (rule triple_conseq [OF admission_law.admit_root_triple [OF adm]]) auto
  have admitted: "triple (upto w) (ad_initializable adm expected) (\<lambda>_ v. empty_root expected w \<and> upto w v) ?E"
    by (rule triple_conseq [OF admission_law.admitted_triple [OF adm]]) auto
  have started_new: "triple (upto w) (bindIO (ad_initializable adm expected) (\<lambda>_. bindIO (create_output e expected) (\<lambda>_.
        bindIO (liftR (authority_initial (e_ext e) expected)) (\<lambda>a. bindIO (store_initialize e a) (\<lambda>stored. returnIO (snd stored))))))
      (\<lambda>authority v. \<exists>r. authority = snd r \<and> snd r = a0 \<and> initialized e app a0 v \<and> w_state v = Some r) ?E"
    by (rule triple_bind_pure [OF admitted], rule triple_bind [OF create], rule triple_lift_ok [OF a0], rule triple_bind [OF store], assumption)
      (auto intro!: triple_return)
  have all: "triple (upto w) (bindIO (admit_root adm False expected) (\<lambda>_.
      bindIO (bindIO (ad_initializable adm expected) (\<lambda>_. bindIO (create_output e expected) (\<lambda>_.
        bindIO (liftR (authority_initial (e_ext e) expected)) (\<lambda>a. bindIO (store_initialize e a) (\<lambda>stored. returnIO (snd stored))))))
      (open_rest e reconcile expected columns concurrency))) ?Q ?E"
  proof (rule triple_bind [OF target], rule triple_bind [OF started_new], rule triple_pre_ex)
    fix authority r
    have "triple (\<lambda>v. authority = snd r \<and> snd r = a0 \<and> initialized e app a0 v \<and> w_state v = Some r)
        (open_rest e reconcile expected columns concurrency authority) ?Q ?E"
      by (rule triple_pre_pure) (use rest [of r] in simp)
    then show "triple (\<lambda>v. authority = snd r \<and> snd r = a0 \<and> initialized e app a0 v \<and> w_state v = Some r)
        (open_rest e reconcile expected columns concurrency authority) ?Q ?E" .
  qed
  show ?thesis unfolding session_open_def
    by (rule triple_bind_eq [OF ex]) (use all in simp)
qed

section \<open>Working on a dataset\<close>

text \<open>What an operation of a session leads to: the transactions it adds and the ordinals it acknowledges.\<close>

definition progressed ::
  "env \<Rightarrow> string \<Rightarrow> authority_state \<Rightarrow> pending_transaction list \<Rightarrow> session option \<times> nat list \<Rightarrow> world \<Rightarrow> bool" where
  "progressed e app a0 ps out w \<longleftrightarrow> (\<exists>qs. working e app a0 (ps @ qs) (fst out) w \<and>
     set (snd out) \<subseteq> (\<lambda>p. ap_last_ordinal (pt_prefix p)) ` set qs)"

lemma progressed_none: "working e app a0 ps s w \<Longrightarrow> progressed e app a0 ps (s, []) w"
  unfolding progressed_def by (rule exI [of _ "[]"]) simp

lemma progressed_dropped: "interrupted e app a0 ps w \<Longrightarrow> progressed e app a0 ps (None, []) w"
  unfolding interrupted_def progressed_def working_def by auto

lemma progressed_failed: "interrupted e app a0 ps w \<Longrightarrow> ss_failed s \<Longrightarrow> progressed e app a0 ps (Some s, []) w"
  unfolding interrupted_def progressed_def working_def by auto

lemma left_by_interrupted:
  assumes "left_by e app (ledger_of app ps) a prefix w" "lineage (e_ext e) a0 ps (snd a)"
  shows "interrupted e app a0 ps w"
proof -
  have old: "interrupted e app a0 ps w" if "consistent e app (ledger_of app ps) w" "w_state w = Some a"
    using that assms(2) interruptedI(1) unfolding recorded_def by blast
  have new: "interrupted e app a0 ps w"
    if "consistent e app (ledger_of app (ps @ [snd h])) w" "w_state w = Some b" "install (e_ext e) (snd a) (snd h) = Inr (snd b)" for h b
    using that lineage.installed [OF assms(2) that(3)] interruptedI(2) unfolding recorded_def by blast
  show ?thesis
    using assms(1) unfolding left_by_def ledger_of_snoc applied_def
    by (elim disjE exE conjE) (blast intro: old new consistentI dest: state_of)+
qed

lemma flush_ordinal:
  assumes "install x a p = Inr (snd (ct_authority c))" "committed_flush_of c p commits = Inr flush"
  shows "fl_ordinal flush = ap_last_ordinal (pt_prefix p)"
proof -
  have "pending_validate x p (au_descriptor a) = Inr ()" "au_checkpoint (snd (ct_authority c)) = pt_target p"
    using assms(1) by (auto simp: install_ok validate_predecessor_ok)
  then show ?thesis using pending_target(2) [of x p "au_descriptor a"] assms(2) by (auto simp: committed_flush_of_def bindR_eq_Inr)
qed

definition flush_report :: "committed_flush option result \<Rightarrow> nat list" where
  "flush_report r = (case r of Inr (Some flush) \<Rightarrow> [fl_ordinal flush] | _ \<Rightarrow> [])"

lemma session_flush_triple:
  assumes sha: "sha256_hex (e_ext e)" and ac: "digest_acyclic (e_ext e)" and laws: "delta_laws e app" and m: "mirror_law e reconcile"
    and w: "working e app a0 ps (Some s) w"
  shows "triple (\<lambda>v. v = w) (session_flush e reconcile data_batches multi_thread s batches metadata compression file_metadata)
    (\<lambda>(r, s') v. progressed e app a0 ps (Some s', flush_report r) v) (\<lambda>_. False)" (is "triple _ _ ?Q _")
proof (cases "ss_failed s")
  case True
  then have "session_ready s = Inl (Bail ''ingestion session stopped after an unresolved operation; reopen through recovery'')"
    by (simp add: session_ready_def require_def bail_def)
  then show ?thesis unfolding session_flush_def
    by (auto intro!: triple_return simp: flush_report_def progressed_none [OF w])
next
  case False
  let ?c = "ss_controller s" and ?H = "ledger_of app ps" and ?s = "s\<lparr> ss_failed := True \<rparr>"
  have ready: "session_ready s = Inr ()" using False by (simp add: session_ready_def require_def)
  have rec: "recorded e app a0 ps w" and lv: "live e app ps s w" using w False by (auto simp: working_def)
  then obtain dt where set: "settled e app ?H (ct_authority ?c) w" and rd: "ready_for e app ?H ?c dt w" by (auto simp: live_def)
  have lin: "lineage (e_ext e) a0 ps (snd (ct_authority ?c))" by (rule live_recorded [OF lv rec])
  have failed: "?Q (Inl err, s') v" if "interrupted e app a0 ps v" "ss_failed s'" for err s' v
    using progressed_failed [OF that] by (simp add: flush_report_def)
  show ?thesis
  proof (cases "flush_input (e_ext e) data_batches s batches metadata")
    case (Inl err)
    then show ?thesis unfolding session_flush_def ready Let_def sum.case Inl
      by (intro triple_return) (use failed interruptedI(1) [OF rec] in simp)
  next
    case (Inr input)
    show ?thesis
    proof (cases input)
      case None
      show ?thesis unfolding session_flush_def ready Let_def sum.case Inr None option.case
        by (intro triple_return) (use progressed_none [OF w] in \<open>simp add: flush_report_def\<close>)
    next
      case (Some pc)
      obtain prefix cast where pc: "pc = (prefix, cast)" by (cases pc)
      have commit: "triple (\<lambda>v. v = w) (controller_commit e reconcile multi_thread ?c prefix cast metadata compression file_metadata)
          (commit_end e app ?H (ct_authority ?c) prefix) (\<lambda>_. False)"
        by (rule commit_triple [OF sha laws m set refl rd]) (rule acyclic_from_digests [OF sha ac prepare_ok(1)])
      show ?thesis unfolding session_flush_def ready Let_def sum.case Inr Some option.case pc prod.case
      proof (rule triple_bind [OF commit])
        fix rc :: "committed_flush result \<times> controller"
        obtain committed c where rc: "rc = (committed, c)" by (cases rc)
        show "triple (commit_end e app ?H (ct_authority ?c) prefix rc) (case rc of (committed, c) \<Rightarrow>
            returnIO (case committed of Inl err \<Rightarrow> (Inl err, ?s\<lparr> ss_controller := c \<rparr>)
             | Inr flush \<Rightarrow> (case acknowledge (e_ext e) (ss_frontier s) prefix of
                  Inl err \<Rightarrow> (Inl err, ?s\<lparr> ss_controller := c \<rparr>)
                | Inr f \<Rightarrow> (Inr (Some flush), ?s\<lparr> ss_controller := c, ss_frontier := f, ss_failed := False \<rparr>)))) ?Q (\<lambda>_. False)"
          unfolding rc prod.case
        proof (rule triple_return)
          fix v
          assume ce: "commit_end e app ?H (ct_authority ?c) prefix (committed, c) v"
          show "?Q (case committed of Inl err \<Rightarrow> (Inl err, ?s\<lparr> ss_controller := c \<rparr>)
             | Inr flush \<Rightarrow> (case acknowledge (e_ext e) (ss_frontier s) prefix of
                  Inl err \<Rightarrow> (Inl err, ?s\<lparr> ss_controller := c \<rparr>)
                | Inr f \<Rightarrow> (Inr (Some flush), ?s\<lparr> ss_controller := c, ss_frontier := f, ss_failed := False \<rparr>))) v"
          proof (cases committed)
            case (Inl err)
            then have "left_by e app ?H (ct_authority ?c) prefix v" using ce by (simp add: commit_end_def)
            then show ?thesis using failed [OF left_by_interrupted [OF _ lin]] Inl by simp
          next
            case (Inr flush)
            then obtain h d where h: "applied e app ?H (ct_authority ?c) prefix h (ct_authority c)"
              "settled e app (ledger_of app (ps @ [snd h])) (ct_authority c) v" "ready_for e app (ledger_of app (ps @ [snd h])) c d v"
              "committed_flush_of c (snd h) (fl_delta flush) = Inr flush"
              using ce unfolding commit_end_def fst_conv snd_conv Inr sum.case ledger_of_snoc by blast
            have inst: "install (e_ext e) (snd (ct_authority ?c)) (snd h) = Inr (snd (ct_authority c))" using h(1) by (simp add: applied_def)
            have rec': "recorded e app a0 (ps @ [snd h]) v" by (rule recorded_settled [OF h(2) lineage.installed [OF lin inst]])
            show ?thesis
            proof (cases "acknowledge (e_ext e) (ss_frontier s) prefix")
              case (Inl err)
              then show ?thesis using failed [OF interruptedI(2) [OF rec']] Inr by simp
            next
              case ack: (Inr f)
              have "working e app a0 (ps @ [snd h]) (Some (?s\<lparr> ss_controller := c, ss_frontier := f, ss_failed := False \<rparr>)) v"
                using rec' h(2,3) by (auto simp: working_def live_def)
              then show ?thesis using Inr ack flush_ordinal [OF inst h(4)]
                by (auto simp: progressed_def flush_report_def intro!: exI [of _ "[snd h]"])
            qed
          qed
        qed
      qed
    qed
  qed
qed

lemma session_complete_triple:
  assumes m: "mirror_law e reconcile" and w: "working e app a0 ps (Some s) w"
  shows "triple (\<lambda>v. v = w) (session_complete_request e reconcile s stop clean)
    (\<lambda>(r, s') v. progressed e app a0 ps (Some s', []) v) (\<lambda>_. False)" (is "triple _ _ ?Q _")
proof (cases "ss_failed s")
  case True
  then have "session_ready s = Inl (Bail ''ingestion session stopped after an unresolved operation; reopen through recovery'')"
    by (simp add: session_ready_def require_def bail_def)
  then show ?thesis unfolding session_complete_request_def
    by (auto intro!: triple_return simp: progressed_none [OF w])
next
  case False
  let ?c = "ss_controller s" and ?H = "ledger_of app ps"
  have ready: "session_ready s = Inr ()" using False by (simp add: session_ready_def require_def)
  have rec: "recorded e app a0 ps w" and lv: "live e app ps s w" using w False by (auto simp: working_def)
  then obtain dt where set: "settled e app ?H (ct_authority ?c) w" and rd: "ready_for e app ?H ?c dt w" by (auto simp: live_def)
  have lin: "lineage (e_ext e) a0 ps (snd (ct_authority ?c))" by (rule live_recorded [OF lv rec])
  have stepped: "recorded e app a0 ps v" if "settled e app ?H b v" "b = ct_authority ?c \<or> completed e (ct_authority ?c) stop b" for b v
  proof -
    have "lineage (e_ext e) a0 ps (snd b)" using that(2) lin lineage.completes [OF lin] unfolding completed_def by blast
    then show ?thesis by (rule recorded_settled [OF that(1)])
  qed
  show ?thesis unfolding session_complete_request_def ready sum.case Let_def
  proof (rule triple_bind [OF complete_triple [OF m set rd]])
    fix rc :: "bool result \<times> controller"
    obtain changed c where rc: "rc = (changed, c)" by (cases rc)
    let ?s = "s\<lparr> ss_controller := c, ss_failed := True \<rparr>"
    show "triple (complete_end e app ?H ?c stop (ss_frontier s) rc) (case rc of (changed, c) \<Rightarrow>
        returnIO (case changed of Inl err \<Rightarrow> (Inl err, s\<lparr> ss_controller := c, ss_failed := True \<rparr>)
          | Inr b \<Rightarrow> (Inr b, s\<lparr> ss_controller := c, ss_failed := True, ss_failed := False \<rparr>))) ?Q (\<lambda>_. False)"
      unfolding rc prod.case
    proof (rule triple_return)
      fix v
      assume ce: "complete_end e app ?H ?c stop (ss_frontier s) (changed, c) v"
      show "?Q (case changed of Inl err \<Rightarrow> (Inl err, ?s) | Inr b \<Rightarrow> (Inr b, s\<lparr> ss_controller := c, ss_failed := True, ss_failed := False \<rparr>)) v"
      proof (cases changed)
        case (Inl err)
        then have "recorded e app a0 ps v" using ce stepped unfolding complete_end_def fst_conv Inl sum.case by blast
        then show ?thesis using progressed_failed [OF interruptedI(1), of e app a0 ps v ?s] Inl by simp
      next
        case (Inr b)
        have st: "settled e app ?H (ct_authority c) v" "\<exists>dt. ready_for e app ?H c dt v"
          and by_: "ct_authority c = ct_authority ?c \<or> completed e (ct_authority ?c) stop (ct_authority c)"
          using ce unfolding complete_end_def fst_conv snd_conv Inr sum.case by (auto split: if_splits)
        have "working e app a0 ps (Some (s\<lparr> ss_controller := c, ss_failed := True, ss_failed := False \<rparr>)) v"
          using stepped [OF st(1) by_] st by (auto simp: working_def live_def)
        then show ?thesis using progressed_none Inr by simp
      qed
    qed
  qed
qed

text \<open>Operations on the frontier leave the controller alone.\<close>

lemma guarded_working:
  assumes "working e app a0 ps (Some s) w"
  shows "progressed e app a0 ps (Some (snd (guarded s body)), []) w"
proof -
  have "ss_controller (snd (guarded s body)) = ss_controller s \<and> (ss_failed s \<longrightarrow> ss_failed (snd (guarded s body)))"
    by (simp add: guarded_def session_ready_def require_def bail_def split: sum.splits prod.splits)
  then have "working e app a0 ps (Some (snd (guarded s body))) w" using assms by (auto simp: working_def live_def)
  then show ?thesis by (rule progressed_none)
qed

section \<open>Every sequence of operations\<close>

definition deployment_laws :: "deployment \<Rightarrow> string \<Rightarrow> bool" where
  "deployment_laws dp app \<longleftrightarrow> sha256_hex (e_ext (dp_env dp)) \<and> digest_acyclic (e_ext (dp_env dp)) \<and>
     delta_laws (dp_env dp) app \<and> mirror_law (dp_env dp) (dp_mirror dp) \<and> admission_law (dp_admission dp)"

fun op_wf :: "session_op \<Rightarrow> bool" where
  "op_wf (Open expected columns concurrency) \<longleftrightarrow> fc_inflight_bytes concurrency \<le> u64_max"
| "op_wf _ \<longleftrightarrow> True"

lemma session_step_progressed:
  assumes dp: "deployment_laws dp app" and id: "identity_of (e_ext (dp_env dp)) (au_descriptor a0) = Inr i" "app_id i = app"
    and w: "working (dp_env dp) app a0 ps s w" and op: "op_wf op" and run: "session_step dp op s w = (out, w')"
  shows "progressed (dp_env dp) app a0 ps out w'"
proof (cases op)
  case (Open expected columns concurrency)
  have rec: "recorded (dp_env dp) app a0 ps w" and fc: "fc_inflight_bytes concurrency \<le> u64_max" using w op Open by (auto simp: working_def)
  have laws: "sha256_hex (e_ext (dp_env dp))" "delta_laws (dp_env dp) app" "mirror_law (dp_env dp) (dp_mirror dp)" "admission_law (dp_admission dp)"
    using dp by (simp_all add: deployment_laws_def)
  note tr = tripleD [OF session_open_triple [OF laws id fc rec] refl]
  obtain r v where o: "session_open (dp_env dp) (dp_mirror dp) (dp_admission dp) expected columns concurrency w = (r, v)" by fastforce
  show ?thesis
  proof (cases r)
    case (Inl err)
    then show ?thesis using tr(2) [OF o [unfolded Inl]] run o Open progressed_dropped by auto
  next
    case (Inr s')
    have "started (dp_env dp) app a0 ps s' v" using tr(1) [OF o [unfolded Inr]] by simp
    then have "progressed (dp_env dp) app a0 ps (Some s', []) v" by (auto simp: started_def progressed_def working_def)
    then show ?thesis using run o Open Inr by auto
  qed
next
  case (Flush batches metadata compression file_metadata)
  have laws: "sha256_hex (e_ext (dp_env dp))" "digest_acyclic (e_ext (dp_env dp))" "delta_laws (dp_env dp) app" "mirror_law (dp_env dp) (dp_mirror dp)"
    using dp by (simp_all add: deployment_laws_def)
  show ?thesis
  proof (cases s)
    case (Some s0)
    obtain r s' v where o: "session_flush (dp_env dp) (dp_mirror dp) (dp_data_batches dp) (dp_multi_thread dp) s0 batches metadata
        compression file_metadata w = (Inr (r, s'), v)" "progressed (dp_env dp) app a0 ps (Some s', flush_report r) v"
      by (rule triple_success [OF session_flush_triple [OF laws w [unfolded Some]] refl]) auto
    have "out = (Some s', flush_report r) \<and> w' = v"
      using run o(1) Flush Some by (auto simp: flush_report_def split: sum.splits option.splits)
    then show ?thesis using o(2) by simp
  qed (use run Flush progressed_none [OF w] in simp)
next
  case (CompleteRequest stop clean)
  have m: "mirror_law (dp_env dp) (dp_mirror dp)" using dp by (simp add: deployment_laws_def)
  show ?thesis
  proof (cases s)
    case (Some s0)
    obtain r s' v where "session_complete_request (dp_env dp) (dp_mirror dp) s0 stop clean w = (Inr (r, s'), v)"
      "progressed (dp_env dp) app a0 ps (Some s', []) v"
      by (rule triple_success [OF session_complete_triple [OF m w [unfolded Some]] refl]) auto
    then show ?thesis using run CompleteRequest Some by auto
  qed (use run CompleteRequest progressed_none [OF w] in simp)
next
  case (Receive cursor identity step family)
  show ?thesis
  proof (cases s)
    case (Some s0)
    then show ?thesis using run Receive guarded_working [OF w [unfolded Some]] by (auto simp: session_receive_def)
  qed (use run Receive progressed_none [OF w] in simp)
next
  case (AcceptFiltered ordinal)
  show ?thesis
  proof (cases s)
    case (Some s0)
    then show ?thesis using run AcceptFiltered guarded_working [OF w [unfolded Some]] by (auto simp: session_accept_filtered_def)
  qed (use run AcceptFiltered progressed_none [OF w] in simp)
next
  case (AcceptMapped ordinal effective_timestamp lookahead)
  show ?thesis
  proof (cases s)
    case (Some s0)
    then show ?thesis using run AcceptMapped guarded_working [OF w [unfolded Some]] by (auto simp: session_accept_mapped_def)
  qed (use run AcceptMapped progressed_none [OF w] in simp)
qed

lemma session_run_progressed:
  assumes "deployment_laws dp app" "identity_of (e_ext (dp_env dp)) (au_descriptor a0) = Inr i" "app_id i = app" "list_all op_wf ops"
    "working (dp_env dp) app a0 ps s w" "session_run dp ops s w = (out, w')"
  shows "progressed (dp_env dp) app a0 ps out w'"
  using assms(4-)
proof (induction ops arbitrary: ps s w out w')
  case Nil
  then show ?case using progressed_none by auto
next
  case (Cons op ops)
  obtain s1 acks1 w1 where step: "session_step dp op s w = ((s1, acks1), w1)" by (metis surj_pair)
  obtain s2 acks2 w2 where run: "session_run dp ops s1 w1 = ((s2, acks2), w2)" by (metis surj_pair)
  have out: "out = (s2, acks1 @ acks2)" "w' = w2" using Cons.prems(3) step run by simp_all
  obtain qs where qs: "working (dp_env dp) app a0 (ps @ qs) s1 w1" "set acks1 \<subseteq> (\<lambda>p. ap_last_ordinal (pt_prefix p)) ` set qs"
    using session_step_progressed [OF assms(1-3) Cons.prems(2) _ step] Cons.prems(1) by (auto simp: progressed_def)
  obtain rs where "working (dp_env dp) app a0 ((ps @ qs) @ rs) s2 w2" "set acks2 \<subseteq> (\<lambda>p. ap_last_ordinal (pt_prefix p)) ` set rs"
    using Cons.IH [OF _ qs(1) run] Cons.prems(1) by (auto simp: progressed_def)
  then show ?case unfolding progressed_def using qs(2) out by (intro exI [of _ "qs @ rs"]) auto
qed

lemma initialized_working: "initialized e app a w \<Longrightarrow> working e app a [] None w"
  using initialized_recorded by (simp add: working_def)

lemma initial_ordinal: "authority_initial x d = Inr a \<Longrightarrow> cp_ordinal (au_checkpoint a) = 0"
  by (auto simp: authority_initial_def checkpoint_initial_def Let_def bindR_eq_Inr)

text \<open>What a recorded history says about the logs.\<close>

lemma recorded_logs:
  assumes "recorded e app a0 ps w" "w_state w = Some a"
  shows "own app (w_logs w t) = ledger_of app ps t \<or>
    (\<exists>p. behind (snd a) (w_pending w) = Some p \<and> own app (w_logs w t) = ledger_of app ps t @ journal_commits app p t)"
proof -
  have c: "consistent e app (ledger_of app ps) w" using assms(1) by (simp add: recorded_def)
  have "table_partial app (ledger_of app ps t) (unfinished app a (w_pending w) t) (table_at w t)"
    using consistent_partial(1) [OF c assms(2)] by (simp add: logs_partial_def)
  then show ?thesis by (auto simp: table_partial_def unfinished_def split: option.splits)
qed

end
