(* ===== verification/Session_Sample.thy ===== *)
theory Session_Sample
  imports Session_Safe
begin

text \<open>A concrete deployment and a sequence of operations on it, at which the properties are applied.\<close>

section \<open>A deployment\<close>

text \<open>
  A digest function that never names a checkpoint as its own predecessor: the predecessor is written at
  a fixed place of the digested bytes.
\<close>

definition chain_digest :: "string \<Rightarrow> string" where
  "chain_digest b = replicate 64 (if take 64 (drop 111 b) = replicate 64 (CHR ''0'') then CHR ''1'' else CHR ''0'')"

definition chain_ext :: ext where
  "chain_ext = sample_ext\<lparr> x_sha256 := chain_digest \<rparr>"

lemma chain_sha256_hex: "sha256_hex chain_ext"
proof -
  have "is_lower_hex (CHR ''0'')" "is_lower_hex (CHR ''1'')" by code_simp+
  then show ?thesis by (simp add: sha256_hex_def chain_ext_def chain_digest_def list_all_iff)
qed

lemma take_drop_middle: "length a = n \<Longrightarrow> length q = m \<Longrightarrow> take m (drop n (a @ q @ b)) = q"
  by simp

lemma chain_acyclic: "digest_acyclic chain_ext"
  unfolding digest_acyclic_def
proof (intro allI impI)
  fix c :: checkpoint and stream prev
  assume wf: "digest_wf stream" "digest_wf prev" and p: "cp_previous c = Some prev"
  obtain s where s: "stream = Digest s" "length s = 64" using wf(1) by (cases stream) (auto simp: digest_wf_def)
  obtain q where q: "prev = Digest q" "length q = 64" using wf(2) by (cases prev) (auto simp: digest_wf_def)
  define tail where "tail = [CHR 0x22] @ '','' @ intersperse_comma (map (canonical_json chain_ext) [JNum (int (cp_ordinal c)),
      opt_json event_json (cp_event c), routing_json (cp_routing c), opt_json (\<lambda>n. JNum (int n)) (cp_completed_stop c)])"
  let ?head = "''fireparq-transaction-v1'' @ [CHR 0x00] @ be64_bytes (length ''checkpoint'') @ ''checkpoint'' @ ''['' @ [CHR 0x22] @ s @
      [CHR 0x22] @ '','' @ [CHR 0x22]"
  have len: "length ?head = 111" using s(2) by (simp add: be64_bytes_def)
  have str: "canonical_json chain_ext (JStr u) = [CHR 0x22] @ u @ [CHR 0x22]" for u by (simp add: chain_ext_def sample_ext_def)
  have "x_sha256 chain_ext = chain_digest" by (simp add: chain_ext_def)
  then have "checkpoint_identity chain_ext c stream = Digest (chain_digest (?head @ q @ (tail @ '']'')))"
    unfolding checkpoint_identity_def digest_hash_def p opt_json_def [of _ "Some _"] option.case digest_json_def s(1) q(1) digest_str.simps tail_def
    by (simp only: canonical_json.simps(2) list.map intersperse_comma.simps str append_assoc append_Cons append_Nil)
  moreover have "take 64 (drop 111 (?head @ q @ (tail @ '']''))) = q" by (rule take_drop_middle [OF len q(2)])
  ultimately show "checkpoint_identity chain_ext c stream \<noteq> prev" using q(1) by (auto simp: chain_digest_def)
qed

definition chain_authority :: authority_state where
  "chain_authority = (case authority_initial chain_ext sample_descriptor of Inr a \<Rightarrow> a | Inl _ \<Rightarrow> sample_authority)"

text \<open>The part that the flush below writes, for the footer the Parquet reader finds in it.\<close>

definition chain_pending :: pending_transaction where
  "chain_pending = (case prepare chain_ext chain_authority
       \<lparr> ap_first_ordinal = 1, ap_last_ordinal = 1, ap_events_sha256 = sample_digest (CHR ''0''),
         ap_last_event = \<lparr> ev_cursor = ''c1'', ev_block_num = 10, ev_block_id = ''b10'', ev_fork_step = 3,
           ev_source_timestamp = Some 1700000000 \<rparr>,
         ap_routing = \<lparr> rc_policy = GenesisLookaheadV1, rc_anchor = None \<rparr> \<rparr>
       [\<lparr> tp_table = ''blocks'', tp_rows = 3, tp_schema_sha256 = sample_digest (CHR ''1''), tp_partition = ''date=2023-11-14'' \<rparr>,
        \<lparr> tp_table = ''logs'', tp_rows = 0, tp_schema_sha256 = sample_digest (CHR ''2''), tp_partition = [] \<rparr>] Snappy of
     Inr p \<Rightarrow> p | Inl _ \<Rightarrow> sample_pending)"

definition chain_env :: env where
  "chain_env = sample_env\<lparr> e_ext := chain_ext,
     e_parquet := (\<lambda>_. Some (exact_footer (writer_plan chain_pending (hd (pt_parts chain_pending))))) \<rparr>"

lemma chain_env_ext [simp]: "e_ext chain_env = chain_ext"
  by (simp add: chain_env_def)

lemma chain_delta_laws: "delta_laws chain_env app"
  using sample_delta_laws [of app] by (simp add: delta_laws_def chain_env_def)

definition sample_admission :: admission where
  "sample_admission = local_admission chain_env sample_roots (pm_ownership sample_mirror_at) (\<lambda>_. False) (\<lambda>_. returnIO ())"

interpretation chain_admission: admission_law sample_admission
  unfolding sample_admission_def
  by (rule local_admission_law [OF sample_listing.root_listing_axioms]) (simp add: reads_only_def returnIO_def upto_iff)

definition sample_deployment :: deployment where
  "sample_deployment = \<lparr> dp_env = chain_env,
     dp_mirror = mirror_reconcile chain_env (sample_mirror_at\<lparr> pm_binding := MDisabled \<rparr>),
     dp_admission = sample_admission, dp_data_batches = (\<lambda>batches _. Inr batches), dp_multi_thread = False \<rparr>"

lemma chain_mirror_format: "mirror_format (e_mirror chain_env)"
  using sample_mirror_format by (simp add: chain_env_def)

interpretation chain_mirror: mirror_law chain_env "dp_mirror sample_deployment"
  using protected_mirror_law [OF chain_mirror_format, of "sample_mirror_at\<lparr> pm_binding := MDisabled \<rparr>"]
  by (simp add: sample_deployment_def)

lemma sample_deployment_laws: "deployment_laws sample_deployment app"
  using chain_sha256_hex chain_acyclic chain_mirror.mirror_law_axioms chain_delta_laws chain_admission.admission_law_axioms
  by (simp add: deployment_laws_def sample_deployment_def)

lemma initial_descriptor: "authority_initial x d = Inr a \<Longrightarrow> au_descriptor a = d"
  by (auto simp: authority_initial_def bindR_eq_Inr)

lemma chain_authority: "authority_initial chain_ext sample_descriptor = Inr chain_authority" "au_descriptor chain_authority = sample_descriptor"
proof -
  show a: "authority_initial chain_ext sample_descriptor = Inr chain_authority"
    using initial_total [OF sample_descriptor_valid, of chain_ext] by (auto simp: chain_authority_def)
  then show "au_descriptor chain_authority = sample_descriptor" by (rule initial_descriptor)
qed

lemma chain_identity: "\<exists>i. identity_of chain_ext sample_descriptor = Inr i"
  using sample_descriptor_valid by (simp add: identity_of_def sample_descriptor_def descriptor_id_def)

definition chain_world :: world where
  "chain_world = empty_world\<lparr> w_state := Some (\<lparr> cv_incarnation = ''a'', cv_revision = 0, cv_digest = ''y'' \<rparr>, chain_authority) \<rparr>"

lemma chain_initialized: "initialized (dp_env sample_deployment) app chain_authority chain_world"
  using chain_authority by (simp add: initialized_def chain_world_def sample_deployment_def empty_world_def)

definition sample_session_ops :: "session_op list" where
  "sample_session_ops = [Open sample_descriptor [(''blocks'', [''number'']), (''logs'', [''number''])] sample_limits,
     Receive ''c1'' \<lparr> bi_block_num = 10, bi_block_id = ''b10'', bi_timestamp = 1700000000 \<rparr> 3 Evm,
     AcceptMapped 1 (Some 1700000000) None,
     Flush [(''blocks'', sample_rows)] \<lparr> bm_min_block_number = 10, bm_max_block_number = 10,
       bm_min_timestamp = Some 1700000000, bm_max_timestamp = Some 1700000000 \<rparr> CompSnappy [],
     CompleteRequest 11 True,
     Open sample_descriptor [(''blocks'', [''number'']), (''logs'', [''number''])] sample_limits]"

lemma sample_session_ops_wf: "list_all op_wf sample_session_ops"
  by (simp add: sample_session_ops_def sample_limits_def u64_max_def)

text \<open>A controller opened on the dataset with freshly created tables.\<close>

definition chain_controller :: controller where
  "chain_controller = \<lparr> ct_authority = (\<lparr> cv_incarnation = ''a'', cv_revision = 0, cv_digest = ''y'' \<rparr>, chain_authority),
     ct_failed = False, ct_concurrency = sample_limits, ct_delta = Some sample_opened \<rparr>"

definition chain_created :: world where
  "chain_created = chain_world\<lparr> w_logs := (\<lambda>_. [creation_commit sample_identity []]) \<rparr>"

lemma chain_settled:
  "settled chain_env app (\<lambda>_. []) (ct_authority chain_controller) chain_created"
  "ready_for chain_env (app_id sample_identity) (\<lambda>_. []) chain_controller sample_opened chain_created"
proof -
  have "authority_validate chain_ext chain_authority = Inr ()" by (rule initial_valid [OF chain_authority(1)])
  then show "settled chain_env app (\<lambda>_. []) (ct_authority chain_controller) chain_created"
    by (simp add: settled_def based_def chain_controller_def chain_created_def chain_world_def empty_world_def ledger_behind_def
        mirror_ok_def logs_exact_def last_version_def own_commit_def creation_commit_def)
  show "ready_for chain_env (app_id sample_identity) (\<lambda>_. []) chain_controller sample_opened chain_created"
    by (auto simp: ready_for_def mirror_current_def chain_authority(2) sample_descriptor_def chain_controller_def sample_limits_def u64_max_def sample_opened_def snapshots_at_def chain_created_def
        own_commit_def creation_commit_def split: if_splits)
qed

text \<open>A dataset whose process stopped right after it had journaled a transaction.\<close>

lemma chain_prepared: "\<exists>p. prepare chain_ext chain_authority sample_prefix sample_tables Snappy = Inr p"
proof -
  have "cal_unix_date gregorian 1700000000 = Some (2023, 11, 14)" by code_simp
  then have "prefix_validate chain_ext sample_prefix = Inr ()"
    by (simp add: prefix_validate_ok sample_prefix_def sample_event_def event_validate_def routing_validate_def checked_timestamp_def
        chain_ext_def sample_ext_def)
  moreover have "\<forall>t \<in> set sample_tables. table_plan_fits chain_ext (au_descriptor chain_authority) t"
    using sample_fits by (simp add: chain_authority table_plan_fits_def chain_ext_def sample_authority_fields)
  moreover have "distinct (map tp_table sample_tables)" by code_simp
  moreover have "cp_ordinal (au_checkpoint chain_authority) = 0" by (rule initial_ordinal [OF chain_authority(1)])
  ultimately show ?thesis
    by (intro prepare_total [OF chain_sha256_hex initial_valid [OF chain_authority(1)]])
      (simp_all add: chain_authority sample_prefix_def u64_max_def validate_compression_def sample_tables_def sample_descriptor_def)
qed

definition chain_stopped :: "pending_transaction \<Rightarrow> world" where
  "chain_stopped p = chain_created\<lparr> w_pending := Some (\<lparr> cv_incarnation = ''p'', cv_revision = 0, cv_digest = ''x'' \<rparr>, p) \<rparr>"

lemma chain_aborting:
  assumes p: "prepare chain_ext chain_authority sample_prefix sample_tables Snappy = Inr p"
  shows "aborting chain_env app (\<lambda>_. []) (ct_authority chain_controller) (\<lparr> cv_incarnation = ''p'', cv_revision = 0, cv_digest = ''x'' \<rparr>, p) (chain_stopped p)"
    and "all_loaded (app_id sample_identity) (\<lambda>_. []) (unfinished app (ct_authority chain_controller) (w_pending (chain_stopped p)))
      sample_opened (chain_stopped p)"
proof -
  have "acyclic_pending p" by (rule acyclic_from_digests [OF chain_sha256_hex chain_acyclic prepare_ok(1) [OF p]])
  moreover have "snd (ct_authority chain_controller) = chain_authority" by (simp add: chain_controller_def)
  moreover have "rollback_safe chain_env p (w_files (chain_stopped p))"
    by (simp add: rollback_safe_def chain_stopped_def chain_created_def chain_world_def empty_world_def)
  ultimately show ab: "aborting chain_env app (\<lambda>_. []) (ct_authority chain_controller) (\<lparr> cv_incarnation = ''p'', cv_revision = 0, cv_digest = ''x'' \<rparr>, p) (chain_stopped p)"
    using chain_settled(1) [of app] prepare_ok(1,2) [OF p] by (simp add: aborting_def settled_def based_def logs_exact_def chain_stopped_def)
  have "behind (snd (ct_authority chain_controller)) (w_pending (chain_stopped p)) = None"
    using behind_states(1) [OF ab] by (simp add: chain_stopped_def)
  then have "unfinished app (ct_authority chain_controller) (w_pending (chain_stopped p)) = (\<lambda>_. [])" by (simp add: unfinished_def)
  then show "all_loaded (app_id sample_identity) (\<lambda>_. []) (unfinished app (ct_authority chain_controller) (w_pending (chain_stopped p)))
      sample_opened (chain_stopped p)"
    by (simp add: all_loaded_def sample_opened_def loaded_def chain_stopped_def chain_created_def own_commit_def creation_commit_def)
qed

text \<open>The same dataset with a local mirror.\<close>

definition mirrored_deployment :: deployment where
  "mirrored_deployment = sample_deployment\<lparr> dp_mirror := mirror_reconcile chain_env sample_mirror_at \<rparr>"

definition chain_mirrored :: authority_state where
  "chain_mirrored = projr (authority_initial chain_ext mirrored_descriptor)"

definition mirrored_world :: world where
  "mirrored_world = empty_world\<lparr> w_state := Some (\<lparr> cv_incarnation = ''a'', cv_revision = 0, cv_digest = ''y'' \<rparr>, chain_mirrored) \<rparr>"

definition mirrored_session_ops :: "session_op list" where
  "mirrored_session_ops = Open mirrored_descriptor [(''blocks'', [''number'']), (''logs'', [''number''])] sample_limits # tl sample_session_ops"

lemma chain_mirrored:
  "authority_initial chain_ext mirrored_descriptor = Inr chain_mirrored" "au_descriptor chain_mirrored = mirrored_descriptor"
proof -
  have "descriptor_validate mirrored_descriptor = Inr ()" by code_simp
  then show a: "authority_initial chain_ext mirrored_descriptor = Inr chain_mirrored"
    using initial_total [of mirrored_descriptor chain_ext] by (auto simp: chain_mirrored_def)
  then show "au_descriptor chain_mirrored = mirrored_descriptor" by (rule initial_descriptor)
qed

lemma mirrored_identity: "\<exists>i. identity_of chain_ext mirrored_descriptor = Inr i"
proof -
  have "descriptor_validate mirrored_descriptor = Inr ()" by code_simp
  then show ?thesis by (simp add: identity_of_def mirrored_descriptor_def sample_descriptor_def descriptor_id_def)
qed

lemma mirrored_deployment_laws: "deployment_laws mirrored_deployment app"
  using sample_deployment_laws [of app] protected_mirror_law [OF chain_mirror_format, of sample_mirror_at]
  by (simp add: deployment_laws_def mirrored_deployment_def sample_mirror_at_def sample_deployment_def)

lemma mirrored_initialized: "initialized (dp_env mirrored_deployment) app chain_mirrored mirrored_world"
  using chain_mirrored by (simp add: initialized_def mirrored_world_def mirrored_deployment_def sample_deployment_def empty_world_def)

lemma mirrored_session_ops_wf: "list_all op_wf mirrored_session_ops"
  by (simp add: mirrored_session_ops_def sample_session_ops_def sample_limits_def u64_max_def)

end
