(* ===== verification/Session_Frontier.thy ===== *)
theory Session_Frontier
  imports Session_Sample
begin

text \<open>
  How the frontier of a session and the authority of its controller move together: the authority is at
  the acknowledged end of the history that the frontier describes, so that the next snapshot starts where
  the authority ends.
\<close>

section \<open>The frontier of a resumed session\<close>

text \<open>The frontier of a history since a checkpoint, or the one just resumed from it.\<close>

definition follows :: "ext \<Rightarrow> checkpoint \<Rightarrow> history \<Rightarrow> nat \<Rightarrow> accepted_frontier \<Rightarrow> bool" where
  "follows x c h k f \<longleftrightarrow> h = [] \<and> k = 0 \<and> f = resume c \<or> tracks x c h k f"

lemma follows_frontier: "follows x c h k f \<Longrightarrow> f = frontier_of x c h k (Frontier.settled h) \<and> k \<le> Frontier.settled h"
  by (auto simp: follows_def tracks_def resume_def frontier_of_def Frontier.settled_def)

lemma follows_step:
  assumes "follows x c h k f" "frontier_step x f op = Inr f'" "history_step (cp_ordinal c) (h, k) op = (h', k')"
  shows "follows x c h' k' f'"
proof -
  have "tracks x c h k f" using assms(1) unfolding follows_def
  proof
    assume True: "h = [] \<and> k = 0 \<and> f = resume c"
    have "cp_ordinal c \<le> u64_max"
      using assms(2) True
      by (cases op) (auto simp: receive_def accept_def accept_filtered_def acknowledge_def mark_accepted_def snapshot_def resume_def
          some_or_def checked_add_def bail_def bindR_eq_Inr split: if_splits)
    then show ?thesis using tracks_resume True by simp
  qed
  then show ?thesis using step_tracks [OF _ assms(2,3)] by (simp add: follows_def)
qed

text \<open>A checkpoint at the end of the first \<open>k\<close> events of a history.\<close>

definition ends_at :: "checkpoint \<Rightarrow> history \<Rightarrow> nat \<Rightarrow> checkpoint \<Rightarrow> bool" where
  "ends_at c h k a \<longleftrightarrow> cp_ordinal a = cp_ordinal c + k \<and> cp_event a = (if k = 0 then cp_event c else Some (fst (h ! (k - 1)))) \<and>
     cp_routing a = routing_after (cp_routing c) (take k h)"

definition in_step :: "ext \<Rightarrow> session \<Rightarrow> bool" where
  "in_step x s \<longleftrightarrow> (\<exists>c h k. follows x c h k (ss_frontier s) \<and> ends_at c h k (au_checkpoint (session_authority s)))"

lemma in_stepI:
  "follows x c h k (ss_frontier s) \<Longrightarrow> ends_at c h k (au_checkpoint (snd (ct_authority (ss_controller s)))) \<Longrightarrow> in_step x s"
  unfolding in_step_def session_authority_def by blast

lemma in_stepE:
  assumes "in_step x s"
  obtains c h k where "follows x c h k (ss_frontier s)" "ends_at c h k (au_checkpoint (snd (ct_authority (ss_controller s))))"
  using assms unfolding in_step_def session_authority_def by blast

lemma in_step_resumed: "ss_frontier s = resume (au_checkpoint (session_authority s)) \<Longrightarrow> in_step x s"
  unfolding in_step_def by (intro exI [of _ "au_checkpoint (session_authority s)"] exI [of _ "[]"] exI [of _ 0]) (simp add: follows_def ends_at_def)

text \<open>Receiving and deciding events does not touch the acknowledged part of the history.\<close>

lemma ends_at_receive: "ends_at c h k a \<Longrightarrow> k \<le> length h \<Longrightarrow> ends_at c (h @ [r]) k a"
  by (auto simp: ends_at_def nth_append)

lemma ends_at_update: "ends_at c h k a \<Longrightarrow> k \<le> i \<Longrightarrow> ends_at c (h[i := r]) k a"
  by (auto simp: ends_at_def nth_list_update)

lemma in_step_receive:
  assumes "in_step x s" "receive x (ss_frontier s) event = Inr (ordinal, f)"
  shows "in_step x (s\<lparr> ss_frontier := f, ss_failed := b \<rparr>)"
proof -
  obtain c h k where h: "follows x c h k (ss_frontier s)" "ends_at c h k (au_checkpoint (snd (ct_authority (ss_controller s))))"
    using assms(1) by (rule in_stepE)
  have "follows x c (h @ [(event, None)]) k f" by (rule follows_step [OF h(1), of "OReceive event"]) (simp_all add: assms(2))
  moreover have "k \<le> length h" using follows_frontier [OF h(1)] settled_le [of h] by linarith
  ultimately show ?thesis using ends_at_receive [OF h(2)] by (intro in_stepI) simp_all
qed

lemma in_step_decide:
  assumes "in_step x s" "mark_accepted (ss_frontier s) ordinal d msg = Inr f"
  shows "in_step x (s\<lparr> ss_frontier := drain x f, ss_failed := b \<rparr>)"
proof -
  obtain c h k where h: "follows x c h k (ss_frontier s)" "ends_at c h k (au_checkpoint (snd (ct_authority (ss_controller s))))"
    using assms(1) by (rule in_stepE)
  have t: "tracks x c h k (ss_frontier s)"
    using h(1) assms(2) by (auto simp: follows_def mark_accepted_def resume_def some_or_def bail_def)
  obtain i where i: "Frontier.settled h \<le> i" "tracks x c (h[i := (fst (h ! i), Some d)]) k (drain x f)" by (rule mark_tracks [OF t assms(2)])
  have "k \<le> i" using i(1) t by (simp add: tracks_def)
  moreover have "follows x c (h[i := (fst (h ! i), Some d)]) k (drain x f)" using i(2) by (simp add: follows_def)
  ultimately show ?thesis using ends_at_update [OF h(2)] by (intro in_stepI) simp_all
qed

lemma in_step_acknowledge:
  assumes "in_step x s" "acknowledge x (ss_frontier s) prefix = Inr f"
    and "install x (session_authority s) p = Inr (snd (ct_authority c'))" "pt_prefix p = prefix"
  shows "in_step x (s\<lparr> ss_controller := c', ss_frontier := f, ss_failed := b \<rparr>)"
proof -
  obtain c h k where h: "follows x c h k (ss_frontier s)" "ends_at c h k (au_checkpoint (snd (ct_authority (ss_controller s))))"
    using assms(1) by (rule in_stepE)
  have snap: "snapshot x (ss_frontier s) = Inr (Some prefix)" using assms(2) by (auto simp: acknowledge_def bindR_eq_Inr bail_def split: if_splits)
  then have t: "tracks x c h k (ss_frontier s)" using h(1) by (auto simp: follows_def snapshot_def resume_def)
  note s = snapshot_tracks [OF t snap]
  have v: "pending_validate x p (au_descriptor (session_authority s)) = Inr ()" and c': "au_checkpoint (snd (ct_authority c')) = pt_target p"
    using assms(3) by (simp_all add: install_ok validate_predecessor_ok)
  note tgt = pending_target [OF v]
  have "ends_at c h (Frontier.settled h) (au_checkpoint (snd (ct_authority c')))"
    using s(1,3-5) tgt(2,6,7) by (simp add: ends_at_def c' assms(4))
  moreover have "follows x c h (Frontier.settled h) f" using acknowledge_tracks [OF t assms(2)] by (simp add: follows_def)
  ultimately show ?thesis by (intro in_stepI) simp_all
qed

lemma in_step_completed:
  assumes "in_step x s" "au_checkpoint (snd (ct_authority c')) = au_checkpoint (session_authority s) \<or>
    complete_request x (au_checkpoint (session_authority s)) d stop = Inr (au_checkpoint (snd (ct_authority c')))"
  shows "in_step x (s\<lparr> ss_controller := c', ss_failed := b \<rparr>)"
proof -
  obtain c h k where h: "follows x c h k (ss_frontier s)" "ends_at c h k (au_checkpoint (snd (ct_authority (ss_controller s))))"
    using assms(1) by (rule in_stepE)
  have "ends_at c h k (au_checkpoint (snd (ct_authority c')))"
    using assms(2) h(2) complete_request_ok(3-5) [of x "au_checkpoint (session_authority s)" d stop]
    by (auto simp: ends_at_def session_authority_def)
  with h(1) show ?thesis by (intro in_stepI) simp_all
qed

section \<open>Every operation keeps them in step\<close>

definition synchronous :: "ext \<Rightarrow> session option \<Rightarrow> bool" where
  "synchronous x s \<longleftrightarrow> (\<forall>s'. s = Some s' \<longrightarrow> \<not> ss_failed s' \<longrightarrow> in_step x s')"

lemma synchronousD: "synchronous x (Some s) \<Longrightarrow> \<not> ss_failed s \<Longrightarrow> in_step x s"
  by (simp add: synchronous_def)

lemma guarded_step:
  assumes "synchronous x (Some s)" "\<And>a f b. in_step x s \<Longrightarrow> body = Inr (a, f) \<Longrightarrow> in_step x (s\<lparr> ss_frontier := f, ss_failed := b \<rparr>)"
  shows "synchronous x (Some (snd (guarded s body)))"
  using assms by (auto simp: synchronous_def guarded_def session_ready_def require_def bail_def split: sum.splits if_splits)

lemma open_synchronous:
  assumes "session_open e m adm expected columns concurrency w = (Inr s, w')"
  shows "synchronous x (Some s)"
proof -
  have "ss_frontier s = resume (au_checkpoint (session_authority s))"
    using assms unfolding session_open_def session_authority_def
    by (auto simp: bindIO_def returnIO_def split: prod.splits sum.splits)
  then show ?thesis using in_step_resumed by (simp add: synchronous_def)
qed

lemma flush_synchronous:
  assumes laws: "sha256_hex (e_ext e)" "digest_acyclic (e_ext e)" "delta_laws e app" "mirror_law e reconcile"
    and w: "working e app a0 ps (Some s) w" and s: "synchronous (e_ext e) (Some s)"
    and run: "session_flush e reconcile data_batches multi_thread s batches metadata compression file_metadata w = (Inr (r, s'), w')"
  shows "synchronous (e_ext e) (Some s')"
proof (cases "ss_failed s' \<or> s' = s")
  case False
  let ?H = "ledger_of app ps" and ?c = "ss_controller s"
  have ready: "\<not> ss_failed s" "session_ready s = Inr ()"
    using run False by (auto simp: session_flush_def session_ready_def require_def bail_def returnIO_def split: if_splits)
  obtain prefix cast where input: "flush_input (e_ext e) data_batches s batches metadata = Inr (Some (prefix, cast))"
    using run False ready by (auto simp: session_flush_def returnIO_def Let_def split: sum.splits option.splits)
  obtain dt where "settled e app ?H (ct_authority ?c) w" "ready_for e app ?H ?c dt w" using w ready by (auto simp: working_def live_def)
  note commit = commit_triple [OF laws(1,3,4) this(1) refl this(2) acyclic_from_digests [OF laws(1,2) prepare_ok(1)]]
  obtain res c v where res: "controller_commit e reconcile multi_thread ?c prefix cast metadata compression file_metadata w = (Inr (res, c), v)"
    "commit_end e app ?H (ct_authority ?c) prefix (res, c) v"
    by (rule triple_success [OF commit refl]) auto
  obtain flush f where f: "res = Inr flush" "acknowledge (e_ext e) (ss_frontier s) prefix = Inr f"
    "s' = s\<lparr> ss_failed := True, ss_controller := c, ss_frontier := f, ss_failed := False \<rparr>"
    using run False ready input res(1) by (auto simp: session_flush_def bindIO_def returnIO_def Let_def split: sum.splits)
  obtain h where h: "applied e app ?H (ct_authority ?c) prefix h (ct_authority c)"
    using res(2) unfolding commit_end_def f(1) fst_conv snd_conv sum.case by blast
  have "in_step (e_ext e) (s\<lparr> ss_controller := c, ss_frontier := f, ss_failed := False \<rparr>)"
    by (rule in_step_acknowledge [OF synchronousD [OF s ready(1)] f(2), of "snd h"]) (use h in \<open>simp_all add: applied_def session_authority_def\<close>)
  then show ?thesis using f(3) by (simp add: synchronous_def)
qed (use s in \<open>auto simp: synchronous_def\<close>)

lemma complete_synchronous:
  assumes m: "mirror_law e reconcile" and w: "working e app a0 ps (Some s) w" and s: "synchronous (e_ext e) (Some s)"
    and run: "session_complete_request e reconcile s stop clean w = (Inr (r, s'), w')"
  shows "synchronous (e_ext e) (Some s')"
proof (cases "ss_failed s' \<or> s' = s")
  case False
  let ?H = "ledger_of app ps" and ?c = "ss_controller s"
  have ready: "\<not> ss_failed s" "session_ready s = Inr ()"
    using run False by (auto simp: session_complete_request_def session_ready_def require_def bail_def returnIO_def split: if_splits)
  obtain dt where "settled e app ?H (ct_authority ?c) w" "ready_for e app ?H ?c dt w" using w ready by (auto simp: working_def live_def)
  note complete = complete_triple [OF m this]
  obtain res c v where res: "controller_complete_request e reconcile ?c stop (ss_frontier s) clean w = (Inr (res, c), v)"
    "complete_end e app ?H ?c stop (ss_frontier s) (res, c) v"
    by (rule triple_success [OF complete refl]) auto
  obtain changed where f: "res = Inr changed" "s' = s\<lparr> ss_controller := c, ss_failed := True, ss_failed := False \<rparr>"
    using run False ready res(1) by (auto simp: session_complete_request_def bindIO_def returnIO_def Let_def split: sum.splits)
  have "snd (ct_authority c) = snd (ct_authority ?c) \<or> completed e (ct_authority ?c) stop (ct_authority c)"
    using res(2) unfolding complete_end_def f(1) fst_conv snd_conv sum.case by (auto split: if_splits)
  then have "in_step (e_ext e) (s\<lparr> ss_controller := c, ss_failed := False \<rparr>)"
    by (intro in_step_completed [OF synchronousD [OF s ready(1)]]) (auto simp: completed_def session_authority_def)
  then show ?thesis using f(2) by (simp add: synchronous_def)
qed (use s in \<open>auto simp: synchronous_def\<close>)

lemma receive_synchronous: "synchronous x (Some s) \<Longrightarrow> synchronous x (Some (snd (session_receive x s cursor identity step family)))"
  unfolding session_receive_def by (rule guarded_step) (auto simp: bindR_eq_Inr intro: in_step_receive)

lemma filtered_synchronous: "synchronous x (Some s) \<Longrightarrow> synchronous x (Some (snd (session_accept_filtered x s ordinal)))"
  unfolding session_accept_filtered_def by (rule guarded_step) (auto simp: bindR_eq_Inr Let_def accept_filtered_def intro: in_step_decide)

lemma mapped_synchronous:
  "synchronous x (Some s) \<Longrightarrow> synchronous x (Some (snd (session_accept_mapped x s ordinal effective_timestamp lookahead)))"
  unfolding session_accept_mapped_def
  by (rule guarded_step) (auto simp: bindR_eq_Inr Let_def accept_def bail_def intro: in_step_decide split: if_splits)

lemma session_step_synchronous:
  assumes dp: "deployment_laws dp app" and w: "working (dp_env dp) app a0 ps s w" and s: "synchronous (e_ext (dp_env dp)) s"
    and run: "session_step dp op s w = ((s', acks), w')"
  shows "synchronous (e_ext (dp_env dp)) s'"
proof -
  have laws: "sha256_hex (e_ext (dp_env dp))" "digest_acyclic (e_ext (dp_env dp))" "delta_laws (dp_env dp) app" "mirror_law (dp_env dp) (dp_mirror dp)"
    using dp by (simp_all add: deployment_laws_def)
  have none: "synchronous (e_ext (dp_env dp)) None" by (simp add: synchronous_def)
  show ?thesis
  proof (cases s)
    case None
    then show ?thesis using run none open_synchronous by (cases op) (auto split: prod.splits sum.splits)
  next
    case (Some s0)
    note w0 = w [unfolded Some] and s0 = s [unfolded Some]
    show ?thesis
    proof (cases op)
      case Open
      then show ?thesis using run none open_synchronous by (auto split: prod.splits sum.splits)
    next
      case Flush
      then show ?thesis using run Some none flush_synchronous [OF laws w0 s0] by (auto split: prod.splits sum.splits option.splits)
    next
      case CompleteRequest
      then show ?thesis using run Some none complete_synchronous [OF laws(4) w0 s0] by (auto split: prod.splits sum.splits)
    qed (use run Some s0 receive_synchronous filtered_synchronous mapped_synchronous in auto)
  qed
qed

lemma session_run_synchronous:
  assumes "deployment_laws dp app" "identity_of (e_ext (dp_env dp)) (au_descriptor a0) = Inr i" "app_id i = app" "list_all op_wf ops"
    "working (dp_env dp) app a0 ps s w" "synchronous (e_ext (dp_env dp)) s" "session_run dp ops s w = ((s', acks), w')"
  shows "synchronous (e_ext (dp_env dp)) s'"
  using assms(4-)
proof (induction ops arbitrary: ps s w acks)
  case (Cons op ops)
  obtain s1 acks1 w1 where step: "session_step dp op s w = ((s1, acks1), w1)" by (metis surj_pair)
  obtain acks2 where run: "session_run dp ops s1 w1 = ((s', acks2), w')" using Cons.prems(4) step by (auto split: prod.splits)
  obtain qs where "working (dp_env dp) app a0 (ps @ qs) s1 w1"
    using session_step_progressed [OF assms(1-3) Cons.prems(2) _ step] Cons.prems(1) by (auto simp: progressed_def)
  then show ?case using Cons.IH [OF _ _ _ run] session_step_synchronous [OF assms(1) Cons.prems(2,3) step] Cons.prems(1) by simp
qed simp

section \<open>From an empty root on\<close>

fun opens_stream :: "stream_descriptor \<Rightarrow> session_op \<Rightarrow> bool" where
  "opens_stream d (Open expected columns concurrency) \<longleftrightarrow> expected = d"
| "opens_stream d _ \<longleftrightarrow> True"

text \<open>A dataset at its start: initialized by an earlier process, or a root that no process has used yet.\<close>

definition begins :: "env \<Rightarrow> string \<Rightarrow> authority_state \<Rightarrow> session_op list \<Rightarrow> world \<Rightarrow> bool" where
  "begins e app a0 ops w \<longleftrightarrow> initialized e app a0 w \<or>
     vacant w \<and> authority_initial (e_ext e) (au_descriptor a0) = Inr a0 \<and> list_all (opens_stream (au_descriptor a0)) ops"

definition lived :: "deployment \<Rightarrow> string \<Rightarrow> authority_state \<Rightarrow> session option \<Rightarrow> nat list \<Rightarrow> world \<Rightarrow> bool" where
  "lived dp app a0 s acks w \<longleftrightarrow> (\<exists>ps. working (dp_env dp) app a0 ps s w \<and> set acks \<subseteq> (\<lambda>p. ap_last_ordinal (pt_prefix p)) ` set ps) \<and>
     synchronous (e_ext (dp_env dp)) s"

lemma working_lived:
  assumes "deployment_laws dp app" "identity_of (e_ext (dp_env dp)) (au_descriptor a0) = Inr i" "app_id i = app" "list_all op_wf ops"
    "working (dp_env dp) app a0 ps s w" "synchronous (e_ext (dp_env dp)) s" "session_run dp ops s w = ((s', acks), w')"
  shows "lived dp app a0 s' acks w'"
proof -
  obtain qs where "working (dp_env dp) app a0 (ps @ qs) s' w'" "set acks \<subseteq> (\<lambda>p. ap_last_ordinal (pt_prefix p)) ` set qs"
    using session_run_progressed [OF assms(1-5,7)] by (auto simp: progressed_def)
  then show ?thesis using session_run_synchronous [OF assms] unfolding lived_def by (intro conjI exI [of _ "ps @ qs"]) auto
qed

lemma vacant_upto: "vacant w \<Longrightarrow> upto w v \<Longrightarrow> vacant v"
  by (simp add: vacant_def upto_iff)

lemma vacant_step:
  assumes dp: "deployment_laws dp app" and id: "identity_of (e_ext (dp_env dp)) (au_descriptor a0) = Inr i" "app_id i = app"
    and a0: "authority_initial (e_ext (dp_env dp)) (au_descriptor a0) = Inr a0" and w: "vacant w"
    and op: "op_wf op" "opens_stream (au_descriptor a0) op" and run: "session_step dp op None w = ((s, acks), w')"
  shows "acks = [] \<and> (s = None \<and> upto w w' \<or> (\<exists>ps. working (dp_env dp) app a0 ps s w') \<and> synchronous (e_ext (dp_env dp)) s)"
proof (cases op)
  case (Open expected columns concurrency)
  have fc: "fc_inflight_bytes concurrency \<le> u64_max" and d: "expected = au_descriptor a0" using op Open by auto
  have laws: "sha256_hex (e_ext (dp_env dp))" "delta_laws (dp_env dp) app" "mirror_law (dp_env dp) (dp_mirror dp)" "admission_law (dp_admission dp)"
    using dp by (simp_all add: deployment_laws_def)
  note tr = tripleD [OF session_open_vacant [OF laws id fc a0 w] upto_refl, folded d]
  obtain r v where o: "session_open (dp_env dp) (dp_mirror dp) (dp_admission dp) expected columns concurrency w = (r, v)" by fastforce
  show ?thesis
  proof (cases r)
    case (Inl err)
    have "upto w v \<or> interrupted (dp_env dp) app a0 [] v" by (rule tr(2) [OF o [unfolded Inl]])
    then show ?thesis using run o Open Inl by (auto simp: interrupted_def working_def synchronous_def)
  next
    case (Inr s')
    have "started (dp_env dp) app a0 [] s' v" using tr(1) [OF o [unfolded Inr]] by simp
    then have "\<exists>ps. working (dp_env dp) app a0 ps (Some s') v" by (auto simp: started_def working_def)
    then show ?thesis using run o Open Inr open_synchronous by auto
  qed
qed (use run upto_refl in auto)

lemma vacant_run:
  assumes laws: "deployment_laws dp app" "identity_of (e_ext (dp_env dp)) (au_descriptor a0) = Inr i" "app_id i = app"
    and a0: "authority_initial (e_ext (dp_env dp)) (au_descriptor a0) = Inr a0"
    and ops: "list_all op_wf ops" "list_all (opens_stream (au_descriptor a0)) ops" "vacant w" "session_run dp ops None w = ((s, acks), w')"
  shows "s = None \<and> acks = [] \<and> upto w w' \<or> lived dp app a0 s acks w'"
  using ops
proof (induction ops arbitrary: w acks)
  case Nil
  then show ?case by simp
next
  case (Cons op ops)
  obtain s1 acks1 w1 where step: "session_step dp op None w = ((s1, acks1), w1)" by (metis surj_pair)
  obtain acks2 where run: "session_run dp ops s1 w1 = ((s, acks2), w')" and acks: "acks = acks1 @ acks2"
    using Cons.prems(4) step by (auto split: prod.splits)
  have op: "op_wf op" "opens_stream (au_descriptor a0) op" using Cons.prems by simp_all
  have "acks1 = []" and "s1 = None \<and> upto w w1 \<or> (\<exists>ps. working (dp_env dp) app a0 ps s1 w1) \<and> synchronous (e_ext (dp_env dp)) s1"
    using vacant_step [OF laws a0 Cons.prems(3) op step] by auto
  then consider "s1 = None" "upto w w1" | ps where "working (dp_env dp) app a0 ps s1 w1" "synchronous (e_ext (dp_env dp)) s1" by blast
  then show ?case
  proof cases
    case 1
    have "s = None \<and> acks2 = [] \<and> upto w1 w' \<or> lived dp app a0 s acks2 w'"
      using Cons.IH [OF _ _ vacant_upto [OF Cons.prems(3) 1(2)]] Cons.prems run 1(1) by simp
    then show ?thesis using acks \<open>acks1 = []\<close> upto_trans [OF 1(2)] by auto
  next
    case 2
    have "list_all op_wf ops" using Cons.prems(1) by simp
    from working_lived [OF laws this 2 run] show ?thesis using acks \<open>acks1 = []\<close> by simp
  qed
qed

lemma life_of_dataset:
  assumes "deployment_laws dp app" "identity_of (e_ext (dp_env dp)) (au_descriptor a0) = Inr i" "app_id i = app" "list_all op_wf ops"
    "begins (dp_env dp) app a0 ops w" "session_run dp ops None w = ((s, acks), w')"
  obtains "w_state w' = None" "s = None" "acks = []" "upto w w'" | "lived dp app a0 s acks w'"
proof (cases "vacant w")
  case True
  then have "authority_initial (e_ext (dp_env dp)) (au_descriptor a0) = Inr a0" "list_all (opens_stream (au_descriptor a0)) ops"
    using assms(5) by (auto simp: begins_def vacant_def initialized_def)
  from vacant_run [OF assms(1-3) this(1) assms(4) this(2) True assms(6)] show ?thesis
    using that vacant_upto [OF True, of w'] by (auto simp: vacant_def)
next
  case False
  then have "initialized (dp_env dp) app a0 w" using assms(5) by (simp add: begins_def)
  then show ?thesis
    using that(2) working_lived [OF assms(1-4) initialized_working _ assms(6)] by (simp add: synchronous_def)
qed

lemma begins_initialized: "initialized e app a0 w \<Longrightarrow> begins e app a0 ops w"
  by (simp add: begins_def)

lemma begins_initial: "begins e app a0 ops w \<Longrightarrow> authority_initial (e_ext e) (au_descriptor a0) = Inr a0"
  by (auto simp: begins_def initialized_def)

section \<open>A failed session\<close>

lemma failed_step:
  assumes "ss_failed s" "\<nexists>d c l. op = Open d c l"
  shows "session_step dp op (Some s) w = ((Some s, []), w)"
  using assms by (cases op) (auto simp: session_receive_def session_accept_filtered_def session_accept_mapped_def session_flush_def
      session_complete_request_def guarded_def session_ready_def require_def bail_def returnIO_def)

end
