(* ===== verification/Session_Live.thy ===== *)
theory Session_Live
  imports Session_Frontier
begin

text \<open>
  Opening a settled dataset succeeds when nothing fails and no other process writes: the checks of the
  start (the descriptor, the identity and schema of every Delta table, its position against the
  authority) accept what earlier sessions left.
\<close>

definition undisturbed :: "env \<Rightarrow> bool" where
  "undisturbed e \<longleftrightarrow> healthy e \<and> (\<forall>n t li. e_arrive e n t li = li)"

text \<open>A computation that returns a known value and changes nothing.\<close>

definition gives :: "world \<Rightarrow> 'a io \<Rightarrow> 'a \<Rightarrow> bool" where
  "gives w m a \<longleftrightarrow> triple (upto w) m (\<lambda>r v. r = a \<and> upto w v) (\<lambda>_. False)"

lemma gives_return: "gives w (returnIO a) a"
  by (auto simp: gives_def)

lemma gives_bind:
  assumes "gives w m a" "gives w (f a) b"
  shows "gives w (bindIO m f) b"
  unfolding gives_def
  by (rule triple_bind_eq [where R = "upto w" and v = a]) (use assms in \<open>simp_all add: gives_def\<close>)

lemma gives_lift: "r = Inr a \<Longrightarrow> gives w (liftR r) a"
  by (auto simp: gives_def triple_def liftR_def)

lemma gives_map:
  assumes "\<And>x. x \<in> set xs \<Longrightarrow> gives w (f x) (g x)"
  shows "gives w (mapIO f xs) (map g xs)"
  using assms by (induction xs) (auto intro!: gives_return gives_bind)

lemma gives_observe: "healthy e \<Longrightarrow> (\<And>v. upto w v \<Longrightarrow> f v = a) \<Longrightarrow> gives w (observe e msg f) a"
  unfolding gives_def by (rule observe_total) auto

text \<open>The construction of a disabled or a local mirror.\<close>

lemma gives_constructed:
  assumes "healthy e"
    "binding = MDisabled \<or> (\<exists>path. binding = MLocal path \<and> path_allowed \<lparr> pm_ownership = ow, pm_binding = binding, pm_shutdown = (\<lambda>_. False) \<rparr> path)"
  shows "gives w (bindIO (liftR (mirror_service x rs aws binding)) (\<lambda>service. bindIO (mirror_new e ow binding service) (\<lambda>_. returnIO ()))) ()"
proof -
  have path: "gives w (local_path e pm path) ()" if "path_allowed pm path" for pm path
    using local_path_total [OF assms(1) that, of w "\<lambda>_. False"] by (simp add: gives_def)
  let ?pm = "\<lparr> pm_ownership = ow, pm_binding = binding, pm_shutdown = (\<lambda>_. False) \<rparr>"
  have "gives w (mirror_new e ow binding None) ?pm" using assms(2)
  proof (elim disjE exE conjE)
    assume "binding = MDisabled"
    then show ?thesis unfolding mirror_new_def Let_def by (auto intro!: gives_bind [where a = "()"] gives_lift gives_return)
  next
    fix p
    assume p: "binding = MLocal p" "path_allowed ?pm p"
    show ?thesis unfolding mirror_new_def Let_def p(1) mirror_binding.case
      by (rule gives_bind [where a = "()"], rule gives_bind [where a = "()"]) (use path p in \<open>auto intro: gives_lift gives_return\<close>)
  qed
  then show ?thesis using assms(2) by (intro gives_bind [where a = None] gives_bind [of w "mirror_new e ow binding None"]) (auto intro: gives_lift gives_return)
qed

lemma gives_load_log:
  assumes "undisturbed e"
  shows "gives w (load_log e t) (w_logs w t)"
  using assms unfolding gives_def triple_def
  by (auto simp: load_log_def Let_def undisturbed_def healthy_def set_table_def upto_iff)

lemma gives_store_load:
  assumes "undisturbed e" "validate_journal (e_ext e) (w_state w, w_pending w) = Inr ()"
  shows "gives w (store_load e) (w_state w, w_pending w)"
  unfolding gives_def
  by (rule triple_conseq [OF store_load_total [of e, OF _ assms(2), of w]]) (use assms(1) in \<open>simp_all add: undisturbed_def journal_upto\<close>)

lemma gives_open:
  assumes "undisturbed e" "w_logs w t \<noteq> []" "delta_validate (w_logs w t) columns (configuration i) = Inr ()"
  shows "gives w (open_or_create e i t columns create) (length (w_logs w t))"
  unfolding open_or_create_def
  by (rule gives_bind [OF gives_load_log [OF assms(1)]], rule gives_bind [where a = "w_logs w t"])
    (use assms(2,3) in \<open>auto intro!: gives_return gives_bind gives_lift\<close>)

definition opened_tables :: "delta_identity \<Rightarrow> (string \<times> string list) list \<Rightarrow> world \<Rightarrow> delta_tables" where
  "opened_tables i columns w = \<lparr> dt_identity = i, dt_tables = map (\<lambda>(t, _). (t, length (w_logs w t))) columns \<rparr>"

lemma gives_open_specs:
  assumes "undisturbed e" "columns \<noteq> []"
    and tables: "\<And>t cs. (t, cs) \<in> set columns \<Longrightarrow> w_logs w t \<noteq> [] \<and> delta_validate (w_logs w t) (Some cs) (configuration i) = Inr ()"
  shows "gives w (open_specs e i (map (\<lambda>(t, cs). (t, Some cs)) columns) create) (opened_tables i columns w)"
proof -
  let ?f = "\<lambda>(t, cs). bindIO (mapErr (Context ''opening the Delta table'') (open_or_create e i t cs create)) (\<lambda>n. returnIO (t, n))"
  have one: "gives w (?f (t, Some cs)) (t, length (w_logs w t))" if "(t, cs) \<in> set columns" for t cs
  proof -
    have "gives w (mapErr (Context ''opening the Delta table'') (open_or_create e i t (Some cs) create)) (length (w_logs w t))"
      using gives_open [OF assms(1)] tables [OF that] by (simp add: gives_def triple_map_err)
    then show ?thesis by (auto intro: gives_bind gives_return)
  qed
  have "gives w (mapIO ?f (map (\<lambda>(t, cs). (t, Some cs)) columns)) (map (\<lambda>(t, _). (t, length (w_logs w t))) (map (\<lambda>(t, cs). (t, Some cs)) columns))"
    by (rule gives_map) (use one in auto)
  then have "gives w (mapIO ?f (map (\<lambda>(t, cs). (t, Some cs)) columns)) (dt_tables (opened_tables i columns w))"
    by (simp add: opened_tables_def comp_def case_prod_unfold)
  then show ?thesis unfolding open_specs_def
    by (intro gives_bind [OF gives_lift] gives_bind [of w "mapIO ?f (map (\<lambda>(t, cs). (t, Some cs)) columns)"])
      (use assms(2) gives_return [of w "opened_tables i columns w"] in \<open>simp_all add: require_def opened_tables_def\<close>)
qed

text \<open>A settled dataset passes the check of the log positions.\<close>

lemma gives_check_progress:
  assumes "healthy e" "settled e (app_id i) H a w" "distinct (map fst columns)"
    and nonneg: "\<And>t n. last_version (H t) = Some n \<Longrightarrow> 0 \<le> n"
  shows "gives w (check_progress e (opened_tables i columns w) (cp_ordinal (au_checkpoint (snd a))) None) []"
proof -
  let ?dt = "opened_tables i columns w" and ?v = "\<lambda>t. last_version (H t)" and ?n = "cp_ordinal (au_checkpoint (snd a))"
  have logs: "own (app_id i) (w_logs w t) = H t" for t using assms(2) by (simp add: settled_def logs_exact_def)
  have version: "gives w (txn_version e ?dt t) (?v t)" if t: "t \<in> set (map fst (dt_tables ?dt))" for t
  proof -
    have m: "map_of (dt_tables ?dt) t = Some (length (w_logs w t))"
      using t assms(3) by (intro map_of_is_SomeI) (auto simp: opened_tables_def comp_def case_prod_unfold)
    show ?thesis unfolding txn_version_def
      by (rule gives_bind [OF gives_lift], simp add: m some_or_def, rule gives_observe [OF assms(1)])
        (use logs in \<open>simp add: upto_iff txn_of_log_own opened_tables_def\<close>)
  qed
  have check: "gives w (check_table e ?n None None (t, ?v t)) False" for t
    using assms(2) nonneg [of t]
    by (auto simp: check_table_def settled_def based_def ledger_behind_def intro!: gives_return split: option.split)
  let ?ts = "map fst (dt_tables ?dt)"
  have versions: "gives w (mapIO (\<lambda>t. bindIO (txn_version e ?dt t) (\<lambda>v. returnIO (t, v))) ?ts) (map (\<lambda>t. (t, ?v t)) ?ts)"
    by (rule gives_map) (use version in \<open>blast intro: gives_bind gives_return\<close>)
  have checks: "gives w (mapIO (check_table e ?n None None) (map (\<lambda>t. (t, ?v t)) ?ts)) (map (\<lambda>_. False) (map (\<lambda>t. (t, ?v t)) ?ts))"
    by (rule gives_map) (use check in auto)
  show ?thesis unfolding check_progress_def option.case
    by (intro gives_bind [OF gives_lift [OF refl]] gives_bind [OF versions] gives_bind [OF checks]) (simp add: gives_return)
qed

abbreviation opened_session :: "authority_state versioned \<Rightarrow> flush_concurrency \<Rightarrow> delta_tables \<Rightarrow> session" where
  "opened_session a concurrency tables \<equiv>
     \<lparr> ss_controller = \<lparr> ct_authority = a, ct_failed = False, ct_concurrency = concurrency, ct_delta = Some tables \<rparr>,
       ss_frontier = resume (au_checkpoint (snd a)), ss_failed = False \<rparr>"

lemma reserved_opens:
  assumes e: "undisturbed e" and w: "settled e (app_id i) H a w" and d: "expected = au_descriptor (snd a)"
    and tables: "distinct (map fst columns)" and nonneg: "\<And>t n. last_version (H t) = Some n \<Longrightarrow> 0 \<le> n"
    and fc: "concurrency_validate concurrency = Inr ()" and m: "\<And>v. upto w v \<Longrightarrow> \<exists>v'. reconcile (snd a) v = (Inr (), v')"
  shows "triple (upto w) (bindIO (open_reserved e reconcile expected (Some (opened_tables i columns w)) concurrency) (\<lambda>c.
      returnIO \<lparr> ss_controller = c, ss_frontier = resume (au_checkpoint (snd (ct_authority c))), ss_failed = False \<rparr>))
    (\<lambda>s _. s = opened_session a concurrency (opened_tables i columns w)) (\<lambda>_. False)"
proof -
  have st: "w_state w = Some a" "w_pending w = None" "authority_validate (e_ext e) (snd a) = Inr ()" using w by (simp_all add: settled_def based_def)
  then have load: "gives w (store_load e) (Some a, None)"
    using gives_store_load [OF e, of w] by (cases a) (simp add: validate_journal_def)
  have dv: "descriptor_validate expected = Inr ()" using st(3) d by (simp add: authority_validate_def bindR_eq_Inr)
  let ?c = "\<lparr> ct_authority = a, ct_failed = False, ct_concurrency = concurrency, ct_delta = Some (opened_tables i columns w) \<rparr>"
  have prog: "gives w (check_progress e (opened_tables i columns w) (cp_ordinal (au_checkpoint (snd a))) None) []"
    by (rule gives_check_progress [OF _ w tables nonneg]) (use e in \<open>simp_all add: undisturbed_def\<close>)
  have "triple (upto w) (reconcile (snd a)) (\<lambda>_ _. True) (\<lambda>_. False)" using m by (fastforce simp: triple_def)
  then have rec: "triple (upto w) (bindIO (bindIO (reconcile (snd a)) (\<lambda>_. returnIO (a, Some (opened_tables i columns w))))
      (\<lambda>(authority', delta'). returnIO \<lparr> ct_authority = authority', ct_failed = False, ct_concurrency = concurrency, ct_delta = delta' \<rparr>))
      (\<lambda>c _. c = ?c) (\<lambda>_. False)"
    by (intro triple_bind [where R = "\<lambda>r _. r = (a, Some (opened_tables i columns w))"] triple_bind [where R = "\<lambda>_ _. True"])
      (auto simp: triple_def returnIO_def)
  have opened: "triple (upto w) (open_reserved e reconcile expected (Some (opened_tables i columns w)) concurrency) (\<lambda>c _. c = ?c) (\<lambda>_. False)"
    unfolding open_reserved_def
    by (rule triple_lift_ok [OF fc], rule triple_lift_ok [OF dv], rule triple_bind_eq [OF load [unfolded gives_def]], unfold prod.case,
        rule triple_lift_ok [where v = a], simp add: some_or_def, rule triple_lift_ok [where v = "()"], simp add: d require_def, unfold option.case,
        rule triple_bind_eq [where v = "[]" and R = "upto w"], use prog in \<open>simp add: behind_def gives_def\<close>, rule rec)
  show ?thesis by (rule triple_bind [OF opened]) (auto simp: triple_def returnIO_def)
qed

lemma session_opens_triple:
  assumes e: "undisturbed e" and w: "settled e (app_id i) H a w" and d: "expected = au_descriptor (snd a)"
    and id: "identity_of (e_ext e) expected = Inr i"
    and tables: "columns \<noteq> []" "distinct (map fst columns)"
      "\<And>t cs. (t, cs) \<in> set columns \<Longrightarrow> w_logs w t \<noteq> [] \<and> delta_validate (w_logs w t) (Some cs) (configuration i) = Inr ()"
    and nonneg: "\<And>t n. last_version (H t) = Some n \<Longrightarrow> 0 \<le> n"
    and fc: "concurrency_validate concurrency = Inr ()"
    and adm: "gives w (admit_root adm True expected) ()" and m: "\<And>v. upto w v \<Longrightarrow> \<exists>v'. reconcile (snd a) v = (Inr (), v')"
  shows "triple (upto w) (session_open e reconcile adm expected columns concurrency)
    (\<lambda>s _. s = opened_session a concurrency (opened_tables i columns w)) (\<lambda>_. False)"
proof -
  have st: "w_state w = Some a" "w_pending w = None" "authority_validate (e_ext e) (snd a) = Inr ()" using w by (simp_all add: settled_def based_def)
  then have load: "gives w (store_load e) (Some a, None)"
    using gives_store_load [OF e, of w] by (cases a) (simp add: validate_journal_def)
  have ex: "gives w (existing e) (Some (snd a))"
    unfolding existing_def by (rule gives_bind [OF load]) (simp add: gives_return)
  have specs: "gives w (open_specs e i (map (\<lambda>(t, cs). (t, Some cs)) columns) (cp_ordinal (au_checkpoint (snd a)) = 0)) (opened_tables i columns w)"
    by (rule gives_open_specs [OF e tables(1)]) (use tables(3) in simp)
  have "triple (upto w) (bindIO (admit_root adm True expected) (\<lambda>_. open_rest e reconcile expected columns concurrency (snd a)))
    (\<lambda>s _. s = opened_session a concurrency (opened_tables i columns w)) (\<lambda>_. False)"
    by (rule triple_bind_eq [OF adm [unfolded gives_def]], rule triple_lift_ok [where v = "()"], simp add: d require_def,
        rule triple_lift_ok [OF id], rule triple_bind_eq [OF specs [unfolded gives_def]],
        rule reserved_opens [OF e w d tables(2)])
      (fact nonneg fc m)+
  then show ?thesis unfolding session_open_def
    by (intro triple_bind_eq [OF ex [unfolded gives_def]]) (simp add: bindIO_return)
qed

lemma ledger_nonneg: "last_version (ledger_of app ps t) = Some n \<Longrightarrow> 0 \<le> n"
proof -
  assume n: "last_version (ledger_of app ps t) = Some n"
  then obtain c where "c \<in> set (ledger_of app ps t)" "map_option snd (lc_txn c) = Some n"
    by (auto simp: last_version_def split: list.splits)
  then show ?thesis using journal_commits_txn by (fastforce simp: ledger_of_def)
qed

lemma session_opens:
  assumes "undisturbed e" "settled e (app_id i) (ledger_of (app_id i) ps) a w" "identity_of (e_ext e) (au_descriptor (snd a)) = Inr i"
    "columns \<noteq> []" "distinct (map fst columns)"
    "\<And>t cs. (t, cs) \<in> set columns \<Longrightarrow> \<exists>rest. w_logs w t = creation_commit i cs # rest \<and> list_all (\<lambda>c. lc_meta c = None) rest"
    "concurrency_validate concurrency = Inr ()" "gives w (admit_root adm True (au_descriptor (snd a))) ()" "\<And>v. upto w v \<Longrightarrow> \<exists>v'. reconcile (snd a) v = (Inr (), v')"
  obtains w' where "session_open e reconcile adm (au_descriptor (snd a)) columns concurrency w =
    (Inr \<lparr> ss_controller = \<lparr> ct_authority = a, ct_failed = False, ct_concurrency = concurrency, ct_delta = Some (opened_tables i columns w) \<rparr>,
       ss_frontier = resume (au_checkpoint (snd a)), ss_failed = False \<rparr>, w')"
proof -
  have logs: "w_logs w t \<noteq> [] \<and> delta_validate (w_logs w t) (Some cs) (configuration i) = Inr ()" if "(t, cs) \<in> set columns" for t cs
    using assms(6) [OF that] created_validates by fastforce
  have "triple (upto w) (session_open e reconcile adm (au_descriptor (snd a)) columns concurrency)
    (\<lambda>s _. s = \<lparr> ss_controller = \<lparr> ct_authority = a, ct_failed = False, ct_concurrency = concurrency, ct_delta = Some (opened_tables i columns w) \<rparr>,
       ss_frontier = resume (au_checkpoint (snd a)), ss_failed = False \<rparr>) (\<lambda>_. False)"
    by (rule session_opens_triple [OF assms(1,2) refl assms(3-5)]) (fact logs ledger_nonneg assms(7-9))+
  then show ?thesis using that by (rule triple_success [OF _ upto_refl]) simp
qed

section \<open>A dataset with created tables\<close>

definition chain_tables :: "delta_identity \<Rightarrow> world" where
  "chain_tables i = chain_world\<lparr> w_logs := (\<lambda>_. [creation_commit i []]) \<rparr>"

definition sample_columns :: "(string \<times> string list) list" where
  "sample_columns = [(''blocks'', []), (''logs'', [])]"

lemma chain_tables_settled:
  "settled chain_env app (ledger_of app []) (ct_authority chain_controller) (chain_tables i)"
  "initialized (dp_env sample_deployment) app chain_authority (chain_tables i)"
proof -
  have "authority_validate chain_ext chain_authority = Inr ()" by (rule initial_valid [OF chain_authority(1)])
  then show "settled chain_env app (ledger_of app []) (ct_authority chain_controller) (chain_tables i)"
    by (simp add: settled_def based_def chain_controller_def chain_tables_def chain_world_def empty_world_def ledger_behind_def
        mirror_ok_def logs_exact_def last_version_def own_commit_def creation_commit_def ledger_of_def)
  show "initialized (dp_env sample_deployment) app chain_authority (chain_tables i)"
    using chain_initialized [of app] by (simp add: initialized_def chain_tables_def own_commit_def creation_commit_def chain_world_def)
qed

lemma chain_undisturbed: "undisturbed chain_env"
  using sample_env_healthy by (simp add: undisturbed_def healthy_def chain_env_def sample_env_def encode_def encode_record_def Let_def MAX_CONTROL_BYTES_def)

lemma chain_open_hypotheses:
  "gives w (admit_root sample_admission True (au_descriptor (snd (ct_authority chain_controller)))) ()" "\<exists>v'. dp_mirror sample_deployment (snd (ct_authority chain_controller)) v = (Inr (), v')"
  "concurrency_validate sample_limits = Inr ()" "sample_columns \<noteq> []" "distinct (map fst sample_columns)"
proof -
  have "authority_validate chain_ext chain_authority = Inr ()" by (rule initial_valid [OF chain_authority(1)])
  then have "dp_mirror sample_deployment (snd (ct_authority chain_controller)) v = (Inr (), v)"
    using chain_authority(2)
    by (simp add: sample_deployment_def mirror_reconcile_def reconcile_counted_def chain_controller_def sample_descriptor_def bindIO_def liftR_def returnIO_def)
  then show "\<exists>v'. dp_mirror sample_deployment (snd (ct_authority chain_controller)) v = (Inr (), v')" by blast
  have "gives w (ad_mirror sample_admission sample_descriptor) ()"
    unfolding sample_admission_def local_admission_def admission.simps
    by (rule gives_constructed) (use chain_undisturbed in \<open>simp_all add: undisturbed_def sample_descriptor_def\<close>)
  then have "gives w (admit_root sample_admission True sample_descriptor) ()"
    unfolding admit_root_def by (intro gives_bind [where a = "()"]) (simp_all add: sample_admission_def local_admission_def gives_return)
  then show "gives w (admit_root sample_admission True (au_descriptor (snd (ct_authority chain_controller)))) ()"
    by (simp add: chain_controller_def chain_authority(2))
qed (simp_all add: sample_limits_def concurrency_validate_def require_def sample_columns_def)

lemma chain_opens:
  assumes "identity_of chain_ext sample_descriptor = Inr i"
  obtains s w' where "session_open chain_env (dp_mirror sample_deployment) sample_admission sample_descriptor sample_columns sample_limits
      (chain_tables i) = (Inr s, w')" "\<not> ss_failed s"
proof -
  have a: "au_descriptor (snd (ct_authority chain_controller)) = sample_descriptor" by (simp add: chain_controller_def chain_authority)
  then have id: "identity_of (e_ext chain_env) (au_descriptor (snd (ct_authority chain_controller))) = Inr i" using assms by simp
  obtain w' where "session_open chain_env (dp_mirror sample_deployment) sample_admission sample_descriptor sample_columns sample_limits
      (chain_tables i) = (Inr \<lparr> ss_controller = \<lparr> ct_authority = ct_authority chain_controller, ct_failed = False, ct_concurrency = sample_limits,
        ct_delta = Some (opened_tables i sample_columns (chain_tables i)) \<rparr>,
        ss_frontier = resume (au_checkpoint (snd (ct_authority chain_controller))), ss_failed = False \<rparr>, w')"
    by (rule session_opens [OF chain_undisturbed chain_tables_settled(1) id chain_open_hypotheses(4,5) _ chain_open_hypotheses(3,1),
          where reconcile = "dp_mirror sample_deployment"])
      (use a chain_open_hypotheses(2) in \<open>auto simp: sample_columns_def chain_tables_def\<close>)
  then show ?thesis using that by simp
qed

end
