(* ===== verification/Session_New.thy ===== *)
theory Session_New
  imports Session_Live
begin

text \<open>
  Starting a stream on an empty root succeeds when nothing fails and no other process writes: the checks
  of \<open>Eligibility\<close> accept the root, the first authority is stored, and every table is created.
\<close>

section \<open>Admission\<close>

lemma gives_sync: "healthy e \<Longrightarrow> gives w (sync e msg) ()"
  using sync_total [of e w msg] by (simp add: gives_def)

lemma gives_absent:
  assumes e: "healthy e" and b: "pm_binding pm = MDisabled \<or> (\<exists>path. pm_binding pm = MLocal path \<and> path_allowed pm path \<and> w_mirror w = None)"
  shows "gives w (require_absent_for_initialization e pm) ()"
proof -
  have "gives w (case pm_binding pm of
         MDisabled \<Rightarrow> returnIO False
       | MLocal path \<Rightarrow>
           bindIO (lock_local e pm) (\<lambda>_.
           bindIO (local_path e pm path) (\<lambda>_.
           bindIO (read_local e pm path) (\<lambda>stored. returnIO (stored \<noteq> None))))
       | MS3 service bucket key \<Rightarrow> ow_remote_present (pm_ownership pm) bucket key) False"
    using b
  proof (elim disjE exE conjE)
    assume "pm_binding pm = MDisabled"
    then show ?thesis by (simp add: gives_return)
  next
    fix path
    assume p: "pm_binding pm = MLocal path" "path_allowed pm path" "w_mirror w = None"
    have "gives w (lock_local e pm) ()"
      unfolding lock_local_def local_owner_def
      by (rule gives_bind [where a = "()"], rule gives_lift, use p(2) in \<open>simp add: path_allowed_def\<close>, rule gives_sync [OF e])
    moreover have "gives w (local_path e pm path) ()" using local_path_total [OF e p(2), of w "\<lambda>_. False"] by (simp add: gives_def)
    moreover have "gives w (read_local e pm path) None" using read_local_total [OF e p(2), of w "\<lambda>_. False"] p(3) by (simp add: gives_def)
    ultimately show ?thesis
      unfolding p(1) mirror_binding.case by (intro gives_bind [of w "lock_local e pm"] gives_bind [of w "local_path e pm path"] gives_bind [of w "read_local e pm path"])
        (auto intro: gives_return [of w False, simplified])
  qed
  then show ?thesis unfolding require_absent_for_initialization_def by (rule gives_bind) (simp add: gives_lift)
qed

lemma gives_initializable:
  assumes e: "healthy e" and v: "validate_runtime_bindings (e_ext e) (ra_resolver ra) (ra_aws ra) d (output_path (sd_output d)) = Inr ()"
    and root: "sd_output d = SLocal root" "ow_local (pm_ownership pm)" "ra_owned ra root"
      "\<And>v. upto w v \<Longrightarrow> ra_tree ra v = tree" "walk_local_contents tree = Inr ()"
    and b: "pm_binding pm = MDisabled \<or> (\<exists>path. pm_binding pm = MLocal path \<and> path_allowed pm path \<and> w_mirror w = None)"
  shows "gives w (require_initializable e ra pm d) ()"
proof -
  have "gives w (observe e ''inspecting initialization entry'' (ra_tree ra)) tree" by (rule gives_observe [OF e]) (rule root(4))
  then have listed: "gives w (bindIO (observe e ''inspecting initialization entry'' (ra_tree ra)) (\<lambda>tree. liftR (walk_local_contents tree))) ()"
    by (rule gives_bind) (rule gives_lift [OF root(5)])
  show ?thesis
    unfolding require_initializable_def revalidate_local_paths_def root(1) storage_identity.case
  proof (intro gives_bind [of w "sync e _"] gives_bind [of w "liftR _"] gives_bind [of w "bindIO (liftR _) _"] gives_bind [OF gives_absent [OF e b]])
    show "gives w (liftR (validate_runtime_bindings (e_ext e) (ra_resolver ra) (ra_aws ra) d (output_path (SLocal root)))) ()"
      by (rule gives_lift) (use v root(1) in simp)
  qed (use listed root(2,3) in \<open>auto intro: gives_sync [OF e] gives_lift\<close>)
qed

section \<open>Creating the tables\<close>

fun with_tables :: "delta_identity \<Rightarrow> (string \<times> string list) list \<Rightarrow> world \<Rightarrow> world" where
  "with_tables i [] w = w"
| "with_tables i ((t, cs) # columns) w = with_tables i columns (w\<lparr> w_logs := (w_logs w)(t := [creation_commit i cs]) \<rparr>)"

lemma with_tables_fields [simp]:
  "w_state (with_tables i columns w) = w_state w" "w_pending (with_tables i columns w) = w_pending w"
  "w_mirror (with_tables i columns w) = w_mirror w" "w_inflight (with_tables i columns w) = w_inflight w"
  by (induction i columns w rule: with_tables.induct) simp_all

lemma with_tables_other: "t \<notin> fst ` set columns \<Longrightarrow> w_logs (with_tables i columns w) t = w_logs w t"
  by (induction i columns w rule: with_tables.induct) auto

lemma with_tables_log: "distinct (map fst columns) \<Longrightarrow> (t, cs) \<in> set columns \<Longrightarrow> w_logs (with_tables i columns w) t = [creation_commit i cs]"
proof (induction i columns w rule: with_tables.induct)
  case (2 i u ds columns w)
  then show ?case using with_tables_other [of u columns i] by auto
qed simp

lemma creates_table:
  assumes e: "undisturbed e" and w: "w_logs w t = []"
  shows "triple (upto w) (open_or_create e i t (Some cs) True)
    (\<lambda>n v. n = 1 \<and> upto (w\<lparr> w_logs := (w_logs w)(t := [creation_commit i cs]) \<rparr>) v) (\<lambda>_. False)"
proof -
  let ?w = "w\<lparr> w_logs := (w_logs w)(t := [creation_commit i cs]) \<rparr>"
  have h: "healthy e" using e by (simp add: undisturbed_def)
  have make: "triple (upto w) (create_table e i t cs) (\<lambda>_. upto ?w) (\<lambda>_. False)"
    unfolding create_table_def
    by (rule triple_bind [where R = "\<lambda>_. upto w"], simp add: triple_def w upto_iff, rule mutate_total [OF h]) (simp add: upto_iff)
  have check: "delta_validate [creation_commit i cs] (Some cs) (configuration i) = Inr ()" using created_validates [of "[]" i cs cs i] by simp
  have synced: "triple (upto ?w) (bindIO (sync e ''syncing the Delta commit'') (\<lambda>_. returnIO [creation_commit i cs]))
      (\<lambda>log v. log = [creation_commit i cs] \<and> upto ?w v) (\<lambda>_. False)"
    using gives_bind [OF gives_sync [OF h, of ?w] gives_return] by (simp add: gives_def)
  have found: "triple (upto w) (load_log e t) (\<lambda>r v. r = [] \<and> upto w v) (\<lambda>_. False)"
    using gives_load_log [OF e, of w t] w by (simp add: gives_def)
  have made: "triple (upto w) (bindIO (tryIO (create_table e i t cs)) (\<lambda>created. case created of
        Inr _ \<Rightarrow> bindIO (sync e ''syncing the Delta commit'') (\<lambda>_. returnIO [creation_commit i cs])
      | Inl err \<Rightarrow> bindIO (load_log e t) (\<lambda>theirs.
          if theirs = [] then failIO (Context ''creating the Delta table'' err) else returnIO theirs)))
      (\<lambda>log v. log = [creation_commit i cs] \<and> upto ?w v) (\<lambda>_. False)"
    by (rule triple_bind_try [OF make]) (use synced in \<open>simp_all add: triple_def\<close>)
  let ?check = "\<lambda>log. bindIO (liftR (delta_validate log (Some cs) (configuration i))) (\<lambda>_. returnIO (length log))"
  have "triple (upto ?w) (?check [creation_commit i cs]) (\<lambda>n v. n = 1 \<and> upto ?w v) (\<lambda>_. False)"
    by (rule triple_lift_ok [OF check]) (auto intro!: triple_return)
  note rest = triple_bind_eq [OF made, where f = ?check, OF this]
  show ?thesis unfolding open_or_create_def by (rule triple_bind_eq [OF found]) (use rest in simp)
qed

lemma creates_tables:
  assumes e: "undisturbed e"
  shows "distinct (map fst columns) \<Longrightarrow> (\<And>t. t \<in> fst ` set columns \<Longrightarrow> w_logs w t = []) \<Longrightarrow>
    triple (upto w) (mapIO (\<lambda>(t, cs). bindIO (mapErr (Context ''opening the Delta table'') (open_or_create e i t cs True)) (\<lambda>n. returnIO (t, n)))
      (map (\<lambda>(t, cs). (t, Some cs)) columns))
    (\<lambda>r v. r = map (\<lambda>(t, _). (t, 1)) columns \<and> upto (with_tables i columns w) v) (\<lambda>_. False)"
proof (induction columns arbitrary: w)
  case (Cons c columns)
  obtain t cs where c: "c = (t, cs)" by (cases c)
  let ?w = "w\<lparr> w_logs := (w_logs w)(t := [creation_commit i cs]) \<rparr>"
  have "triple (upto w) (mapErr (Context ''opening the Delta table'') (open_or_create e i t (Some cs) True))
      (\<lambda>n v. n = 1 \<and> upto ?w v) (\<lambda>_. False)"
    using creates_table [OF e, of w t i cs] Cons.prems(2) c by (simp add: triple_map_err)
  then have one: "triple (upto w) (bindIO (mapErr (Context ''opening the Delta table'') (open_or_create e i t (Some cs) True)) (\<lambda>n. returnIO (t, n)))
      (\<lambda>r v. r = (t, 1) \<and> upto ?w v) (\<lambda>_. False)"
    by (rule triple_bind_eq) (auto intro!: triple_return)
  have "\<And>u. u \<in> fst ` set columns \<Longrightarrow> w_logs ?w u = []" using Cons.prems(1,2) c by (auto simp: image_iff)
  then have more: "triple (upto ?w) (mapIO (\<lambda>(t, cs). bindIO (mapErr (Context ''opening the Delta table'') (open_or_create e i t cs True)) (\<lambda>n. returnIO (t, n)))
      (map (\<lambda>(t, cs). (t, Some cs)) columns))
    (\<lambda>r v. r = map (\<lambda>(t, _). (t, 1)) columns \<and> upto (with_tables i columns ?w) v) (\<lambda>_. False)"
    using Cons.IH [of ?w] Cons.prems(1) by simp
  show ?case unfolding c list.map prod.case mapIO.simps with_tables.simps
    by (rule triple_bind_eq [OF one], rule triple_bind_eq [OF more]) (auto intro!: triple_return)
qed (auto intro!: triple_return)

lemma with_tables_opened:
  assumes "distinct (map fst columns)"
  shows "opened_tables i columns (with_tables i columns w) = \<lparr> dt_identity = i, dt_tables = map (\<lambda>(t, _). (t, 1)) columns \<rparr>"
  using with_tables_log [OF assms] by (auto simp: opened_tables_def case_prod_unfold)

lemma creates_specs:
  assumes e: "undisturbed e" and c: "columns \<noteq> []" "distinct (map fst columns)" "\<And>t. w_logs w t = []"
  shows "triple (upto w) (open_specs e i (map (\<lambda>(t, cs). (t, Some cs)) columns) True)
    (\<lambda>tables v. tables = opened_tables i columns (with_tables i columns w) \<and> upto (with_tables i columns w) v) (\<lambda>_. False)"
proof -
  show ?thesis unfolding open_specs_def with_tables_opened [OF c(2)]
    by (rule triple_lift_ok [where v = "()"], simp add: require_def c(1), rule triple_bind_eq [OF creates_tables [OF e c(2)]])
      (use c(3) in \<open>auto intro!: triple_return\<close>)
qed

section \<open>A new stream\<close>

text \<open>The dataset after the first authority was stored and its tables were created.\<close>

lemma created_settled:
  assumes a: "authority_initial x d = Inr a" "x = e_ext e" and w: "vacant w" "empty_root d w" and r: "snd r = a"
    and c: "distinct (map fst columns)"
  shows "settled e app (ledger_of app []) r (with_tables i columns (w\<lparr> w_state := Some r \<rparr>))"
proof -
  have "own app (w_logs (with_tables i columns (w\<lparr> w_state := Some r \<rparr>)) t) = []" for t
  proof (cases "t \<in> fst ` set columns")
    case True
    then obtain cs where "(t, cs) \<in> set columns" by auto
    then show ?thesis using with_tables_log [OF c] by (simp add: own_commit_def creation_commit_def)
  qed (use w in \<open>simp add: with_tables_other empty_root_def\<close>)
  moreover have "au_descriptor a = d" using a(1) by (rule initial_descriptor)
  ultimately have "initialized e app a (with_tables i columns (w\<lparr> w_state := Some r \<rparr>))"
    using a w r by (cases r) (auto simp: initialized_def vacant_def empty_root_def)
  then show ?thesis using initialized_settled r by (cases r) simp
qed

lemma new_rest_opens:
  assumes e: "undisturbed e" and w: "vacant w" "empty_root d w" and a: "authority_initial (e_ext e) d = Inr a"
    and id: "identity_of (e_ext e) d = Inr i" and c: "columns \<noteq> []" "distinct (map fst columns)"
    and fc: "concurrency_validate concurrency = Inr ()"
    and m: "\<And>v. w_mirror v = w_mirror w \<Longrightarrow> \<exists>v'. reconcile a v = (Inr (), v')" and r: "snd r = a"
  shows "triple (upto (w\<lparr> w_state := Some r \<rparr>)) (open_rest e reconcile d columns concurrency (snd r))
    (\<lambda>s _. s = opened_session r concurrency \<lparr> dt_identity = i, dt_tables = map (\<lambda>(t, _). (t, 1)) columns \<rparr>) (\<lambda>_. False)"
proof -
  let ?w = "w\<lparr> w_state := Some r \<rparr>"
  let ?v = "with_tables i columns ?w"
  note set = created_settled [OF a refl w r c(2), of "app_id i" i] and tables = with_tables_opened [OF c(2), of i ?w]
  have d: "d = au_descriptor (snd r)" using initial_descriptor [OF a] r by simp
  have fresh: "cp_ordinal (au_checkpoint (snd r)) = 0" using initial_ordinal [OF a] r by simp
  have reserved: "triple (upto ?v) (bindIO (open_reserved e reconcile d (Some (opened_tables i columns ?v)) concurrency) (\<lambda>c.
      returnIO \<lparr> ss_controller = c, ss_frontier = resume (au_checkpoint (snd (ct_authority c))), ss_failed = False \<rparr>))
    (\<lambda>s _. s = opened_session r concurrency (opened_tables i columns ?v)) (\<lambda>_. False)"
  proof (rule reserved_opens [OF e set d c(2) _ fc])
    show "0 \<le> n" if "last_version (ledger_of (app_id i) [] t) = Some n" for t n using that by (rule ledger_nonneg)
    show "\<exists>v'. reconcile (snd r) v = (Inr (), v')" if "upto ?v v" for v using m [of v] that r by (simp add: upto_iff)
  qed
  have specs: "triple (upto ?w) (open_specs e i (map (\<lambda>(t, cs). (t, Some cs)) columns) (cp_ordinal (au_checkpoint (snd r)) = 0))
      (\<lambda>tables v. tables = opened_tables i columns ?v \<and> upto ?v v) (\<lambda>_. False)"
    using creates_specs [OF e c, of ?w i] w(2) fresh by (simp add: empty_root_def)
  show ?thesis unfolding tables [symmetric]
    by (rule triple_lift_ok [where v = "()"], use d in \<open>simp add: require_def\<close>, rule triple_lift_ok [OF id], rule triple_bind_eq [OF specs], rule reserved)
qed

lemma new_session_opens:
  assumes e: "undisturbed e" and w: "vacant w" "empty_root d w" and a: "authority_initial (e_ext e) d = Inr a"
    and id: "identity_of (e_ext e) d = Inr i" and c: "columns \<noteq> []" "distinct (map fst columns)"
    and fc: "concurrency_validate concurrency = Inr ()"
    and adm: "gives w (admit_root adm False d) ()" "gives w (ad_initializable adm d) ()"
    and m: "\<And>v. w_mirror v = w_mirror w \<Longrightarrow> \<exists>v'. reconcile a v = (Inr (), v')"
  shows "triple (upto w) (session_open e reconcile adm d columns concurrency)
    (\<lambda>s _. \<exists>r. snd r = a \<and> s = opened_session r concurrency \<lparr> dt_identity = i, dt_tables = map (\<lambda>(t, _). (t, 1)) columns \<rparr>) (\<lambda>_. False)"
    (is "triple _ _ ?Q _")
proof -
  have h: "healthy e" using e by (simp add: undisturbed_def)
  have slots: "w_state w = None" "w_pending w = None" using w by (simp_all add: vacant_def)
  have ex: "gives w (existing e) None"
    unfolding existing_def by (rule gives_bind [OF gives_store_load [OF e]]) (simp_all add: slots validate_journal_def gives_return)
  have create: "gives w (create_output e d) ()"
    unfolding create_output_def revalidate_local_paths_def
    by (cases "sd_output d") (auto intro!: gives_bind gives_return gives_sync [OF h])
  have store: "triple (upto w) (store_initialize e a) (\<lambda>r v. snd r = a \<and> upto (w\<lparr> w_state := Some r \<rparr>) v) (\<lambda>_. False)"
    by (rule triple_conseq [OF initialize_performs [OF h initial_valid [OF a] initial_empty [OF a], of w, unfolded performs_def]])
      (use slots in \<open>auto simp: has_journal_def upto_iff\<close>)
  have rest: "triple (upto (w\<lparr> w_state := Some r \<rparr>)) (open_rest e reconcile d columns concurrency (snd r)) ?Q (\<lambda>_. False)" if "snd r = a" for r
    by (rule triple_conseq [OF new_rest_opens [OF e w a id c fc, where reconcile = reconcile and r = r]]) (use m that in blast)+
  have new: "triple (upto w) (bindIO (ad_initializable adm d) (\<lambda>_. bindIO (create_output e d) (\<lambda>_.
        bindIO (liftR (authority_initial (e_ext e) d)) (\<lambda>a. bindIO (store_initialize e a) (\<lambda>stored. returnIO (snd stored))))))
      (\<lambda>authority v. \<exists>r. authority = snd r \<and> snd r = a \<and> upto (w\<lparr> w_state := Some r \<rparr>) v) (\<lambda>_. False)"
    by (rule triple_bind_eq [OF adm(2) [unfolded gives_def]], rule triple_bind_eq [OF create [unfolded gives_def]], rule triple_lift_ok [OF a],
        rule triple_bind [OF store], rule triple_return) auto
  have "triple (upto w) (bindIO (admit_root adm False d) (\<lambda>_.
      bindIO (bindIO (ad_initializable adm d) (\<lambda>_. bindIO (create_output e d) (\<lambda>_.
        bindIO (liftR (authority_initial (e_ext e) d)) (\<lambda>a. bindIO (store_initialize e a) (\<lambda>stored. returnIO (snd stored))))))
      (open_rest e reconcile d columns concurrency))) ?Q (\<lambda>_. False)"
  proof (rule triple_bind_eq [OF adm(1) [unfolded gives_def]], rule triple_bind [OF new], rule triple_pre_ex)
    fix authority r
    show "triple (\<lambda>v. authority = snd r \<and> snd r = a \<and> upto (w\<lparr> w_state := Some r \<rparr>) v) (open_rest e reconcile d columns concurrency authority) ?Q (\<lambda>_. False)"
      by (rule triple_pre_pure, rule triple_pre_pure) (use rest [of r] in simp)
  qed
  then show ?thesis unfolding session_open_def by (intro triple_bind_eq [OF ex [unfolded gives_def]]) simp
qed

section \<open>An empty volume\<close>

lemma empty_volume: "vacant empty_world" "empty_root sample_descriptor empty_world"
  by (simp_all add: vacant_def empty_root_def empty_world_def)

end
