(* ===== verification/Evm_Decimal.thy ===== *)
theory Evm_Decimal
  imports Radix
begin

text \<open>
  Decimal text of big-endian byte strings (\<open>blocks/src/evm/decimal.rs\<close>): values of up to 16 bytes are
  divided as one \<open>u128\<close>, longer ones as \<open>u64\<close> limbs, 19 digits at a time, into a buffer that is filled from
  its end. A slice or an index out of range panics, so every write is partial.
\<close>

section \<open>Writing digits\<close>

definition CHUNK :: nat where
  "CHUNK = 10000000000000000000"

definition CHUNK_DIGITS :: nat where
  "CHUNK_DIGITS = 19"

definition STACK_BYTES :: nat where
  "STACK_BYTES = 32"

definition STACK_DIGITS :: nat where
  "STACK_DIGITS = 78"

definition DIGIT_PAIRS :: string where
  "DIGIT_PAIRS =
     ''0001020304050607080910111213141516171819'' @
     ''2021222324252627282930313233343536373839'' @
     ''4041424344454647484950515253545556575859'' @
     ''6061626364656667686970717273747576777879'' @
     ''8081828384858687888990919293949596979899''"

definition digit_pair :: "nat \<Rightarrow> string" where
  "digit_pair pair = take 2 (drop pair DIGIT_PAIRS)"

text \<open>\<open>b'0' + val as u8\<close>: a truncating cast and a checked addition.\<close>

definition u8_digit :: "64 word \<Rightarrow> char option" where
  "u8_digit val = (let d = unat (ucast val :: 8 word) in if 48 + d < 256 then Some (char_of (48 + d)) else None)"

function write_u64 :: "64 word \<Rightarrow> string \<Rightarrow> nat \<Rightarrow> (nat \<times> string) option" where
  "write_u64 val buf i =
     (if val \<ge> 100
      then Option.bind (usize_sub i 2) (\<lambda>i'.
           Option.bind (put_at buf i' (digit_pair (unat (val mod 100) * 2))) (\<lambda>buf'.
           write_u64 (val div 100) buf' i'))
      else if val \<ge> 10
      then Option.bind (usize_sub i 2) (\<lambda>i'.
           Option.bind (put_at buf i' (digit_pair (unat val * 2))) (\<lambda>buf'. Some (i', buf')))
      else Option.bind (usize_sub i 1) (\<lambda>i'.
           Option.bind (u8_digit val) (\<lambda>c.
           Option.bind (put_at buf i' [c]) (\<lambda>buf'. Some (i', buf')))))"
  by pat_completeness auto

lemma unat_div_100: "unat (val div 100 :: 64 word) = unat val div 100"
  by (simp add: unat_div)

termination write_u64
proof (relation "measure (\<lambda>(val, _). unat val)")
  fix val :: "64 word"
  assume "100 \<le> val"
  then have "100 \<le> unat val" by (simp add: word_le_nat_alt)
  then show "((val div 100, b, i), (val, buf, j)) \<in> measure (\<lambda>(val, _). unat val)" for b i buf j
    by (simp add: unat_div_100)
qed simp

text \<open>\<open>write_chunk\<close> fills a slice of 19 bytes, two digits at a time and the first one last.\<close>

fun write_chunk_pairs :: "64 word \<Rightarrow> string \<Rightarrow> nat \<Rightarrow> (64 word \<times> string) option" where
  "write_chunk_pairs val out i =
     (if i > 1
      then Option.bind (put_at out (i - 2) (digit_pair (unat (val mod 100) * 2))) (\<lambda>out'.
           write_chunk_pairs (val div 100) out' (i - 2))
      else Some (val, out))"

declare write_chunk_pairs.simps [simp del] write_u64.simps [simp del]

definition write_chunk :: "64 word \<Rightarrow> string \<Rightarrow> string option" where
  "write_chunk val out =
     Option.bind (write_chunk_pairs val out (length out)) (\<lambda>(val', out').
     Option.bind (u8_digit val') (\<lambda>c. put_at out' 0 [c]))"

text \<open>A chunk written to \<open>buf[end - 19..end]\<close>.\<close>

definition write_chunk_at :: "64 word \<Rightarrow> string \<Rightarrow> nat \<Rightarrow> string option" where
  "write_chunk_at val buf j =
     Option.bind (usize_sub j CHUNK_DIGITS) (\<lambda>i.
     if j \<le> length buf
     then Option.bind (write_chunk val (take CHUNK_DIGITS (drop i buf))) (\<lambda>out. put_at buf i out)
     else None)"

section \<open>Division\<close>

abbreviation chunk128 :: "128 word" where
  "chunk128 \<equiv> of_nat CHUNK"

function write_u128_rest :: "128 word \<Rightarrow> string \<Rightarrow> nat \<Rightarrow> (nat \<times> string) option" where
  "write_u128_rest rest buf j =
     (if rest \<ge> chunk128
      then let quotient = rest div chunk128 in
           Option.bind (write_chunk_at (ucast (rest - quotient * chunk128)) buf j) (\<lambda>buf'.
           write_u128_rest quotient buf' (j - CHUNK_DIGITS))
      else write_u64 (ucast rest) buf j)"
  by pat_completeness auto

lemma unat_chunk128 [simp]: "unat chunk128 = CHUNK"
  by (simp add: CHUNK_def unat_of_nat)

lemma unat_div_chunk: "unat (rest div chunk128) = unat rest div CHUNK"
  by (simp add: unat_div)

termination write_u128_rest
proof (relation "measure (\<lambda>(rest, _). unat rest)")
  fix rest quotient :: "128 word" and buf b :: string and i j
  assume "chunk128 \<le> rest" "quotient = rest div chunk128"
  then have "CHUNK \<le> unat rest" "unat quotient = unat rest div CHUNK" by (simp_all add: word_le_nat_alt unat_div_chunk)
  then show "((quotient, b, j - CHUNK_DIGITS), (rest, buf, j)) \<in> measure (\<lambda>(rest, _). unat rest)"
    by (simp add: CHUNK_def)
qed simp

declare write_u128_rest.simps [simp del]

definition write_u128 :: "128 word \<Rightarrow> string \<Rightarrow> (nat \<times> string) option" where
  "write_u128 val buf =
     (if val < chunk128 then write_u64 (ucast val) buf (length buf) else write_u128_rest val buf (length buf))"

text \<open>One pass over the limbs: the quotients in place, and the remainder.\<close>

fun limb_pass :: "64 word \<Rightarrow> 64 word list \<Rightarrow> 64 word list \<times> 64 word" where
  "limb_pass r [] = ([], r)"
| "limb_pass r (limb # limbs) =
     (let cur = or (push_bit 64 (ucast r)) (ucast limb) :: 128 word;
          quotient = ucast (cur div chunk128) :: 64 word;
          r' = ucast (cur - ucast quotient * chunk128) :: 64 word;
          rest = limb_pass r' limbs
      in (quotient # fst rest, snd rest))"

lemma limb_pass_refines:
  assumes "unat r < CHUNK"
  shows "divide_pass (2 ^ 64) CHUNK (unat r) (map unat limbs) = (map unat (fst (limb_pass r limbs)), unat (snd (limb_pass r limbs)))"
  using assms
proof (induction limbs arbitrary: r)
  case (Cons limb limbs)
  define cur :: "128 word" where "cur = or (push_bit 64 (ucast r)) (ucast limb)"
  define quotient :: "64 word" where "quotient = ucast (cur div chunk128)"
  define r' :: "64 word" where "r' = ucast (cur - ucast quotient * chunk128)"
  have limb: "unat limb < 2 ^ 64" using unsigned_less [of limb] by simp
  have r: "unat (ucast r :: 128 word) = unat r" using Cons.prems by (simp add: unsigned_ucast_eq take_bit_eq_mod CHUNK_def)
  have less: "unat r * 2 ^ 64 + unat limb < CHUNK * 2 ^ 64" by (rule shift_in_bound [OF Cons.prems limb])
  moreover have "CHUNK * 2 ^ 64 \<le> 2 ^ 128" by (simp add: CHUNK_def)
  ultimately have "unat (ucast r :: 128 word) * 2 ^ 64 + unat limb < 2 ^ 128" unfolding r by (rule less_le_trans)
  then have cur: "unat cur = unat r * 2 ^ 64 + unat limb"
    using unat_shift_in [of "ucast r :: 128 word" limb] r by (simp add: cur_def)
  have "unat cur < CHUNK * 2 ^ 64" using less cur by simp
  then have "unat cur div CHUNK < 2 ^ 64" by (simp add: less_mult_imp_div_less mult.commute)
  then have q: "unat quotient = unat cur div CHUNK"
    unfolding quotient_def by (subst unat_narrow) (simp_all add: unat_div_chunk)
  have "ucast quotient = (of_nat (unat quotient) :: 128 word)" by simp
  then have "ucast quotient * chunk128 = of_nat (unat cur div CHUNK * CHUNK)" unfolding q by simp
  then have "cur - ucast quotient * chunk128 = of_nat (unat cur) - of_nat (unat cur div CHUNK * CHUNK)" by simp
  also have "\<dots> = of_nat (unat cur - unat cur div CHUNK * CHUNK)" by (rule of_nat_diff [symmetric]) simp
  also have "unat cur - unat cur div CHUNK * CHUNK = unat cur mod CHUNK" by (rule minus_div_mult_eq_mod)
  finally have "cur - ucast quotient * chunk128 = of_nat (unat cur mod CHUNK)" .
  moreover have "unat cur mod CHUNK < CHUNK" by (simp add: CHUNK_def)
  ultimately have r': "unat r' = unat cur mod CHUNK" "unat r' < CHUNK"
    unfolding r'_def by (subst unat_narrow; simp add: unat_of_nat CHUNK_def)+
  show ?case using Cons.IH [OF r'(2)] q r'(1) cur
    by (simp add: Let_def cur_def [symmetric] quotient_def [symmetric] r'_def [symmetric])
qed simp

definition words_value :: "64 word list \<Rightarrow> nat" where
  "words_value limbs = limbs_value (2 ^ 64) (map unat limbs)"

lemma limb_pass_div_mod:
  "words_value (fst (limb_pass 0 limbs)) = words_value limbs div CHUNK"
  "unat (snd (limb_pass 0 limbs)) = words_value limbs mod CHUNK"
proof -
  have c: "0 < CHUNK" by (simp add: CHUNK_def)
  show "words_value (fst (limb_pass 0 limbs)) = words_value limbs div CHUNK"
    "unat (snd (limb_pass 0 limbs)) = words_value limbs mod CHUNK"
    using divide_pass_div_mod [OF c, of "2 ^ 64" "map unat limbs"] limb_pass_refines [of 0 limbs] c by (simp_all add: words_value_def)
qed

lemma words_value_trimmed: "words_value (dropWhile (\<lambda>l. l = 0) limbs) = words_value limbs"
  unfolding words_value_def by (induction limbs) simp_all

lemma words_value_positive: "dropWhile (\<lambda>l. l = 0) limbs \<noteq> [] \<longleftrightarrow> 0 < words_value limbs"
  unfolding words_value_def by (induction limbs) (auto simp: unat_gt_0)

text \<open>The limbs from the first one that is not zero on.\<close>

function write_limbs :: "64 word list \<Rightarrow> string \<Rightarrow> nat \<Rightarrow> (nat \<times> string) option" where
  "write_limbs limbs buf j =
     (let pass = limb_pass 0 limbs; rest = dropWhile (\<lambda>l. l = 0) (fst pass) in
      if rest = [] then write_u64 (snd pass) buf j
      else Option.bind (write_chunk_at (snd pass) buf j) (\<lambda>buf'. write_limbs rest buf' (j - CHUNK_DIGITS)))"
  by pat_completeness auto

termination write_limbs
proof (relation "measure (\<lambda>(limbs, _). words_value limbs)")
  fix limbs :: "64 word list" and pass rest and buf b :: string and j
  assume "pass = limb_pass 0 limbs" "rest = dropWhile (\<lambda>l. l = 0) (fst pass)" "rest \<noteq> []"
  then have v: "words_value rest = words_value limbs div CHUNK" "0 < words_value limbs div CHUNK"
    using words_value_positive [of "fst pass"] words_value_trimmed [of "fst pass"] limb_pass_div_mod(1) [of limbs] by simp_all
  have "n div CHUNK < n" if "0 < n div CHUNK" for n
    by (rule div_less_dividend) (use that in \<open>auto simp: CHUNK_def intro: gr0I\<close>)
  then show "((rest, b, j - CHUNK_DIGITS), (limbs, buf, j)) \<in> measure (\<lambda>(limbs, _). words_value limbs)"
    using v by simp
qed simp

declare write_limbs.simps [simp del]

section \<open>Formatting\<close>

definition div_ceil :: "nat \<Rightarrow> nat \<Rightarrow> nat" where
  "div_ceil a b = (a + b - 1) div b"

text \<open>The limbs of a nonempty byte string; \<open>limbs[0]\<close> panics for an empty one.\<close>

definition fill_limbs :: "8 word list \<Rightarrow> 64 word list option" where
  "fill_limbs bytes =
     (let count = div_ceil (length bytes) 8 in
      Option.bind (usize_sub count 1) (\<lambda>c.
      Option.bind (usize_sub (length bytes) (c * 8)) (\<lambda>head.
      Some (be_word (take head bytes) # map be_word (chunks_exact 8 (drop head bytes))))))"

definition trim_leading_zeros :: "8 word list \<Rightarrow> 8 word list" where
  "trim_leading_zeros bytes = dropWhile (\<lambda>b. b = 0) bytes"

definition digits_from :: "(nat \<times> string) option \<Rightarrow> string option" where
  "digits_from r = map_option (\<lambda>(start, buf). drop start buf) r"

definition format_stack :: "8 word list \<Rightarrow> string option" where
  "format_stack bytes =
     (let buf = replicate STACK_DIGITS (CHR 0x00) in
      digits_from (if length bytes \<le> 16 then write_u128 (be_word bytes) buf
        else Option.bind (fill_limbs bytes) (\<lambda>limbs. write_limbs limbs buf (length buf))))"

definition format_heap :: "8 word list \<Rightarrow> string option" where
  "format_heap bytes =
     Option.bind (fill_limbs bytes) (\<lambda>limbs.
     let buf = replicate (length limbs * 20 + CHUNK_DIGITS) (CHR 0x00) in
     digits_from (write_limbs limbs buf (length buf)))"

definition append_decimal :: "8 word list \<Rightarrow> string option" where
  "append_decimal bytes =
     (let trimmed = trim_leading_zeros bytes in
      if length trimmed \<le> STACK_BYTES then format_stack trimmed else format_heap trimmed)"

section \<open>Digits\<close>

definition pad :: "nat \<Rightarrow> nat \<Rightarrow> string" where
  "pad k n = map digit (low_digits 10 k n)"

lemma length_pad [simp]: "length (pad k n) = k"
  by (simp add: pad_def)

lemma pad_add: "pad (j + k) n = pad j (n div 10 ^ k) @ pad k n"
  by (simp add: pad_def low_digits_add)

lemma pad_mod: "pad k (n mod 10 ^ k) = pad k n"
  by (simp add: pad_def low_digits_mod)

lemma pad_one: "pad 1 n = [digit (n mod 10)]" "pad 2 n = [digit (n div 10 mod 10), digit (n mod 10)]"
  by (simp_all add: pad_def numeral_2_eq_2)

lemma dec_pad: "10 ^ k \<le> n \<Longrightarrow> 0 < k \<Longrightarrow> dec n = dec (n div 10 ^ k) @ pad k n"
proof (induction k arbitrary: n)
  case (Suc k)
  then have "10 * 10 ^ k \<le> n" by simp
  then have big: "10 \<le> n" "10 ^ k \<le> n div 10" by (auto simp: less_eq_div_iff_mult_less_eq mult.commute intro: order_trans [rotated])
  have n: "dec n = dec (n div 10) @ [digit (n mod 10)]" using big(1) dec.simps [of n] by simp
  show ?case
  proof (cases "k = 0")
    case True
    then show ?thesis using n by (simp add: pad_def)
  next
    case False
    then have "dec (n div 10) = dec (n div 10 div 10 ^ k) @ pad k (n div 10)" using Suc.IH [OF big(2)] by simp
    then show ?thesis using n by (simp add: pad_def div_mult2_eq)
  qed
qed simp

lemma digit_chars:
  "digit 0 = CHR ''0''" "digit (Suc 0) = CHR ''1''" "digit (Suc (Suc 0)) = CHR ''2''" "digit 3 = CHR ''3''" "digit 4 = CHR ''4''" "digit 5 = CHR ''5''" "digit 6 = CHR ''6''" "digit 7 = CHR ''7''" "digit 8 = CHR ''8''" "digit 9 = CHR ''9''" "digit 2 = CHR ''2''"
  by (simp_all add: digit_def char_of_def bit_0)

lemma digit_pairs_listed: "DIGIT_PAIRS = concat (map (\<lambda>n. [digit (n div 10 mod 10), digit (n mod 10)]) [0..<100])"
  by (simp add: DIGIT_PAIRS_def digit_chars upt_rec)

lemma nth_piece:
  assumes "\<And>x. x \<in> set xs \<Longrightarrow> length (f x) = k" "i < length xs"
  shows "take k (drop (i * k) (concat (map f xs))) = f (xs ! i)"
  using assms
proof (induction xs arbitrary: i)
  case (Cons x xs)
  then show ?case by (cases i) simp_all
qed simp

lemma digit_pair_pad: "n < 100 \<Longrightarrow> digit_pair (n * 2) = pad 2 n"
  unfolding digit_pair_def digit_pairs_listed pad_one by (subst nth_piece) simp_all

lemma dec_two: "10 \<le> n \<Longrightarrow> n < 100 \<Longrightarrow> dec n = pad 2 n"
  using dec.simps [of n] dec.simps [of "n div 10"] by (simp add: pad_one)


section \<open>What the writers leave in the buffer\<close>

lemma u8_digit: "unat val < 10 \<Longrightarrow> u8_digit val = Some (digit (unat val))"
proof -
  assume "unat val < 10"
  then have "unat (ucast val :: 8 word) = unat val" by (intro unat_narrow) simp
  with \<open>unat val < 10\<close> show ?thesis by (simp add: u8_digit_def digit_def Let_def)
qed

lemma write_u64_text:
  assumes "length (dec (unat val)) \<le> j" "j \<le> length buf"
  shows "write_u64 val buf j = Some (ending buf j (dec (unat val)))"
  using assms
proof (induction val buf j rule: write_u64.induct)
  case (1 val buf j)
  let ?n = "unat val"
  have le: "100 \<le> val \<longleftrightarrow> 100 \<le> ?n" "10 \<le> val \<longleftrightarrow> 10 \<le> ?n" by (simp_all add: word_le_nat_alt)
  have m: "unat (val mod 100) = ?n mod 100" by (simp add: unat_mod)
  consider (big) "100 \<le> ?n" | (two) "10 \<le> ?n" "?n < 100" | (one) "?n < 10" by linarith
  then show ?case
  proof cases
    case big
    have pair: "digit_pair (?n mod 100 * 2) = pad 2 ?n" using digit_pair_pad [of "?n mod 100"] pad_mod [of 2 ?n] by simp
    have d: "dec ?n = dec (?n div 100) @ pad 2 ?n" using dec_pad [of 2 ?n] big by simp
    then have j: "2 \<le> j" "length (dec (?n div 100)) + length (pad 2 ?n) \<le> j" using 1(2) by simp_all
    obtain buf' where b: "put_at buf (j - length (pad 2 ?n)) (pad 2 ?n) = Some buf'" using put_fits [of "pad 2 ?n" j buf] j 1(3) by auto
    note e = ending_step [OF j(2) 1(3) b]
    have "write_u64 (val div 100) buf' (j - 2) = Some (ending buf' (j - 2) (dec (unat (val div 100))))"
      by (rule 1(1)) (use big le j b e m pair in \<open>simp_all add: usize_sub_def unat_div_100\<close>)
    then show ?thesis using big le j b e m pair d write_u64.simps [of val buf j] by (simp add: usize_sub_def unat_div_100)
  next
    case two
    have "digit_pair (?n * 2) = dec ?n" using digit_pair_pad [of ?n] dec_two [of ?n] two by simp
    then show ?thesis using two le 1(2,3) write_u64.simps [of val buf j] dec_two [OF two] put_ending [of "dec ?n" j buf]
      by (auto simp: usize_sub_def)
  next
    case one
    then have "dec ?n = [digit ?n]" using dec.simps [of ?n] by simp
    then show ?thesis using one le 1(2,3) write_u64.simps [of val buf j] put_ending [of "dec ?n" j buf] u8_digit [OF one]
      by (auto simp: usize_sub_def)
  qed
qed

lemma write_chunk_pairs_text:
  assumes "2 * k + 1 \<le> length out"
  shows "\<exists>v'. write_chunk_pairs val out (2 * k + 1) = Some (v', take 1 out @ pad (2 * k) (unat val) @ drop (2 * k + 1) out) \<and>
    unat v' = unat val div 100 ^ k"
  using assms
proof (induction k arbitrary: val out)
  case 0
  have "take 1 out @ drop 1 out = out" by (rule append_take_drop_id)
  then show ?case by (simp add: write_chunk_pairs.simps [of val out] pad_def)
next
  case (Suc k)
  let ?n = "unat val" and ?i = "2 * k + 1"
  have m: "unat (val mod 100) = ?n mod 100" by (simp add: unat_mod)
  have pair: "digit_pair (?n mod 100 * 2) = pad 2 ?n" using digit_pair_pad [of "?n mod 100"] pad_mod [of 2 ?n] by simp
  define out' where "out' = take ?i out @ pad 2 ?n @ drop (2 * Suc k + 1) out"
  have put: "put_at out ?i (pad 2 ?n) = Some out'" using Suc.prems by (simp add: put_at_def out'_def)
  have len: "?i \<le> length out'" using Suc.prems by (simp add: out'_def)
  obtain v' where v': "write_chunk_pairs (val div 100) out' ?i = Some (v', take 1 out' @ pad (2 * k) (unat (val div 100)) @ drop ?i out')"
    "unat v' = unat (val div 100) div 100 ^ k"
    using Suc.IH [OF len] by blast
  have "drop ?i out' = pad 2 ?n @ drop (2 * Suc k + 1) out" "take 1 out' = take 1 out" using Suc.prems by (simp_all add: out'_def min_def)
  moreover have "pad (2 * Suc k) ?n = pad (2 * k) (?n div 100) @ pad 2 ?n" using pad_add [of "2 * k" 2 ?n] by simp
  moreover have "write_chunk_pairs val out (2 * Suc k + 1) = write_chunk_pairs (val div 100) out' ?i"
    using put m pair write_chunk_pairs.simps [of val out "2 * Suc k + 1"] by simp
  ultimately show ?case using v' by (simp add: unat_div_100 div_mult2_eq)
qed

lemma write_chunk_text:
  assumes "unat val < CHUNK" "length out = CHUNK_DIGITS"
  shows "write_chunk val out = Some (pad CHUNK_DIGITS (unat val))"
proof -
  obtain v' where v': "write_chunk_pairs val out 19 = Some (v', take 1 out @ pad 18 (unat val) @ drop 19 out)" "unat v' = unat val div 100 ^ 9"
    using write_chunk_pairs_text [of 9 out val] assms(2) by (auto simp: CHUNK_DIGITS_def)
  have v: "unat v' < 10" using assms(1) v'(2) by (simp add: CHUNK_def less_mult_imp_div_less)
  have "pad 19 (unat val) = [digit (unat v')] @ pad 18 (unat val)"
    using pad_add [of 1 18 "unat val"] v v'(2) by (simp add: pad_def)
  moreover have "length (take 1 out) = 1" "drop 19 out = []" using assms(2) by (simp_all add: CHUNK_DIGITS_def)
  ultimately show ?thesis using v'(1) u8_digit [OF v] assms(2)
    by (simp add: write_chunk_def CHUNK_DIGITS_def put_at_def)
qed

lemma write_chunk_at_text:
  assumes "unat val < CHUNK" "CHUNK_DIGITS \<le> j" "j \<le> length buf"
  shows "write_chunk_at val buf j = put_at buf (j - CHUNK_DIGITS) (pad CHUNK_DIGITS (unat val))"
  using assms write_chunk_text [OF assms(1), of "take CHUNK_DIGITS (drop (j - CHUNK_DIGITS) buf)"]
  by (simp add: write_chunk_at_def usize_sub_def)

text \<open>One chunk of a number that needs more than one.\<close>

lemma chunk_step:
  assumes "CHUNK \<le> n" "length (dec n) \<le> j" "j \<le> length buf" "unat val = n mod CHUNK"
  obtains buf' where "write_chunk_at val buf j = Some buf'" "length buf' = length buf" "j - CHUNK_DIGITS \<le> length buf"
    "ending buf' (j - CHUNK_DIGITS) (dec (n div CHUNK)) = ending buf j (dec n)" "length (dec (n div CHUNK)) \<le> j - CHUNK_DIGITS"
proof -
  have c: "CHUNK = 10 ^ CHUNK_DIGITS" by (simp add: CHUNK_def CHUNK_DIGITS_def)
  let ?p = "pad CHUNK_DIGITS n"
  have d: "dec n = dec (n div CHUNK) @ ?p" using dec_pad [of CHUNK_DIGITS n] assms(1) c by (simp add: CHUNK_DIGITS_def)
  have j: "length (dec (n div CHUNK)) + length ?p \<le> j" using assms(2) by (simp add: d)
  obtain buf' where b: "put_at buf (j - length ?p) ?p = Some buf'" using put_fits [of ?p j buf] j assms(3) by auto
  have "unat val < CHUNK" using assms(4) by (simp add: CHUNK_def)
  then have "write_chunk_at val buf j = Some buf'"
    using write_chunk_at_text [of val j buf] b j assms(3,4) pad_mod [of CHUNK_DIGITS n] c by simp
  then show ?thesis using that ending_step [OF j assms(3) b] d j by simp
qed

lemma write_u128_rest_text:
  assumes "length (dec (unat rest)) \<le> j" "j \<le> length buf"
  shows "write_u128_rest rest buf j = Some (ending buf j (dec (unat rest)))"
  using assms
proof (induction rest buf j rule: write_u128_rest.induct)
  case (1 rest buf j)
  let ?n = "unat rest"
  have le: "chunk128 \<le> rest \<longleftrightarrow> CHUNK \<le> ?n" by (simp add: word_le_nat_alt)
  show ?case
  proof (cases "CHUNK \<le> ?n")
    case True
    let ?q = "rest div chunk128" and ?v = "ucast (rest - rest div chunk128 * chunk128) :: 64 word"
    have "rest - ?q * chunk128 = rest mod chunk128" by (rule minus_div_mult_eq_mod)
    then have "unat (rest - ?q * chunk128) = ?n mod CHUNK" by (simp add: unat_mod)
    moreover have "?n mod CHUNK < 2 ^ 64" by (rule less_trans [of _ CHUNK]) (simp_all add: CHUNK_def)
    ultimately have v: "unat ?v = ?n mod CHUNK" by (subst unat_narrow) simp_all
    obtain buf' where b: "write_chunk_at ?v buf j = Some buf'" "length buf' = length buf" "j - CHUNK_DIGITS \<le> length buf"
      "ending buf' (j - CHUNK_DIGITS) (dec (?n div CHUNK)) = ending buf j (dec ?n)" "length (dec (?n div CHUNK)) \<le> j - CHUNK_DIGITS"
      by (rule chunk_step [OF True 1(2,3) v])
    have "write_u128_rest ?q buf' (j - CHUNK_DIGITS) = Some (ending buf' (j - CHUNK_DIGITS) (dec (unat ?q)))"
      by (rule 1(1)) (use True le b in \<open>simp_all add: unat_div_chunk\<close>)
    then show ?thesis using True le b write_u128_rest.simps [of rest buf j] by (simp add: Let_def unat_div_chunk)
  next
    case False
    then have "unat (ucast rest :: 64 word) = ?n" by (intro unat_narrow) (simp add: CHUNK_def)
    then show ?thesis using False le 1(2,3) write_u128_rest.simps [of rest buf j] write_u64_text [of "ucast rest" j buf] by simp
  qed
qed

lemma write_limbs_text:
  assumes "length (dec (words_value limbs)) \<le> j" "j \<le> length buf"
  shows "write_limbs limbs buf j = Some (ending buf j (dec (words_value limbs)))"
  using assms
proof (induction limbs buf j rule: write_limbs.induct)
  case (1 limbs buf j)
  let ?n = "words_value limbs" and ?pass = "limb_pass 0 limbs"
  let ?rest = "dropWhile (\<lambda>l. l = 0) (fst ?pass)"
  have pass: "words_value ?rest = ?n div CHUNK" "unat (snd ?pass) = ?n mod CHUNK" "?rest \<noteq> [] \<longleftrightarrow> 0 < ?n div CHUNK"
    using words_value_positive [of "fst ?pass"] words_value_trimmed [of "fst ?pass"] limb_pass_div_mod [of limbs] by simp_all
  show ?case
  proof (cases "?rest = []")
    case True
    then have "?n mod CHUNK = ?n" using pass(3) by (simp add: CHUNK_def div_eq_0_iff)
    then show ?thesis using True pass(2) 1(2,3) write_limbs.simps [of limbs buf j] write_u64_text [of "snd ?pass" j buf] by (simp add: Let_def)
  next
    case False
    then have "CHUNK \<le> ?n" using pass(3) by (auto simp: div_eq_0_iff intro: leI)
    then obtain buf' where b: "write_chunk_at (snd ?pass) buf j = Some buf'" "length buf' = length buf" "j - CHUNK_DIGITS \<le> length buf"
      "ending buf' (j - CHUNK_DIGITS) (dec (?n div CHUNK)) = ending buf j (dec ?n)" "length (dec (?n div CHUNK)) \<le> j - CHUNK_DIGITS"
      by (rule chunk_step [OF _ 1(2,3) pass(2)])
    have "write_limbs ?rest buf' (j - CHUNK_DIGITS) = Some (ending buf' (j - CHUNK_DIGITS) (dec (words_value ?rest)))"
      by (rule 1(1) [OF refl refl]) (use False b pass(1) in simp_all)
    moreover have "write_limbs limbs buf j = write_limbs ?rest buf' (j - CHUNK_DIGITS)"
      by (subst write_limbs.simps) (simp only: Let_def if_not_P [OF False] b(1) bind.bind_lunit)
    ultimately show ?thesis using b(4) pass(1) by simp
  qed
qed

section \<open>The decimal text of a byte string\<close>

lemma be_value_trimmed: "be_value (trim_leading_zeros bytes) = be_value bytes"
  unfolding trim_leading_zeros_def be_value_def by (induction bytes) simp_all

lemma fill_limbs_value:
  assumes "bytes \<noteq> []"
  obtains limbs where "fill_limbs bytes = Some limbs" "words_value limbs = be_value bytes" "length limbs = div_ceil (length bytes) 8"
proof -
  define count where "count = div_ceil (length bytes) 8"
  have c: "0 < count" "(count - 1) * 8 < length bytes" "length bytes \<le> count * 8"
    using assms by (cases bytes; simp add: count_def div_ceil_def; presburger)+
  define head where "head = length bytes - (count - 1) * 8"
  have head: "0 < head" "head \<le> 8" using c unfolding head_def by (cases count; simp)+
  let ?chunks = "chunks_exact 8 (drop head bytes)"
  have ch: "concat ?chunks = drop head bytes" "list_all (\<lambda>c. length c = 8) ?chunks" "length ?chunks = count - 1"
    using chunks_exact_concat [of "drop head bytes" "count - 1" 8] c by (simp_all add: head_def)
  have len: "length (take head bytes) = head" using c by (simp add: head_def)
  have w: "unat (be_word (take head bytes) :: 64 word) = be_value (take head bytes)" by (rule be_word_value) (use len head in simp)
  have m: "map unat (map be_word ?chunks :: 64 word list) = map (limbs_value 256) (map (map unat) ?chunks)"
    using ch(2) be_word_value [where 'a = 64] by (auto simp: list_all_iff be_value_def)
  have v: "words_value (be_word (take head bytes) # map be_word ?chunks) =
      be_value (take head bytes) * (256 ^ 8) ^ (count - 1) + limbs_value (256 ^ 8) (map (limbs_value 256) (map (map unat) ?chunks))"
    using w ch(3) unfolding words_value_def list.map(2) m by simp
  have "limbs_value (256 ^ 8) (map (limbs_value 256) (map (map unat) ?chunks)) = be_value (drop head bytes)"
    using limbs_value_concat [of 8 "map (map unat) ?chunks" 256] ch(1,2) by (simp add: be_value_def list_all_iff flip: map_concat)
  moreover have "be_value bytes = be_value (take head bytes) * 256 ^ length (drop head bytes) + be_value (drop head bytes)"
    using limbs_value_append [of 256 "map unat (take head bytes)" "map unat (drop head bytes)"]
    by (simp add: be_value_def flip: map_append)
  moreover have "length (drop head bytes) = 8 * (count - 1)" using c by (simp add: head_def)
  then have "(256 ^ 8) ^ (count - 1) = (256 :: nat) ^ length (drop head bytes)" by (simp only: power_mult)
  ultimately have "words_value (be_word (take head bytes) # map be_word ?chunks) = be_value bytes" using v by simp
  moreover have "fill_limbs bytes = Some (be_word (take head bytes) # map be_word ?chunks)"
    using c by (simp add: fill_limbs_def usize_sub_def Let_def head_def flip: count_def)
  ultimately show ?thesis using that ch(3) c(1) by (simp add: count_def)
qed

lemma digits_from_ending: "length s \<le> length buf \<Longrightarrow> digits_from (Some (ending buf (length buf) s)) = Some s"
  by (simp add: digits_from_def ending_def)

lemma dec_fits: "n < 10 ^ k \<Longrightarrow> 0 < k \<Longrightarrow> length (dec n) \<le> k"
  by (rule length_dec)

lemma format_stack_text:
  assumes "length bytes \<le> STACK_BYTES"
  shows "format_stack bytes = Some (dec (be_value bytes))"
proof -
  let ?buf = "replicate STACK_DIGITS (CHR 0x00)"
  have "be_value bytes < 256 ^ length bytes" by (rule be_value_bound)
  also have "\<dots> \<le> 256 ^ 32" using assms by (intro power_increasing) (simp_all add: STACK_BYTES_def)
  also have "\<dots> < (10 :: nat) ^ 78" by simp
  finally have fits: "length (dec (be_value bytes)) \<le> length ?buf" by (simp add: dec_fits STACK_DIGITS_def)
  show ?thesis
  proof (cases "length bytes \<le> 16")
    case True
    let ?v = "be_word bytes :: 128 word"
    have v: "unat ?v = be_value bytes" by (rule be_word_value) (use True in simp)
    have "write_u128 ?v ?buf = Some (ending ?buf (length ?buf) (dec (unat ?v)))"
    proof (cases "?v < chunk128")
      case True
      then have "unat (ucast ?v :: 64 word) = unat ?v" by (intro unat_narrow) (simp add: word_less_nat_alt CHUNK_def)
      then show ?thesis using True fits v write_u64_text [of "ucast ?v" "length ?buf" ?buf] by (simp add: write_u128_def)
    next
      case False
      then show ?thesis using fits v write_u128_rest_text [of ?v "length ?buf" ?buf] by (simp add: write_u128_def)
    qed
    then show ?thesis using True v digits_from_ending [OF fits] unfolding format_stack_def Let_def by (simp only: if_True)
  next
    case False
    then have "bytes \<noteq> []" by auto
    then obtain limbs where limbs: "fill_limbs bytes = Some limbs" "words_value limbs = be_value bytes" by (rule fill_limbs_value)
    have "write_limbs limbs ?buf (length ?buf) = Some (ending ?buf (length ?buf) (dec (be_value bytes)))"
      using write_limbs_text [of limbs "length ?buf" ?buf] fits limbs(2) by simp
    then show ?thesis using False limbs(1) digits_from_ending [OF fits] unfolding format_stack_def Let_def by (simp only: if_False bind.bind_lunit)
  qed
qed

lemma format_heap_text:
  assumes "bytes \<noteq> []"
  shows "format_heap bytes = Some (dec (be_value bytes))"
proof -
  obtain limbs where limbs: "fill_limbs bytes = Some limbs" "words_value limbs = be_value bytes" using assms by (rule fill_limbs_value)
  let ?buf = "replicate (length limbs * 20 + CHUNK_DIGITS) (CHR 0x00)"
  have "unat (l :: 64 word) < 2 ^ 64" for l using unsigned_less [of l] by simp
  then have "words_value limbs < (2 ^ 64) ^ length limbs"
    unfolding words_value_def using limbs_value_bound [of "2 ^ 64" "map unat limbs"] by (simp add: list_all_iff)
  also have "\<dots> \<le> (10 ^ 20) ^ length limbs" by (intro power_mono) simp_all
  also have "\<dots> = 10 ^ (length limbs * 20)" by (simp only: power_mult [symmetric] mult.commute)
  also have "\<dots> \<le> 10 ^ (length limbs * 20 + CHUNK_DIGITS)" by (intro power_increasing) simp_all
  finally have fits: "length (dec (be_value bytes)) \<le> length ?buf"
    using limbs(2) by (intro order_trans [OF dec_fits]) (auto simp: CHUNK_DIGITS_def)
  have "write_limbs limbs ?buf (length ?buf) = Some (ending ?buf (length ?buf) (dec (be_value bytes)))"
    using write_limbs_text [of limbs "length ?buf" ?buf] fits limbs(2) by simp
  then show ?thesis using limbs(1) digits_from_ending [OF fits] unfolding format_heap_def Let_def by (simp only: bind.bind_lunit)
qed

text \<open>
  C35. The decimal text of an amount is exact: for every byte string, of any length and
  with any leading zeros, the formatter returns the canonical decimal digits of the unsigned big-endian
  number the bytes denote. No division truncates, no cast loses bits, and no write leaves its buffer, so
  it never panics.
\<close>

theorem evm_decimal_exact: "append_decimal bytes = Some (dec (be_value bytes))"
proof -
  let ?t = "trim_leading_zeros bytes"
  have "format_heap ?t = Some (dec (be_value ?t))" if "STACK_BYTES < length ?t" using that by (intro format_heap_text) auto
  then show ?thesis using format_stack_text [of ?t] by (simp add: append_decimal_def Let_def be_value_trimmed not_le)
qed

end
