(* ===== verification/Hypercore_Decimal.thy ===== *)
theory Hypercore_Decimal
  imports Radix
begin

text \<open>
  Decimal amounts of HyperLiquid as exact \<open>decimal(38,10)\<close> values (\<open>blocks/src/hypercore/decimal.rs\<close>), and the
  parser of the reference job that has to accept the same strings (\<open>reference/src/values.rs\<close>). An
  \<open>i128\<close> is a 128-bit word whose products and sums wrap. Shown: the parsers accept exactly the texts whose
  value times \<open>10 ^ 10\<close> is an integer of at most 38 digits, and give that integer; the canonical text
  parses back, and every canonical text is printed back from its value.
\<close>

section \<open>Operations on text\<close>

definition split_once :: "char \<Rightarrow> string \<Rightarrow> (string \<times> string) option" where
  "split_once c s =
     (case dropWhile (\<lambda>x. x \<noteq> c) s of [] \<Rightarrow> None | _ # rest \<Rightarrow> Some (takeWhile (\<lambda>x. x \<noteq> c) s, rest))"

definition trim_start_zeros :: "string \<Rightarrow> string" where
  "trim_start_zeros s = dropWhile (\<lambda>c. c = CHR ''0'') s"

definition trim_end_zeros :: "string \<Rightarrow> string" where
  "trim_end_zeros s = rev (dropWhile (\<lambda>c. c = CHR ''0'') (rev s))"

definition digits :: "string \<Rightarrow> bool" where
  "digits part \<longleftrightarrow> part \<noteq> [] \<and> list_all is_ascii_digit part"

text \<open>The format \<open>{:010}\<close>.\<close>

definition padded :: "nat \<Rightarrow> nat \<Rightarrow> string" where
  "padded width n = replicate (width - length (dec n)) CHR ''0'' @ dec n"

section \<open>Parsing and printing\<close>

definition DECIMAL_PRECISION :: nat where
  "DECIMAL_PRECISION = 38"

definition DECIMAL_SCALE :: nat where
  "DECIMAL_SCALE = 10"

definition SCALE :: nat where
  "SCALE = DECIMAL_SCALE"

definition MAX_INTEGER_DIGITS :: nat where
  "MAX_INTEGER_DIGITS = DECIMAL_PRECISION - SCALE"

datatype decimal_error = Syntax | FractionalDigits | IntegerDigits

definition digit_i128 :: "char \<Rightarrow> 128 word" where
  "digit_i128 c = ucast ((of_nat (byte c) :: 8 word) - 48)"

text \<open>The two loops over the digits.\<close>

definition integer_value :: "string \<Rightarrow> 128 word" where
  "integer_value s = foldl (\<lambda>v c. v * 10 + digit_i128 c) 0 s"

definition scaled_value :: "string \<Rightarrow> string \<Rightarrow> 128 word" where
  "scaled_value integer fraction =
     foldl (\<lambda>v p. v * 10 + (if p < length fraction then digit_i128 (fraction ! p) else 0))
       (integer_value integer) [0..<SCALE]"

definition split_sign :: "string \<Rightarrow> bool \<times> string" where
  "split_sign s = (case strip_prefix ''-'' s of Some rest \<Rightarrow> (True, rest) | None \<Rightarrow> (False, s))"

definition split_point :: "string \<Rightarrow> string \<times> string option" where
  "split_point s =
     (case split_once CHR ''.'' s of Some (integer, fraction) \<Rightarrow> (integer, Some fraction) | None \<Rightarrow> (s, None))"

definition parse :: "string \<Rightarrow> decimal_error + 128 word" where
  "parse s =
     (let (negative, unsigned) = split_sign s;
          (integer, fraction) = split_point unsigned in
      if \<not> digits integer \<or> \<not> (case fraction of None \<Rightarrow> True | Some f \<Rightarrow> digits f) then Inl Syntax
      else
        let fraction = trim_end_zeros (case fraction of None \<Rightarrow> [] | Some f \<Rightarrow> f) in
        if SCALE < length fraction then Inl FractionalDigits
        else
          let integer = trim_start_zeros integer in
          if MAX_INTEGER_DIGITS < length integer then Inl IntegerDigits
          else
            let v = scaled_value integer fraction in
            Inr (if negative then - v else v))"

definition unsigned_abs :: "128 word \<Rightarrow> 128 word" where
  "unsigned_abs v = (if sint v < 0 then - v else v)"

definition canonical_text :: "128 word \<Rightarrow> string" where
  "canonical_text v =
     (let scale = 10 ^ SCALE;
          magnitude = unsigned_abs v;
          integer = magnitude div scale;
          fraction = trim_end_zeros (padded 10 (unat (magnitude mod scale))) in
      (if sint v < 0 then ''-'' else []) @ dec (unat integer) @ ''.'' @ (if fraction = [] then ''0'' else fraction))"

text \<open>The parser of the reference job.\<close>

definition decimal_text :: "string \<Rightarrow> 128 word option" where
  "decimal_text s =
     (let (negative, unsigned) = split_sign s;
          (integer, fraction) = split_point unsigned in
      if \<not> digits integer \<or> \<not> (case fraction of None \<Rightarrow> True | Some f \<Rightarrow> digits f) then None
      else
        let fraction = trim_end_zeros (case fraction of None \<Rightarrow> [] | Some f \<Rightarrow> f);
            integer = trim_start_zeros integer in
        if SCALE < length fraction \<or> MAX_INTEGER_DIGITS < length integer then None
        else
          let v = scaled_value integer fraction in
          Some (if negative then - v else v))"

section \<open>Reference: what a decimal text denotes\<close>

text \<open>
  A text \<open>-?[0-9]+(\.[0-9]+)?\<close> with integer digits \<open>i\<close> and fractional digits \<open>f\<close> denotes the digits \<open>i @ f\<close>
  divided by \<open>10 ^ length f\<close>.
\<close>

definition decimal_form :: "bool \<Rightarrow> string \<Rightarrow> string \<Rightarrow> string \<Rightarrow> bool" where
  "decimal_form negative i f s \<longleftrightarrow>
     digits i \<and> list_all is_ascii_digit f \<and>
     s = (if negative then ''-'' else []) @ i @ (if f = [] then [] else ''.'' @ f)"

definition with_sign :: "bool \<Rightarrow> nat \<Rightarrow> int" where
  "with_sign negative n = (if negative then - int n else int n)"

definition denotes :: "string \<Rightarrow> int \<Rightarrow> bool" where
  "denotes s v \<longleftrightarrow>
     (\<exists>negative i f. decimal_form negative i f s \<and> v * 10 ^ length f = with_sign negative (dec_value (i @ f)) * 10 ^ 10)"

definition fits_decimal :: "int \<Rightarrow> bool" where
  "fits_decimal v \<longleftrightarrow> \<bar>v\<bar> < 10 ^ 38"

section \<open>Digit strings\<close>

lemma dec_value_limbs: "dec_value s = limbs_value 10 (map digit_value s)"
proof -
  have "foldl (\<lambda>acc c. acc * 10 + digit_value c) n s = n * 10 ^ length s + limbs_value 10 (map digit_value s)" for n
    by (induction s arbitrary: n) (simp_all add: algebra_simps)
  then show ?thesis by (simp add: dec_value_def)
qed

lemma dec_value_Nil: "dec_value [] = 0"
  by (simp add: dec_value_def)

lemma dec_value_app: "dec_value (s @ t) = dec_value s * 10 ^ length t + dec_value t"
  by (simp add: dec_value_limbs limbs_value_append)

lemma digit_value_zero: "digit_value CHR ''0'' = 0"
  by (simp add: digit_value_def byte_def)

lemma dec_value_0: "dec_value ''0'' = 0"
  by (simp add: dec_value_def digit_value_zero)

lemma zero_digit: "is_ascii_digit c \<Longrightarrow> digit_value c = 0 \<longleftrightarrow> c = CHR ''0''"
  using digit_digit_value [of c] by (auto simp: digit_value_zero digit_def char_of_def bit_0)

lemma dec_value_replicate [simp]: "dec_value (replicate n CHR ''0'') = 0"
  by (induction n) (simp_all add: dec_value_limbs digit_value_zero)

lemma dec_value_bound: "list_all is_ascii_digit s \<Longrightarrow> dec_value s < 10 ^ length s"
  using limbs_value_bound [of 10 "map digit_value s"] by (auto simp: dec_value_limbs list_all_iff digit_value_less)

lemma dec_value_trim: "dec_value (trim_start_zeros s) = dec_value s"
  by (induction s) (simp_all add: trim_start_zeros_def dec_value_limbs digit_value_zero)

lemma trim_start_shape: "trim_start_zeros s = [] \<or> hd (trim_start_zeros s) \<noteq> CHR ''0''"
  using hd_dropWhile [of "\<lambda>c. c = CHR ''0''" s] by (auto simp: trim_start_zeros_def)

lemma trim_start_digits: "list_all is_ascii_digit s \<Longrightarrow> list_all is_ascii_digit (trim_start_zeros s)"
  by (auto simp: trim_start_zeros_def list_all_iff dest: set_dropWhileD)

lemma trim_end_split: "\<exists>k. s = trim_end_zeros s @ replicate k CHR ''0''"
proof -
  have "rev s = takeWhile (\<lambda>c. c = CHR ''0'') (rev s) @ dropWhile (\<lambda>c. c = CHR ''0'') (rev s)" by simp
  then have "s = trim_end_zeros s @ rev (takeWhile (\<lambda>c. c = CHR ''0'') (rev s))"
    by (metis rev_append rev_rev_ident trim_end_zeros_def)
  moreover have "takeWhile (\<lambda>c. c = CHR ''0'') (rev s) = replicate (length (takeWhile (\<lambda>c. c = CHR ''0'') (rev s))) CHR ''0''"
    by (rule replicate_length_same [symmetric]) (auto dest: set_takeWhileD)
  ultimately show ?thesis by (metis rev_replicate)
qed

lemma trim_end_shape: "trim_end_zeros s = [] \<or> last (trim_end_zeros s) \<noteq> CHR ''0''"
  using hd_dropWhile [of "\<lambda>c. c = CHR ''0''" "rev s"] by (auto simp: trim_end_zeros_def last_rev)

lemma trim_end_append:
  assumes "t = [] \<or> last t \<noteq> CHR ''0''"
  shows "trim_end_zeros (t @ replicate k CHR ''0'') = t"
proof -
  have "dropWhile (\<lambda>c. c = CHR ''0'') (replicate k CHR ''0'' @ rev t) = dropWhile (\<lambda>c. c = CHR ''0'') (rev t)"
    by (induction k) simp_all
  also have "\<dots> = rev t" using assms by (cases t rule: rev_cases) simp_all
  finally show ?thesis by (simp add: trim_end_zeros_def)
qed

lemma last_digit_nonzero:
  assumes "t \<noteq> []" "last t \<noteq> CHR ''0''" "list_all is_ascii_digit t"
  shows "\<not> 10 dvd dec_value t"
proof -
  obtain u c where t: "t = u @ [c]" using assms(1) by (cases t rule: rev_cases) auto
  then have "0 < digit_value c" "digit_value c < 10"
    using assms zero_digit [of c] digit_value_less [of c] by auto
  then have "dec_value t mod 10 = digit_value c" by (simp add: t)
  then show ?thesis using \<open>0 < digit_value c\<close> by (simp add: dvd_eq_mod_eq_0)
qed

lemma first_digit_nonzero:
  assumes "t \<noteq> []" "hd t \<noteq> CHR ''0''" "list_all is_ascii_digit t"
  shows "10 ^ (length t - 1) \<le> dec_value t"
proof -
  obtain c u where t: "t = c # u" using assms(1) by (cases t) auto
  then have "1 \<le> digit_value c" using assms zero_digit [of c] by auto
  then have "1 * 10 ^ length u \<le> digit_value c * 10 ^ length u" by (rule mult_right_mono) simp
  then show ?thesis by (simp add: t dec_value_limbs trans_le_add1)
qed

lemma digits_eqI:
  assumes "length s = length t" "list_all is_ascii_digit s" "list_all is_ascii_digit t" "dec_value s = dec_value t"
  shows "s = t"
  using assms
proof (induction s arbitrary: t rule: rev_induct)
  case (snoc x xs)
  then obtain y ys where t: "t = ys @ [y]" by (cases t rule: rev_cases) auto
  have d: "digit_value x < 10" "digit_value y < 10" using snoc.prems t by (auto intro: digit_value_less)
  have e: "dec_value xs * 10 + digit_value x = dec_value ys * 10 + digit_value y" using snoc.prems(4) t by simp
  then have v: "digit_value x = digit_value y" "dec_value xs = dec_value ys" using d by presburger+
  have "is_ascii_digit x" "is_ascii_digit y" using snoc.prems t by simp_all
  then have "x = y" using v(1) digit_digit_value by metis
  then show ?case using snoc.IH [of ys] snoc.prems v(2) t by simp
qed simp

section \<open>The loops do not overflow\<close>

lemma unat_digit: "is_ascii_digit c \<Longrightarrow> unat (digit_i128 c) = digit_value c"
proof -
  assume c: "is_ascii_digit c"
  then have "(of_nat (byte c) :: 8 word) - 48 = of_nat (digit_value c)"
    by (simp add: is_ascii_digit_def digit_value_def)
  then show ?thesis using digit_value_less [OF c] by (simp add: digit_i128_def unsigned_ucast_eq unat_of_nat take_bit_nat_eq_self)
qed

lemma unat_step:
  assumes "unat (v :: 128 word) * 10 + unat d < 2 ^ 128"
  shows "unat (v * 10 + d) = unat v * 10 + unat d"
  using assms by (simp add: unat_word_ariths)

lemma foldl_digits:
  assumes "list_all is_ascii_digit s" "unat v * 10 ^ length s + dec_value s < 2 ^ 128"
  shows "unat (foldl (\<lambda>v c. v * 10 + digit_i128 c) v s) = unat v * 10 ^ length s + dec_value s"
  using assms
proof (induction s rule: rev_induct)
  case (snoc c s)
  let ?w = "foldl (\<lambda>v c. v * 10 + digit_i128 c) v s"
  have b: "(unat v * 10 ^ length s + dec_value s) * 10 + digit_value c < 2 ^ 128"
    using snoc.prems(2) by (simp add: algebra_simps)
  then have w: "unat ?w = unat v * 10 ^ length s + dec_value s" using snoc by simp
  then show ?case using unat_step [of ?w "digit_i128 c"] b snoc.prems(1) by (simp add: unat_digit algebra_simps)
qed (simp add: dec_value_def)

text \<open>The second loop reads the fraction padded with zeros.\<close>

lemma scaled_as_digits:
  assumes "length f \<le> SCALE"
  shows "scaled_value i f = foldl (\<lambda>v c. v * 10 + digit_i128 c) 0 (i @ f @ replicate (SCALE - length f) CHR ''0'')"
proof -
  let ?t = "f @ replicate (SCALE - length f) CHR ''0''"
  have z: "digit_i128 CHR ''0'' = 0" by (simp add: digit_i128_def byte_def)
  have "map (\<lambda>p. if p < length f then digit_i128 (f ! p) else 0) [0..<SCALE] = map digit_i128 ?t"
    using assms by (intro nth_equalityI) (auto simp: nth_append z)
  then have "foldl (\<lambda>v d. v * 10 + d) (integer_value i) (map (\<lambda>p. if p < length f then digit_i128 (f ! p) else 0) [0..<SCALE]) =
      foldl (\<lambda>v d. v * 10 + d) (integer_value i) (map digit_i128 ?t)" by simp
  then show ?thesis by (simp add: scaled_value_def foldl_map integer_value_def del: map_replicate map_append)
qed

lemma scaled_exact:
  assumes "list_all is_ascii_digit i" "list_all is_ascii_digit f" "length i \<le> 28" "length f \<le> 10"
  shows "unat (scaled_value i f) = dec_value i * 10 ^ 10 + dec_value f * 10 ^ (10 - length f)"
    and "unat (scaled_value i f) < 10 ^ 38"
proof -
  let ?s = "i @ f @ replicate (10 - length f) CHR ''0''"
  have d: "list_all is_ascii_digit ?s" using assms by (auto simp: list_all_iff is_ascii_digit_def byte_def)
  have "length ?s \<le> 38" using assms by simp
  then have "(10 :: nat) ^ length ?s \<le> 10 ^ 38" by (rule power_increasing) simp
  then have b: "dec_value ?s < 10 ^ 38" using dec_value_bound [OF d] by linarith
  have u: "unat (scaled_value i f) = dec_value ?s"
    using foldl_digits [OF d, of 0] b assms(4) by (simp add: scaled_as_digits SCALE_def DECIMAL_SCALE_def)
  then show "unat (scaled_value i f) < 10 ^ 38" using b by simp
  show "unat (scaled_value i f) = dec_value i * 10 ^ 10 + dec_value f * 10 ^ (10 - length f)"
    using u assms(4) by (simp add: dec_value_app)
qed

lemma sint_signed:
  assumes "unat (v :: 128 word) < 10 ^ 38"
  shows "sint (if negative then - v else v) = with_sign negative (unat v)"
proof -
  have self: "signed_take_bit 127 k = k" if "\<bar>k\<bar> < 10 ^ 38" for k :: int
    using that by (intro signed_take_bit_int_eq_self) simp_all
  have e: "uint v = int (unat v)" by simp
  have "int (unat v) < int (10 ^ 38)" using assms by (simp only: of_nat_less_iff)
  then have u: "\<bar>uint v\<bar> < 10 ^ 38" unfolding e by simp
  then have i: "sint v = int (unat v)" using self [of "uint v"] by (simp add: sint_uint)
  have "sint (- v) = - int (unat v)" using self [of "- uint v"] u i by (simp add: sint_word_minus)
  then show ?thesis using i by (simp add: with_sign_def)
qed

section \<open>What the parser accepts\<close>

lemma split_once_first:
  assumes "c \<notin> set s"
  shows "split_once c (s @ c # t) = Some (s, t)" and "split_once c s = None"
proof -
  have "\<And>x. x \<in> set s \<Longrightarrow> x \<noteq> c" using assms by auto
  then have "dropWhile (\<lambda>x. x \<noteq> c) (s @ c # t) = c # t" "takeWhile (\<lambda>x. x \<noteq> c) (s @ c # t) = s" "dropWhile (\<lambda>x. x \<noteq> c) s = []"
    by (simp_all add: dropWhile_append2 takeWhile_append2)
  then show "split_once c (s @ c # t) = Some (s, t)" "split_once c s = None" by (simp_all only: split_once_def list.case)
qed

lemma split_once_sound:
  assumes "split_once c s = Some (a, b)"
  shows "s = a @ c # b"
proof -
  obtain x where d: "dropWhile (\<lambda>x. x \<noteq> c) s = x # b" "a = takeWhile (\<lambda>x. x \<noteq> c) s"
    using assms by (auto simp: split_once_def split: list.splits)
  then have "x = c" using hd_dropWhile [of "\<lambda>x. x \<noteq> c" s] by simp
  then show ?thesis using takeWhile_dropWhile_id [of "\<lambda>x. x \<noteq> c" s] d by simp
qed

lemma digits_no_point: "list_all is_ascii_digit s \<Longrightarrow> CHR ''.'' \<notin> set s" "list_all is_ascii_digit s \<Longrightarrow> CHR ''-'' \<notin> set s"
  by (auto simp: list_all_iff is_ascii_digit_def byte_def)

lemma form_split:
  assumes "decimal_form n i f s"
  shows "split_sign s = (n, i @ (if f = [] then [] else ''.'' @ f))"
    and "split_point (i @ (if f = [] then [] else ''.'' @ f)) = (i, if f = [] then None else Some f)"
proof -
  have i: "digits i" "CHR ''.'' \<notin> set i" "CHR ''-'' \<notin> set i"
    using assms digits_no_point [of i] by (auto simp: decimal_form_def digits_def)
  have s: "s = (if n then ''-'' else []) @ i @ (if f = [] then [] else ''.'' @ f)" using assms by (simp add: decimal_form_def)
  show "split_sign s = (n, i @ (if f = [] then [] else ''.'' @ f))"
    using i by (cases i) (auto simp: split_sign_def s digits_def split: option.splits)
  show "split_point (i @ (if f = [] then [] else ''.'' @ f)) = (i, if f = [] then None else Some f)"
    using split_once_first [OF i(2)] by (simp add: split_point_def)
qed

lemma split_form:
  assumes "split_sign s = (n, u)" "split_point u = (i, g)" "digits i" "case g of None \<Rightarrow> True | Some f \<Rightarrow> digits f"
  shows "decimal_form n i (case g of None \<Rightarrow> [] | Some f \<Rightarrow> f) s"
proof -
  have s: "s = (if n then ''-'' else []) @ u" using assms(1) by (auto simp: split_sign_def split: option.splits)
  have "u = i @ (case g of None \<Rightarrow> [] | Some f \<Rightarrow> ''.'' @ f)"
    using assms(2) split_once_sound [of "CHR ''.''" u] by (auto simp: split_point_def split: option.splits prod.splits)
  then show ?thesis using assms(3,4) s by (auto simp: decimal_form_def digits_def split: option.splits)
qed

lemma form_unique: "decimal_form n i f s \<Longrightarrow> decimal_form n' i' f' s \<Longrightarrow> n = n' \<and> i = i' \<and> f = f'"
  using form_split [of n i f s] form_split [of n' i' f' s] by (auto split: if_splits)

lemma parse_syntax: "parse s = Inl Syntax \<longleftrightarrow> (\<nexists>n i f. decimal_form n i f s)"
proof -
  obtain n u where su: "split_sign s = (n, u)" by force
  obtain i g where sp: "split_point u = (i, g)" by force
  show ?thesis
  proof (cases "digits i \<and> (case g of None \<Rightarrow> True | Some f \<Rightarrow> digits f)")
    case True
    then show ?thesis using split_form [OF su sp] by (auto simp: parse_def su sp Let_def)
  next
    case False
    have "\<not> decimal_form n' i' f' s" for n' i' f'
    proof
      assume form: "decimal_form n' i' f' s"
      then have "digits i' \<and> (f' \<noteq> [] \<longrightarrow> digits f')" by (auto simp: decimal_form_def digits_def)
      then show False using False form_split [OF form] su sp by (auto split: if_splits)
    qed
    then show ?thesis using False by (auto simp: parse_def su sp)
  qed
qed

lemma form_digits: "decimal_form n i f s \<Longrightarrow> digits i \<and> (case if f = [] then None else Some f of None \<Rightarrow> True | Some f \<Rightarrow> digits f)"
  by (auto simp: decimal_form_def digits_def)

lemma parse_form:
  assumes "decimal_form n i f s"
  shows "parse s =
    (if 10 < length (trim_end_zeros f) then Inl FractionalDigits
     else if 28 < length (trim_start_zeros i) then Inl IntegerDigits
     else let v = scaled_value (trim_start_zeros i) (trim_end_zeros f) in Inr (if n then - v else v))"
  using form_split [OF assms] form_digits [OF assms]
  by (simp add: parse_def SCALE_def DECIMAL_SCALE_def MAX_INTEGER_DIGITS_def DECIMAL_PRECISION_def)

text \<open>At most ten digits after the point remain exactly when the scaled value is an integer.\<close>

lemma scaled_iff:
  assumes "list_all is_ascii_digit i" "list_all is_ascii_digit f"
  defines "f' \<equiv> trim_end_zeros f"
  shows "length f' \<le> 10 \<and> m = dec_value i * 10 ^ 10 + dec_value f' * 10 ^ (10 - length f') \<longleftrightarrow>
    m * 10 ^ length f = dec_value (i @ f) * 10 ^ 10"
proof -
  obtain k where k: "f = f' @ replicate k CHR ''0''" using trim_end_split [of f] by (auto simp: f'_def)
  have df: "list_all is_ascii_digit f'" using assms(2) k by (metis list_all_append)
  have eq: "m * 10 ^ length f = dec_value (i @ f) * 10 ^ 10 \<longleftrightarrow>
      m * 10 ^ length f' = (dec_value i * 10 ^ length f' + dec_value f') * 10 ^ 10"
  proof -
    have "m * 10 ^ length f = (m * 10 ^ length f') * 10 ^ k" using k by (simp add: power_add algebra_simps)
    moreover have "dec_value (i @ f) * 10 ^ 10 = ((dec_value i * 10 ^ length f' + dec_value f') * 10 ^ 10) * 10 ^ k"
      by (subst k) (simp add: dec_value_app power_add algebra_simps)
    ultimately show ?thesis by (metis mult_cancel2 power_not_zero zero_neq_numeral)
  qed
  have short: "length f' \<le> 10" if e: "m * 10 ^ length f' = (dec_value i * 10 ^ length f' + dec_value f') * 10 ^ 10"
  proof (rule ccontr)
    assume "\<not> length f' \<le> 10"
    then obtain j where j: "length f' = 10 + Suc j" by (metis add_Suc_right less_imp_Suc_add not_le_imp_less)
    then have "m * 10 ^ Suc j * 10 ^ 10 = (dec_value i * 10 ^ length f' + dec_value f') * 10 ^ 10"
      using e by (simp add: power_add algebra_simps)
    then have "m * 10 ^ Suc j = dec_value i * 10 ^ length f' + dec_value f'" by simp
    moreover have "10 dvd m * 10 ^ Suc j" "10 dvd dec_value i * 10 ^ length f'" using j by simp_all
    ultimately have "10 dvd dec_value f'" by (metis dvd_add_right_iff)
    moreover have "f' \<noteq> []" using j by auto
    ultimately show False using last_digit_nonzero [of f'] df trim_end_shape [of f] by (simp add: f'_def)
  qed
  have "m = dec_value i * 10 ^ 10 + dec_value f' * 10 ^ (10 - length f') \<longleftrightarrow>
      m * 10 ^ length f' = (dec_value i * 10 ^ length f' + dec_value f') * 10 ^ 10" if "length f' \<le> 10"
  proof -
    have "(10 :: nat) ^ 10 = 10 ^ (10 - length f') * 10 ^ length f'" using that by (simp flip: power_add)
    then have "(dec_value i * 10 ^ length f' + dec_value f') * 10 ^ 10 =
        (dec_value i * 10 ^ 10 + dec_value f' * 10 ^ (10 - length f')) * 10 ^ length f'" by (simp add: algebra_simps)
    then show ?thesis by simp
  qed
  then show ?thesis using eq short by blast
qed

text \<open>At most 28 digits before the point remain exactly when it has at most 38 digits.\<close>

lemma integer_digits_iff:
  assumes "list_all is_ascii_digit i" "list_all is_ascii_digit f" "length f \<le> 10"
  defines "i' \<equiv> trim_start_zeros i"
  shows "length i' \<le> 28 \<longleftrightarrow> dec_value i * 10 ^ 10 + dec_value f * 10 ^ (10 - length f) < 10 ^ 38"
proof (cases "length i' \<le> 28")
  case True
  have "list_all is_ascii_digit i'" using assms(1) by (simp add: i'_def trim_start_digits)
  then have "dec_value i' * 10 ^ 10 + dec_value f * 10 ^ (10 - length f) < 10 ^ 38"
    using scaled_exact [of i' f] assms(2,3) True by metis
  then show ?thesis using True by (simp add: i'_def dec_value_trim)
next
  case False
  then have "28 \<le> length i' - 1" "i' \<noteq> []" by auto
  then have "(10 :: nat) ^ 28 \<le> 10 ^ (length i' - 1)" by (intro power_increasing) simp_all
  moreover have "10 ^ (length i' - 1) \<le> dec_value i'"
    using first_digit_nonzero [of i'] \<open>i' \<noteq> []\<close> trim_start_shape [of i] trim_start_digits [OF assms(1)] by (simp add: i'_def)
  ultimately have "10 ^ 28 \<le> dec_value i" by (simp add: i'_def dec_value_trim)
  then show ?thesis using False by simp
qed

lemma signed_times:
  "v * 10 ^ k = with_sign n d * 10 ^ l \<longleftrightarrow> (\<exists>m. v = with_sign n m \<and> m * 10 ^ k = d * 10 ^ l)"
proof
  assume e: "v * 10 ^ k = with_sign n d * 10 ^ l"
  then have "\<bar>v\<bar> * 10 ^ k = \<bar>with_sign n d\<bar> * 10 ^ l" by (metis abs_mult abs_power_minus power_abs abs_numeral)
  then have "int (nat \<bar>v\<bar> * 10 ^ k) = int (d * 10 ^ l)" by (simp add: with_sign_def split: if_splits)
  then have "nat \<bar>v\<bar> * 10 ^ k = d * 10 ^ l" by (simp only: of_nat_eq_iff)
  moreover have "v = with_sign n (nat \<bar>v\<bar>)"
  proof (cases n)
    case True
    then have "v * 10 ^ k \<le> 0" using e by (simp add: with_sign_def)
    then have "v \<le> 0" by (metis mult_le_0_iff not_less zero_less_numeral zero_less_power)
    then show ?thesis using True by (simp add: with_sign_def)
  next
    case False
    then have "0 \<le> v * 10 ^ k" using e by (simp add: with_sign_def)
    then have "0 \<le> v" by (metis zero_le_mult_iff not_less zero_less_numeral zero_less_power)
    then show ?thesis using False by (simp add: with_sign_def)
  qed
  ultimately show "\<exists>m. v = with_sign n m \<and> m * 10 ^ k = d * 10 ^ l" by blast
next
  assume "\<exists>m. v = with_sign n m \<and> m * 10 ^ k = d * 10 ^ l"
  then obtain m where m: "v = with_sign n m" "m * 10 ^ k = d * 10 ^ l" by blast
  then have "int m * 10 ^ k = int d * 10 ^ l" by (metis of_nat_mult of_nat_numeral of_nat_power)
  then show "v * 10 ^ k = with_sign n d * 10 ^ l" using m(1) by (simp add: with_sign_def)
qed

lemma denotes_form:
  assumes form: "decimal_form n i f s"
  defines "f' \<equiv> trim_end_zeros f"
  shows "denotes s v \<longleftrightarrow>
    length f' \<le> 10 \<and> v = with_sign n (dec_value i * 10 ^ 10 + dec_value f' * 10 ^ (10 - length f'))"
proof -
  have "denotes s v \<longleftrightarrow> v * 10 ^ length f = with_sign n (dec_value (i @ f)) * 10 ^ 10"
    (is "_ = ?eq")
  proof
    assume "denotes s v"
    then obtain n' i' g where "decimal_form n' i' g s" "v * 10 ^ length g = with_sign n' (dec_value (i' @ g)) * 10 ^ 10"
      unfolding denotes_def by blast
    then show ?eq using form_unique [OF form] by simp
  qed (use form in \<open>auto simp only: denotes_def\<close>)
  also have "\<dots> \<longleftrightarrow> (\<exists>m. v = with_sign n m \<and> m * 10 ^ length f = dec_value (i @ f) * 10 ^ 10)" by (rule signed_times)
  also have "\<dots> \<longleftrightarrow> (\<exists>m. v = with_sign n m \<and> length f' \<le> 10 \<and> m = dec_value i * 10 ^ 10 + dec_value f' * 10 ^ (10 - length f'))"
    using scaled_iff [of i f] form unfolding f'_def decimal_form_def digits_def by metis
  finally show ?thesis by blast
qed

lemma fits_signed: "fits_decimal (with_sign n m) \<longleftrightarrow> m < 10 ^ 38"
proof -
  have "fits_decimal (with_sign n m) \<longleftrightarrow> int m < int (10 ^ 38)" by (simp add: fits_decimal_def with_sign_def)
  then show ?thesis by (simp only: of_nat_less_iff)
qed

section \<open>Properties\<close>

lemma parse_value:
  assumes form: "decimal_form n i f s" and short: "length (trim_end_zeros f) \<le> 10" "length (trim_start_zeros i) \<le> 28"
  defines "m \<equiv> dec_value i * 10 ^ 10 + dec_value (trim_end_zeros f) * 10 ^ (10 - length (trim_end_zeros f))"
  shows "\<exists>w. parse s = Inr w \<and> sint w = with_sign n m \<and> m < 10 ^ 38"
proof -
  let ?i = "trim_start_zeros i" and ?f = "trim_end_zeros f" let ?v = "scaled_value ?i ?f"
  have d: "list_all is_ascii_digit i" "list_all is_ascii_digit f" using form by (simp_all add: decimal_form_def digits_def)
  have df: "list_all is_ascii_digit ?f" using d(2) trim_end_split [of f] by (metis list_all_append)
  have "unat ?v = m" "unat ?v < 10 ^ 38"
    using scaled_exact [OF trim_start_digits [OF d(1)] df short(2,1)] by (simp_all add: m_def dec_value_trim)
  then show ?thesis using sint_signed [of ?v n] parse_form [OF form] short by (simp add: Let_def)
qed

lemma sint_inj:
  assumes "sint (v :: 128 word) = sint w"
  shows "v = w"
proof -
  have "word_of_int (sint v) = v" "word_of_int (sint w) = w" by simp_all
  then show ?thesis using assms by metis
qed

lemma parse_cases:
  shows "parse s = Inr v \<longleftrightarrow> denotes s (sint v) \<and> fits_decimal (sint v)" (is ?ok)
    and "parse s = Inl FractionalDigits \<longleftrightarrow> (\<exists>n i f. decimal_form n i f s) \<and> (\<nexists>x. denotes s x)" (is ?fraction)
    and "parse s = Inl IntegerDigits \<longleftrightarrow> (\<exists>x. denotes s x \<and> \<not> fits_decimal x)" (is ?integer)
proof -
  have "?ok \<and> ?fraction \<and> ?integer"
  proof (cases "\<exists>n i f. decimal_form n i f s")
    case False
    then have "parse s = Inl Syntax" "\<nexists>x. denotes s x" by (simp_all add: parse_syntax denotes_def)
    then show ?thesis using False by simp
  next
    case True
    then obtain n i f where form: "decimal_form n i f s" by blast
    define m where "m = dec_value i * 10 ^ 10 + dec_value (trim_end_zeros f) * 10 ^ (10 - length (trim_end_zeros f))"
    have d: "list_all is_ascii_digit i" "list_all is_ascii_digit f" using form by (simp_all add: decimal_form_def digits_def)
    have df: "list_all is_ascii_digit (trim_end_zeros f)" using d(2) trim_end_split [of f] by (metis list_all_append)
    have den: "denotes s x \<longleftrightarrow> length (trim_end_zeros f) \<le> 10 \<and> x = with_sign n m" for x
      unfolding m_def by (rule denotes_form [OF form])
    have fit: "length (trim_end_zeros f) \<le> 10 \<Longrightarrow> length (trim_start_zeros i) \<le> 28 \<longleftrightarrow> fits_decimal (with_sign n m)"
      unfolding fits_signed m_def by (rule integer_digits_iff [OF d(1) df])
    consider "\<not> length (trim_end_zeros f) \<le> 10"
      | "length (trim_end_zeros f) \<le> 10" "\<not> length (trim_start_zeros i) \<le> 28"
      | "length (trim_end_zeros f) \<le> 10" "length (trim_start_zeros i) \<le> 28" by blast
    then show ?thesis
    proof cases
      case 3
      then obtain w where "parse s = Inr w" "sint w = with_sign n m" using parse_value [OF form 3] by (auto simp: m_def)
      then show ?thesis using 3 den fit True sint_inj [of w v] by auto
    qed (use parse_form [OF form] den fit True in auto)
  qed
  then show ?ok ?fraction ?integer by blast+
qed

lemma decimal_text_parse: "decimal_text s = (case parse s of Inl _ \<Rightarrow> None | Inr v \<Rightarrow> Some v)"
  by (auto simp: decimal_text_def parse_def Let_def split: prod.splits)

text \<open>
  The canonical texts: no leading zero before another integer digit, no trailing zero after another
  fractional digit, both parts present and no negative zero.
\<close>

definition canonical :: "string \<Rightarrow> bool" where
  "canonical s \<longleftrightarrow> (\<exists>n i f. decimal_form n i f s \<and> (i = ''0'' \<or> hd i \<noteq> CHR ''0'') \<and>
     (f = ''0'' \<or> f \<noteq> [] \<and> last f \<noteq> CHR ''0'') \<and> (n \<longrightarrow> dec_value (i @ f) \<noteq> 0))"

lemma padded_value: "dec_value (padded k n) = n"
  by (simp add: padded_def dec_value_app)

lemma padded_digits: "list_all is_ascii_digit (padded k n)"
  using dec_digits by (auto simp: padded_def list_all_iff is_ascii_digit_def byte_def)

lemma length_padded: "n < 10 ^ k \<Longrightarrow> 0 < k \<Longrightarrow> length (padded k n) = k"
  using length_dec [of n k] by (simp add: padded_def)

lemma dec_canonical: "digits i \<Longrightarrow> i = ''0'' \<or> hd i \<noteq> CHR ''0'' \<Longrightarrow> dec (dec_value i) = i"
proof (induction i rule: rev_induct)
  case (snoc c i)
  have c: "is_ascii_digit c" "list_all is_ascii_digit i" using snoc.prems(1) by (simp_all add: digits_def)
  show ?case
  proof (cases "i = []")
    case True
    then show ?thesis using c digit_value_less [of c] digit_digit_value [of c]
      by (simp add: dec.simps [of "digit_value c"] dec_value_def)
  next
    case False
    then have i: "digits i" "hd i \<noteq> CHR ''0''" using c snoc.prems(2) by (auto simp: digits_def)
    have "10 ^ (length i - 1) \<le> dec_value i" using first_digit_nonzero [OF False i(2) c(2)] .
    then have "0 < dec_value i" by (metis gr0I le_zero_eq power_not_zero zero_neq_numeral)
    then show ?thesis using snoc.IH i c digit_value_less [of c] digit_digit_value [of c]
      by (simp add: dec.simps [of "dec_value i * 10 + digit_value c"])
  qed
qed (simp add: digits_def)

lemma abs_value:
  assumes "fits_decimal (sint v)"
  shows "int (unat (unsigned_abs v)) = \<bar>sint v\<bar>"
proof -
  have u: "uint (word_of_int x :: 128 word) = x" if "0 \<le> x" "x < 10 ^ 38" for x :: int
    using that by (simp add: uint_word_of_int_eq take_bit_int_eq_self)
  have s: "word_of_int (sint v) = v" "word_of_int (- sint v) = - v" by simp_all
  have b: "\<bar>sint v\<bar> < 10 ^ 38" using assms by (simp add: fits_decimal_def)
  show ?thesis
  proof (cases "sint v < 0")
    case True
    then have "uint (- v) = - sint v" using u [of "- sint v"] b s(2) by simp
    then show ?thesis using True by (simp add: unsigned_abs_def)
  next
    case False
    then have "uint v = sint v" using u [of "sint v"] b s(1) by simp
    then show ?thesis using False by (simp add: unsigned_abs_def)
  qed
qed

text \<open>The text of a value with magnitude \<open>m\<close>.\<close>

definition text_of :: "bool \<Rightarrow> nat \<Rightarrow> string" where
  "text_of n m =
     (let t = trim_end_zeros (padded 10 (m mod 10 ^ 10)) in
      (if n then ''-'' else []) @ dec (m div 10 ^ 10) @ ''.'' @ (if t = [] then ''0'' else t))"

lemma canonical_text_of: "canonical_text v = text_of (sint v < 0) (unat (unsigned_abs v))"
  by (simp add: canonical_text_def text_of_def SCALE_def DECIMAL_SCALE_def unat_div unat_mod Let_def)

lemma dec_hd: "dec n = ''0'' \<or> hd (dec n) \<noteq> CHR ''0''"
proof (induction n rule: dec.induct)
  case (1 n)
  show ?case
  proof (cases "n < 10")
    case True
    have "digit n \<noteq> CHR ''0'' \<or> n = 0" using digit_value_digit [OF True] digit_value_zero by force
    then show ?thesis using True by (auto simp: dec.simps [of n] digit_def char_of_def bit_0)
  next
    case False
    have "dec (n div 10) \<noteq> ''0''" using False dec_value_dec [of "n div 10"] by (auto simp: dec_value_limbs digit_value_zero)
    then show ?thesis using 1 False by (simp add: dec.simps [of n])
  qed
qed

lemma text_of_form:
  assumes "n \<longrightarrow> m \<noteq> 0"
  shows "denotes (text_of n m) (with_sign n m)" and "canonical (text_of n m)"
proof -
  define p where "p = padded 10 (m mod 10 ^ 10)"
  define t where "t = trim_end_zeros p"
  define f where "f = (if t = [] then ''0'' else t)"
  obtain k where k: "p = t @ replicate k CHR ''0''" using trim_end_split [of p] by (auto simp: t_def)
  have "length p = 10" unfolding p_def by (rule length_padded) simp_all
  then have lt: "length t + k = 10" using k by simp
  have pd: "list_all is_ascii_digit p" by (simp add: p_def padded_digits)
  have tv: "dec_value t * 10 ^ (10 - length t) = m mod 10 ^ 10"
  proof -
    have "m mod 10 ^ 10 = dec_value p" by (simp add: p_def padded_value)
    also have "\<dots> = dec_value t * 10 ^ k" by (subst k) (simp add: dec_value_app)
    also have "k = 10 - length t" using lt by simp
    finally show ?thesis by simp
  qed
  have td: "list_all is_ascii_digit t" using pd k by (metis list_all_append)
  have ft: "trim_end_zeros f = t"
    using trim_end_append [of t 0] trim_end_append [of "[]" 1] trim_end_shape [of p] by (auto simp: f_def t_def)
  have form: "decimal_form n (dec (m div 10 ^ 10)) f (text_of n m)"
    using td dec_digits by (auto simp: decimal_form_def digits_def text_of_def f_def t_def p_def list_all_iff is_ascii_digit_def byte_def)
  show den: "denotes (text_of n m) (with_sign n m)"
    using denotes_form [OF form] lt tv by (simp add: ft)
  have "n \<longrightarrow> dec_value (dec (m div 10 ^ 10) @ f) \<noteq> 0"
  proof
    assume n
    then have "m \<noteq> 0" using assms by simp
    then have "m div 10 ^ 10 \<noteq> 0 \<or> dec_value t \<noteq> 0" using tv by (metis div_mult_mod_eq add_0 mult_0)
    then show "dec_value (dec (m div 10 ^ 10) @ f) \<noteq> 0" by (auto simp: dec_value_app f_def dec_value_Nil)
  qed
  moreover have "f = ''0'' \<or> f \<noteq> [] \<and> last f \<noteq> CHR ''0''" using trim_end_shape [of p] by (auto simp: f_def t_def)
  ultimately show "canonical (text_of n m)" unfolding canonical_def using form dec_hd [of "m div 10 ^ 10"] by blast
qed

lemma canonical_printed:
  assumes "canonical s" "denotes s v"
  shows "s = text_of (v < 0) (nat \<bar>v\<bar>)"
proof -
  obtain n i f where form: "decimal_form n i f s" and i: "i = ''0'' \<or> hd i \<noteq> CHR ''0''"
    and f: "f = ''0'' \<or> f \<noteq> [] \<and> last f \<noteq> CHR ''0''" and n: "n \<longrightarrow> dec_value (i @ f) \<noteq> 0"
    using assms(1) by (auto simp: canonical_def)
  define t where "t = trim_end_zeros f"
  define z where "z = dec_value t * 10 ^ (10 - length t)"
  have d: "digits i" "list_all is_ascii_digit f" using form by (simp_all add: decimal_form_def)
  have td: "list_all is_ascii_digit t" using d(2) trim_end_split [of f] by (metis list_all_append t_def)
  have l: "length t \<le> 10" and v: "v = with_sign n (dec_value i * 10 ^ 10 + z)"
    using denotes_form [OF form] assms(2) by (simp_all add: t_def z_def)
  have ft: "f = (if t = [] then ''0'' else t)" "t = [] \<or> last t \<noteq> CHR ''0''"
    using f trim_end_append [of f 0] trim_end_append [of "[]" 1] by (auto simp: t_def)
  define p where "p = t @ replicate (10 - length t) CHR ''0''"
  have pd: "list_all is_ascii_digit p" using td by (auto simp: p_def list_all_iff is_ascii_digit_def byte_def)
  have pv: "dec_value p = z" by (simp add: p_def z_def dec_value_app)
  have "length p = 10" using l by (simp add: p_def)
  then have z: "z < 10 ^ 10" using dec_value_bound [OF pd] pv by simp
  then have "padded 10 z = p"
    using digits_eqI [of "padded 10 z" p] pd pv \<open>length p = 10\<close> by (simp add: length_padded padded_digits padded_value)
  then have t: "trim_end_zeros (padded 10 z) = t" using trim_end_append [OF ft(2)] by (simp add: p_def)
  have "0 < dec_value i * 10 ^ 10 + z" if n
  proof -
    have "dec_value i \<noteq> 0 \<or> dec_value t \<noteq> 0" using n that ft(1) by (auto simp: dec_value_app dec_value_Nil dec_value_0 split: if_splits)
    then show ?thesis by (auto simp: z_def)
  qed
  then have "v < 0 \<longleftrightarrow> n" "nat \<bar>v\<bar> = dec_value i * 10 ^ 10 + z" using v by (auto simp: with_sign_def)
  moreover have "(dec_value i * 10 ^ 10 + z) div 10 ^ 10 = dec_value i" "(dec_value i * 10 ^ 10 + z) mod 10 ^ 10 = z" using z by simp_all
  ultimately show ?thesis using form t ft(1) dec_canonical [OF d(1) i] by (auto simp: text_of_def decimal_form_def)
qed

lemma canonical_text_iff:
  "canonical s \<and> parse s = Inr v \<longleftrightarrow> fits_decimal (sint v) \<and> s = canonical_text v"
proof
  assume "canonical s \<and> parse s = Inr v"
  then have c: "canonical s" "denotes s (sint v)" "fits_decimal (sint v)" by (simp_all add: parse_cases)
  have "unat (unsigned_abs v) = nat \<bar>sint v\<bar>" using abs_value [OF c(3)] by (metis nat_int)
  then show "fits_decimal (sint v) \<and> s = canonical_text v"
    using canonical_printed [OF c(1,2)] c(3) by (simp add: canonical_text_of)
next
  assume a: "fits_decimal (sint v) \<and> s = canonical_text v"
  define m where "m = unat (unsigned_abs v)"
  have m: "int m = \<bar>sint v\<bar>" using abs_value a by (simp add: m_def)
  have s: "s = text_of (sint v < 0) m" using a by (simp add: canonical_text_of m_def)
  have "sint v < 0 \<longrightarrow> m \<noteq> 0" "with_sign (sint v < 0) m = sint v" using m by (auto simp: with_sign_def)
  then show "canonical s \<and> parse s = Inr v" using text_of_form [of "sint v < 0" m] a s by (simp add: parse_cases)
qed

text \<open>
  C36. Parsing an amount is exact and total: a text is accepted with value \<open>v\<close> exactly
  when it is a plain decimal number, \<open>v\<close> is its value times \<open>10 ^ 10\<close> without rounding, and \<open>v\<close> has at most
  38 digits; the three errors are the three ways this can fail, no 128-bit operation overflows, and the
  parser of the reference job accepts the same texts with the same values. Printing inverts parsing: the
  canonical texts that parse to \<open>v\<close> are exactly the one text printed for \<open>v\<close>, so a stored value
  regenerates the canonical text it came from.
\<close>

theorem decimal_parse_exact:
  "(parse s = Inr v \<longleftrightarrow> denotes s (sint v) \<and> fits_decimal (sint v)) \<and>
   (parse s = Inl Syntax \<longleftrightarrow> (\<nexists>n i f. decimal_form n i f s)) \<and>
   (parse s = Inl FractionalDigits \<longleftrightarrow> (\<exists>n i f. decimal_form n i f s) \<and> (\<nexists>x. denotes s x)) \<and>
   (parse s = Inl IntegerDigits \<longleftrightarrow> (\<exists>x. denotes s x \<and> \<not> fits_decimal x)) \<and>
   (decimal_text s = Some v \<longleftrightarrow> parse s = Inr v) \<and>
   (canonical s \<and> parse s = Inr v \<longleftrightarrow> fits_decimal (sint v) \<and> s = canonical_text v)"
proof (intro conjI parse_cases parse_syntax canonical_text_iff)
  show "decimal_text s = Some v \<longleftrightarrow> parse s = Inr v" by (simp add: decimal_text_parse split: sum.splits)
qed

end
