(* ===== verification/Float64.thy ===== *)
theory Float64
  imports Complex_Main "HOL-Library.Log_Nat"
begin

text \<open>
  The \<open>f64\<close> arithmetic of the flush heuristics: the result of an operation is the exact rational result
  rounded to 53 significant bits, ties to even. The values that occur lie between \<open>2^-75\<close> and \<open>2^75\<close> or are
  zero, so the exponent range of the format is never reached and infinities and subnormal numbers do not
  occur. The locale \<open>rounding\<close> states what the clients use.
\<close>

section \<open>Rounding\<close>

definition round_even :: "rat \<Rightarrow> int" where
  "round_even y = (let f = \<lfloor>y\<rfloor>; d = y - of_int f in if d < 1/2 \<or> d = 1/2 \<and> even f then f else f + 1)"

text \<open>The exponent of the leading bit.\<close>

definition floor_log2 :: "rat \<Rightarrow> int" where
  "floor_log2 x = (let (p, q) = quotient_of x; k = int (floorlog 2 (nat p)) - int (floorlog 2 (nat q)) in if 2 powi k \<le> x then k else k - 1)"

definition round_positive :: "rat \<Rightarrow> rat" where
  "round_positive x = (let unit = 2 powi (floor_log2 x - 52) in of_int (round_even (x / unit)) * unit)"

definition f64_round :: "rat \<Rightarrow> rat" where
  "f64_round x = (if x = 0 then 0 else if x < 0 then - round_positive (- x) else round_positive x)"

section \<open>Laws\<close>

lemma round_even_bounds: "\<lfloor>y\<rfloor> \<le> round_even y" "round_even y \<le> \<lfloor>y\<rfloor> + 1"
  by (simp_all add: round_even_def Let_def)

lemma round_even_int [simp]: "round_even (of_int n) = n"
  by (simp add: round_even_def)

lemma round_even_mono: "y \<le> z \<Longrightarrow> round_even y \<le> round_even z"
proof (cases "\<lfloor>y\<rfloor> = \<lfloor>z\<rfloor>")
  case True
  assume "y \<le> z"
  then show ?thesis using True by (auto simp: round_even_def Let_def)
next
  case False
  assume "y \<le> z"
  then have "\<lfloor>y\<rfloor> \<le> \<lfloor>z\<rfloor>" by (rule floor_mono)
  then show ?thesis using False round_even_bounds [of y] round_even_bounds [of z] by linarith
qed

lemma floor_log2_bounds:
  assumes "0 < x"
  shows "2 powi floor_log2 x \<le> x" "x < 2 powi (floor_log2 x + 1)"
proof -
  obtain p q where pq: "quotient_of x = (p, q)" by fastforce
  have q: "0 < q" using quotient_of_denom_pos [OF pq] .
  have x: "x = of_int p / of_int q" using quotient_of_div [OF pq] .
  then have p: "0 < p" using assms q by (simp add: zero_less_divide_iff)
  let ?a = "floorlog 2 (nat p)" and ?b = "floorlog 2 (nat q)"
  have a: "2 ^ (?a - 1) \<le> nat p" "nat p < 2 ^ ?a" "0 < ?a" using floorlog_bounds [of "nat p" 2] p by (simp_all add: floorlog_def)
  have b: "2 ^ (?b - 1) \<le> nat q" "nat q < 2 ^ ?b" "0 < ?b" using floorlog_bounds [of "nat q" 2] q by (simp_all add: floorlog_def)
  have rp: "(of_int p :: rat) = of_nat (nat p)" and rq: "(of_int q :: rat) = of_nat (nat q)" using p q by simp_all
  have a': "(2::rat) ^ (?a - 1) \<le> of_int p" "(of_int p :: rat) < 2 ^ ?a"
    using a(1,2) unfolding rp by (metis of_nat_le_iff of_nat_less_iff of_nat_numeral of_nat_power)+
  have b': "(2::rat) ^ (?b - 1) \<le> of_int q" "(of_int q :: rat) < 2 ^ ?b"
    using b(1,2) unfolding rq by (metis of_nat_le_iff of_nat_less_iff of_nat_numeral of_nat_power)+
  have qpos: "(0::rat) < of_int q" using q by simp
  let ?k = "int ?a - int ?b"
  have k: "?k - 1 = int (?a - 1) - int ?b" "?k + 1 = int ?a - int (?b - 1)" using a(3) b(3) by simp_all
  have powers: "(2::rat) powi (int m - int n) = 2 ^ m / 2 ^ n" for m n by (simp add: power_int_diff)
  note pow = powers [of "?a - 1" ?b, folded k(1)] powers [of ?a "?b - 1", folded k(2)]
  have lo: "2 powi (?k - 1) \<le> x" unfolding pow x using a'(1) b'(2) qpos p by (intro frac_le) auto
  have hi: "x < 2 powi (?k + 1)" unfolding pow x using a'(2) b'(1) qpos p by (intro frac_less) auto
  have e: "floor_log2 x = (if 2 powi ?k \<le> x then ?k else ?k - 1)" by (simp add: floor_log2_def pq)
  show "2 powi floor_log2 x \<le> x" "x < 2 powi (floor_log2 x + 1)" using lo hi by (auto simp: e)
qed

lemma powi_two_mono: "i \<le> j \<Longrightarrow> (2::rat) powi i \<le> 2 powi j"
  by (rule power_int_increasing) auto

lemma floor_log2_mono:
  assumes "0 < x" "x \<le> y"
  shows "floor_log2 x \<le> floor_log2 y"
proof (rule ccontr)
  assume "\<not> floor_log2 x \<le> floor_log2 y"
  then have "(2::rat) powi (floor_log2 y + 1) \<le> 2 powi floor_log2 x" by (intro powi_two_mono) simp
  then show False using floor_log2_bounds(1) [OF assms(1)] floor_log2_bounds(2) [of y] assms by linarith
qed

lemma round_positive_bounds:
  assumes "0 < x"
  shows "2 powi floor_log2 x \<le> round_positive x" "round_positive x \<le> 2 powi (floor_log2 x + 1)"
proof -
  let ?e = "floor_log2 x" and ?u = "(2::rat) powi (floor_log2 x - 52)"
  have u: "0 < ?u" by simp
  have lo: "2 powi ?e = of_int (2 ^ 52) * ?u" and hi: "2 powi (?e + 1) = of_int (2 ^ 53) * ?u"
    by (simp_all add: power_int_diff power_int_add)
  have "of_int (2 ^ 52) \<le> x / ?u" "x / ?u \<le> of_int (2 ^ 53)"
    using floor_log2_bounds [OF assms] unfolding lo hi by (simp_all add: pos_le_divide_eq pos_divide_le_eq)
  then have "2 ^ 52 \<le> round_even (x / ?u)" "round_even (x / ?u) \<le> 2 ^ 53"
    using round_even_mono [of "of_int (2 ^ 52)" "x / ?u"] round_even_mono [of "x / ?u" "of_int (2 ^ 53)"] unfolding round_even_int by simp_all
  then show "2 powi ?e \<le> round_positive x" "round_positive x \<le> 2 powi (?e + 1)"
    unfolding lo hi round_positive_def Let_def by (intro mult_right_mono, simp_all)+
qed

lemma round_positive_mono:
  assumes "0 < x" "x \<le> y"
  shows "round_positive x \<le> round_positive y"
proof (cases "floor_log2 x = floor_log2 y")
  case True
  have "round_even (x / 2 powi (floor_log2 y - 52)) \<le> round_even (y / 2 powi (floor_log2 y - 52))"
    using assms(2) by (intro round_even_mono divide_right_mono) simp_all
  then show ?thesis unfolding round_positive_def Let_def True by (intro mult_right_mono) simp_all
next
  case False
  then have "floor_log2 x + 1 \<le> floor_log2 y" using floor_log2_mono [OF assms] by simp
  then have "(2::rat) powi (floor_log2 x + 1) \<le> 2 powi floor_log2 y" by (rule powi_two_mono)
  moreover have "0 < y" using assms by simp
  ultimately show ?thesis using round_positive_bounds(2) [OF assms(1)] round_positive_bounds(1) [of y] by linarith
qed

lemma round_positive_pos: "0 < x \<Longrightarrow> 0 < round_positive x"
  using round_positive_bounds(1) [of x] by (meson less_le_trans zero_less_numeral zero_less_power_int)

text \<open>Rounding keeps the order and leaves powers of two alone.\<close>

locale rounding =
  fixes rnd :: "rat \<Rightarrow> rat"
  assumes mono: "x \<le> y \<Longrightarrow> rnd x \<le> rnd y"
    and zero: "rnd 0 = 0"
    and power: "rnd (2 powi k) = 2 powi k"
begin

lemma at_most_power: "x \<le> 2 powi k \<Longrightarrow> rnd x \<le> 2 powi k"
  using mono [of x "2 powi k"] power by simp

lemma at_least_power: "2 powi k \<le> x \<Longrightarrow> 2 powi k \<le> rnd x"
  using mono [of "2 powi k" x] power by simp

lemma nonneg: "0 \<le> x \<Longrightarrow> 0 \<le> rnd x"
  using mono [of 0 x] zero by simp

lemma nonpos: "x \<le> 0 \<Longrightarrow> rnd x \<le> 0"
  using mono [of x 0] zero by simp

end

interpretation f64: rounding f64_round
proof
  fix x y :: rat
  assume xy: "x \<le> y"
  show "f64_round x \<le> f64_round y"
  proof (cases "0 < x")
    case True
    then show ?thesis using round_positive_mono [OF True xy] xy by (simp add: f64_round_def)
  next
    case False
    then show ?thesis
      using xy round_positive_pos [of y] round_positive_pos [of "- x"] round_positive_mono [of "- y" "- x"] by (auto simp: f64_round_def not_less)
  qed
next
  show "f64_round 0 = 0" by (simp add: f64_round_def)
next
  fix k :: int
  let ?x = "(2::rat) powi k"
  have b: "2 powi floor_log2 ?x \<le> ?x" "?x < 2 powi (floor_log2 ?x + 1)" using floor_log2_bounds [of ?x] by simp_all
  have "\<not> k < floor_log2 ?x" using b(1) power_int_strict_increasing [of k "floor_log2 ?x" "2::rat"] by auto
  moreover have "\<not> floor_log2 ?x + 1 \<le> k" using b(2) powi_two_mono [of "floor_log2 ?x + 1" k] by auto
  ultimately have e: "floor_log2 ?x = k" by simp
  have "?x / 2 powi (k - 52) = of_int (2 ^ 52)" by (simp add: power_int_diff)
  then have "round_positive ?x = of_int (2 ^ 52) * 2 powi (k - 52)"
    unfolding round_positive_def e Let_def by (simp only: round_even_int)
  moreover have "\<not> ?x < 0" by (simp add: not_less)
  ultimately show "f64_round ?x = ?x" by (simp add: f64_round_def power_int_diff)
qed

text \<open>Integers below \<open>2^53\<close> are exact.\<close>

lemma round_positive_int:
  assumes "0 < n" "n < 2 ^ 53"
  shows "round_positive (of_int n) = of_int n"
proof -
  let ?e = "floor_log2 (of_int n)"
  have "(2::rat) powi ?e \<le> of_int n" using floor_log2_bounds(1) [of "of_int n"] assms(1) by simp
  moreover have "(of_int n :: rat) < 2 powi 53" using assms(2) by (simp add: of_int_less_iff [of n "2 ^ 53", where ?'a = rat, symmetric] del: of_int_less_iff)
  ultimately have "\<not> 53 \<le> ?e" using powi_two_mono [of 53 ?e] by linarith
  then obtain m where k: "?e - 52 = - int m" using that [of "nat (52 - ?e)"] by simp
  have "(of_int n :: rat) / 2 powi (?e - 52) = of_int (n * 2 ^ m)"
    unfolding k power_int_minus by (simp add: divide_inverse)
  then have "round_even (of_int n / 2 powi (?e - 52)) = n * 2 ^ m" by (simp only: round_even_int)
  then show ?thesis unfolding round_positive_def Let_def k by (simp add: power_int_minus)
qed

lemma f64_int:
  assumes "\<bar>n\<bar> < 2 ^ 53"
  shows "f64_round (of_int n) = of_int n"
  using assms round_positive_int [of n] round_positive_int [of "- n"] by (auto simp: f64_round_def)

lemma f64_numeral: "numeral n < (2::int) ^ 53 \<Longrightarrow> f64_round (numeral n) = numeral n"
  using f64_int [of "numeral n"] by simp

end
