(* ===== verification/Flush_Pace.thy ===== *)
theory Flush_Pace
  imports Prelude Float64
begin

text \<open>
  The pace detector of \<open>flush/pace.rs\<close>: whether the writer replays history or follows the head of the chain,
  told from wall-clock instants and block times alone. Instants and durations are nanoseconds; durations
  saturate at \<open>Duration::MAX\<close>. Shown: a switch happens only on the evidence the module documents, over any
  sequence of blocks and pauses.
\<close>

section \<open>Durations\<close>

definition duration_max :: nat where
  "duration_max = u64_max * 1000000000 + 999999999"

definition duration_add :: "nat \<Rightarrow> nat \<Rightarrow> nat" where
  "duration_add a b = min duration_max (a + b)"

definition duration_mul :: "nat \<Rightarrow> nat \<Rightarrow> nat" where
  "duration_mul a n = min duration_max (a * n)"

definition as_secs_f64 :: "nat \<Rightarrow> rat" where
  "as_secs_f64 d = f64_round (f64_round (of_nat (d div 1000000000)) + f64_round (of_nat (d mod 1000000000) / 1000000000))"

text \<open>Saturation of \<open>i64\<close> and \<open>u32\<close>.\<close>

definition saturate_i64 :: "int \<Rightarrow> int" where
  "saturate_i64 n = max (- int i64_max - 1) (min (int i64_max) n)"

definition saturating_add_u32 :: "nat \<Rightarrow> nat \<Rightarrow> nat" where
  "saturating_add_u32 a b = min 4294967295 (a + b)"

section \<open>The detector\<close>

definition ENTER_RATIO :: rat where
  "ENTER_RATIO = 2"

definition EXIT_RATIO :: rat where
  "EXIT_RATIO = 5/4"

definition ENTER_SAMPLES :: nat where
  "ENTER_SAMPLES = 3"

datatype stream_pace = CaughtUp | CatchingUp

record pace_timing =
  pw_sample :: nat
  pw_enter :: nat
  pw_exit :: nat
  pw_unknown :: nat

definition from_sample :: "nat \<Rightarrow> pace_timing" where
  "from_sample sample =
     (let sample = max sample 1000000 in
      \<lparr> pw_sample = sample, pw_enter = duration_mul sample 6, pw_exit = duration_mul sample 4, pw_unknown = duration_mul sample 12 \<rparr>)"

datatype pace_cause = Pace | MissingTimestamps

record pace_transition =
  px_pace :: stream_pace
  px_cause :: pace_cause
  px_ratio :: "rat option"
  px_blocks_per_sec :: rat
  px_evidence :: nat

datatype pace_evidence = Fast | RealTime

record streak =
  sk_evidence :: "pace_evidence option"
  sk_samples :: nat
  sk_wall :: nat
  sk_counted :: nat
  sk_block_millis :: int
  sk_blocks :: nat

definition empty_streak :: streak where
  "empty_streak = \<lparr> sk_evidence = None, sk_samples = 0, sk_wall = 0, sk_counted = 0, sk_block_millis = 0, sk_blocks = 0 \<rparr>"

definition pace_ratio :: "int \<Rightarrow> nat \<Rightarrow> rat" where
  "pace_ratio block_millis wall =
     (let secs = as_secs_f64 wall in
      if 0 < secs then f64_round (f64_round (f64_round (of_int block_millis) / 1000) / secs) else 0)"

definition per_second :: "nat \<Rightarrow> nat \<Rightarrow> rat" where
  "per_second blocks wall = (let secs = as_secs_f64 wall in if 0 < secs then f64_round (f64_round (of_nat blocks) / secs) else 0)"

record pace_detector =
  pd_timing :: pace_timing
  pd_pace :: stream_pace
  pd_newest_millis :: "int option"
  pd_anchor :: "(nat \<times> int) option"
  pd_blocks :: nat
  pd_sample_paused :: nat
  pd_gap_paused :: nat
  pd_last_block :: "nat option"
  pd_last_timestamped :: "nat option"
  pd_untimed_blocks :: nat
  pd_untimed_paused :: nat
  pd_streak :: streak

definition pace_new :: "pace_timing \<Rightarrow> pace_detector" where
  "pace_new timing = \<lparr> pd_timing = timing, pd_pace = CaughtUp, pd_newest_millis = None, pd_anchor = None, pd_blocks = 0,
     pd_sample_paused = 0, pd_gap_paused = 0, pd_last_block = None, pd_last_timestamped = None, pd_untimed_blocks = 0,
     pd_untimed_paused = 0, pd_streak = empty_streak \<rparr>"

text \<open>A closed sample: its wall time, the pauses of the writer in it, the advance of block time and its blocks.\<close>

record pace_sample =
  ps_wall :: nat
  ps_paused :: nat
  ps_block_millis :: int
  ps_blocks :: nat

text \<open>What a sample is evidence of, and the wall time it counts for.\<close>

definition sample_evidence :: "pace_sample \<Rightarrow> pace_evidence option \<times> nat" where
  "sample_evidence s =
     (let sample_ratio = pace_ratio (ps_block_millis s) (ps_wall s) in
      if ENTER_RATIO < sample_ratio then (Some Fast, ps_wall s)
      else if sample_ratio \<le> EXIT_RATIO then (Some RealTime, ps_wall s - ps_paused s)
      else (None, 0))"

definition extend_streak :: "streak \<Rightarrow> pace_sample \<Rightarrow> streak" where
  "extend_streak k s =
     (let (evidence, counted) = sample_evidence s;
          k1 = (if evidence = None \<or> evidence \<noteq> sk_evidence k then empty_streak\<lparr> sk_evidence := evidence \<rparr> else k) in
      if evidence = None then k1
      else k1\<lparr> sk_samples := saturating_add_u32 (sk_samples k1) 1, sk_wall := duration_add (sk_wall k1) (ps_wall s),
        sk_counted := duration_add (sk_counted k1) counted,
        sk_block_millis := saturate_i64 (sk_block_millis k1 + ps_block_millis s),
        sk_blocks := saturating_add (sk_blocks k1) (ps_blocks s) \<rparr>)"

definition switch_to :: "pace_detector \<Rightarrow> streak \<Rightarrow> stream_pace option" where
  "switch_to d k =
     (case (pd_pace d, sk_evidence k) of
        (CaughtUp, Some Fast) \<Rightarrow>
          if ENTER_SAMPLES \<le> sk_samples k \<and> pw_enter (pd_timing d) \<le> sk_counted k then Some CatchingUp else None
      | (CatchingUp, Some RealTime) \<Rightarrow> if pw_exit (pd_timing d) \<le> sk_counted k then Some CaughtUp else None
      | _ \<Rightarrow> None)"

definition close_sample :: "pace_detector \<Rightarrow> pace_sample \<Rightarrow> pace_transition option \<times> pace_detector" where
  "close_sample d s =
     (let k = extend_streak (pd_streak d) s in
      case switch_to d k of
        None \<Rightarrow> (None, d\<lparr> pd_streak := k \<rparr>)
      | Some pace \<Rightarrow>
          (Some \<lparr> px_pace = pace, px_cause = Pace, px_ratio = Some (pace_ratio (sk_block_millis k) (sk_wall k)),
             px_blocks_per_sec = per_second (sk_blocks k) (sk_wall k), px_evidence = sk_wall k \<rparr>,
           d\<lparr> pd_streak := empty_streak, pd_pace := pace \<rparr>))"

definition observe_missing_timestamp :: "pace_detector \<Rightarrow> nat \<Rightarrow> pace_transition option \<times> pace_detector" where
  "observe_missing_timestamp d now =
     (case pd_last_timestamped d of
        None \<Rightarrow> (None, d)
      | Some since \<Rightarrow>
          let wall = now - since in
          if pd_pace d \<noteq> CatchingUp \<or> wall - pd_untimed_paused d < pw_unknown (pd_timing d) then (None, d)
          else (Some \<lparr> px_pace = CaughtUp, px_cause = MissingTimestamps, px_ratio = None,
              px_blocks_per_sec = per_second (pd_untimed_blocks d) wall, px_evidence = wall \<rparr>,
            d\<lparr> pd_pace := CaughtUp, pd_streak := empty_streak \<rparr>))"

text \<open>A gap longer than a sample is measured on its own.\<close>

definition begin_gap :: "pace_detector \<Rightarrow> nat \<Rightarrow> pace_detector" where
  "begin_gap d now =
     (let d1 = d\<lparr> pd_last_block := Some now, pd_gap_paused := 0 \<rparr> in
      case (pd_last_block d, pd_anchor d, pd_newest_millis d) of
        (Some previous, Some (anchor_at, _), Some newest) \<Rightarrow>
          if anchor_at < previous \<and> pw_sample (pd_timing d) \<le> now - previous
          then d1\<lparr> pd_anchor := Some (previous, newest), pd_blocks := 0, pd_sample_paused := pd_gap_paused d \<rparr> else d1
      | _ \<Rightarrow> d1)"

text \<open>A block with a timestamp: the sample that it closes, if any.\<close>

definition measure_block :: "pace_detector \<Rightarrow> nat \<Rightarrow> int \<Rightarrow> pace_sample option \<times> pace_detector" where
  "measure_block d now millis =
     (let newest = (case pd_newest_millis d of None \<Rightarrow> millis | Some newest \<Rightarrow> max newest millis);
          d1 = d\<lparr> pd_last_timestamped := Some now, pd_untimed_blocks := 0, pd_untimed_paused := 0, pd_newest_millis := Some newest \<rparr> in
      case pd_anchor d1 of
        None \<Rightarrow> (None, d1\<lparr> pd_anchor := Some (now, newest), pd_blocks := 0, pd_sample_paused := 0 \<rparr>)
      | Some (anchor_at, anchor_millis) \<Rightarrow>
          let wall = now - anchor_at in
          if wall < pw_sample (pd_timing d1) then (None, d1)
          else (Some \<lparr> ps_wall = wall, ps_paused = pd_sample_paused d1, ps_block_millis = saturate_i64 (newest - anchor_millis), ps_blocks = pd_blocks d1 \<rparr>,
            d1\<lparr> pd_blocks := 0, pd_sample_paused := 0, pd_anchor := Some (now, newest) \<rparr>))"

definition count_block :: "pace_detector \<Rightarrow> nat \<Rightarrow> pace_detector" where
  "count_block d now = (let d1 = begin_gap d now in d1\<lparr> pd_blocks := saturating_add (pd_blocks d1) 1 \<rparr>)"

definition pace_observe :: "pace_detector \<Rightarrow> nat \<Rightarrow> int option \<Rightarrow> pace_transition option \<times> pace_detector" where
  "pace_observe d now block_time_millis =
     (let d1 = count_block d now in
      case block_time_millis of
        None \<Rightarrow> observe_missing_timestamp (d1\<lparr> pd_untimed_blocks := saturating_add (pd_untimed_blocks d1) 1 \<rparr>) now
      | Some millis \<Rightarrow>
          (case measure_block d1 now millis of
             (None, d2) \<Rightarrow> (None, d2)
           | (Some s, d2) \<Rightarrow> close_sample d2 s))"

definition exclude_pause :: "pace_detector \<Rightarrow> nat \<Rightarrow> pace_detector" where
  "exclude_pause d pause = d\<lparr> pd_sample_paused := duration_add (pd_sample_paused d) pause,
     pd_gap_paused := duration_add (pd_gap_paused d) pause, pd_untimed_paused := duration_add (pd_untimed_paused d) pause \<rparr>"

section \<open>A stream of blocks\<close>

datatype pace_op = Block nat "int option" | Pause nat

fun pace_step :: "pace_detector \<Rightarrow> pace_op \<Rightarrow> pace_transition option \<times> pace_detector" where
  "pace_step d (Block now t) = pace_observe d now t"
| "pace_step d (Pause p) = (None, exclude_pause d p)"

fun pace_run :: "pace_detector \<Rightarrow> pace_op list \<Rightarrow> pace_detector" where
  "pace_run d [] = d"
| "pace_run d (op # ops) = pace_run (snd (pace_step d op)) ops"

text \<open>The samples that a stream closes, in order.\<close>

fun step_samples :: "pace_detector \<Rightarrow> pace_op \<Rightarrow> pace_sample list" where
  "step_samples d (Block now (Some millis)) = (case fst (measure_block (count_block d now) now millis) of None \<Rightarrow> [] | Some s \<Rightarrow> [s])"
| "step_samples d _ = []"

fun closed_samples :: "pace_detector \<Rightarrow> pace_op list \<Rightarrow> pace_sample list" where
  "closed_samples d [] = []"
| "closed_samples d (op # ops) = step_samples d op @ closed_samples (snd (pace_step d op)) ops"

lemma pace_run_append: "pace_run d (ops @ [op]) = snd (pace_step (pace_run d ops) op)"
  by (induction ops arbitrary: d) simp_all

lemma closed_samples_append: "closed_samples d (ops @ [op]) = closed_samples d ops @ step_samples (pace_run d ops) op"
  by (induction ops arbitrary: d) simp_all

section \<open>Evidence\<close>

lemma as_secs_nonneg: "0 \<le> as_secs_f64 d"
  unfolding as_secs_f64_def by (intro f64.nonneg add_nonneg_nonneg) (simp_all add: f64.nonneg)

text \<open>A block time that does not advance is never fast.\<close>

lemma still_ratio: "m \<le> 0 \<Longrightarrow> pace_ratio m wall \<le> 0"
proof -
  assume "m \<le> 0"
  then have "f64_round (of_int m) / 1000 \<le> 0" using f64.nonpos [of "of_int m"] by simp
  then have "f64_round (f64_round (of_int m) / 1000) / as_secs_f64 wall \<le> 0"
    using f64.nonpos as_secs_nonneg by (intro divide_nonpos_nonneg)
  then show ?thesis using f64.nonpos by (simp add: pace_ratio_def Let_def)
qed

lemma fast_evidence:
  assumes "fst (sample_evidence s) = Some Fast"
  shows "ENTER_RATIO < pace_ratio (ps_block_millis s) (ps_wall s)" "0 < ps_block_millis s" "snd (sample_evidence s) = ps_wall s"
proof -
  show f: "ENTER_RATIO < pace_ratio (ps_block_millis s) (ps_wall s)" and "snd (sample_evidence s) = ps_wall s"
    using assms by (auto simp: sample_evidence_def Let_def split: if_splits)
  then show "0 < ps_block_millis s" using still_ratio [of "ps_block_millis s" "ps_wall s"] by (force simp: ENTER_RATIO_def)
qed

lemma real_time_evidence:
  assumes "fst (sample_evidence s) = Some RealTime"
  shows "pace_ratio (ps_block_millis s) (ps_wall s) \<le> EXIT_RATIO" "snd (sample_evidence s) = ps_wall s - ps_paused s"
  using assms by (auto simp: sample_evidence_def Let_def split: if_splits)

definition ends_with :: "'a list \<Rightarrow> 'a list \<Rightarrow> bool" where
  "ends_with ss history \<longleftrightarrow> (\<exists>before. history = before @ ss)"

lemma ends_with_simps [simp]: "ends_with [] history" "ends_with (ss @ [s]) (history @ [s]) \<longleftrightarrow> ends_with ss history" "ends_with [s] (history @ [s])"
  by (simp_all add: ends_with_def)

lemma ends_with_set: "ends_with ss history \<Longrightarrow> set ss \<subseteq> set history"
  by (auto simp: ends_with_def)

definition backed :: "streak \<Rightarrow> pace_sample list \<Rightarrow> bool" where
  "backed k history \<longleftrightarrow> (\<exists>ss. ends_with ss history \<and> (\<forall>s \<in> set ss. fst (sample_evidence s) = sk_evidence k) \<and>
     sk_samples k \<le> length ss \<and> sk_counted k \<le> sum_list (map (\<lambda>s. snd (sample_evidence s)) ss))"

lemma backed_empty [simp]: "backed empty_streak history"
  unfolding backed_def by (rule exI [of _ "[]"]) (simp add: empty_streak_def)

lemma backed_extend:
  assumes "backed k history"
  shows "backed (extend_streak k s) (history @ [s])"
proof -
  obtain ev counted where ev: "sample_evidence s = (ev, counted)" by fastforce
  consider "ev = None" | "ev \<noteq> None" "ev \<noteq> sk_evidence k" | "ev \<noteq> None" "ev = sk_evidence k" by blast
  then show ?thesis
  proof cases
    case 1
    then show ?thesis unfolding backed_def
      by (intro exI [of _ "[]"]) (simp add: extend_streak_def ev empty_streak_def)
  next
    case 2
    then show ?thesis unfolding backed_def
      by (intro exI [of _ "[s]"]) (simp add: extend_streak_def ev empty_streak_def saturating_add_u32_def duration_add_def Let_def)
  next
    case 3
    obtain ss where ss: "ends_with ss history" "\<forall>s \<in> set ss. fst (sample_evidence s) = sk_evidence k" "sk_samples k \<le> length ss"
      "sk_counted k \<le> sum_list (map (\<lambda>s. snd (sample_evidence s)) ss)"
      using assms by (auto simp: backed_def)
    then have "ends_with (ss @ [s]) (history @ [s])" by simp
    moreover have "extend_streak k s = k\<lparr> sk_samples := saturating_add_u32 (sk_samples k) 1, sk_wall := duration_add (sk_wall k) (ps_wall s),
        sk_counted := duration_add (sk_counted k) counted,
        sk_block_millis := saturate_i64 (sk_block_millis k + ps_block_millis s), sk_blocks := saturating_add (sk_blocks k) (ps_blocks s) \<rparr>"
      using 3 by (auto simp: extend_streak_def ev Let_def)
    ultimately show ?thesis unfolding backed_def using ss 3 ev
      by (intro exI [of _ "ss @ [s]"]) (auto simp: saturating_add_u32_def duration_add_def)
  qed
qed

section \<open>Every step\<close>

lemma count_block_fields [simp]:
  "pd_timing (count_block d now) = pd_timing d" "pd_pace (count_block d now) = pd_pace d" "pd_streak (count_block d now) = pd_streak d"
  "pd_untimed_paused (count_block d now) = pd_untimed_paused d" "pd_last_timestamped (count_block d now) = pd_last_timestamped d"
  by (simp_all add: count_block_def begin_gap_def Let_def split: option.splits prod.splits)

lemma measure_block_fields:
  assumes "measure_block d now millis = (s, d')"
  shows "pd_timing d' = pd_timing d" "pd_pace d' = pd_pace d" "pd_streak d' = pd_streak d"
    "case s of None \<Rightarrow> True | Some s' \<Rightarrow> pw_sample (pd_timing d) \<le> ps_wall s'"
  using assms by (auto simp: measure_block_def Let_def split: option.splits prod.splits if_splits)

definition pace_invariant :: "pace_timing \<Rightarrow> pace_detector \<Rightarrow> pace_sample list \<Rightarrow> bool" where
  "pace_invariant timing d history \<longleftrightarrow> pd_timing d = timing \<and> backed (pd_streak d) history \<and> (\<forall>s \<in> set history. pw_sample timing \<le> ps_wall s)"

text \<open>What a switch shows.\<close>

definition justified :: "pace_timing \<Rightarrow> pace_sample list \<Rightarrow> pace_detector \<Rightarrow> nat \<Rightarrow> pace_transition \<Rightarrow> bool" where
  "justified timing history d now tr \<longleftrightarrow>
     (case (px_cause tr, px_pace tr) of
        (Pace, CatchingUp) \<Rightarrow> \<exists>ss. ends_with ss history \<and> ENTER_SAMPLES \<le> length ss \<and> pw_enter timing \<le> sum_list (map ps_wall ss) \<and>
          (\<forall>s \<in> set ss. ENTER_RATIO < pace_ratio (ps_block_millis s) (ps_wall s) \<and> 0 < ps_block_millis s \<and> pw_sample timing \<le> ps_wall s)
      | (Pace, CaughtUp) \<Rightarrow> \<exists>ss. ends_with ss history \<and> pw_exit timing \<le> sum_list (map (\<lambda>s. ps_wall s - ps_paused s) ss) \<and>
          (\<forall>s \<in> set ss. pace_ratio (ps_block_millis s) (ps_wall s) \<le> EXIT_RATIO \<and> pw_sample timing \<le> ps_wall s)
      | (MissingTimestamps, CaughtUp) \<Rightarrow> (\<exists>since. pd_last_timestamped d = Some since \<and> pw_unknown timing \<le> now - since - pd_untimed_paused d)
      | (MissingTimestamps, CatchingUp) \<Rightarrow> False)"

lemma backed_walls:
  assumes "\<forall>s \<in> set ss. fst (sample_evidence s) = Some Fast"
  shows "map (\<lambda>s. snd (sample_evidence s)) ss = map ps_wall ss"
  using assms fast_evidence(3) by auto

lemma backed_counted:
  assumes "\<forall>s \<in> set ss. fst (sample_evidence s) = Some RealTime"
  shows "map (\<lambda>s. snd (sample_evidence s)) ss = map (\<lambda>s. ps_wall s - ps_paused s) ss"
  using assms real_time_evidence(2) by auto

lemma close_sample_step:
  assumes inv: "pace_invariant timing d history" and s: "pw_sample timing \<le> ps_wall s" and run: "close_sample d s = (tr, d')"
  shows "pace_invariant timing d' (history @ [s])" "tr = None \<Longrightarrow> pd_pace d' = pd_pace d"
    "tr = Some t \<Longrightarrow> px_pace t \<noteq> pd_pace d \<and> pd_pace d' = px_pace t \<and> px_cause t = Pace \<and> justified timing (history @ [s]) e now t"
proof -
  let ?k = "extend_streak (pd_streak d) s"
  have b: "backed ?k (history @ [s])" using inv backed_extend by (simp add: pace_invariant_def)
  have walls: "\<forall>u \<in> set (history @ [s]). pw_sample timing \<le> ps_wall u" and tm: "pd_timing d = timing" using inv s by (auto simp: pace_invariant_def)
  show "pace_invariant timing d' (history @ [s])" "tr = None \<Longrightarrow> pd_pace d' = pd_pace d"
    using run b walls tm by (auto simp: close_sample_def Let_def pace_invariant_def split: option.splits)
  assume t: "tr = Some t"
  obtain ss where ss: "ends_with ss (history @ [s])" "\<forall>s \<in> set ss. fst (sample_evidence s) = sk_evidence ?k"
    "sk_samples ?k \<le> length ss" "sk_counted ?k \<le> sum_list (map (\<lambda>s. snd (sample_evidence s)) ss)"
    using b unfolding backed_def by blast
  have w: "\<forall>u \<in> set ss. pw_sample timing \<le> ps_wall u" using walls ends_with_set [OF ss(1)] by blast
  consider "switch_to d ?k = Some CatchingUp" "pd_pace d = CaughtUp" "sk_evidence ?k = Some Fast" "ENTER_SAMPLES \<le> sk_samples ?k" "pw_enter timing \<le> sk_counted ?k"
    | "switch_to d ?k = Some CaughtUp" "pd_pace d = CatchingUp" "sk_evidence ?k = Some RealTime" "pw_exit timing \<le> sk_counted ?k"
    using run t tm by (auto simp: close_sample_def switch_to_def Let_def split: option.splits stream_pace.splits pace_evidence.splits if_splits)
  then show "px_pace t \<noteq> pd_pace d \<and> pd_pace d' = px_pace t \<and> px_cause t = Pace \<and> justified timing (history @ [s]) e now t"
  proof cases
    case 1
    have all: "\<forall>u \<in> set ss. fst (sample_evidence u) = Some Fast" using ss(2) 1(3) by simp
    have tt: "px_pace t = CatchingUp" "px_cause t = Pace" "pd_pace d' = CatchingUp"
      using run t 1(1) by (auto simp: close_sample_def Let_def)
    have "ENTER_SAMPLES \<le> length ss" "pw_enter timing \<le> sum_list (map ps_wall ss)" using 1(4,5) ss(3,4) backed_walls [OF all] by simp_all
    then have "\<exists>ss. ends_with ss (history @ [s]) \<and> ENTER_SAMPLES \<le> length ss \<and> pw_enter timing \<le> sum_list (map ps_wall ss) \<and>
        (\<forall>s \<in> set ss. ENTER_RATIO < pace_ratio (ps_block_millis s) (ps_wall s) \<and> 0 < ps_block_millis s \<and> pw_sample timing \<le> ps_wall s)"
      using ss(1) all w fast_evidence by blast
    then show ?thesis using tt 1(2) unfolding justified_def by simp
  next
    case 2
    have all: "\<forall>u \<in> set ss. fst (sample_evidence u) = Some RealTime" using ss(2) 2(3) by simp
    have tt: "px_pace t = CaughtUp" "px_cause t = Pace" "pd_pace d' = CaughtUp"
      using run t 2(1) by (auto simp: close_sample_def Let_def)
    have "pw_exit timing \<le> sum_list (map (\<lambda>s. ps_wall s - ps_paused s) ss)" using 2(4) ss(4) backed_counted [OF all] by simp
    then have "\<exists>ss. ends_with ss (history @ [s]) \<and> pw_exit timing \<le> sum_list (map (\<lambda>s. ps_wall s - ps_paused s) ss) \<and>
        (\<forall>s \<in> set ss. pace_ratio (ps_block_millis s) (ps_wall s) \<le> EXIT_RATIO \<and> pw_sample timing \<le> ps_wall s)"
      using ss(1) all w real_time_evidence by blast
    then show ?thesis using tt 2(2) unfolding justified_def by simp
  qed
qed

lemma pace_step_invariant:
  assumes inv: "pace_invariant timing d history" and run: "pace_step d op = (tr, d')"
  shows "pace_invariant timing d' (history @ step_samples d op)" "tr = None \<Longrightarrow> pd_pace d' = pd_pace d"
    "tr = Some t \<Longrightarrow> op = Block now block_time \<Longrightarrow>
       px_pace t \<noteq> pd_pace d \<and> pd_pace d' = px_pace t \<and> justified timing (history @ step_samples d op) d now t"
proof -
  let ?A = "pace_invariant timing d' (history @ step_samples d op)" and ?B = "tr = None \<longrightarrow> pd_pace d' = pd_pace d"
    and ?C = "\<forall>t now block_time. tr = Some t \<longrightarrow> op = Block now block_time \<longrightarrow>
       px_pace t \<noteq> pd_pace d \<and> pd_pace d' = px_pace t \<and> justified timing (history @ step_samples d op) d now t"
  have "?A \<and> ?B \<and> ?C"
  proof (cases op)
    case (Pause p)
    then show ?thesis using run inv by (auto simp: exclude_pause_def pace_invariant_def)
  next
    case (Block now t)
    let ?d = "count_block d now"
    have d: "pace_invariant timing ?d history" using inv by (simp add: pace_invariant_def)
    show ?thesis
    proof (cases t)
      case None
      then show ?thesis using run inv Block
        by (auto simp: pace_observe_def Let_def observe_missing_timestamp_def pace_invariant_def justified_def not_less split: option.splits if_splits)
    next
      case (Some millis)
      obtain s d2 where m: "measure_block ?d now millis = (s, d2)" by fastforce
      note f = measure_block_fields [OF m]
      have d2: "pace_invariant timing d2 history" "pd_pace d2 = pd_pace d" using d f by (simp_all add: pace_invariant_def)
      show ?thesis
      proof (cases s)
        case None
        then show ?thesis using run Block Some m d2 by (auto simp: pace_observe_def Let_def)
      next
        case (Some s')
        have w: "pw_sample timing \<le> ps_wall s'" using f(4) Some inv by (simp add: pace_invariant_def)
        have c: "close_sample d2 s' = (tr, d')" using run Block \<open>t = Some millis\<close> m Some by (simp add: pace_observe_def Let_def)
        have h: "step_samples d op = [s']" using Block \<open>t = Some millis\<close> m Some by simp
        show ?thesis using close_sample_step [OF d2(1) w c] unfolding h d2(2) by blast
      qed
    qed
  qed
  then show "pace_invariant timing d' (history @ step_samples d op)" "tr = None \<Longrightarrow> pd_pace d' = pd_pace d"
    "tr = Some t \<Longrightarrow> op = Block now block_time \<Longrightarrow>
       px_pace t \<noteq> pd_pace d \<and> pd_pace d' = px_pace t \<and> justified timing (history @ step_samples d op) d now t"
    by simp_all
qed

lemma pace_run_invariant: "pace_invariant timing (pace_run (pace_new timing) ops) (closed_samples (pace_new timing) ops)"
proof (induction ops rule: rev_induct)
  case Nil
  show ?case by (simp add: pace_invariant_def pace_new_def)
next
  case (snoc op ops)
  obtain tr d' where run: "pace_step (pace_run (pace_new timing) ops) op = (tr, d')" by fastforce
  show ?case using pace_step_invariant(1) [OF snoc run] run by (simp add: pace_run_append closed_samples_append)
qed

section \<open>Properties\<close>


text \<open>A replay in which block time advances ten times as fast as the clock.\<close>

definition replay_ops :: "pace_op list" where
  "replay_ops = map (\<lambda>k. Block (k * 5000000000) (Some (int k * 50000))) [0..<6]"

lemma replay_ratio: "pace_ratio 50000 5000000000 = 10"
  by (simp add: pace_ratio_def as_secs_f64_def f64_numeral f64.zero)

lemma replay_switches:
  "map_option px_pace (fst (pace_observe (pace_run (pace_new (from_sample 5000000000)) replay_ops) 30000000000 (Some 300000))) = Some CatchingUp"
  by (simp add: replay_ops_def upt_rec pace_new_def from_sample_def duration_mul_def duration_max_def u64_max_def pace_observe_def count_block_def
      begin_gap_def measure_block_def close_sample_def extend_streak_def sample_evidence_def replay_ratio ENTER_RATIO_def switch_to_def
      empty_streak_def saturating_add_u32_def duration_add_def saturate_i64_def i64_max_def saturating_add_def ENTER_SAMPLES_def Let_def)


end
