(* ===== verification/Flush_Size.thy ===== *)
theory Flush_Size
  imports Flush_Pace
begin

text \<open>
  When a flush is due: the memory bound on all tables and the target size of the largest file, predicted by
  a compression ratio that is learned from committed transactions (\<open>flush.rs\<close>), and the choice among these,
  the block, row and interval triggers (\<open>blocks/src/bin/main.rs\<close>). Shown: the ratio stays within its clamp,
  predictions never vanish and never overflow, and a window that grows never loses a trigger.
\<close>

record mapper_buffer_estimate =
  be_largest_table_bytes :: nat
  be_total_bytes :: nat

definition add_table_size :: "mapper_buffer_estimate \<Rightarrow> nat \<Rightarrow> mapper_buffer_estimate" where
  "add_table_size acc table_size =
     (let bytes = min u64_max table_size in
      acc\<lparr> be_largest_table_bytes := max (be_largest_table_bytes acc) bytes, be_total_bytes := saturating_add (be_total_bytes acc) bytes \<rparr>)"

definition from_table_sizes :: "nat list \<Rightarrow> mapper_buffer_estimate" where
  "from_table_sizes sizes = foldl add_table_size \<lparr> be_largest_table_bytes = 0, be_total_bytes = 0 \<rparr> sizes"

datatype size_flush_trigger = Memory | Bytes

record flush_sizing =
  fz_target_bytes :: nat
  fz_memory_bytes :: nat
  fz_ratio :: rat
  fz_observed :: bool

definition sizing_new :: "nat \<Rightarrow> nat \<Rightarrow> flush_sizing result" where
  "sizing_new target_bytes memory_bytes =
     bindR (require (0 < memory_bytes) ''flush memory threshold must be positive'') (\<lambda>_.
     Inr \<lparr> fz_target_bytes = target_bytes, fz_memory_bytes = memory_bytes, fz_ratio = 1, fz_observed = False \<rparr>)"

text \<open>The conversion of a float to \<open>u64\<close> saturates.\<close>

definition predicted_file_bytes :: "flush_sizing \<Rightarrow> nat \<Rightarrow> nat" where
  "predicted_file_bytes z largest_table_bytes = min u64_max (nat \<lceil>f64_round (f64_round (of_nat largest_table_bytes) * fz_ratio z)\<rceil>)"

definition size_trigger :: "flush_sizing \<Rightarrow> mapper_buffer_estimate \<Rightarrow> size_flush_trigger option" where
  "size_trigger z estimate =
     (if fz_memory_bytes z \<le> be_total_bytes estimate then Some Memory
      else if 0 < fz_target_bytes z \<and> fz_target_bytes z \<le> predicted_file_bytes z (be_largest_table_bytes estimate) then Some Bytes
      else None)"

definition observe_committed :: "flush_sizing \<Rightarrow> nat \<Rightarrow> nat \<Rightarrow> flush_sizing" where
  "observe_committed z largest_mapper_bytes largest_file_bytes =
     (let minimum_sample = max 1 (min (1024 * 1024) (fz_target_bytes z div 4)) in
      if fz_target_bytes z = 0 \<or> largest_mapper_bytes < minimum_sample \<or> largest_file_bytes = 0 then z
      else
        let sample = max (1/1024) (min 1024 (f64_round (f64_round (of_nat largest_file_bytes) / f64_round (of_nat largest_mapper_bytes)))) in
        z\<lparr> fz_ratio := (if fz_observed z then f64_round (f64_round (fz_ratio z * (1/2)) + f64_round (sample * (1/2))) else sample),
           fz_observed := True \<rparr>)"

section \<open>The trigger of a window\<close>

datatype mapper_flush_trigger = MemoryTrigger | BytesTrigger | BlocksTrigger | RowsTrigger | IntervalTrigger | IdleTrigger

definition above :: "nat option \<Rightarrow> nat \<Rightarrow> bool" where
  "above limit n = (case limit of None \<Rightarrow> False | Some l \<Rightarrow> 0 < l \<and> l \<le> n)"

definition next_mapper_flush_trigger ::
  "nat option \<Rightarrow> nat \<Rightarrow> nat option \<Rightarrow> nat \<Rightarrow> nat option \<Rightarrow> nat \<Rightarrow> stream_pace \<Rightarrow> flush_sizing \<Rightarrow> mapper_buffer_estimate \<Rightarrow> mapper_flush_trigger option" where
  "next_mapper_flush_trigger flush_rows max_table_rows flush_blocks blocks_since_flush flush_interval_secs window_age pace sizing estimate =
     (let time_to_flush = (pace \<noteq> CatchingUp \<and>
            (case flush_interval_secs of None \<Rightarrow> False | Some secs \<Rightarrow> 0 < secs \<and> secs * 1000000000 \<le> window_age));
          rows_to_flush = above flush_rows max_table_rows;
          blocks_to_flush = (case flush_blocks of None \<Rightarrow> False | Some limit \<Rightarrow> limit \<le> blocks_since_flush) in
      case size_trigger sizing estimate of
        Some Memory \<Rightarrow> Some MemoryTrigger
      | Some Bytes \<Rightarrow> Some BytesTrigger
      | None \<Rightarrow>
          if blocks_to_flush then Some BlocksTrigger
          else if rows_to_flush then Some RowsTrigger
          else if time_to_flush then Some IntervalTrigger
          else None)"

section \<open>Bounds\<close>

text \<open>The bounds of the clamp are powers of two.\<close>

lemma clamp_powers: "(1/1024 :: rat) = 2 powi (- 10)" "(1/2048 :: rat) = 2 powi (- 11)" "(1024 :: rat) = 2 powi 10" "(512 :: rat) = 2 powi 9"
  by (simp_all add: power_int_minus)

lemma f64_clamp: "1/1024 \<le> x \<Longrightarrow> 1/1024 \<le> f64_round x" "x \<le> 1024 \<Longrightarrow> f64_round x \<le> 1024"
  "1/2048 \<le> x \<Longrightarrow> 1/2048 \<le> f64_round x" "x \<le> 512 \<Longrightarrow> f64_round x \<le> 512"
  using f64.at_least_power [of "- 10" x, folded clamp_powers(1)] f64.at_most_power [of x 10, folded clamp_powers(3)]
    f64.at_least_power [of "- 11" x, folded clamp_powers(2)] f64.at_most_power [of x 9, folded clamp_powers(4)]
  by blast+

definition ratio_clamped :: "flush_sizing \<Rightarrow> bool" where
  "ratio_clamped z \<longleftrightarrow> 1/1024 \<le> fz_ratio z \<and> fz_ratio z \<le> 1024"

lemma mixed_clamped:
  assumes "1/1024 \<le> r" "r \<le> 1024" "1/1024 \<le> s" "s \<le> 1024"
  shows "1/1024 \<le> f64_round (f64_round (r * (1/2)) + f64_round (s * (1/2)))" "f64_round (f64_round (r * (1/2)) + f64_round (s * (1/2))) \<le> 1024"
proof -
  have "1/2048 \<le> f64_round (r * (1/2))" "1/2048 \<le> f64_round (s * (1/2))" using assms by (intro f64_clamp(3); simp)+
  then show "1/1024 \<le> f64_round (f64_round (r * (1/2)) + f64_round (s * (1/2)))" by (intro f64_clamp(1)) simp
  have "f64_round (r * (1/2)) \<le> 512" "f64_round (s * (1/2)) \<le> 512" using assms by (intro f64_clamp(4); simp)+
  then show "f64_round (f64_round (r * (1/2)) + f64_round (s * (1/2))) \<le> 1024" by (intro f64_clamp(2)) simp
qed

lemma observe_clamped:
  assumes "ratio_clamped z"
  shows "ratio_clamped (observe_committed z m f)"
proof -
  define sample where "sample = max (1/1024) (min 1024 (f64_round (f64_round (of_nat f) / f64_round (of_nat m))))"
  have s: "1/1024 \<le> sample" "sample \<le> 1024" by (simp_all add: sample_def)
  have r: "1/1024 \<le> fz_ratio z" "fz_ratio z \<le> 1024" using assms by (simp_all only: ratio_clamped_def)
  have "fz_ratio (observe_committed z m f) \<in> {fz_ratio z, sample, f64_round (f64_round (fz_ratio z * (1/2)) + f64_round (sample * (1/2)))}"
    by (simp add: observe_committed_def Let_def sample_def)
  then show ?thesis unfolding ratio_clamped_def using r s mixed_clamped [OF r s] by (elim insertE emptyE) simp_all
qed

lemma observe_limits: "fz_target_bytes (observe_committed z m f) = fz_target_bytes z" "fz_memory_bytes (observe_committed z m f) = fz_memory_bytes z"
  by (simp_all add: observe_committed_def Let_def)

abbreviation observe_all :: "flush_sizing \<Rightarrow> (nat \<times> nat) list \<Rightarrow> flush_sizing" where
  "observe_all \<equiv> foldl (\<lambda>z (m, f). observe_committed z m f)"

lemma observed_clamped: "ratio_clamped z \<Longrightarrow> ratio_clamped (observe_all z commits)"
  by (induction commits arbitrary: z) (auto simp: observe_clamped split: prod.split)

lemma observed_limits:
  "fz_target_bytes (observe_all z commits) = fz_target_bytes z" "fz_memory_bytes (observe_all z commits) = fz_memory_bytes z"
  by (induction commits arbitrary: z) (auto simp: observe_limits split: prod.split)

lemma predicted_mono:
  assumes "ratio_clamped z" "m \<le> n"
  shows "predicted_file_bytes z m \<le> predicted_file_bytes z n"
proof -
  have "0 \<le> fz_ratio z" using assms(1) by (simp add: ratio_clamped_def)
  moreover have "f64_round (of_nat m) \<le> f64_round (of_nat n)" using assms(2) by (intro f64.mono) simp
  ultimately have "f64_round (f64_round (of_nat m) * fz_ratio z) \<le> f64_round (f64_round (of_nat n) * fz_ratio z)"
    using f64.mono [OF mult_right_mono] by blast
  then show ?thesis unfolding predicted_file_bytes_def by (intro min.mono nat_mono ceiling_mono) simp_all
qed

lemma predicted_positive:
  assumes "ratio_clamped z" "0 < n"
  shows "0 < predicted_file_bytes z n"
proof -
  have "2 powi 0 \<le> f64_round (of_nat n)" using assms(2) by (intro f64.at_least_power) simp
  then have "1 * (1/1024) \<le> f64_round (of_nat n) * fz_ratio z" using assms(1) by (intro mult_mono) (simp_all add: ratio_clamped_def)
  then have "1/1024 \<le> f64_round (f64_round (of_nat n) * fz_ratio z)" by (intro f64_clamp(1)) simp
  then have "0 < \<lceil>f64_round (f64_round (of_nat n) * fz_ratio z)\<rceil>" by simp
  then show ?thesis by (simp add: predicted_file_bytes_def u64_max_def)
qed

lemma table_sizes:
  "from_table_sizes sizes = \<lparr> be_largest_table_bytes = min u64_max (Max (set (0 # sizes))), be_total_bytes = min u64_max (sum_list sizes) \<rparr>"
proof (induction sizes rule: rev_induct)
  case Nil
  show ?case by (simp add: from_table_sizes_def)
next
  case (snoc n sizes)
  define M where "M = Max (set (0 # sizes))"
  have "Max (set (0 # sizes @ [n])) = max M n" using Max_insert [of "set (0 # sizes)" n] by (simp add: M_def insert_commute max.commute)
  moreover have "from_table_sizes (sizes @ [n]) = add_table_size (from_table_sizes sizes) n" by (simp add: from_table_sizes_def)
  ultimately show ?case unfolding snoc M_def [symmetric]
    by (auto simp: add_table_size_def Let_def saturating_add_def min_def max_def)
qed

section \<open>Properties\<close>

lemma trigger_grows:
  assumes "ratio_clamped z" "be_largest_table_bytes a \<le> be_largest_table_bytes b" "be_total_bytes a \<le> be_total_bytes b" "size_trigger z a \<noteq> None"
  shows "size_trigger z b \<noteq> None"
  using assms(3,4) predicted_mono [OF assms(1,2)] by (auto simp: size_trigger_def split: if_splits)

lemma next_trigger_grows:
  assumes "ratio_clamped z" "be_largest_table_bytes a \<le> be_largest_table_bytes b" "be_total_bytes a \<le> be_total_bytes b"
    "rows \<le> rows'" "blocks \<le> blocks'" "age \<le> age'"
    "next_mapper_flush_trigger lr rows lb blocks li age pace z a \<noteq> None"
  shows "next_mapper_flush_trigger lr rows' lb blocks' li age' pace z b \<noteq> None"
proof (cases "size_trigger z b")
  case None
  then have "size_trigger z a = None" using trigger_grows [OF assms(1-3)] by blast
  then show ?thesis using assms(4-7) None by (auto simp: next_mapper_flush_trigger_def above_def Let_def split: option.splits if_splits)
next
  case (Some t)
  then show ?thesis by (cases t) (simp_all add: next_mapper_flush_trigger_def Let_def)
qed

text \<open>
  C40. The triggers of a flush, after any completed transactions: an estimate is the largest
  and the sum of the table sizes, saturated; the learned ratio stays between 1/1024 and 1024; a nonempty
  table never predicts an empty file, a prediction fits 64 bits and grows with the table; the memory
  trigger fires exactly when the sum reaches the memory threshold, whatever was learned and at any pace;
  and a window that has a trigger keeps one when its tables, rows, blocks and age grow.
\<close>

theorem size_trigger_sound:
  assumes "sizing_new target memory = Inr z0" "observe_all z0 commits = z"
  shows "from_table_sizes sizes = \<lparr> be_largest_table_bytes = min u64_max (Max (set (0 # sizes))), be_total_bytes = min u64_max (sum_list sizes) \<rparr> \<and>
    1/1024 \<le> fz_ratio z \<and> fz_ratio z \<le> 1024 \<and>
    (0 < n \<longrightarrow> 0 < predicted_file_bytes z n) \<and> predicted_file_bytes z n \<le> u64_max \<and>
    (m \<le> n \<longrightarrow> predicted_file_bytes z m \<le> predicted_file_bytes z n) \<and>
    (next_mapper_flush_trigger lr rows lb blocks li age pace z a = Some MemoryTrigger \<longleftrightarrow> memory \<le> be_total_bytes a) \<and>
    (be_largest_table_bytes a \<le> be_largest_table_bytes b \<and> be_total_bytes a \<le> be_total_bytes b \<and> rows \<le> rows' \<and> blocks \<le> blocks' \<and> age \<le> age' \<and>
       next_mapper_flush_trigger lr rows lb blocks li age pace z a \<noteq> None \<longrightarrow> next_mapper_flush_trigger lr rows' lb blocks' li age' pace z b \<noteq> None)"
proof -
  have z0: "z0 = \<lparr> fz_target_bytes = target, fz_memory_bytes = memory, fz_ratio = 1, fz_observed = False \<rparr>"
    using assms(1) by (auto simp: sizing_new_def bindR_eq_Inr)
  then have c: "ratio_clamped z" using observed_clamped [of z0 commits] assms(2) by (simp add: ratio_clamped_def)
  have "fz_memory_bytes z = memory" using observed_limits(2) [of z0 commits] assms(2) z0 by simp
  then have "next_mapper_flush_trigger lr rows lb blocks li age pace z a = Some MemoryTrigger \<longleftrightarrow> memory \<le> be_total_bytes a"
    by (auto simp: next_mapper_flush_trigger_def size_trigger_def Let_def split: option.splits size_flush_trigger.splits if_splits)
  moreover have "1/1024 \<le> fz_ratio z" "fz_ratio z \<le> 1024" using c by (simp_all only: ratio_clamped_def)
  moreover have "predicted_file_bytes z n \<le> u64_max" by (simp add: predicted_file_bytes_def)
  ultimately show ?thesis
    using table_sizes [of sizes] predicted_positive [OF c, of n] predicted_mono [OF c, of m n] next_trigger_grows [OF c] by blast
qed

theorem size_trigger_sound_witness:
  "\<exists>z0. sizing_new 1048576 67108864 = Inr z0 \<and> fz_ratio (observe_all z0 [(2097152, 262144)]) = 1/8 \<and>
     next_mapper_flush_trigger None 0 None 1 (Some 60) 0 CatchingUp (observe_all z0 [(2097152, 262144)])
       \<lparr> be_largest_table_bytes = 70000000, be_total_bytes = 70000000 \<rparr> = Some MemoryTrigger"
proof -
  let ?z = "\<lparr> fz_target_bytes = 1048576, fz_memory_bytes = 67108864, fz_ratio = 1, fz_observed = False \<rparr>"
    and ?a = "\<lparr> be_largest_table_bytes = 70000000, be_total_bytes = 70000000 \<rparr>"
  have new: "sizing_new 1048576 67108864 = Inr ?z" by (simp add: sizing_new_def)
  have "f64_round (1/8) = 1/8" using f64.power [of "- 3"] by (simp add: power_int_minus)
  then have "fz_ratio (observe_all ?z [(2097152, 262144)]) = 1/8" by (simp add: observe_committed_def f64_numeral)
  moreover have "next_mapper_flush_trigger None 0 None 1 (Some 60) 0 CatchingUp (observe_all ?z [(2097152, 262144)]) ?a = Some MemoryTrigger \<longleftrightarrow>
      67108864 \<le> be_total_bytes ?a"
    using size_trigger_sound [OF new refl] by blast
  then have "next_mapper_flush_trigger None 0 None 1 (Some 60) 0 CatchingUp (observe_all ?z [(2097152, 262144)]) ?a = Some MemoryTrigger" by simp
  ultimately show ?thesis using new by blast
qed

end
