(* ===== verification/Spec2Isabelle.thy ===== *)
theory Spec2Isabelle
  imports Session_New Evm_Decimal Hypercore_Decimal Cursor Flush_Size
begin

text \<open>
  A verification of the ingestion core of \<open>fireparq\<close> (crate \<open>firehose-parquet\<close>), which streams blocks from a
  Firehose endpoint into partitioned Parquet files with one Delta table per output table. Blocks arrive as
  events; a flush turns the accepted prefix of events into one transaction over all tables; the dataset
  records what it holds in an authority document, a journal of the pending transaction, one Delta log per
  table and a cursor mirror. The program promises that every event ends up in the tables exactly once,
  whatever request fails and wherever the process stops.

  \<^bold>\<open>Parts of the program and their theories\<close> (paths below \<open>firehose-parquet/src\<close>)

  \<^item> \<open>Prelude\<close>: results, checked arithmetic and lists; no source of its own.
  \<^item> \<open>Date_Partition\<close> (\<open>date_partition.rs\<close>, \<open>traits.rs\<close>): the \<open>date=YYYY-MM-DD\<close> directory of a timestamp and
    the Date32 value of a row. The calendar of the \<open>time\<close> crate is the record \<open>calendar\<close>, its laws the
    locale \<open>time_crate\<close>, interpreted on the proleptic Gregorian calendar. Shown: directories and dates
    round-trip and agree.
  \<^item> \<open>Canonical_Json\<close>, \<open>Txn_State\<close> (\<open>ingest/state.rs\<close>, \<open>artifacts.rs\<close>): digests over canonical JSON, the stream
    descriptor, checkpoints, the pending transaction with its planned parts and receipts, and the authority.
    Shown: preparation is total and exact on valid inputs, part paths are bounded and never collide,
    receipts are frozen, and the authority advances only by \<open>install\<close> and \<open>complete_request\<close>.
  \<^item> \<open>Frontier\<close> (\<open>ingest/frontier.rs\<close>): ordinals for received events and the contiguous accepted prefix.
    The specification is the history of events with their decisions; the frontier is a function of it.
  \<^item> \<open>Budget\<close> (\<open>writer/protected/budget.rs\<close>, \<open>config.rs\<close>): reservations of encoded bytes in flight.
  \<^item> \<open>Control_Store\<close>, \<open>World\<close> (\<open>durable_state.rs\<close>): the checksummed envelope of a control record, and the
    world of control slots, files, Delta logs and mirror on which every operation runs, with its Hoare
    triples. The locale \<open>control_slot\<close> gives the contract of a slot, interpreted for both slots.
  \<^item> \<open>Txn_Store\<close> (\<open>ingest/store.rs\<close>): the transaction store. It refines the abstract journal, a step
    relation, one step per operation, and what it leaves is always loadable.
  \<^item> \<open>Txn_Parts\<close> (\<open>ingest/parts.rs\<close>, \<open>writer/protected.rs\<close>, \<open>writer/local.rs\<close>): staging, publication,
    verification and rollback of part files.
  \<^item> \<open>Delta_Commit\<close>, \<open>Delta_Exact\<close> (\<open>delta/mod.rs\<close>, \<open>delta/commit.rs\<close>, \<open>delta/stats.rs\<close>): the tables of a dataset, their
    identity, and the commit of a transaction to all of them under bounded concurrency.
  \<^item> \<open>Flush_Plan\<close>, \<open>Flush_Checked\<close> (\<open>writer.rs\<close>, \<open>writer/protected.rs\<close>, \<open>config.rs\<close>): what a flush checks before it
    writes.
  \<^item> \<open>Pipeline\<close>, \<open>Pipeline_Safe\<close>, \<open>Pipeline_Budget\<close> (\<open>ingest/controller/pipeline.rs\<close>): the coordinator of encoders,
    receipts and publications. Every completion order is one schedule of the environment.
  \<^item> \<open>Controller\<close>, \<open>Controller_Safe\<close>, \<open>Controller_Recovery\<close> (\<open>ingest/controller.rs\<close>): a commit, the recovery of
    what an interrupted one left, and the completion of a bounded request.
  \<^item> \<open>Mirror_File\<close>, \<open>Mirror\<close> (\<open>ingest/mirror.rs\<close>): the mirror file, which decodes to the checkpoint it was written
    for and to no other, and its reconciliation with the authority. The locale \<open>mirror_law\<close> is what the
    controller relies on of the trait \<open>MirrorAction\<close>; it is proved for the local and the disabled mirror.
  \<^item> \<open>Binding\<close> (\<open>ingest/binding.rs\<close>, \<open>s3.rs\<close>, \<open>writer.rs\<close>): the identities of the output, the mirror and the S3 service
    of a stream. The path of a resolved output resolves to it again. The locale \<open>file_system\<close> states what is
    used of path canonicalization.
  \<^item> \<open>Eligibility\<close> (\<open>ingest/eligibility.rs\<close>): whether a new stream may start on a root. The walk of a local root
    terminates and accepts exactly the trees of bare directories; a root that passes is empty.
  \<^item> \<open>Session\<close>, \<open>Session_Safe\<close>, \<open>Session_Frontier\<close>, \<open>Session_Live\<close>, \<open>Session_New\<close>, \<open>Session_Sample\<close>
    (\<open>ingest/session.rs\<close>): a session over the frontier and the controller, and any sequence of sessions on one
    dataset. The locale \<open>admission_law\<close> is what a session relies on of the admission checks; it is proved for
    the checks of \<open>Eligibility\<close>.
  \<^item> \<open>Radix\<close>, \<open>Evm_Decimal\<close> (\<open>blocks/src/evm/decimal.rs\<close>): the decimal text of EVM amounts, written by long division
    on 64- and 128-bit words into a buffer, is the decimal representation of the bytes.
  \<^item> \<open>Hypercore_Decimal\<close> (\<open>blocks/src/hypercore/decimal.rs\<close>, \<open>reference/src/values.rs\<close>): both parsers of decimal
    amounts are exact on 128-bit words, and the canonical printer inverts them.
  \<^item> \<open>Byte_Text\<close> (\<open>encode.rs\<close>, \<open>encode/fixed_base58.rs\<close>): the text of byte fields; the fixed-width Base58 encoder
    is base 58. The locale \<open>byte_codec_laws\<close> states what is used of the crates.
  \<^item> \<open>Float64\<close>, \<open>Flush_Pace\<close>, \<open>Flush_Size\<close> (\<open>flush.rs\<close>, \<open>flush/pace.rs\<close>, \<open>blocks/src/bin/main.rs\<close>): when a flush is due. The
    pace detector switches only on its documented evidence; the size triggers are bounded and monotone.
    Floats are rationals rounded to 53 bits; the locale \<open>rounding\<close> is what the proofs use of them.
  \<^item> \<open>Cursor\<close> (\<open>cursor.rs\<close>): the cursor file; it loads as it was saved. The locale \<open>parquet_crate\<close> states what is used
    of the Parquet library.
  The properties of this theory span all of them: exactly once over the life of a dataset from an empty root
  on, all or nothing for a commit, resolution by recovery, the mirror never ahead of the authority, the
  frontier in step with it, and that a new and a settled dataset open.

  \<^bold>\<open>State and failure.\<close> A \<open>world\<close> is what survives a process. A computation of type \<open>'a io\<close> takes a world and
  returns a result and a world; each single storage request consults the environment, which lets it
  succeed, fail before it took effect or fail after it did. A stopped process is a run in which all later
  requests fail without effect, so a theorem about every environment covers every crash point. The
  values a process holds in memory (\<open>controller\<close>, \<open>session\<close>, \<open>coordinator\<close>) are records passed along. Errors are
  values; the messages of long diagnostics are shortened, and code that only builds them is left out.

  \<^bold>\<open>What is assumed of code outside the repository\<close>, always as a named hypothesis with a concrete instance:
  \<open>sha256_hex\<close> (the digest is 64 lower hex digits), \<open>digest_acyclic\<close> (a checkpoint is not its own
  predecessor by hash), \<open>delta_laws\<close> (a Delta commit is conditional on the snapshot it was built from: of
  the commits of one application past a snapshot at most one lands, and what lands later was submitted),
  \<open>parquet_crate\<close> and \<open>mirror_format\<close> (what the Parquet writer wrote is read back, and the text of an envelope
  parses to it), \<open>mirror_law\<close> for a mirror action that is not the local one (it writes the mirror only, only for
  the authority it is given, and success leaves a mirror that shows it), \<open>file_system\<close> (canonical paths
  have no links), \<open>root_listing\<close> (every file of a dataset is listed below its root, the checks of buckets
  find what is there and the checks of a root only read), a maintenance check that only reads, \<open>healthy\<close> and \<open>undisturbed\<close> for what has to succeed.

  \<^bold>\<open>Bounds and termination.\<close> Ordinals, sizes and revisions are naturals with the checked \<open>u64\<close> arithmetic of the
  source (\<open>checked_add\<close>, \<open>u64_max\<close>); timestamps are integers. The loops \<open>drain\<close>, \<open>run_bounded\<close>, \<open>publish_loop\<close> and
  \<open>walk\<close> terminate by measures (events buffered; commits left; parts left in each stage; entries left); no
  fuel is used.

  \<^bold>\<open>Choices of the model.\<close> Control slots hold typed records: the round trip of \<open>Control_Store\<close> shows that the
  stored bytes decode to them. The mirror is the bytes of its file. Only the local backend is modelled; the S3 backends implement the same slot
  and part interfaces over conditional requests. A table commit of \<open>run_bounded\<close> is one step at the point the
  scheduler picks it, since tables share no state; \<open>open_specs\<close> opens the tables one after another. Timings,
  metrics and the measured memory peaks are left out.

  \<^bold>\<open>Not modelled.\<close> The mappers of the chains (crate \<open>blocks\<close>: protobuf to Arrow columns, largely builder calls),
  the process around a session, the gRPC client and its reconnects, the CLI and the schema documentation, S3 storage and the dataset
  locks, the discovery of maintenance markers, the reference and maintenance crates, networks, authentication and metrics. The manifest lists
  them with the reasons.
\<close>

section \<open>The life of a dataset\<close>





text \<open>
  C12. A working session and its dataset are in step: after any operations, the frontier
  of a session that has not failed is the one of a history of received and decided events since the
  checkpoint it resumed from, and the authority in the store is at the end of the acknowledged part of
  this history, with the ordinal, the last event and the routing state it has there. What a flush commits
  next therefore starts right after the authority.
\<close>

theorem session_in_step:
  assumes "deployment_laws dp app" "identity_of (e_ext (dp_env dp)) (au_descriptor a0) = Inr i" "app_id i = app"
    "list_all op_wf ops" "begins (dp_env dp) app a0 ops w" "session_run dp ops None w = ((Some s, acks), w')" "\<not> ss_failed s"
  shows "\<exists>a c h k. w_state w' = Some a \<and> ct_authority (ss_controller s) = a \<and>
    ss_frontier s = frontier_of (e_ext (dp_env dp)) c h k (Frontier.settled h) \<and> k \<le> Frontier.settled h \<and>
    cp_ordinal (au_checkpoint (snd a)) = cp_ordinal c + k \<and>
    cp_event (au_checkpoint (snd a)) = (if k = 0 then cp_event c else Some (fst (h ! (k - 1)))) \<and>
    cp_routing (au_checkpoint (snd a)) = routing_after (cp_routing c) (take k h) \<and>
    (\<forall>prefix. snapshot (e_ext (dp_env dp)) (ss_frontier s) = Inr (Some prefix) \<longrightarrow>
       ap_first_ordinal prefix = cp_ordinal (au_checkpoint (snd a)) + 1 \<and> ap_first_ordinal prefix \<le> ap_last_ordinal prefix)"
proof -
  let ?x = "e_ext (dp_env dp)" and ?a = "ct_authority (ss_controller s)"
  have life: "lived dp app a0 (Some s) acks w'" by (rule life_of_dataset [OF assms(1-6)]) simp_all
  then have "in_step ?x s" using assms(7) by (simp add: lived_def synchronous_def)
  then obtain c h k where h: "follows ?x c h k (ss_frontier s)" "ends_at c h k (au_checkpoint (snd ?a))" by (rule in_stepE)
  obtain ps where "working (dp_env dp) app a0 ps (Some s) w'" using life by (auto simp: lived_def)
  then have a: "w_state w' = Some ?a" using assms(7) by (simp add: working_def live_def settled_def based_def)
  have "ap_first_ordinal prefix = cp_ordinal (au_checkpoint (snd ?a)) + 1 \<and> ap_first_ordinal prefix \<le> ap_last_ordinal prefix"
    if snap: "snapshot ?x (ss_frontier s) = Inr (Some prefix)" for prefix
  proof -
    have "tracks ?x c h k (ss_frontier s)" using h(1) snap by (auto simp: follows_def snapshot_def resume_def)
    from snapshot_tracks(1-3) [OF this snap] h(2) show ?thesis by (simp add: ends_at_def)
  qed
  then show ?thesis using follows_frontier [OF h(1)] h(2) a unfolding ends_at_def by blast
qed

theorem session_in_step_witness:
  "\<exists>i s acks w'. session_run sample_deployment [Open sample_descriptor sample_columns sample_limits] None (chain_tables i) = ((Some s, acks), w') \<and>
     w_state w' = Some (ct_authority (ss_controller s)) \<and> fr_base (ss_frontier s) = cp_ordinal (au_checkpoint (session_authority s))"
proof -
  obtain i where i: "identity_of chain_ext sample_descriptor = Inr i" using chain_identity by blast
  obtain s w' where s: "session_open chain_env (dp_mirror sample_deployment) sample_admission sample_descriptor sample_columns sample_limits
      (chain_tables i) = (Inr s, w')" "\<not> ss_failed s"
    by (rule chain_opens [OF i])
  have run: "session_run sample_deployment [Open sample_descriptor sample_columns sample_limits] None (chain_tables i) = ((Some s, []), w')"
    using s(1) by (simp add: sample_deployment_def)
  have x: "identity_of (e_ext (dp_env sample_deployment)) (au_descriptor chain_authority) = Inr i"
    using i chain_authority(2) by (simp add: sample_deployment_def)
  have wf: "list_all op_wf [Open sample_descriptor sample_columns sample_limits]" by (simp add: sample_limits_def u64_max_def)
  obtain a c h k where "w_state w' = Some a" "ct_authority (ss_controller s) = a"
    "ss_frontier s = frontier_of (e_ext (dp_env sample_deployment)) c h k (Frontier.settled h)" "cp_ordinal (au_checkpoint (snd a)) = cp_ordinal c + k"
    using session_in_step [OF sample_deployment_laws x refl wf begins_initialized [OF chain_tables_settled(2)] run s(2)] by blast
  then have "w_state w' = Some (ct_authority (ss_controller s)) \<and> fr_base (ss_frontier s) = cp_ordinal (au_checkpoint (session_authority s))"
    by (simp add: frontier_of_def session_authority_def)
  with run show ?thesis by blast
qed





text \<open>
  C20. A session that stopped in the middle of an operation does nothing more:
  whatever is asked of it before the dataset is opened again, the storage does not change, nothing is
  acknowledged, and the session stays as it is.
\<close>

theorem failed_session_is_inert:
  assumes "ss_failed s" "list_all (\<lambda>op. \<nexists>d columns l. op = Open d columns l) ops"
  shows "session_run dp ops (Some s) w = ((Some s, []), w)"
  using assms
proof (induction ops)
  case (Cons op ops)
  then show ?case using failed_step [of s op dp w] by simp
qed simp

theorem failed_session_is_inert_witness:
  "session_run sample_deployment [Flush [] \<lparr> bm_min_block_number = 0, bm_max_block_number = 0, bm_min_timestamp = None, bm_max_timestamp = None \<rparr>
       CompSnappy [], CompleteRequest 11 True]
     (Some \<lparr> ss_controller = chain_controller, ss_frontier = resume (au_checkpoint chain_authority), ss_failed = True \<rparr>) chain_created =
   ((Some \<lparr> ss_controller = chain_controller, ss_frontier = resume (au_checkpoint chain_authority), ss_failed = True \<rparr>, []), chain_created)"
  by (rule failed_session_is_inert) simp_all

section \<open>A commit and its recovery\<close>

text \<open>
  C2. A commit of an accepted prefix ends in one of two ways. It succeeds: then the
  authority has advanced by this prefix, all parts are in place, every Delta table has exactly its commit
  added, nothing is pending, the mirror shows the authority, and the report describes the transaction. Or it fails, wherever it stopped:
  then the controller refuses to go on and the dataset has no trace of the transaction, or a journaled
  transaction for this prefix in a state that recovery resolves.
\<close>

theorem commit_all_or_nothing:
  assumes "sha256_hex (e_ext e)" "digest_acyclic (e_ext e)" "delta_laws e app" "mirror_law e reconcile"
    "settled e app H (ct_authority c) w" "ready_for e app H c dt w"
    "controller_commit e reconcile multi_thread c prefix batches metadata compression file_metadata w = (r, w')"
  shows "\<exists>res c'. r = Inr (res, c') \<and>
    (case res of
       Inr flush \<Rightarrow> \<not> ct_failed c' \<and> (\<exists>p. pt_prefix p = prefix \<and>
         install (e_ext e) (snd (ct_authority c)) p = Inr (snd (ct_authority c')) \<and>
         settled e app (extend_ledger app H p) (ct_authority c') w' \<and> in_place e p w' \<and>
         mirror_current e (snd (ct_authority c')) (w_mirror w') \<and>
         committed_flush_of c' p (fl_delta flush) = Inr flush)
     | Inl _ \<Rightarrow> ct_failed c' \<and> left_by e app H (ct_authority c) prefix w')"
proof -
  have ac: "acyclic_pending p" if "prepare (e_ext e) (snd (ct_authority c)) prefix tables comp = Inr p" for tables comp p
    by (rule acyclic_from_digests [OF assms(1,2) prepare_ok(1) [OF that]])
  obtain rc v where run: "controller_commit e reconcile multi_thread c prefix batches metadata compression file_metadata w = (Inr rc, v)"
    and ce: "commit_end e app H (ct_authority c) prefix rc v"
    by (rule triple_success [OF commit_triple [OF assms(1,3-5) refl assms(6) ac] refl])
  obtain res c' where rc: "rc = (res, c')" by (cases rc)
  have v: "v = w'" "r = Inr rc" using run assms(7) by simp_all
  show ?thesis
  proof (cases res)
    case (Inl err)
    then show ?thesis using ce rc v by (simp add: commit_end_def)
  next
    case (Inr flush)
    then obtain h dt' where "applied e app H (ct_authority c) prefix h (ct_authority c')"
      "settled e app (extend_ledger app H (snd h)) (ct_authority c') v" "in_place e (snd h) v"
      "ready_for e app (extend_ledger app H (snd h)) c' dt' v" "committed_flush_of c' (snd h) (fl_delta flush) = Inr flush"
      using ce unfolding commit_end_def rc fst_conv snd_conv Inr sum.case by blast
    then have "\<not> ct_failed c' \<and> (\<exists>p. pt_prefix p = prefix \<and>
         install (e_ext e) (snd (ct_authority c)) p = Inr (snd (ct_authority c')) \<and>
         settled e app (extend_ledger app H p) (ct_authority c') w' \<and> in_place e p w' \<and>
         mirror_current e (snd (ct_authority c')) (w_mirror w') \<and>
         committed_flush_of c' p (fl_delta flush) = Inr flush)"
      unfolding v(1) applied_def ready_for_def by blast
    then show ?thesis using rc v(2) Inr by simp
  qed
qed

theorem commit_all_or_nothing_witness:
  "\<exists>res c' w'. controller_commit chain_env (dp_mirror sample_deployment) False chain_controller sample_prefix [(''blocks'', sample_rows)]
       \<lparr> bm_min_block_number = 10, bm_max_block_number = 10, bm_min_timestamp = Some 1700000000, bm_max_timestamp = Some 1700000000 \<rparr>
       CompSnappy [] chain_created = (Inr (res, c'), w') \<and>
     (case res of Inr _ \<Rightarrow> \<not> ct_failed c' | Inl _ \<Rightarrow> ct_failed c')"
proof -
  let ?commit = "controller_commit chain_env (dp_mirror sample_deployment) False chain_controller sample_prefix [(''blocks'', sample_rows)]
       \<lparr> bm_min_block_number = 10, bm_max_block_number = 10, bm_min_timestamp = Some 1700000000, bm_max_timestamp = Some 1700000000 \<rparr>
       CompSnappy [] chain_created"
  obtain r w' where run: "?commit = (r, w')" by (metis surj_pair)
  have "sha256_hex (e_ext chain_env)" "digest_acyclic (e_ext chain_env)" "mirror_law chain_env (dp_mirror sample_deployment)"
    using chain_sha256_hex chain_acyclic chain_mirror.mirror_law_axioms by simp_all
  from commit_all_or_nothing [OF this(1,2) chain_delta_laws this(3) chain_settled run]
  obtain res c' where r: "r = Inr (res, c')" and ended: "case res of Inr flush \<Rightarrow> \<not> ct_failed c' \<and> (\<exists>p. pt_prefix p = sample_prefix \<and>
         install (e_ext chain_env) (snd (ct_authority chain_controller)) p = Inr (snd (ct_authority c')) \<and>
         settled chain_env (app_id sample_identity) (extend_ledger (app_id sample_identity) (\<lambda>_. []) p) (ct_authority c') w' \<and>
         in_place chain_env p w' \<and> mirror_current chain_env (snd (ct_authority c')) (w_mirror w') \<and> committed_flush_of c' p (fl_delta flush) = Inr flush)
     | Inl _ \<Rightarrow> ct_failed c' \<and> left_by chain_env (app_id sample_identity) (\<lambda>_. []) (ct_authority chain_controller) sample_prefix w'"
    by blast
  have "case res of Inr _ \<Rightarrow> \<not> ct_failed c' | Inl _ \<Rightarrow> ct_failed c'" using ended by (cases res) simp_all
  with run r show ?thesis by blast
qed

text \<open>
  C3. From every state an interrupted process leaves, opening the controller resolves
  the pending transaction: a Writing transaction is rolled back and its files are gone, a Committed one is
  in every Delta table and in the authority, and the dataset is settled at the corresponding ledger with a
  mirror that shows the authority. When
  opening fails, the dataset is again in such a state, of the same history or of the one with the
  transaction completed.
\<close>

theorem recovery_resolves:
  assumes "sha256_hex (e_ext e)" "delta_laws e app" "mirror_law e reconcile" "app_id (dt_identity dt) = app"
    "consistent e app H w" "w_state w = Some a" "all_loaded app H (unfinished app a (w_pending w)) dt w"
    "open_reserved e reconcile expected (Some dt) concurrency w = (r, w')"
  shows "case r of
      Inr c \<Rightarrow> au_descriptor (snd a) = expected \<and> \<not> ct_failed c \<and>
        settled e app (resolved app H a (w_pending w)) (ct_authority c) w' \<and> mirror_current e (snd (ct_authority c)) (w_mirror w') \<and>
        (case behind (snd a) (w_pending w) of
           None \<Rightarrow> ct_authority c = a
         | Some p \<Rightarrow> install (e_ext e) (snd a) p = Inr (snd (ct_authority c))) \<and>
        (\<forall>h. w_pending w = Some h \<longrightarrow> pt_phase (snd h) = Writing \<longrightarrow> w_files w' = w_files w |` (- part_names (snd h)))
    | Inl _ \<Rightarrow> consistent e app H w' \<or> consistent e app (resolved app H a (w_pending w)) w'"
proof (cases r)
  case (Inl err)
  have "unrecovered e app H a w w'"
    by (rule tripleD(2) [OF open_triple [OF assms(1-7)] refl]) (use assms(8) Inl in simp)
  then show ?thesis using Inl by (auto simp: unrecovered_def)
next
  case (Inr c)
  have "recovered e app H a dt w (ct_authority c, ct_delta c) w'" "au_descriptor (snd a) = expected" "\<not> ct_failed c"
    using tripleD(1) [OF open_triple [OF assms(1-7)] refl, of expected concurrency c w'] assms(8) Inr by auto
  then show ?thesis unfolding Inr sum.case recovered_def fst_conv by blast
qed

theorem recovery_resolves_witness:
  "\<exists>p r w'. prepare chain_ext chain_authority sample_prefix sample_tables Snappy = Inr p \<and>
     open_reserved chain_env (dp_mirror sample_deployment) sample_descriptor (Some sample_opened) sample_limits (chain_stopped p) = (r, w') \<and>
     (case r of
        Inr c \<Rightarrow> settled chain_env (app_id sample_identity) (\<lambda>_. []) (ct_authority c) w' \<and> w_files w' = w_files (chain_stopped p) |` (- part_names p)
      | Inl _ \<Rightarrow> consistent chain_env (app_id sample_identity) (\<lambda>_. []) w')"
proof -
  let ?app = "app_id sample_identity" and ?a = "ct_authority chain_controller"
  obtain p where p: "prepare chain_ext chain_authority sample_prefix sample_tables Snappy = Inr p" using chain_prepared by blast
  let ?w = "chain_stopped p"
  obtain r w' where run: "open_reserved chain_env (dp_mirror sample_deployment) sample_descriptor (Some sample_opened) sample_limits ?w = (r, w')"
    by (metis surj_pair)
  have law: "sha256_hex (e_ext chain_env)" "mirror_law chain_env (dp_mirror sample_deployment)" "app_id (dt_identity sample_opened) = ?app"
    using chain_sha256_hex chain_mirror.mirror_law_axioms by (simp_all add: sample_opened_def)
  note ab = chain_aborting [OF p]
  have w: "consistent chain_env ?app (\<lambda>_. []) ?w" "w_state ?w = Some ?a" "w_pending ?w = Some (\<lparr> cv_incarnation = ''p'', cv_revision = 0, cv_digest = ''x'' \<rparr>, p)"
    using ab(1) [of ?app] by (rule consistentI(2), simp_all add: aborting_def based_def)
  have "behind (snd ?a) (w_pending ?w) = None" using behind_states(1) [OF ab(1)] w(3) by simp
  then have res: "resolved ?app (\<lambda>_. []) ?a (w_pending ?w) = (\<lambda>_. [])" using resolved_cases(1) by blast
  note opened = recovery_resolves [OF law(1) chain_delta_laws law(2,3) w(1,2) ab(2) run]
  show ?thesis
  proof (intro exI conjI)
    show "case r of
        Inr c \<Rightarrow> settled chain_env ?app (\<lambda>_. []) (ct_authority c) w' \<and> w_files w' = w_files ?w |` (- part_names p)
      | Inl _ \<Rightarrow> consistent chain_env ?app (\<lambda>_. []) w'"
      using opened [unfolded res] prepare_ok(2) [OF p] w(3) by (cases r) auto
  qed (fact p run)+
qed

end
